(* ===== verification/Lnav_Prelude.thy ===== *)
theory Lnav_Prelude
  imports Main "HOL-Library.Word" "HOL-Library.Signed_Division"
begin

text \<open>
  Shared vocabulary of the development: bytes and their \<open>signed char\<close> value, decimal digits,
  total reads of a NUL-terminated buffer, and the generic list lemmas that the component theories
  use through the collections below.
\<close>

named_theorems buf_simps "reads of a buffer that is split around the current offset"
named_theorems digit_simps "decimal digits as characters and back"

section \<open>Characters\<close>

text \<open>
  The program is compiled where \<open>char\<close> is signed: a byte above 127 reads as a negative number in
  the arithmetic of the parsers (\<open>str[off] - '0'\<close>).
\<close>

definition schar :: "char \<Rightarrow> int" where
  "schar c = (let n = of_char c :: int in if n < 128 then n else n - 256)"

text \<open>\<open>isdigit\<close>, \<open>isalpha\<close>, \<open>isspace\<close> and \<open>isxdigit\<close> of the C locale.\<close>

definition isdigit :: "char \<Rightarrow> bool" where
  "isdigit c \<longleftrightarrow> 48 \<le> schar c \<and> schar c \<le> 57"

definition islower_c :: "char \<Rightarrow> bool" where
  "islower_c c \<longleftrightarrow> 97 \<le> schar c \<and> schar c \<le> 122"

definition isupper_c :: "char \<Rightarrow> bool" where
  "isupper_c c \<longleftrightarrow> 65 \<le> schar c \<and> schar c \<le> 90"

definition isalpha :: "char \<Rightarrow> bool" where
  "isalpha c \<longleftrightarrow> isupper_c c \<or> islower_c c"

definition isspace :: "char \<Rightarrow> bool" where
  "isspace c \<longleftrightarrow> c \<in> {CHR '' '', CHR 0x09, CHR 0x0A, CHR 0x0B, CHR 0x0C, CHR 0x0D}"

definition isxdigit :: "char \<Rightarrow> bool" where
  "isxdigit c \<longleftrightarrow> isdigit c \<or> (65 \<le> schar c \<and> schar c \<le> 70) \<or> (97 \<le> schar c \<and> schar c \<le> 102)"

text \<open>\<open>str[off] - '0'\<close>, and \<open>'0' + d\<close> stored in a \<open>char\<close>.\<close>

definition dig :: "char \<Rightarrow> int" where
  "dig c = schar c - 48"

definition digit_char :: "int \<Rightarrow> char" where
  "digit_char d = char_of (48 + d)"

lemma schar_digit_char [digit_simps]: "0 \<le> d \<Longrightarrow> d < 10 \<Longrightarrow> schar (digit_char d) = 48 + d"
  by (simp add: schar_def digit_char_def Let_def)

lemma dig_digit_char [digit_simps]: "0 \<le> d \<Longrightarrow> d < 10 \<Longrightarrow> dig (digit_char d) = d"
  by (simp add: dig_def schar_digit_char)

lemma isdigit_digit_char [digit_simps]: "0 \<le> d \<Longrightarrow> d < 10 \<Longrightarrow> isdigit (digit_char d)"
  by (simp add: isdigit_def schar_digit_char)

lemma isdigit_dig: "isdigit c \<longleftrightarrow> 0 \<le> dig c \<and> dig c \<le> 9"
  by (auto simp: isdigit_def dig_def)

lemma digit_char_neq [digit_simps]:
  assumes "0 \<le> d" and "d < 10" and "schar c < 48 \<or> 57 < schar c"
  shows "digit_char d \<noteq> c" and "c \<noteq> digit_char d"
  using assms schar_digit_char [of d] by auto

text \<open>The digit the code writes for \<open>(x / p) % 10\<close> (\<open>'/'\<close> and \<open>'%'\<close> truncate).\<close>

definition cdigit :: "int \<Rightarrow> int \<Rightarrow> char" where
  "cdigit x p = digit_char ((x sdiv p) smod 10)"

lemma sdiv_nonneg: "0 \<le> x \<Longrightarrow> 0 < p \<Longrightarrow> x sdiv p = x div (p::int)"
  by (auto simp: signed_divide_int_def sgn_if)

lemma smod_nonneg: "0 \<le> x \<Longrightarrow> 0 < p \<Longrightarrow> x smod p = x mod (p::int)"
  by (cases "x = 0") (simp_all add: signed_modulo_int_def)

lemma cdigit_nonneg:
  "0 \<le> x \<Longrightarrow> 0 < p \<Longrightarrow> cdigit x p = digit_char (x div p mod 10)"
  by (simp add: cdigit_def sdiv_nonneg smod_nonneg pos_imp_zdiv_nonneg_iff)

text \<open>The sign correction after a truncating remainder gives the rounding-down one.\<close>

lemma smod_wrap:
  fixes k n :: int
  assumes "0 < n"
  shows "(if k smod n < 0 then k smod n + n else k smod n) = k mod n"
proof (cases "0 \<le> k")
  case True
  with assms show ?thesis using pos_mod_sign [of n k] by (simp add: smod_nonneg not_less)
next
  case False
  then have s: "k smod n = - ((- k) mod n)" using assms by (simp add: signed_modulo_int_def)
  define r where "r = (- k) mod n"
  have "k mod n = (if r = 0 then 0 else n - r)"
    using zmod_zminus1_eq_if [of "- k" n] by (simp add: r_def)
  moreover have "0 \<le> r" unfolding r_def by (rule pos_mod_sign [OF assms])
  moreover have "k smod n = - r" using s by (simp add: r_def)
  ultimately show ?thesis by (cases "r = 0") simp_all
qed

lemma sint_small: "uint w < 2 ^ 63 \<Longrightarrow> sint (w :: 64 word) = uint w"
proof -
  assume w: "uint w < 2 ^ 63"
  have "- (2 ^ 63) \<le> uint w" by (rule order_trans [OF _ uint_nonnegative]) simp
  then have "signed_take_bit 63 (uint w) = uint w" using w by (rule signed_take_bit_int_eq_self)
  then show ?thesis by (simp add: sint_uint)
qed

lemma sint_word_of_small:
  "0 \<le> x \<Longrightarrow> x < 4000000000 \<Longrightarrow> sint (word_of_int x :: 64 word) = x"
  by (subst sint_small) (simp_all add: uint_word_of_int take_bit_int_eq_self)

lemma mod_zero_trans:
  fixes x :: int
  shows "n dvd m \<Longrightarrow> x mod m = 0 \<Longrightarrow> x mod n = 0"
  by (metis dvd_trans mod_eq_0_iff_dvd)

lemma int_div_shift:
  fixes x y n k :: int
  shows "0 < n \<Longrightarrow> y = x + k * n \<Longrightarrow> y div n = x div n + k"
  by simp

lemma int_mod_shift:
  fixes x y n k :: int
  shows "y = x + k * n \<Longrightarrow> y mod n = x mod n"
  by simp

section \<open>Buffers\<close>

text \<open>
  A C string of known length: reading at its length gives the terminating NUL. The code never
  reads further.
\<close>

definition str_at :: "char list \<Rightarrow> nat \<Rightarrow> char" where
  "str_at s i = (if i < length s then s ! i else CHR 0x00)"

lemma str_at_split [buf_simps]:
  "str_at (pre @ c # post) (length pre) = c"
  "str_at (pre @ c # d # post) (Suc (length pre)) = d"
  by (simp_all add: str_at_def nth_append)

lemma str_at_mid [buf_simps]:
  "i < length w \<Longrightarrow> str_at (pre @ w @ post) (length pre + i) = w ! i"
  by (simp add: str_at_def nth_append)

lemma str_at_end: "length s \<le> i \<Longrightarrow> str_at s i = CHR 0x00"
  by (simp add: str_at_def)

section \<open>Decimal numbers\<close>

text \<open>\<open>printf("%ld")\<close> of a number, and the value of a run of digits read from the left.\<close>

function nat_digits :: "nat \<Rightarrow> char list" where
  "nat_digits n =
     (if n < 10 then [digit_char (int n)]
      else nat_digits (n div 10) @ [digit_char (int (n mod 10))])"
  by pat_completeness auto
termination
  by (relation "measure id") auto

declare nat_digits.simps [simp del]

definition dec_str :: "int \<Rightarrow> char list" where
  "dec_str i = (if i < 0 then CHR ''-'' # nat_digits (nat (- i)) else nat_digits (nat i))"

definition digits_val :: "char list \<Rightarrow> int" where
  "digits_val cs = foldl (\<lambda>v c. v * 10 + dig c) 0 cs"

lemma nat_digits_isdigit: "c \<in> set (nat_digits n) \<Longrightarrow> isdigit c"
proof (induction n rule: nat_digits.induct)
  case (1 n)
  then show ?case
    by (cases "n < 10") (auto simp: nat_digits.simps [of n] digit_simps)
qed

lemma nat_digits_nonempty [simp]: "nat_digits n \<noteq> []"
  by (subst nat_digits.simps) simp

lemma digits_val_nat_digits: "digits_val (nat_digits n) = int n"
proof (induction n rule: nat_digits.induct)
  case (1 n)
  show ?case
  proof (cases "n < 10")
    case True
    then show ?thesis by (simp add: nat_digits.simps [of n] digits_val_def digit_simps)
  next
    case False
    with 1 have "digits_val (nat_digits (n div 10)) = int (n div 10)" by simp
    with False show ?thesis
      by (simp add: nat_digits.simps [of n] digits_val_def digit_simps zdiv_int zmod_int)
  qed
qed

lemma length_nat_digits: "n < 10 ^ Suc k \<Longrightarrow> length (nat_digits n) \<le> Suc k"
proof (induction k arbitrary: n)
  case 0
  then show ?case by (simp add: nat_digits.simps [of n])
next
  case (Suc k)
  then have "length (nat_digits (n div 10)) \<le> Suc k" if "\<not> n < 10"
    using Suc.IH [of "n div 10"] by simp
  then show ?case by (auto simp: nat_digits.simps [of n])
qed

end
