(* ===== verification/Kmerge.thy ===== *)
theory Kmerge
  imports Lnav_Prelude "HOL-Library.Multiset"
begin

text \<open>
  \<open>src/k_merge_tree.h\<close>: the tournament tree that merges the lines of the log files.

  A node is a record and its children; the parent, sibling and leaf pointers of the code follow from
  the place of a node in the tree. An iterator and the end of its collection are the list of the
  elements between them, so that a default iterator of an unused node is the empty list.
\<close>

section \<open>The tree\<close>

record ('o, 'a) node_rec =
  nr_owner :: "'o option"
  nr_has_iterator :: bool
  nr_rest :: "'a list"

datatype side = From_left | From_right

datatype ('o, 'a) ktree =
  KLeaf "('o, 'a) node_rec"
| KNode "side option" "('o, 'a) node_rec" "('o, 'a) ktree" "('o, 'a) ktree"

definition node_rec_init :: "('o, 'a) node_rec" where
  "node_rec_init = \<lparr>nr_owner = None, nr_has_iterator = False, nr_rest = []\<rparr>"

function log2_loop :: "nat \<Rightarrow> nat \<Rightarrow> nat \<Rightarrow> nat" where
  "log2_loop v square cnt =
    (if square < v \<and> 0 < square then log2_loop v (square * 2) (cnt + 1) else cnt)"
  by pat_completeness auto
termination by (relation "measure (\<lambda>(v, square, cnt). v - square)") auto

declare log2_loop.simps [simp del]

definition kmerge_tree_brute_log2 :: "nat \<Rightarrow> nat" where
  "kmerge_tree_brute_log2 v = log2_loop v 2 1"

definition number_of_levels :: "nat \<Rightarrow> nat" where
  "number_of_levels bucket_qty = (if bucket_qty \<noteq> 0 then kmerge_tree_brute_log2 bucket_qty else 0)"

primrec build_levels :: "nat \<Rightarrow> ('o, 'a) ktree" where
  "build_levels 0 = KLeaf node_rec_init"
| "build_levels (Suc n) = KNode None node_rec_init (build_levels n) (build_levels n)"

text \<open>The first leaf of the leaf list without an iterator takes it; without one it is dropped.\<close>

fun add_leaf :: "'o \<Rightarrow> 'a list \<Rightarrow> ('o, 'a) ktree \<Rightarrow> bool \<times> ('o, 'a) ktree" where
  "add_leaf ow xs (KLeaf r) =
    (if nr_has_iterator r then (False, KLeaf r)
     else (True, KLeaf \<lparr>nr_owner = Some ow, nr_has_iterator = True, nr_rest = xs\<rparr>))"
| "add_leaf ow xs (KNode s r lt rt) =
    (case add_leaf ow xs lt of
       (True, lt') \<Rightarrow> (True, KNode s r lt' rt)
     | (False, lt') \<Rightarrow> (case add_leaf ow xs rt of (b, rt') \<Rightarrow> (b, KNode s r lt' rt')))"

definition kmerge_add :: "'o \<Rightarrow> 'a list \<Rightarrow> ('o, 'a) ktree \<Rightarrow> ('o, 'a) ktree" where
  "kmerge_add ow xs t = (if xs = [] then t else snd (add_leaf ow xs t))"

fun rec_of :: "('o, 'a) ktree \<Rightarrow> ('o, 'a) node_rec" where
  "rec_of (KLeaf r) = r"
| "rec_of (KNode s r lt rt) = r"

text \<open>The side that wins a comparison, \<open>result \<le> 0\<close> for the left one.\<close>

definition winner ::
  "('a \<Rightarrow> 'a \<Rightarrow> bool) \<Rightarrow> ('o, 'a) node_rec \<Rightarrow> ('o, 'a) node_rec \<Rightarrow> side" where
  "winner cmp n1 n2 =
    (if \<not> nr_has_iterator n2 then From_left
     else if \<not> nr_has_iterator n1 then From_right
     else if nr_rest n1 \<noteq> [] \<and> nr_rest n2 \<noteq> []
     then (if cmp (hd (nr_rest n1)) (hd (nr_rest n2)) then From_left else From_right)
     else if nr_rest n1 \<noteq> [] then From_left
     else From_right)"

fun compare_nodes :: "('a \<Rightarrow> 'a \<Rightarrow> bool) \<Rightarrow> ('o, 'a) ktree \<Rightarrow> ('o, 'a) ktree" where
  "compare_nodes cmp (KLeaf r) = KLeaf r"
| "compare_nodes cmp (KNode s r lt rt) =
    (case winner cmp (rec_of lt) (rec_of rt) of
       From_left \<Rightarrow> KNode (Some From_left) (rec_of lt) lt rt
     | From_right \<Rightarrow> KNode (Some From_right) (rec_of rt) lt rt)"

text \<open>One round of \<open>execute\<close>: the pairs of nodes \<open>p\<close> levels above the leaves, in a tree of \<open>d\<close> levels.\<close>

fun compare_level ::
  "('a \<Rightarrow> 'a \<Rightarrow> bool) \<Rightarrow> nat \<Rightarrow> nat \<Rightarrow> ('o, 'a) ktree \<Rightarrow> ('o, 'a) ktree" where
  "compare_level cmp p d (KLeaf r) = KLeaf r"
| "compare_level cmp p d (KNode s r lt rt) =
    (if d = 0 then KNode s r lt rt
     else if d - 1 = p then compare_nodes cmp (KNode s r lt rt)
     else KNode s r (compare_level cmp p (d - 1) lt) (compare_level cmp p (d - 1) rt))"

definition kmerge_execute :: "('a \<Rightarrow> 'a \<Rightarrow> bool) \<Rightarrow> nat \<Rightarrow> ('o, 'a) ktree \<Rightarrow> ('o, 'a) ktree" where
  "kmerge_execute cmp d t = fold (\<lambda>p. compare_level cmp p d) [0..<d] t"

definition get_top :: "('o, 'a) ktree \<Rightarrow> ('o \<times> 'a) option" where
  "get_top t =
    (if nr_has_iterator (rec_of t)
     then (case nr_rest (rec_of t) of [] \<Rightarrow> None | a # _ \<Rightarrow> Some (the (nr_owner (rec_of t)), a))
     else None)"

text \<open>Down the winners to a leaf, whose iterator moves on, and up again.\<close>

fun replay :: "('a \<Rightarrow> 'a \<Rightarrow> bool) \<Rightarrow> ('o, 'a) ktree \<Rightarrow> ('o, 'a) ktree" where
  "replay cmp (KLeaf r) = KLeaf (r\<lparr>nr_rest := tl (nr_rest r)\<rparr>)"
| "replay cmp (KNode s r lt rt) =
    (case s of
       None \<Rightarrow> KNode s (r\<lparr>nr_rest := tl (nr_rest r)\<rparr>) lt rt
     | Some From_left \<Rightarrow> compare_nodes cmp (KNode s r (replay cmp lt) rt)
     | Some From_right \<Rightarrow> compare_nodes cmp (KNode s r lt (replay cmp rt)))"

definition kmerge_next :: "('a \<Rightarrow> 'a \<Rightarrow> bool) \<Rightarrow> ('o, 'a) ktree \<Rightarrow> ('o, 'a) ktree" where
  "kmerge_next cmp t = (if nr_rest (rec_of t) = [] then t else replay cmp t)"

text \<open>The client's loop over \<open>get_top\<close> and \<open>next\<close>, and its whole use of the tree.\<close>

partial_function (option) drain ::
  "('a \<Rightarrow> 'a \<Rightarrow> bool) \<Rightarrow> ('o, 'a) ktree \<Rightarrow> ('o \<times> 'a) list option" where
  "drain cmp t =
    (case get_top t of
       None \<Rightarrow> Some []
     | Some x \<Rightarrow> Option.bind (drain cmp (kmerge_next cmp t)) (\<lambda>out. Some (x # out)))"

declare drain.simps [code]

definition kmerge_all ::
  "('a \<Rightarrow> 'a \<Rightarrow> bool) \<Rightarrow> nat \<Rightarrow> ('o \<times> 'a list) list \<Rightarrow> ('o \<times> 'a) list option" where
  "kmerge_all cmp bucket_qty colls =
    (let d = number_of_levels bucket_qty;
         t = fold (\<lambda>(ow, xs). kmerge_add ow xs) colls (build_levels d)
     in drain cmp (kmerge_execute cmp d t))"

section \<open>The shape of the tree\<close>

fun leaves :: "('o, 'a) ktree \<Rightarrow> ('o, 'a) node_rec list" where
  "leaves (KLeaf r) = [r]"
| "leaves (KNode s r lt rt) = leaves lt @ leaves rt"

fun perfect :: "nat \<Rightarrow> ('o, 'a) ktree \<Rightarrow> bool" where
  "perfect 0 (KLeaf r) = True"
| "perfect (Suc n) (KNode s r lt rt) \<longleftrightarrow> perfect n lt \<and> perfect n rt"
| "perfect _ _ = False"

lemma leaves_nonempty [simp]: "leaves t \<noteq> []"
  by (induction t) auto

lemma perfect_build_levels: "perfect n (build_levels n)"
  by (induction n) auto

lemma leaves_build_levels: "leaves (build_levels n) = replicate (2 ^ n) node_rec_init"
  by (induction n) (auto simp: replicate_add [symmetric] mult_2)

lemma log2_loop_enough: "0 < square \<Longrightarrow> square = 2 ^ cnt \<Longrightarrow> v \<le> 2 ^ log2_loop v square cnt"
proof (induction v square cnt rule: log2_loop.induct)
  case (1 v square cnt)
  then show ?case by (subst log2_loop.simps) auto
qed

lemma number_of_levels_enough: "bucket_qty \<le> 2 ^ number_of_levels bucket_qty"
  using log2_loop_enough [of 2 1 bucket_qty]
  by (simp add: number_of_levels_def kmerge_tree_brute_log2_def)

lemma perfect_add_leaf: "perfect n t \<Longrightarrow> perfect n (snd (add_leaf ow xs t))"
  by (induction n t rule: perfect.induct) (auto split: prod.splits bool.splits)

lemma perfect_kmerge_add: "perfect n t \<Longrightarrow> perfect n (kmerge_add ow xs t)"
  by (simp add: kmerge_add_def perfect_add_leaf)

lemma add_leaf_full: "\<forall>r\<in>set (leaves t). nr_has_iterator r \<Longrightarrow> add_leaf ow xs t = (False, t)"
  by (induction t) auto

lemma add_leaf_leaves:
  "leaves t = used @ r # free \<Longrightarrow> \<forall>r\<in>set used. nr_has_iterator r \<Longrightarrow> \<not> nr_has_iterator r \<Longrightarrow>
   fst (add_leaf ow xs t) \<and> leaves (snd (add_leaf ow xs t)) =
     used @ \<lparr>nr_owner = Some ow, nr_has_iterator = True, nr_rest = xs\<rparr> # free"
proof (induction t arbitrary: used free)
  case (KLeaf q)
  then show ?case by (cases used) auto
next
  case (KNode s q lt rt)
  show ?case
  proof (cases "length used < length (leaves lt)")
    case True
    define free1 where "free1 = drop (Suc (length used)) (leaves lt)"
    have l: "leaves lt = used @ r # free1" "free = free1 @ leaves rt"
      using KNode.prems(1) True unfolding free1_def
      by (auto simp: append_eq_append_conv2 Cons_eq_append_conv append_eq_Cons_conv)
    from KNode.IH(1) [OF l(1) KNode.prems(2,3)] l(2) show ?thesis
      by (auto split: prod.splits bool.splits)
  next
    case False
    then obtain used1 where l: "used = leaves lt @ used1" "leaves rt = used1 @ r # free"
      using KNode.prems(1) by (auto simp: append_eq_append_conv2)
    have full: "add_leaf ow xs lt = (False, lt)"
      using KNode.prems(2) l(1) by (intro add_leaf_full) auto
    from KNode.IH(2) [OF l(2)] KNode.prems(2,3) l(1) full show ?thesis
      by (auto split: prod.splits)
  qed
qed

lemma fold_add_leaves:
  "leaves t = used @ replicate n node_rec_init \<Longrightarrow> \<forall>r\<in>set used. nr_has_iterator r \<Longrightarrow>
   length colls \<le> n \<Longrightarrow>
   leaves (fold (\<lambda>(ow, xs). kmerge_add ow xs) colls t) =
     used @ map (\<lambda>(ow, xs). \<lparr>nr_owner = Some ow, nr_has_iterator = True, nr_rest = xs\<rparr>)
       (filter (\<lambda>(ow, xs). xs \<noteq> []) colls)
     @ replicate (n - length (filter (\<lambda>(ow, xs). xs \<noteq> []) colls)) node_rec_init"
proof (induction colls arbitrary: t used n)
  case (Cons c colls)
  obtain ow xs where c: "c = (ow, xs)" by fastforce
  show ?case
  proof (cases "xs = []")
    case True
    with Cons.IH [OF Cons.prems(1,2)] Cons.prems(3) c show ?thesis by (simp add: kmerge_add_def)
  next
    case False
    obtain m where n: "n = Suc m" using Cons.prems(3) by (cases n) auto
    let ?r = "\<lparr>nr_owner = Some ow, nr_has_iterator = True, nr_rest = xs\<rparr>"
    have "leaves t = used @ node_rec_init # replicate m node_rec_init" using Cons.prems(1) n by simp
    from add_leaf_leaves [OF this Cons.prems(2), of ow xs] False
    have l: "leaves (kmerge_add ow xs t) = (used @ [?r]) @ replicate m node_rec_init"
      by (simp add: kmerge_add_def node_rec_init_def)
    have u: "\<forall>r\<in>set (used @ [?r]). nr_has_iterator r" using Cons.prems(2) by auto
    show ?thesis using Cons.IH [OF l u] Cons.prems(3) c n False by simp
  qed
qed simp

section \<open>Every node holds the winner of its children\<close>

fun played :: "('a \<Rightarrow> 'a \<Rightarrow> bool) \<Rightarrow> ('o, 'a) ktree \<Rightarrow> bool" where
  "played cmp (KLeaf r) \<longleftrightarrow> (nr_has_iterator r \<or> nr_rest r = [])"
| "played cmp (KNode s r lt rt) \<longleftrightarrow> played cmp lt \<and> played cmp rt
    \<and> KNode s r lt rt = compare_nodes cmp (KNode s r lt rt)"

lemma leaves_compare_nodes [simp]: "leaves (compare_nodes cmp t) = leaves t"
  by (cases t) (auto split: side.split)

lemma perfect_compare_nodes [simp]: "perfect n (compare_nodes cmp t) = perfect n t"
  by (cases t; cases n) (auto split: side.split)

lemma played_compare_nodes:
  "played cmp lt \<Longrightarrow> played cmp rt \<Longrightarrow> played cmp (compare_nodes cmp (KNode s r lt rt))"
  by (auto split: side.split)

lemma leaves_compare_level [simp]: "leaves (compare_level cmp p d t) = leaves t"
  by (induction cmp p d t rule: compare_level.induct) (auto simp del: compare_nodes.simps)

lemma perfect_compare_level: "perfect d t \<Longrightarrow> perfect d (compare_level cmp p d t)"
  by (induction d t rule: perfect.induct) (auto simp del: compare_nodes.simps)

text \<open>After the rounds below \<open>p\<close>, the subtrees of \<open>p\<close> levels are played.\<close>

fun played_to :: "('a \<Rightarrow> 'a \<Rightarrow> bool) \<Rightarrow> nat \<Rightarrow> nat \<Rightarrow> ('o, 'a) ktree \<Rightarrow> bool" where
  "played_to cmp p d (KLeaf r) \<longleftrightarrow> played cmp (KLeaf r)"
| "played_to cmp p d (KNode s r lt rt) \<longleftrightarrow>
    (if d \<le> p then played cmp (KNode s r lt rt)
     else played_to cmp p (d - 1) lt \<and> played_to cmp p (d - 1) rt)"

lemma played_to_all: "d \<le> p \<Longrightarrow> played_to cmp p d t = played cmp t"
  by (cases t) auto

lemma played_to_0:
  "perfect d t \<Longrightarrow> \<forall>r\<in>set (leaves t). nr_has_iterator r \<or> nr_rest r = [] \<Longrightarrow> played_to cmp 0 d t"
  by (induction d t rule: perfect.induct) auto

lemma played_to_Suc:
  "perfect d t \<Longrightarrow> played_to cmp p d t \<Longrightarrow> p < d \<Longrightarrow> played_to cmp (Suc p) d (compare_level cmp p d t)"
proof (induction d t rule: perfect.induct)
  case (2 n s r lt rt)
  show ?case
  proof (cases "n = p")
    case True
    with "2.prems" show ?thesis
      by (simp add: played_to_all played_compare_nodes del: compare_nodes.simps played.simps
        split del: if_split)
  next
    case False
    with "2" show ?thesis by (simp del: played.simps)
  qed
qed auto

lemma played_execute:
  assumes "perfect d t" and "\<forall>r\<in>set (leaves t). nr_has_iterator r \<or> nr_rest r = []"
  shows "played cmp (kmerge_execute cmp d t)" and "leaves (kmerge_execute cmp d t) = leaves t"
proof -
  have "perfect d (fold (\<lambda>p. compare_level cmp p d) [0..<p] t)
      \<and> played_to cmp p d (fold (\<lambda>p. compare_level cmp p d) [0..<p] t)
      \<and> leaves (fold (\<lambda>p. compare_level cmp p d) [0..<p] t) = leaves t" if "p \<le> d" for p
    using that assms
    by (induction p) (simp_all add: played_to_0 played_to_Suc perfect_compare_level)
  from this [of d] show "played cmp (kmerge_execute cmp d t)"
    and "leaves (kmerge_execute cmp d t) = leaves t"
    by (simp_all add: kmerge_execute_def played_to_all)
qed

lemma played_children: "played cmp (KNode s r lt rt) \<Longrightarrow> played cmp lt \<and> played cmp rt"
  by simp

lemma played_has: "played cmp t \<Longrightarrow> r \<in> set (leaves t) \<Longrightarrow> nr_rest r \<noteq> [] \<Longrightarrow> nr_has_iterator r"
  by (induction t) (auto dest: played_children simp del: played.simps(2))

lemma rec_of_leaf: "played cmp t \<Longrightarrow> rec_of t \<in> set (leaves t)"
proof (induction t)
  case (KNode s r lt rt)
  then show ?case by (cases "winner cmp (rec_of lt) (rec_of rt)") auto
qed simp

lemma rec_of_winner:
  "played cmp (KNode s r lt rt) \<Longrightarrow>
    r = (case winner cmp (rec_of lt) (rec_of rt) of From_left \<Rightarrow> rec_of lt | From_right \<Rightarrow> rec_of rt)
    \<and> s = Some (winner cmp (rec_of lt) (rec_of rt))"
  by (auto split: side.splits)

lemma replay_played:
  "played cmp t \<Longrightarrow> nr_rest (rec_of t) \<noteq> [] \<Longrightarrow>
   played cmp (replay cmp t) \<and> (\<exists>us vs. leaves t = us @ rec_of t # vs
     \<and> leaves (replay cmp t) = us @ (rec_of t)\<lparr>nr_rest := tl (nr_rest (rec_of t))\<rparr> # vs)"
proof (induction t)
  case (KLeaf r)
  have "leaves (KLeaf r) = [] @ rec_of (KLeaf r) # []" by simp
  with KLeaf show ?case by fastforce
next
  case (KNode s r lt rt)
  have p: "played cmp lt" "played cmp rt" using KNode.prems(1) by simp_all
  show ?case
  proof (cases "winner cmp (rec_of lt) (rec_of rt)")
    case From_left
    with rec_of_winner [OF KNode.prems(1)] have w: "r = rec_of lt" "s = Some From_left" by auto
    with KNode.IH(1) [OF p(1)] KNode.prems(2) obtain us vs where
      "played cmp (replay cmp lt)" "leaves lt = us @ r # vs"
      "leaves (replay cmp lt) = us @ r\<lparr>nr_rest := tl (nr_rest r)\<rparr> # vs" by auto
    with p(2) w show ?thesis
      by (auto simp: played_compare_nodes simp del: compare_nodes.simps played.simps)
  next
    case From_right
    with rec_of_winner [OF KNode.prems(1)] have w: "r = rec_of rt" "s = Some From_right" by auto
    with KNode.IH(2) [OF p(2)] KNode.prems(2) obtain us vs where
      "played cmp (replay cmp rt)" "leaves rt = us @ r # vs"
      "leaves (replay cmp rt) = us @ r\<lparr>nr_rest := tl (nr_rest r)\<rparr> # vs" by auto
    with p(1) w show ?thesis
      by (intro conjI exI [of _ "leaves lt @ us"] exI [of _ vs])
        (simp_all add: played_compare_nodes del: compare_nodes.simps played.simps)
  qed
qed

section \<open>The merge\<close>

definition content :: "('o, 'a) ktree \<Rightarrow> ('o \<times> 'a) multiset" where
  "content t = (\<Sum>r\<leftarrow>leaves t. mset (map (Pair (the (nr_owner r))) (nr_rest r)))"

definition total_left :: "('o, 'a) ktree \<Rightarrow> nat" where
  "total_left t = sum_list (map (length \<circ> nr_rest) (leaves t))"

lemma sum_list_replicate_empty [simp]: "sum_list (replicate n {#}) = {#}"
  by (induction n) auto

text \<open>The comparison of a merge: a strict weak order.\<close>

locale merge_order =
  fixes cmp :: "'a \<Rightarrow> 'a \<Rightarrow> bool"
  assumes asym: "cmp a b \<Longrightarrow> \<not> cmp b a"
    and not_cmp_trans: "\<not> cmp a b \<Longrightarrow> \<not> cmp b c \<Longrightarrow> \<not> cmp a c"
begin

definition in_order :: "'a list \<Rightarrow> bool" where
  "in_order = sorted_wrt (\<lambda>a b. \<not> cmp b a)"

lemma not_cmp_refl: "\<not> cmp a a"
  using asym by blast

text \<open>The root holds an iterator to a least element.\<close>

lemma rec_of_least:
  "played cmp t \<Longrightarrow> x \<in> set (leaves t) \<Longrightarrow> nr_rest x \<noteq> [] \<Longrightarrow>
   nr_rest (rec_of t) \<noteq> [] \<and> \<not> cmp (hd (nr_rest x)) (hd (nr_rest (rec_of t)))"
proof (induction t)
  case (KLeaf r)
  then show ?case by (simp add: not_cmp_refl)
next
  case (KNode s r lt rt)
  have p: "played cmp lt" "played cmp rt" using KNode.prems(1) by simp_all
  let ?l = "rec_of lt" and ?r = "rec_of rt"
  have has: "nr_rest ?l \<noteq> [] \<Longrightarrow> nr_has_iterator ?l" "nr_rest ?r \<noteq> [] \<Longrightarrow> nr_has_iterator ?r"
    using played_has [OF p(1) rec_of_leaf [OF p(1)]] played_has [OF p(2) rec_of_leaf [OF p(2)]] by auto
  have w: "rec_of (KNode s r lt rt) = (case winner cmp ?l ?r of From_left \<Rightarrow> ?l | From_right \<Rightarrow> ?r)"
    using rec_of_winner [OF KNode.prems(1)] by simp
  consider (l) "x \<in> set (leaves lt)" | (r) "x \<in> set (leaves rt)" using KNode.prems(2) by auto
  then show ?case
  proof cases
    case l
    from KNode.IH(1) [OF p(1) l KNode.prems(3)]
    have x: "nr_rest ?l \<noteq> []" "\<not> cmp (hd (nr_rest x)) (hd (nr_rest ?l))" by auto
    show ?thesis unfolding w using x has not_cmp_trans [OF x(2), of "hd (nr_rest ?r)"]
      by (auto simp: winner_def)
  next
    case r
    from KNode.IH(2) [OF p(2) r KNode.prems(3)]
    have x: "nr_rest ?r \<noteq> []" "\<not> cmp (hd (nr_rest x)) (hd (nr_rest ?r))" by auto
    show ?thesis unfolding w
      using x has not_cmp_trans [OF x(2), of "hd (nr_rest ?l)"] asym [of "hd (nr_rest ?l)" "hd (nr_rest ?r)"]
      by (auto simp: winner_def)
  qed
qed

lemma drain_merges:
  "played cmp t \<Longrightarrow> \<forall>r\<in>set (leaves t). in_order (nr_rest r) \<Longrightarrow>
   \<exists>out. drain cmp t = Some out \<and> mset out = content t \<and> in_order (map snd out)"
proof (induction "total_left t" arbitrary: t)
  case 0
  then have e: "\<forall>r\<in>set (leaves t). nr_rest r = []" by (auto simp: total_left_def)
  then have "nr_rest (rec_of t) = []" using rec_of_leaf [OF "0.prems"(1)] by blast
  then have "drain cmp t = Some []" by (subst drain.simps) (simp add: get_top_def)
  moreover have "content t = (\<Sum>r\<leftarrow>leaves t. {#})"
    unfolding content_def using e by (intro arg_cong [of _ _ sum_list] map_cong) auto
  ultimately show ?case by (simp add: in_order_def)
next
  case (Suc n)
  have ex: "\<exists>r\<in>set (leaves t). nr_rest r \<noteq> []"
  proof (rule ccontr)
    assume "\<not> (\<exists>r\<in>set (leaves t). nr_rest r \<noteq> [])"
    then have "total_left t = 0" by (simp add: total_left_def)
    with Suc.hyps(2) show False by simp
  qed
  define r where "r = rec_of t"
  have ne: "nr_rest r \<noteq> []" using ex rec_of_least [OF Suc.prems(1)] by (auto simp: r_def)
  then obtain a as where as: "nr_rest r = a # as" by (cases "nr_rest r") auto
  have r: "r \<in> set (leaves t)" "nr_has_iterator r"
    using rec_of_leaf [OF Suc.prems(1)] played_has [OF Suc.prems(1) _ ne] by (auto simp: r_def)
  define t' where "t' = kmerge_next cmp t"
  have t': "t' = replay cmp t" using ne by (simp add: t'_def kmerge_next_def r_def)
  obtain us vs where l: "played cmp t'" "leaves t = us @ r # vs"
    "leaves t' = us @ r\<lparr>nr_rest := as\<rparr> # vs"
    using replay_played [OF Suc.prems(1)] ne as unfolding t' r_def by auto
  have ord: "\<forall>q\<in>set (leaves t'). in_order (nr_rest q)"
    using Suc.prems(2) l(2,3) as by (auto simp: in_order_def)
  have "n = total_left t'" using Suc.hyps(2) l(2,3) as by (simp add: total_left_def)
  from Suc.hyps(1) [OF this l(1) ord] obtain out where
    out: "drain cmp t' = Some out" "mset out = content t'" "in_order (map snd out)" by blast
  let ?o = "the (nr_owner r)"
  have "get_top t = Some (?o, a)" using r(2) as by (simp add: get_top_def r_def)
  then have d: "drain cmp t = Some ((?o, a) # out)"
    using out(1) by (subst drain.simps) (simp add: t'_def)
  have c: "content t = add_mset (?o, a) (content t')"
    using l(2,3) as by (simp add: content_def)
  have least: "\<not> cmp b a" if "b \<in> snd ` set out" for b
  proof -
    from that obtain q where "(q, b) \<in># mset out" by auto
    then have "(q, b) \<in># content t" using out(2) c by simp
    then obtain x where x: "x \<in> set (leaves t)" "b \<in> set (nr_rest x)"
      by (auto simp: content_def)
    then obtain b0 bs where b0: "nr_rest x = b0 # bs" by (cases "nr_rest x") auto
    have "\<not> cmp b0 a" using rec_of_least [OF Suc.prems(1) x(1)] b0 as by (simp add: r_def)
    moreover have "\<not> cmp b b0" using Suc.prems(2) x b0 not_cmp_refl by (auto simp: in_order_def)
    ultimately show ?thesis using not_cmp_trans by blast
  qed
  show ?case using d out c least by (auto simp: in_order_def)
qed

text \<open>The whole use of the tree merges the collections.\<close>

lemma kmerge_all_merges:
  assumes "length colls \<le> bucket_qty" and "\<forall>(ow, xs) \<in> set colls. in_order xs"
  shows "\<exists>out. kmerge_all cmp bucket_qty colls = Some out
    \<and> mset out = (\<Sum>(ow, xs)\<leftarrow>colls. mset (map (Pair ow) xs)) \<and> in_order (map snd out)"
proof -
  define d where "d = number_of_levels bucket_qty"
  define t where "t = fold (\<lambda>(ow, xs). kmerge_add ow xs) colls (build_levels d)"
  define es where "es = filter (\<lambda>(ow, xs). xs \<noteq> []) colls"
  have n: "length colls \<le> 2 ^ d" using assms(1) number_of_levels_enough [of bucket_qty]
    unfolding d_def by (rule order_trans)
  have l: "leaves t = map (\<lambda>(ow, xs). \<lparr>nr_owner = Some ow, nr_has_iterator = True, nr_rest = xs\<rparr>) es
      @ replicate (2 ^ d - length es) node_rec_init"
    using fold_add_leaves [of "build_levels d" "[]" "2 ^ d" colls] n
    by (simp add: t_def es_def leaves_build_levels)
  have perf: "perfect d t"
    unfolding t_def
    by (induction colls rule: rev_induct)
      (auto simp: perfect_build_levels perfect_kmerge_add split: prod.splits)
  have ok: "\<forall>r\<in>set (leaves t). nr_has_iterator r \<or> nr_rest r = []"
    unfolding l by (auto simp: node_rec_init_def)
  note ex = played_execute [OF perf ok, of cmp]
  have ord: "\<forall>r\<in>set (leaves (kmerge_execute cmp d t)). in_order (nr_rest r)"
    unfolding ex(2) l using assms(2) by (auto simp: es_def node_rec_init_def in_order_def)
  from drain_merges [OF ex(1) ord] obtain out where
    out: "drain cmp (kmerge_execute cmp d t) = Some out" "mset out = content (kmerge_execute cmp d t)"
    "in_order (map snd out)" by blast
  have "content (kmerge_execute cmp d t) = (\<Sum>(ow, xs)\<leftarrow>es. mset (map (Pair ow) xs))"
    unfolding content_def ex(2) l
    by (simp add: o_def case_prod_unfold node_rec_init_def)
  also have "\<dots> = (\<Sum>(ow, xs)\<leftarrow>colls. mset (map (Pair ow) xs))"
    unfolding es_def by (induction colls) auto
  finally show ?thesis using out by (simp add: kmerge_all_def Let_def d_def t_def)
qed

end

end
