(* ===== verification/Logline.thy ===== *)
theory Logline
  imports Kmerge
begin

text \<open>
  The metadata of one line of a log file (\<open>class logline\<close>, \<open>src/log_format_fwd.hh\<close>), its level
  (\<open>src/base/log_level_enum.hh\<close>) and its order in time: the comparisons of the index, of the merge
  and of \<open>struct timeval\<close> (\<open>src/base/time_util.hh\<close>).

  The time of a line is a count of microseconds. The bloom bits are left out.
\<close>

section \<open>Levels\<close>

datatype log_level =
  LEVEL_UNKNOWN | LEVEL_TRACE | LEVEL_DEBUG5 | LEVEL_DEBUG4 | LEVEL_DEBUG3 | LEVEL_DEBUG2
| LEVEL_DEBUG | LEVEL_INFO | LEVEL_STATS | LEVEL_NOTICE | LEVEL_WARNING | LEVEL_ERROR
| LEVEL_CRITICAL | LEVEL_FATAL | LEVEL_INVALID

fun level_num :: "log_level \<Rightarrow> nat" where
  "level_num LEVEL_UNKNOWN = 0"
| "level_num LEVEL_TRACE = 1"
| "level_num LEVEL_DEBUG5 = 2"
| "level_num LEVEL_DEBUG4 = 3"
| "level_num LEVEL_DEBUG3 = 4"
| "level_num LEVEL_DEBUG2 = 5"
| "level_num LEVEL_DEBUG = 6"
| "level_num LEVEL_INFO = 7"
| "level_num LEVEL_STATS = 8"
| "level_num LEVEL_NOTICE = 9"
| "level_num LEVEL_WARNING = 10"
| "level_num LEVEL_ERROR = 11"
| "level_num LEVEL_CRITICAL = 12"
| "level_num LEVEL_FATAL = 13"
| "level_num LEVEL_INVALID = 14"

lemma level_num_inj: "level_num a = level_num b \<Longrightarrow> a = b"
  by (cases a; cases b) simp_all

instantiation log_level :: linorder
begin

definition less_eq_log_level :: "log_level \<Rightarrow> log_level \<Rightarrow> bool" where
  "less_eq_log_level a b \<longleftrightarrow> level_num a \<le> level_num b"

definition less_log_level :: "log_level \<Rightarrow> log_level \<Rightarrow> bool" where
  "less_log_level a b \<longleftrightarrow> level_num a < level_num b"

instance
  by standard (auto simp: less_eq_log_level_def less_log_level_def level_num_inj)

end

section \<open>Lines\<close>

record logline =
  ll_time :: int
  ll_offset :: int
  ll_sub_offset :: nat
  ll_ignore :: bool
  ll_continued :: bool
  ll_mark :: bool
  ll_meta_mark :: bool
  ll_expr_mark :: bool
  ll_level :: log_level
  ll_time_skew :: bool
  ll_valid_utf :: bool
  ll_has_ansi :: bool

definition logline_new :: "int \<Rightarrow> int \<Rightarrow> log_level \<Rightarrow> logline" where
  "logline_new off t lev = \<lparr>ll_time = t, ll_offset = off, ll_sub_offset = 0, ll_ignore = False,
     ll_continued = False, ll_mark = False, ll_meta_mark = False, ll_expr_mark = False,
     ll_level = lev, ll_time_skew = False, ll_valid_utf = True, ll_has_ansi = False\<rparr>"

definition is_message :: "logline \<Rightarrow> bool" where
  "is_message ll \<longleftrightarrow> \<not> ll_ignore ll \<and> \<not> ll_continued ll"

definition logline_less :: "logline \<Rightarrow> logline \<Rightarrow> bool" where
  "logline_less l r \<longleftrightarrow> ll_time l < ll_time r
    \<or> ll_time l = ll_time r \<and> ll_offset l < ll_offset r
    \<or> ll_time l = ll_time r \<and> ll_offset l = ll_offset r \<and> ll_sub_offset l < ll_sub_offset r"

text \<open>Whole seconds and the microseconds left over, both towards zero.\<close>

type_synonym tv = "int \<times> int"

definition get_timeval :: "logline \<Rightarrow> tv" where
  "get_timeval ll = (ll_time ll sdiv 1000000, ll_time ll smod 1000000)"

definition tv_less :: "tv \<Rightarrow> tv \<Rightarrow> bool" where
  "tv_less l r \<longleftrightarrow> fst l < fst r \<or> fst l = fst r \<and> snd l < snd r"

definition tv_less_eq :: "tv \<Rightarrow> tv \<Rightarrow> bool" where
  "tv_less_eq l r \<longleftrightarrow> fst l < fst r \<or> fst l = fst r \<and> snd l \<le> snd r"

definition ll_less_tv :: "logline \<Rightarrow> tv \<Rightarrow> bool" where
  "ll_less_tv ll t = tv_less (get_timeval ll) t"

definition ll_less_eq_tv :: "logline \<Rightarrow> tv \<Rightarrow> bool" where
  "ll_less_eq_tv ll t = tv_less_eq (get_timeval ll) t"

text \<open>The order of the truncated times is that of the times, below the epoch as well.\<close>

lemma sdiv_mono:
  fixes x y :: int
  assumes "0 < p" and "x \<le> y"
  shows "x sdiv p \<le> y sdiv p"
proof -
  have pos: "z sdiv p = z div p" if "0 \<le> z" for z using that assms(1) by (rule sdiv_nonneg)
  have neg: "z sdiv p = - ((- z) div p)" if "z < 0" for z
    using that assms(1) by (simp add: signed_divide_int_def sgn_if)
  consider "0 \<le> x" | "x < 0" "0 \<le> y" | "y < 0" by linarith
  then show ?thesis
  proof cases
    case 1
    then show ?thesis using assms by (simp add: pos zdiv_mono1)
  next
    case 2
    then have "0 \<le> (- x) div p" "0 \<le> y div p"
      using assms(1) by (simp_all add: pos_imp_zdiv_nonneg_iff)
    with 2 show ?thesis by (simp add: pos neg)
  next
    case 3
    then have "(- y) div p \<le> (- x) div p" using assms by (intro zdiv_mono1) auto
    with 3 assms(2) show ?thesis by (simp add: neg)
  qed
qed

lemma trunc_less:
  fixes a b :: int
  assumes "0 < p"
  shows "a < b \<longleftrightarrow> a sdiv p < b sdiv p \<or> a sdiv p = b sdiv p \<and> a smod p < b smod p"
proof -
  have e: "x sdiv p * p + x smod p = x" for x by (rule sdiv_mult_smod_eq)
  have "a sdiv p < b sdiv p \<Longrightarrow> a < b" using sdiv_mono [OF assms, of b a] by linarith
  moreover have "a < b \<Longrightarrow> a sdiv p \<le> b sdiv p" using sdiv_mono [OF assms, of a b] by linarith
  moreover have "a smod p < b smod p \<longleftrightarrow> a < b" if "a sdiv p = b sdiv p"
    using e [of a] e [of b] unfolding that by linarith
  ultimately show ?thesis by linarith
qed

lemma tv_less_get_timeval: "tv_less (get_timeval a) (get_timeval b) \<longleftrightarrow> ll_time a < ll_time b"
  using trunc_less [of 1000000 "ll_time a" "ll_time b"] by (simp add: tv_less_def get_timeval_def)

lemma ll_less_tv_line [simp]: "ll_less_tv a (get_timeval b) \<longleftrightarrow> ll_time a < ll_time b"
  by (simp add: ll_less_tv_def tv_less_get_timeval)

lemma tv_less_eq_iff: "tv_less_eq l r \<longleftrightarrow> tv_less l r \<or> l = r"
  by (cases l; cases r) (auto simp: tv_less_eq_def tv_less_def)

lemma tv_less_trans: "tv_less a b \<Longrightarrow> tv_less b c \<Longrightarrow> tv_less a c"
  by (auto simp: tv_less_def)

lemma tv_less_asym: "tv_less a b \<Longrightarrow> \<not> tv_less b a"
  by (auto simp: tv_less_def)

lemma tv_less_linear: "tv_less a b \<or> a = b \<or> tv_less b a"
  by (cases a; cases b) (auto simp: tv_less_def)

lemma tv_less_irrefl [simp]: "\<not> tv_less a a"
  by (auto simp: tv_less_def)

lemma ll_time_mono_tv: "ll_time a \<le> ll_time b \<Longrightarrow> ll_less_tv b t \<Longrightarrow> ll_less_tv a t"
  using tv_less_get_timeval [of a b] tv_less_get_timeval [of b a] tv_less_trans
    tv_less_linear [of "get_timeval a" "get_timeval b"]
  unfolding ll_less_tv_def by (metis not_le order_le_less)

text \<open>The merge compares lines by time, then by their place in their files.\<close>

interpretation line_merge: merge_order "\<lambda>(a :: nat \<times> logline) b. logline_less (snd a) (snd b)"
  by unfold_locales (auto simp: logline_less_def)

lemma logline_less_time: "logline_less a b \<Longrightarrow> ll_time a \<le> ll_time b"
  by (auto simp: logline_less_def)

lemma not_logline_less_time: "\<not> logline_less a b \<Longrightarrow> ll_time b \<le> ll_time a"
  by (auto simp: logline_less_def)

text \<open>
  C27: merging files whose lines are in order with a tree of at least as many buckets as files
  ends, gives every line of every file once, with its file, and gives them in order.
\<close>

theorem kmerge_merges:
  fixes colls :: "('o \<times> (nat \<times> logline) list) list"
  assumes "length colls \<le> bucket_qty"
    and "\<forall>(ow, xs) \<in> set colls. sorted_wrt (\<lambda>a b. \<not> logline_less (snd b) (snd a)) xs"
  shows "\<exists>out. kmerge_all (\<lambda>a b. logline_less (snd a) (snd b)) bucket_qty colls = Some out
    \<and> mset out = (\<Sum>(ow, xs)\<leftarrow>colls. mset (map (Pair ow) xs))
    \<and> sorted_wrt (\<lambda>a b. \<not> logline_less (snd (snd b)) (snd (snd a))) out"
  using line_merge.kmerge_all_merges [OF assms(1)] assms(2)
  by (auto simp: line_merge.in_order_def sorted_wrt_map case_prod_unfold)

definition three_files :: "(nat \<times> (nat \<times> logline) list) list" where
  "three_files =
    [(0, [(0, logline_new 0 5 LEVEL_INFO), (1, logline_new 9 8 LEVEL_INFO)]),
     (1, []),
     (2, [(0, logline_new 0 1 LEVEL_ERROR), (1, logline_new 7 5 LEVEL_INFO)])]"

theorem kmerge_merges_witness:
  "\<exists>out. kmerge_all (\<lambda>a b. logline_less (snd a) (snd b)) 3 three_files = Some out \<and> length out = 4
    \<and> sorted_wrt (\<lambda>a b. \<not> logline_less (snd (snd b)) (snd (snd a))) out"
proof -
  have "\<forall>(ow, xs) \<in> set three_files. sorted_wrt (\<lambda>a b. \<not> logline_less (snd b) (snd a)) xs"
    by (simp add: three_files_def logline_less_def logline_new_def)
  from kmerge_merges [OF _ this, of 3] obtain out where
    out: "kmerge_all (\<lambda>a b. logline_less (snd a) (snd b)) 3 three_files = Some out"
    "mset out = (\<Sum>(ow, xs)\<leftarrow>three_files. mset (map (Pair ow) xs))"
    "sorted_wrt (\<lambda>a b. \<not> logline_less (snd (snd b)) (snd (snd a))) out"
    by (auto simp: three_files_def)
  from arg_cong [OF out(2), of "size"] have "length out = 4" by (simp add: three_files_def)
  with out show ?thesis by blast
qed

end
