(* ===== verification/Utf8.thy ===== *)
theory Utf8
  imports Lnav_Prelude "HOL-Library.Word"
begin

text \<open>
  The UTF-8 scanner that every line of a file goes through (\<open>src/base/is_utf8.cc\<close>), against the
  encoding of the Unicode scalar values. A fragment is its bytes; the valid part of the text and what
  remains after the terminator are given by their lengths and offsets.
\<close>

section \<open>The scanner\<close>

type_synonym byte = "8 word"

record utf8_scan_result =
  usr_message :: "string option"
  usr_faulty_bytes :: nat
  usr_valid_end :: nat
  usr_remaining :: "nat option"
  usr_has_ansi :: bool
  usr_column_width_guess :: nat

definition usr_empty :: utf8_scan_result where
  "usr_empty = \<lparr>usr_message = None, usr_faulty_bytes = 0, usr_valid_end = 0, usr_remaining = None,
     usr_has_ansi = False, usr_column_width_guess = 0\<rparr>"

definition is_valid :: "utf8_scan_result \<Rightarrow> bool" where
  "is_valid r \<longleftrightarrow> usr_message r = None"

definition CHUNK_WIDTH :: nat where
  "CHUNK_WIDTH = 16"

text \<open>\<open>us\<close> are the bytes from the current one on; the result is an error or the bytes to go on by.\<close>

definition two_bytes :: "byte list \<Rightarrow> (string \<times> nat) + nat" where
  "two_bytes us =
    (if 1 < length us
     then if us ! 1 < 0x80 \<or> us ! 1 > 0xBF
          then Inl (''After a first byte between C2 and DF, expecting a 2nd byte between 80 and BF'', 2)
          else Inr 2
     else Inl (''After a first byte between C2 and DF, expecting a 2nd byte.'', 1))"

definition three_bytes ::
  "byte \<Rightarrow> byte \<Rightarrow> string \<Rightarrow> string \<Rightarrow> string \<Rightarrow> byte list \<Rightarrow> (string \<times> nat) + nat" where
  "three_bytes lo hi second third missing us =
    (if 2 < length us
     then if us ! 1 < lo \<or> us ! 1 > hi then Inl (second, 2)
          else if us ! 2 < 0x80 \<or> us ! 2 > 0xBF then Inl (third, 3)
          else Inr 3
     else Inl (missing, 1))"

definition four_bytes ::
  "byte \<Rightarrow> byte \<Rightarrow> string \<Rightarrow> string \<Rightarrow> string \<Rightarrow> string \<Rightarrow> byte list \<Rightarrow> (string \<times> nat) + nat" where
  "four_bytes lo hi second third fourth missing us =
    (if 3 < length us
     then if us ! 1 < lo \<or> us ! 1 > hi then Inl (second, 2)
          else if us ! 2 < 0x80 \<or> us ! 2 > 0xBF then Inl (third, 3)
          else if us ! 3 < 0x80 \<or> us ! 3 > 0xBF then Inl (fourth, 4)
          else Inr 4
     else Inl (missing, 1))"

definition scan_char :: "byte list \<Rightarrow> (string \<times> nat) + nat" where
  "scan_char us =
    (let b = us ! 0 in
     if b \<le> 0x7F then (if b = 0 then Inl (''Null bytes are not allowed'', 1) else Inr 1)
     else if b \<ge> 0xC2 \<and> b \<le> 0xDF then two_bytes us
     else if b = 0xE0 then three_bytes 0xA0 0xBF
        ''After a first byte of E0, expecting a 2nd byte between A0 and BF.''
        ''After a first byte of E0, expecting a 3nd byte between 80 and BF.''
        ''After a first byte of E0, expecting two following bytes.'' us
     else if b \<ge> 0xE1 \<and> b \<le> 0xEC then three_bytes 0x80 0xBF
        ''After a first byte between E1 and EC, expecting the 2nd byte between 80 and BF.''
        ''After a first byte between E1 and EC, expecting the 3rd byte between 80 and BF.''
        ''After a first byte between E1 and EC, expecting two following bytes.'' us
     else if b = 0xED then three_bytes 0x80 0x9F
        ''After a first byte of ED, expecting 2nd byte between 80 and 9F.''
        ''After a first byte of ED, expecting 3rd byte between 80 and BF.''
        ''After a first byte of ED, expecting two following bytes.'' us
     else if b \<ge> 0xEE \<and> b \<le> 0xEF then three_bytes 0x80 0xBF
        ''After a first byte between EE and EF, expecting 2nd byte between 80 and BF.''
        ''After a first byte between EE and EF, expecting 3rd byte between 80 and BF.''
        ''After a first byte between EE and EF, two following bytes.'' us
     else if b = 0xF0 then four_bytes 0x90 0xBF
        ''After a first byte of F0, expecting 2nd byte between 90 and BF.''
        ''After a first byte of F0, expecting 3rd byte between 80 and BF.''
        ''After a first byte of F0, expecting 4th byte between 80 and BF.''
        ''After a first byte of F0, expecting three following bytes.'' us
     else if b \<ge> 0xF1 \<and> b \<le> 0xF3 then four_bytes 0x80 0xBF
        ''After a first byte of F1, F2, or F3, expecting a 2nd byte between 80 and BF.''
        ''After a first byte of F1, F2, or F3, expecting a 3rd byte between 80 and BF.''
        ''After a first byte of F1, F2, or F3, expecting a 4th byte between 80 and BF.''
        ''After a first byte of F1, F2, or F3, expecting three following bytes.'' us
     else if b = 0xF4 then four_bytes 0x80 0x8F
        ''After a first byte of F4, expecting 2nd byte between 80 and 8F.''
        ''After a first byte of F4, expecting 3rd byte between 80 and BF.''
        ''After a first byte of F4, expecting 4th byte between 80 and BF.''
        ''After a first byte of F4, expecting three following bytes.'' us
     else Inl (''Expecting bytes in the following ranges: 00..7F C2..F4.'', 1))"

definition printable_chunk :: "byte option \<Rightarrow> byte list \<Rightarrow> bool" where
  "printable_chunk terminator us \<longleftrightarrow>
     (\<forall>b\<in>set (take CHUNK_WIDTH us). \<not> (b < 0x20 \<or> b > 0x7E) \<and> terminator \<noteq> Some b)"

lemma scan_char_pos: "scan_char us = Inr n \<Longrightarrow> 0 < n"
  by (auto simp: scan_char_def two_bytes_def three_bytes_def four_bytes_def Let_def split: if_splits)

text \<open>What an accepted character does to the result beside moving on.\<close>

definition note_char :: "byte \<Rightarrow> utf8_scan_result \<Rightarrow> utf8_scan_result" where
  "note_char b r =
    (if b = 0x09 then r\<lparr>usr_column_width_guess := usr_column_width_guess r + 7\<rparr>
     else if b = 0x1B \<or> b = 0x08 then r\<lparr>usr_has_ansi := True\<rparr> else r)"

function utf8_loop ::
  "byte list \<Rightarrow> byte option \<Rightarrow> nat \<Rightarrow> nat \<Rightarrow> utf8_scan_result \<Rightarrow> nat \<times> nat \<times> utf8_scan_result" where
  "utf8_loop str terminator i valid_end r =
    (if i < length str
     then
       if i + CHUNK_WIDTH \<le> length str - length str mod CHUNK_WIDTH
          \<and> printable_chunk terminator (drop i str)
       then utf8_loop str terminator (i + CHUNK_WIDTH) (i + CHUNK_WIDTH)
              (r\<lparr>usr_column_width_guess := usr_column_width_guess r + CHUNK_WIDTH\<rparr>)
       else if terminator = Some (str ! i) then (i, valid_end, r\<lparr>usr_remaining := Some (i + 1)\<rparr>)
       else
         let r = r\<lparr>usr_column_width_guess := usr_column_width_guess r + 1\<rparr> in
         if usr_message r \<noteq> None then utf8_loop str terminator (i + 1) valid_end r
         else case scan_char (drop i str) of
                Inl (message, faulty) \<Rightarrow>
                  utf8_loop str terminator i i (r\<lparr>usr_message := Some message, usr_faulty_bytes := faulty\<rparr>)
              | Inr n \<Rightarrow> utf8_loop str terminator (i + n) i (note_char (str ! i) r)
     else (i, valid_end, r))"
  by pat_completeness auto
termination
  by (relation "measure (\<lambda>(str, terminator, i, valid_end, r).
        2 * (length str - i) + (if usr_message r = None then 1 else 0))")
    (auto simp: CHUNK_WIDTH_def note_char_def dest: scan_char_pos split: if_splits)

declare utf8_loop.simps [simp del]

definition is_utf8 :: "byte list \<Rightarrow> byte option \<Rightarrow> utf8_scan_result" where
  "is_utf8 str terminator =
    (let (i, valid_end, r) = utf8_loop str terminator 0 0 usr_empty
     in r\<lparr>usr_valid_end := (if usr_message r = None then i else valid_end)\<rparr>)"

section \<open>The encoding\<close>

definition code_units :: "nat \<Rightarrow> nat list" where
  "code_units cp =
    (if cp < 0x80 then [cp]
     else if cp < 0x800 then [0xC0 + cp div 64, 0x80 + cp mod 64]
     else if cp < 0x10000 then [0xE0 + cp div 4096, 0x80 + cp div 64 mod 64, 0x80 + cp mod 64]
     else [0xF0 + cp div 262144, 0x80 + cp div 4096 mod 64, 0x80 + cp div 64 mod 64, 0x80 + cp mod 64])"

definition encode_utf8 :: "nat \<Rightarrow> byte list" where
  "encode_utf8 cp = map word_of_nat (code_units cp)"

text \<open>The scalar values of Unicode but 0, which the scanner does not allow.\<close>

definition scalar :: "nat \<Rightarrow> bool" where
  "scalar cp \<longleftrightarrow> 0 < cp \<and> cp < 0x110000 \<and> \<not> (0xD800 \<le> cp \<and> cp \<le> 0xDFFF)"

definition valid_utf8 :: "byte list \<Rightarrow> bool" where
  "valid_utf8 bs \<longleftrightarrow> (\<exists>cps. (\<forall>cp\<in>set cps. scalar cp) \<and> bs = concat (map encode_utf8 cps))"

lemma byte_eq: "b = word_of_nat (unat b)" for b :: byte
  by simp

lemma unat_byte: "n < 256 \<Longrightarrow> unat (word_of_nat n :: byte) = n"
  by (simp add: unat_of_nat)

lemmas byte_cmp = word_le_nat_alt word_less_nat_alt

text \<open>What is accepted, in numbers (Table 3-7 of the Unicode Standard).\<close>

definition cont :: "nat \<Rightarrow> bool" where
  "cont x \<longleftrightarrow> 0x80 \<le> x \<and> x \<le> 0xBF"

fun accepted :: "nat list \<Rightarrow> nat \<Rightarrow> bool" where
  "accepted (x # xs) n \<longleftrightarrow>
    (n = 1 \<and> 0 < x \<and> x < 0x80)
    \<or> (n = 2 \<and> 0xC2 \<le> x \<and> x \<le> 0xDF \<and> (\<exists>y ys. xs = y # ys \<and> cont y))
    \<or> (n = 3 \<and> 0xE0 \<le> x \<and> x \<le> 0xEF \<and> (\<exists>y z ys. xs = y # z # ys \<and> cont y \<and> cont z
        \<and> (x = 0xE0 \<longrightarrow> 0xA0 \<le> y) \<and> (x = 0xED \<longrightarrow> y \<le> 0x9F)))
    \<or> (n = 4 \<and> 0xF0 \<le> x \<and> x \<le> 0xF4 \<and> (\<exists>y z w ys. xs = y # z # w # ys \<and> cont y \<and> cont z \<and> cont w
        \<and> (x = 0xF0 \<longrightarrow> 0x90 \<le> y) \<and> (x = 0xF4 \<longrightarrow> y \<le> 0x8F)))"
| "accepted [] n \<longleftrightarrow> False"

lemma two_bytes_Inr: "two_bytes (b # us) = Inr n \<longleftrightarrow>
    n = 2 \<and> (\<exists>y ys. us = y # ys \<and> cont (unat y))"
  by (cases us) (auto simp: two_bytes_def cont_def byte_cmp)

lemma three_bytes_Inr: "three_bytes lo hi a c d (b # us) = Inr n \<longleftrightarrow>
    n = 3 \<and> (\<exists>y z ys. us = y # z # ys \<and> unat lo \<le> unat y \<and> unat y \<le> unat hi \<and> cont (unat z))"
  by (cases us; cases "tl us") (auto simp: three_bytes_def cont_def byte_cmp)

lemma four_bytes_Inr: "four_bytes lo hi a c d e (b # us) = Inr n \<longleftrightarrow>
    n = 4 \<and> (\<exists>y z w ys. us = y # z # w # ys \<and> unat lo \<le> unat y \<and> unat y \<le> unat hi
      \<and> cont (unat z) \<and> cont (unat w))"
  by (cases us; cases "tl us"; cases "tl (tl us)") (auto simp: four_bytes_def cont_def byte_cmp)

lemma map_eq_2: "map f us = y # ys \<longleftrightarrow> (\<exists>u us'. us = u # us' \<and> f u = y \<and> map f us' = ys)"
  by (cases us) auto

lemma scan_char_accepted: "scan_char (b # us) = Inr n \<longleftrightarrow> accepted (map unat (b # us)) n"
proof -
  have e: "b = k \<longleftrightarrow> unat b = unat k" for k by (simp add: word_unat_eq_iff)
  consider "unat b < 0x80" | "0x80 \<le> unat b" "unat b < 0xC2" | "0xC2 \<le> unat b" "unat b \<le> 0xDF"
    | "unat b = 0xE0" | "0xE1 \<le> unat b" "unat b \<le> 0xEC" | "unat b = 0xED" | "0xEE \<le> unat b" "unat b \<le> 0xEF"
    | "unat b = 0xF0" | "0xF1 \<le> unat b" "unat b \<le> 0xF3" | "unat b = 0xF4" | "0xF5 \<le> unat b" by linarith
  then show ?thesis
    by cases (auto simp: scan_char_def Let_def byte_cmp e two_bytes_Inr three_bytes_Inr four_bytes_Inr map_eq_2 cont_def)
qed

lemma digits3:
  fixes a b c :: nat
  assumes "b < 64" and "c < 64"
  shows "(a * 4096 + b * 64 + c) div 4096 = a" and "(a * 4096 + b * 64 + c) div 64 mod 64 = b"
    and "(a * 4096 + b * 64 + c) mod 64 = c"
proof -
  have e: "a * 4096 + b * 64 + c = c + (a * 64 + b) * 64" by simp
  show "(a * 4096 + b * 64 + c) mod 64 = c" unfolding e mod_mult_self1 using assms(2) by simp
  have q: "(a * 4096 + b * 64 + c) div 64 = b + a * 64"
    unfolding e using assms(2) by (subst div_mult_self1) simp_all
  then show "(a * 4096 + b * 64 + c) div 64 mod 64 = b" using assms(1) by simp
  have "(a * 4096 + b * 64 + c) div 4096 = (a * 4096 + b * 64 + c) div 64 div 64"
    by (simp add: div_mult2_eq [symmetric])
  then show "(a * 4096 + b * 64 + c) div 4096 = a" unfolding q using assms(1) by simp
qed

lemma split_digits: "(n::nat) = n div 4096 * 4096 + n div 64 mod 64 * 64 + n mod 64"
proof -
  have "n = n div 64 * 64 + n mod 64" by simp
  moreover have "n div 64 = n div 64 div 64 * 64 + n div 64 mod 64" by simp
  moreover have "n div 64 div 64 = n div 4096" by (simp add: div_mult2_eq [symmetric])
  ultimately show ?thesis by linarith
qed

lemma accepted_code_units:
  assumes "scalar cp"
  shows "accepted (code_units cp @ ys) (length (code_units cp))"
proof -
  have c: "cp < 0x110000" "0 < cp" "\<not> (0xD800 \<le> cp \<and> cp \<le> 0xDFFF)" using assms by (auto simp: scalar_def)
  define a where "a = cp div 4096"
  define b where "b = cp div 64 mod 64"
  define d where "d = cp mod 64"
  have cp: "cp = a * 4096 + b * 64 + d" unfolding a_def b_def d_def by (rule split_digits)
  have lt: "b < 64" "d < 64" by (simp_all add: b_def d_def)
  consider "cp < 0x80" | "0x80 \<le> cp" "cp < 0x800" | "0x800 \<le> cp" "cp < 0x10000" | "0x10000 \<le> cp" by linarith
  then show ?thesis
  proof cases
    case 1
    then show ?thesis using c by (simp add: code_units_def)
  next
    case 2
    then have "cp div 64 < 32" "2 \<le> cp div 64" "cp mod 64 < 64" by auto
    with 2 show ?thesis by (simp add: code_units_def cont_def)
  next
    case 3
    have u: "code_units cp = [0xE0 + a, 0x80 + b, 0x80 + d]"
      using 3 by (simp add: code_units_def a_def b_def d_def)
    have "a < 16" "a = 0 \<Longrightarrow> 32 \<le> b" "a = 13 \<Longrightarrow> b \<le> 31" using 3 c(3) cp lt by linarith+
    then show ?thesis using lt by (auto simp: u cont_def)
  next
    case 4
    have d4: "cp div 262144 = a div 64" by (simp add: a_def div_mult2_eq [symmetric])
    define e where "e = a div 64"
    define f where "f = a mod 64"
    have a: "a = e * 64 + f" "f < 64" by (simp_all add: e_def f_def)
    have u: "code_units cp = [0xF0 + e, 0x80 + f, 0x80 + b, 0x80 + d]"
      using 4 d4 by (simp add: code_units_def a_def b_def d_def e_def f_def)
    have "e \<le> 4" "e = 0 \<Longrightarrow> 16 \<le> f" "e = 4 \<Longrightarrow> f \<le> 15" using 4 c(1) cp lt a by linarith+
    then show ?thesis using lt a by (auto simp: u cont_def)
  qed
qed

lemma contE: "cont y \<Longrightarrow> (\<And>b. y = 0x80 + b \<Longrightarrow> b < 64 \<Longrightarrow> P) \<Longrightarrow> P"
  using le_Suc_ex [of "0x80" y] by (auto simp: cont_def)

lemma accepted_decodes:
  assumes "accepted xs n"
  shows "\<exists>cp. scalar cp \<and> take n xs = code_units cp \<and> n = length (code_units cp)"
proof -
  obtain x us where xs: "xs = x # us" using assms by (cases xs) auto
  consider "n = 1" "0 < x" "x < 0x80"
    | y ys where "n = 2" "0xC2 \<le> x" "x \<le> 0xDF" "us = y # ys" "cont y"
    | y z ys where "n = 3" "0xE0 \<le> x" "x \<le> 0xEF" "us = y # z # ys" "cont y" "cont z"
        "x = 0xE0 \<longrightarrow> 0xA0 \<le> y" "x = 0xED \<longrightarrow> y \<le> 0x9F"
    | y z w ys where "n = 4" "0xF0 \<le> x" "x \<le> 0xF4" "us = y # z # w # ys" "cont y" "cont z" "cont w"
        "x = 0xF0 \<longrightarrow> 0x90 \<le> y" "x = 0xF4 \<longrightarrow> y \<le> 0x8F"
    using assms unfolding xs by auto
  then show ?thesis
  proof cases
    case 1
    then show ?thesis unfolding xs by (intro exI [of _ x]) (simp add: scalar_def code_units_def)
  next
    case (2 y ys)
    obtain a where a: "x = 0xC0 + a" "2 \<le> a" "a < 32" using 2 le_Suc_ex [of "0xC0" x] by auto
    obtain b where b: "y = 0x80 + b" "b < 64" using 2 by (auto elim: contE)
    have "(a * 64 + b) div 64 = a" "(a * 64 + b) mod 64 = b" "0x80 \<le> a * 64 + b" "a * 64 + b < 0x800"
      using a b by auto
    with 2 a b show ?thesis unfolding xs
      by (intro exI [of _ "a * 64 + b"]) (simp add: scalar_def code_units_def)
  next
    case (3 y z ys)
    obtain a where a: "x = 0xE0 + a" "a < 16" using 3 le_Suc_ex [of "0xE0" x] by auto
    obtain b where b: "y = 0x80 + b" "b < 64" using 3 by (auto elim: contE)
    obtain c where c: "z = 0x80 + c" "c < 64" using 3 by (auto elim: contE)
    let ?cp = "a * 4096 + b * 64 + c"
    have r: "32 \<le> b \<or> 1 \<le> a" "a \<le> 12 \<or> a = 13 \<and> b \<le> 31 \<or> 14 \<le> a" using 3 a b by auto
    have cp: "0x800 \<le> ?cp" using r(1) by auto
    have cp2: "?cp < 0x10000" using a b c by simp
    have cp3: "?cp < 0xD800 \<or> 0xE000 \<le> ?cp" using r(2) b(2) c(2) by auto
    have k: "\<not> ?cp < 0x80" "\<not> ?cp < 0x800" using cp by linarith+
    have "code_units ?cp = [0xE0 + a, 0x80 + b, 0x80 + c]"
      by (simp only: code_units_def k cp2 if_True if_False digits3 [OF b(2) c(2)])
    moreover have "scalar ?cp" unfolding scalar_def using cp cp2 cp3 by auto
    ultimately show ?thesis using 3 a b c unfolding xs by (intro exI [of _ ?cp]) simp
  next
    case (4 y z w ys)
    obtain e where e: "x = 0xF0 + e" "e \<le> 4" using 4 le_Suc_ex [of "0xF0" x] by auto
    obtain f where f: "y = 0x80 + f" "f < 64" using 4 by (auto elim: contE)
    obtain b where b: "z = 0x80 + b" "b < 64" using 4 by (auto elim: contE)
    obtain c where c: "w = 0x80 + c" "c < 64" using 4 by (auto elim: contE)
    let ?a = "e * 64 + f"
    let ?cp = "?a * 4096 + b * 64 + c"
    have r: "16 \<le> f \<or> 1 \<le> e" "f \<le> 15 \<or> e \<le> 3" using 4 e f by auto
    have flat: "?cp = e * 262144 + f * 4096 + b * 64 + c" by simp
    have "0x10000 \<le> ?cp" unfolding flat using r(1) by auto
    moreover have "?cp < 0x110000" unfolding flat using r(2) e f b c by auto
    ultimately have cp: "0x10000 \<le> ?cp" "?cp < 0x110000" by blast+
    have "?cp div 262144 = ?cp div 4096 div 64" by (simp only: div_mult2_eq [symmetric]) simp
    then have "?cp div 262144 = e" "?cp div 4096 mod 64 = f"
      using digits3(1) [OF b(2) c(2), of ?a] f(2) by simp_all
    moreover have "\<not> ?cp < 0x80" "\<not> ?cp < 0x800" "\<not> ?cp < 0x10000" using cp(1) by linarith+
    ultimately have "code_units ?cp = [0xF0 + e, 0x80 + f, 0x80 + b, 0x80 + c]"
      by (simp only: code_units_def if_False digits3 [OF b(2) c(2)])
    moreover have "scalar ?cp" unfolding scalar_def using cp by linarith
    ultimately show ?thesis using 4 e f b c unfolding xs by (intro exI [of _ ?cp]) simp
  qed
qed

section \<open>The scanner accepts the encoding\<close>

lemma code_units_byte: "scalar cp \<Longrightarrow> x \<in> set (code_units cp) \<Longrightarrow> x < 256"
  by (auto simp: code_units_def scalar_def split: if_splits)

lemma unat_encode [simp]: "scalar cp \<Longrightarrow> map unat (encode_utf8 cp) = code_units cp"
  unfolding encode_utf8_def map_map
  by (rule map_idI) (use unat_byte code_units_byte in auto)

lemma length_encode [simp]: "length (encode_utf8 cp) = length (code_units cp)"
  by (simp add: encode_utf8_def)

lemma code_units_nonempty [simp]: "code_units cp \<noteq> []"
  by (simp add: code_units_def)

lemma encode_nonempty [simp]: "encode_utf8 cp \<noteq> []"
  by (simp add: encode_utf8_def)

lemma scan_char_encode:
  assumes "scalar cp"
  shows "scan_char (encode_utf8 cp @ ys) = Inr (length (code_units cp))"
proof -
  obtain b us where b: "encode_utf8 cp = b # us" by (cases "encode_utf8 cp") auto
  have "map unat (encode_utf8 cp @ ys) = code_units cp @ map unat ys" using assms by simp
  then have "map unat (b # us @ ys) = code_units cp @ map unat ys" unfolding b by simp
  then have "accepted (map unat (b # us @ ys)) (length (code_units cp))"
    using accepted_code_units [OF assms, of "map unat ys"] by (simp only:)
  then show ?thesis using scan_char_accepted [of b "us @ ys"] unfolding b by simp
qed

lemma scan_char_decodes:
  assumes "scan_char us = Inr n" and "us \<noteq> []"
  shows "\<exists>cp. scalar cp \<and> us = encode_utf8 cp @ drop n us \<and> n = length (code_units cp)"
proof -
  have "accepted (map unat us) n" using assms scan_char_accepted by (cases us) auto
  then obtain cp where cp: "scalar cp" "map unat (take n us) = code_units cp" "n = length (code_units cp)"
    using accepted_decodes by (metis take_map)
  have "map word_of_nat (map unat (take n us)) = take n us" by (simp add: o_def)
  then have "take n us = encode_utf8 cp" using cp(2) by (simp add: encode_utf8_def)
  with cp(1,3) show ?thesis by (metis append_take_drop_id)
qed

lemma valid_utf8_Nil [simp]: "valid_utf8 []"
  unfolding valid_utf8_def by (rule exI [of _ "[]"]) simp

lemma valid_utf8_first:
  assumes "valid_utf8 us" and "us \<noteq> []"
  obtains cp ys where "scalar cp" "us = encode_utf8 cp @ ys" "valid_utf8 ys"
proof -
  obtain cps where cps: "\<forall>cp\<in>set cps. scalar cp" "us = concat (map encode_utf8 cps)"
    using assms(1) by (auto simp: valid_utf8_def)
  with assms(2) obtain cp cps' where "cps = cp # cps'" by (cases cps) auto
  with cps that [of cp "concat (map encode_utf8 cps')"] show thesis by (auto simp: valid_utf8_def)
qed

lemma valid_utf8_append: "scalar cp \<Longrightarrow> valid_utf8 (encode_utf8 cp @ ys) = valid_utf8 ys"
proof
  assume s: "scalar cp" and "valid_utf8 (encode_utf8 cp @ ys)"
  then obtain cp' ys' where c: "scalar cp'" "encode_utf8 cp @ ys = encode_utf8 cp' @ ys'" "valid_utf8 ys'"
    by (auto elim: valid_utf8_first)
  then have "length (code_units cp) = length (code_units cp')"
    using scan_char_encode [OF s, of ys] scan_char_encode [OF c(1), of ys'] by simp
  with c show "valid_utf8 ys" by simp
next
  assume "scalar cp" and "valid_utf8 ys"
  then show "valid_utf8 (encode_utf8 cp @ ys)"
    unfolding valid_utf8_def by (metis list.simps(9) concat.simps(2) set_ConsD)
qed

lemma encode_ascii: "0 < b \<Longrightarrow> b < 0x80 \<Longrightarrow> scalar (unat b) \<and> encode_utf8 (unat b) = [b]" for b :: byte
  by (auto simp: scalar_def encode_utf8_def code_units_def byte_cmp)

lemma valid_utf8_ascii: "\<forall>b\<in>set us. 0 < b \<and> b < 0x80 \<Longrightarrow> valid_utf8 (us @ ys) = valid_utf8 ys"
proof (induction us)
  case (Cons b us)
  have "valid_utf8 ([b] @ us @ ys) = valid_utf8 (us @ ys)"
    using valid_utf8_append [of "unat b" "us @ ys"] encode_ascii [of b] Cons.prems by simp
  with Cons show ?case by simp
qed simp

text \<open>Bytes of a character of several bytes are not below 0x80.\<close>

lemma encode_high: "scalar cp \<Longrightarrow> b \<in> set (encode_utf8 cp) \<Longrightarrow> encode_utf8 cp = [b] \<or> 0x80 \<le> b"
proof -
  assume s: "scalar cp" and b: "b \<in> set (encode_utf8 cp)"
  have "unat b \<in> set (map unat (encode_utf8 cp))" using b by simp
  then have u: "unat b \<in> set (code_units cp)" using s by simp
  show ?thesis
  proof (cases "cp < 0x80")
    case True
    then show ?thesis using b by (simp add: encode_utf8_def code_units_def)
  next
    case False
    then have "0x80 \<le> unat b" using u by (auto simp: code_units_def split: if_splits)
    then show ?thesis by (simp add: byte_cmp)
  qed
qed

section \<open>The loop\<close>

definition text_part :: "byte option \<Rightarrow> byte list \<Rightarrow> byte list" where
  "text_part terminator us = takeWhile (\<lambda>b. terminator \<noteq> Some b) us"

definition ansi :: "byte list \<Rightarrow> bool" where
  "ansi us \<longleftrightarrow> 0x1B \<in> set us \<or> 0x08 \<in> set us"

lemma text_part_append: "\<forall>b\<in>set us. terminator \<noteq> Some b \<Longrightarrow>
    text_part terminator (us @ ys) = us @ text_part terminator ys"
  by (simp add: text_part_def takeWhile_append2)

lemma ansi_append: "ansi (us @ ys) \<longleftrightarrow> ansi us \<or> ansi ys"
  by (auto simp: ansi_def)

lemma ansi_encode: "scalar cp \<Longrightarrow> encode_utf8 cp = b # us \<Longrightarrow>
    usr_has_ansi (note_char b r) \<longleftrightarrow> usr_has_ansi r \<or> ansi (encode_utf8 cp)"
  using encode_high [of cp "0x1B"] encode_high [of cp "0x08"]
  by (auto simp: ansi_def note_char_def)

lemma note_char_other [simp]:
  "usr_message (note_char b r) = usr_message r" "usr_remaining (note_char b r) = usr_remaining r"
  by (simp_all add: note_char_def)

definition scanned ::
  "byte list \<Rightarrow> byte option \<Rightarrow> nat \<Rightarrow> utf8_scan_result \<Rightarrow> nat \<times> nat \<times> utf8_scan_result \<Rightarrow> bool" where
  "scanned str terminator i r out \<longleftrightarrow> (case out of (j, ve, r') \<Rightarrow>
     let part = text_part terminator (drop i str) in
     usr_remaining r' = (if i + length part < length str then Some (i + length part + 1) else None)
     \<and> (usr_message r \<noteq> None \<longrightarrow> usr_message r' \<noteq> None)
     \<and> (usr_message r = None \<longrightarrow> (usr_message r' = None \<longleftrightarrow> valid_utf8 part)
         \<and> (usr_message r' = None \<longrightarrow> j = i + length part \<and> (usr_has_ansi r' \<longleftrightarrow> usr_has_ansi r \<or> ansi part))))"

lemma scanned_step:
  assumes "scanned str terminator (i + n) r2 out"
    and "text_part terminator (drop i str) = us @ text_part terminator (drop (i + n) str)" and "length us = n"
    and "usr_message r2 = usr_message r"
    and "usr_message r = None \<Longrightarrow> (\<forall>ys. valid_utf8 (us @ ys) = valid_utf8 ys)
      \<and> (usr_has_ansi r2 \<longleftrightarrow> usr_has_ansi r \<or> ansi us)"
  shows "scanned str terminator i r out"
proof -
  obtain j ve r' where out: "out = (j, ve, r')" by (metis prod_cases3)
  show ?thesis
    using assms(1,4,5) unfolding scanned_def out assms(2) Let_def
    by (cases "usr_message r") (simp_all add: assms(3) ansi_append add.assoc disj_assoc)
qed

lemma scanned_error:
  assumes "scanned str terminator i r2 out" and "usr_message r = None" and "usr_message r2 \<noteq> None"
    and "\<not> valid_utf8 (text_part terminator (drop i str))"
  shows "scanned str terminator i r out"
  using assms unfolding scanned_def Let_def by (auto split: prod.splits)

lemma utf8_loop_scanned:
  assumes "i \<le> length str" and "usr_remaining r = None" and "\<forall>b. terminator = Some b \<longrightarrow> b < 0x80"
  shows "scanned str terminator i r (utf8_loop str terminator i valid_end r)"
  using assms
proof (induction str terminator i valid_end r rule: utf8_loop.induct)
  case (1 str terminator i valid_end r)
  let ?us = "drop i str" and ?part = "text_part terminator (drop i str)"
  show ?case
  proof (cases "i < length str")
    case False
    with 1 show ?thesis by (simp add: utf8_loop.simps [of str] scanned_def text_part_def ansi_def)
  next
    case True
    note i = True
    obtain b us' where us: "?us = b # us'" "b = str ! i" using i by (metis Cons_nth_drop_Suc)
    let ?chunk = "i + CHUNK_WIDTH \<le> length str - length str mod CHUNK_WIDTH \<and> printable_chunk terminator ?us"
    show ?thesis
    proof (cases ?chunk)
      case True
      let ?r = "r\<lparr>usr_column_width_guess := usr_column_width_guess r + CHUNK_WIDTH\<rparr>"
      have len: "i + CHUNK_WIDTH \<le> length str" using True by linarith
      have split: "?us = take CHUNK_WIDTH ?us @ drop (i + CHUNK_WIDTH) str"
        by (metis append_take_drop_id drop_drop add.commute)
      have pr: "b \<ge> 0x20 \<and> b \<le> 0x7E \<and> terminator \<noteq> Some b" if "b \<in> set (take CHUNK_WIDTH ?us)" for b
        using True that by (auto simp: printable_chunk_def not_less)
      have part: "?part = take CHUNK_WIDTH ?us @ text_part terminator (drop (i + CHUNK_WIDTH) str)"
        using pr by (subst split, subst text_part_append) auto
      have "0 < b \<and> b < 0x80" if "b \<in> set (take CHUNK_WIDTH ?us)" for b
        using pr [OF that] by (simp add: byte_cmp)
      then have "\<forall>b\<in>set (take CHUNK_WIDTH ?us). 0 < b \<and> b < 0x80" by blast
      note v = valid_utf8_ascii [OF this]
      have a: "\<not> ansi (take CHUNK_WIDTH ?us)" using pr [of "0x1B"] pr [of "0x08"] by (auto simp: ansi_def)
      have l: "length (take CHUNK_WIDTH ?us) = CHUNK_WIDTH" using len by simp
      have "scanned str terminator (i + CHUNK_WIDTH) ?r
          (utf8_loop str terminator (i + CHUNK_WIDTH) (i + CHUNK_WIDTH) ?r)"
        using "1.IH"(1) [OF i True] len "1.prems" by simp
      then have "scanned str terminator i r (utf8_loop str terminator (i + CHUNK_WIDTH) (i + CHUNK_WIDTH) ?r)"
        by (rule scanned_step [OF _ part l]) (use v a in simp_all)
      then show ?thesis using i True by (subst utf8_loop.simps) simp
    next
      case nochunk: False
      let ?r = "r\<lparr>usr_column_width_guess := usr_column_width_guess r + 1\<rparr>"
      show ?thesis
      proof (cases "terminator = Some b")
        case True
        then have "?part = []" by (simp add: us(1) text_part_def)
        moreover have "utf8_loop str terminator i valid_end r = (i, valid_end, r\<lparr>usr_remaining := Some (i + 1)\<rparr>)"
          using True i nochunk us(2) by (subst utf8_loop.simps) auto
        ultimately show ?thesis using i by (simp add: scanned_def ansi_def)
      next
        case noterm: False
        have part: "?part = b # text_part terminator (drop (i + 1) str)"
          using noterm us i by (simp add: text_part_def Cons_nth_drop_Suc [symmetric])
        show ?thesis
        proof (cases "usr_message r")
          case (Some m)
          have "scanned str terminator (i + 1) ?r (utf8_loop str terminator (i + 1) valid_end ?r)"
            using "1.IH"(2) [OF i nochunk _ refl] noterm us(2) Some i "1.prems" by simp
          then have "scanned str terminator i r (utf8_loop str terminator (i + 1) valid_end ?r)"
            by (rule scanned_step [where us = "[b]"]) (simp_all add: part Some)
          then show ?thesis
            using i nochunk noterm us(2) Some by (subst utf8_loop.simps) (auto simp: Let_def)
        next
          case None
          show ?thesis
          proof (cases "scan_char ?us")
            case (Inl e)
            obtain m f where e: "e = (m, f)" by (cases e)
            let ?r2 = "?r\<lparr>usr_message := Some m, usr_faulty_bytes := f\<rparr>"
            have err: "scanned str terminator i ?r2 (utf8_loop str terminator i i ?r2)"
              using "1.IH"(3) [OF i nochunk _ refl _ Inl e [symmetric]] noterm us(2) None i "1.prems" by simp
            have "\<not> valid_utf8 ?part"
            proof
              assume "valid_utf8 ?part"
              then obtain cp ys where cp: "scalar cp" "?part = encode_utf8 cp @ ys"
                using part by (auto elim: valid_utf8_first)
              have "?us = ?part @ dropWhile (\<lambda>b. terminator \<noteq> Some b) ?us" by (simp add: text_part_def)
              then have "?us = encode_utf8 cp @ ys @ dropWhile (\<lambda>b. terminator \<noteq> Some b) ?us"
                by (metis cp(2) append.assoc)
              then have "scan_char ?us = Inr (length (code_units cp))" using scan_char_encode [OF cp(1)] by metis
              with Inl show False by simp
            qed
            then have "scanned str terminator i r (utf8_loop str terminator i i ?r2)"
              by (intro scanned_error [OF err None]) simp_all
            moreover have "utf8_loop str terminator i valid_end r = utf8_loop str terminator i i ?r2"
              unfolding utf8_loop.simps [of str terminator i valid_end r] if_not_P [OF nochunk] Inl e
              using i noterm us(2) None by simp
            ultimately show ?thesis by simp
          next
            case (Inr n)
            obtain cp where cp: "scalar cp" "?us = encode_utf8 cp @ drop n ?us" "n = length (code_units cp)"
              using scan_char_decodes [OF Inr] us(1) by auto
            then obtain cs where cs: "encode_utf8 cp = b # cs" using us(1) by (cases "encode_utf8 cp") auto
            have n: "i + n \<le> length str"
              using arg_cong [OF cp(2), of length] cp(3) i by simp
            let ?r2 = "note_char b ?r"
            have IH: "scanned str terminator (i + n) ?r2 (utf8_loop str terminator (i + n) i ?r2)"
              using "1.IH"(4) [OF i nochunk _ refl _ Inr] noterm us(2) None n "1.prems" by simp
            have "terminator \<noteq> Some c" if "c \<in> set (encode_utf8 cp)" for c
              using encode_high [OF cp(1) that] noterm cs "1.prems"(3) by (auto simp: not_less [symmetric])
            then have p: "?part = encode_utf8 cp @ text_part terminator (drop (i + n) str)"
              by (subst cp(2), subst text_part_append) (auto simp: add.commute)
            have l: "length (encode_utf8 cp) = n" using cp(3) by simp
            have "scanned str terminator i r (utf8_loop str terminator (i + n) i ?r2)"
              by (rule scanned_step [OF IH p l])
                (use valid_utf8_append [OF cp(1)] ansi_encode [OF cp(1) cs, of ?r] in simp_all)
            then show ?thesis
              using i nochunk noterm us(2) None Inr by (subst utf8_loop.simps) (auto simp: Let_def)
          qed
        qed
      qed
    qed
  qed
qed

text \<open>
  C13: a line is accepted exactly if the bytes up to the terminator are the UTF-8 encoding of scalar
  values other than 0, also where the scanner skips chunks of 16 printable bytes at once; what comes
  after the terminator is given as remaining in any case. For an accepted line all of it is the valid
  part, and it has escapes to handle exactly if there is an ESC or a backspace in it.
\<close>

theorem is_utf8_valid:
  fixes str :: "byte list" and terminator :: "byte option"
  assumes "\<forall>b. terminator = Some b \<longrightarrow> b < 0x80"
  shows "(is_valid (is_utf8 str terminator) \<longleftrightarrow> valid_utf8 (text_part terminator str))
    \<and> usr_remaining (is_utf8 str terminator)
      = (if length (text_part terminator str) < length str then Some (length (text_part terminator str) + 1) else None)
    \<and> (is_valid (is_utf8 str terminator) \<longrightarrow>
        usr_valid_end (is_utf8 str terminator) = length (text_part terminator str)
        \<and> (usr_has_ansi (is_utf8 str terminator) \<longleftrightarrow> ansi (text_part terminator str)))"
proof -
  obtain i ve r where l: "utf8_loop str terminator 0 0 usr_empty = (i, ve, r)" by (metis prod_cases3)
  have "scanned str terminator 0 usr_empty (utf8_loop str terminator 0 0 usr_empty)"
    using assms by (intro utf8_loop_scanned) (simp_all add: usr_empty_def)
  then show ?thesis
    by (auto simp: l scanned_def is_utf8_def is_valid_def Let_def usr_empty_def)
qed

theorem is_utf8_valid_witness:
  "is_valid (is_utf8 [0x68, 0xC3, 0xA9, 0x0A, 0xFF] (Some 0x0A))
   \<and> usr_remaining (is_utf8 [0x68, 0xC3, 0xA9, 0x0A, 0xFF] (Some 0x0A)) = Some 4
   \<and> valid_utf8 [0x68, 0xC3, 0xA9]"
proof -
  have t: "text_part (Some 0x0A) [0x68, 0xC3, 0xA9, 0x0A, 0xFF] = [0x68, 0xC3, 0xA9 :: byte]"
    by (simp add: text_part_def)
  have "is_valid (is_utf8 [0x68, 0xC3, 0xA9, 0x0A, 0xFF] (Some 0x0A))" by code_simp
  then show ?thesis
    using is_utf8_valid [of "Some 0x0A" "[0x68, 0xC3, 0xA9, 0x0A, 0xFF]"] t by (simp add: byte_cmp)
qed

text \<open>
  A chunk of printable bytes after an error moves the end of the valid part past the error: the
  fragment that the caller is told to be valid has the invalid byte in it.
\<close>

lemma valid_part_has_error:
  "\<not> is_valid (is_utf8 (0xFF # replicate 31 0x61) None)
   \<and> usr_valid_end (is_utf8 (0xFF # replicate 31 0x61) None) = 17"
  by code_simp

end
