(* ===== verification/Logfile.thy ===== *)
theory Logfile
  imports Logline Utf8
begin

text \<open>
  How a log file is read into lines (\<open>src/logfile.cc\<close>): the detection of the format, the order of time
  in the file, the last line that is read again when the file grows, and the lengths of lines.

  The members \<open>lf_X\<close> of \<open>class logfile\<close> are the fields \<open>rd_X\<close>. A format is its name, its flags and its
  two scanners: the one of the shared root format, tried when the format is not known, and the one of
  the copy that the file keeps (\<open>specialized\<close>). A scanner gets the lines so far and returns them
  changed, like the virtual function \<open>scan\<close> that appends to \<open>dst\<close>. Root formats have distinct names, so
  they are compared by name. The line buffer, the first line's check sum, the options and the observers
  are the fields of \<open>env\<close>. \<open>None\<close> is a failed \<open>require\<close> or a loop that does not end.
\<close>

section \<open>Formats and lines\<close>

record scan_match =
  sm_quality :: nat
  sm_strikes :: nat
  sm_precision :: nat

definition is_better_than :: "scan_match \<Rightarrow> scan_match \<Rightarrow> bool" where
  "is_better_than a b \<longleftrightarrow>
    (if sm_quality a \<noteq> sm_quality b then sm_quality a > sm_quality b
     else if sm_precision a \<noteq> sm_precision b then sm_precision a > sm_precision b
     else sm_strikes a < sm_strikes b)"

definition merge_best :: "scan_match \<Rightarrow> scan_match \<Rightarrow> scan_match" where
  "merge_best a b =
    \<lparr>sm_quality = (if sm_quality b > sm_quality a then sm_quality b else sm_quality a),
     sm_strikes = (if sm_strikes b < sm_strikes a then sm_strikes b else sm_strikes a),
     sm_precision = (if sm_precision b > sm_precision a then sm_precision b else sm_precision a)\<rparr>"

datatype scan_outcome = Scan_match scan_match | Scan_no_match | Scan_error | Scan_incomplete

record line_info =
  li_offset :: int
  li_size :: int
  li_timestamp :: tv
  li_level :: log_level
  li_partial :: bool
  li_utf8_scan_result :: utf8_scan_result

definition next_offset :: "line_info \<Rightarrow> int" where
  "next_offset li = li_offset li + li_size li"

type_synonym scanner = "logline list \<Rightarrow> line_info \<Rightarrow> string \<Rightarrow> scan_outcome \<times> logline list"

record log_format =
  fmt_name :: string
  fmt_max_unrecognized_lines :: "nat option"
  fmt_match_name :: "string \<Rightarrow> bool"
  fmt_multiline :: bool
  fmt_structured :: bool
  fmt_time_ordered :: bool
  fmt_scan :: scanner
  fmt_specialized_scan :: scanner

record log_level_stats =
  lls_error_count :: nat
  lls_warning_count :: nat
  lls_total_count :: nat

definition no_stats :: log_level_stats where
  "no_stats = \<lparr>lls_error_count = 0, lls_warning_count = 0, lls_total_count = 0\<rparr>"

definition update_msg_count :: "log_level \<Rightarrow> log_level_stats \<Rightarrow> log_level_stats" where
  "update_msg_count lvl st =
    (let st = (if lvl \<in> {LEVEL_FATAL, LEVEL_CRITICAL, LEVEL_ERROR}
               then st\<lparr>lls_error_count := lls_error_count st + 1\<rparr>
               else if lvl = LEVEL_WARNING then st\<lparr>lls_warning_count := lls_warning_count st + 1\<rparr>
               else st)
     in st\<lparr>lls_total_count := lls_total_count st + 1\<rparr>)"

datatype text_format = TF_BINARY | TF_LOG | TF_DIFF | TF_MAN | TF_MARKDOWN | TF_OTHER

section \<open>The state of a file\<close>

record 'o reader =
  rd_filename :: string
  rd_index :: "logline list"
  rd_format :: "log_format option"
  rd_format_match :: scan_match
  rd_detect_format :: bool
  rd_format_name :: "string option"
  rd_mismatched_formats :: "string list"
  rd_text_format :: "text_format option"
  rd_level_stats :: log_level_stats
  rd_invalid_lines :: "nat list"
  rd_invalid_total :: nat
  rd_out_of_time_order_count :: nat
  rd_upper_bound_size :: "int option"
  rd_index_size :: int
  rd_index_time :: int
  rd_partial_line :: bool
  rd_longest_line :: nat
  rd_sort_needed :: bool
  rd_indexing :: bool
  rd_visible :: bool
  rd_non_utf_is_visible :: bool
  rd_tr_end :: int
  rd_stat :: "int \<times> int"
  rd_named_file :: bool
  rd_is_closed :: bool
  rd_time_offset_line :: int
  rd_time_offset :: tv
  rd_index_generation :: int
  rd_observer :: 'o

definition RETRY_MATCH_SIZE :: nat where
  "RETRY_MATCH_SIZE = 250"

definition MAX_INVALID_LINES :: nat where
  "MAX_INVALID_LINES = 5"

definition reset_internal_state_for_reindex :: "('o \<Rightarrow> 'o) \<Rightarrow> 'o reader \<Rightarrow> 'o reader" where
  "reset_internal_state_for_reindex logline_clear r =
    r\<lparr>rd_index := [], rd_index_size := 0, rd_level_stats := no_stats, rd_partial_line := False,
      rd_longest_line := 0, rd_sort_needed := True, rd_out_of_time_order_count := 0,
      rd_observer := logline_clear (rd_observer r)\<rparr>"

section \<open>The format of a line\<close>

text \<open>The local variables of the search for a format.\<close>

record detection =
  dt_best :: "(log_format \<times> scan_match) option"
  dt_prev_index_size :: nat
  dt_found :: scan_outcome
  dt_scan_count :: nat

definition is_current :: "log_format \<Rightarrow> 'o reader \<Rightarrow> bool" where
  "is_current f r \<longleftrightarrow> (case rd_format r of None \<Rightarrow> False | Some g \<Rightarrow> fmt_name g = fmt_name f)"

text \<open>A format that matches the line: the file's own, a better one than the best so far, or a worse one.\<close>

definition format_matched ::
  "nat \<Rightarrow> log_format \<Rightarrow> scan_match \<Rightarrow> 'o reader \<times> detection \<Rightarrow> 'o reader \<times> detection" where
  "format_matched start f sm rd =
    (let (r, d) = rd in
     case dt_best d of
       None \<Rightarrow> (r, d\<lparr>dt_best := Some (f, sm), dt_prev_index_size := length (rd_index r)\<rparr>)
     | Some (b, bm) \<Rightarrow>
         if is_current f r \<and> fmt_name b = fmt_name f
         then (r\<lparr>rd_format_match := merge_best (rd_format_match r) sm\<rparr>,
               d\<lparr>dt_prev_index_size := length (rd_index r), dt_found := Scan_match bm\<rparr>)
         else if is_better_than sm bm
         then let ls = take start (rd_index r) @ drop (dt_prev_index_size d) (rd_index r)
              in (r\<lparr>rd_index := ls\<rparr>, d\<lparr>dt_best := Some (f, sm), dt_prev_index_size := length ls\<rparr>)
         else (r\<lparr>rd_index := take (dt_prev_index_size d) (rd_index r)\<rparr>, d))"

definition format_failed :: "'o reader \<Rightarrow> 'o reader" where
  "format_failed r =
    (let r' = r\<lparr>rd_invalid_total := rd_invalid_total r + 1\<rparr>
     in if length (rd_invalid_lines r) \<ge> MAX_INVALID_LINES then r'
        else r'\<lparr>rd_invalid_lines := rd_invalid_lines r @ [length (rd_index r)]\<rparr>)"

definition try_format ::
  "nat \<Rightarrow> nat \<Rightarrow> line_info \<Rightarrow> string \<Rightarrow> log_format \<Rightarrow> 'o reader \<times> detection \<Rightarrow> 'o reader \<times> detection" where
  "try_format max_unrecognized_lines start li sbr f rd =
    (let (r, d) = rd in
     if length (rd_index r) \<ge> (case fmt_max_unrecognized_lines f of Some n \<Rightarrow> n | None \<Rightarrow> max_unrecognized_lines)
     then (r, d)
     else if fmt_name f \<in> set (rd_mismatched_formats r) then (r, d)
     else if \<not> fmt_match_name f (rd_filename r)
     then (r\<lparr>rd_mismatched_formats := fmt_name f # rd_mismatched_formats r\<rparr>, d)
     else if rd_format_name r \<noteq> None \<and> rd_format_name r \<noteq> Some (fmt_name f) then (r, d)
     else
       let (res, ls) = (case rd_format r of
              Some g \<Rightarrow> if fmt_name g = fmt_name f then fmt_specialized_scan g (rd_index r) li sbr
                        else fmt_scan f (rd_index r) li sbr
            | None \<Rightarrow> fmt_scan f (rd_index r) li sbr);
           r = r\<lparr>rd_index := ls\<rparr>; d = d\<lparr>dt_scan_count := dt_scan_count d + 1\<rparr>
       in case res of
            Scan_match sm \<Rightarrow> format_matched start f sm (r, d)
          | Scan_error \<Rightarrow> (format_failed r, d)
          | Scan_incomplete \<Rightarrow> (r, d)
          | Scan_no_match \<Rightarrow> (r, d))"

text \<open>The best match replaces the file's format, if any; the lines before were written at the same time.\<close>

definition count_levels :: "logline list \<Rightarrow> log_level_stats" where
  "count_levels ls = fold (\<lambda>ll. if ll_continued ll then id else update_msg_count (ll_level ll)) ls no_stats"

definition backdate :: "log_format \<Rightarrow> int \<Rightarrow> logline \<Rightarrow> logline" where
  "backdate f t ll =
    (let ll = ll\<lparr>ll_time := t\<rparr>
     in if fmt_multiline f then (if fmt_structured f then ll\<lparr>ll_ignore := True\<rparr> else ll)
        else ll\<lparr>ll_level := LEVEL_INVALID\<rparr>)"

definition lock_format ::
  "('o \<Rightarrow> 'o) \<Rightarrow> nat \<Rightarrow> log_format \<Rightarrow> scan_match \<Rightarrow> 'o reader \<Rightarrow> (bool \<times> 'o reader) option" where
  "lock_format logline_clear start f sm r =
    (let r' = r\<lparr>rd_text_format := Some TF_LOG, rd_format := Some f,
                rd_level_stats := count_levels (rd_index r), rd_format_match := sm\<rparr>
     in if rd_format r \<noteq> None then Some (True, reset_internal_state_for_reindex logline_clear r')
        else if \<not> start < length (rd_index r) then None
        else Some (start > 0, r'\<lparr>rd_index :=
               map (backdate f (ll_time (last (rd_index r)))) (take start (rd_index r))
               @ drop start (rd_index r)\<rparr>))"

definition detect_format ::
  "('o \<Rightarrow> 'o) \<Rightarrow> nat \<Rightarrow> log_format list \<Rightarrow> line_info \<Rightarrow> string \<Rightarrow> 'o reader \<Rightarrow>
   (scan_outcome \<times> bool \<times> 'o reader) option" where
  "detect_format logline_clear max_unrecognized_lines root_formats li sbr r =
    (let start = length (rd_index r);
         d = \<lparr>dt_best = map_option (\<lambda>f. (f, rd_format_match r)) (rd_format r),
              dt_prev_index_size = start, dt_found = Scan_no_match, dt_scan_count = 0\<rparr>;
         (r, d) = fold (try_format max_unrecognized_lines start li sbr) root_formats (r, d);
         r = (if dt_scan_count d = 0 then r\<lparr>rd_detect_format := False\<rparr> else r)
     in case dt_best d of
          None \<Rightarrow> Some (dt_found d, False, r)
        | Some (f, sm) \<Rightarrow>
            if rd_format r = None \<or> \<not> is_current f r \<and> is_better_than sm (rd_format_match r)
            then map_option (\<lambda>(b, r'). (Scan_match sm, b, r')) (lock_format logline_clear start f sm r)
            else Some (dt_found d, False, r))"

section \<open>The lines that a scan appends\<close>

text \<open>The last line takes over what the scan of the bytes found.\<close>

definition note_line :: "line_info \<Rightarrow> 'o reader \<Rightarrow> 'o reader" where
  "note_line li r =
    (if rd_index r = [] then r
     else
       let ll = last (rd_index r);
           ll' = ll\<lparr>ll_valid_utf := ll_valid_utf ll \<and> is_valid (li_utf8_scan_result li),
                    ll_has_ansi := ll_has_ansi ll \<or> usr_has_ansi (li_utf8_scan_result li)\<rparr>;
           r = r\<lparr>rd_level_stats := update_msg_count (ll_level ll) (rd_level_stats r),
                 rd_index := butlast (rd_index r) @ [ll']\<rparr>
       in if ll_level ll = LEVEL_INVALID
          then r\<lparr>rd_invalid_lines := (if length (rd_invalid_lines r) < MAX_INVALID_LINES
                                      then rd_invalid_lines r @ [length (rd_index r) - 1] else rd_invalid_lines r),
                 rd_invalid_total := rd_invalid_total r + 1\<rparr>
          else r)"

text \<open>Lines that are older than the line before them are moved to its time.\<close>

definition skew_lines :: "nat \<Rightarrow> 'o reader \<Rightarrow> bool \<times> 'o reader" where
  "skew_lines prescan_size r =
    (if prescan_size > 0 \<and> prescan_size < length (rd_index r)
     then
       let second_to_last = rd_index r ! (prescan_size - 1); latest = rd_index r ! prescan_size
       in if \<not> ll_ignore second_to_last \<and> logline_less latest second_to_last
          then (case rd_format r of
                  Some f \<Rightarrow>
                    if fmt_time_ordered f
                    then (False, r\<lparr>rd_out_of_time_order_count := rd_out_of_time_order_count r + 1,
                           rd_index := take prescan_size (rd_index r)
                             @ map (\<lambda>ll. ll\<lparr>ll_time_skew := True, ll_time := ll_time second_to_last\<rparr>)
                                 (drop prescan_size (rd_index r))\<rparr>)
                    else (True, r)
                | None \<Rightarrow> (False, r))
          else (False, r)
     else (False, r))"

definition finish_match :: "nat \<Rightarrow> int \<Rightarrow> line_info \<Rightarrow> 'o reader \<Rightarrow> bool \<times> 'o reader" where
  "finish_match prescan_size prescan_time li r =
    (let r = note_line li r;
         moved = (prescan_size > 0 \<and> length (rd_index r) \<ge> prescan_size
                  \<and> prescan_time \<noteq> ll_time (rd_index r ! (prescan_size - 1)));
         (b, r) = skew_lines prescan_size r
     in (moved \<or> b, r))"

text \<open>A line that no format knows has the time of the one before it, and belongs to it in a known format.\<close>

definition tv_micros :: "tv \<Rightarrow> int" where
  "tv_micros t = fst t * 1000000 + snd t"

definition append_unmatched :: "line_info \<Rightarrow> 'o reader \<Rightarrow> 'o reader" where
  "append_unmatched li r =
    (let (t, lev, continued) =
           (if rd_format r = None \<and> fst (li_timestamp li) \<noteq> 0
            then (tv_micros (li_timestamp li), li_level li, False)
            else if rd_index r \<noteq> []
            then (ll_time (last (rd_index r)),
                  if rd_format r \<noteq> None then ll_level (last (rd_index r)) else LEVEL_UNKNOWN,
                  rd_format r \<noteq> None)
            else (rd_index_time r, LEVEL_UNKNOWN, False));
         ll = (logline_new (li_offset li) t lev)\<lparr>ll_continued := continued,
                ll_valid_utf := is_valid (li_utf8_scan_result li),
                ll_has_ansi := usr_has_ansi (li_utf8_scan_result li)\<rparr>
     in r\<lparr>rd_index := rd_index r @ [ll]\<rparr>)"

definition cut_at_bound :: "'o reader \<Rightarrow> 'o reader" where
  "cut_at_bound r =
    (if rd_format r \<noteq> None \<and> rd_index r \<noteq> [] \<and> ll_time (last (rd_index r)) > rd_tr_end r
     then r\<lparr>rd_upper_bound_size := (if rd_upper_bound_size r = None then Some (ll_offset (last (rd_index r)))
                                    else rd_upper_bound_size r),
            rd_index := butlast (rd_index r)\<rparr>
     else r)"

definition scan_line ::
  "('o \<Rightarrow> 'o) \<Rightarrow> nat \<Rightarrow> log_format list \<Rightarrow> line_info \<Rightarrow> string \<Rightarrow> 'o reader \<Rightarrow>
   (scan_outcome \<times> bool \<times> 'o reader) option" where
  "scan_line logline_clear max_unrecognized_lines root_formats li sbr r =
    (if rd_detect_format r \<and> (rd_format r = None \<or> length (rd_index r) < RETRY_MATCH_SIZE)
     then detect_format logline_clear max_unrecognized_lines root_formats li sbr r
     else case rd_format r of
       Some f \<Rightarrow> let (res, ls) = fmt_specialized_scan f (rd_index r) li sbr
                 in Some (res, False, r\<lparr>rd_index := ls\<rparr>)
     | None \<Rightarrow> Some (Scan_no_match, False, r))"

definition process_prefix ::
  "('o \<Rightarrow> 'o) \<Rightarrow> nat \<Rightarrow> log_format list \<Rightarrow> line_info \<Rightarrow> string \<Rightarrow> 'o reader \<Rightarrow> (bool \<times> 'o reader) option" where
  "process_prefix logline_clear max_unrecognized_lines root_formats li sbr r =
    (let prescan_size = length (rd_index r);
         prescan_time = (if prescan_size > 0 then ll_time (rd_index r ! (prescan_size - 1)) else 0)
     in case scan_line logline_clear max_unrecognized_lines root_formats li sbr r of
          None \<Rightarrow> None
        | Some (found, b, r) \<Rightarrow>
            (case found of
               Scan_match _ \<Rightarrow> let (b', r) = finish_match prescan_size prescan_time li r
                                in Some (b \<or> b', cut_at_bound r)
             | Scan_no_match \<Rightarrow> Some (b, cut_at_bound (append_unmatched li r))
             | _ \<Rightarrow> Some (b, cut_at_bound r)))"


section \<open>Reading the file\<close>

datatype load_result = Load_error | Load_end | Load_line line_info string

text \<open>
  What \<open>rebuild_index\<close> asks others. \<open>en_load\<close> gives the line that starts at an offset, with its text;
  \<open>en_rollback_ok\<close> says that the lines before the last one can be read again and end in a newline;
  \<open>en_available\<close> is \<open>is_data_available\<close>. The functions of the observer may fail an assertion.
\<close>

record 'o env =
  en_root_formats :: "log_format list"
  en_max_unrecognized_lines :: nat
  en_changed :: bool
  en_fstat :: "(int \<times> int) + bool"
  en_user_source :: bool
  en_same_first_line :: bool
  en_available :: "int \<Rightarrow> int \<Rightarrow> bool"
  en_content_size :: int
  en_limit :: "bool \<Rightarrow> nat"
  en_load :: "int \<Rightarrow> load_result"
  en_rollback_ok :: "logline list \<Rightarrow> bool"
  en_detect_text_format :: "text_format option"
  en_erase_ansi :: "string \<Rightarrow> string"
  en_interrupt :: "line_info \<Rightarrow> bool"
  en_too_large :: "int \<Rightarrow> bool"
  en_file_time :: int
  en_logline_clear :: "'o \<Rightarrow> 'o"
  en_logline_restart :: "nat \<Rightarrow> 'o \<Rightarrow> 'o option"
  en_logline_new_lines :: "logline list \<Rightarrow> nat \<Rightarrow> string \<Rightarrow> 'o \<Rightarrow> (bool \<times> 'o) option"
  en_logline_eof :: "logline list \<Rightarrow> 'o \<Rightarrow> 'o option"

definition is_line_ending :: "char \<Rightarrow> bool" where
  "is_line_ending ch \<longleftrightarrow> ch = CHR 0x0A \<or> ch = CHR 0x0D"

definition rtrim :: "(char \<Rightarrow> bool) \<Rightarrow> string \<Rightarrow> string" where
  "rtrim p s = rev (dropWhile p (rev s))"

text \<open>The text of a line as the formats see it.\<close>

definition line_text :: "'o env \<Rightarrow> line_info \<Rightarrow> string \<Rightarrow> string" where
  "line_text en li text =
    (let sbr = rtrim is_line_ending text
     in if is_valid (li_utf8_scan_result li) \<and> usr_has_ansi (li_utf8_scan_result li)
        then en_erase_ansi en sbr else sbr)"

text \<open>The last line, with all its sub-lines, may have been read in part and is dropped.\<close>

fun drop_sub_lines :: "logline list \<Rightarrow> logline list" where
  "drop_sub_lines [] = []"
| "drop_sub_lines (ll # rest) = (if ll_sub_offset ll \<noteq> 0 then drop_sub_lines rest else rest)"

definition rollback :: "logline list \<Rightarrow> logline list" where
  "rollback ls = rev (drop_sub_lines (rev ls))"

definition note_text_format :: "'o env \<Rightarrow> 'o reader \<Rightarrow> 'o reader" where
  "note_text_format en r =
    (if rd_index r = [] \<and> rd_text_format r = None
     then r\<lparr>rd_text_format := en_detect_text_format en,
            rd_detect_format := (if en_detect_text_format en \<in> Some ` {TF_DIFF, TF_MAN, TF_MARKDOWN}
                                 then False else rd_detect_format r)\<rparr>
     else r)"

text \<open>What is known when the loop starts, and what changes in it.\<close>

record scan_start =
  ss_begin_size :: nat
  ss_has_format :: bool
  ss_rollback_size :: nat
  ss_rollback_index_start :: nat

record 'o loop_state =
  sl_reader :: "'o reader"
  sl_limit :: nat
  sl_prev_range :: "int \<times> int"
  sl_sort_needed :: bool

datatype 'a step = Go_on 'a | Leave 'a

text \<open>One line, after its text was read; \<open>None\<close> is a failed assertion.\<close>

definition observe_line ::
  "'o env \<Rightarrow> scan_start \<Rightarrow> nat \<Rightarrow> string \<Rightarrow> 'o loop_state \<Rightarrow> 'o loop_state option" where
  "observe_line en st old_size sbr sl =
    (let r = sl_reader sl
     in map_option (\<lambda>(nl_rc, ob). sl\<lparr>sl_reader := r\<lparr>rd_observer := ob\<rparr>,
           sl_sort_needed := sl_sort_needed sl
             \<or> ss_rollback_size st > 0 \<and> old_size = ss_rollback_index_start st \<and> nl_rc\<rparr>)
         (en_logline_new_lines en (rd_index r) old_size sbr (rd_observer r)))"

definition end_of_line :: "'o env \<Rightarrow> scan_start \<Rightarrow> line_info \<Rightarrow> 'o loop_state \<Rightarrow> 'o loop_state step" where
  "end_of_line en st li sl =
    (if en_interrupt en li then Leave sl
     else if \<not> ss_has_format st \<and> rd_format (sl_reader sl) \<noteq> None then Leave sl
     else if ss_begin_size st = 0 \<and> \<not> ss_has_format st \<and> li_offset li > 16 * 1024 then Leave sl
     else if li_partial li then Leave sl
     else if rd_upper_bound_size (sl_reader sl) \<noteq> None then Leave sl
     else Go_on (sl\<lparr>sl_limit := sl_limit sl - 1\<rparr>))"

definition take_line :: "'o env \<Rightarrow> scan_start \<Rightarrow> line_info \<Rightarrow> string \<Rightarrow> 'o loop_state \<Rightarrow> 'o loop_state step option" where
  "take_line en st li text sl =
    (let sl = sl\<lparr>sl_prev_range := (li_offset li, li_size li)\<rparr>; r = sl_reader sl
     in if rd_format r = None \<and> \<not> rd_non_utf_is_visible r \<and> \<not> is_valid (li_utf8_scan_result li)
        then Some (Leave (sl\<lparr>sl_reader := r\<lparr>rd_indexing := False, rd_visible := False\<rparr>\<rparr>))
        else
          let old_size = length (rd_index r);
              r = note_text_format en r;
              sbr = line_text en li text;
              r = r\<lparr>rd_longest_line := max (rd_longest_line r) (usr_column_width_guess (li_utf8_scan_result li)),
                    rd_partial_line := li_partial li\<rparr>
          in case process_prefix (en_logline_clear en) (en_max_unrecognized_lines en) (en_root_formats en) li sbr r of
               None \<Rightarrow> None
             | Some (b, r) \<Rightarrow>
                 (let sort_needed = (b \<or> sl_sort_needed sl);
                      sl = sl\<lparr>sl_reader := r, sl_sort_needed := sort_needed\<rparr>
                  in if sort_needed \<and> rd_index r = []
                     then Some (Go_on (sl\<lparr>sl_limit := max 1000 (sl_limit sl), sl_prev_range := (0, 0)\<rparr>))
                     else
                       let old_size = (if old_size > length (rd_index r) then 0 else old_size);
                           sl = sl\<lparr>sl_reader := r\<lparr>rd_index_size := next_offset li\<rparr>\<rparr>
                       in map_option (end_of_line en st li) (observe_line en st old_size sbr sl)))"

partial_function (option) read_lines :: "'o env \<Rightarrow> scan_start \<Rightarrow> 'o loop_state \<Rightarrow> (bool \<times> 'o loop_state) option" where
  "read_lines en st sl =
    (if sl_limit sl = 0 then Some (True, sl)
     else case en_load en (fst (sl_prev_range sl) + snd (sl_prev_range sl)) of
       Load_error \<Rightarrow> Some (False, sl\<lparr>sl_reader := (sl_reader sl)\<lparr>rd_is_closed := True\<rparr>\<rparr>)
     | Load_end \<Rightarrow> Some (True, sl)
     | Load_line li text \<Rightarrow>
         (case take_line en st li text sl of
            None \<Rightarrow> None
          | Some (Leave sl) \<Rightarrow> Some (True, sl)
          | Some (Go_on sl) \<Rightarrow> read_lines en st sl))"

declare read_lines.simps [code]


section \<open>A rebuild\<close>

datatype rebuild = NO_NEW_LINES | NEW_LINES | NEW_ORDER | INVALID

text \<open>What was dropped before the loop, and where reading starts.\<close>

definition start_reading :: "'o env \<Rightarrow> 'o reader \<Rightarrow> (scan_start \<times> int \<times> 'o reader) option" where
  "start_reading en r =
    (let n = length (rd_index r); ls = rollback (rd_index r)
     in map_option (\<lambda>ob.
          (\<lparr>ss_begin_size = n, ss_has_format = (rd_format r \<noteq> None),
            ss_rollback_size = n - length ls, ss_rollback_index_start = length ls\<rparr>,
           if rd_index r = [] then rd_index_size r else ll_offset (last (rd_index r)),
           r\<lparr>rd_index := ls, rd_observer := ob\<rparr>))
         (en_logline_restart en (n - length ls) (rd_observer r)))"

text \<open>After the loop.\<close>

definition finish_reading :: "'o env \<Rightarrow> int \<times> int \<Rightarrow> nat \<Rightarrow> 'o loop_state \<Rightarrow> (rebuild \<times> 'o reader) option" where
  "finish_reading en st begin_size sl =
    (let r = sl_reader sl;
         r = (if rd_format r = None \<and> en_too_large en (fst (sl_prev_range sl)) then r\<lparr>rd_indexing := False\<rparr> else r)
     in map_option (\<lambda>ob.
          let r = r\<lparr>rd_observer := ob, rd_stat := st,
                    rd_index_size := fst (sl_prev_range sl) + snd (sl_prev_range sl)\<rparr>
          in if begin_size > length (rd_index r) then (INVALID, r\<lparr>rd_is_closed := True\<rparr>)
             else (if sl_sort_needed sl then NEW_ORDER else NEW_LINES, r))
         (en_logline_eof en (rd_index r) (rd_observer r)))"

definition read_new_lines :: "'o env \<Rightarrow> int \<times> int \<Rightarrow> 'o reader \<Rightarrow> (rebuild \<times> 'o reader) option" where
  "read_new_lines en st r =
    (if rd_index r \<noteq> [] \<and> \<not> en_rollback_ok en (rollback (rd_index r))
     then Some (INVALID, r\<lparr>rd_index := rollback (rd_index r), rd_is_closed := True\<rparr>)
     else case start_reading en r of
       None \<Rightarrow> None
     | Some (ss, off, r) \<Rightarrow>
         (case read_lines en ss \<lparr>sl_reader = r\<lparr>rd_sort_needed := False\<rparr>, sl_limit = en_limit en (ss_has_format ss),
                 sl_prev_range = (off, 0), sl_sort_needed = rd_sort_needed r\<rparr> of
            None \<Rightarrow> None
          | Some (False, sl) \<Rightarrow> Some (INVALID, sl_reader sl)
          | Some (True, sl) \<Rightarrow> finish_reading en st (ss_begin_size ss) sl))"

definition overwritten :: "'o env \<Rightarrow> int \<times> int \<Rightarrow> 'o reader \<Rightarrow> bool" where
  "overwritten en st r \<longleftrightarrow>
    (let is_truncated = fst st < fst (rd_stat r);
         rewritten = (en_user_source en \<and> fst (rd_stat r) = fst st \<and> snd (rd_stat r) \<noteq> snd st);
         is_overwritten = (rd_format r = None \<or> \<not> en_same_first_line en)
     in rd_named_file r \<and> (is_truncated \<or> rewritten) \<and> (is_truncated \<or> is_overwritten))"

definition rebuild_end :: "'o env \<Rightarrow> int \<times> int \<Rightarrow> rebuild \<times> 'o reader \<Rightarrow> rebuild \<times> 'o reader" where
  "rebuild_end en st res =
    (if fst res = INVALID then res
     else (fst res, (snd res)\<lparr>rd_index_time := (if en_file_time en = 0 then snd st else en_file_time en) * 1000000,
                              rd_out_of_time_order_count := 0\<rparr>))"

definition file_rebuild_index :: "'o env \<Rightarrow> 'o reader \<Rightarrow> (rebuild \<times> 'o reader) option" where
  "file_rebuild_index en r =
    (if \<not> rd_indexing r
     then Some (if rd_sort_needed r then (NEW_ORDER, r\<lparr>rd_sort_needed := False\<rparr>) else (NO_NEW_LINES, r))
     else
       let r = (if en_changed en then reset_internal_state_for_reindex (en_logline_clear en) r else r)
       in case en_fstat en of
            Inr eintr \<Rightarrow> Some (if eintr then NO_NEW_LINES else INVALID, r)
          | Inl st \<Rightarrow>
              if overwritten en st r then Some (NO_NEW_LINES, r\<lparr>rd_is_closed := True\<rparr>)
              else map_option (rebuild_end en st)
                (if rd_text_format r = Some TF_BINARY
                 then Some (NO_NEW_LINES, r\<lparr>rd_index_size := fst st, rd_stat := st\<rparr>)
                 else if rd_upper_bound_size r \<noteq> None
                 then Some (NO_NEW_LINES, r\<lparr>rd_index_size := en_content_size en, rd_stat := st\<rparr>)
                 else if en_available en (rd_index_size r) (fst st)
                 then read_new_lines en st r
                 else Some (if rd_sort_needed r then NEW_ORDER else NO_NEW_LINES,
                            r\<lparr>rd_stat := st, rd_sort_needed := False\<rparr>)))"

section \<open>Times, lengths and places\<close>

definition timersub :: "tv \<Rightarrow> tv \<Rightarrow> tv" where
  "timersub a b = (let d = (fst a - fst b, snd a - snd b)
     in if snd d < 0 then (fst d - 1, snd d + 1000000) else d)"

definition timeradd :: "tv \<Rightarrow> tv \<Rightarrow> tv" where
  "timeradd a b = (let d = (fst a + fst b, snd a + snd b)
     in if snd d \<ge> 1000000 then (fst d + 1, snd d - 1000000) else d)"

definition adjust_content_time :: "int \<Rightarrow> tv \<Rightarrow> bool \<Rightarrow> 'o reader \<Rightarrow> 'o reader" where
  "adjust_content_time line t abs_offset r =
    (if rd_time_offset r = t then r
     else
       let old_time = rd_time_offset r;
           new_offset = (if abs_offset then t else timeradd old_time t)
       in r\<lparr>rd_time_offset_line := line, rd_time_offset := new_offset,
            rd_index := map (\<lambda>ll. ll\<lparr>ll_time := tv_micros (timeradd (timersub (get_timeval ll) old_time) new_offset)\<rparr>)
                          (rd_index r),
            rd_sort_needed := True, rd_index_generation := rd_index_generation r + 1\<rparr>)"

definition is_time_adjusted :: "'o reader \<Rightarrow> bool" where
  "is_time_adjusted r \<longleftrightarrow> fst (rd_time_offset r) \<noteq> 0 \<or> snd (rd_time_offset r) \<noteq> 0"

definition original_line_time :: "'o reader \<Rightarrow> logline \<Rightarrow> tv" where
  "original_line_time r ll =
    (if is_time_adjusted r then timersub (get_timeval ll) (rd_time_offset r) else get_timeval ll)"

definition clear_time_offset :: "'o reader \<Rightarrow> 'o reader" where
  "clear_time_offset r = adjust_content_time (-1) (0, 0) True r"

end
