(* ===== verification/Logfile_Spec.thy ===== *)
theory Logfile_Spec
  imports Logfile
begin

text \<open>
  What reading a file promises: the best format is found, the lines of a known format stay in the order
  of time, several polls give the lines that one poll gives, and an adjustment of the times can be taken
  back. The file's own format stays the one that is found while the search goes on (\<open>settled\<close>).
\<close>

section \<open>Adjusted times\<close>

lemma tv_micros_timersub [simp]: "tv_micros (timersub a b) = tv_micros a - tv_micros b"
  by (simp add: tv_micros_def timersub_def Let_def algebra_simps)

lemma tv_micros_timeradd [simp]: "tv_micros (timeradd a b) = tv_micros a + tv_micros b"
  by (simp add: tv_micros_def timeradd_def Let_def algebra_simps)

lemma tv_micros_get_timeval [simp]: "tv_micros (get_timeval ll) = ll_time ll"
  using sdiv_mult_smod_eq [of "ll_time ll" 1000000] by (simp add: tv_micros_def get_timeval_def)

definition shift_times :: "int \<Rightarrow> logline list \<Rightarrow> logline list" where
  "shift_times d = map (\<lambda>ll. ll\<lparr>ll_time := ll_time ll + d\<rparr>)"

lemma shift_times_0 [simp]: "shift_times 0 ls = ls"
  by (simp add: shift_times_def)

lemma shift_times_add [simp]: "shift_times d (shift_times e ls) = shift_times (e + d) ls"
  by (simp add: shift_times_def add.assoc)

lemma adjust_shifts:
  "rd_index (adjust_content_time line t ab r)
     = shift_times (tv_micros (rd_time_offset (adjust_content_time line t ab r)) - tv_micros (rd_time_offset r))
         (rd_index r)"
  by (simp add: adjust_content_time_def shift_times_def Let_def algebra_simps)

lemma adjusts_shift:
  "rd_index (fold (\<lambda>(line, t, ab). adjust_content_time line t ab) as r)
     = shift_times (tv_micros (rd_time_offset (fold (\<lambda>(line, t, ab). adjust_content_time line t ab) as r))
                    - tv_micros (rd_time_offset r)) (rd_index r)"
proof (induction as arbitrary: r)
  case (Cons a as)
  obtain line t ab where a: "a = (line, t, ab)" by (cases a) auto
  show ?case using Cons [of "adjust_content_time line t ab r"] adjust_shifts [of line t ab r] by (simp add: a)
qed simp

text \<open>
  Clearing the offset after any adjustments, absolute or relative, gives every line the time that
  was read, and the time that is shown as the original one is it all along.
\<close>

theorem adjusted_times_return:
  assumes "rd_time_offset r = (0, 0)"
  shows "let r' = fold (\<lambda>(line, t, ab). adjust_content_time line t ab) as r
    in rd_index (clear_time_offset r') = rd_index r
       \<and> map (\<lambda>ll. tv_micros (original_line_time r' ll)) (rd_index r') = map ll_time (rd_index r)"
proof -
  define r' where "r' = fold (\<lambda>(line, t, ab). adjust_content_time line t ab) as r"
  have i: "rd_index r' = shift_times (tv_micros (rd_time_offset r')) (rd_index r)"
    using adjusts_shift [of as r] assms by (simp add: r'_def tv_micros_def)
  have "rd_time_offset (clear_time_offset r') = (0, 0)"
    by (simp add: clear_time_offset_def adjust_content_time_def Let_def)
  then have "rd_index (clear_time_offset r') = rd_index r"
    using adjust_shifts [of "-1" "(0, 0)" True r'] i
    by (simp add: clear_time_offset_def tv_micros_def)
  moreover have "map (\<lambda>ll. tv_micros (original_line_time r' ll)) (rd_index r') = map ll_time (rd_index r)"
  proof (cases "is_time_adjusted r'")
    case True
    then show ?thesis by (simp add: i shift_times_def original_line_time_def comp_def)
  next
    case False
    then have "rd_time_offset r' = (0, 0)" by (cases "rd_time_offset r'") (simp add: is_time_adjusted_def)
    with False show ?thesis by (simp add: i shift_times_def original_line_time_def comp_def tv_micros_def [of "(0, 0)"])
  qed
  ultimately show ?thesis unfolding r'_def Let_def by blast
qed

text \<open>A relative adjustment by the offset that is in effect is ignored, so the same step twice counts once.\<close>

lemma same_adjustment_ignored:
  assumes "rd_time_offset r = (0, 0)" and "0 \<le> snd t" and "snd t < 1000000"
  shows "adjust_content_time line t False (adjust_content_time line t False r) = adjust_content_time line t False r"
  using assms by (cases t) (auto simp: adjust_content_time_def timeradd_def Let_def)


section \<open>Lines in the order of time and of the file\<close>

definition ordered :: "logline list \<Rightarrow> bool" where
  "ordered = sorted_wrt (\<lambda>a b. ll_time a \<le> ll_time b)"

definition before_in_file :: "logline \<Rightarrow> logline \<Rightarrow> bool" where
  "before_in_file a b \<longleftrightarrow> ll_offset a < ll_offset b
     \<or> ll_offset a = ll_offset b \<and> ll_sub_offset a < ll_sub_offset b"

text \<open>The lines of one message: one place, one time, numbered sub-lines.\<close>

definition message_lines :: "line_info \<Rightarrow> int \<Rightarrow> logline list \<Rightarrow> bool" where
  "message_lines li t ls \<longleftrightarrow> ls \<noteq> [] \<and> map ll_sub_offset ls = [0..<length ls]
     \<and> (\<forall>ll\<in>set ls. ll_offset ll = li_offset li \<and> ll_time ll = t \<and> \<not> ll_ignore ll)"

definition index_in_order :: "logline list \<Rightarrow> bool" where
  "index_in_order ls \<longleftrightarrow> ordered ls \<and> sorted_wrt before_in_file ls \<and> (\<forall>ll\<in>set ls. \<not> ll_ignore ll)"

lemma index_in_order_sorted: "index_in_order ls \<Longrightarrow> sorted_wrt (\<lambda>a b. \<not> logline_less b a) ls"
proof -
  assume "index_in_order ls"
  then have "sorted_wrt (\<lambda>a b. ll_time a \<le> ll_time b \<and> before_in_file a b) ls"
    by (simp add: index_in_order_def ordered_def sorted_wrt_iff_nth_less)
  then show ?thesis by (rule sorted_wrt_mono_rel [rotated]) (auto simp: before_in_file_def logline_less_def)
qed

text \<open>A scanner of a line format adds the lines of a message, or does not know the line.\<close>

definition line_scanner :: "int \<Rightarrow> scanner \<Rightarrow> bool" where
  "line_scanner tr_end scan \<longleftrightarrow> (\<forall>ls li sbr.
     (\<exists>sm new t. scan ls li sbr = (Scan_match sm, ls @ new) \<and> message_lines li t new \<and> t \<le> tr_end)
     \<or> scan ls li sbr = (Scan_no_match, ls))"

lemma line_scanner_cases:
  assumes "line_scanner tr_end scan"
  obtains (match) sm new t where "scan ls li sbr = (Scan_match sm, ls @ new)" "message_lines li t new" "t \<le> tr_end"
  | (no_match) "scan ls li sbr = (Scan_no_match, ls)"
  using assms unfolding line_scanner_def by blast

text \<open>The lines after one more line, for a format that is known.\<close>

definition noted :: "line_info \<Rightarrow> logline list \<Rightarrow> logline list" where
  "noted li ls = butlast ls @ [(last ls)\<lparr>
     ll_valid_utf := ll_valid_utf (last ls) \<and> is_valid (li_utf8_scan_result li),
     ll_has_ansi := ll_has_ansi (last ls) \<or> usr_has_ansi (li_utf8_scan_result li)\<rparr>]"

definition skewed :: "int \<Rightarrow> logline list \<Rightarrow> logline list" where
  "skewed t = map (\<lambda>ll. ll\<lparr>ll_time_skew := True, ll_time := t\<rparr>)"

definition unmatched :: "int \<Rightarrow> line_info \<Rightarrow> logline list \<Rightarrow> logline" where
  "unmatched index_time li ls =
    (logline_new (li_offset li) (if ls \<noteq> [] then ll_time (last ls) else index_time)
       (if ls \<noteq> [] then ll_level (last ls) else LEVEL_UNKNOWN))
     \<lparr>ll_continued := (ls \<noteq> []), ll_valid_utf := is_valid (li_utf8_scan_result li),
      ll_has_ansi := usr_has_ansi (li_utf8_scan_result li)\<rparr>"

definition new_of :: "log_format \<Rightarrow> int \<Rightarrow> line_info \<Rightarrow> string \<Rightarrow> logline list \<Rightarrow> logline list" where
  "new_of g index_time li sbr ls =
    (case fmt_specialized_scan g ls li sbr of
       (Scan_match _, ls') \<Rightarrow>
         let new = noted li (drop (length ls) ls')
         in if ls \<noteq> [] \<and> logline_less (hd new) (last ls) then skewed (ll_time (last ls)) new else new
     | _ \<Rightarrow> [unmatched index_time li ls])"

lemma noted_append: "new \<noteq> [] \<Longrightarrow> noted li (ls @ new) = ls @ noted li new"
  by (simp add: noted_def butlast_append)

lemma message_lines_noted: "message_lines li t new \<Longrightarrow> message_lines li t (noted li new)"
  by (cases new rule: rev_cases) (auto simp: message_lines_def noted_def)

lemma message_lines_skewed: "message_lines li t new \<Longrightarrow> message_lines li u (skewed u new)"
  by (auto simp: message_lines_def skewed_def comp_def)

lemma message_lines_unmatched:
  "message_lines li (if ls \<noteq> [] then ll_time (last ls) else it) [unmatched it li ls]"
  by (simp add: message_lines_def unmatched_def logline_new_def)

lemma message_lines_hd: "message_lines li t new \<Longrightarrow> ll_time (hd new) = t \<and> ll_offset (hd new) = li_offset li"
  by (auto simp: message_lines_def)

text \<open>A new message is at the end of the file, and it is not earlier than what is there.\<close>

lemma append_message:
  assumes "index_in_order ls" and "message_lines li t new" and "\<forall>ll\<in>set ls. ll_offset ll < li_offset li"
    and "\<forall>ll\<in>set ls. ll_time ll \<le> t"
  shows "index_in_order (ls @ new)" and "\<forall>ll\<in>set (ls @ new). ll_offset ll \<le> li_offset li"
    and "\<forall>ll\<in>set (ls @ new). ll_time ll \<le> t"
proof -
  have "sorted_wrt (<) (map ll_sub_offset new)" using assms(2) by (simp add: message_lines_def)
  then have "sorted_wrt (\<lambda>a b. ll_sub_offset a < ll_sub_offset b) new" by (simp add: sorted_wrt_map)
  then have "sorted_wrt before_in_file new"
    by (rule sorted_wrt_mono_rel [rotated]) (use assms(2) in \<open>auto simp: message_lines_def before_in_file_def\<close>)
  moreover have "ordered new"
    unfolding ordered_def sorted_wrt_iff_nth_less using assms(2) by (auto simp: message_lines_def)
  ultimately show "index_in_order (ls @ new)"
    using assms by (auto simp: index_in_order_def ordered_def sorted_wrt_append before_in_file_def message_lines_def)
  show "\<forall>ll\<in>set (ls @ new). ll_offset ll \<le> li_offset li" "\<forall>ll\<in>set (ls @ new). ll_time ll \<le> t"
    using assms(2-4) by (auto simp: message_lines_def intro: less_imp_le)
qed

lemma new_of_message:
  assumes "line_scanner tr_end (fmt_specialized_scan g)" and "\<forall>ll\<in>set ls. ll_offset ll < li_offset li"
    and "\<forall>ll\<in>set ls. ll_time ll \<le> tr_end" and "it \<le> tr_end" and "ordered ls"
  shows "\<exists>t\<le>tr_end. message_lines li t (new_of g it li sbr ls) \<and> (\<forall>ll\<in>set ls. ll_time ll \<le> t)"
proof -
  have before: "ll_time ll \<le> ll_time (last ls)" if "ll \<in> set ls" for ll
    using that assms(5) by (cases ls rule: rev_cases) (auto simp: ordered_def sorted_wrt_append)
  have last: "ls \<noteq> [] \<Longrightarrow> ll_time (last ls) \<le> tr_end \<and> ll_offset (last ls) < li_offset li" using assms(2,3) by simp
  show ?thesis
  proof (cases rule: line_scanner_cases [OF assms(1), of ls li sbr])
    case (1 sm new t)
    let ?new = "noted li new"
    have m: "message_lines li t ?new" by (rule message_lines_noted [OF 1(2)])
    show ?thesis
    proof (cases "ls \<noteq> [] \<and> logline_less (hd ?new) (last ls)")
      case True
      then have "new_of g it li sbr ls = skewed (ll_time (last ls)) ?new" using 1(1) by (simp add: new_of_def)
      with message_lines_skewed [OF m] before last True show ?thesis by (intro exI [of _ "ll_time (last ls)"]) simp
    next
      case False
      then have "new_of g it li sbr ls = ?new" using 1(1) by (auto simp: new_of_def Let_def)
      moreover have "ll_time ll \<le> t" if "ll \<in> set ls" for ll
        using before [OF that] False last message_lines_hd [OF m] that by (cases ls) (auto simp: logline_less_def)
      ultimately show ?thesis using m 1(3) by auto
    qed
  next
    case 2
    then have "new_of g it li sbr ls = [unmatched it li ls]" by (simp add: new_of_def)
    with message_lines_unmatched [of li ls it] before last assms(4) show ?thesis
      by (intro exI [of _ "if ls \<noteq> [] then ll_time (last ls) else it"]) (auto split: if_splits)
  qed
qed


section \<open>One line of a known format\<close>

text \<open>
  What reading a line leaves alone. The search for a format may improve the match of the file's own
  format, and it notes formats that do not match the name of the file; the own format is none of them.
\<close>

definition same_search :: "'o reader \<Rightarrow> 'o reader \<Rightarrow> bool" where
  "same_search r' r \<longleftrightarrow> rd_format r' = rd_format r \<and> rd_detect_format r' = rd_detect_format r
     \<and> rd_filename r' = rd_filename r \<and> rd_format_name r' = rd_format_name r
     \<and> (\<forall>sm. is_better_than sm (rd_format_match r') \<longrightarrow> is_better_than sm (rd_format_match r))
     \<and> (\<forall>g. rd_format r = Some g \<and> fmt_name g \<in> set (rd_mismatched_formats r')
          \<longrightarrow> fmt_name g \<in> set (rd_mismatched_formats r))"

definition same_file :: "'o reader \<Rightarrow> 'o reader \<Rightarrow> bool" where
  "same_file r' r \<longleftrightarrow> same_search r' r
     \<and> rd_tr_end r' = rd_tr_end r \<and> rd_upper_bound_size r' = rd_upper_bound_size r
     \<and> rd_index_time r' = rd_index_time r \<and> rd_indexing r' = rd_indexing r
     \<and> rd_text_format r' = rd_text_format r \<and> rd_is_closed r' = rd_is_closed r \<and> rd_stat r' = rd_stat r
     \<and> rd_sort_needed r' = rd_sort_needed r \<and> rd_named_file r' = rd_named_file r"

lemma same_search_refl [simp]: "same_search r r"
  by (simp add: same_search_def)

lemma same_search_trans [trans]: "same_search a b \<Longrightarrow> same_search b c \<Longrightarrow> same_search a c"
  by (simp add: same_search_def)

lemma same_search_fields:
  assumes "rd_format r' = rd_format r" and "rd_detect_format r' = rd_detect_format r" and "rd_filename r' = rd_filename r"
    and "rd_format_name r' = rd_format_name r" and "rd_format_match r' = rd_format_match r"
    and "rd_mismatched_formats r' = rd_mismatched_formats r"
  shows "same_search r' r"
  using assms by (simp add: same_search_def)

lemma same_file_refl [simp]: "same_file r r"
  by (simp add: same_file_def)

lemma same_file_trans [trans]: "same_file a b \<Longrightarrow> same_file b c \<Longrightarrow> same_file a c"
  by (auto simp: same_file_def intro: same_search_trans)

lemma same_file_update [simp]:
  "same_file (r\<lparr>rd_index := ls\<rparr>) r" "same_file (r\<lparr>rd_index_size := i\<rparr>) r"
  "same_file (r\<lparr>rd_longest_line := w\<rparr>) r" "same_file (r\<lparr>rd_partial_line := b\<rparr>) r"
  "same_file (r\<lparr>rd_level_stats := st\<rparr>) r" "same_file (r\<lparr>rd_observer := ob\<rparr>) r"
  "same_file (r\<lparr>rd_invalid_lines := ns, rd_invalid_total := n\<rparr>) r"
  "same_file (r\<lparr>rd_out_of_time_order_count := n, rd_index := ls\<rparr>) r"
  by (simp_all add: same_file_def same_search_def)

lemma note_line_index: "rd_index r \<noteq> [] \<Longrightarrow> rd_index (note_line li r) = noted li (rd_index r)"
  by (simp add: note_line_def noted_def Let_def)

lemma note_line_same: "same_file (note_line li r) r"
  by (simp add: note_line_def same_file_def same_search_def Let_def)

lemma skew_lines_known:
  assumes "rd_format r = Some g" and "fmt_time_ordered g" and "rd_index r = ls @ new" and "new \<noteq> []"
    and "\<forall>ll\<in>set ls. \<not> ll_ignore ll"
  shows "\<exists>r'. skew_lines (length ls) r = (False, r') \<and> same_file r' r
    \<and> rd_index r' = ls @ (if ls \<noteq> [] \<and> logline_less (hd new) (last ls) then skewed (ll_time (last ls)) new else new)"
proof (cases "ls = []")
  case False
  have "(ls @ new) ! (length ls - 1) = last ls" "(ls @ new) ! length ls = hd new" "\<not> ll_ignore (last ls)"
    using False assms(4,5) by (simp_all add: nth_append last_conv_nth hd_conv_nth)
  with False assms(1-4) show ?thesis by (auto simp: skew_lines_def Let_def skewed_def)
qed (use assms in \<open>auto simp: skew_lines_def\<close>)

lemma cut_at_bound_none: "\<forall>ll\<in>set (rd_index r). ll_time ll \<le> rd_tr_end r \<Longrightarrow> cut_at_bound r = r"
  by (fastforce simp: cut_at_bound_def dest: bspec [OF _ last_in_set])

text \<open>
  The file's own format stays the best one for these lines: it is tried on every line that the search
  for a format looks at, and whatever another root format does with a line, it only adds lines to the
  index, and none that match better than the own format has matched.
\<close>

definition own_tried :: "'o env \<Rightarrow> log_format \<Rightarrow> 'o reader \<Rightarrow> bool" where
  "own_tried en g r \<longleftrightarrow> distinct (map fmt_name (en_root_formats en))
     \<and> fmt_name g \<notin> set (rd_mismatched_formats r) \<and> (rd_format_name r = None \<or> rd_format_name r = Some (fmt_name g))
     \<and> (\<exists>f\<in>set (en_root_formats en). fmt_name f = fmt_name g)
     \<and> (\<forall>f\<in>set (en_root_formats en). fmt_name f = fmt_name g \<longrightarrow> fmt_match_name f (rd_filename r)
          \<and> RETRY_MATCH_SIZE \<le> (case fmt_max_unrecognized_lines f of Some n \<Rightarrow> n | None \<Rightarrow> en_max_unrecognized_lines en))"

definition not_better :: "log_format \<Rightarrow> scan_match \<Rightarrow> line_info \<Rightarrow> string \<Rightarrow> bool" where
  "not_better f best li sbr \<longleftrightarrow> (\<forall>ls. \<exists>res new. fmt_scan f ls li sbr = (res, ls @ new)
     \<and> (case res of Scan_match sm \<Rightarrow> \<not> is_better_than sm best | _ \<Rightarrow> new = []))"

definition no_rival :: "'o env \<Rightarrow> log_format \<Rightarrow> scan_match \<Rightarrow> (line_info \<times> string) list \<Rightarrow> bool" where
  "no_rival en g best fl \<longleftrightarrow> (\<forall>f\<in>set (en_root_formats en). \<forall>(li, raw)\<in>set fl.
     fmt_name f \<noteq> fmt_name g \<longrightarrow> not_better f best li (line_text en li raw))"

definition settled :: "'o env \<Rightarrow> log_format \<Rightarrow> (line_info \<times> string) list \<Rightarrow> 'o reader \<Rightarrow> bool" where
  "settled en g fl r \<longleftrightarrow> rd_format r = Some g \<and> rd_text_format r = Some TF_LOG \<and> fmt_time_ordered g
     \<and> line_scanner (rd_tr_end r) (fmt_specialized_scan g) \<and> rd_index_time r \<le> rd_tr_end r
     \<and> (rd_detect_format r \<longrightarrow> own_tried en g r \<and> no_rival en g (rd_format_match r) fl)"

lemma settled_search:
  assumes "settled en g fl r" and "same_search r' r" and "rd_text_format r' = rd_text_format r"
    and "rd_tr_end r' = rd_tr_end r" and "rd_index_time r' \<le> rd_tr_end r" and "set fl' \<subseteq> set fl"
  shows "settled en g fl' r'"
proof -
  have nb: "not_better f (rd_format_match r') li sbr" if old: "not_better f (rd_format_match r) li sbr" for f li sbr
    unfolding not_better_def
  proof
    fix ls
    obtain res new where "fmt_scan f ls li sbr = (res, ls @ new)"
      "case res of Scan_match sm \<Rightarrow> \<not> is_better_than sm (rd_format_match r) | _ \<Rightarrow> new = []"
      using old unfolding not_better_def by blast
    then show "\<exists>res new. fmt_scan f ls li sbr = (res, ls @ new)
      \<and> (case res of Scan_match sm \<Rightarrow> \<not> is_better_than sm (rd_format_match r') | _ \<Rightarrow> new = [])"
      using assms(2) by (intro exI [of _ res] exI [of _ new]) (auto simp: same_search_def split: scan_outcome.splits)
  qed
  have "no_rival en g (rd_format_match r') fl'" if "no_rival en g (rd_format_match r) fl"
    unfolding no_rival_def
  proof (intro ballI, clarify)
    fix f li raw assume "f \<in> set (en_root_formats en)" "(li, raw) \<in> set fl'" "fmt_name f \<noteq> fmt_name g"
    with that assms(6) have "not_better f (rd_format_match r) li (line_text en li raw)"
      unfolding no_rival_def by blast
    then show "not_better f (rd_format_match r') li (line_text en li raw)" by (rule nb)
  qed
  moreover have "own_tried en g r'" if "own_tried en g r" "rd_format r = Some g"
    using that assms(2) unfolding own_tried_def same_search_def by metis
  ultimately show ?thesis using assms(1-5) by (auto simp: settled_def same_search_def)
qed

lemma settled_same: "same_file r' r \<Longrightarrow> settled en g fl r \<Longrightarrow> set fl' \<subseteq> set fl \<Longrightarrow> settled en g fl' r'"
  by (rule settled_search) (auto simp: same_file_def settled_def)

definition lines_ok :: "int \<Rightarrow> int \<Rightarrow> logline list \<Rightarrow> bool" where
  "lines_ok tr_end off ls \<longleftrightarrow> index_in_order ls \<and> (\<forall>ll\<in>set ls. ll_offset ll < off \<and> ll_time ll \<le> tr_end)"

lemma lines_ok_new:
  assumes "line_scanner tr_end (fmt_specialized_scan g)" and "lines_ok tr_end (li_offset li) ls" and "it \<le> tr_end"
    and "li_offset li < off"
  shows "lines_ok tr_end off (ls @ new_of g it li sbr ls)" and "\<exists>t. message_lines li t (new_of g it li sbr ls)"
proof -
  have ls: "index_in_order ls" "ordered ls" "\<forall>ll\<in>set ls. ll_offset ll < li_offset li" "\<forall>ll\<in>set ls. ll_time ll \<le> tr_end"
    using assms(2) by (auto simp: lines_ok_def index_in_order_def)
  obtain t where t: "t \<le> tr_end" "message_lines li t (new_of g it li sbr ls)" "\<forall>ll\<in>set ls. ll_time ll \<le> t"
    using new_of_message [OF assms(1) ls(3,4) assms(3) ls(2)] by blast
  from append_message [OF ls(1) t(2) ls(3) t(3)] t(1) assms(4) ls(4)
  show "lines_ok tr_end off (ls @ new_of g it li sbr ls)" unfolding lines_ok_def by fastforce
  from t(2) show "\<exists>t. message_lines li t (new_of g it li sbr ls)" by blast
qed

text \<open>
  The search for a format on a line of a settled file ends with what the own format makes of the line,
  wherever the own format stands among the root formats.
\<close>

lemma merge_best_improves: "is_better_than sm (merge_best a b) \<Longrightarrow> is_better_than sm a"
  by (auto simp: is_better_than_def merge_best_def split: if_splits)

definition own_searched ::
  "log_format \<Rightarrow> scan_outcome \<Rightarrow> logline list \<Rightarrow> 'o reader \<Rightarrow> bool \<Rightarrow> 'o reader \<times> detection \<Rightarrow> bool" where
  "own_searched g res new r tried rd \<longleftrightarrow> (let (r', d) = rd in same_file r' r \<and> dt_best d = Some (g, rd_format_match r)
     \<and> dt_prev_index_size d = length (rd_index r') \<and> rd_index r' = rd_index r @ (if tried then new else [])
     \<and> (tried \<longrightarrow> 0 < dt_scan_count d)
     \<and> dt_found d = (if tried \<and> (\<exists>sm. res = Scan_match sm) then Scan_match (rd_format_match r) else Scan_no_match))"

definition own_scan :: "log_format \<Rightarrow> logline list \<Rightarrow> line_info \<Rightarrow> string \<Rightarrow> scan_outcome \<Rightarrow> logline list \<Rightarrow> bool" where
  "own_scan g ls li sbr res new \<longleftrightarrow> fmt_specialized_scan g ls li sbr = (res, ls @ new)
     \<and> ((\<exists>sm. res = Scan_match sm) \<or> res = Scan_no_match \<and> new = [])"

lemma try_rival:
  assumes "rd_format r = Some g" and "fmt_name f \<noteq> fmt_name g" and "not_better f (rd_format_match r) li sbr"
    and "own_searched g res new r tried rd"
  shows "own_searched g res new r tried (try_format mx (length (rd_index r)) li sbr f rd)"
proof -
  obtain r' d where rd: "rd = (r', d)" by (cases rd)
  have s: "same_file r' r" "dt_best d = Some (g, rd_format_match r)" "dt_prev_index_size d = length (rd_index r')"
    using assms(4) by (auto simp: own_searched_def rd)
  have f: "rd_format r' = Some g" using s(1) assms(1) by (simp add: same_file_def same_search_def)
  obtain res' new' where sc: "fmt_scan f (rd_index r') li sbr = (res', rd_index r' @ new')"
    "case res' of Scan_match sm \<Rightarrow> \<not> is_better_than sm (rd_format_match r) | _ \<Rightarrow> new' = []"
    using assms(3) unfolding not_better_def by blast
  let ?t = "try_format mx (length (rd_index r)) li sbr f (r', d)" and ?d = "d\<lparr>dt_scan_count := Suc (dt_scan_count d)\<rparr>"
  let ?m = "r'\<lparr>rd_mismatched_formats := fmt_name f # rd_mismatched_formats r'\<rparr>"
  let ?scanned = "case res' of Scan_match sm \<Rightarrow> format_matched (length (rd_index r)) f sm (r'\<lparr>rd_index := rd_index r' @ new'\<rparr>, ?d)
      | Scan_error \<Rightarrow> (format_failed (r'\<lparr>rd_index := rd_index r' @ new'\<rparr>), ?d)
      | _ \<Rightarrow> (r'\<lparr>rd_index := rd_index r' @ new'\<rparr>, ?d)"
  have scan: "?scanned \<in> {(r', ?d), (format_failed r', ?d)}"
    using sc(2) s f assms(2) by (cases res') (simp_all add: format_matched_def is_current_def)
  have "?t = (r', d) \<or> ?t = (?m, d) \<or> ?t = ?scanned"
    using f assms(2) sc(1) by (simp add: try_format_def Let_def)
  with scan have t: "?t \<in> {(r', d), (?m, d), (r', ?d), (format_failed r', ?d)}" by (elim disjE) simp_all
  have m: "same_file ?m r'" using assms(2) f by (auto simp: same_file_def same_search_def)
  have ff: "same_file (format_failed r') r'" "rd_index (format_failed r') = rd_index r'"
    by (simp_all add: format_failed_def same_file_def same_search_def Let_def)
  have "fst ?t \<in> {r', ?m, format_failed r'}" "snd ?t \<in> {d, ?d}" using t by auto
  then have "same_file (fst ?t) r'" "rd_index (fst ?t) = rd_index r'" "snd ?t \<in> {d, ?d}" using m ff by auto
  then show ?thesis using assms(4) by (auto simp: own_searched_def rd Let_def split_beta intro: same_file_trans)
qed

lemma try_own:
  assumes "rd_format r = Some g" and "fmt_name f = fmt_name g" and "own_scan g (rd_index r) li sbr res new"
    and "length (rd_index r) < (case fmt_max_unrecognized_lines f of Some n \<Rightarrow> n | None \<Rightarrow> mx)"
    and "fmt_name g \<notin> set (rd_mismatched_formats r)" and "rd_format_name r = None \<or> rd_format_name r = Some (fmt_name g)"
    and "fmt_match_name f (rd_filename r)" and "own_searched g res new r False rd"
  shows "own_searched g res new r True (try_format mx (length (rd_index r)) li sbr f rd)"
proof -
  obtain r' d where rd: "rd = (r', d)" by (cases rd)
  have s: "same_file r' r" "dt_best d = Some (g, rd_format_match r)" "dt_prev_index_size d = length (rd_index r')"
    "rd_index r' = rd_index r" "dt_found d = Scan_no_match" using assms(8) by (auto simp: own_searched_def rd)
  have f: "rd_format r' = Some g" "rd_filename r' = rd_filename r" "rd_format_name r' = rd_format_name r"
    "fmt_name g \<notin> set (rd_mismatched_formats r')" using s(1) assms(1,5) by (auto simp: same_file_def same_search_def)
  have sc: "fmt_specialized_scan g (rd_index r) li sbr = (res, rd_index r @ new)"
    "(\<exists>sm. res = Scan_match sm) \<or> res = Scan_no_match \<and> new = []" using assms(3) by (auto simp: own_scan_def)
  let ?r = "r'\<lparr>rd_index := rd_index r @ new\<rparr>" and ?d = "d\<lparr>dt_scan_count := dt_scan_count d + 1\<rparr>"
  have t: "try_format mx (length (rd_index r)) li sbr f (r', d) = (case res of
          Scan_match sm \<Rightarrow> format_matched (length (rd_index r)) f sm (?r, ?d)
        | Scan_error \<Rightarrow> (format_failed ?r, ?d) | _ \<Rightarrow> (?r, ?d))"
    using f s(4) sc(1) assms(2,4,6,7) by (auto simp: try_format_def Let_def split: scan_outcome.split)
  show ?thesis
  proof (cases "\<exists>sm. res = Scan_match sm")
    case True
    then obtain sm where sm: "res = Scan_match sm" by blast
    let ?rm = "?r\<lparr>rd_format_match := merge_best (rd_format_match r') sm\<rparr>"
    have "same_file ?rm r'" by (auto simp: same_file_def same_search_def dest: merge_best_improves)
    then have "same_file ?rm r" using s(1) by (rule same_file_trans)
    moreover have "try_format mx (length (rd_index r)) li sbr f (r', d)
        = (?rm, ?d\<lparr>dt_prev_index_size := length (rd_index r @ new), dt_found := Scan_match (rd_format_match r)\<rparr>)"
      using t sm s(2) f(1) assms(2) by (simp add: format_matched_def is_current_def)
    ultimately show ?thesis using s(2) sm by (simp add: own_searched_def rd)
  next
    case False
    with sc(2) have n: "res = Scan_no_match" "new = []" by auto
    have "same_file ?r r" using same_file_trans [OF same_file_update(1) s(1)] by blast
    then show ?thesis using t n s by (simp add: own_searched_def rd)
  qed
qed

lemma search_rivals:
  assumes "rd_format r = Some g" and "\<forall>f\<in>set fs. fmt_name f \<noteq> fmt_name g \<and> not_better f (rd_format_match r) li sbr"
    and "own_searched g res new r tried rd"
  shows "own_searched g res new r tried (fold (try_format mx (length (rd_index r)) li sbr) fs rd)"
  using assms(2,3)
proof (induction fs arbitrary: rd)
  case (Cons f fs)
  have "fmt_name f \<noteq> fmt_name g" "not_better f (rd_format_match r) li sbr" using Cons.prems(1) by auto
  from try_rival [OF assms(1) this Cons.prems(2)] Cons.IH Cons.prems(1) show ?case by simp
qed simp

lemma detect_settled:
  assumes "settled en g fl r" and "rd_detect_format r" and "(li, raw) \<in> set fl" and "length (rd_index r) < RETRY_MATCH_SIZE"
    and "own_scan g (rd_index r) li (line_text en li raw) res new"
  shows "\<exists>r'. detect_format cl (en_max_unrecognized_lines en) (en_root_formats en) li (line_text en li raw) r
      = Some (if \<exists>sm. res = Scan_match sm then Scan_match (rd_format_match r) else Scan_no_match, False, r')
    \<and> same_file r' r \<and> rd_index r' = rd_index r @ new"
proof -
  let ?sbr = "line_text en li raw" and ?fs = "en_root_formats en" and ?mx = "en_max_unrecognized_lines en"
  let ?step = "try_format ?mx (length (rd_index r)) li ?sbr"
  have g: "rd_format r = Some g" and own: "own_tried en g r" and riv: "no_rival en g (rd_format_match r) fl"
    using assms(1,2) by (auto simp: settled_def)
  obtain f where f: "f \<in> set ?fs" "fmt_name f = fmt_name g" using own by (auto simp: own_tried_def)
  then obtain ps qs where fs: "?fs = ps @ f # qs" by (meson split_list)
  have lim: "length (rd_index r) < (case fmt_max_unrecognized_lines f of Some n \<Rightarrow> n | None \<Rightarrow> ?mx)"
    and own': "fmt_name g \<notin> set (rd_mismatched_formats r)" "rd_format_name r = None \<or> rd_format_name r = Some (fmt_name g)"
      "fmt_match_name f (rd_filename r)"
    using own f assms(4) by (auto simp: own_tried_def intro: less_le_trans)
  have "distinct (map fmt_name (ps @ f # qs))" using own fs by (simp add: own_tried_def)
  then have "\<forall>h\<in>set (ps @ qs). fmt_name h \<noteq> fmt_name g" using f(2) by auto (metis imageI)+
  then have r: "\<forall>h\<in>set ps. fmt_name h \<noteq> fmt_name g \<and> not_better h (rd_format_match r) li ?sbr"
    "\<forall>h\<in>set qs. fmt_name h \<noteq> fmt_name g \<and> not_better h (rd_format_match r) li ?sbr"
    using riv assms(3) fs unfolding no_rival_def by auto
  let ?d = "\<lparr>dt_best = Some (g, rd_format_match r), dt_prev_index_size = length (rd_index r),
      dt_found = Scan_no_match, dt_scan_count = 0\<rparr>"
  have "own_searched g res new r False (r, ?d)" by (simp add: own_searched_def)
  from search_rivals [OF g r(2) try_own [OF g f(2) assms(5) lim own' search_rivals [OF g r(1) this]]]
  have "own_searched g res new r True (fold ?step ?fs (r, ?d))" using fs by simp
  then obtain r' d where d: "fold ?step ?fs (r, ?d) = (r', d)" "own_searched g res new r True (r', d)" by (metis surj_pair)
  then have "rd_format r' = Some g" using g by (auto simp: own_searched_def same_file_def same_search_def)
  then show ?thesis using d g
    by (intro exI [of _ r']) (auto simp: detect_format_def Let_def own_searched_def is_current_def)
qed

lemma scan_settled:
  assumes "settled en g fl r" and "(li, raw) \<in> set fl" and "own_scan g (rd_index r) li (line_text en li raw) res new"
  shows "\<exists>res' r'. scan_line cl (en_max_unrecognized_lines en) (en_root_formats en) li (line_text en li raw) r
      = Some (res', False, r')
    \<and> (if \<exists>sm. res = Scan_match sm then \<exists>sm. res' = Scan_match sm else res' = Scan_no_match)
    \<and> same_file r' r \<and> rd_index r' = rd_index r @ new"
proof -
  have g: "rd_format r = Some g" using assms(1) by (simp add: settled_def)
  show ?thesis
  proof (cases "rd_detect_format r \<and> length (rd_index r) < RETRY_MATCH_SIZE")
    case True
    with detect_settled [OF assms(1) _ assms(2) _ assms(3), of cl] g show ?thesis
      by (cases "\<exists>sm. res = Scan_match sm") (auto simp: scan_line_def)
  next
    case False
    with g assms(3) show ?thesis by (auto simp: scan_line_def own_scan_def)
  qed
qed

lemma process_settled:
  assumes "settled en g fl r" and "lines_ok (rd_tr_end r) (li_offset li) (rd_index r)" and "(li, raw) \<in> set fl"
  shows "\<exists>r'. process_prefix cl (en_max_unrecognized_lines en) (en_root_formats en) li (line_text en li raw) r = Some (False, r')
    \<and> same_file r' r
    \<and> rd_index r' = rd_index r @ new_of g (rd_index_time r) li (line_text en li raw) (rd_index r)"
proof -
  let ?sbr = "line_text en li raw" let ?ls = "rd_index r" let ?new = "new_of g (rd_index_time r) li ?sbr ?ls"
  have s: "rd_format r = Some g" "fmt_time_ordered g" "rd_index_time r \<le> rd_tr_end r"
    "line_scanner (rd_tr_end r) (fmt_specialized_scan g)" using assms(1) by (auto simp: settled_def)
  have time: "\<forall>ll\<in>set (?ls @ ?new). ll_time ll \<le> rd_tr_end r"
    using lines_ok_new(1) [OF s(4) assms(2) s(3), of "li_offset li + 1" ?sbr] by (auto simp: lines_ok_def)
  have ign: "\<forall>ll\<in>set ?ls. \<not> ll_ignore ll" using assms(2) by (simp add: lines_ok_def index_in_order_def)
  show ?thesis
  proof (cases rule: line_scanner_cases [OF s(4), of ?ls li ?sbr])
    case (1 sm new t)
    then have "own_scan g ?ls li ?sbr (Scan_match sm) new" by (simp add: own_scan_def)
    from scan_settled [OF assms(1,3) this, of cl] obtain sm' r1 where
      r1: "scan_line cl (en_max_unrecognized_lines en) (en_root_formats en) li ?sbr r = Some (Scan_match sm', False, r1)"
      "same_file r1 r" "rd_index r1 = ?ls @ new" by auto
    have new: "new \<noteq> []" "noted li new \<noteq> []" using 1(2) by (simp_all add: message_lines_def noted_def)
    let ?n = "note_line li r1"
    have n: "same_file ?n r" "rd_index ?n = ?ls @ noted li new"
      using note_line_same [of li r1] note_line_index [of r1 li] noted_append [OF new(1), of li ?ls] new(1) r1(2,3)
      by (auto intro: same_file_trans)
    then have "rd_format ?n = Some g" using s(1) by (simp add: same_file_def same_search_def)
    from skew_lines_known [OF this s(2) n(2) new(2) ign] obtain r' where
      r': "skew_lines (length ?ls) ?n = (False, r')" "same_file r' ?n" "rd_index r' = ?ls @ ?new"
      using 1(1) by (auto simp: new_of_def Let_def)
    have "finish_match (length ?ls) (if 0 < length ?ls then ll_time (?ls ! (length ?ls - 1)) else 0) li r1 = (False, r')"
      using n(2) r'(1) by (auto simp: finish_match_def Let_def nth_append)
    moreover have "cut_at_bound r' = r'"
      using time r'(2,3) n(1) by (intro cut_at_bound_none) (simp add: same_file_def)
    ultimately have "process_prefix cl (en_max_unrecognized_lines en) (en_root_formats en) li ?sbr r = Some (False, r')"
      using r1(1) by (simp add: process_prefix_def)
    with r'(2,3) n(1) show ?thesis by (blast intro: same_file_trans)
  next
    case 2
    then have "own_scan g ?ls li ?sbr Scan_no_match []" by (simp add: own_scan_def)
    from scan_settled [OF assms(1,3) this, of cl] obtain r1 where
      r1: "scan_line cl (en_max_unrecognized_lines en) (en_root_formats en) li ?sbr r = Some (Scan_no_match, False, r1)"
      "same_file r1 r" "rd_index r1 = ?ls" by auto
    let ?r = "r1\<lparr>rd_index := ?ls @ ?new\<rparr>"
    have "rd_format r1 = Some g" "rd_index_time r1 = rd_index_time r" "rd_tr_end r1 = rd_tr_end r"
      using r1(2) s(1) by (simp_all add: same_file_def same_search_def)
    then have "append_unmatched li r1 = ?r" "cut_at_bound ?r = ?r"
      using 2 r1(3) time by (simp add: append_unmatched_def new_of_def unmatched_def, intro cut_at_bound_none, simp)
    then have "process_prefix cl (en_max_unrecognized_lines en) (en_root_formats en) li ?sbr r = Some (False, ?r)"
      using r1(1) by (simp add: process_prefix_def)
    moreover have "same_file ?r r" using same_file_trans [OF same_file_update(1) r1(2)] .
    ultimately show ?thesis by (intro exI [of _ ?r]) simp
  qed
qed


section \<open>The lines of a file\<close>

type_synonym file_lines = "(line_info \<times> string) list"

text \<open>The line buffer gives these lines from the offset on, and then no more.\<close>

fun follows :: "'o env \<Rightarrow> int \<Rightarrow> file_lines \<Rightarrow> bool" where
  "follows en off [] \<longleftrightarrow> en_load en off = Load_end"
| "follows en off ((li, raw) # rest) \<longleftrightarrow> en_load en off = Load_line li raw \<and> li_offset li = off
     \<and> 0 < li_size li \<and> follows en (next_offset li) rest"

fun file_end :: "int \<Rightarrow> file_lines \<Rightarrow> int" where
  "file_end off [] = off"
| "file_end off ((li, raw) # rest) = file_end (next_offset li) rest"

fun read_all :: "log_format \<Rightarrow> int \<Rightarrow> 'o env \<Rightarrow> file_lines \<Rightarrow> logline list \<Rightarrow> logline list" where
  "read_all g it en [] ls = ls"
| "read_all g it en ((li, raw) # rest) ls =
     read_all g it en rest (ls @ new_of g it li (line_text en li raw) ls)"

definition observers_run :: "'o env \<Rightarrow> bool" where
  "observers_run en \<longleftrightarrow> (\<forall>ls n sbr ob. en_logline_new_lines en ls n sbr ob \<noteq> None)
     \<and> (\<forall>ls ob. en_logline_eof en ls ob \<noteq> None) \<and> (\<forall>n ob. en_logline_restart en n ob \<noteq> None)"

definition all_read :: "'o env \<Rightarrow> file_lines \<Rightarrow> bool" where
  "all_read en fl \<longleftrightarrow> (\<forall>(li, raw)\<in>set fl. \<not> en_interrupt en li \<and> \<not> li_partial li)"

lemma observers_runE:
  assumes "observers_run en"
  obtains ob1 ob2 where "en_logline_restart en n ob = Some ob1" and "en_logline_eof en ls ob' = Some ob2"
  using assms unfolding observers_run_def by (metis not_None_eq)

lemma read_all_append: "read_all g it en (xs @ ys) ls = read_all g it en ys (read_all g it en xs ls)"
  by (induction xs arbitrary: ls) auto

lemma read_all_extends: "\<exists>new. read_all g it en fl ls = ls @ new"
  by (induction fl arbitrary: ls) (auto, metis append_assoc)

lemma file_end_append: "file_end off (xs @ ys) = file_end (file_end off xs) ys"
  by (induction xs arbitrary: off) auto

lemma follows_append: "follows en off (xs @ ys) \<Longrightarrow> follows en (file_end off xs) ys"
  by (induction xs arbitrary: off) auto

lemma take_line_settled:
  assumes "settled en g fl r" and "lines_ok (rd_tr_end r) (li_offset li) (rd_index r)" and "observers_run en"
    and "sl_reader sl = r" and "(li, raw) \<in> set fl"
  shows "\<exists>r' so. take_line en st li raw sl = Some (end_of_line en st li
      (sl\<lparr>sl_prev_range := (li_offset li, li_size li), sl_reader := r', sl_sort_needed := so\<rparr>))
    \<and> same_file r' r \<and> rd_index r' = rd_index r @ new_of g (rd_index_time r) li (line_text en li raw) (rd_index r)"
proof -
  let ?r0 = "r\<lparr>rd_longest_line := max (rd_longest_line r) (usr_column_width_guess (li_utf8_scan_result li)),
               rd_partial_line := li_partial li\<rparr>"
  have r0: "same_file ?r0 r" by (simp add: same_file_def same_search_def)
  have s: "settled en g fl ?r0" by (rule settled_same [OF r0 assms(1) order_refl])
  obtain r1 where r1: "process_prefix (en_logline_clear en) (en_max_unrecognized_lines en) (en_root_formats en) li
      (line_text en li raw) ?r0 = Some (False, r1)" "same_file r1 ?r0"
    "rd_index r1 = rd_index r @ new_of g (rd_index_time r) li (line_text en li raw) (rd_index r)"
    using process_settled [OF s, of li raw "en_logline_clear en"] assms(2,5) by auto
  have ne: "new_of g (rd_index_time r) li (line_text en li raw) (rd_index r) \<noteq> []"
    using lines_ok_new(2) [of "rd_tr_end r" g li "rd_index r" "rd_index_time r" "li_offset li + 1" "line_text en li raw"]
      assms(1,2) r1(3) by (auto simp: settled_def message_lines_def)
  have nt: "note_text_format en r = r" "rd_format r = Some g"
    using assms(1) by (auto simp: note_text_format_def settled_def)
  let ?n = "length (rd_index r)"
  obtain rc ob where ob: "en_logline_new_lines en (rd_index r1) ?n (line_text en li raw) (rd_observer r1) = Some (rc, ob)"
    using assms(3) unfolding observers_run_def by (metis not_None_eq surj_pair)
  let ?r' = "r1\<lparr>rd_index_size := next_offset li, rd_observer := ob\<rparr>"
  have "same_file ?r' r1" by (simp add: same_file_def same_search_def)
  then have "same_file ?r' r" using r1(2) r0 by (blast intro: same_file_trans)
  moreover have "rd_index ?r' = rd_index r @ new_of g (rd_index_time r) li (line_text en li raw) (rd_index r)"
    using r1(3) by simp
  moreover have "length (rd_index r1) \<ge> ?n" using r1(3) by simp
  ultimately show ?thesis using r1(1) ne nt ob assms(4)
    by (intro exI [of _ ?r'] exI [of _ "sl_sort_needed sl \<or> ss_rollback_size st > 0 \<and> ?n = ss_rollback_index_start st \<and> rc"])
      (simp add: take_line_def observe_line_def Let_def)
qed

lemma read_lines_settled:
  assumes "follows en off fl" and "settled en g fl (sl_reader sl)"
    and "lines_ok (rd_tr_end (sl_reader sl)) off (rd_index (sl_reader sl))" and "observers_run en"
    and "fst (sl_prev_range sl) + snd (sl_prev_range sl) = off" and "ss_has_format st"
    and "rd_upper_bound_size (sl_reader sl) = None"
  shows "\<exists>sl' zs rest. read_lines en st sl = Some (True, sl') \<and> fl = zs @ rest \<and> same_file (sl_reader sl') (sl_reader sl)
    \<and> rd_index (sl_reader sl') = read_all g (rd_index_time (sl_reader sl)) en zs (rd_index (sl_reader sl))
    \<and> lines_ok (rd_tr_end (sl_reader sl)) (file_end off zs) (rd_index (sl_reader sl'))
    \<and> fst (sl_prev_range sl') + snd (sl_prev_range sl') = file_end off zs
    \<and> (all_read en fl \<and> length fl \<le> sl_limit sl \<longrightarrow> rest = [])"
  using assms
proof (induction fl arbitrary: off sl)
  case Nil
  then show ?case
    by (intro exI [of _ sl] exI [of _ "[]"]) (auto simp: read_lines.simps [of en st sl])
next
  case (Cons x fl)
  obtain li raw where x: "x = (li, raw)" by (cases x)
  let ?r = "sl_reader sl"
  have f: "en_load en off = Load_line li raw" "li_offset li = off" "0 < li_size li" "follows en (next_offset li) fl"
    using Cons.prems(1) x by auto
  show ?case
  proof (cases "sl_limit sl = 0")
    case True
    then have "read_lines en st sl = Some (True, sl)" by (subst read_lines.simps) simp
    with True Cons.prems show ?thesis
      by (intro exI [of _ sl] exI [of _ "[]"] exI [of _ "x # fl"]) simp
  next
    case False
    have lo: "lines_ok (rd_tr_end ?r) (li_offset li) (rd_index ?r)" using Cons.prems(3) f(2) by simp
    obtain r' so where t: "take_line en st li raw sl = Some (end_of_line en st li
        (sl\<lparr>sl_prev_range := (li_offset li, li_size li), sl_reader := r', sl_sort_needed := so\<rparr>))"
      "same_file r' ?r" "rd_index r' = rd_index ?r @ new_of g (rd_index_time ?r) li (line_text en li raw) (rd_index ?r)"
      using take_line_settled [OF Cons.prems(2) lo Cons.prems(4) refl, of raw st] x by auto
    let ?sl = "sl\<lparr>sl_prev_range := (li_offset li, li_size li), sl_reader := r', sl_sort_needed := so\<rparr>"
    have s: "line_scanner (rd_tr_end ?r) (fmt_specialized_scan g)" "rd_index_time ?r \<le> rd_tr_end ?r"
      using Cons.prems(2) by (auto simp: settled_def)
    have lo': "lines_ok (rd_tr_end ?r) (next_offset li) (rd_index r')"
      using lines_ok_new(1) [OF s(1) lo s(2)] f(3) t(3) by (simp add: next_offset_def)
    have same: "rd_format r' = rd_format ?r" "rd_upper_bound_size r' = None" "rd_tr_end r' = rd_tr_end ?r"
      "rd_index_time r' = rd_index_time ?r" using t(2) Cons.prems(7) by (auto simp: same_file_def same_search_def)
    have read: "read_lines en st sl = (case end_of_line en st li ?sl of Leave sl' \<Rightarrow> Some (True, sl') | Go_on sl' \<Rightarrow> read_lines en st sl')"
      using False f(1) t(1) Cons.prems(5) by (subst read_lines.simps) simp
    show ?thesis
    proof (cases "en_interrupt en li \<or> li_partial li")
      case True
      with Cons.prems(6) same have "end_of_line en st li ?sl = Leave ?sl" by (auto simp: end_of_line_def)
      with read True t(2,3) lo' f(2) x show ?thesis
        by (intro exI [of _ ?sl] exI [of _ "[x]"] exI [of _ fl]) (auto simp: all_read_def next_offset_def)
    next
      case go: False
      let ?sl' = "?sl\<lparr>sl_limit := sl_limit sl - 1\<rparr>"
      have "end_of_line en st li ?sl = Go_on ?sl'" using go Cons.prems(6) same by (simp add: end_of_line_def)
      with read have rd: "read_lines en st sl = read_lines en st ?sl'" by simp
      have "settled en g fl r'" using settled_same [OF t(2) Cons.prems(2)] by auto
      then have ih: "\<exists>sl' zs rest. read_lines en st ?sl' = Some (True, sl') \<and> fl = zs @ rest \<and> same_file (sl_reader sl') r'
        \<and> rd_index (sl_reader sl') = read_all g (rd_index_time ?r) en zs (rd_index r')
        \<and> lines_ok (rd_tr_end ?r) (file_end (next_offset li) zs) (rd_index (sl_reader sl'))
        \<and> fst (sl_prev_range sl') + snd (sl_prev_range sl') = file_end (next_offset li) zs
        \<and> (all_read en fl \<and> length fl \<le> sl_limit sl - 1 \<longrightarrow> rest = [])"
        using Cons.IH [OF f(4), of ?sl'] lo' same Cons.prems(4,6) by (simp add: next_offset_def)
      then obtain sl' zs rest where "read_lines en st ?sl' = Some (True, sl')" "fl = zs @ rest" "same_file (sl_reader sl') r'"
        "rd_index (sl_reader sl') = read_all g (rd_index_time ?r) en zs (rd_index r')"
        "lines_ok (rd_tr_end ?r) (file_end (next_offset li) zs) (rd_index (sl_reader sl'))"
        "fst (sl_prev_range sl') + snd (sl_prev_range sl') = file_end (next_offset li) zs"
        "all_read en fl \<and> length fl \<le> sl_limit sl - 1 \<longrightarrow> rest = []"
        by blast
      with rd t(2,3) x False show ?thesis
        by (intro exI [of _ sl'] exI [of _ "x # zs"] exI [of _ rest]) (auto simp: all_read_def intro: same_file_trans)
    qed
  qed
qed


section \<open>Reading again what was last\<close>

lemma rollback_message: "message_lines li t new \<Longrightarrow> rollback (ls @ new) = ls"
proof -
  have drop: "drop_sub_lines (rev xs @ zs) = drop_sub_lines zs" if "\<forall>ll\<in>set xs. ll_sub_offset ll \<noteq> 0" for xs zs
    using that by (induction xs rule: rev_induct) auto
  assume m: "message_lines li t new"
  then obtain x xs where new: "new = x # xs" by (cases new) (auto simp: message_lines_def)
  from m new have "map ll_sub_offset (x # xs) = 0 # map Suc [0..<length xs]"
    by (simp add: message_lines_def map_Suc_upt upt_conv_Cons del: upt_Suc)
  then have "ll_sub_offset x = 0" "map ll_sub_offset xs = map Suc [0..<length xs]" by simp_all
  then have "\<forall>ll\<in>set xs. ll_sub_offset ll \<noteq> 0" by (metis imageE in_set_conv_nth length_map nat.distinct(1) nth_map)
  with \<open>ll_sub_offset x = 0\<close> show ?thesis using drop [of xs "x # rev ls"] by (simp add: rollback_def new)
qed

lemma rollback_prefix:
  assumes "sorted_wrt before_in_file ls" and "ls \<noteq> []"
  shows "\<exists>ys. ls = rollback ls @ ys \<and> (\<forall>ll\<in>set (rollback ls). ll_offset ll < ll_offset (last ls))"
  using assms
proof (induction ls rule: rev_induct)
  case (snoc y ls)
  show ?case
  proof (cases "ll_sub_offset y = 0 \<or> ls = []")
    case True
    with snoc.prems show ?thesis by (auto simp: rollback_def sorted_wrt_append before_in_file_def)
  next
    case False
    then have r: "rollback (ls @ [y]) = rollback ls" by (simp add: rollback_def)
    obtain ys where ys: "ls = rollback ls @ ys" "\<forall>ll\<in>set (rollback ls). ll_offset ll < ll_offset (last ls)"
      using snoc.IH snoc.prems(1) False by (auto simp: sorted_wrt_append)
    have "before_in_file (last ls) y" using snoc.prems(1) False by (auto simp: sorted_wrt_append)
    then have "ll_offset (last ls) \<le> ll_offset y" by (auto simp: before_in_file_def)
    with ys show ?thesis unfolding r by (intro exI [of _ "ys @ [y]"]) fastforce
  qed
qed simp

lemma index_in_order_prefix: "index_in_order (ls @ ys) \<Longrightarrow> index_in_order ls"
  by (simp add: index_in_order_def ordered_def sorted_wrt_append)

text \<open>Where reading goes on, and a poll that finds more of the file.\<close>

definition read_from :: "'o reader \<Rightarrow> int" where
  "read_from r = (if rd_index r = [] then rd_index_size r else ll_offset (last (rd_index r)))"

definition grown :: "'o env \<Rightarrow> int \<times> int \<Rightarrow> 'o reader \<Rightarrow> bool" where
  "grown en st r \<longleftrightarrow> rd_indexing r \<and> \<not> en_changed en \<and> en_fstat en = Inl st \<and> \<not> overwritten en st r
     \<and> rd_upper_bound_size r = None \<and> en_available en (rd_index_size r) (fst st) \<and> observers_run en
     \<and> (rd_index r \<noteq> [] \<longrightarrow> en_rollback_ok en (rollback (rd_index r)))"

lemma rebuild_grown:
  assumes "settled en g fl r" and "grown en st r" and "index_in_order (rd_index r)"
    and "\<forall>ll\<in>set (rd_index r). ll_time ll \<le> rd_tr_end r" and "follows en (read_from r) fl"
  shows "\<exists>res r' zs rest. file_rebuild_index en r = Some (res, r') \<and> fl = zs @ rest
    \<and> rd_index r' = read_all g (rd_index_time r) en zs (rollback (rd_index r))
    \<and> lines_ok (rd_tr_end r) (file_end (read_from r) zs) (rd_index r')
    \<and> same_search r' r \<and> rd_tr_end r' = rd_tr_end r
    \<and> rd_upper_bound_size r' = None \<and> rd_text_format r' = rd_text_format r \<and> rd_indexing r'
    \<and> (length (rd_index r) \<le> length (rd_index r') \<longrightarrow> res \<in> {NEW_LINES, NEW_ORDER} \<and> rd_stat r' = st
        \<and> rd_index_size r' = file_end (read_from r) zs \<and> rd_named_file r' = rd_named_file r
        \<and> rd_index_time r' = (if en_file_time en = 0 then snd st else en_file_time en) * 1000000
        \<and> rd_sort_needed r' = False)
    \<and> (length (rd_index r') < length (rd_index r) \<longrightarrow> res = INVALID)
    \<and> (all_read en fl \<and> length fl \<le> en_limit en True \<longrightarrow> rest = [])"
proof -
  let ?ls = "rollback (rd_index r)" and ?off = "read_from r"
  have lo: "lines_ok (rd_tr_end r) ?off ?ls"
  proof (cases "rd_index r = []")
    case True
    then show ?thesis by (simp add: rollback_def lines_ok_def index_in_order_def ordered_def)
  next
    case False
    from rollback_prefix [OF _ False] assms(3) obtain ys where
      "rd_index r = ?ls @ ys" "\<forall>ll\<in>set ?ls. ll_offset ll < ll_offset (last (rd_index r))"
      by (auto simp: index_in_order_def)
    with assms(3,4) False index_in_order_prefix [of ?ls ys] show ?thesis
      by (auto simp: lines_ok_def read_from_def) (metis UnCI set_append)
  qed
  obtain ob where ob: "en_logline_restart en (length (rd_index r) - length ?ls) (rd_observer r) = Some ob"
    using assms(2) observers_runE [of en] unfolding grown_def by metis
  let ?ss = "\<lparr>ss_begin_size = length (rd_index r), ss_has_format = True,
    ss_rollback_size = length (rd_index r) - length ?ls, ss_rollback_index_start = length ?ls\<rparr>"
  let ?r1 = "r\<lparr>rd_index := ?ls, rd_observer := ob\<rparr>"
  let ?sl = "\<lparr>sl_reader = ?r1\<lparr>rd_sort_needed := False\<rparr>, sl_limit = en_limit en True,
    sl_prev_range = (?off, 0), sl_sort_needed = rd_sort_needed r\<rparr>"
  have start: "start_reading en r = Some (?ss, ?off, ?r1)"
    using ob assms(1) by (simp add: start_reading_def read_from_def Let_def settled_def)
  have s1: "same_search (sl_reader ?sl) r" by (rule same_search_fields) simp_all
  have s: "settled en g fl (sl_reader ?sl)"
    using assms(1) by (intro settled_search [OF assms(1) s1]) (simp_all add: settled_def)
  have e: "observers_run en" "rd_upper_bound_size r = None" using assms(2) by (auto simp: grown_def)
  have fl: "follows en ?off fl" by (rule assms(5))
  have "\<exists>sl' zs rest. read_lines en ?ss ?sl = Some (True, sl') \<and> fl = zs @ rest
    \<and> same_file (sl_reader sl') (sl_reader ?sl) \<and> rd_index (sl_reader sl') = read_all g (rd_index_time r) en zs ?ls
    \<and> lines_ok (rd_tr_end r) (file_end ?off zs) (rd_index (sl_reader sl'))
    \<and> fst (sl_prev_range sl') + snd (sl_prev_range sl') = file_end ?off zs
    \<and> (all_read en fl \<and> length fl \<le> en_limit en True \<longrightarrow> rest = [])"
    using read_lines_settled [OF fl s _ e(1), of ?ss] lo e(2) by simp
  then obtain sl' zs rest where sl':
    "read_lines en ?ss ?sl = Some (True, sl')" "fl = zs @ rest" "same_file (sl_reader sl') (sl_reader ?sl)"
    "rd_index (sl_reader sl') = read_all g (rd_index_time r) en zs ?ls"
    "lines_ok (rd_tr_end r) (file_end ?off zs) (rd_index (sl_reader sl'))"
    "fst (sl_prev_range sl') + snd (sl_prev_range sl') = file_end ?off zs"
    "all_read en fl \<and> length fl \<le> en_limit en True \<longrightarrow> rest = []"
    by blast
  let ?r2 = "sl_reader sl'"
  have f: "rd_format ?r2 = Some g" using sl'(3) assms(1) by (simp add: same_file_def same_search_def settled_def)
  obtain ob2 where ob2: "en_logline_eof en (rd_index ?r2) (rd_observer ?r2) = Some ob2"
    using observers_runE [OF e(1)] by metis
  let ?r3 = "?r2\<lparr>rd_observer := ob2, rd_stat := st, rd_index_size := file_end ?off zs\<rparr>"
  let ?res = "if length (rd_index r) > length (rd_index ?r2) then (INVALID, ?r3\<lparr>rd_is_closed := True\<rparr>)
    else (if sl_sort_needed sl' then NEW_ORDER else NEW_LINES, ?r3)"
  have rb: "\<not> (rd_index r \<noteq> [] \<and> \<not> en_rollback_ok en ?ls)" using assms(2) by (auto simp: grown_def)
  have "read_new_lines en st r = Some ?res"
    unfolding read_new_lines_def if_not_P [OF rb] using start sl'(1,6) f ob2 by (simp add: finish_reading_def Let_def)
  moreover have "rd_text_format r \<noteq> Some TF_BINARY" using assms(1) by (simp add: settled_def)
  ultimately have rd: "file_rebuild_index en r = Some (rebuild_end en st ?res)"
    using assms(2) by (simp add: file_rebuild_index_def grown_def Let_def)
  have "same_search (snd (rebuild_end en st ?res)) ?r2"
    by (rule same_search_fields) (simp_all add: rebuild_end_def)
  then have "same_search (snd (rebuild_end en st ?res)) r"
    using sl'(3) s1 by (auto simp: same_file_def intro: same_search_trans)
  with rd show ?thesis using sl'(2-5,7) assms(2)
    by (intro exI [of _ "fst (rebuild_end en st ?res)"] exI [of _ "snd (rebuild_end en st ?res)"] exI [of _ zs] exI [of _ rest])
      (auto simp: rebuild_end_def same_file_def grown_def)
qed


text \<open>
  C8: a poll of a grown file whose format is known and in the order of time, while no other format
  matches its lines better, ends without a failed assertion; the lines before the last message stay what
  they were, and all lines are in the order of time and of the file, as the index of all files needs
  them. The file is taken for overwritten exactly if it then has fewer lines. The search for a format
  may still be going on, as it does for the first 250 lines of a file.
\<close>

theorem file_stays_in_order:
  assumes "settled en g fl r" and "grown en st r" and "index_in_order (rd_index r)"
    and "\<forall>ll\<in>set (rd_index r). ll_time ll \<le> rd_tr_end r" and "follows en (read_from r) fl"
  shows "\<exists>res r'. file_rebuild_index en r = Some (res, r') \<and> index_in_order (rd_index r')
    \<and> sorted_wrt (\<lambda>a b. \<not> logline_less b a) (rd_index r')
    \<and> take (length (rollback (rd_index r))) (rd_index r') = rollback (rd_index r)
    \<and> (res = INVALID \<longleftrightarrow> length (rd_index r') < length (rd_index r))"
proof -
  obtain res r' zs where r': "file_rebuild_index en r = Some (res, r')"
    "rd_index r' = read_all g (rd_index_time r) en zs (rollback (rd_index r))"
    "lines_ok (rd_tr_end r) (file_end (read_from r) zs) (rd_index r')"
    "length (rd_index r) \<le> length (rd_index r') \<longrightarrow> res \<in> {NEW_LINES, NEW_ORDER}"
    "length (rd_index r') < length (rd_index r) \<longrightarrow> res = INVALID"
    using rebuild_grown [OF assms] by blast
  obtain new where "rd_index r' = rollback (rd_index r) @ new"
    using read_all_extends [of g "rd_index_time r" en zs] r'(2) by metis
  moreover have "index_in_order (rd_index r')" using r'(3) by (simp add: lines_ok_def)
  ultimately show ?thesis using r'(1,4,5) index_in_order_sorted [of "rd_index r'"]
    by (intro exI [of _ res] exI [of _ r']) (auto simp: not_less)
qed

text \<open>Polls of the same file differ in how much of it there is.\<close>

definition same_reading :: "'o env \<Rightarrow> 'o env \<Rightarrow> bool" where
  "same_reading en en' \<longleftrightarrow> en_erase_ansi en' = en_erase_ansi en"

lemma line_text_same: "same_reading en en' \<Longrightarrow> line_text en' li raw = line_text en li raw"
  by (simp add: same_reading_def line_text_def Let_def)

lemma read_all_same: "same_reading en en' \<Longrightarrow> read_all g it en' fl ls = read_all g it en fl ls"
  by (induction fl arbitrary: ls) (auto simp: line_text_same)

lemma new_of_time: "ls \<noteq> [] \<Longrightarrow> new_of g it li sbr ls = new_of g it' li sbr ls"
  by (simp add: new_of_def unmatched_def cong: prod.case_cong scan_outcome.case_cong)

lemma read_all_time: "ls \<noteq> [] \<Longrightarrow> read_all g it en fl ls = read_all g it' en fl ls"
proof (induction fl arbitrary: ls)
  case (Cons x fl)
  obtain li raw where x: "x = (li, raw)" by (cases x)
  show ?case using Cons.IH [of "ls @ new_of g it' li (line_text en li raw) ls"] Cons.prems
      new_of_time [OF Cons.prems, of g it li "line_text en li raw" it'] by (simp add: x)
qed simp

lemma read_all_message:
  assumes "line_scanner tr_end (fmt_specialized_scan g)"
  shows "\<exists>t. message_lines li t (new_of g it li sbr ls)"
proof (cases rule: line_scanner_cases [OF assms, of ls li sbr])
  case (1 sm new t)
  then show ?thesis
    using message_lines_noted [OF 1(2)] message_lines_skewed [OF message_lines_noted [OF 1(2)], of "ll_time (last ls)"]
    by (auto simp: new_of_def Let_def)
next
  case 2
  then show ?thesis using message_lines_unmatched [of li ls it] by (auto simp: new_of_def)
qed

lemma read_all_last:
  assumes "line_scanner tr_end (fmt_specialized_scan g)"
  shows "rollback (read_all g it en (xs @ [(li, raw)]) ls) = read_all g it en xs ls"
    and "rd_index r = read_all g it en (xs @ [(li, raw)]) ls \<Longrightarrow> read_from r = li_offset li"
proof -
  let ?a = "read_all g it en xs ls"
  obtain t where m: "message_lines li t (new_of g it li (line_text en li raw) ?a)"
    using read_all_message [OF assms] by blast
  show "rollback (read_all g it en (xs @ [(li, raw)]) ls) = ?a"
    using rollback_message [OF m, of ?a] by (simp add: read_all_append)
  show "rd_index r = read_all g it en (xs @ [(li, raw)]) ls \<Longrightarrow> read_from r = li_offset li"
    using m by (auto simp: read_all_append read_from_def message_lines_def)
qed

text \<open>
  The last message of the index is what the format gives for the line that was read last. The first line
  of a file is the one in which the format was found, so the format knows it.
\<close>

definition last_read :: "log_format \<Rightarrow> 'o env \<Rightarrow> logline list \<Rightarrow> line_info \<Rightarrow> string \<Rightarrow> 'o reader \<Rightarrow> bool" where
  "last_read g en us li raw r \<longleftrightarrow>
     rd_index r = us @ new_of g (rd_index_time r) li (line_text en li raw) us
     \<and> (us = [] \<longrightarrow> (\<exists>sm. fst (fmt_specialized_scan g [] li (line_text en li raw)) = Scan_match sm))"

lemma new_of_matched: "fst (fmt_specialized_scan g [] li sbr) = Scan_match sm \<Longrightarrow> new_of g it li sbr [] = new_of g it' li sbr []"
  by (cases "fmt_specialized_scan g [] li sbr") (simp add: new_of_def)

lemma last_read_time:
  assumes "last_read g en us li raw r" and "new_of g it li (line_text en li raw) us \<noteq> []"
  shows "read_all g it en ((li, raw) # xs) us = read_all g it' en ((li, raw) # xs) us"
proof -
  have "new_of g it li (line_text en li raw) us = new_of g it' li (line_text en li raw) us"
  proof (cases "us = []")
    case True
    with assms(1) show ?thesis unfolding last_read_def by (metis new_of_matched)
  qed (rule new_of_time)
  with assms(2) show ?thesis
    using read_all_time [of "us @ new_of g it li (line_text en li raw) us" g it en xs it'] by simp
qed

text \<open>The next poll drops the last message and reads from its line on.\<close>

lemma last_read_rollback:
  assumes "line_scanner tr_end (fmt_specialized_scan g)" and "last_read g en us li raw r"
  shows "rollback (rd_index r) = us" and "read_from r = li_offset li"
    and "read_all g it en ((li, raw) # xs) us = read_all g it' en ((li, raw) # xs) us"
    and "\<exists>new. read_all g it en ((li, raw) # xs) us = rd_index r @ new"
proof -
  have m: "\<exists>t. message_lines li t (new_of g it li (line_text en li raw) us)" for it
    by (rule read_all_message [OF assms(1)])
  then have ne: "new_of g it li (line_text en li raw) us \<noteq> []" for it by (auto simp: message_lines_def)
  have i: "rd_index r = us @ new_of g (rd_index_time r) li (line_text en li raw) us"
    using assms(2) by (simp add: last_read_def)
  show "rollback (rd_index r) = us" unfolding i using m [of "rd_index_time r"] rollback_message by blast
  show "read_from r = li_offset li"
    using i m [of "rd_index_time r"] by (auto simp: read_from_def message_lines_def)
  have times: "read_all g i en ((li, raw) # xs) us = read_all g j en ((li, raw) # xs) us" for i j
    by (rule last_read_time [OF assms(2) ne])
  then show "read_all g it en ((li, raw) # xs) us = read_all g it' en ((li, raw) # xs) us" .
  show "\<exists>new. read_all g it en ((li, raw) # xs) us = rd_index r @ new"
    unfolding times [of it "rd_index_time r"] by (simp add: i [symmetric] read_all_extends)
qed

text \<open>After a poll that read whole lines, its last line is the one that was read last.\<close>

lemma last_read_again:
  assumes "line_scanner tr_end (fmt_specialized_scan g)" and "last_read g en us li raw r" and "same_reading en en'"
    and "(li, raw) # xs = zs @ [(li', raw')]" and "rd_index r' = read_all g it en ((li, raw) # xs) us"
  shows "last_read g en' (read_all g it en zs us) li' raw' r'"
proof -
  have lt: "line_text en' li' raw' = line_text en li' raw'"
    by (rule line_text_same [OF assms(3)])
  let ?ws = "read_all g it en zs us"
  have i: "rd_index r' = ?ws @ new_of g it li' (line_text en li' raw') ?ws"
    unfolding assms(4,5) by (simp add: read_all_append)
  show ?thesis
  proof (cases "?ws = []")
    case False
    with i lt new_of_time [OF False, of g it li' _ "rd_index_time r'"] show ?thesis by (simp add: last_read_def)
  next
    case True
    have us: "us = []" using read_all_extends [of g it en zs us] True by auto
    have "zs = []"
    proof (rule ccontr)
      assume "zs \<noteq> []"
      then obtain y ys where zs: "zs = y # ys" by (cases zs) auto
      obtain li1 raw1 where "y = (li1, raw1)" by (cases y)
      with True zs read_all_message [OF assms(1), of li1 it "line_text en li1 raw1" us]
        read_all_extends [of g it en ys "us @ new_of g it li1 (line_text en li1 raw1) us"]
      show False by (auto simp: message_lines_def)
    qed
    with assms(4) have l: "li' = li" "raw' = raw" by auto
    with assms(2) us obtain sm where sm: "fst (fmt_specialized_scan g [] li (line_text en li raw)) = Scan_match sm"
      by (auto simp: last_read_def)
    with i lt l True new_of_matched [OF sm, of it "rd_index_time r'"] show ?thesis by (auto simp: last_read_def)
  qed
qed



section \<open>Examples\<close>

text \<open>A format of lines that start with a digit, their time; other lines go on the one before.\<close>

definition digit_scan :: scanner where
  "digit_scan ls li sbr =
    (if sbr \<noteq> [] \<and> isdigit (hd sbr)
     then (Scan_match \<lparr>sm_quality = 1000, sm_strikes = 0, sm_precision = 0\<rparr>,
           ls @ [logline_new (li_offset li) (schar (hd sbr) - 48) LEVEL_INFO])
     else (Scan_no_match, ls))"

definition digit_format :: log_format where
  "digit_format = \<lparr>fmt_name = ''digits'', fmt_max_unrecognized_lines = None, fmt_match_name = (\<lambda>_. True),
     fmt_multiline = True, fmt_structured = False, fmt_time_ordered = True,
     fmt_scan = digit_scan, fmt_specialized_scan = digit_scan\<rparr>"

text \<open>Another format of the same lines, whose matches are not better than those of the first.\<close>

definition rival_scan :: scanner where
  "rival_scan ls li sbr =
    (if sbr \<noteq> [] \<and> isdigit (hd sbr)
     then (Scan_match \<lparr>sm_quality = 0, sm_strikes = 1, sm_precision = 0\<rparr>, ls @ [logline_new (li_offset li) 9 LEVEL_ERROR])
     else (Scan_error, ls))"

definition rival_format :: log_format where
  "rival_format = digit_format\<lparr>fmt_name := ''rival'', fmt_scan := rival_scan, fmt_specialized_scan := rival_scan\<rparr>"

definition line_at :: "int \<Rightarrow> string \<Rightarrow> line_info \<times> string" where
  "line_at off raw = (\<lparr>li_offset = off, li_size = int (length raw) + 1, li_timestamp = (0, 0), li_level = LEVEL_UNKNOWN,
     li_partial = False, li_utf8_scan_result = usr_empty\<rparr>, raw @ [CHR 0x0A])"

fun load_from :: "file_lines \<Rightarrow> int \<Rightarrow> load_result" where
  "load_from [] off = Load_end"
| "load_from ((li, raw) # rest) off = (if li_offset li = off then Load_line li raw else load_from rest off)"

definition digit_env :: "file_lines \<Rightarrow> unit env" where
  "digit_env fl = \<lparr>en_root_formats = [rival_format, digit_format], en_max_unrecognized_lines = 1000, en_changed = False,
     en_fstat = Inl (file_end 0 fl, 0), en_user_source = False, en_same_first_line = False,
     en_available = (\<lambda>off size. off < size), en_content_size = file_end 0 fl, en_limit = (\<lambda>_. 1000),
     en_load = load_from fl, en_rollback_ok = (\<lambda>_. True), en_detect_text_format = None,
     en_erase_ansi = id, en_interrupt = (\<lambda>_. False), en_too_large = (\<lambda>_. False), en_file_time = 0,
     en_logline_clear = id, en_logline_restart = (\<lambda>_. Some), en_logline_new_lines = (\<lambda>_ _ _ ob. Some (False, ob)),
     en_logline_eof = (\<lambda>_. Some)\<rparr>"

definition new_reader :: "log_format option \<Rightarrow> bool \<Rightarrow> logline list \<Rightarrow> unit reader" where
  "new_reader fmt detect ls = \<lparr>rd_filename = ''f'', rd_index = ls, rd_format = fmt,
     rd_format_match = \<lparr>sm_quality = 0, sm_strikes = 0, sm_precision = 0\<rparr>, rd_detect_format = detect, rd_format_name = None,
     rd_mismatched_formats = [], rd_text_format = (if fmt = None then None else Some TF_LOG), rd_level_stats = no_stats,
     rd_invalid_lines = [], rd_invalid_total = 0, rd_out_of_time_order_count = 0, rd_upper_bound_size = None,
     rd_index_size = (if ls = [] then 0 else ll_offset (last ls) + 1), rd_index_time = 0, rd_partial_line = False,
     rd_longest_line = 0, rd_sort_needed = False, rd_indexing = True, rd_visible = True, rd_non_utf_is_visible = True,
     rd_tr_end = 1000, rd_stat = (0, 0), rd_named_file = True, rd_is_closed = False, rd_time_offset_line = 0,
     rd_time_offset = (0, 0), rd_index_generation = 0, rd_observer = ()\<rparr>"

definition digit_lines :: file_lines where
  "digit_lines = [line_at 0 ''5 a'', line_at 4 '' b'', line_at 7 ''3 c'', line_at 11 ''7 d'']"

lemma digit_scanner: "line_scanner 1000 digit_scan"
  unfolding line_scanner_def
proof (intro allI)
  fix ls li sbr
  show "(\<exists>sm new t. digit_scan ls li sbr = (Scan_match sm, ls @ new) \<and> message_lines li t new \<and> t \<le> 1000)
    \<or> digit_scan ls li sbr = (Scan_no_match, ls)"
    by (cases "sbr \<noteq> [] \<and> isdigit (hd sbr)") (auto simp: digit_scan_def message_lines_def logline_new_def isdigit_def)
qed

lemma rival_not_better: "not_better rival_format \<lparr>sm_quality = 0, sm_strikes = 0, sm_precision = 0\<rparr> li sbr"
  unfolding not_better_def
proof
  fix ls
  show "\<exists>res new. fmt_scan rival_format ls li sbr = (res, ls @ new)
    \<and> (case res of Scan_match sm \<Rightarrow> \<not> is_better_than sm \<lparr>sm_quality = 0, sm_strikes = 0, sm_precision = 0\<rparr> | _ \<Rightarrow> new = [])"
    by (cases "sbr \<noteq> [] \<and> isdigit (hd sbr)") (auto simp: rival_format_def rival_scan_def is_better_than_def)
qed

text \<open>The search for a format is on, and the other format comes first.\<close>

lemma digit_settled: "settled (digit_env ns) digit_format fl (new_reader (Some digit_format) True ls)"
proof -
  have n: "fmt_name digit_format = ''digits''" "fmt_name rival_format = ''rival''"
    by (simp_all add: digit_format_def rival_format_def)
  have "own_tried (digit_env ns) digit_format (new_reader (Some digit_format) True ls)"
    by (simp add: own_tried_def digit_env_def new_reader_def n) (simp add: digit_format_def RETRY_MATCH_SIZE_def)
  moreover have "no_rival (digit_env ns) digit_format \<lparr>sm_quality = 0, sm_strikes = 0, sm_precision = 0\<rparr> fl"
    using rival_not_better by (auto simp: no_rival_def digit_env_def)
  ultimately show ?thesis
    using digit_scanner by (simp add: settled_def new_reader_def) (simp add: digit_format_def)
qed

theorem adjusted_times_return_witness:
  "rd_index (clear_time_offset (fold (\<lambda>(line, t, ab). adjust_content_time line t ab)
     [(0, (5, 0), True), (0, (- 3, 500000), False)] (new_reader None False [logline_new 0 7 LEVEL_INFO])))
   = [logline_new 0 7 LEVEL_INFO]"
proof -
  have "rd_time_offset (new_reader None False [logline_new 0 7 LEVEL_INFO]) = (0, 0)" by (simp add: new_reader_def)
  from adjusted_times_return [OF this, of "[(0, (5, 0), True), (0, (- 3, 500000), False)]"]
  show ?thesis by (simp add: Let_def new_reader_def)
qed

lemmas digit_simps' = digit_env_def digit_lines_def line_at_def next_offset_def new_reader_def logline_new_def

theorem file_stays_in_order_witness:
  "let r = new_reader (Some digit_format) True [logline_new 0 5 LEVEL_INFO] in
   \<exists>res r'. file_rebuild_index (digit_env digit_lines) r = Some (res, r')
     \<and> sorted_wrt (\<lambda>a b. \<not> logline_less b a) (rd_index r')"
proof -
  let ?r = "new_reader (Some digit_format) True [logline_new 0 5 LEVEL_INFO]" and ?en = "digit_env digit_lines"
  have g: "grown ?en (15, 0) ?r"
    by (simp add: grown_def overwritten_def observers_run_def digit_simps')
  have o: "index_in_order (rd_index ?r)" "\<forall>ll\<in>set (rd_index ?r). ll_time ll \<le> rd_tr_end ?r"
    by (simp_all add: index_in_order_def ordered_def digit_simps')
  have f: "follows ?en (read_from ?r) digit_lines" by (simp add: read_from_def digit_simps')
  from file_stays_in_order [OF digit_settled g o f] show ?thesis by (auto simp: Let_def)
qed

lemma digit_last_read:
  "last_read digit_format (digit_env ns) [] (fst (line_at 0 ''5 a'')) (snd (line_at 0 ''5 a''))
     (new_reader (Some digit_format) True [logline_new 0 5 LEVEL_INFO])"
  by (simp add: last_read_def digit_simps' line_text_def rtrim_def is_line_ending_def new_of_def digit_format_def
    digit_scan_def isdigit_def schar_def noted_def usr_empty_def is_valid_def Let_def)


end
