(* ===== verification/Logfile_Detect.thy ===== *)
theory Logfile_Detect
  imports Logfile_Spec
begin

text \<open>
  The search for the format of a file without one: every root format scans the line, and the best match,
  the first one among equals, is what the file keeps; the lines before get its time.
\<close>

section \<open>Better matches\<close>

lemma better_trans: "is_better_than a b \<Longrightarrow> is_better_than b c \<Longrightarrow> is_better_than a c"
  by (auto simp: is_better_than_def split: if_splits)

lemma better_asym: "is_better_than a b \<Longrightarrow> \<not> is_better_than b a"
  by (auto simp: is_better_than_def split: if_splits)

lemma not_better_trans: "\<not> is_better_than a b \<Longrightarrow> is_better_than c b \<Longrightarrow> is_better_than c a"
  by (auto simp: is_better_than_def split: if_splits)

definition pick :: "('f \<Rightarrow> scan_match) \<Rightarrow> 'f \<Rightarrow> 'f option \<Rightarrow> 'f option" where
  "pick q f b = (case b of None \<Rightarrow> Some f | Some g \<Rightarrow> if is_better_than (q f) (q g) then Some f else Some g)"

lemma pick_simps [simp]:
  "pick q f None = Some f"
  "pick q f (Some g) = (if is_better_than (q f) (q g) then Some f else Some g)"
  by (simp_all add: pick_def)

lemma pick_none: "fold (pick q) fs None = None \<longleftrightarrow> fs = []"
proof -
  have "fold (pick q) gs (Some g) \<noteq> None" for gs g
    by (induction gs arbitrary: g) auto
  then show ?thesis by (cases fs) (simp_all del: not_None_eq)
qed

lemma pick_best:
  "fold (pick q) fs None = Some f \<Longrightarrow> \<exists>us vs. fs = us @ f # vs \<and> (\<forall>g\<in>set us. is_better_than (q f) (q g))
     \<and> (\<forall>g\<in>set vs. \<not> is_better_than (q g) (q f))"
proof (induction fs arbitrary: f rule: rev_induct)
  case (snoc h fs)
  show ?case
  proof (cases "fold (pick q) fs None")
    case None
    with snoc.prems show ?thesis by (auto simp: pick_none intro: exI [of _ "[]"])
  next
    case (Some g)
    from snoc.IH [OF this] obtain us vs where fs: "fs = us @ g # vs" "\<forall>h\<in>set us. is_better_than (q g) (q h)"
      "\<forall>h\<in>set vs. \<not> is_better_than (q h) (q g)" by blast
    show ?thesis
    proof (cases "is_better_than (q h) (q g)")
      case True
      with Some snoc.prems have f: "f = h" by simp
      have "is_better_than (q h) (q x)" if "x \<in> set fs" for x
        using that fs True better_trans [OF True] not_better_trans [of "q x" "q g" "q h"] by auto
      with f show ?thesis by (intro exI [of _ fs] exI [of _ "[]"]) simp
    next
      case False
      with Some snoc.prems have "f = g" by simp
      with fs False show ?thesis by (intro exI [of _ us] exI [of _ "vs @ [h]"]) auto
    qed
  qed
qed simp

section \<open>The search\<close>

definition match_of :: "scan_outcome \<Rightarrow> scan_match" where
  "match_of res = (case res of Scan_match sm \<Rightarrow> sm | _ \<Rightarrow> \<lparr>sm_quality = 0, sm_strikes = 0, sm_precision = 0\<rparr>)"

definition eligible :: "'o reader \<Rightarrow> log_format \<Rightarrow> bool" where
  "eligible r f \<longleftrightarrow> fmt_name f \<notin> set (rd_mismatched_formats r) \<and> fmt_match_name f (rd_filename r)
     \<and> (rd_format_name r = None \<or> rd_format_name r = Some (fmt_name f))"

definition candidates :: "'o reader \<Rightarrow> (log_format \<Rightarrow> scan_outcome) \<Rightarrow> log_format list \<Rightarrow> log_format list" where
  "candidates r out fs = filter (\<lambda>f. eligible r f \<and> (\<exists>sm. out f = Scan_match sm)) fs"

text \<open>
  What the scanners do with the line does not depend on the lines before it; a match gives a message,
  anything else nothing. No format has given up on the file.
\<close>

definition scanners_ok ::
  "nat \<Rightarrow> 'o reader \<Rightarrow> line_info \<Rightarrow> string \<Rightarrow> (log_format \<Rightarrow> scan_outcome) \<Rightarrow> (log_format \<Rightarrow> logline list) \<Rightarrow>
   log_format list \<Rightarrow> bool" where
  "scanners_ok mx r li sbr out new fs \<longleftrightarrow> distinct (map fmt_name fs) \<and> (\<forall>f\<in>set fs.
     (\<forall>ls. fmt_scan f ls li sbr = (out f, ls @ new f))
     \<and> (if \<exists>sm. out f = Scan_match sm then \<exists>t\<le>rd_tr_end r. message_lines li t (new f) else new f = [])
     \<and> (\<forall>g\<in>set fs. length (rd_index r) + length (new g)
          < (case fmt_max_unrecognized_lines f of Some n \<Rightarrow> n | None \<Rightarrow> mx)))"

definition searched ::
  "'o reader \<Rightarrow> (log_format \<Rightarrow> scan_outcome) \<Rightarrow> (log_format \<Rightarrow> logline list) \<Rightarrow> log_format list \<Rightarrow> log_format list \<Rightarrow>
   'o reader \<times> detection \<Rightarrow> bool" where
  "searched r out new ps qs rd \<longleftrightarrow> (let (r', d) = rd; b = fold (pick (match_of \<circ> out)) (candidates r out ps) None in
     dt_best d = map_option (\<lambda>f. (f, match_of (out f))) b
     \<and> rd_index r' = rd_index r @ (case b of None \<Rightarrow> [] | Some f \<Rightarrow> new f)
     \<and> dt_prev_index_size d = length (rd_index r') \<and> dt_found d = Scan_no_match
     \<and> (\<forall>f\<in>set qs. eligible r' f = eligible r f) \<and> rd_format r' = None \<and> rd_tr_end r' = rd_tr_end r
     \<and> rd_filename r' = rd_filename r \<and> rd_format_name r' = rd_format_name r)"

lemma try_format_searched:
  assumes "scanners_ok mx r li sbr out new fs" and "fs = ps @ f # qs" and "searched r out new ps (f # qs) rd"
  shows "searched r out new (ps @ [f]) qs (try_format mx (length (rd_index r)) li sbr f rd)"
proof -
  obtain r' d where rd: "rd = (r', d)" by (cases rd)
  let ?q = "match_of \<circ> out"
  define b where "b = fold (pick ?q) (candidates r out ps) None"
  have s: "dt_best d = map_option (\<lambda>f. (f, match_of (out f))) b"
    "rd_index r' = rd_index r @ (case b of None \<Rightarrow> [] | Some f \<Rightarrow> new f)" "dt_prev_index_size d = length (rd_index r')"
    "dt_found d = Scan_no_match" "eligible r' f = eligible r f" "\<forall>f\<in>set qs. eligible r' f = eligible r f"
    "rd_format r' = None" "rd_tr_end r' = rd_tr_end r" "rd_filename r' = rd_filename r" "rd_format_name r' = rd_format_name r"
    using assms(3) by (auto simp: searched_def rd b_def Let_def)
  have f: "fmt_scan f ls li sbr = (out f, ls @ new f)"
    "if \<exists>sm. out f = Scan_match sm then \<exists>t\<le>rd_tr_end r. message_lines li t (new f) else new f = []" for ls
    using assms(1,2) by (auto simp: scanners_ok_def)
  have b_in: "g \<in> set ps" if "b = Some g" for g
  proof -
    from pick_best [of ?q "candidates r out ps" g] that have "g \<in> set (candidates r out ps)"
      unfolding b_def by (metis in_set_conv_decomp)
    then show ?thesis by (simp add: candidates_def)
  qed
  have lim: "length (rd_index r') < (case fmt_max_unrecognized_lines f of Some n \<Rightarrow> n | None \<Rightarrow> mx)"
  proof (cases b)
    case None
    then show ?thesis using assms(1,2) s(2) unfolding scanners_ok_def by fastforce
  next
    case (Some g)
    then show ?thesis using assms(1,2) s(2) b_in [OF Some] unfolding scanners_ok_def by fastforce
  qed
  have c: "candidates r out (ps @ [f])
      = candidates r out ps @ (if eligible r f \<and> (\<exists>sm. out f = Scan_match sm) then [f] else [])"
    by (simp add: candidates_def)
  show ?thesis
  proof (cases "eligible r f")
    case False
    have "distinct (map fmt_name (ps @ f # qs))" using assms(1,2) by (simp add: scanners_ok_def)
    then have "fmt_name f \<notin> fmt_name ` set qs" by simp
    then have q: "\<forall>g\<in>set qs. fmt_name g \<noteq> fmt_name f" by (metis imageI)
    have "(\<exists>ms. try_format mx (length (rd_index r)) li sbr f (r', d) = (r'\<lparr>rd_mismatched_formats := ms\<rparr>, d)
      \<and> (\<forall>g\<in>set qs. fmt_name g \<in> set ms \<longleftrightarrow> fmt_name g \<in> set (rd_mismatched_formats r')))"
    proof -
      have self: "r'\<lparr>rd_mismatched_formats := rd_mismatched_formats r'\<rparr> = r'" by simp
      have "\<not> eligible r' f" using False s(5) by simp
      then consider "fmt_name f \<in> set (rd_mismatched_formats r')"
        | "fmt_name f \<notin> set (rd_mismatched_formats r')" "\<not> fmt_match_name f (rd_filename r')"
        | "fmt_name f \<notin> set (rd_mismatched_formats r')" "fmt_match_name f (rd_filename r')"
          "rd_format_name r' \<noteq> None" "rd_format_name r' \<noteq> Some (fmt_name f)"
        unfolding eligible_def by argo
      then show ?thesis
      proof cases
        case 1
        then show ?thesis using lim self by (intro exI [of _ "rd_mismatched_formats r'"]) (simp add: try_format_def)
      next
        case 2
        then show ?thesis using lim q by (intro exI [of _ "fmt_name f # rd_mismatched_formats r'"]) (simp add: try_format_def)
      next
        case 3
        then show ?thesis using lim self by (intro exI [of _ "rd_mismatched_formats r'"]) (simp add: try_format_def)
      qed
    qed
    then obtain ms where "try_format mx (length (rd_index r)) li sbr f (r', d) = (r'\<lparr>rd_mismatched_formats := ms\<rparr>, d)"
      "\<forall>g\<in>set qs. fmt_name g \<in> set ms \<longleftrightarrow> fmt_name g \<in> set (rd_mismatched_formats r')" by blast
    with False s c show ?thesis by (auto simp: searched_def rd b_def [symmetric] Let_def eligible_def)
  next
    case el: True
    let ?r = "r'\<lparr>rd_index := rd_index r' @ new f\<rparr>" and ?d = "d\<lparr>dt_scan_count := dt_scan_count d + 1\<rparr>"
    have t: "try_format mx (length (rd_index r)) li sbr f (r', d) = (case out f of
          Scan_match sm \<Rightarrow> format_matched (length (rd_index r)) f sm (?r, ?d)
        | Scan_error \<Rightarrow> (format_failed ?r, ?d) | _ \<Rightarrow> (?r, ?d))"
      using el s(5,7) lim f(1) by (auto simp: try_format_def eligible_def Let_def split: scan_outcome.split)
    have elq: "\<forall>g\<in>set qs. eligible (r'\<lparr>rd_index := ls\<rparr>) g = eligible r g" for ls
      using s(6) by (simp add: eligible_def)
    show ?thesis
    proof (cases "\<exists>sm. out f = Scan_match sm")
      case False
      with f(2) have "?r = r'" by simp
      with False t have "try_format mx (length (rd_index r)) li sbr f (r', d) \<in> {(r', ?d), (format_failed r', ?d)}"
        by (auto split: scan_outcome.splits)
      moreover have "eligible (format_failed r') g = eligible r' g" "rd_index (format_failed r') = rd_index r'"
        "rd_format (format_failed r') = rd_format r'" "rd_tr_end (format_failed r') = rd_tr_end r'"
        "rd_filename (format_failed r') = rd_filename r'" "rd_format_name (format_failed r') = rd_format_name r'" for g
        by (simp_all add: format_failed_def eligible_def Let_def)
      ultimately show ?thesis using False s c by (auto simp: searched_def rd b_def [symmetric] Let_def)
    next
      case True
      then obtain sm where sm: "out f = Scan_match sm" by blast
      have c': "fold (pick ?q) (candidates r out (ps @ [f])) None = pick ?q f b" using c el sm by (simp add: b_def)
      show ?thesis
      proof (cases b)
        case None
        with t sm s have "try_format mx (length (rd_index r)) li sbr f (r', d)
            = (?r, ?d\<lparr>dt_best := Some (f, sm), dt_prev_index_size := length (rd_index ?r)\<rparr>)"
          by (simp add: format_matched_def)
        with None s sm c' elq show ?thesis
          by (simp add: searched_def rd Let_def match_of_def)
      next
        case (Some g)
        have bd: "dt_best ?d = Some (g, match_of (out g))" "is_current f ?r = False"
          using Some s(1,7) by (simp_all add: is_current_def)
        show ?thesis
        proof (cases "is_better_than sm (match_of (out g))")
          case True
          have "take (length (rd_index r)) (rd_index ?r) @ drop (dt_prev_index_size ?d) (rd_index ?r) = rd_index r @ new f"
            using s(2,3) by simp
          with True t sm bd have "try_format mx (length (rd_index r)) li sbr f (r', d)
              = (?r\<lparr>rd_index := rd_index r @ new f\<rparr>,
                 ?d\<lparr>dt_best := Some (f, sm), dt_prev_index_size := length (rd_index r @ new f)\<rparr>)"
            by (simp add: format_matched_def Let_def)
          with True Some s sm c' elq show ?thesis
            by (simp add: searched_def rd Let_def match_of_def)
        next
          case False
          have "take (dt_prev_index_size ?d) (rd_index ?r) = rd_index r'" using s(3) by simp
          with False t sm bd have "try_format mx (length (rd_index r)) li sbr f (r', d) = (r', ?d)"
            by (simp add: format_matched_def Let_def)
          with False Some s sm c' show ?thesis
            by (simp add: searched_def rd Let_def match_of_def)
        qed
      qed
    qed
  qed
qed


lemma fold_searched:
  assumes "scanners_ok mx r li sbr out new fs" and "fs = ps @ qs" and "searched r out new ps qs rd"
  shows "searched r out new fs [] (fold (try_format mx (length (rd_index r)) li sbr) qs rd)"
  using assms(2,3)
proof (induction qs arbitrary: ps rd)
  case (Cons f qs)
  from Cons.IH [of "ps @ [f]"] try_format_searched [OF assms(1) Cons.prems] Cons.prems(1) show ?case by simp
qed simp

section \<open>The format that is found\<close>

lemma backdate_sel [simp]: "ll_time (backdate f t ll) = t" "ll_offset (backdate f t ll) = ll_offset ll"
  by (simp_all add: backdate_def Let_def)

lemma last_message: "message_lines li t new \<Longrightarrow> ll_time (last (ls @ new)) = t"
  by (auto simp: message_lines_def)

lemma finish_first_match:
  assumes "rd_index r = map (backdate f t) ls @ new" and "message_lines li t new" and "t \<le> rd_tr_end r"
    and "\<forall>ll\<in>set ls. ll_offset ll < li_offset li"
  shows "\<exists>b r'. finish_match (length ls) pt li r = (b, r') \<and> (b \<longrightarrow> ls \<noteq> []) \<and> cut_at_bound r' = r'
    \<and> rd_index r' = map (backdate f t) ls @ noted li new \<and> same_file r' r \<and> rd_format_match r' = rd_format_match r"
proof -
  have new: "new \<noteq> []" "message_lines li t (noted li new)"
    using assms(2) message_lines_noted [OF assms(2)] by (simp_all add: message_lines_def)
  let ?n = "note_line li r"
  have i: "rd_index ?n = map (backdate f t) ls @ noted li new" "same_file ?n r"
    using note_line_index [of r li] note_line_same [of li r] new(1) assms(1) noted_append [OF new(1)] by auto
  have nn: "noted li new \<noteq> []" by (simp add: noted_def)
  have "skew_lines (length ls) ?n = (False, ?n)"
  proof (cases "ls = []")
    case False
    have "rd_index ?n ! (length ls - 1) = backdate f t (last ls)" "rd_index ?n ! length ls = hd (noted li new)"
      using False nn i(1) by (simp_all add: nth_append last_conv_nth hd_conv_nth)
    moreover have "\<not> logline_less (hd (noted li new)) (backdate f t (last ls))"
      using message_lines_hd [OF new(2)] bspec [OF assms(4) last_in_set [OF False]] by (simp add: logline_less_def)
    ultimately show ?thesis by (simp add: skew_lines_def Let_def)
  qed (simp add: skew_lines_def)
  then obtain b where "finish_match (length ls) pt li r = (b, ?n)" "b \<longrightarrow> ls \<noteq> []"
    by (simp add: finish_match_def Let_def)
  moreover have "cut_at_bound ?n = ?n"
    using i assms(3) new(2) by (intro cut_at_bound_none) (auto simp: same_file_def message_lines_def)
  moreover have "rd_format_match ?n = rd_format_match r" by (simp add: note_line_def Let_def)
  ultimately show ?thesis using i by blast
qed

lemma append_unmatched_index:
  "\<exists>ll. append_unmatched li r = r\<lparr>rd_index := rd_index r @ [ll]\<rparr> \<and> ll_offset ll = li_offset li"
proof (intro exI conjI)
  let ?ll = "last (rd_index (append_unmatched li r))"
  show "append_unmatched li r = r\<lparr>rd_index := rd_index r @ [?ll]\<rparr>"
    by (simp add: append_unmatched_def split: prod.split)
  show "ll_offset ?ll = li_offset li"
    by (simp add: append_unmatched_def logline_new_def split: prod.split)
qed

text \<open>
  C7: the first line that some format matches decides the format of a file: it is the best match of the
  formats that may be used, the first one among equals; its message is appended, the lines before get
  the time of the message, and the index of all files is told so if there are any. A line that no format
  matches is appended as it is.
\<close>

theorem best_format_found:
  assumes "rd_format r = None" and "rd_detect_format r" and "scanners_ok mx r li sbr out new fs"
    and "\<forall>ll\<in>set (rd_index r). ll_offset ll < li_offset li"
  shows "\<exists>b r'. process_prefix cl mx fs li sbr r = Some (b, r') \<and>
    (if candidates r out fs = []
     then rd_format r' = None \<and> \<not> b \<and> (\<exists>ll. rd_index r' = rd_index r @ [ll] \<and> ll_offset ll = li_offset li)
     else \<exists>us f vs t. candidates r out fs = us @ f # vs
       \<and> (\<forall>g\<in>set us. is_better_than (match_of (out f)) (match_of (out g)))
       \<and> (\<forall>g\<in>set vs. \<not> is_better_than (match_of (out g)) (match_of (out f)))
       \<and> rd_format r' = Some f \<and> rd_format_match r' = match_of (out f) \<and> message_lines li t (new f)
       \<and> rd_index r' = map (backdate f t) (rd_index r) @ noted li (new f) \<and> (b \<longleftrightarrow> rd_index r \<noteq> []))"
proof -
  let ?start = "length (rd_index r)"
  let ?d = "\<lparr>dt_best = None, dt_prev_index_size = ?start, dt_found = Scan_no_match, dt_scan_count = 0\<rparr>"
  have "searched r out new [] fs (r, ?d)" using assms(1) by (simp add: searched_def candidates_def)
  then have "searched r out new fs [] (fold (try_format mx ?start li sbr) fs (r, ?d))"
    using fold_searched [OF assms(3), of "[]" fs] by simp
  then obtain r1 d where fold: "fold (try_format mx ?start li sbr) fs (r, ?d) = (r1, d)"
    "searched r out new fs [] (r1, d)" by (metis surj_pair)
  define pt where "pt = (if 0 < ?start then ll_time (rd_index r ! (?start - 1)) else 0)"
  let ?r = "if dt_scan_count d = 0 then r1\<lparr>rd_detect_format := False\<rparr> else r1"
  let ?b = "fold (pick (match_of \<circ> out)) (candidates r out fs) None"
  have det: "scan_line cl mx fs li sbr r = (case ?b of None \<Rightarrow> Some (Scan_no_match, False, ?r)
      | Some f \<Rightarrow> map_option (\<lambda>(b, r'). (Scan_match (match_of (out f)), b, r'))
          (lock_format cl ?start f (match_of (out f)) ?r))"
    using assms(1,2) fold by (simp add: scan_line_def detect_format_def Let_def searched_def split: option.split)
  have r1: "rd_index ?r = rd_index r @ (case ?b of None \<Rightarrow> [] | Some f \<Rightarrow> new f)" "rd_format ?r = None"
    "rd_tr_end ?r = rd_tr_end r" using fold(2) by (auto simp: searched_def Let_def)
  show ?thesis
  proof (cases ?b)
    case None
    then have c: "candidates r out fs = []" by (simp add: pick_none)
    obtain ll where "append_unmatched li ?r = ?r\<lparr>rd_index := rd_index r @ [ll]\<rparr>" "ll_offset ll = li_offset li"
      using append_unmatched_index [of li ?r] r1(1) None by auto
    moreover have "process_prefix cl mx fs li sbr r = Some (False, cut_at_bound (append_unmatched li ?r))"
      using det None by (simp add: process_prefix_def)
    moreover have "cut_at_bound (?r\<lparr>rd_index := rd_index r @ [ll]\<rparr>) = ?r\<lparr>rd_index := rd_index r @ [ll]\<rparr>"
      using r1(2) by (simp add: cut_at_bound_def)
    ultimately show ?thesis using c r1(2) by (intro exI [of _ False]) auto
  next
    case (Some f)
    obtain us vs where uv: "candidates r out fs = us @ f # vs"
      "\<forall>g\<in>set us. is_better_than (match_of (out f)) (match_of (out g))"
      "\<forall>g\<in>set vs. \<not> is_better_than (match_of (out g)) (match_of (out f))"
      using pick_best [OF Some] by auto
    then have "f \<in> set (candidates r out fs)" by simp
    then have "f \<in> set fs" "\<exists>sm. out f = Scan_match sm" by (auto simp: candidates_def)
    with assms(3) obtain t where t: "t \<le> rd_tr_end r" "message_lines li t (new f)"
      unfolding scanners_ok_def by metis
    then have "new f \<noteq> []" by (simp add: message_lines_def)
    then obtain r2 where r2: "lock_format cl ?start f (match_of (out f)) ?r = Some (?start > 0, r2)"
      "rd_index r2 = map (backdate f t) (rd_index r) @ new f" "rd_format r2 = Some f" "rd_tr_end r2 = rd_tr_end r"
      "rd_format_match r2 = match_of (out f)"
      using r1 Some last_message [OF t(2), of "rd_index r"] by (simp add: lock_format_def Let_def)
    obtain b r' where r': "finish_match ?start pt li r2 = (b, r')" "b \<longrightarrow> rd_index r \<noteq> []" "cut_at_bound r' = r'"
      "rd_index r' = map (backdate f t) (rd_index r) @ noted li (new f)" "same_file r' r2"
      "rd_format_match r' = rd_format_match r2"
      using finish_first_match [OF r2(2) t(2) _ assms(4), of pt] t(1) r2(4) by auto
    have "process_prefix cl mx fs li sbr r = Some (?start > 0 \<or> b, r')"
      using det Some r2(1) r'(1) [unfolded pt_def] r'(3) by (auto simp: process_prefix_def Let_def)
    moreover have "rd_format r' = Some f" using r2(3) r'(5) by (simp add: same_file_def same_search_def)
    ultimately show ?thesis using uv t(2) r2(5) r'(2,4,6) by auto
  qed
qed

text \<open>Two formats match the line, the second one better; the line before the first match gets its time.\<close>

definition two_out :: "log_format \<Rightarrow> scan_outcome" where
  "two_out f = (if fmt_name f = ''digits'' then Scan_match \<lparr>sm_quality = 1000, sm_strikes = 0, sm_precision = 0\<rparr>
     else Scan_match \<lparr>sm_quality = 3000, sm_strikes = 0, sm_precision = 0\<rparr>)"

definition level_scan :: scanner where
  "level_scan ls li sbr = (Scan_match \<lparr>sm_quality = 3000, sm_strikes = 0, sm_precision = 0\<rparr>,
     ls @ [logline_new (li_offset li) 5 LEVEL_ERROR])"

definition level_format :: log_format where
  "level_format = digit_format\<lparr>fmt_name := ''levels'', fmt_scan := level_scan, fmt_specialized_scan := level_scan\<rparr>"

theorem best_format_found_witness:
  "let r = new_reader None True [logline_new 0 0 LEVEL_UNKNOWN] in
   \<exists>b r'. process_prefix id 1000 [digit_format, level_format] (fst (line_at 4 ''5 a'')) ''5 a'' r = Some (b, r')
     \<and> map ll_time (rd_index r') = [5, 5] \<and> b"
proof -
  let ?r = "new_reader None True [logline_new 0 0 LEVEL_UNKNOWN]" and ?li = "fst (line_at 4 ''5 a'')"
  let ?new = "\<lambda>f. [logline_new 4 5 (if fmt_name f = ''digits'' then LEVEL_INFO else LEVEL_ERROR)]"
  have ok: "scanners_ok 1000 ?r ?li ''5 a'' two_out ?new [digit_format, level_format]"
    unfolding scanners_ok_def
  proof (intro conjI ballI)
    show "distinct (map fmt_name [digit_format, level_format])" by (simp add: digit_format_def level_format_def)
    fix f assume f: "f \<in> set [digit_format, level_format]"
    show "\<forall>ls. fmt_scan f ls ?li ''5 a'' = (two_out f, ls @ ?new f)"
      using f by (auto simp: digit_format_def level_format_def digit_scan_def level_scan_def two_out_def isdigit_def
        line_at_def schar_def)
    have "message_lines ?li 5 (?new f)" by (simp add: message_lines_def logline_new_def line_at_def)
    then show "if \<exists>sm. two_out f = Scan_match sm then \<exists>t\<le>rd_tr_end ?r. message_lines ?li t (?new f) else ?new f = []"
      by (auto simp: two_out_def new_reader_def intro!: exI [of _ 5])
    fix g
    show "length (rd_index ?r) + length (?new g) < (case fmt_max_unrecognized_lines f of Some n \<Rightarrow> n | None \<Rightarrow> 1000)"
      using f by (auto simp: digit_format_def level_format_def new_reader_def)
  qed
  have "rd_format ?r = None" "rd_detect_format ?r" "\<forall>ll\<in>set (rd_index ?r). ll_offset ll < li_offset ?li"
    by (simp_all add: new_reader_def logline_new_def line_at_def)
  from best_format_found [OF this(1,2) ok this(3), of id] obtain b r' where
    p: "process_prefix id 1000 [digit_format, level_format] ?li ''5 a'' ?r = Some (b, r')"
    and c: "if candidates ?r two_out [digit_format, level_format] = []
     then rd_format r' = None \<and> \<not> b \<and> (\<exists>ll. rd_index r' = rd_index ?r @ [ll] \<and> ll_offset ll = li_offset ?li)
     else \<exists>us f vs t. candidates ?r two_out [digit_format, level_format] = us @ f # vs
       \<and> (\<forall>g\<in>set us. is_better_than (match_of (two_out f)) (match_of (two_out g)))
       \<and> (\<forall>g\<in>set vs. \<not> is_better_than (match_of (two_out g)) (match_of (two_out f)))
       \<and> rd_format r' = Some f \<and> rd_format_match r' = match_of (two_out f) \<and> message_lines ?li t (?new f)
       \<and> rd_index r' = map (backdate f t) (rd_index ?r) @ noted ?li (?new f) \<and> (b \<longleftrightarrow> rd_index ?r \<noteq> [])"
    by blast
  have "candidates ?r two_out [digit_format, level_format] \<noteq> []"
    by (simp add: candidates_def eligible_def digit_format_def new_reader_def two_out_def)
  with c obtain f t where "message_lines ?li t (?new f)"
    "rd_index r' = map (backdate f t) (rd_index ?r) @ noted ?li (?new f)" "b \<longleftrightarrow> rd_index ?r \<noteq> []" by auto
  with p show ?thesis
    by (auto simp: Let_def new_reader_def message_lines_def logline_new_def noted_def)
qed

end
