(* ===== verification/Filters.thy ===== *)
theory Filters
  imports Lnav_Prelude
begin

text \<open>
  Filters: the per-file filter state and the operations of a text filter
  (\<open>src/textview_curses.cc\<close>, \<open>src/textview_curses.hh\<close>) and the observer that feeds the lines of a
  log file to the filters (\<open>src/filter_observer.cc\<close>, \<open>src/filter_observer.hh\<close>).

  Matching a line (\<open>text_filter::matches\<close>: PCRE2 or SQLite) is a field of the filter, a function of the
  text; the file and place of the line, which an SQL filter also reads, are not passed to it. A \<open>require\<close>
  that fails aborts the program and is \<open>None\<close> here. The arrays of 32 entries are functions of the
  filter's index. A write to \<open>tfs_mask\<close> out of range, undefined in C++, changes nothing here; the
  invariant below excludes it.
\<close>

section \<open>Filters and their stack\<close>

datatype filter_type = INCLUDE | INCLUDE_AND | EXCLUDE | EXCLUDE_AND

datatype filter_lang = NONE | REGEX | SQL

record text_filter =
  lf_deleted :: bool
  lf_enabled :: bool
  lf_type :: filter_type
  lf_lang :: filter_lang
  lf_id :: string
  lf_index :: nat
  lf_matches :: "string \<Rightarrow> bool"

definition MAX_FILTERS :: nat where
  "MAX_FILTERS = 32"

record filter_stack =
  fs_generation :: "32 word"
  fs_reserved :: nat
  fs_filters :: "text_filter list"

definition fs_find :: "nat \<Rightarrow> filter_stack \<Rightarrow> text_filter option" where
  "fs_find index fs = find (\<lambda>f. lf_index f = index) (fs_filters fs)"

definition fs_full :: "filter_stack \<Rightarrow> bool" where
  "fs_full fs \<longleftrightarrow> fs_reserved fs + length (fs_filters fs) = MAX_FILTERS"

text \<open>The loop that marks the indexes in use; two filters with one index fail the assertion.\<close>

fun mark_used :: "text_filter list \<Rightarrow> bool list \<Rightarrow> bool list option" where
  "mark_used [] used = Some used"
| "mark_used (f # fs) used =
    (if lf_deleted f then mark_used fs used
     else if used ! lf_index f then None
     else mark_used fs (used[lf_index f := True]))"

definition next_index :: "filter_stack \<Rightarrow> nat option option" where
  "next_index fs =
    map_option (\<lambda>used. find (\<lambda>lpc. \<not> used ! lpc) [fs_reserved fs..<MAX_FILTERS])
      (mark_used (fs_filters fs) (replicate MAX_FILTERS False))"

definition get_filter :: "string \<Rightarrow> filter_stack \<Rightarrow> text_filter option" where
  "get_filter i fs = find (\<lambda>f. lf_id f = i) (fs_filters fs)"

fun erase_first :: "string \<Rightarrow> text_filter list \<Rightarrow> text_filter list" where
  "erase_first i [] = []"
| "erase_first i (f # fs) = (if lf_id f = i then fs else f # erase_first i fs)"

definition delete_filter :: "string \<Rightarrow> filter_stack \<Rightarrow> bool \<times> filter_stack" where
  "delete_filter i fs =
    (if list_ex (\<lambda>f. lf_id f = i) (fs_filters fs)
     then (True, fs\<lparr>fs_filters := erase_first i (fs_filters fs), fs_generation := fs_generation fs + 1\<rparr>)
     else (False, fs))"

definition add_filter :: "text_filter \<Rightarrow> filter_stack \<Rightarrow> filter_stack" where
  "add_filter f fs =
     fs\<lparr>fs_filters := fs_filters fs @ [f], fs_generation := fs_generation fs + 1\<rparr>"

definition clear_filters :: "filter_stack \<Rightarrow> filter_stack" where
  "clear_filters fs = fs\<lparr>fs_filters := [], fs_generation := fs_generation fs + 1\<rparr>"

text \<open>The shared pointer to a filter of the stack is its position.\<close>

definition set_filter_enabled :: "nat \<Rightarrow> bool \<Rightarrow> filter_stack \<Rightarrow> filter_stack" where
  "set_filter_enabled k enabled fs =
     fs\<lparr>fs_filters := (fs_filters fs)[k := (fs_filters fs ! k)\<lparr>lf_enabled := enabled\<rparr>],
        fs_generation := fs_generation fs + 1\<rparr>"

definition filter_bit :: "nat \<Rightarrow> 32 word" where
  "filter_bit i = push_bit i 1"

text \<open>\<open>get_mask\<close> aborts on an enabled filter of one of the two AND types.\<close>

fun mask_of :: "text_filter list \<Rightarrow> 32 word \<Rightarrow> 32 word option" where
  "mask_of [] m = Some m"
| "mask_of (f # fs) m =
    (if lf_deleted f \<or> \<not> lf_enabled f then mask_of fs m
     else if lf_type f = EXCLUDE \<or> lf_type f = INCLUDE then mask_of fs (or m (filter_bit (lf_index f)))
     else None)"

definition get_mask :: "filter_stack \<Rightarrow> 32 word option" where
  "get_mask fs = mask_of (fs_filters fs) 0"

record enabled_masks =
  filter_in_mask :: "32 word"
  filter_out_mask :: "32 word"
  filter_in_and_mask :: "32 word"
  filter_out_and_mask :: "32 word"

definition add_to_masks :: "text_filter \<Rightarrow> enabled_masks \<Rightarrow> enabled_masks" where
  "add_to_masks f m =
    (if lf_deleted f \<or> \<not> lf_enabled f then m
     else let b = filter_bit (lf_index f) in
       case lf_type f of
         EXCLUDE \<Rightarrow> m\<lparr>filter_out_mask := or (filter_out_mask m) b\<rparr>
       | EXCLUDE_AND \<Rightarrow> m\<lparr>filter_out_and_mask := or (filter_out_and_mask m) b\<rparr>
       | INCLUDE \<Rightarrow> m\<lparr>filter_in_mask := or (filter_in_mask m) b\<rparr>
       | INCLUDE_AND \<Rightarrow> m\<lparr>filter_in_and_mask := or (filter_in_and_mask m) b\<rparr>)"

definition get_enabled_mask :: "filter_stack \<Rightarrow> enabled_masks" where
  "get_enabled_mask fs = fold add_to_masks (fs_filters fs)
     \<lparr>filter_in_mask = 0, filter_out_mask = 0, filter_in_and_mask = 0, filter_out_and_mask = 0\<rparr>"

section \<open>The filter state of a file\<close>

record filter_state =
  tfs_filter_count :: "nat \<Rightarrow> nat"
  tfs_filter_hits :: "nat \<Rightarrow> int"
  tfs_message_matched :: "nat \<Rightarrow> bool"
  tfs_lines_for_message :: "nat \<Rightarrow> nat"
  tfs_hits_for_message :: "nat \<Rightarrow> nat"
  tfs_last_message_matched :: "nat \<Rightarrow> bool"
  tfs_last_lines_for_message :: "nat \<Rightarrow> nat"
  tfs_last_hits_for_message :: "nat \<Rightarrow> nat"
  tfs_mask :: "32 word list"
  tfs_index :: "nat list"

text \<open>
  \<open>tfs_last_hits_for_message\<close> is the one array that neither the constructor nor a clear writes:
  \<open>junk\<close> is what the memory holds.
\<close>

definition filter_state_init :: "(nat \<Rightarrow> nat) \<Rightarrow> filter_state" where
  "filter_state_init junk = \<lparr>tfs_filter_count = (\<lambda>_. 0), tfs_filter_hits = (\<lambda>_. 0),
     tfs_message_matched = (\<lambda>_. False), tfs_lines_for_message = (\<lambda>_. 0),
     tfs_hits_for_message = (\<lambda>_. 0), tfs_last_message_matched = (\<lambda>_. False),
     tfs_last_lines_for_message = (\<lambda>_. 0), tfs_last_hits_for_message = junk,
     tfs_mask = [], tfs_index = []\<rparr>"

definition clear_for_rebuild :: "filter_state \<Rightarrow> filter_state" where
  "clear_for_rebuild s = filter_state_init (tfs_last_hits_for_message s)"

definition clear_filter_state :: "nat \<Rightarrow> filter_state \<Rightarrow> filter_state" where
  "clear_filter_state i s =
    s\<lparr>tfs_filter_count := (tfs_filter_count s)(i := 0),
      tfs_filter_hits := (tfs_filter_hits s)(i := 0),
      tfs_message_matched := (tfs_message_matched s)(i := False),
      tfs_lines_for_message := (tfs_lines_for_message s)(i := 0),
      tfs_hits_for_message := (tfs_hits_for_message s)(i := 0),
      tfs_last_message_matched := (tfs_last_message_matched s)(i := False),
      tfs_last_lines_for_message := (tfs_last_lines_for_message s)(i := 0)\<rparr>"

definition clear_deleted_filter_state :: "32 word \<Rightarrow> filter_state \<Rightarrow> filter_state" where
  "clear_deleted_filter_state used_mask s =
    (let s = fold (\<lambda>lpc s. if \<not> bit used_mask lpc then clear_filter_state lpc s else s)
               [0..<MAX_FILTERS] s
     in s\<lparr>tfs_mask := map (and used_mask) (tfs_mask s)\<rparr>)"

definition tfs_resize :: "nat \<Rightarrow> filter_state \<Rightarrow> filter_state" where
  "tfs_resize newsize s =
     s\<lparr>tfs_mask := take newsize (tfs_mask s) @ replicate (newsize - length (tfs_mask s)) 0\<rparr>"

text \<open>\<open>std::lower_bound\<close>: the first entry that is not below the line.\<close>

definition content_line_to_vis_line :: "nat \<Rightarrow> filter_state \<Rightarrow> nat option" where
  "content_line_to_vis_line line s =
    (if tfs_index s = [] then None
     else let k = length (takeWhile (\<lambda>x. x < line) (tfs_index s)) in
          if k = length (tfs_index s) \<or> tfs_index s ! k \<noteq> line then None else Some k)"

section \<open>Feeding a filter\<close>

text \<open>The loop of \<open>end_of_message\<close>; \<open>lfsize\<close> is the number of lines of the file.\<close>

fun mark_lines :: "nat \<Rightarrow> nat \<Rightarrow> nat \<Rightarrow> filter_state \<Rightarrow> filter_state option" where
  "mark_lines lfsize i 0 s = Some s"
| "mark_lines lfsize i (Suc lines) s =
    (let line_number = tfs_filter_count s i; mask = filter_bit i in
     if line_number > lfsize then None
     else if line_number = lfsize then mark_lines lfsize i lines s
     else mark_lines lfsize i lines
            (s\<lparr>tfs_mask := (tfs_mask s)[line_number :=
                 (if tfs_message_matched s i then or (tfs_mask s ! line_number) mask
                  else and (tfs_mask s ! line_number) (not mask))],
               tfs_filter_count := (tfs_filter_count s)(i := line_number + 1)\<rparr>))"

definition close_message :: "nat \<Rightarrow> filter_state \<Rightarrow> filter_state" where
  "close_message i s =
    s\<lparr>tfs_filter_hits := (tfs_filter_hits s)
        (i := tfs_filter_hits s i + int (tfs_hits_for_message s i)),
      tfs_last_message_matched := (tfs_last_message_matched s)(i := tfs_message_matched s i),
      tfs_last_lines_for_message := (tfs_last_lines_for_message s)(i := tfs_lines_for_message s i),
      tfs_last_hits_for_message := (tfs_last_hits_for_message s)(i := tfs_hits_for_message s i),
      tfs_message_matched := (tfs_message_matched s)(i := False),
      tfs_lines_for_message := (tfs_lines_for_message s)(i := 0),
      tfs_hits_for_message := (tfs_hits_for_message s)(i := 0)\<rparr>"

definition end_of_message :: "nat \<Rightarrow> text_filter \<Rightarrow> filter_state \<Rightarrow> filter_state option" where
  "end_of_message lfsize f s =
     map_option (close_message (lf_index f))
       (mark_lines lfsize (lf_index f) (tfs_lines_for_message s (lf_index f)) s)"

text \<open>A line is whether it starts a message, and its text.\<close>

type_synonym fline = "bool \<times> string"

definition count_line :: "nat \<Rightarrow> bool \<Rightarrow> filter_state \<Rightarrow> filter_state" where
  "count_line i matched s =
    s\<lparr>tfs_message_matched := (tfs_message_matched s)(i := tfs_message_matched s i \<or> matched),
      tfs_lines_for_message := (tfs_lines_for_message s)(i := tfs_lines_for_message s i + 1),
      tfs_hits_for_message := (tfs_hits_for_message s)
        (i := tfs_hits_for_message s i + (if matched then 1 else 0))\<rparr>"

definition add_line :: "nat \<Rightarrow> text_filter \<Rightarrow> fline \<Rightarrow> filter_state \<Rightarrow> (bool \<times> filter_state) option" where
  "add_line lfsize f l s =
     map_option (\<lambda>s. (lf_matches f (snd l), count_line (lf_index f) (lf_matches f (snd l)) s))
       (if fst l then end_of_message lfsize f s else Some s)"

text \<open>The loop of \<open>revert_to_last\<close> over the lines of the last message.\<close>

fun unmark_lines :: "nat \<Rightarrow> nat \<Rightarrow> filter_state \<Rightarrow> filter_state" where
  "unmark_lines i 0 s = s"
| "unmark_lines i (Suc lines) s =
    (let s = (if tfs_message_matched s i
              then s\<lparr>tfs_filter_hits := (tfs_filter_hits s)(i := tfs_filter_hits s i - 1)\<rparr> else s);
         line_number = tfs_filter_count s i - 1
     in unmark_lines i lines
          (s\<lparr>tfs_filter_count := (tfs_filter_count s)(i := line_number),
             tfs_mask := (tfs_mask s)[line_number :=
               and (tfs_mask s ! line_number) (not (filter_bit i))]\<rparr>))"

definition revert_to_last :: "text_filter \<Rightarrow> nat \<Rightarrow> filter_state \<Rightarrow> filter_state option" where
  "revert_to_last f rollback_size s =
    (let i = lf_index f in
     if tfs_lines_for_message s i \<noteq> 0 then None
     else
       let lines = tfs_last_lines_for_message s i;
           s = s\<lparr>tfs_message_matched := (tfs_message_matched s)(i := tfs_last_message_matched s i),
                 tfs_lines_for_message := (tfs_lines_for_message s)(i := lines),
                 tfs_hits_for_message := (tfs_hits_for_message s)(i := tfs_last_hits_for_message s i)\<rparr>;
           s = unmark_lines i lines s
       in if lines > 0 \<and> lines < rollback_size then None
          else
            let lines = lines - rollback_size
            in Some (s\<lparr>tfs_lines_for_message := (tfs_lines_for_message s)(i := lines),
                       tfs_message_matched := (tfs_message_matched s)
                         (i := tfs_message_matched s i \<and> lines \<noteq> 0)\<rparr>))"

section \<open>The observer of a log file\<close>

definition feed_filter ::
  "nat \<Rightarrow> nat \<Rightarrow> fline \<Rightarrow> text_filter \<Rightarrow> bool \<times> filter_state \<Rightarrow> (bool \<times> filter_state) option" where
  "feed_filter lfsize offset l f r =
    (if lf_deleted f then Some r
     else if tfs_filter_count (snd r) (lf_index f) \<le> offset
     then map_option (\<lambda>(m, s). (m \<or> fst r, s)) (add_line lfsize f l (snd r))
     else Some r)"

text \<open>A loop that stops at a failed assertion.\<close>

fun ofold :: "('a \<Rightarrow> 'b \<Rightarrow> 'b option) \<Rightarrow> 'a list \<Rightarrow> 'b \<Rightarrow> 'b option" where
  "ofold f [] s = Some s"
| "ofold f (x # xs) s = (case f x s of Some s' \<Rightarrow> ofold f xs s' | None \<Rightarrow> None)"

text \<open>
  \<open>offset\<close> is the number of lines before \<open>ll_begin\<close>; it does not move with the loop. The lines
  carry the text that \<open>get_subline\<close> and \<open>erase_ansi\<close> leave.
\<close>

definition logline_new_lines ::
  "filter_stack \<Rightarrow> nat \<Rightarrow> nat \<Rightarrow> fline list \<Rightarrow> filter_state \<Rightarrow> (bool \<times> filter_state) option" where
  "logline_new_lines fs lfsize offset lines s =
    (let s = tfs_resize lfsize s in
     if fs_filters fs = [] then Some (False, s)
     else ofold (\<lambda>l. ofold (feed_filter lfsize offset l) (fs_filters fs)) lines (False, s))"

definition logline_eof :: "filter_stack \<Rightarrow> nat \<Rightarrow> filter_state \<Rightarrow> filter_state option" where
  "logline_eof fs lfsize =
     ofold (\<lambda>f s. if lf_deleted f then Some s else end_of_message lfsize f s) (fs_filters fs)"

definition logline_restart :: "filter_stack \<Rightarrow> nat \<Rightarrow> filter_state \<Rightarrow> filter_state option" where
  "logline_restart fs rollback_size = ofold (\<lambda>f. revert_to_last f rollback_size) (fs_filters fs)"

definition excluded :: "enabled_masks \<Rightarrow> nat \<Rightarrow> filter_state \<Rightarrow> bool" where
  "excluded m offset s \<longleftrightarrow>
    (let line_mask = tfs_mask s ! offset;
         filtered_in = (filter_in_mask m = 0 \<or> and line_mask (filter_in_mask m) \<noteq> 0);
         filtered_in_and = (filter_in_and_mask m = 0
           \<or> and line_mask (filter_in_and_mask m) = filter_in_and_mask m);
         filtered_out = (and line_mask (filter_out_mask m) \<noteq> 0);
         filtered_out_and = (filter_out_and_mask m \<noteq> 0
           \<and> and line_mask (filter_out_and_mask m) = filter_out_and_mask m)
     in \<not> filtered_in \<or> \<not> filtered_in_and \<or> filtered_out \<or> filtered_out_and)"

definition get_min_count :: "filter_stack \<Rightarrow> nat \<Rightarrow> filter_state \<Rightarrow> nat" where
  "get_min_count fs mx s =
     fold (\<lambda>f r. if lf_deleted f then r else min r (tfs_filter_count s (lf_index f)))
       (fs_filters fs) mx"

definition observer_clear_deleted :: "filter_stack \<Rightarrow> filter_state \<Rightarrow> filter_state" where
  "observer_clear_deleted fs s =
    (let used_mask = fold (\<lambda>f m. if lf_deleted f then m else or m (filter_bit (lf_index f)))
                       (fs_filters fs) 0
     in clear_deleted_filter_state used_mask s)"

end
