(* ===== verification/Bookmarks.thy ===== *)
theory Bookmarks
  imports Lnav_Prelude
begin

text \<open>
  \<open>src/bookmarks.hh\<close> and \<open>src/bookmarks.cc\<close>: the ordered vectors of bookmarked lines and the
  metadata attached to a line.

  The vendored \<open>btree_set\<close> is a container in the order of its elements: a strictly increasing list
  here, an iterator the list from its position on. Line numbers are integers, -1 is \<open>LineType(-1)\<close>.
\<close>

section \<open>The ordered set\<close>

fun bs_insert :: "int \<Rightarrow> int list \<Rightarrow> int list" where
  "bs_insert v [] = [v]"
| "bs_insert v (x # xs) = (if v < x then v # x # xs else if v = x then x # xs else x # bs_insert v xs)"

definition lower_bound :: "int \<Rightarrow> int list \<Rightarrow> int list" where
  "lower_bound v = dropWhile (\<lambda>x. x < v)"

definition upper_bound :: "int \<Rightarrow> int list \<Rightarrow> int list" where
  "upper_bound v = dropWhile (\<lambda>x. x \<le> v)"

lemma set_bs_insert: "set (bs_insert v xs) = insert v (set xs)"
  by (induction xs) auto

lemma sorted_bs_insert: "sorted_wrt (<) xs \<Longrightarrow> sorted_wrt (<) (bs_insert v xs)"
  by (induction xs) (auto simp: set_bs_insert)

lemma set_dropWhile_less:
  "sorted_wrt (<) xs \<Longrightarrow> (\<And>x y. x < y \<Longrightarrow> P y \<Longrightarrow> P x) \<Longrightarrow>
   set (dropWhile P xs) = {x \<in> set xs. \<not> P x}"
  by (induction xs) auto

lemma set_takeWhile_less:
  "sorted_wrt (<) xs \<Longrightarrow> (\<And>x y. x < y \<Longrightarrow> P y \<Longrightarrow> P x) \<Longrightarrow>
   set (takeWhile P xs) = {x \<in> set xs. P x}"
  by (induction xs) auto

lemma sorted_dropWhile_less: "sorted_wrt (<) xs \<Longrightarrow> sorted_wrt (<) (dropWhile P xs)"
  by (induction xs) auto

lemma sorted_takeWhile_less: "sorted_wrt (<) xs \<Longrightarrow> sorted_wrt (<) (takeWhile P xs)"
  by (induction xs) (auto dest: set_takeWhileD)

lemma hd_sorted_least: "sorted_wrt (<) xs \<Longrightarrow> x \<in> set xs \<Longrightarrow> hd xs \<le> (x::int)"
  by (cases xs) auto

lemma last_sorted_greatest: "sorted_wrt (<) xs \<Longrightarrow> x \<in> set xs \<Longrightarrow> (x::int) \<le> last xs"
proof (induction xs)
  case (Cons y ys)
  then show ?case using last_in_set [of ys] by (cases "ys = []") (auto intro: less_imp_le)
qed simp

section \<open>Bookmark vectors\<close>

record bookmark_vector =
  bv_tree :: "int list"
  bv_generation :: "64 word"

definition bv_empty :: bookmark_vector where
  "bv_empty = \<lparr>bv_tree = [], bv_generation = 0\<rparr>"

definition bv_clear :: "bookmark_vector \<Rightarrow> bookmark_vector" where
  "bv_clear bv = bv\<lparr>bv_tree := [], bv_generation := bv_generation bv + 1\<rparr>"

definition insert_once :: "int \<Rightarrow> bookmark_vector \<Rightarrow> bookmark_vector \<times> bool" where
  "insert_once vl bv =
    (let inserted = vl \<notin> set (bv_tree bv);
         bv = bv\<lparr>bv_tree := bs_insert vl (bv_tree bv)\<rparr>
     in (if inserted then bv\<lparr>bv_generation := bv_generation bv + 1\<rparr> else bv, inserted))"

definition bv_contains :: "int \<Rightarrow> bookmark_vector \<Rightarrow> bool" where
  "bv_contains vl bv \<longleftrightarrow> vl \<in> set (bv_tree bv)"

definition equal_range :: "int \<Rightarrow> int \<Rightarrow> bookmark_vector \<Rightarrow> int list" where
  "equal_range start stop bv =
    (let lb = lower_bound start (bv_tree bv)
     in if stop = -1 then lb
        else take (length lb - length (upper_bound stop (bv_tree bv))) lb)"

definition bv_erase :: "int \<Rightarrow> bookmark_vector \<Rightarrow> bookmark_vector" where
  "bv_erase vl bv =
     bv\<lparr>bv_tree := filter (\<lambda>x. x \<noteq> vl) (bv_tree bv), bv_generation := bv_generation bv + 1\<rparr>"

text \<open>
  \<open>None\<close> is a failed \<open>require\<close> or \<open>ensure\<close>. \<open>--lb\<close> steps to the last element before \<open>lb\<close>.
\<close>

definition bv_next :: "int \<Rightarrow> bookmark_vector \<Rightarrow> int option option" where
  "bv_next start bv =
    (if start < -1 then None
     else
       let retval = (case upper_bound start (bv_tree bv) of [] \<Rightarrow> None | x # _ \<Rightarrow> Some x)
       in case retval of
            Some x \<Rightarrow> if start < x then Some (Some x) else None
          | None \<Rightarrow> Some None)"

definition bv_prev :: "int \<Rightarrow> bookmark_vector \<Rightarrow> int option option" where
  "bv_prev start bv =
    (if start < 0 then None
     else
       let before = takeWhile (\<lambda>x. x < start) (bv_tree bv);
           retval = (if before = [] then None else Some (last before))
       in case retval of
            Some x \<Rightarrow> if x < start then Some (Some x) else None
          | None \<Rightarrow> Some None)"

text \<open>The representation invariant, and that every operation keeps it.\<close>

definition bv_ok :: "bookmark_vector \<Rightarrow> bool" where
  "bv_ok bv \<longleftrightarrow> sorted_wrt (<) (bv_tree bv)"

inductive bv_step :: "bookmark_vector \<Rightarrow> bookmark_vector \<Rightarrow> bool" where
  "bv_step bv (fst (insert_once vl bv))"
| "bv_step bv (bv_erase vl bv)"
| "bv_step bv (bv_clear bv)"

inductive_cases bv_stepE: "bv_step bv bv'"

inductive bv_reachable :: "bookmark_vector \<Rightarrow> bool" where
  start: "bv_reachable bv_empty"
| step: "bv_reachable bv \<Longrightarrow> bv_step bv bv' \<Longrightarrow> bv_reachable bv'"

lemma bv_tree_insert_once [simp]: "bv_tree (fst (insert_once vl bv)) = bs_insert vl (bv_tree bv)"
  by (simp add: insert_once_def Let_def)

lemma bv_step_ok: "bv_step bv bv' \<Longrightarrow> bv_ok bv \<Longrightarrow> bv_ok bv'"
  by (erule bv_stepE)
    (auto simp: bv_ok_def bv_erase_def bv_clear_def sorted_bs_insert sorted_wrt_filter)

lemma bv_reachable_ok: "bv_reachable bv \<Longrightarrow> bv_ok bv"
proof (induction rule: bv_reachable.induct)
  case start
  show ?case by (simp add: bv_ok_def bv_empty_def)
next
  case (step bv bv')
  then show ?case using bv_step_ok by blast
qed

lemma bv_next_iff:
  assumes "bv_ok bv" and "-1 \<le> v"
  shows "bv_next v bv = Some r \<longleftrightarrow>
    (case r of Some x \<Rightarrow> x \<in> set (bv_tree bv) \<and> v < x \<and> (\<forall>y\<in>set (bv_tree bv). v < y \<longrightarrow> x \<le> y)
             | None \<Rightarrow> \<forall>y\<in>set (bv_tree bv). y \<le> v)"
proof -
  let ?u = "upper_bound v (bv_tree bv)"
  have s: "sorted_wrt (<) (bv_tree bv)" using assms(1) by (simp add: bv_ok_def)
  have set: "set ?u = {x \<in> set (bv_tree bv). v < x}"
    unfolding upper_bound_def by (subst set_dropWhile_less [OF s]) (linarith, simp add: not_le)
  have so: "sorted_wrt (<) ?u" unfolding upper_bound_def by (rule sorted_dropWhile_less [OF s])
  show ?thesis
  proof (cases ?u)
    case Nil
    have all: "\<forall>y\<in>set (bv_tree bv). y \<le> v" using set Nil by (auto simp: not_less)
    have "bv_next v bv = Some None" using Nil assms(2) by (simp add: bv_next_def)
    with all show ?thesis by (cases r) auto
  next
    case (Cons x xs)
    have x: "x \<in> set (bv_tree bv)" "v < x" using set Cons by auto
    have least: "x \<le> y" if "y \<in> set (bv_tree bv)" "v < y" for y
    proof -
      have "y \<in> set ?u" using set that by blast
      then have "hd ?u \<le> y" by (rule hd_sorted_least [OF so])
      with Cons show ?thesis by simp
    qed
    have nx: "bv_next v bv = Some (Some x)" using Cons assms(2) x(2) by (simp add: bv_next_def)
    show ?thesis
    proof (cases r)
      case None
      with nx x show ?thesis by (auto simp: not_le)
    next
      case (Some z)
      have "z = x" if "z \<in> set (bv_tree bv)" "v < z" "\<forall>y\<in>set (bv_tree bv). v < y \<longrightarrow> z \<le> y"
        using least [OF that(1,2)] that(3) x by (simp add: antisym)
      with nx x least Some show ?thesis by auto
    qed
  qed
qed

lemma bv_prev_iff:
  assumes "bv_ok bv" and "0 \<le> v"
  shows "bv_prev v bv = Some r \<longleftrightarrow>
    (case r of Some x \<Rightarrow> x \<in> set (bv_tree bv) \<and> x < v \<and> (\<forall>y\<in>set (bv_tree bv). y < v \<longrightarrow> y \<le> x)
             | None \<Rightarrow> \<forall>y\<in>set (bv_tree bv). v \<le> y)"
proof -
  let ?t = "takeWhile (\<lambda>x. x < v) (bv_tree bv)"
  have s: "sorted_wrt (<) (bv_tree bv)" using assms(1) by (simp add: bv_ok_def)
  have set: "set ?t = {x \<in> set (bv_tree bv). x < v}"
    by (subst set_takeWhile_less [OF s]) (linarith, rule refl)
  have so: "sorted_wrt (<) ?t" by (rule sorted_takeWhile_less [OF s])
  show ?thesis
  proof (cases "?t = []")
    case True
    have all: "\<forall>y\<in>set (bv_tree bv). v \<le> y" using set True by (auto simp: not_less)
    have "bv_prev v bv = Some None" using True assms(2) by (simp add: bv_prev_def)
    with all show ?thesis by (cases r) auto
  next
    case False
    define x where "x = last ?t"
    have x: "x \<in> set (bv_tree bv)" "x < v" using set last_in_set [OF False] by (auto simp: x_def)
    have greatest: "y \<le> x" if "y \<in> set (bv_tree bv)" "y < v" for y
      using last_sorted_greatest [OF so, of y] set that by (simp add: x_def)
    have nx: "bv_prev v bv = Some (Some x)" using False assms(2) x(2) by (simp add: bv_prev_def x_def)
    show ?thesis
    proof (cases r)
      case None
      with nx x show ?thesis by (auto simp: not_le)
    next
      case (Some z)
      have "z = x" if "z \<in> set (bv_tree bv)" "z < v" "\<forall>y\<in>set (bv_tree bv). y < v \<longrightarrow> y \<le> z"
        using greatest [OF that(1,2)] that(3) x by (simp add: antisym)
      with nx x greatest Some show ?thesis by auto
    qed
  qed
qed

text \<open>The assertions of \<open>next\<close> and \<open>prev\<close> never fail.\<close>

lemma bv_next_defined: "0 \<le> v \<Longrightarrow> \<exists>r. bv_next v bv = Some r"
proof -
  assume v: "0 \<le> v"
  have "upper_bound v (bv_tree bv) = x # xs \<Longrightarrow> v < x" for x xs
    by (metis dropWhile_eq_Cons_conv not_le upper_bound_def)
  with v show ?thesis by (cases "upper_bound v (bv_tree bv)") (simp_all add: bv_next_def)
qed

lemma bv_prev_defined: "0 \<le> v \<Longrightarrow> \<exists>r. bv_prev v bv = Some r"
proof -
  assume v: "0 \<le> v"
  have "takeWhile (\<lambda>x. x < v) (bv_tree bv) \<noteq> [] \<Longrightarrow> last (takeWhile (\<lambda>x. x < v) (bv_tree bv)) < v"
    by (metis last_in_set set_takeWhileD)
  with v show ?thesis
    by (cases "takeWhile (\<lambda>x. x < v) (bv_tree bv) = []") (simp_all add: bv_prev_def)
qed

section \<open>The interface of a set of lines\<close>

text \<open>What the views rely on: the operations are those of a set, and moves find its neighbours.\<close>

locale line_set =
  fixes ok :: "'b \<Rightarrow> bool" and abs :: "'b \<Rightarrow> int set"
    and ins del :: "int \<Rightarrow> 'b \<Rightarrow> 'b" and nxt prv :: "int \<Rightarrow> 'b \<Rightarrow> int option option"
  assumes ok_ins: "ok b \<Longrightarrow> ok (ins v b)" and ok_del: "ok b \<Longrightarrow> ok (del v b)"
    and abs_ins: "ok b \<Longrightarrow> abs (ins v b) = insert v (abs b)"
    and abs_del: "ok b \<Longrightarrow> abs (del v b) = abs b - {v}"
    and nxt_least: "ok b \<Longrightarrow> -1 \<le> v \<Longrightarrow> nxt v b = Some r \<longleftrightarrow>
      (case r of Some x \<Rightarrow> x \<in> abs b \<and> v < x \<and> (\<forall>y\<in>abs b. v < y \<longrightarrow> x \<le> y)
               | None \<Rightarrow> \<forall>y\<in>abs b. y \<le> v)"
    and prv_greatest: "ok b \<Longrightarrow> 0 \<le> v \<Longrightarrow> prv v b = Some r \<longleftrightarrow>
      (case r of Some x \<Rightarrow> x \<in> abs b \<and> x < v \<and> (\<forall>y\<in>abs b. y < v \<longrightarrow> y \<le> x)
               | None \<Rightarrow> \<forall>y\<in>abs b. v \<le> y)"
begin

text \<open>Moving to the next mark and back returns to the mark the move started from.\<close>

lemma next_then_prev:
  assumes "ok b" and "v \<in> abs b" and "0 \<le> v" and "nxt v b = Some (Some x)"
  shows "prv x b = Some (Some v)"
proof -
  have x: "x \<in> abs b" "v < x" "\<forall>y\<in>abs b. v < y \<longrightarrow> x \<le> y"
    using nxt_least [OF assms(1), of v "Some x"] assms(3,4) by auto
  have "\<forall>y\<in>abs b. y < x \<longrightarrow> y \<le> v" using x(3) by force
  with assms(1-3) x show ?thesis by (subst prv_greatest) auto
qed

text \<open>A mark just added is the next one from any place that had none before it.\<close>

lemma next_inserted:
  assumes "ok b" and "-1 \<le> v" and "v < w" and "\<forall>y\<in>abs b. v < y \<longrightarrow> w \<le> y"
  shows "nxt v (ins w b) = Some (Some w)"
  using assms by (subst nxt_least) (auto simp: ok_ins abs_ins)

end

interpretation bv: line_set bv_ok "\<lambda>b. set (bv_tree b)" "\<lambda>v b. fst (insert_once v b)" bv_erase
  bv_next bv_prev
proof unfold_locales
  fix b v
  assume ok: "bv_ok b"
  show "bv_ok (fst (insert_once v b))" "bv_ok (bv_erase v b)"
    using ok bv_step_ok bv_step.intros by blast+
  show "set (bv_tree (fst (insert_once v b))) = insert v (set (bv_tree b))"
    by (simp add: set_bs_insert)
  show "set (bv_tree (bv_erase v b)) = set (bv_tree b) - {v}"
    by (auto simp: bv_erase_def)
qed (rule bv_next_iff bv_prev_iff; assumption)+

text \<open>
  C37: in every bookmark vector the operations can build, the assertions of \<open>next\<close> and \<open>prev\<close> hold,
  and they give the closest bookmark after and before a line.
\<close>

theorem bookmark_neighbours:
  assumes "bv_reachable bv" and "0 \<le> v"
  shows "(\<exists>r. bv_next v bv = Some r \<and>
      (case r of Some x \<Rightarrow> bv_contains x bv \<and> v < x \<and> (\<forall>y. bv_contains y bv \<and> v < y \<longrightarrow> x \<le> y)
               | None \<Rightarrow> \<forall>y. bv_contains y bv \<longrightarrow> y \<le> v))
    \<and> (\<exists>r. bv_prev v bv = Some r \<and>
      (case r of Some x \<Rightarrow> bv_contains x bv \<and> x < v \<and> (\<forall>y. bv_contains y bv \<and> y < v \<longrightarrow> y \<le> x)
               | None \<Rightarrow> \<forall>y. bv_contains y bv \<longrightarrow> v \<le> y))"
proof -
  have ok: "bv_ok bv" using assms(1) by (rule bv_reachable_ok)
  obtain r where r: "bv_next v bv = Some r" using bv_next_defined [OF assms(2)] by blast
  obtain q where q: "bv_prev v bv = Some q" using bv_prev_defined [OF assms(2)] by blast
  have "case r of Some x \<Rightarrow> bv_contains x bv \<and> v < x \<and> (\<forall>y. bv_contains y bv \<and> v < y \<longrightarrow> x \<le> y)
               | None \<Rightarrow> \<forall>y. bv_contains y bv \<longrightarrow> y \<le> v"
    using r bv.nxt_least [OF ok, of v r] assms(2) by (cases r) (auto simp: bv_contains_def)
  moreover have "case q of Some x \<Rightarrow> bv_contains x bv \<and> x < v \<and> (\<forall>y. bv_contains y bv \<and> y < v \<longrightarrow> y \<le> x)
               | None \<Rightarrow> \<forall>y. bv_contains y bv \<longrightarrow> v \<le> y"
    using q bv.prv_greatest [OF ok, of v q] assms(2) by (cases q) (auto simp: bv_contains_def)
  ultimately show ?thesis using r q by blast
qed

text \<open>
  In a bookmark vector, moving to the next bookmark and then to the previous one leads back,
  and bookmarking a line makes it the next bookmark of the lines just before it.
\<close>

theorem bookmark_moves:
  assumes "bv_reachable bv" and "bv_contains v bv" and "0 \<le> v"
    and "bv_next v bv = Some (Some x)"
  shows "bv_prev x bv = Some (Some v)
    \<and> (v < w \<and> w \<le> x \<longrightarrow> bv_next v (fst (insert_once w bv)) = Some (Some w))"
proof -
  have ok: "bv_ok bv" using assms(1) by (rule bv_reachable_ok)
  have least: "\<forall>y\<in>set (bv_tree bv). v < y \<longrightarrow> x \<le> y"
    using bv.nxt_least [OF ok, of v "Some x"] assms(3,4) by simp
  have "bv_next v (fst (insert_once w bv)) = Some (Some w)" if w: "v < w" "w \<le> x"
  proof (rule bv.next_inserted [OF ok _ w(1)])
    show "\<forall>y\<in>set (bv_tree bv). v < y \<longrightarrow> w \<le> y" using least w(2) order_trans by blast
  qed (use assms(3) in simp)
  moreover have "bv_prev x bv = Some (Some v)"
    using bv.next_then_prev [OF ok _ assms(3,4)] assms(2) by (simp add: bv_contains_def)
  ultimately show ?thesis by blast
qed

definition three_marks :: bookmark_vector where
  "three_marks = fst (insert_once 7 (fst (insert_once 3 (fst (insert_once 5 bv_empty)))))"

lemma three_marks_reachable: "bv_reachable three_marks"
  unfolding three_marks_def
  by (rule bv_reachable.step [OF _ bv_step.intros(1)])+ (rule bv_reachable.start)

theorem bookmark_neighbours_witness: "bv_next 5 three_marks = Some (Some 7)"
proof -
  have "bv_tree three_marks = [3, 5, 7]" by code_simp
  with bookmark_neighbours [OF three_marks_reachable, of 5] show ?thesis
    by (auto simp: bv_contains_def split: option.splits)
qed

theorem bookmark_moves_witness: "bv_prev 7 three_marks = Some (Some 5)"
proof -
  have "bv_next 5 three_marks = Some (Some 7)" "bv_contains 5 three_marks" by code_simp+
  with bookmark_moves [OF three_marks_reachable, of 5 7] show ?thesis by simp
qed

section \<open>Metadata\<close>

record bookmark_metadata =
  bm_name :: string
  bm_opid :: string
  bm_comment :: string
  bm_annotations :: "(string \<times> string) list"
  bm_tags :: "string list"

datatype categories = cat_any | cat_partition | cat_notes | cat_opid

definition bm_has :: "categories \<Rightarrow> bookmark_metadata \<Rightarrow> bool" where
  "bm_has props bm =
    (if props = cat_any then True
     else if props = cat_partition \<and> bm_name bm \<noteq> [] then True
     else if props = cat_notes \<and> (bm_comment bm \<noteq> [] \<or> bm_annotations bm \<noteq> [] \<or> bm_tags bm \<noteq> [])
     then True
     else if props = cat_opid \<and> bm_opid bm \<noteq> [] then True
     else False)"

definition add_tag :: "string \<Rightarrow> bookmark_metadata \<Rightarrow> bookmark_metadata" where
  "add_tag tag bm = (if tag \<in> set (bm_tags bm) then bm else bm\<lparr>bm_tags := bm_tags bm @ [tag]\<rparr>)"

definition remove_tag :: "string \<Rightarrow> bookmark_metadata \<Rightarrow> bool \<times> bookmark_metadata" where
  "remove_tag tag bm =
    (if tag \<in> set (bm_tags bm) then (True, bm\<lparr>bm_tags := remove1 tag (bm_tags bm)\<rparr>) else (False, bm))"

definition bm_empty :: "categories \<Rightarrow> bookmark_metadata \<Rightarrow> bool" where
  "bm_empty props bm =
    (case props of
       cat_any \<Rightarrow> bm_name bm = [] \<and> bm_opid bm = [] \<and> bm_comment bm = [] \<and> bm_tags bm = []
         \<and> bm_annotations bm = []
     | cat_partition \<Rightarrow> bm_name bm = []
     | cat_notes \<Rightarrow> bm_comment bm = [] \<and> bm_tags bm = [] \<and> bm_annotations bm = []
     | cat_opid \<Rightarrow> bm_opid bm = [])"

text \<open>The name of a partition is not cleared.\<close>

definition bm_clear :: "bookmark_metadata \<Rightarrow> bookmark_metadata" where
  "bm_clear bm = bm\<lparr>bm_opid := [], bm_comment := [], bm_tags := [], bm_annotations := []\<rparr>"

lemma bm_empty_has: "props \<noteq> cat_any \<Longrightarrow> bm_empty props bm \<longleftrightarrow> \<not> bm_has props bm"
  by (cases props) (auto simp: bm_empty_def bm_has_def)

text \<open>
  The tags of a line stay distinct, and a tag that is removed after it was added is gone, all
  others as before.
\<close>

theorem tags_are_a_set:
  assumes "distinct (bm_tags bm)"
  shows "distinct (bm_tags (add_tag t bm)) \<and> set (bm_tags (add_tag t bm)) = insert t (set (bm_tags bm))
    \<and> fst (remove_tag t bm) = (t \<in> set (bm_tags bm))
    \<and> distinct (bm_tags (snd (remove_tag t bm)))
    \<and> set (bm_tags (snd (remove_tag t bm))) = set (bm_tags bm) - {t}
    \<and> (t \<notin> set (bm_tags bm) \<longrightarrow> snd (remove_tag t (add_tag t bm)) = bm)"
  using assms by (auto simp: add_tag_def remove_tag_def set_remove1_eq remove1_append)

theorem tags_are_a_set_witness:
  "snd (remove_tag ''x'' (add_tag ''x'' \<lparr>bm_name = [], bm_opid = [], bm_comment = [],
      bm_annotations = [], bm_tags = [''y'']\<rparr>)) = \<lparr>bm_name = [], bm_opid = [], bm_comment = [],
      bm_annotations = [], bm_tags = [''y'']\<rparr>"
  using tags_are_a_set [of "\<lparr>bm_name = [], bm_opid = [], bm_comment = [], bm_annotations = [],
      bm_tags = [''y'']\<rparr>" "''x''"] by simp

end
