(* ===== verification/Log_Source.thy ===== *)
theory Log_Source
  imports Logline Filters Bookmarks
begin

text \<open>
  The state of \<open>logfile_sub_source\<close> (\<open>src/logfile_sub_source.hh\<close>): the log files, the index of their
  lines in time order, the index of the visible lines and the bookmarks, with the lookups and the
  small operations (\<open>src/logfile_sub_source.cc\<close>). The rebuild of the index is in \<open>Log_Index\<close>.

  A file is identified by \<open>lf_id\<close>, its pointer. Reading a line past the end of a file, undefined in
  C++, is the unspecified element of the list. The rows of \<open>lss_filtered_index\<close>, \<open>uint32_t\<close> in the code,
  are natural numbers, which is the same for an index of fewer than 2^32 lines. Observers of progress,
  caches of sizes and the display attributes are left out.
\<close>

section \<open>Files\<close>

record logfile =
  lf_id :: nat
  lf_lines :: "logline list"
  lf_time_ordered :: bool
  lf_specialized :: bool
  lf_remaining :: nat
  lf_longest_line :: nat
  lf_visible_option :: bool
  lf_indexing :: bool
  lf_metadata :: "nat \<Rightarrow> bookmark_metadata option"

text \<open>\<open>find_from_time\<close>: \<open>std::lower_bound\<close>, over a vector in time order the first line at or after the time.\<close>

definition lf_find_from_time :: "tv \<Rightarrow> logfile \<Rightarrow> nat option" where
  "lf_find_from_time t lf =
    (let k = length (takeWhile (\<lambda>ll. ll_less_tv ll t) (lf_lines lf))
     in if k = length (lf_lines lf) then None else Some k)"

definition empty_metadata :: bookmark_metadata where
  "empty_metadata = \<lparr>bm_name = [], bm_opid = [], bm_comment = [], bm_annotations = [], bm_tags = []\<rparr>"

record logfile_data =
  ld_file_index :: nat
  ld_file_ptr :: "logfile option"
  ld_filter_state :: filter_state
  ld_lines_indexed :: nat
  ld_visible :: bool

definition logfile_data_new :: "nat \<Rightarrow> (nat \<Rightarrow> nat) \<Rightarrow> logfile \<Rightarrow> logfile_data" where
  "logfile_data_new index junk lf = \<lparr>ld_file_index = index, ld_file_ptr = Some lf,
     ld_filter_state = filter_state_init junk, ld_lines_indexed = 0, ld_visible = lf_indexing lf\<rparr>"

definition ld_clear :: "logfile_data \<Rightarrow> logfile_data" where
  "ld_clear ld =
     ld\<lparr>ld_filter_state := clear_for_rebuild (ld_filter_state ld), ld_file_ptr := None\<rparr>"

definition set_file :: "logfile \<Rightarrow> logfile_data \<Rightarrow> logfile_data" where
  "set_file lf ld = ld\<lparr>ld_file_ptr := Some lf, ld_lines_indexed := 0, ld_visible := lf_indexing lf\<rparr>"

definition is_visible :: "logfile_data \<Rightarrow> bool" where
  "is_visible ld \<longleftrightarrow> ld_file_ptr ld \<noteq> None \<and> ld_visible ld"

section \<open>The index\<close>

datatype level_t = Normal_level | Warning_level | Error_level

record indexed_content =
  ic_value :: nat
  ic_level :: level_t

definition level_from_log :: "logline \<Rightarrow> level_t" where
  "level_from_log ll =
    (if \<not> is_message ll then Normal_level
     else case ll_level ll of
       LEVEL_WARNING \<Rightarrow> Warning_level
     | LEVEL_ERROR \<Rightarrow> Error_level | LEVEL_FATAL \<Rightarrow> Error_level | LEVEL_CRITICAL \<Rightarrow> Error_level
     | _ \<Rightarrow> Normal_level)"

text \<open>The value is a field of 38 bits.\<close>

definition new_content :: "nat \<Rightarrow> logline \<Rightarrow> indexed_content" where
  "new_content cl ll = \<lparr>ic_value = cl mod 2 ^ 38, ic_level = level_from_log ll\<rparr>"

definition MAX_CONTENT_LINES :: nat where
  "MAX_CONTENT_LINES = 2 ^ 40"

definition MAX_LINES_PER_FILE :: nat where
  "MAX_LINES_PER_FILE = 2 ^ 27"

definition MAX_FILES :: nat where
  "MAX_FILES = MAX_CONTENT_LINES div MAX_LINES_PER_FILE"

datatype mark_type =
  BM_USER | BM_USER_EXPR | BM_PARTITION | BM_META | BM_STICKY | BM_SEARCH
| BM_WARNINGS | BM_ERRORS | BM_FILES

type_synonym marks = "mark_type \<Rightarrow> bookmark_vector"

definition mark_line :: "mark_type \<Rightarrow> nat \<Rightarrow> marks \<Rightarrow> marks" where
  "mark_line bm cl marks = marks(bm := fst (insert_once (int cl) (marks bm)))"

text \<open>
  \<open>lss_delegate\<close> is the index delegate, the histogram: the lines it was given since it last started.
\<close>

record log_source =
  lss_files :: "logfile_data list"
  lss_index :: "indexed_content list"
  lss_capacity :: nat
  lss_filtered_index :: "nat list"
  lss_user_marks :: marks
  lss_view_marks :: marks
  lss_force_rebuild :: bool
  lss_index_generation :: "32 word"
  lss_longest_line :: nat
  lss_delegate :: "nat list option"
  lss_marked_only :: bool
  lss_line_meta_changed :: bool
  tss_apply_filters :: bool
  tss_filters :: filter_stack
  tss_min_log_level :: log_level
  tss_level_filtered_count :: nat
  ttt_min_row_time :: tv
  ttt_max_row_time :: tv

section \<open>Lookups\<close>

definition content_line :: "nat \<Rightarrow> nat \<Rightarrow> nat" where
  "content_line file line = file * MAX_LINES_PER_FILE + line"

definition find_data :: "nat \<Rightarrow> log_source \<Rightarrow> logfile_data \<times> nat" where
  "find_data cl s = (lss_files s ! (cl div MAX_LINES_PER_FILE), cl mod MAX_LINES_PER_FILE)"

definition find_file_ptr :: "nat \<Rightarrow> log_source \<Rightarrow> logfile option \<times> nat" where
  "find_file_ptr cl s =
     (ld_file_ptr (lss_files s ! (cl div MAX_LINES_PER_FILE)), cl mod MAX_LINES_PER_FILE)"

definition find_line :: "nat \<Rightarrow> log_source \<Rightarrow> logline option" where
  "find_line cl s =
    (case find_file_ptr cl s of (None, _) \<Rightarrow> None | (Some lf, line) \<Rightarrow> Some (lf_lines lf ! line))"

definition at_row :: "nat \<Rightarrow> log_source \<Rightarrow> nat" where
  "at_row vl s = ic_value (lss_index s ! (lss_filtered_index s ! vl))"

definition text_line_count :: "log_source \<Rightarrow> nat" where
  "text_line_count s = length (lss_filtered_index s)"

definition get_filtered_count :: "log_source \<Rightarrow> int" where
  "get_filtered_count s = int (length (lss_index s)) - int (length (lss_filtered_index s))"

definition get_filtered_count_for :: "nat \<Rightarrow> log_source \<Rightarrow> int" where
  "get_filtered_count_for filter_index s =
     sum_list (map (\<lambda>ld. tfs_filter_hits (ld_filter_state ld) filter_index) (lss_files s))"

definition file_count :: "log_source \<Rightarrow> nat" where
  "file_count s = length (filter (\<lambda>ld. ld_file_ptr ld \<noteq> None) (lss_files s))"

text \<open>The comparison of an entry of the index with a time; a line of a closed file comes first.\<close>

definition filtered_less_tv :: "log_source \<Rightarrow> tv \<Rightarrow> nat \<Rightarrow> bool" where
  "filtered_less_tv s t k =
    (case find_line (ic_value (lss_index s ! k)) s of None \<Rightarrow> True | Some ll \<Rightarrow> ll_less_tv ll t)"

definition lower_row :: "tv \<Rightarrow> log_source \<Rightarrow> nat" where
  "lower_row t s = length (takeWhile (filtered_less_tv s t) (lss_filtered_index s))"

definition find_from_time :: "tv \<Rightarrow> log_source \<Rightarrow> nat option" where
  "find_from_time t s =
    (let lb = lower_row t s in if lb \<noteq> length (lss_filtered_index s) then Some lb else None)"

text \<open>The loop of \<open>find_from_content\<close> over the rows from \<open>vl\<close> on.\<close>

function content_loop :: "nat \<Rightarrow> logline \<Rightarrow> log_source \<Rightarrow> nat \<Rightarrow> nat option" where
  "content_loop cl ll s vl =
    (if vl < text_line_count s
     then let guess_cl = at_row vl s in
          if cl = guess_cl then Some vl
          else (case find_line guess_cl s of
                  None \<Rightarrow> None
                | Some guess \<Rightarrow> if logline_less ll guess then None else content_loop cl ll s (vl + 1))
     else None)"
  by pat_completeness auto
termination by (relation "measure (\<lambda>(cl, ll, s, vl). text_line_count s - vl)") auto

declare content_loop.simps [simp del]

definition find_from_content :: "nat \<Rightarrow> log_source \<Rightarrow> nat option" where
  "find_from_content cl s =
    (case find_line cl s of
       None \<Rightarrow> None
     | Some ll \<Rightarrow>
         (case find_from_time (get_timeval ll) s of
            None \<Rightarrow> None
          | Some start \<Rightarrow> content_loop cl ll s start))"

text \<open>
  \<open>row_for\<close>: from the first row at the time, the row of the line with the identity, as long as the
  rows have the time of the row. A null line fails there; it is none of the index.
\<close>

fun row_loop :: "log_source \<Rightarrow> tv \<Rightarrow> int \<Rightarrow> nat \<Rightarrow> nat \<Rightarrow> nat list \<Rightarrow> nat" where
  "row_loop s t i first_lb lb [] = first_lb"
| "row_loop s t i first_lb lb (k # ks) =
    (let cl = ic_value (lss_index s ! k) in
     if int cl = i then lb
     else if get_timeval (the (find_line cl s)) \<noteq> t then first_lb
     else row_loop s t i first_lb (lb + 1) ks)"

definition row_for :: "tv \<Rightarrow> int \<Rightarrow> log_source \<Rightarrow> nat option" where
  "row_for t i s =
    (let lb = lower_row t s in
     if lb \<noteq> length (lss_filtered_index s)
     then Some (row_loop s t i lb lb (drop lb (lss_filtered_index s)))
     else None)"

definition time_for_row :: "nat \<Rightarrow> log_source \<Rightarrow> (tv \<times> int) option" where
  "time_for_row row s =
    (if row < length (lss_filtered_index s)
     then let cl = at_row row s in Some (get_timeval (the (find_line cl s)), int cl)
     else None)"

section \<open>Files come and go\<close>

fun find_index :: "('a \<Rightarrow> bool) \<Rightarrow> 'a list \<Rightarrow> nat" where
  "find_index p [] = 0"
| "find_index p (x # xs) = (if p x then 0 else Suc (find_index p xs))"

definition insert_file :: "(nat \<Rightarrow> nat) \<Rightarrow> logfile \<Rightarrow> log_source \<Rightarrow> (bool \<times> log_source) option" where
  "insert_file junk lf s =
    (if \<not> length (lf_lines lf) < MAX_LINES_PER_FILE then None
     else
       let existing = find_index (\<lambda>ld. ld_file_ptr ld = None) (lss_files s) in
       if existing = length (lss_files s)
       then if length (lss_files s) \<ge> MAX_FILES then Some (False, s)
            else let ld = logfile_data_new (length (lss_files s)) junk lf
                 in Some (True, s\<lparr>lss_files := lss_files s @ [ld\<lparr>ld_visible := lf_visible_option lf\<rparr>]\<rparr>)
       else Some (True, s\<lparr>lss_files := (lss_files s)[existing := set_file lf (lss_files s ! existing)]\<rparr>))"

text \<open>The marks of the lines from the first of the file to the first of the next, both included.\<close>

definition remove_marks :: "nat \<Rightarrow> bookmark_vector \<Rightarrow> bookmark_vector" where
  "remove_marks file_index bv =
    fold bv_erase
      (equal_range (int (content_line file_index 0)) (int (content_line (file_index + 1) 0)) bv) bv"

fun drop_closed :: "logfile_data list \<Rightarrow> logfile_data list" where
  "drop_closed [] = []"
| "drop_closed (ld # lds) =
    (let lds' = drop_closed lds
     in if lds' = [] \<and> ld_file_ptr ld = None then [] else ld # lds')"

definition remove_file :: "nat \<Rightarrow> log_source \<Rightarrow> log_source" where
  "remove_file i s =
    (let file_index = find_index (\<lambda>ld. map_option lf_id (ld_file_ptr ld) = Some i) (lss_files s);
         s = (if file_index < length (lss_files s)
              then s\<lparr>lss_files := (lss_files s)[file_index := ld_clear (lss_files s ! file_index)],
                     lss_user_marks := (\<lambda>bm. remove_marks file_index (lss_user_marks s bm)),
                     lss_force_rebuild := True\<rparr>
              else s)
     in s\<lparr>lss_files := drop_closed (lss_files s)\<rparr>)"

section \<open>Marks and metadata\<close>

definition set_line :: "nat \<Rightarrow> (logline \<Rightarrow> logline) \<Rightarrow> log_source \<Rightarrow> log_source" where
  "set_line cl f s =
    (let file = cl div MAX_LINES_PER_FILE; line = cl mod MAX_LINES_PER_FILE; ld = lss_files s ! file
     in case ld_file_ptr ld of
          None \<Rightarrow> s
        | Some lf \<Rightarrow> s\<lparr>lss_files := (lss_files s)[file := ld\<lparr>ld_file_ptr :=
            Some (lf\<lparr>lf_lines := (lf_lines lf)[line := f (lf_lines lf ! line)]\<rparr>)\<rparr>]\<rparr>)"

definition text_mark :: "mark_type \<Rightarrow> nat \<Rightarrow> bool \<Rightarrow> log_source \<Rightarrow> log_source" where
  "text_mark bm line added s =
    (if line \<ge> length (lss_index s) then s
     else
       let cl = at_row line s;
           s = (if bm = BM_USER then set_line cl (\<lambda>ll. ll\<lparr>ll_mark := added\<rparr>) s else s)
       in if added then s\<lparr>lss_user_marks := mark_line bm cl (lss_user_marks s)\<rparr>
          else s\<lparr>lss_user_marks := (lss_user_marks s)(bm := bv_erase (int cl) (lss_user_marks s bm))\<rparr>)"

definition text_clear_marks :: "mark_type \<Rightarrow> log_source \<Rightarrow> log_source" where
  "text_clear_marks bm s =
    (let s = (if bm = BM_USER
              then fold (\<lambda>cl. set_line (nat cl) (\<lambda>ll. ll\<lparr>ll_mark := False\<rparr>))
                     (bv_tree (lss_user_marks s bm)) s
              else s)
     in s\<lparr>lss_user_marks := (lss_user_marks s)(bm := bv_clear (lss_user_marks s bm))\<rparr>)"

definition find_bookmark_metadata :: "nat \<Rightarrow> log_source \<Rightarrow> bookmark_metadata option" where
  "find_bookmark_metadata cl s =
    (case find_file_ptr cl s of (None, _) \<Rightarrow> None | (Some lf, line) \<Rightarrow> lf_metadata lf line)"

text \<open>The rows with metadata of a category closest to a row: the next one, and the one at or before.\<close>

fun first_with :: "(int \<Rightarrow> bookmark_metadata option) \<Rightarrow> categories \<Rightarrow> int list \<Rightarrow> int option" where
  "first_with meta desired [] = None"
| "first_with meta desired (vl # vls) =
    (case meta vl of
       Some bm \<Rightarrow> if bm_has desired bm then Some vl else first_with meta desired vls
     | None \<Rightarrow> first_with meta desired vls)"

definition metadata_context ::
  "nat \<Rightarrow> categories \<Rightarrow> log_source \<Rightarrow> int option \<times> bookmark_metadata option \<times> int option" where
  "metadata_context vl desired s =
    (let bv = lss_view_marks s (if desired = cat_partition then BM_PARTITION else BM_META);
         meta = (\<lambda>v. if nat v \<ge> length (lss_filtered_index s) then None
                     else find_bookmark_metadata (at_row (nat v) s) s);
         after = lower_bound (int vl + 1) (bv_tree bv);
         before = takeWhile (\<lambda>x. x < int vl + 1) (bv_tree bv);
         next_line = first_with meta desired after;
         current = first_with meta desired (rev before)
     in (current, Option.bind current meta, next_line))"

section \<open>The filters that are no text filters\<close>

text \<open>The walks over the lines of the message of a line; the first line of a file starts one.\<close>

fun mark_before :: "logline list \<Rightarrow> nat \<Rightarrow> bool" where
  "mark_before lines k =
    (if ll_continued (lines ! k)
     then ll_mark (lines ! k) \<or> ll_expr_mark (lines ! k) \<or> (case k of 0 \<Rightarrow> False | Suc j \<Rightarrow> mark_before lines j)
     else False)"

fun mark_after :: "logline list \<Rightarrow> bool" where
  "mark_after [] = False"
| "mark_after (ll # lls) = (ll_continued ll \<and> (ll_mark ll \<or> ll_expr_mark ll \<or> mark_after lls))"

definition found_mark :: "logline list \<Rightarrow> nat \<Rightarrow> bool" where
  "found_mark lines k \<longleftrightarrow> ll_mark (lines ! k) \<or> ll_expr_mark (lines ! k)
     \<or> mark_before lines k \<or> mark_after (drop (k + 1) lines)"

definition passes_extra :: "logfile \<Rightarrow> nat \<Rightarrow> log_source \<Rightarrow> bool" where
  "passes_extra lf k s \<longleftrightarrow>
    (lss_marked_only s \<longrightarrow> found_mark (lf_lines lf) k)
    \<and> \<not> ll_level (lf_lines lf ! k) < tss_min_log_level s
    \<and> \<not> ll_less_tv (lf_lines lf ! k) (ttt_min_row_time s)
    \<and> ll_less_eq_tv (lf_lines lf ! k) (ttt_max_row_time s)"

definition check_extra_filters :: "logfile \<Rightarrow> nat \<Rightarrow> log_source \<Rightarrow> bool \<times> log_source" where
  "check_extra_filters lf k s =
    (let ll = lf_lines lf ! k;
         retval = (if lss_marked_only s \<and> \<not> found_mark (lf_lines lf) k then False else True);
         (retval, s) = (if ll_level ll < tss_min_log_level s
           then (False, s\<lparr>tss_level_filtered_count := tss_level_filtered_count s + 1\<rparr>) else (retval, s));
         retval = (if ll_less_tv ll (ttt_min_row_time s) then False else retval);
         retval = (if \<not> ll_less_eq_tv ll (ttt_max_row_time s) then False else retval)
     in (retval, s))"

end
