(* ===== verification/Log_Index.thy ===== *)
theory Log_Index
  imports Log_Source
begin

text \<open>
  \<open>logfile_sub_source::rebuild_index\<close>, \<open>text_filters_changed\<close>, \<open>text_update_marks\<close> and
  \<open>reload_index_delegate\<close> (\<open>src/logfile_sub_source.cc\<close>).

  What a file's own \<open>rebuild_index\<close> does is an input of a rebuild: \<open>scans i\<close> is the new file, its
  filter state and the result, or \<open>None\<close> if the file was skipped for lack of time. The marker
  expression, run by SQLite, is a function of the file and line, \<open>None\<close> on an error. A \<open>require\<close> that
  fails is \<open>None\<close>. The view is attached. \<open>std::sort\<close> leaves the order of equivalent lines open; it is stable here.
\<close>

section \<open>Order\<close>

fun insort_by :: "('a \<Rightarrow> 'a \<Rightarrow> bool) \<Rightarrow> 'a \<Rightarrow> 'a list \<Rightarrow> 'a list" where
  "insort_by lt x [] = [x]"
| "insort_by lt x (y # ys) = (if lt y x then y # insort_by lt x ys else x # y # ys)"

definition sort_by :: "('a \<Rightarrow> 'a \<Rightarrow> bool) \<Rightarrow> 'a list \<Rightarrow> 'a list" where
  "sort_by lt xs = foldr (insort_by lt) xs []"

definition ic_line :: "log_source \<Rightarrow> indexed_content \<Rightarrow> logline" where
  "ic_line s ic = the (find_line (ic_value ic) s)"

definition logline_cmp :: "log_source \<Rightarrow> indexed_content \<Rightarrow> indexed_content \<Rightarrow> bool" where
  "logline_cmp s l r = logline_less (ic_line s l) (ic_line s r)"

definition file_before :: "log_source \<Rightarrow> nat \<Rightarrow> nat \<Rightarrow> bool" where
  "file_before s l r =
    (case ld_file_ptr (lss_files s ! l) of
       None \<Rightarrow> True
     | Some lf \<Rightarrow>
         if lf_lines lf = [] then True
         else (case ld_file_ptr (lss_files s ! r) of
                 None \<Rightarrow> False
               | Some rf \<Rightarrow>
                   if lf_lines rf = [] then False
                   else logline_less (last (lf_lines lf)) (last (lf_lines rf))))"

definition file_order :: "log_source \<Rightarrow> nat list" where
  "file_order s =
    (if lss_index s \<noteq> [] then sort_by (file_before s) [0..<length (lss_files s)]
     else [0..<length (lss_files s)])"

section \<open>Scanning the files\<close>

datatype scan_result = NO_NEW_LINES | NEW_LINES | NEW_ORDER | INVALID

datatype rebuild_result =
  Rr_no_change | Rr_appended_lines | Rr_partial_rebuild | Rr_full_rebuild

text \<open>The local variables of \<open>rebuild_index\<close> that the scans change.\<close>

record rebuild_ctx =
  rc_retval :: rebuild_result
  rc_force :: bool
  rc_full_sort :: bool
  rc_lowest :: "tv option"

type_synonym scans = "nat \<Rightarrow> (logfile \<times> filter_state \<times> scan_result) option"

definition force_full :: "rebuild_ctx \<Rightarrow> rebuild_ctx" where
  "force_full c = c\<lparr>rc_retval := Rr_full_rebuild, rc_force := True, rc_full_sort := True\<rparr>"

definition older_lines :: "bool \<Rightarrow> tv \<Rightarrow> rebuild_ctx \<Rightarrow> rebuild_ctx" where
  "older_lines all_ordered t c =
    (if rc_retval c \<noteq> Rr_full_rebuild \<and> all_ordered
     then c\<lparr>rc_retval := Rr_partial_rebuild,
            rc_lowest := (case rc_lowest c of
                None \<Rightarrow> Some t
              | Some l \<Rightarrow> if tv_less t l then Some t else Some l)\<rparr>
     else c\<lparr>rc_force := True, rc_full_sort := True\<rparr>)"

definition process_rebuild_result ::
  "bool \<Rightarrow> log_source \<Rightarrow> nat \<Rightarrow> scan_result \<Rightarrow> rebuild_ctx \<Rightarrow> rebuild_ctx" where
  "process_rebuild_result all_ordered s i res c =
    (let ld = lss_files s ! i;
         lines = lf_lines (the (ld_file_ptr ld));
         res = (if ld_lines_indexed ld < length lines \<and> res = NO_NEW_LINES then NEW_LINES else res)
     in case res of
          NO_NEW_LINES \<Rightarrow> c
        | NEW_LINES \<Rightarrow>
            let c = (if rc_retval c = Rr_no_change then c\<lparr>rc_retval := Rr_appended_lines\<rparr> else c)
            in if lss_index s \<noteq> [] \<and> length lines > ld_lines_indexed ld
               then let new_line = lines ! ld_lines_indexed ld
                    in case find_line (ic_value (last (lss_index s))) s of
                         None \<Rightarrow> older_lines all_ordered (get_timeval new_line) c
                       | Some last_line \<Rightarrow>
                           if ll_less_tv new_line (get_timeval last_line)
                           then older_lines all_ordered (get_timeval new_line) c
                           else c
               else c
        | NEW_ORDER \<Rightarrow> force_full c
        | INVALID \<Rightarrow> force_full c)"

text \<open>The closed files, and the files to scan one after the other and in parallel.\<close>

definition check_closed :: "log_source \<Rightarrow> nat list \<Rightarrow> rebuild_ctx \<Rightarrow> rebuild_ctx" where
  "check_closed s = fold (\<lambda>i c.
     if ld_file_ptr (lss_files s ! i) = None \<and> ld_lines_indexed (lss_files s ! i) > 0
     then force_full c else c)"

definition all_time_ordered :: "log_source \<Rightarrow> bool" where
  "all_time_ordered s = list_all (\<lambda>ld. case ld_file_ptr ld of None \<Rightarrow> True
     | Some lf \<Rightarrow> lf_time_ordered lf) (lss_files s)"

definition to_scan :: "bool \<Rightarrow> bool \<Rightarrow> log_source \<Rightarrow> nat list \<Rightarrow> nat list" where
  "to_scan is_paused parallel s order =
    (if is_paused then []
     else filter (\<lambda>i. case ld_file_ptr (lss_files s ! i) of None \<Rightarrow> False
            | Some lf \<Rightarrow> lf_specialized lf = parallel) order)"

definition set_scanned :: "nat \<Rightarrow> logfile \<Rightarrow> filter_state \<Rightarrow> log_source \<Rightarrow> log_source" where
  "set_scanned i lf fs s = s\<lparr>lss_files := (lss_files s)[i := (lss_files s ! i)
     \<lparr>ld_file_ptr := Some lf, ld_filter_state := fs\<rparr>]\<rparr>"

type_synonym scan_state = "log_source \<times> rebuild_ctx \<times> bool"

definition scan_one :: "bool \<Rightarrow> scans \<Rightarrow> nat \<Rightarrow> scan_state \<Rightarrow> scan_state" where
  "scan_one all_ordered scans i st =
    (case st of (s, c, time_left) \<Rightarrow>
       (case scans i of
          None \<Rightarrow> (s, c, False)
        | Some (lf, fs, res) \<Rightarrow>
            let s = set_scanned i lf fs s
            in (s, process_rebuild_result all_ordered s i res c, time_left)))"

definition scan_only :: "scans \<Rightarrow> nat \<Rightarrow> log_source \<Rightarrow> log_source" where
  "scan_only scans i s = (case scans i of None \<Rightarrow> s | Some (lf, fs, res) \<Rightarrow> set_scanned i lf fs s)"

definition process_only ::
  "bool \<Rightarrow> scans \<Rightarrow> log_source \<Rightarrow> nat \<Rightarrow> rebuild_ctx \<Rightarrow> rebuild_ctx" where
  "process_only all_ordered scans s i c =
    (case scans i of None \<Rightarrow> c | Some (lf, fs, res) \<Rightarrow> process_rebuild_result all_ordered s i res c)"

text \<open>Several files and threads: all files are scanned before the first result is looked at.\<close>

definition scan_parallel :: "bool \<Rightarrow> nat \<Rightarrow> scans \<Rightarrow> nat list \<Rightarrow> scan_state \<Rightarrow> scan_state" where
  "scan_parallel all_ordered max_threads scans files st =
    (if length files \<le> 1 \<or> max_threads \<le> 1 then fold (scan_one all_ordered scans) files st
     else case st of (s, c, time_left) \<Rightarrow>
       let s = fold (scan_only scans) files s
       in (s, fold (process_only all_ordered scans s) files c, time_left))"

definition scan_files :: "bool \<Rightarrow> nat \<Rightarrow> scans \<Rightarrow> log_source \<Rightarrow> rebuild_ctx \<Rightarrow> scan_state" where
  "scan_files is_paused max_threads scans s c =
    (let order = file_order s;
         all_ordered = all_time_ordered s;
         c = check_closed s order c;
         st = fold (scan_one all_ordered scans) (to_scan is_paused False s order) (s, c, True);
         (s', c, time_left) =
           scan_parallel all_ordered max_threads scans (to_scan is_paused True s order) st
     in if \<not> all_ordered \<and> rc_retval c = Rr_partial_rebuild then (s', force_full c, time_left)
        else (s', c, time_left))"

section \<open>Room for the index, and what is left of it\<close>

definition total_lines :: "log_source \<Rightarrow> nat" where
  "total_lines s = sum_list (map (\<lambda>ld. case ld_file_ptr ld of None \<Rightarrow> 0
     | Some lf \<Rightarrow> length (lf_lines lf) + lf_remaining lf) (lss_files s))"

text \<open>\<open>big_array::reserve\<close>; the new array has none of the old entries, which the rebuild clears.\<close>

definition DEFAULT_INCREMENT :: nat where
  "DEFAULT_INCREMENT = 100 * 1000"

definition reserve_index :: "nat \<Rightarrow> log_source \<Rightarrow> bool \<times> log_source" where
  "reserve_index n s =
    (if n < lss_capacity s then (False, s)
     else (True, s\<lparr>lss_capacity := n + DEFAULT_INCREMENT\<rparr>))"

definition map_files :: "(logfile_data \<Rightarrow> logfile_data) \<Rightarrow> log_source \<Rightarrow> log_source" where
  "map_files f s = s\<lparr>lss_files := map f (lss_files s)\<rparr>"

definition index_start :: "log_source \<Rightarrow> log_source" where
  "index_start s = s\<lparr>lss_delegate := map_option (\<lambda>_. []) (lss_delegate s)\<rparr>"

definition index_line :: "nat \<Rightarrow> log_source \<Rightarrow> log_source" where
  "index_line cl s = s\<lparr>lss_delegate := map_option (\<lambda>ls. ls @ [cl]) (lss_delegate s)\<rparr>"

definition reset_index :: "log_source \<Rightarrow> log_source" where
  "reset_index s =
    (let s = map_files (\<lambda>ld. ld\<lparr>ld_lines_indexed := 0\<rparr>) s;
         s = s\<lparr>lss_index := [], lss_filtered_index := [], tss_level_filtered_count := 0,
               lss_longest_line := 0,
               lss_view_marks := (lss_view_marks s)(BM_USER_EXPR := bv_clear (lss_view_marks s BM_USER_EXPR))\<rparr>
     in index_start s)"

definition reload_rows :: "log_source \<Rightarrow> log_source" where
  "reload_rows s = fold (\<lambda>k. index_line (ic_value (lss_index s ! k))) (lss_filtered_index s) (index_start s)"

text \<open>
  The lines from the lowest new time on are taken out. The array keeps its entries beyond the new
  size, so the second search still reads them.
\<close>

definition cut_index :: "tv \<Rightarrow> log_source \<Rightarrow> log_source option" where
  "cut_index lowest s =
    (if list_all (\<lambda>ld. case ld_file_ptr ld of None \<Rightarrow> True | Some lf \<Rightarrow> lf_time_ordered lf) (lss_files s)
     then
       let s = map_files (\<lambda>ld. case ld_file_ptr ld of None \<Rightarrow> ld
             | Some lf \<Rightarrow> ld\<lparr>ld_lines_indexed := (case lf_find_from_time lowest lf of
                 Some k \<Rightarrow> k | None \<Rightarrow> length (lf_lines lf))\<rparr>) s;
           n = length (takeWhile (\<lambda>ic. ll_less_tv (ic_line s ic) lowest) (lss_index s));
           m = lower_row lowest s
       in Some (reload_rows (s\<lparr>lss_index := take n (lss_index s),
                               lss_filtered_index := take m (lss_filtered_index s)\<rparr>))
     else None)"

section \<open>New lines\<close>

definition widen :: "log_source \<Rightarrow> log_source" where
  "widen s = s\<lparr>lss_longest_line := fold (\<lambda>ld w. case ld_file_ptr ld of None \<Rightarrow> w
     | Some lf \<Rightarrow> max w (lf_longest_line lf + 1)) (lss_files s) (lss_longest_line s)\<rparr>"

text \<open>The first line of the message of a line; \<open>operator[]\<close> makes metadata where there was none.\<close>

fun message_start :: "logline list \<Rightarrow> nat \<Rightarrow> nat" where
  "message_start lines 0 = 0"
| "message_start lines (Suc k) = (if ll_continued (lines ! Suc k) then message_start lines k else Suc k)"

definition mark_metadata :: "nat \<Rightarrow> nat \<Rightarrow> log_source \<Rightarrow> log_source" where
  "mark_metadata i line s =
    (let ld = lss_files s ! i; lf = the (ld_file_ptr ld);
         start = message_start (lf_lines lf) line;
         start_cl = content_line (ld_file_index ld) start;
         meta = (case lf_metadata lf start of None \<Rightarrow> empty_metadata | Some m \<Rightarrow> m);
         s = s\<lparr>lss_files := (lss_files s)[i := ld\<lparr>ld_file_ptr :=
               Some (lf\<lparr>lf_metadata := (lf_metadata lf)(start \<mapsto> meta)\<rparr>)\<rparr>]\<rparr>;
         s = (if bm_has cat_notes meta
              then s\<lparr>lss_user_marks := mark_line BM_META start_cl (lss_user_marks s)\<rparr> else s)
     in if bm_has cat_partition meta
        then s\<lparr>lss_user_marks := mark_line BM_PARTITION start_cl (lss_user_marks s)\<rparr> else s)"

definition push_line :: "nat \<Rightarrow> nat \<times> logline \<Rightarrow> log_source \<Rightarrow> log_source" where
  "push_line i kl s =
    (let (k, ll) = kl in
     if ll_ignore ll then s
     else
       let s' = (if ll_meta_mark ll then mark_metadata i k s else s)
       in s'\<lparr>lss_index := lss_index s'
              @ [new_content (content_line (ld_file_index (lss_files s ! i)) k) ll]\<rparr>)"

definition numbered :: "logfile_data \<Rightarrow> (nat \<times> logline) list" where
  "numbered ld = (case ld_file_ptr ld of None \<Rightarrow> []
     | Some lf \<Rightarrow> zip [0..<length (lf_lines lf)] (lf_lines lf))"

definition sort_lines :: "log_source \<Rightarrow> log_source" where
  "sort_lines s =
    (let s = fold (\<lambda>i s. fold (push_line i) (numbered (lss_files s ! i)) s) [0..<length (lss_files s)] s
     in s\<lparr>lss_index := sort_by (logline_cmp s) (lss_index s)\<rparr>)"

definition new_lines :: "log_source \<Rightarrow> (nat \<times> (nat \<times> logline) list) list" where
  "new_lines s = map (\<lambda>i. (i, drop (ld_lines_indexed (lss_files s ! i)) (numbered (lss_files s ! i))))
     (filter (\<lambda>i. ld_file_ptr (lss_files s ! i) \<noteq> None) [0..<length (lss_files s)])"

definition merge_lines :: "nat \<Rightarrow> log_source \<Rightarrow> log_source option" where
  "merge_lines files s =
     map_option (\<lambda>out. fold (\<lambda>(i, kl). push_line i kl) out s)
       (kmerge_all (\<lambda>a b. logline_less (snd a) (snd b)) files (new_lines s))"

definition all_indexed :: "log_source \<Rightarrow> log_source" where
  "all_indexed = map_files (\<lambda>ld. case ld_file_ptr ld of None \<Rightarrow> ld
     | Some lf \<Rightarrow> ld\<lparr>ld_lines_indexed := length (lf_lines lf)\<rparr>)"

section \<open>The visible lines\<close>

type_synonym marker = "nat \<Rightarrow> nat \<Rightarrow> bool option"

definition show_line :: "marker \<Rightarrow> nat \<Rightarrow> nat \<Rightarrow> log_source \<Rightarrow> log_source" where
  "show_line marker cl index_index s =
    (let s = (case marker (cl div MAX_LINES_PER_FILE) (cl mod MAX_LINES_PER_FILE) of
           None \<Rightarrow> set_line cl (\<lambda>ll. ll\<lparr>ll_expr_mark := False\<rparr>) s
         | Some matched \<Rightarrow>
             let s = set_line cl (\<lambda>ll. ll\<lparr>ll_expr_mark := matched\<rparr>) s
             in if matched
                then s\<lparr>lss_view_marks := mark_line BM_USER_EXPR (length (lss_filtered_index s)) (lss_view_marks s),
                       lss_user_marks := mark_line BM_USER_EXPR cl (lss_user_marks s)\<rparr>
                else s)
     in index_line cl (s\<lparr>lss_filtered_index := lss_filtered_index s @ [index_index]\<rparr>))"

definition filter_line :: "bool \<Rightarrow> marker \<Rightarrow> enabled_masks \<Rightarrow> nat \<Rightarrow> log_source \<Rightarrow> log_source" where
  "filter_line skip_ignored marker m index_index s =
    (let cl = ic_value (lss_index s ! index_index);
         (ld, line) = find_data cl s
     in if \<not> is_visible ld then s
        else
          let lf = the (ld_file_ptr ld) in
          if skip_ignored \<and> ll_ignore (lf_lines lf ! line) then s
          else if \<not> tss_apply_filters s then show_line marker cl index_index s
          else if excluded m line (ld_filter_state ld) then s
          else
            let (passes, s) = check_extra_filters lf line s
            in if passes then show_line marker cl index_index s else s)"

definition filter_rows :: "bool \<Rightarrow> marker \<Rightarrow> nat \<Rightarrow> log_source \<Rightarrow> log_source" where
  "filter_rows skip_ignored marker start_size s =
     fold (filter_line skip_ignored marker (get_enabled_mask (tss_filters s)))
       [start_size..<length (lss_index s)] s"

section \<open>The rebuild\<close>

text \<open>What the view is told to search again.\<close>

datatype search_action = No_search | Redo_search | Search_from nat | Search_new

definition add_lines :: "marker \<Rightarrow> bool \<Rightarrow> nat \<Rightarrow> log_source \<Rightarrow> log_source option" where
  "add_lines marker full_sort files s =
    (let start_size = length (lss_index s); s = widen s
     in map_option (\<lambda>s.
          let s = all_indexed s;
              s = (if start_size = 0 then index_start s else s)
          in filter_rows True marker start_size s)
        (if full_sort then Some (sort_lines s) else merge_lines files s))"

definition finish_rebuild ::
  "rebuild_result \<Rightarrow> nat \<Rightarrow> log_source \<Rightarrow> rebuild_result \<times> search_action \<times> log_source" where
  "finish_rebuild retval search_start s =
    (case retval of
       Rr_no_change \<Rightarrow> (retval, No_search, s)
     | Rr_full_rebuild \<Rightarrow>
         (retval, Redo_search, s\<lparr>lss_index_generation := lss_index_generation s + 1\<rparr>)
     | Rr_partial_rebuild \<Rightarrow>
         (retval, Search_from search_start, s\<lparr>lss_index_generation := lss_index_generation s + 1\<rparr>)
     | Rr_appended_lines \<Rightarrow> (retval, Search_new, s))"

definition prepare_index :: "rebuild_ctx \<Rightarrow> log_source \<Rightarrow> (rebuild_ctx \<times> log_source) option" where
  "prepare_index c s =
    (let (grown, s) = reserve_index (total_lines s) s;
         c = (if grown then force_full c else c);
         s = (if grown then s\<lparr>tss_level_filtered_count := 0\<rparr> else s)
     in if rc_force c then Some (c, reset_index s)
        else if rc_retval c = Rr_partial_rebuild
        then map_option (Pair c) (cut_index (the (rc_lowest c)) s)
        else Some (c, s))"

definition start_rebuild :: "log_source \<Rightarrow> rebuild_ctx \<times> log_source" where
  "start_rebuild s =
    (let force = lss_force_rebuild s;
         c = \<lparr>rc_retval = Rr_no_change, rc_force = force, rc_full_sort = (lss_index s = []),
              rc_lowest = None\<rparr>;
         s = s\<lparr>lss_force_rebuild := False\<rparr>
     in if force then (force_full c, s\<lparr>tss_level_filtered_count := 0, lss_index := []\<rparr>) else (c, s))"

definition rebuild_index ::
  "bool \<Rightarrow> nat \<Rightarrow> scans \<Rightarrow> marker \<Rightarrow> log_source \<Rightarrow> (rebuild_result \<times> search_action \<times> log_source) option" where
  "rebuild_index is_paused max_threads scans marker s =
    (let (c, s) = start_rebuild s;
         files = file_count s;
         (s, c, time_left) = scan_files is_paused max_threads scans s c
     in case prepare_index c s of
          None \<Rightarrow> None
        | Some (c, s) \<Rightarrow>
            let search_start = (if rc_force c then 0 else length (lss_filtered_index s)) in
            if lss_index s = [] \<and> \<not> time_left
            then Some (Rr_appended_lines, No_search, s\<lparr>lss_force_rebuild := True\<rparr>)
            else if rc_retval c \<noteq> Rr_no_change \<or> rc_force c
            then map_option (finish_rebuild (rc_retval c) search_start)
                   (add_lines marker (rc_full_sort c) files s)
            else Some (finish_rebuild (rc_retval c) search_start s))"

section \<open>Changed filters and marks\<close>

text \<open>
  \<open>reobserve\<close> gives the filter state of a file after its lines from the one of the lowest count on
  were fed to the filters again.
\<close>

definition invalidate_sql_filter :: "log_source \<Rightarrow> log_source" where
  "invalidate_sql_filter =
     map_files (\<lambda>ld. ld\<lparr>ld_filter_state := clear_filter_state 0 (ld_filter_state ld)\<rparr>)"

definition refresh_file ::
  "filter_stack \<Rightarrow> (nat \<Rightarrow> filter_state \<Rightarrow> filter_state) \<Rightarrow> nat \<times> logfile_data \<Rightarrow> logfile_data" where
  "refresh_file fs reobserve ild =
    (let (i, ld) = ild in
     case ld_file_ptr ld of
       None \<Rightarrow> ld
     | Some lf \<Rightarrow> ld\<lparr>ld_filter_state := reobserve i (observer_clear_deleted fs (ld_filter_state ld))\<rparr>)"

definition refresh_filters :: "(nat \<Rightarrow> filter_state \<Rightarrow> filter_state) \<Rightarrow> log_source \<Rightarrow> log_source" where
  "refresh_filters reobserve s =
    (let s = (if lss_line_meta_changed s
              then (invalidate_sql_filter s)\<lparr>lss_line_meta_changed := False\<rparr> else s)
     in s\<lparr>lss_files := map (refresh_file (tss_filters s) reobserve)
          (zip [0..<length (lss_files s)] (lss_files s))\<rparr>)"

definition text_filters_changed ::
  "marker \<Rightarrow> (nat \<Rightarrow> filter_state \<Rightarrow> filter_state) \<Rightarrow> log_source \<Rightarrow> log_source" where
  "text_filters_changed marker reobserve s =
    (let s = s\<lparr>lss_index_generation := lss_index_generation s + 1, tss_level_filtered_count := 0\<rparr>;
         s = refresh_filters reobserve s
     in if lss_force_rebuild s then s
        else
          let s = index_start s;
              s = s\<lparr>lss_view_marks := (lss_view_marks s)(BM_USER_EXPR := bv_clear (lss_view_marks s BM_USER_EXPR)),
                    lss_filtered_index := []\<rparr>
          in filter_rows False marker 0 s)"

definition set_marked_only ::
  "marker \<Rightarrow> (nat \<Rightarrow> filter_state \<Rightarrow> filter_state) \<Rightarrow> bool \<Rightarrow> log_source \<Rightarrow> log_source" where
  "set_marked_only marker reobserve val s =
    (if lss_marked_only s \<noteq> val
     then text_filters_changed marker reobserve (s\<lparr>lss_marked_only := val\<rparr>) else s)"

definition mark_row :: "mark_type list \<Rightarrow> log_source \<Rightarrow> nat \<Rightarrow> marks \<times> nat option \<Rightarrow> marks \<times> nat option" where
  "mark_row used_marks s vl st =
    (let (bm, last_file) = st;
         orig_ic = lss_index s ! (lss_filtered_index s ! vl);
         cl = ic_value orig_ic;
         lf = map_option lf_id (fst (find_file_ptr cl s));
         bm = fold (\<lambda>bmt bm. if bv_contains (int cl) (lss_user_marks s bmt) then mark_line bmt vl bm else bm)
                used_marks bm;
         bm = (if lf \<noteq> last_file then mark_line BM_FILES vl bm else bm);
         bm = (case ic_level orig_ic of
                 Warning_level \<Rightarrow> mark_line BM_WARNINGS vl bm
               | Error_level \<Rightarrow> mark_line BM_ERRORS vl bm
               | Normal_level \<Rightarrow> bm)
     in (bm, lf))"

definition user_mark_types :: "mark_type list" where
  "user_mark_types = [BM_USER, BM_USER_EXPR, BM_PARTITION, BM_META, BM_STICKY]"

definition text_update_marks :: "log_source \<Rightarrow> marks \<Rightarrow> marks" where
  "text_update_marks s bm =
    (let bm = fold (\<lambda>bmt bm. bm(bmt := bv_clear (bm bmt)))
                ([BM_WARNINGS, BM_ERRORS, BM_FILES] @ user_mark_types) bm;
         used_marks = filter (\<lambda>bmt. bv_tree (lss_user_marks s bmt) \<noteq> []) user_mark_types
     in fst (fold (mark_row used_marks s) [0..<length (lss_filtered_index s)] (bm, None)))"

definition reload_index_delegate :: "log_source \<Rightarrow> log_source" where
  "reload_index_delegate s = (if lss_delegate s = None then s else reload_rows s)"

end
