(* ===== verification/Log_Index_Spec.thy ===== *)
theory Log_Index_Spec
  imports Log_Index
begin

text \<open>
  What \<open>rebuild_index\<close> promises: the index holds every line of every open file that is not ignored
  once, in the order of time, whichever of the three ways (a full sort, a partial rebuild from the
  lowest new time on, or a merge of the new lines alone) it takes.
\<close>

section \<open>The lines of the files\<close>

text \<open>The rebuild itself changes the expression marks and the metadata of lines, and nothing else.\<close>

definition bare :: "logline \<Rightarrow> logline" where
  "bare ll = ll\<lparr>ll_expr_mark := False\<rparr>"

lemma bare_sel [simp]:
  "ll_time (bare ll) = ll_time ll" "ll_ignore (bare ll) = ll_ignore ll"
  "level_from_log (bare ll) = level_from_log ll" "get_timeval (bare ll) = get_timeval ll"
  "ll_less_tv (bare ll) t = ll_less_tv ll t" "ll_meta_mark (bare ll) = ll_meta_mark ll"
  by (simp_all add: bare_def level_from_log_def is_message_def get_timeval_def ll_less_tv_def)

lemma bare_update [simp]: "bare (ll\<lparr>ll_expr_mark := b\<rparr>) = bare ll"
  by (simp add: bare_def)

lemma new_content_bare [simp]: "new_content cl (bare ll) = new_content cl ll"
  by (simp add: new_content_def)

lemma logline_less_bare [simp]: "logline_less (bare a) (bare b) = logline_less a b"
  by (simp add: logline_less_def bare_def)

type_synonym file_view = "nat \<times> nat \<times> logline list option"

definition view :: "logfile_data \<Rightarrow> file_view" where
  "view ld = (ld_file_index ld, ld_lines_indexed ld, map_option (map bare \<circ> lf_lines) (ld_file_ptr ld))"

definition views :: "log_source \<Rightarrow> file_view list" where
  "views s = map view (lss_files s)"

definition view_lines :: "file_view \<Rightarrow> logline list" where
  "view_lines v = (case snd (snd v) of None \<Rightarrow> [] | Some ls \<Rightarrow> ls)"

lemma length_views [simp]: "length (views s) = length (lss_files s)"
  by (simp add: views_def)

lemma nth_views: "i < length (lss_files s) \<Longrightarrow> views s ! i = view (lss_files s ! i)"
  by (simp add: views_def)

text \<open>Lines are named by their file and their place in it.\<close>

definition line_in :: "file_view list \<Rightarrow> nat \<times> nat \<Rightarrow> logline" where
  "line_in vs p = view_lines (vs ! fst p) ! snd p"

definition entry_of :: "file_view list \<Rightarrow> nat \<times> nat \<Rightarrow> indexed_content" where
  "entry_of vs p = new_content (content_line (fst p) (snd p)) (line_in vs p)"

definition places :: "file_view list \<Rightarrow> (nat \<times> nat) set" where
  "places vs = {(i, k). i < length vs \<and> k < length (view_lines (vs ! i))
     \<and> k < fst (snd (vs ! i)) \<and> \<not> ll_ignore (line_in vs (i, k))}"

definition time_sorted :: "file_view list \<Rightarrow> (nat \<times> nat) list \<Rightarrow> bool" where
  "time_sorted vs = sorted_wrt (\<lambda>p q. ll_time (line_in vs p) \<le> ll_time (line_in vs q))"

text \<open>
  The limits of the encoding (2,048 files: 38 bits for a value), and the files in the order of their
  lines.
\<close>

definition files_ok :: "file_view list \<Rightarrow> bool" where
  "files_ok vs \<longleftrightarrow> length vs \<le> 2048 \<and> (\<forall>i<length vs. fst (vs ! i) = i
     \<and> length (view_lines (vs ! i)) \<le> MAX_LINES_PER_FILE
     \<and> sorted_wrt (\<lambda>a b. \<not> logline_less b a) (view_lines (vs ! i)))"

definition index_ok :: "log_source \<Rightarrow> bool" where
  "index_ok s \<longleftrightarrow> (\<exists>ps. lss_index s = map (entry_of (views s)) ps \<and> distinct ps
     \<and> set ps = places (views s) \<and> time_sorted (views s) ps)"

section \<open>Content lines\<close>

lemma content_line_div_mod:
  "k < MAX_LINES_PER_FILE \<Longrightarrow> content_line i k div MAX_LINES_PER_FILE = i
    \<and> content_line i k mod MAX_LINES_PER_FILE = k"
  by (simp add: content_line_def MAX_LINES_PER_FILE_def)

lemma content_line_bound:
  "i < 2048 \<Longrightarrow> k < MAX_LINES_PER_FILE \<Longrightarrow> content_line i k < 2 ^ 38"
  by (simp add: content_line_def MAX_LINES_PER_FILE_def)

lemma ic_value_new: "i < 2048 \<Longrightarrow> k < MAX_LINES_PER_FILE \<Longrightarrow>
    ic_value (new_content (content_line i k) ll) = content_line i k"
  using content_line_bound by (simp add: new_content_def)

definition place_ok :: "file_view list \<Rightarrow> nat \<times> nat \<Rightarrow> bool" where
  "place_ok vs p \<longleftrightarrow> fst p < length vs \<and> snd p < length (view_lines (vs ! fst p))"

lemma place_ok_places: "p \<in> places vs \<Longrightarrow> place_ok vs p"
  by (auto simp: places_def place_ok_def)

lemma ic_value_entry:
  "files_ok vs \<Longrightarrow> place_ok vs p \<Longrightarrow> ic_value (entry_of vs p) = content_line (fst p) (snd p)"
  by (auto simp: files_ok_def place_ok_def entry_of_def intro!: ic_value_new)

text \<open>Looking up an entry gives its line.\<close>

lemma find_line_entry:
  assumes "files_ok (views s)" and "place_ok (views s) p"
  shows "map_option bare (find_line (ic_value (entry_of (views s) p)) s) = Some (line_in (views s) p)"
proof -
  have i: "fst p < length (lss_files s)" using assms(2) by (simp add: place_ok_def)
  have k: "snd p < MAX_LINES_PER_FILE"
    using assms i by (auto simp: files_ok_def place_ok_def dest!: spec [of _ "fst p"])
  have v: "ic_value (entry_of (views s) p) = content_line (fst p) (snd p)"
    using assms by (rule ic_value_entry)
  note dm = content_line_div_mod [OF k, of "fst p"]
  show ?thesis using assms(2) i
    by (cases "ld_file_ptr (lss_files s ! fst p)")
      (auto simp: find_line_def find_file_ptr_def v dm line_in_def nth_views view_def view_lines_def
        place_ok_def)
qed

lemma ic_line_entry:
  assumes "files_ok (views s)" and "place_ok (views s) p"
  shows "bare (ic_line s (entry_of (views s) p)) = line_in (views s) p"
  using find_line_entry [OF assms] by (auto simp: ic_line_def)

section \<open>Pushing lines\<close>

lemma view_metadata: "ld_file_ptr ld = Some lf \<Longrightarrow>
    view (ld\<lparr>ld_file_ptr := Some (lf\<lparr>lf_metadata := m\<rparr>)\<rparr>) = view ld"
  by (simp add: view_def)

lemma map_update_id: "f y = f (xs ! i) \<Longrightarrow> map f (xs[i := y]) = map f xs"
  by (metis list_update_id map_update)

lemma mark_metadata_frame:
  assumes "ld_file_ptr (lss_files s ! i) \<noteq> None"
  shows "views (mark_metadata i k s) = views s" and "lss_index (mark_metadata i k s) = lss_index s"
    and "lss_filtered_index (mark_metadata i k s) = lss_filtered_index s"
proof -
  obtain lf where "ld_file_ptr (lss_files s ! i) = Some lf" using assms by blast
  then show "views (mark_metadata i k s) = views s" and "lss_index (mark_metadata i k s) = lss_index s"
    and "lss_filtered_index (mark_metadata i k s) = lss_filtered_index s"
    by (auto simp: mark_metadata_def Let_def views_def intro!: map_update_id view_metadata)
qed

definition open_view :: "file_view \<Rightarrow> bool" where
  "open_view v \<longleftrightarrow> snd (snd v) \<noteq> None"

lemma open_view_iff: "i < length (lss_files s) \<Longrightarrow>
    open_view (views s ! i) \<longleftrightarrow> ld_file_ptr (lss_files s ! i) \<noteq> None"
  by (simp add: open_view_def nth_views view_def)

lemma push_line_frame:
  assumes "i < length (lss_files s)" and "open_view (views s ! i)"
  shows "views (push_line i (k, ll) s) = views s"
    and "lss_filtered_index (push_line i (k, ll) s) = lss_filtered_index s"
    and "lss_index (push_line i (k, ll) s) = lss_index s @
      (if ll_ignore ll then [] else [new_content (content_line (fst (views s ! i)) k) ll])"
proof -
  have o: "ld_file_ptr (lss_files s ! i) \<noteq> None" using assms by (simp add: open_view_iff)
  note f = mark_metadata_frame [OF o, of k]
  have x: "views (s'\<lparr>lss_index := xs\<rparr>) = views s'" for s' :: log_source and xs
    by (simp add: views_def)
  show "views (push_line i (k, ll) s) = views s"
    and "lss_filtered_index (push_line i (k, ll) s) = lss_filtered_index s"
    and "lss_index (push_line i (k, ll) s) = lss_index s @
      (if ll_ignore ll then [] else [new_content (content_line (fst (views s ! i)) k) ll])"
    using f assms(1) by (auto simp: push_line_def Let_def x nth_views view_def)
qed

lemma push_lines_frame:
  assumes "\<forall>(i, k, ll) \<in> set xs. i < length (lss_files s) \<and> open_view (views s ! i)"
  shows "views (fold (\<lambda>(i, kl). push_line i kl) xs s) = views s
    \<and> lss_filtered_index (fold (\<lambda>(i, kl). push_line i kl) xs s) = lss_filtered_index s
    \<and> lss_index (fold (\<lambda>(i, kl). push_line i kl) xs s) = lss_index s @
      map (\<lambda>(i, k, ll). new_content (content_line (fst (views s ! i)) k) ll)
        (filter (\<lambda>(i, k, ll). \<not> ll_ignore ll) xs)"
  using assms
proof (induction xs arbitrary: s)
  case (Cons x xs)
  obtain i k ll where x: "x = (i, k, ll)" by (cases x) auto
  have o: "i < length (lss_files s)" "open_view (views s ! i)" using Cons.prems x by auto
  note f = push_line_frame [OF o, of k ll]
  have "length (lss_files (push_line i (k, ll) s)) = length (lss_files s)"
    using arg_cong [OF f(1), of length] by simp
  with Cons.IH [of "push_line i (k, ll) s"] Cons.prems f show ?case by (auto simp: x)
qed simp

section \<open>The places of the new lines\<close>

definition file_places :: "file_view list \<Rightarrow> nat \<Rightarrow> nat \<Rightarrow> (nat \<times> nat) list" where
  "file_places vs i n = map (Pair i)
     (filter (\<lambda>k. \<not> ll_ignore (line_in vs (i, k))) [n..<length (view_lines (vs ! i))])"

definition new_places :: "file_view list \<Rightarrow> (nat \<Rightarrow> nat) \<Rightarrow> (nat \<times> nat) list" where
  "new_places vs n = concat (map (\<lambda>i. file_places vs i (n i)) [0..<length vs])"

lemma set_new_places: "set (new_places vs n) = {(i, k). i < length vs
    \<and> n i \<le> k \<and> k < length (view_lines (vs ! i)) \<and> \<not> ll_ignore (line_in vs (i, k))}"
  by (auto simp: new_places_def file_places_def)

lemma distinct_new_places: "distinct (new_places vs n)"
proof -
  have "distinct (concat (map (\<lambda>i. file_places vs i (n i)) [0..<m]))" for m
    by (induction m) (auto simp: file_places_def distinct_map inj_on_def)
  then show ?thesis by (simp add: new_places_def)
qed

lemma place_ok_new: "p \<in> set (new_places vs n) \<Longrightarrow> place_ok vs p"
  by (auto simp: set_new_places place_ok_def)

lemma numbered_eq:
  "i < length (lss_files s) \<Longrightarrow>
   map (\<lambda>(k, ll). (k, bare ll)) (numbered (lss_files s ! i)) =
     map (\<lambda>k. (k, line_in (views s) (i, k))) [0..<length (view_lines (views s ! i))]"
  by (auto simp: numbered_def nth_views view_def view_lines_def line_in_def
      intro!: nth_equalityI split: option.split)

lemma push_file:
  assumes "i < length (lss_files s)" and "files_ok (views s)"
  shows "views (fold (push_line i) (drop n (numbered (lss_files s ! i))) s) = views s
    \<and> lss_filtered_index (fold (push_line i) (drop n (numbered (lss_files s ! i))) s) = lss_filtered_index s
    \<and> lss_index (fold (push_line i) (drop n (numbered (lss_files s ! i))) s) =
        lss_index s @ map (entry_of (views s)) (file_places (views s) i n)"
proof -
  let ?kls = "drop n (numbered (lss_files s ! i))" and ?vs = "views s"
  have f: "fold (push_line i) ?kls s = fold (\<lambda>(i, kl). push_line i kl) (map (Pair i) ?kls) s"
    by (simp add: fold_map o_def)
  have o: "\<forall>(j, k, ll) \<in> set (map (Pair i) ?kls). j < length (lss_files s) \<and> open_view (?vs ! j)"
  proof (cases "ld_file_ptr (lss_files s ! i)")
    case None
    then have "numbered (lss_files s ! i) = []" by (simp add: numbered_def)
    then show ?thesis by simp
  next
    case (Some lf)
    then show ?thesis using assms(1) by (auto simp: open_view_iff)
  qed
  have i: "fst (?vs ! i) = i" using assms by (simp add: files_ok_def)
  have "map (\<lambda>(k, ll). new_content (content_line i k) ll) (filter (\<lambda>(k, ll). \<not> ll_ignore ll) ?kls)
      = map (\<lambda>(k, ll). new_content (content_line i k) ll)
          (filter (\<lambda>(k, ll). \<not> ll_ignore ll) (map (\<lambda>(k, ll). (k, bare ll)) ?kls))"
    by (simp add: filter_map o_def case_prod_unfold)
  also have "map (\<lambda>(k, ll). (k, bare ll)) ?kls =
      map (\<lambda>k. (k, line_in ?vs (i, k))) [n..<length (view_lines (?vs ! i))]"
    by (simp only: drop_map [symmetric] numbered_eq [OF assms(1)]) (simp add: drop_map)
  finally have e: "map (\<lambda>(k, ll). new_content (content_line i k) ll) (filter (\<lambda>(k, ll). \<not> ll_ignore ll) ?kls)
      = map (entry_of ?vs) (file_places ?vs i n)"
    by (simp add: filter_map o_def entry_of_def file_places_def)
  show ?thesis using push_lines_frame [OF o] i e
    by (simp add: f filter_map o_def case_prod_unfold)
qed

text \<open>An entry tells its place.\<close>

definition place_of :: "indexed_content \<Rightarrow> nat \<times> nat" where
  "place_of ic = (ic_value ic div MAX_LINES_PER_FILE, ic_value ic mod MAX_LINES_PER_FILE)"

lemma place_of_entry: "files_ok vs \<Longrightarrow> place_ok vs p \<Longrightarrow> place_of (entry_of vs p) = p"
  using content_line_div_mod [of "snd p" "fst p"]
  by (auto simp: place_of_def ic_value_entry) (auto simp: files_ok_def place_ok_def)

lemma permuted_entries:
  assumes "files_ok vs" and "\<forall>p\<in>set ps. place_ok vs p" and "mset xs = mset (map (entry_of vs) ps)"
  shows "xs = map (entry_of vs) (map place_of xs)" and "mset (map place_of xs) = mset ps"
proof -
  have s: "set xs = entry_of vs ` set ps" using mset_eq_setD [OF assms(3)] by simp
  have "entry_of vs (place_of x) = x" if "x \<in> set xs" for x
    using that assms(1,2) unfolding s by (auto simp: place_of_entry)
  then show "xs = map (entry_of vs) (map place_of xs)" by (simp add: map_idI)
  have "mset (map place_of xs) = image_mset place_of (mset (map (entry_of vs) ps))"
    by (simp only: mset_map [of place_of] assms(3))
  also have "\<dots> = mset (map (place_of \<circ> entry_of vs) ps)" by (simp add: multiset.map_comp)
  also have "map (place_of \<circ> entry_of vs) ps = ps"
    using assms(1,2) by (intro map_idI) (simp add: place_of_entry)
  finally show "mset (map place_of xs) = mset ps" .
qed

section \<open>The full sort\<close>

lemma mset_insort_by: "mset (insort_by lt x ys) = add_mset x (mset ys)"
  by (induction ys) auto

lemma mset_sort_by: "mset (sort_by lt xs) = mset xs"
  unfolding sort_by_def by (induction xs) (auto simp: mset_insort_by)

lemma set_insort_by: "set (insort_by lt x ys) = insert x (set ys)"
  by (induction ys) auto

context merge_order
begin

lemma in_order_insort: "in_order ys \<Longrightarrow> in_order (insort_by cmp x ys)"
proof (induction ys)
  case (Cons y ys)
  show ?case
  proof (cases "cmp y x")
    case True
    with Cons asym [of y x] show ?thesis by (auto simp: in_order_def set_insort_by)
  next
    case False
    have "\<not> cmp z x" if "z \<in> set ys" for z
      using Cons.prems that False not_cmp_trans [of z y x] by (auto simp: in_order_def)
    with False Cons.prems show ?thesis by (auto simp: in_order_def)
  qed
qed (simp add: in_order_def)

lemma in_order_Nil: "in_order []"
  by (simp add: in_order_def)

lemma in_order_sort_by: "in_order (sort_by cmp xs)"
  unfolding sort_by_def by (induction xs) (simp_all add: in_order_insort in_order_Nil)

end

interpretation ic_order: merge_order "logline_cmp s" for s
  by unfold_locales (auto simp: logline_cmp_def logline_less_def)

text \<open>A permutation of the entries of some places that is in the order of the lines.\<close>

definition entries_for :: "file_view list \<Rightarrow> (nat \<times> nat) list \<Rightarrow> indexed_content list \<Rightarrow> bool" where
  "entries_for vs ps xs \<longleftrightarrow> (\<exists>qs. xs = map (entry_of vs) qs \<and> mset qs = mset ps \<and> time_sorted vs qs)"

lemma sort_lines_entries:
  assumes "files_ok (views s)" and "lss_index s = []"
  shows "views (sort_lines s) = views s" and "lss_filtered_index (sort_lines s) = lss_filtered_index s"
    and "entries_for (views s) (new_places (views s) (\<lambda>_. 0)) (lss_index (sort_lines s))"
proof -
  let ?f = "\<lambda>i s. fold (push_line i) (numbered (lss_files s ! i)) s"
  have pushed: "views (fold ?f [0..<m] s) = views s
    \<and> lss_filtered_index (fold ?f [0..<m] s) = lss_filtered_index s
    \<and> lss_index (fold ?f [0..<m] s) =
        map (entry_of (views s)) (concat (map (\<lambda>i. file_places (views s) i 0) [0..<m]))"
    if "m \<le> length (lss_files s)" for m
    using that
  proof (induction m)
    case (Suc m)
    let ?s = "fold ?f [0..<m] s"
    have v: "views ?s = views s" using Suc by simp
    have "length (lss_files ?s) = length (lss_files s)" using arg_cong [OF v, of length] by simp
    then have "m < length (lss_files ?s)" using Suc.prems by simp
    from push_file [OF this, of 0] assms(1) v Suc show ?case by simp
  qed (simp add: assms(2))
  define s1 where "s1 = fold ?f [0..<length (lss_files s)] s"
  have s1: "views s1 = views s" "lss_filtered_index s1 = lss_filtered_index s"
    "lss_index s1 = map (entry_of (views s)) (new_places (views s) (\<lambda>_. 0))"
    using pushed [of "length (lss_files s)"] by (simp_all add: s1_def new_places_def)
  have sorted: "sort_lines s = s1\<lparr>lss_index := sort_by (logline_cmp s1) (lss_index s1)\<rparr>"
    by (simp add: sort_lines_def Let_def s1_def)
  show "views (sort_lines s) = views s" and "lss_filtered_index (sort_lines s) = lss_filtered_index s"
    using s1 by (simp_all add: sorted views_def)
  let ?xs = "sort_by (logline_cmp s1) (lss_index s1)" and ?ps = "new_places (views s) (\<lambda>_. 0)"
  have ok: "\<forall>p\<in>set ?ps. place_ok (views s) p" using place_ok_new by blast
  have "mset ?xs = mset (map (entry_of (views s)) ?ps)" by (simp add: mset_sort_by s1(3))
  from permuted_entries [OF assms(1) ok this] have
    xs: "?xs = map (entry_of (views s)) (map place_of ?xs)" and qs: "mset (map place_of ?xs) = mset ?ps"
    by auto
  have place: "place_ok (views s) p" if "p \<in> set (map place_of ?xs)" for p
    using that ok mset_eq_setD [OF qs] by blast
  have "sorted_wrt (\<lambda>a b. \<not> logline_cmp s1 b a) (map (entry_of (views s)) (map place_of ?xs))"
    using ic_order.in_order_sort_by [of s1 "lss_index s1"] xs by (simp only: ic_order.in_order_def)
  then have "sorted_wrt (\<lambda>p q. \<not> logline_cmp s1 (entry_of (views s) q) (entry_of (views s) p))
      (map place_of ?xs)"
    by (simp only: sorted_wrt_map)
  then have "time_sorted (views s) (map place_of ?xs)"
    unfolding time_sorted_def
  proof (rule sorted_wrt_mono_rel [rotated])
    fix p q
    assume pq: "p \<in> set (map place_of ?xs)" "q \<in> set (map place_of ?xs)"
      and c: "\<not> logline_cmp s1 (entry_of (views s) q) (entry_of (views s) p)"
    have l: "bare (ic_line s1 (entry_of (views s) r)) = line_in (views s) r"
      if "r \<in> set (map place_of ?xs)" for r
      using ic_line_entry [of s1 r] s1(1) assms(1) place [OF that] by simp
    have "\<not> logline_less (line_in (views s) q) (line_in (views s) p)"
      using c by (simp add: logline_cmp_def l [OF pq(1), symmetric] l [OF pq(2), symmetric])
    then show "ll_time (line_in (views s) p) \<le> ll_time (line_in (views s) q)"
      by (rule not_logline_less_time)
  qed
  moreover have "lss_index (sort_lines s) = ?xs" by (simp add: sorted)
  ultimately show "entries_for (views s) ?ps (lss_index (sort_lines s))"
    unfolding entries_for_def using xs qs by (intro exI [of _ "map place_of ?xs"]) (simp only: simp_thms)
qed

section \<open>The merge of the new lines\<close>

lemma new_lines_in_order:
  assumes "files_ok (views s)"
  shows "\<forall>(i, xs) \<in> set (new_lines s). sorted_wrt (\<lambda>a b. \<not> logline_less (snd b) (snd a)) xs"
proof -
  have "sorted_wrt (\<lambda>a b. \<not> logline_less (snd b) (snd a)) (drop n (numbered (lss_files s ! i)))"
    if i: "i < length (lss_files s)" for i n
  proof -
    have "sorted_wrt (\<lambda>a b. \<not> logline_less b a) (view_lines (views s ! i))"
      using assms i by (simp add: files_ok_def)
    moreover have "map (bare \<circ> snd) (numbered (lss_files s ! i)) = view_lines (views s ! i)"
      using i by (auto simp: numbered_def nth_views view_def view_lines_def map_snd_zip
        simp flip: map_map split: option.split)
    ultimately have "sorted_wrt (\<lambda>a b. \<not> logline_less b a)
        (drop n (map (bare \<circ> snd) (numbered (lss_files s ! i))))"
      by (simp only: sorted_wrt_drop)
    then show ?thesis by (simp add: drop_map sorted_wrt_map)
  qed
  then show ?thesis by (auto simp: new_lines_def)
qed

lemma length_new_lines: "length (new_lines s) = length (filter (\<lambda>ld. ld_file_ptr ld \<noteq> None) (lss_files s))"
proof -
  have "length (filter (\<lambda>i. P (xs ! i)) [0..<length xs]) = length (filter P xs)" for P and xs :: "'b list"
    using distinct_card [of "filter (\<lambda>i. P (xs ! i)) [0..<length xs]"]
    by (simp add: length_filter_conv_card)
  then show ?thesis by (simp add: new_lines_def)
qed

text \<open>The place and the line of what comes out of the merge.\<close>

lemma merged_mset:
  "image_mset (\<lambda>(i, k, ll). (i, k, bare ll)) (\<Sum>(i, xs)\<leftarrow>new_lines s. mset (map (Pair i) xs))
   = mset (concat (map (\<lambda>i. map (\<lambda>k. (i, k, line_in (views s) (i, k)))
       [ld_lines_indexed (lss_files s ! i)..<length (view_lines (views s ! i))])
       [0..<length (lss_files s)]))"
proof -
  let ?n = "\<lambda>i. ld_lines_indexed (lss_files s ! i)"
  let ?one = "\<lambda>i. map (\<lambda>k. (i, k, line_in (views s) (i, k))) [?n i..<length (view_lines (views s ! i))]"
  have one: "map (\<lambda>(i, k, ll). (i, k, bare ll)) (map (Pair i) (drop (?n i) (numbered (lss_files s ! i)))) = ?one i"
    if i: "i < length (lss_files s)" for i
  proof -
    have "map (\<lambda>(k, ll). (k, bare ll)) (drop (?n i) (numbered (lss_files s ! i)))
        = map (\<lambda>k. (k, line_in (views s) (i, k))) [?n i..<length (view_lines (views s ! i))]"
      by (simp only: drop_map [symmetric] numbered_eq [OF i]) (simp add: drop_map)
    from arg_cong [OF this, of "map (Pair i)"] show ?thesis by (simp add: o_def case_prod_unfold)
  qed
  have "image_mset (\<lambda>(i, k, ll). (i, k, bare ll))
      (\<Sum>(i, xs)\<leftarrow>map (\<lambda>i. (i, drop (?n i) (numbered (lss_files s ! i))))
         (filter (\<lambda>i. ld_file_ptr (lss_files s ! i) \<noteq> None) is). mset (map (Pair i) xs))
      = mset (concat (map ?one is))"
    if "\<forall>i\<in>set is. i < length (lss_files s)" for "is"
    using that
  proof (induction "is")
    case (Cons i "is")
    have e: "?one i = []" if "ld_file_ptr (lss_files s ! i) = None"
      using one [of i] Cons.prems that by (simp add: numbered_def)
    have m: "image_mset (\<lambda>(i, k, ll). (i, k, bare ll))
        (mset (map (Pair i) (drop (?n i) (numbered (lss_files s ! i))))) = mset (?one i)"
      using one [of i] Cons.prems by (simp only: mset_map [symmetric]) simp
    show ?case
    proof (cases "ld_file_ptr (lss_files s ! i) = None")
      case True
      with e Cons show ?thesis by auto
    next
      case False
      with m Cons show ?thesis by (simp add: case_prod_unfold)
    qed
  qed simp
  from this [of "[0..<length (lss_files s)]"] show ?thesis by (simp add: new_lines_def)
qed

definition indexed_of :: "file_view list \<Rightarrow> nat \<Rightarrow> nat" where
  "indexed_of vs i = fst (snd (vs ! i))"

lemma indexed_of_views: "i < length (lss_files s) \<Longrightarrow> indexed_of (views s) i = ld_lines_indexed (lss_files s ! i)"
  by (simp add: indexed_of_def nth_views view_def)

lemma new_places_concat:
  "new_places vs n = map (\<lambda>(i, k, l). (i, k)) (filter (\<lambda>(i, k, l). \<not> ll_ignore l)
     (concat (map (\<lambda>i. map (\<lambda>k. (i, k, line_in vs (i, k))) [n i..<length (view_lines (vs ! i))])
       [0..<length vs])))"
  by (simp add: new_places_def file_places_def filter_concat map_concat filter_map o_def)

lemma merge_lines_entries:
  assumes ok: "files_ok (views s)" and n: "length (new_lines s) \<le> files"
  shows "\<exists>s' xs. merge_lines files s = Some s' \<and> views s' = views s
    \<and> lss_filtered_index s' = lss_filtered_index s \<and> lss_index s' = lss_index s @ xs
    \<and> entries_for (views s) (new_places (views s) (indexed_of (views s))) xs"
proof -
  let ?vs = "views s" and ?cmp = "\<lambda>a b. logline_less (snd a) (snd b)"
  let ?one = "\<lambda>i. map (\<lambda>k. (i, k, line_in ?vs (i, k)))
    [ld_lines_indexed (lss_files s ! i)..<length (view_lines (?vs ! i))]"
  obtain out where out: "kmerge_all ?cmp files (new_lines s) = Some out"
    "mset out = (\<Sum>(i, xs)\<leftarrow>new_lines s. mset (map (Pair i) xs))"
    "sorted_wrt (\<lambda>a b. \<not> logline_less (snd (snd b)) (snd (snd a))) out"
    using line_merge.kmerge_all_merges [OF n] new_lines_in_order [OF ok]
    by (auto simp: line_merge.in_order_def sorted_wrt_map case_prod_unfold)
  define rs where "rs = map (\<lambda>(i, k, ll). (i, k, bare ll)) out"
  have rs: "mset rs = mset (concat (map ?one [0..<length (lss_files s)]))"
    unfolding merged_mset [symmetric] by (simp add: rs_def out(2))
  then have rs_set: "set rs = set (concat (map ?one [0..<length (lss_files s)]))" by (rule mset_eq_setD)
  have out_set: "i < length (lss_files s) \<and> k < length (view_lines (?vs ! i)) \<and> bare ll = line_in ?vs (i, k)"
    if "(i, k, ll) \<in> set out" for i k ll
  proof -
    have "(i, k, bare ll) \<in> set rs" using that by (force simp: rs_def)
    then show ?thesis unfolding rs_set by auto
  qed
  have opened: "\<forall>(i, k, ll) \<in> set out. i < length (lss_files s) \<and> open_view (?vs ! i)"
  proof (clarify, intro conjI)
    fix i k ll assume "(i, k, ll) \<in> set out"
    note o = out_set [OF this]
    then show "i < length (lss_files s)" by simp
    from o have "view_lines (?vs ! i) \<noteq> []" by auto
    then show "open_view (?vs ! i)" by (auto simp: open_view_def view_lines_def split: option.splits)
  qed
  define qs where "qs = map (\<lambda>(i, k, l). (i, k)) (filter (\<lambda>(i, k, l). \<not> ll_ignore l) rs)"
  have q0: "qs = map (\<lambda>(i, k, ll). (i, k)) (filter (\<lambda>(i, k, ll). \<not> ll_ignore ll) out)"
    by (simp add: qs_def rs_def filter_map o_def case_prod_unfold)
  have entry: "new_content (content_line (fst (?vs ! i)) k) ll = entry_of ?vs (i, k)"
    if "(i, k, ll) \<in> set out" for i k ll
  proof -
    note o = out_set [OF that]
    then have "fst (?vs ! i) = i" using ok by (simp add: files_ok_def)
    with o show ?thesis using new_content_bare [of "content_line i k" ll] by (simp add: entry_of_def)
  qed
  let ?s = "fold (\<lambda>(i, kl). push_line i kl) out s"
  have "lss_index ?s = lss_index s @ map (entry_of ?vs) qs"
    using push_lines_frame [OF opened] entry unfolding q0 by (auto simp: case_prod_unfold)
  moreover have "mset qs = mset (new_places ?vs (indexed_of ?vs))"
  proof -
    have "mset qs = image_mset (\<lambda>(i, k, l). (i, k)) (filter_mset (\<lambda>(i, k, l). \<not> ll_ignore l) (mset rs))"
      by (simp add: qs_def)
    also have "\<dots> = mset (map (\<lambda>(i, k, l). (i, k)) (filter (\<lambda>(i, k, l). \<not> ll_ignore l)
        (concat (map ?one [0..<length (lss_files s)]))))"
      unfolding rs by simp
    also have "concat (map ?one [0..<length (lss_files s)]) = concat (map (\<lambda>i. map (\<lambda>k. (i, k, line_in ?vs (i, k)))
        [indexed_of ?vs i..<length (view_lines (?vs ! i))]) [0..<length ?vs])"
      by (intro arg_cong [of _ _ concat] map_cong) (simp_all add: indexed_of_views)
    finally show ?thesis unfolding new_places_concat .
  qed
  moreover have "time_sorted ?vs qs"
  proof -
    have "sorted_wrt (\<lambda>a b. ll_time (line_in ?vs (fst a, fst (snd a))) \<le> ll_time (line_in ?vs (fst b, fst (snd b))))
        (filter (\<lambda>(i, k, ll). \<not> ll_ignore ll) out)"
    proof (rule sorted_wrt_mono_rel [OF _ sorted_wrt_filter [OF out(3)]])
      fix a b assume ab: "a \<in> set (filter (\<lambda>(i, k, ll). \<not> ll_ignore ll) out)"
        "b \<in> set (filter (\<lambda>(i, k, ll). \<not> ll_ignore ll) out)"
        and c: "\<not> logline_less (snd (snd b)) (snd (snd a))"
      have t: "ll_time (line_in ?vs (fst x, fst (snd x))) = ll_time (snd (snd x))"
        if "x \<in> set (filter (\<lambda>(i, k, ll). \<not> ll_ignore ll) out)" for x
        using out_set [of "fst x" "fst (snd x)" "snd (snd x)"] that bare_sel(1) [of "snd (snd x)"] by simp
      show "ll_time (line_in ?vs (fst a, fst (snd a))) \<le> ll_time (line_in ?vs (fst b, fst (snd b)))"
        using not_logline_less_time [OF c] t [OF ab(1)] t [OF ab(2)] by simp
    qed
    then show ?thesis unfolding time_sorted_def q0 sorted_wrt_map by (simp add: case_prod_unfold)
  qed
  ultimately show ?thesis using out(1) push_lines_frame [OF opened]
    by (auto simp: merge_lines_def entries_for_def)
qed

section \<open>Everything after the merge leaves the index alone\<close>

lemma views_update_other [simp]:
  "views (s\<lparr>lss_index := a\<rparr>) = views s" "views (s\<lparr>lss_filtered_index := b\<rparr>) = views s"
  "views (s\<lparr>lss_user_marks := c\<rparr>) = views s" "views (s\<lparr>lss_view_marks := d\<rparr>) = views s"
  "views (s\<lparr>lss_delegate := e\<rparr>) = views s" "views (s\<lparr>tss_level_filtered_count := f\<rparr>) = views s"
  "views (s\<lparr>lss_longest_line := g\<rparr>) = views s" "views (s\<lparr>lss_capacity := h\<rparr>) = views s"
  "views (s\<lparr>lss_force_rebuild := j\<rparr>) = views s" "views (s\<lparr>lss_index_generation := k\<rparr>) = views s"
  by (simp_all add: views_def)

lemma index_start_frame [simp]:
  "views (index_start s) = views s" "lss_index (index_start s) = lss_index s"
  "lss_filtered_index (index_start s) = lss_filtered_index s"
  "lss_force_rebuild (index_start s) = lss_force_rebuild s"
  by (simp_all add: index_start_def)

lemma index_line_frame [simp]:
  "views (index_line cl s) = views s" "lss_index (index_line cl s) = lss_index s"
  "lss_filtered_index (index_line cl s) = lss_filtered_index s"
  by (simp_all add: index_line_def)

lemma widen_frame [simp]:
  "views (widen s) = views s" "lss_index (widen s) = lss_index s"
  "lss_filtered_index (widen s) = lss_filtered_index s"
  by (simp_all add: widen_def)

lemma reload_rows_frame [simp]:
  "views (reload_rows s) = views s" "lss_index (reload_rows s) = lss_index s"
  "lss_filtered_index (reload_rows s) = lss_filtered_index s"
proof -
  have "views (fold (\<lambda>k. index_line (f k)) ks t) = views t
      \<and> lss_index (fold (\<lambda>k. index_line (f k)) ks t) = lss_index t
      \<and> lss_filtered_index (fold (\<lambda>k. index_line (f k)) ks t) = lss_filtered_index t" for f ks t
    by (induction ks arbitrary: t) auto
  from this [of "\<lambda>k. ic_value (lss_index s ! k)" "lss_filtered_index s" "index_start s"]
  show "views (reload_rows s) = views s" "lss_index (reload_rows s) = lss_index s"
    "lss_filtered_index (reload_rows s) = lss_filtered_index s"
    by (simp_all add: reload_rows_def)
qed

lemma views_set_line [simp]: "views (set_line cl (\<lambda>ll. ll\<lparr>ll_expr_mark := b\<rparr>) s) = views s"
proof -
  have "map bare (ls[k := (ls ! k)\<lparr>ll_expr_mark := b\<rparr>]) = map bare ls" for ls :: "logline list" and k
    by (rule map_update_id) simp
  then show ?thesis
    by (auto simp: set_line_def Let_def views_def view_def split: option.splits intro!: map_update_id)
qed

lemma set_line_frame [simp]:
  "lss_index (set_line cl f s) = lss_index s"
  "lss_filtered_index (set_line cl f s) = lss_filtered_index s"
  by (simp_all add: set_line_def Let_def split: option.split)

lemma show_line_frame [simp]:
  "views (show_line marker cl k s) = views s" "lss_index (show_line marker cl k s) = lss_index s"
  "lss_filtered_index (show_line marker cl k s) = lss_filtered_index s @ [k]"
  by (simp_all add: show_line_def Let_def split: option.split)

lemma check_extra_frame [simp]:
  "views (snd (check_extra_filters lf k s)) = views s"
  "lss_index (snd (check_extra_filters lf k s)) = lss_index s"
  "lss_filtered_index (snd (check_extra_filters lf k s)) = lss_filtered_index s"
  by (simp_all add: check_extra_filters_def Let_def split: prod.split)

lemma filter_line_frame [simp]:
  "views (filter_line b marker m k s) = views s" "lss_index (filter_line b marker m k s) = lss_index s"
  by (auto simp: filter_line_def Let_def split: prod.split)
    (metis check_extra_frame snd_conv)+

lemma filter_rows_frame [simp]:
  "views (filter_rows b marker n s) = views s" "lss_index (filter_rows b marker n s) = lss_index s"
proof -
  have "views (fold (filter_line b marker m) ks t) = views t
      \<and> lss_index (fold (filter_line b marker m) ks t) = lss_index t" for m ks t
    by (induction ks arbitrary: t) auto
  then show "views (filter_rows b marker n s) = views s"
    "lss_index (filter_rows b marker n s) = lss_index s"
    by (simp_all add: filter_rows_def)
qed

text \<open>A view whose lines are all indexed.\<close>

definition index_all :: "file_view \<Rightarrow> file_view" where
  "index_all v = (case snd (snd v) of None \<Rightarrow> v | Some ls \<Rightarrow> (fst v, length ls, Some ls))"

lemma views_all_indexed: "views (all_indexed s) = map index_all (views s)"
  by (auto simp: all_indexed_def map_files_def views_def view_def index_all_def split: option.splits)

lemma all_indexed_frame [simp]:
  "lss_index (all_indexed s) = lss_index s" "lss_filtered_index (all_indexed s) = lss_filtered_index s"
  by (simp_all add: all_indexed_def map_files_def)

lemma view_lines_index_all [simp]: "view_lines (index_all v) = view_lines v"
  by (simp add: index_all_def view_lines_def split: option.split)

lemma line_in_index_all [simp]: "fst p < length vs \<Longrightarrow> line_in (map index_all vs) p = line_in vs p"
  by (simp add: line_in_def)

lemma places_index_all: "places (map index_all vs) = set (new_places vs (\<lambda>_. 0))"
  by (auto simp: places_def set_new_places index_all_def view_lines_def split: option.splits)

lemma index_okI:
  assumes "lss_index s' = map (entry_of vs) ps" and "views s' = map index_all vs"
    and "distinct ps" and "set ps = set (new_places vs (\<lambda>_. 0))" and "time_sorted vs ps"
  shows "index_ok s'"
proof -
  have i: "fst p < length vs" if "p \<in> set ps" for p
    using that assms(4) by (auto simp: set_new_places)
  have "lss_index s' = map (entry_of (views s')) ps"
    unfolding assms(1,2) using i by (simp add: entry_of_def)
  moreover have "time_sorted (views s') ps"
    unfolding time_sorted_def assms(2)
    using assms(5) [unfolded time_sorted_def] i
    by (rule_tac sorted_wrt_mono_rel [rotated, OF assms(5) [unfolded time_sorted_def]]) simp
  ultimately show ?thesis
    using assms(3,4) unfolding index_ok_def by (auto simp: assms(2) places_index_all)
qed

text \<open>The state from which the new lines are added, and what comes of it.\<close>

definition ready :: "log_source \<Rightarrow> bool" where
  "ready s \<longleftrightarrow> files_ok (views s) \<and> (\<exists>ps. lss_index s = map (entry_of (views s)) ps \<and> distinct ps
     \<and> set ps = places (views s) \<and> time_sorted (views s) ps
     \<and> (\<forall>p\<in>set ps. \<forall>q\<in>set (new_places (views s) (indexed_of (views s))).
          ll_time (line_in (views s) p) \<le> ll_time (line_in (views s) q)))"

lemma places_new: "places vs \<union> set (new_places vs (indexed_of vs)) = set (new_places vs (\<lambda>_. 0))"
  by (auto simp: places_def set_new_places indexed_of_def)

lemma add_lines_ok:
  assumes "files_ok (views s)"
    and "if full_sort then lss_index s = [] else ready s"
    and "length (new_lines s) \<le> files"
  shows "\<exists>s'. add_lines marker full_sort files s = Some s' \<and> index_ok s'
    \<and> views s' = map index_all (views s)"
proof -
  let ?s = "widen s" and ?vs = "views s"
  have nl: "new_lines ?s = new_lines s" by (simp add: new_lines_def widen_def)
  have "\<exists>s1 ps. (if full_sort then Some (sort_lines ?s) else merge_lines files ?s) = Some s1
      \<and> views s1 = ?vs \<and> lss_index s1 = map (entry_of ?vs) ps \<and> distinct ps
      \<and> set ps = set (new_places ?vs (\<lambda>_. 0)) \<and> time_sorted ?vs ps"
  proof (cases full_sort)
    case True
    note so = sort_lines_entries [of ?s]
    obtain qs where "lss_index (sort_lines ?s) = map (entry_of ?vs) qs"
      "mset qs = mset (new_places ?vs (\<lambda>_. 0))" "time_sorted ?vs qs"
      using so(3) assms(1,2) True by (auto simp: entries_for_def)
    with True so(1) assms(1,2) distinct_new_places [of ?vs "\<lambda>_. 0"] show ?thesis
      by (intro exI [of _ "sort_lines ?s"] exI [of _ qs])
        (auto dest: mset_eq_setD mset_eq_imp_distinct_iff)
  next
    case False
    then obtain ps where ps: "lss_index s = map (entry_of ?vs) ps" "distinct ps" "set ps = places ?vs"
      "time_sorted ?vs ps" "\<forall>p\<in>set ps. \<forall>q\<in>set (new_places ?vs (indexed_of ?vs)).
          ll_time (line_in ?vs p) \<le> ll_time (line_in ?vs q)"
      using assms(2) by (auto simp: ready_def)
    obtain s1 xs where m: "merge_lines files ?s = Some s1" "views s1 = ?vs"
      "lss_index s1 = lss_index s @ xs" "entries_for ?vs (new_places ?vs (indexed_of ?vs)) xs"
      using merge_lines_entries [of ?s files] assms(1,3) nl by auto
    obtain qs where q: "xs = map (entry_of ?vs) qs" "mset qs = mset (new_places ?vs (indexed_of ?vs))"
      "time_sorted ?vs qs"
      using m(4) by (auto simp: entries_for_def)
    have qset: "set qs = set (new_places ?vs (indexed_of ?vs))" using q(2) by (rule mset_eq_setD)
    have qd: "distinct qs" using mset_eq_imp_distinct_iff [OF q(2)] distinct_new_places by blast
    have disj: "set ps \<inter> set qs = {}"
      unfolding ps(3) qset by (auto simp: places_def set_new_places indexed_of_def)
    have "time_sorted ?vs (ps @ qs)"
      using ps(4,5) q(3) unfolding time_sorted_def sorted_wrt_append qset by blast
    moreover have "set (ps @ qs) = set (new_places ?vs (\<lambda>_. 0))"
      using places_new [of ?vs] by (simp add: ps(3) qset)
    ultimately show ?thesis using False m(1-3) ps(1,2) qd disj q(1)
      by (intro exI [of _ s1] exI [of _ "ps @ qs"]) simp
  qed
  then obtain s1 ps where s1: "(if full_sort then Some (sort_lines ?s) else merge_lines files ?s) = Some s1"
    "views s1 = ?vs" "lss_index s1 = map (entry_of ?vs) ps" "distinct ps"
    "set ps = set (new_places ?vs (\<lambda>_. 0))" "time_sorted ?vs ps" by blast
  define s2 where "s2 = (if length (lss_index s) = 0 then index_start (all_indexed s1) else all_indexed s1)"
  have r: "add_lines marker full_sort files s = Some (filter_rows True marker (length (lss_index s)) s2)"
    using s1(1) by (simp add: add_lines_def Let_def s2_def)
  have v: "views s2 = map index_all ?vs" "lss_index s2 = map (entry_of ?vs) ps"
    using s1(2,3) by (simp_all add: s2_def views_all_indexed)
  have "index_ok (filter_rows True marker (length (lss_index s)) s2)"
    by (rule index_okI [OF _ _ s1(4-6)]) (simp_all add: v)
  with r v show ?thesis by simp
qed

section \<open>Cutting the index\<close>

definition cut_view :: "tv \<Rightarrow> file_view \<Rightarrow> file_view" where
  "cut_view t v = (case snd (snd v) of None \<Rightarrow> v
     | Some ls \<Rightarrow> (fst v, length (takeWhile (\<lambda>ll. ll_less_tv ll t) ls), Some ls))"

lemma view_lines_cut [simp]: "view_lines (cut_view t v) = view_lines v"
  by (simp add: cut_view_def view_lines_def split: option.split)

lemma fst_cut [simp]: "fst (cut_view t v) = fst v"
  by (simp add: cut_view_def split: option.split)

lemma line_in_cut [simp]: "fst p < length vs \<Longrightarrow> line_in (map (cut_view t) vs) p = line_in vs p"
  by (simp add: line_in_def)

lemma entry_of_cut [simp]: "fst p < length vs \<Longrightarrow> entry_of (map (cut_view t) vs) p = entry_of vs p"
  by (simp add: entry_of_def)

lemma takeWhile_filter_sorted:
  "sorted_wrt R xs \<Longrightarrow> (\<And>x y. x \<in> set xs \<Longrightarrow> y \<in> set xs \<Longrightarrow> R x y \<Longrightarrow> P y \<Longrightarrow> P x) \<Longrightarrow> takeWhile P xs = filter P xs"
proof (induction xs)
  case (Cons x xs)
  show ?case
  proof (cases "P x")
    case True
    with Cons show ?thesis by auto
  next
    case False
    have "\<not> P y" if "y \<in> set xs" for y
      using Cons.prems(1) Cons.prems(2) [of x y] that False by auto
    with False show ?thesis by (simp add: filter_False)
  qed
qed simp

lemma less_length_takeWhile:
  "sorted_wrt (\<lambda>a b. \<not> logline_less b a) ls \<Longrightarrow> k < length ls \<Longrightarrow>
   k < length (takeWhile (\<lambda>ll. ll_less_tv ll t) ls) \<longleftrightarrow> ll_less_tv (ls ! k) t"
proof (induction ls arbitrary: k)
  case (Cons a ls)
  have "ll_less_tv ((a # ls) ! k) t \<Longrightarrow> ll_less_tv a t"
  proof (cases k)
    case (Suc j)
    assume "ll_less_tv ((a # ls) ! k) t"
    moreover have "\<not> logline_less (ls ! j) a" using Cons.prems Suc by simp
    ultimately show ?thesis
      using ll_time_mono_tv [of a "ls ! j" t] not_logline_less_time [of "ls ! j" a] Suc by simp
  qed simp
  with Cons show ?case by (cases k) auto
qed simp

definition no_older :: "tv \<Rightarrow> file_view \<Rightarrow> bool" where
  "no_older t v \<longleftrightarrow> (\<forall>k. fst (snd v) \<le> k \<and> k < length (view_lines v) \<longrightarrow> \<not> ll_less_tv (view_lines v ! k) t)"

lemma cut_index_ready:
  assumes ok: "files_ok (views s)" and "index_ok s" and fresh: "\<forall>v\<in>set (views s). no_older t v"
    and "\<forall>ld\<in>set (lss_files s). \<forall>lf. ld_file_ptr ld = Some lf \<longrightarrow> lf_time_ordered lf"
  shows "\<exists>s'. cut_index t s = Some s' \<and> ready s' \<and> views s' = map (cut_view t) (views s)"
proof -
  let ?vs = "views s" and ?cs = "map (cut_view t) (views s)"
  define s1 where "s1 = map_files (\<lambda>ld. case ld_file_ptr ld of None \<Rightarrow> ld
             | Some lf \<Rightarrow> ld\<lparr>ld_lines_indexed := (case lf_find_from_time t lf of
                 Some k \<Rightarrow> k | None \<Rightarrow> length (lf_lines lf))\<rparr>) s"
  have v1: "views s1 = ?cs"
    by (auto simp: s1_def map_files_def views_def view_def cut_view_def lf_find_from_time_def Let_def
        takeWhile_map o_def split: option.splits)
  have i1: "lss_index s1 = lss_index s" by (simp add: s1_def map_files_def)
  define n where "n = length (takeWhile (\<lambda>ic. ll_less_tv (ic_line s1 ic) t) (lss_index s1))"
  define s' where "s' = reload_rows (s1\<lparr>lss_index := take n (lss_index s1),
      lss_filtered_index := take (lower_row t s1) (lss_filtered_index s1)\<rparr>)"
  have cut: "cut_index t s = Some s'"
    using assms(4) by (auto simp: cut_index_def Let_def list_all_iff s1_def [symmetric] n_def s'_def
        split: option.split)
  have vs': "views s' = ?cs" by (simp add: s'_def v1)
  obtain ps where ps: "lss_index s = map (entry_of ?vs) ps" "distinct ps" "set ps = places ?vs"
    "time_sorted ?vs ps"
    using assms(2) by (auto simp: index_ok_def)
  have pok: "place_ok ?vs p" if "p \<in> set ps" for p using that ps(3) place_ok_places by auto
  have ok1: "files_ok ?cs" using ok by (simp add: files_ok_def)
  have ordered: "sorted_wrt (\<lambda>a b. \<not> logline_less b a) (view_lines (?vs ! i))" if "i < length ?vs" for i
    using ok that by (simp add: files_ok_def)
  have line: "ll_less_tv (ic_line s1 (entry_of ?vs p)) t = ll_less_tv (line_in ?vs p) t" if "p \<in> set ps" for p
  proof -
    have "fst p < length ?vs" "place_ok ?cs p" using pok [OF that] by (auto simp: place_ok_def)
    then have "bare (ic_line s1 (entry_of ?vs p)) = line_in ?vs p"
      using ic_line_entry [of s1 p] ok1 v1 by simp
    from arg_cong [OF this, of "\<lambda>ll. ll_less_tv ll t"] show ?thesis by simp
  qed
  define qs where "qs = filter (\<lambda>p. ll_less_tv (line_in ?vs p) t) ps"
  have tw: "takeWhile (\<lambda>p. ll_less_tv (line_in ?vs p) t) ps = qs"
    unfolding qs_def using ps(4) [unfolded time_sorted_def]
    by (rule takeWhile_filter_sorted) (auto intro: ll_time_mono_tv)
  have "take n (lss_index s1) = takeWhile (\<lambda>ic. ll_less_tv (ic_line s1 ic) t) (map (entry_of ?vs) ps)"
    by (simp add: n_def i1 ps(1) takeWhile_eq_take [symmetric])
  also have "\<dots> = map (entry_of ?vs) (takeWhile (\<lambda>p. ll_less_tv (ic_line s1 (entry_of ?vs p)) t) ps)"
    by (simp add: takeWhile_map o_def)
  also have "takeWhile (\<lambda>p. ll_less_tv (ic_line s1 (entry_of ?vs p)) t) ps = qs"
    unfolding tw [symmetric] by (rule takeWhile_cong) (simp_all add: line)
  finally have idx: "lss_index s' = map (entry_of ?cs) qs"
    using pok by (auto simp: s'_def qs_def place_ok_def)
  have kept: "k < fst (snd (?cs ! i)) \<longleftrightarrow> ll_less_tv (line_in ?vs (i, k)) t"
    if b: "i < length ?vs" "k < length (view_lines (?vs ! i))" for i k
  proof -
    obtain ls where "snd (snd (?vs ! i)) = Some ls"
      using b(2) by (auto simp: view_lines_def split: option.splits)
    then show ?thesis using less_length_takeWhile [OF ordered [OF b(1)] b(2), of t] b
      by (simp add: cut_view_def view_lines_def line_in_def)
  qed
  have old: "k < fst (snd (?vs ! i))"
    if "i < length ?vs" "k < length (view_lines (?vs ! i))" "ll_less_tv (line_in ?vs (i, k)) t" for i k
    using fresh that nth_mem [OF that(1)] by (auto simp: no_older_def line_in_def not_less [symmetric])
  have "set qs = places ?cs"
    using kept old by (auto simp: qs_def ps(3) places_def)
  moreover have "time_sorted ?cs qs"
  proof -
    have "time_sorted ?vs qs" using ps(4) unfolding qs_def time_sorted_def by (rule sorted_wrt_filter)
    then show ?thesis unfolding time_sorted_def
      by (rule sorted_wrt_mono_rel [rotated]) (use pok in \<open>auto simp: qs_def place_ok_def\<close>)
  qed
  moreover have "ll_time (line_in ?cs p) \<le> ll_time (line_in ?cs q)"
    if "p \<in> set qs" "q \<in> set (new_places ?cs (indexed_of ?cs))" for p q
  proof -
    have p: "ll_less_tv (line_in ?vs p) t" "fst p < length ?vs"
      using that(1) pok by (auto simp: qs_def place_ok_def)
    have q: "\<not> ll_less_tv (line_in ?vs q) t" "fst q < length ?vs"
      using that(2) kept [of "fst q" "snd q"] by (auto simp: set_new_places indexed_of_def)
    from p q ll_time_mono_tv [of "line_in ?vs q" "line_in ?vs p" t] show ?thesis by force
  qed
  moreover have "distinct qs" using ps(2) by (simp add: qs_def)
  ultimately have "ready s'" using idx ok1 unfolding ready_def vs' by blast
  then show ?thesis using cut vs' by blast
qed

section \<open>The scans\<close>

text \<open>
  What is expected of a file's own rebuild (\<open>logfile::rebuild_index\<close>): its lines stay in order, of
  the same kind of format and below the limit, and the lines indexed so far stay unless it says that
  the file has a new order.
\<close>

definition new_order :: "scans \<Rightarrow> nat \<Rightarrow> bool" where
  "new_order scans i \<longleftrightarrow> (case scans i of None \<Rightarrow> False
     | Some (lf, fs, res) \<Rightarrow> res = NEW_ORDER \<or> res = INVALID)"

definition scan_ok :: "scans \<Rightarrow> logfile_data \<Rightarrow> nat \<Rightarrow> bool" where
  "scan_ok scans ld i \<longleftrightarrow> (case (scans i, ld_file_ptr ld) of
     (Some (lf', fs, res), Some lf) \<Rightarrow>
       lf_time_ordered lf' = lf_time_ordered lf \<and> length (lf_lines lf') \<le> MAX_LINES_PER_FILE
       \<and> sorted_wrt (\<lambda>a b. \<not> logline_less b a) (lf_lines lf')
       \<and> (\<not> new_order scans i \<longrightarrow> ld_lines_indexed ld \<le> length (lf_lines lf')
           \<and> take (ld_lines_indexed ld) (map bare (lf_lines lf')) =
               take (ld_lines_indexed ld) (map bare (lf_lines lf)))
   | _ \<Rightarrow> True)"

definition nothing_new :: "file_view \<Rightarrow> bool" where
  "nothing_new v \<longleftrightarrow> length (view_lines v) \<le> fst (snd v)"

text \<open>The view of a file after its scan.\<close>

definition scan_view :: "scans \<Rightarrow> nat \<Rightarrow> file_view \<Rightarrow> file_view" where
  "scan_view scans i v = (case scans i of None \<Rightarrow> v
     | Some (lf, fs, res) \<Rightarrow> (fst v, fst (snd v), Some (map bare (lf_lines lf))))"

lemma scan_only_frame [simp]:
  "length (lss_files (scan_only scans i s)) = length (lss_files s)"
  "lss_index (scan_only scans i s) = lss_index s"
  "lss_filtered_index (scan_only scans i s) = lss_filtered_index s"
  "lss_delegate (scan_only scans i s) = lss_delegate s"
  "lss_force_rebuild (scan_only scans i s) = lss_force_rebuild s"
  by (simp_all add: scan_only_def set_scanned_def split: option.split)

lemma scan_only_other: "j \<noteq> i \<Longrightarrow> lss_files (scan_only scans i s) ! j = lss_files s ! j"
  by (simp add: scan_only_def set_scanned_def split: option.split)

lemma scan_only_view: "i < length (lss_files s) \<Longrightarrow>
    view (lss_files (scan_only scans i s) ! i) = scan_view scans i (view (lss_files s ! i))"
  by (simp add: scan_only_def set_scanned_def scan_view_def view_def split: option.split)

lemma scan_fold_frame [simp]:
  "length (lss_files (fold (scan_only scans) is s)) = length (lss_files s)"
  "lss_index (fold (scan_only scans) is s) = lss_index s"
  "lss_filtered_index (fold (scan_only scans) is s) = lss_filtered_index s"
  "lss_delegate (fold (scan_only scans) is s) = lss_delegate s"
  "lss_force_rebuild (fold (scan_only scans) is s) = lss_force_rebuild s"
  by (induction "is" arbitrary: s) auto

lemma scan_fold_other: "j \<notin> set is \<Longrightarrow> lss_files (fold (scan_only scans) is s) ! j = lss_files s ! j"
  by (induction "is" arbitrary: s) (auto simp: scan_only_other)

lemma scan_fold_file: "distinct is \<Longrightarrow> i \<in> set is \<Longrightarrow> i < length (lss_files s) \<Longrightarrow> lss_files (fold (scan_only scans) is s) ! i
    = lss_files (scan_only scans i s) ! i"
proof (induction "is" arbitrary: s)
  case (Cons j "is")
  show ?case
  proof (cases "i = j")
    case True
    with Cons.prems show ?thesis by (simp add: scan_fold_other)
  next
    case False
    with Cons have "lss_files (fold (scan_only scans) (j # is) s) ! i
        = lss_files (scan_only scans i (scan_only scans j s)) ! i" by simp
    also have "\<dots> = lss_files (scan_only scans i s) ! i"
      using False scan_only_other [of i j scans s] Cons.prems(3)
      by (auto simp: scan_only_def set_scanned_def split: option.splits)
    finally show ?thesis .
  qed
qed simp

lemma views_scanned:
  assumes "distinct is" and "set is \<subseteq> {..<length (lss_files s)}" and "i < length (lss_files s)"
  shows "views (fold (scan_only scans) is s) ! i =
    (if i \<in> set is then scan_view scans i (views s ! i) else views s ! i)"
proof (cases "i \<in> set is")
  case True
  with assms(1) show ?thesis
    using scan_only_view [OF assms(3), of scans] by (simp add: nth_views assms(3) scan_fold_file)
next
  case False
  then show ?thesis by (simp add: nth_views assms(3) scan_fold_other)
qed

text \<open>The index speaks of the same lines after scans that extend the files.\<close>

definition extends :: "file_view list \<Rightarrow> file_view list \<Rightarrow> bool" where
  "extends vs vs' \<longleftrightarrow> length vs' = length vs \<and> (\<forall>i<length vs. fst (snd (vs' ! i)) = fst (snd (vs ! i))
     \<and> take (fst (snd (vs ! i))) (view_lines (vs' ! i)) = take (fst (snd (vs ! i))) (view_lines (vs ! i)))"

lemma extends_line:
  assumes "extends vs vs'" and "i < length vs" and "k < fst (snd (vs ! i))"
  shows "k < length (view_lines (vs' ! i)) \<longleftrightarrow> k < length (view_lines (vs ! i))"
    and "k < length (view_lines (vs ! i)) \<Longrightarrow> line_in vs' (i, k) = line_in vs (i, k)"
proof -
  have t: "take (fst (snd (vs ! i))) (view_lines (vs' ! i)) = take (fst (snd (vs ! i))) (view_lines (vs ! i))"
    using assms(1,2) by (simp add: extends_def)
  show "k < length (view_lines (vs' ! i)) \<longleftrightarrow> k < length (view_lines (vs ! i))"
    using arg_cong [OF t, of length] assms(3) by auto
  show "k < length (view_lines (vs ! i)) \<Longrightarrow> line_in vs' (i, k) = line_in vs (i, k)"
    using arg_cong [OF t, of "\<lambda>ls. ls ! k"] assms(3) by (simp add: line_in_def)
qed

lemma extends_places:
  assumes "extends vs vs'"
  shows "places vs' = places vs" and "p \<in> places vs \<Longrightarrow> line_in vs' p = line_in vs p"
proof -
  have l: "length vs' = length vs" "i < length vs \<Longrightarrow> fst (snd (vs' ! i)) = fst (snd (vs ! i))" for i
    using assms by (auto simp: extends_def)
  show "places vs' = places vs"
    using extends_line [OF assms] by (auto simp: places_def l)
  show "p \<in> places vs \<Longrightarrow> line_in vs' p = line_in vs p"
    using extends_line(2) [OF assms] by (auto simp: places_def)
qed

lemma index_ok_extends:
  assumes "index_ok s" and "extends (views s) (views s')" and "lss_index s' = lss_index s"
  shows "index_ok s'"
proof -
  obtain ps where ps: "lss_index s = map (entry_of (views s)) ps" "distinct ps" "set ps = places (views s)"
    "time_sorted (views s) ps"
    using assms(1) by (auto simp: index_ok_def)
  have l: "line_in (views s') p = line_in (views s) p" if "p \<in> set ps" for p
    using extends_places(2) [OF assms(2)] that ps(3) by simp
  have "time_sorted (views s') ps"
    using ps(4) unfolding time_sorted_def by (rule sorted_wrt_mono_rel [rotated]) (simp add: l)
  moreover have "lss_index s' = map (entry_of (views s')) ps"
    using ps(1) l by (simp add: assms(3) entry_of_def)
  ultimately show ?thesis
    using ps(2,3) extends_places(1) [OF assms(2)] unfolding index_ok_def by blast
qed

section \<open>What the results of the scans decide\<close>

definition last_time :: "log_source \<Rightarrow> tv" where
  "last_time s = get_timeval (ic_line s (last (lss_index s)))"

text \<open>What is known of a file whose result was looked at, for the kind of rebuild so far.\<close>

definition decided :: "log_source \<Rightarrow> rebuild_ctx \<Rightarrow> file_view \<Rightarrow> bool" where
  "decided s c v \<longleftrightarrow> (case rc_retval c of
       Rr_no_change \<Rightarrow> nothing_new v
     | Rr_appended_lines \<Rightarrow> lss_index s = [] \<or> no_older (last_time s) v
     | Rr_partial_rebuild \<Rightarrow> no_older (the (rc_lowest c)) v
     | Rr_full_rebuild \<Rightarrow> False)"

definition ctx_ok :: "bool \<Rightarrow> log_source \<Rightarrow> rebuild_ctx \<Rightarrow> bool" where
  "ctx_ok all_ordered s c \<longleftrightarrow> rc_retval c \<noteq> Rr_full_rebuild \<and> (rc_full_sort c \<longleftrightarrow> lss_index s = [])
     \<and> (rc_retval c = Rr_partial_rebuild \<longrightarrow> all_ordered \<and> lss_index s \<noteq> []
         \<and> (\<exists>t. rc_lowest c = Some t \<and> tv_less t (last_time s)))
     \<and> (rc_retval c \<noteq> Rr_partial_rebuild \<longrightarrow> rc_lowest c = None)"

definition forced :: "rebuild_ctx \<Rightarrow> bool" where
  "forced c \<longleftrightarrow> rc_force c \<and> rc_full_sort c"

lemma no_older_nothing_new: "nothing_new v \<Longrightarrow> no_older t v"
  by (auto simp: nothing_new_def no_older_def)

lemma no_older_mono: "no_older t v \<Longrightarrow> tv_less u t \<Longrightarrow> no_older u v"
  using tv_less_trans unfolding no_older_def ll_less_tv_def by blast

lemma no_older_first:
  assumes "sorted_wrt (\<lambda>a b. \<not> logline_less b a) (view_lines v)" and "fst (snd v) < length (view_lines v)"
    and "\<not> ll_less_tv (view_lines v ! fst (snd v)) t"
  shows "no_older t v"
  unfolding no_older_def
proof (intro allI impI)
  fix k assume k: "fst (snd v) \<le> k \<and> k < length (view_lines v)"
  have "\<not> logline_less (view_lines v ! k) (view_lines v ! fst (snd v))"
    using k sorted_wrt_nth_less [OF assms(1), of "fst (snd v)" k]
    by (cases "k = fst (snd v)") (auto simp: logline_less_def)
  then have "ll_time (view_lines v ! fst (snd v)) \<le> ll_time (view_lines v ! k)"
    by (rule not_logline_less_time)
  with assms(3) show "\<not> ll_less_tv (view_lines v ! k) t" using ll_time_mono_tv by blast
qed

lemma process_force: "forced c \<Longrightarrow> forced (process_rebuild_result ao s i res c)"
  by (auto simp: forced_def process_rebuild_result_def Let_def older_lines_def force_full_def
      split: scan_result.split option.split)

lemma process_new_order:
  "res = NEW_ORDER \<or> res = INVALID \<Longrightarrow> forced (process_rebuild_result ao s i res c)"
  by (auto simp: forced_def process_rebuild_result_def Let_def force_full_def)

text \<open>A partial rebuild from an even older line, or a full one.\<close>

lemma older_lines_ok:
  assumes "ctx_ok ao s c" and "rc_retval c \<noteq> Rr_no_change" and "lss_index s \<noteq> []"
    and "tv_less t (last_time s)"
  shows "forced (older_lines ao t c) \<or>
    (\<not> rc_force c \<longrightarrow> \<not> rc_force (older_lines ao t c)) \<and> ctx_ok ao s (older_lines ao t c)
     \<and> rc_retval (older_lines ao t c) = Rr_partial_rebuild
     \<and> (\<forall>v. decided s c v \<longrightarrow> decided s (older_lines ao t c) v)
     \<and> (\<exists>u. rc_lowest (older_lines ao t c) = Some u \<and> (u = t \<or> tv_less u t))"
proof (cases ao)
  case False
  then show ?thesis by (simp add: older_lines_def forced_def)
next
  case True
  have nf: "rc_retval c \<noteq> Rr_full_rebuild" using assms(1) by (simp add: ctx_ok_def)
  show ?thesis
  proof (cases "rc_lowest c")
    case None
    then have a: "rc_retval c = Rr_appended_lines"
      using assms(1,2) nf by (cases "rc_retval c") (auto simp: ctx_ok_def)
    have "older_lines ao t c = c\<lparr>rc_retval := Rr_partial_rebuild, rc_lowest := Some t\<rparr>"
      using True nf None by (simp add: older_lines_def)
    then show ?thesis using assms a True no_older_mono by (auto simp: ctx_ok_def decided_def)
  next
    case (Some l)
    then have p: "rc_retval c = Rr_partial_rebuild" "tv_less l (last_time s)"
      using assms(1) by (auto simp: ctx_ok_def)
    have "older_lines ao t c = c\<lparr>rc_retval := Rr_partial_rebuild,
        rc_lowest := Some (if tv_less t l then t else l)\<rparr>"
      using True nf Some by (simp add: older_lines_def)
    then show ?thesis using assms p Some True no_older_mono [of l _ t] tv_less_linear [of t l]
      by (auto simp: ctx_ok_def decided_def)
  qed
qed

lemma process_ok:
  assumes "files_ok (views s)" and "index_ok s" and i: "i < length (lss_files s)"
    and op: "ld_file_ptr (lss_files s ! i) \<noteq> None"
    and ctx: "ctx_ok ao s c" "\<not> rc_force c" and res: "res = NO_NEW_LINES \<or> res = NEW_LINES"
  defines "c' \<equiv> process_rebuild_result ao s i res c"
  shows "forced c' \<or> \<not> rc_force c' \<and> ctx_ok ao s c' \<and> decided s c' (views s ! i)
    \<and> (\<forall>v. decided s c v \<longrightarrow> decided s c' v)"
proof -
  obtain lf where lf: "ld_file_ptr (lss_files s ! i) = Some lf" using op by blast
  let ?v = "views s ! i" and ?n = "ld_lines_indexed (lss_files s ! i)"
  have v: "view_lines ?v = map bare (lf_lines lf)" "fst (snd ?v) = ?n"
    using lf i by (simp_all add: nth_views view_def view_lines_def)
  have srt: "sorted_wrt (\<lambda>a b. \<not> logline_less b a) (view_lines ?v)"
    using assms(1) i by (simp add: files_ok_def)
  show ?thesis
  proof (cases "res = NO_NEW_LINES \<and> length (lf_lines lf) \<le> ?n")
    case True
    then have "c' = c" using lf by (simp add: c'_def process_rebuild_result_def Let_def)
    moreover have "nothing_new ?v" using True v by (simp add: nothing_new_def)
    ultimately show ?thesis using ctx no_older_nothing_new
      by (auto simp: decided_def ctx_ok_def split: rebuild_result.splits)
  next
    case False
    define c1 where "c1 = (if rc_retval c = Rr_no_change then c\<lparr>rc_retval := Rr_appended_lines\<rparr> else c)"
    have c1: "ctx_ok ao s c1" "\<not> rc_force c1" "rc_retval c1 \<noteq> Rr_no_change"
      "\<And>v. decided s c v \<Longrightarrow> decided s c1 v"
      using ctx no_older_nothing_new
      by (auto simp: c1_def ctx_ok_def decided_def split: rebuild_result.splits)
    show ?thesis
    proof (cases "lss_index s \<noteq> [] \<and> ?n < length (lf_lines lf)")
      case False
      then have "c' = c1"
        using \<open>\<not> (res = NO_NEW_LINES \<and> length (lf_lines lf) \<le> ?n)\<close> res lf
        by (auto simp: c'_def process_rebuild_result_def Let_def c1_def)
      moreover have "lss_index s = [] \<or> nothing_new ?v" using False v by (auto simp: nothing_new_def)
      then have "decided s c1 ?v" using c1(1,3) no_older_nothing_new [of ?v "last_time s"]
          no_older_nothing_new [of ?v "the (rc_lowest c1)"]
        by (cases "rc_retval c1") (auto simp: decided_def ctx_ok_def)
      ultimately show ?thesis using c1 by blast
    next
      case True
      let ?new = "lf_lines lf ! ?n"
      obtain ps where ps: "lss_index s = map (entry_of (views s)) ps" "set ps = places (views s)"
        using assms(2) by (auto simp: index_ok_def)
      have "ps \<noteq> []" using True ps(1) by auto
      then have e: "last (lss_index s) = entry_of (views s) (last ps)" "place_ok (views s) (last ps)"
        using ps place_ok_places [of "last ps"] last_in_set [of ps] by (auto simp: last_map)
      from find_line_entry [OF assms(1) e(2)] obtain ll where
        ll: "find_line (ic_value (last (lss_index s))) s = Some ll" by (auto simp: e(1))
      have T: "get_timeval ll = last_time s" using ll by (simp add: last_time_def ic_line_def)
      have c': "c' = (if ll_less_tv ?new (last_time s) then older_lines ao (get_timeval ?new) c1 else c1)"
        using True lf ll T res
        by (auto simp: c'_def process_rebuild_result_def Let_def c1_def)
      have first: "view_lines ?v ! fst (snd ?v) = bare ?new" "fst (snd ?v) < length (view_lines ?v)"
        using True v by simp_all
      note fo = no_older_first [OF srt first(2)]
      show ?thesis
      proof (cases "ll_less_tv ?new (last_time s)")
        case False
        have "no_older (last_time s) ?v" by (rule fo) (simp add: first False)
        then have "decided s c1 ?v" using c1(1,3) no_older_mono [of "last_time s" ?v "the (rc_lowest c1)"]
          by (cases "rc_retval c1") (auto simp: decided_def ctx_ok_def)
        with False c1 c' show ?thesis by auto
      next
        case less: True
        have t: "tv_less (get_timeval ?new) (last_time s)" using less by (simp add: ll_less_tv_def)
        have fresh: "no_older u ?v" if "u = get_timeval ?new \<or> tv_less u (get_timeval ?new)" for u
          using that by (intro fo) (auto simp: first ll_less_tv_def dest: tv_less_asym)
        let ?c2 = "older_lines ao (get_timeval ?new) c1"
        have c2: "c' = ?c2" using less c' by simp
        from older_lines_ok [OF c1(1,3) _ t] True c1(2) consider "forced ?c2"
          | "\<not> rc_force ?c2" "ctx_ok ao s ?c2" "rc_retval ?c2 = Rr_partial_rebuild"
            "\<forall>v. decided s c1 v \<longrightarrow> decided s ?c2 v"
            "\<exists>u. rc_lowest ?c2 = Some u \<and> (u = get_timeval ?new \<or> tv_less u (get_timeval ?new))"
          by blast
        then show ?thesis
        proof cases
          case 1
          then show ?thesis by (simp add: c2)
        next
          case 2
          then obtain u where u: "rc_lowest ?c2 = Some u" "no_older u ?v" using fresh by blast
          then have "decided s ?c2 ?v" by (simp add: decided_def 2(3))
          with 2 c1(4) show ?thesis unfolding c2 by blast
        qed
      qed
    qed
  qed
qed

text \<open>All results, looked at after all scans.\<close>

lemma process_fold_ok:
  assumes "files_ok (views s)" and "index_ok s" and "\<forall>i\<in>set is. i < length (lss_files s)"
    and "\<forall>i\<in>set is. ld_file_ptr (lss_files s ! i) \<noteq> None" and "\<forall>i\<in>set is. \<not> new_order scans i"
    and "\<forall>i\<in>set is. scans i = None \<longrightarrow> nothing_new (views s ! i)"
    and "ctx_ok ao s c" and "\<not> rc_force c"
  shows "forced (fold (process_only ao scans s) is c) \<or>
     \<not> rc_force (fold (process_only ao scans s) is c) \<and> ctx_ok ao s (fold (process_only ao scans s) is c)
     \<and> (\<forall>v. decided s c v \<or> v \<in> (!) (views s) ` set is \<longrightarrow> decided s (fold (process_only ao scans s) is c) v)"
  using assms(3-)
proof (induction "is" arbitrary: c)
  case (Cons i "is")
  let ?c = "process_only ao scans s i c"
  have keep: "forced c \<Longrightarrow> forced (fold (process_only ao scans s) js c)" for js c
    by (induction js arbitrary: c) (auto simp: process_only_def process_force split: option.split)
  have "forced ?c \<or> \<not> rc_force ?c \<and> ctx_ok ao s ?c \<and> decided s ?c (views s ! i)
    \<and> (\<forall>v. decided s c v \<longrightarrow> decided s ?c v)"
  proof (cases "scans i")
    case None
    then have "nothing_new (views s ! i)" using Cons.prems by simp
    then have "decided s c (views s ! i)"
      using Cons.prems(5) no_older_nothing_new [of "views s ! i" "last_time s"]
        no_older_nothing_new [of "views s ! i" "the (rc_lowest c)"]
      by (cases "rc_retval c") (auto simp: decided_def ctx_ok_def)
    with None Cons.prems(5,6) show ?thesis by (simp add: process_only_def)
  next
    case (Some x)
    obtain lf fs res where x: "x = (lf, fs, res)" by (cases x) auto
    have "res = NO_NEW_LINES \<or> res = NEW_LINES"
      using Cons.prems(3) Some x by (cases res) (auto simp: new_order_def)
    with process_ok [OF assms(1,2) _ _ Cons.prems(5,6) this, of i] Cons.prems(1,2) Some x show ?thesis
      by (simp add: process_only_def)
  qed
  then consider "forced ?c" | "\<not> rc_force ?c" "ctx_ok ao s ?c" "decided s ?c (views s ! i)"
    "\<forall>v. decided s c v \<longrightarrow> decided s ?c v" by blast
  then show ?case
  proof cases
    case 1
    with keep show ?thesis by simp
  next
    case 2
    have "forced (fold (process_only ao scans s) is ?c) \<or>
     \<not> rc_force (fold (process_only ao scans s) is ?c) \<and> ctx_ok ao s (fold (process_only ao scans s) is ?c)
     \<and> (\<forall>v. decided s ?c v \<or> v \<in> (!) (views s) ` set is \<longrightarrow> decided s (fold (process_only ao scans s) is ?c) v)"
      using Cons.prems 2(1,2) by (intro Cons.IH) simp_all
    with 2(3,4) show ?thesis
      by (simp only: fold_simps list.set image_insert insert_iff) blast
  qed
qed simp

text \<open>Looking at a result at once decides the same, as the files scanned later do not matter.\<close>

lemma process_same:
  assumes "lss_files s' ! i = lss_files s ! i" and "lss_index s' = lss_index s"
    and "lss_index s \<noteq> [] \<longrightarrow> map_option bare (find_line (ic_value (last (lss_index s))) s')
      = map_option bare (find_line (ic_value (last (lss_index s))) s)"
  shows "process_rebuild_result ao s' i res c = process_rebuild_result ao s i res c"
proof (cases "lss_index s = []")
  case True
  with assms(1,2) show ?thesis by (cases res) (simp_all add: process_rebuild_result_def Let_def)
next
  case False
  let ?cl = "ic_value (last (lss_index s))"
  have "map_option get_timeval (map_option bare (find_line ?cl s'))
      = map_option get_timeval (map_option bare (find_line ?cl s))"
    using assms(3) False by simp
  then have "map_option get_timeval (find_line ?cl s') = map_option get_timeval (find_line ?cl s)"
    by (simp add: option.map_comp o_def)
  then consider "find_line ?cl s' = None" "find_line ?cl s = None"
    | a b where "find_line ?cl s' = Some a" "find_line ?cl s = Some b" "get_timeval a = get_timeval b"
    by (cases "find_line ?cl s'"; cases "find_line ?cl s") auto
  then show ?thesis
    by cases (cases res; simp add: process_rebuild_result_def Let_def assms(1,2))+
qed

text \<open>The files to scan, each of them open and with a scan that keeps to its contract.\<close>

definition scannable :: "scans \<Rightarrow> log_source \<Rightarrow> nat list \<Rightarrow> bool" where
  "scannable scans s is \<longleftrightarrow> distinct is \<and> set is \<subseteq> {..<length (lss_files s)}
     \<and> (\<forall>i\<in>set is. ld_file_ptr (lss_files s ! i) \<noteq> None \<and> scan_ok scans (lss_files s ! i) i)"

lemma scannable_append: "scannable scans s (us @ vs) \<Longrightarrow> scannable scans s us"
  by (auto simp: scannable_def)

lemma scanned_extends:
  assumes "scannable scans s is" and "\<forall>i\<in>set is. \<not> new_order scans i"
  shows "extends (views s) (views (fold (scan_only scans) is s))"
  unfolding extends_def
proof (intro conjI allI impI)
  fix i assume "i < length (views s)"
  then have i: "i < length (lss_files s)" by simp
  note v = views_scanned [of "is" s i scans]
  have d: "distinct is" "set is \<subseteq> {..<length (lss_files s)}" using assms(1) by (auto simp: scannable_def)
  have "fst (snd (scan_view scans i (views s ! i))) = fst (snd (views s ! i))
    \<and> take (fst (snd (views s ! i))) (view_lines (scan_view scans i (views s ! i)))
      = take (fst (snd (views s ! i))) (view_lines (views s ! i))" if "i \<in> set is"
    using assms that i
    by (auto simp: scannable_def scan_ok_def scan_view_def nth_views view_def view_lines_def
        split: option.splits)
  with v [OF d i] show "fst (snd (views (fold (scan_only scans) is s) ! i)) = fst (snd (views s ! i))"
    and "take (fst (snd (views s ! i))) (view_lines (views (fold (scan_only scans) is s) ! i))
      = take (fst (snd (views s ! i))) (view_lines (views s ! i))"
    by auto
qed simp

lemma scanned_files_ok:
  assumes "scannable scans s is" and "files_ok (views s)"
  shows "files_ok (views (fold (scan_only scans) is s))"
  unfolding files_ok_def
proof (intro conjI allI impI)
  let ?vs = "views (fold (scan_only scans) is s)"
  show "length ?vs \<le> 2048" using assms(2) by (simp add: files_ok_def)
  fix i assume "i < length ?vs"
  then have i: "i < length (lss_files s)" by simp
  have d: "distinct is" "set is \<subseteq> {..<length (lss_files s)}" using assms(1) by (auto simp: scannable_def)
  have old: "fst (views s ! i) = i" "length (view_lines (views s ! i)) \<le> MAX_LINES_PER_FILE"
    "sorted_wrt (\<lambda>a b. \<not> logline_less b a) (view_lines (views s ! i))"
    using assms(2) i by (simp_all add: files_ok_def)
  have "fst (scan_view scans i (views s ! i)) = i
    \<and> length (view_lines (scan_view scans i (views s ! i))) \<le> MAX_LINES_PER_FILE
    \<and> sorted_wrt (\<lambda>a b. \<not> logline_less b a) (view_lines (scan_view scans i (views s ! i)))"
    if m: "i \<in> set is"
  proof (cases "scans i")
    case None
    with old show ?thesis by (simp add: scan_view_def)
  next
    case (Some x)
    obtain lf fs res where x: "x = (lf, fs, res)" by (cases x) auto
    obtain lf0 where "ld_file_ptr (lss_files s ! i) = Some lf0" "scan_ok scans (lss_files s ! i) i"
      using assms(1) m by (auto simp: scannable_def)
    then have "length (lf_lines lf) \<le> MAX_LINES_PER_FILE"
      "sorted_wrt (\<lambda>a b. \<not> logline_less b a) (lf_lines lf)"
      using Some x by (simp_all add: scan_ok_def)
    with Some x old(1) show ?thesis by (simp add: scan_view_def view_lines_def sorted_wrt_map)
  qed
  with old views_scanned [OF d i] show "fst (?vs ! i) = i"
    and "length (view_lines (?vs ! i)) \<le> MAX_LINES_PER_FILE"
    and "sorted_wrt (\<lambda>a b. \<not> logline_less b a) (view_lines (?vs ! i))"
    by auto
qed

lemma scanned_last_line:
  assumes "scannable scans s is" and "\<forall>i\<in>set is. \<not> new_order scans i"
    and "files_ok (views s)" and "index_ok s" and "lss_index s \<noteq> []"
  shows "map_option bare (find_line (ic_value (last (lss_index s))) (fold (scan_only scans) is s))
    = map_option bare (find_line (ic_value (last (lss_index s))) s)"
proof -
  let ?s = "fold (scan_only scans) is s"
  obtain ps where ps: "lss_index s = map (entry_of (views s)) ps" "set ps = places (views s)"
    using assms(4) by (auto simp: index_ok_def)
  then have "ps \<noteq> []" using assms(5) by auto
  then have p: "last ps \<in> places (views s)" "last (lss_index s) = entry_of (views s) (last ps)"
    using ps last_in_set [of ps] by (auto simp: last_map)
  note ext = scanned_extends [OF assms(1,2)]
  have l: "line_in (views ?s) (last ps) = line_in (views s) (last ps)" "last ps \<in> places (views ?s)"
    using extends_places [OF ext] p(1) by auto
  then have "entry_of (views ?s) (last ps) = entry_of (views s) (last ps)" by (simp add: entry_of_def)
  then show ?thesis
    using find_line_entry [OF scanned_files_ok [OF assms(1,3)] place_ok_places [OF l(2)]]
      find_line_entry [OF assms(3) place_ok_places [OF p(1)]] l(1) p(2) by auto
qed

text \<open>Scanning one after the other, and looking at each result at once.\<close>

lemma scan_one_fst: "fst (fold (scan_one ao scans) is (s, c, left)) = fold (scan_only scans) is s"
proof (induction "is" arbitrary: s c left)
  case (Cons i "is")
  then show ?case by (cases "scans i") (auto simp: scan_one_def scan_only_def Let_def)
qed simp

lemma scan_one_forced:
  "forced c \<or> (\<exists>i\<in>set is. new_order scans i) \<Longrightarrow>
   forced (fst (snd (fold (scan_one ao scans) is (s, c, left))))"
proof (induction "is" arbitrary: s c left)
  case (Cons i "is")
  show ?case
  proof (cases "scans i")
    case None
    with Cons.IH [of c s False] Cons.prems show ?thesis by (auto simp: scan_one_def new_order_def)
  next
    case (Some x)
    obtain lf fs res where x: "x = (lf, fs, res)" by (cases x) auto
    let ?s = "set_scanned i lf fs s"
    have "forced (process_rebuild_result ao ?s i res c) \<or> (\<exists>i\<in>set is. new_order scans i)"
      using Cons.prems Some x process_force [of c ao ?s i res] process_new_order [of res ao ?s i c]
      by (auto simp: new_order_def)
    from Cons.IH [OF this, of ?s left] show ?thesis by (simp add: scan_one_def Some x Let_def)
  qed
qed simp

lemma scan_one_process:
  assumes "scannable scans s (is @ js)" and "\<forall>i\<in>set (is @ js). \<not> new_order scans i"
    and "files_ok (views s)" and "index_ok s"
  shows "fst (snd (fold (scan_one ao scans) is (s, c, left))) =
    fold (process_only ao scans (fold (scan_only scans) (is @ js) s)) is c"
  using assms(1,2)
proof (induction "is" arbitrary: js rule: rev_induct)
  case (snoc i "is")
  let ?fin = "fold (scan_only scans) ((is @ [i]) @ js) s"
  have IH: "fst (snd (fold (scan_one ao scans) is (s, c, left))) = fold (process_only ao scans ?fin) is c"
    using snoc.IH [of "i # js"] snoc.prems by simp
  obtain left' where st: "fold (scan_one ao scans) is (s, c, left)
      = (fold (scan_only scans) is s, fold (process_only ao scans ?fin) is c, left')"
    using IH scan_one_fst [of ao scans "is" s c left] by (metis prod.collapse)
  define mid_c where "mid_c = fold (process_only ao scans ?fin) is c"
  have snoc_scan: "fold (scan_one ao scans) (is @ [i]) (s, c, left)
      = scan_one ao scans i (fold (scan_only scans) is s, mid_c, left')"
    by (simp add: st mid_c_def)
  have snoc_c: "fold (process_only ao scans ?fin) (is @ [i]) c = process_only ao scans ?fin i mid_c"
    by (simp add: mid_c_def)
  show ?case unfolding snoc_scan snoc_c
  proof (cases "scans i")
    case None
    then show "fst (snd (scan_one ao scans i (fold (scan_only scans) is s, mid_c, left')))
        = process_only ao scans ?fin i mid_c"
      by (simp add: scan_one_def process_only_def)
  next
    case (Some x)
    obtain lf fs res where x: "x = (lf, fs, res)" by (cases x) auto
    let ?mid = "fold (scan_only scans) (is @ [i]) s"
    have mid: "set_scanned i lf fs (fold (scan_only scans) is s) = ?mid"
      using Some x by (simp add: scan_only_def)
    have good: "scannable scans s (is @ [i])" "\<forall>i\<in>set (is @ [i]). \<not> new_order scans i"
      using snoc.prems scannable_append by auto
    have d: "distinct ((is @ [i]) @ js)" "i < length (lss_files s)"
      using snoc.prems(1) by (auto simp: scannable_def)
    have same: "process_rebuild_result ao ?mid i res c' = process_rebuild_result ao ?fin i res c'" for c'
    proof (rule process_same)
      have "lss_files ?mid ! i = lss_files (scan_only scans i s) ! i"
        "lss_files ?fin ! i = lss_files (scan_only scans i s) ! i"
        using d by (intro scan_fold_file; auto)+
      then show "lss_files ?mid ! i = lss_files ?fin ! i" by simp
    qed (use scanned_last_line [OF snoc.prems assms(3,4)] scanned_last_line [OF good assms(3,4)] in auto)
    have "fst (snd (scan_one ao scans i (fold (scan_only scans) is s, c', left'))) =
        process_rebuild_result ao ?fin i res c'" for c'
      unfolding same [symmetric] using mid Some x by (simp add: scan_one_def Let_def)
    then show "fst (snd (scan_one ao scans i (fold (scan_only scans) is s, mid_c, left')))
        = process_only ao scans ?fin i mid_c"
      using Some x by (simp add: process_only_def)
  qed
qed simp

end
