(* ===== verification/Log_Reading.thy ===== *)
theory Log_Reading
  imports Log_Index_Spec Logfile_Spec
begin

text \<open>
  The files under the index: a poll of a file (\<open>logfile::rebuild_index\<close>) gives the index what its
  rebuild relies on (\<open>scan_ok\<close> of \<open>Log_Index_Spec\<close>).
\<close>

fun scan_result_of :: "rebuild \<Rightarrow> scan_result" where
  "scan_result_of rebuild.NO_NEW_LINES = scan_result.NO_NEW_LINES"
| "scan_result_of rebuild.NEW_LINES = scan_result.NEW_LINES"
| "scan_result_of rebuild.NEW_ORDER = scan_result.NEW_ORDER"
| "scan_result_of rebuild.INVALID = scan_result.INVALID"

text \<open>What the index sees of a file, and of a poll of it.\<close>

definition as_logfile :: "logfile \<Rightarrow> 'o reader \<Rightarrow> logfile" where
  "as_logfile lf r = lf\<lparr>lf_lines := rd_index r, lf_longest_line := rd_longest_line r, lf_indexing := rd_indexing r,
     lf_time_ordered := (case rd_format r of Some f \<Rightarrow> fmt_time_ordered f | None \<Rightarrow> lf_time_ordered lf)\<rparr>"

definition scan_of :: "logfile \<Rightarrow> ('o \<Rightarrow> filter_state) \<Rightarrow> 'o env \<Rightarrow> 'o reader \<Rightarrow> (logfile \<times> filter_state \<times> scan_result) option" where
  "scan_of lf fs en r = map_option (\<lambda>(res, r'). (as_logfile lf r', fs (rd_observer r'), scan_result_of res))
     (file_rebuild_index en r)"

lemma grown_extends:
  assumes "settled en g ((li, raw) # xs) r" and "grown en st r" and "index_in_order (rd_index r)"
    and "\<forall>ll\<in>set (rd_index r). ll_time ll \<le> rd_tr_end r" and "last_read g en us li raw r"
    and "follows en (li_offset li) ((li, raw) # xs)"
  shows "\<exists>res r'. file_rebuild_index en r = Some (res, r') \<and> index_in_order (rd_index r')
    \<and> (res = INVALID \<or> take (length (rd_index r)) (rd_index r') = rd_index r) \<and> rd_format r' = Some g"
proof -
  have sc: "line_scanner (rd_tr_end r) (fmt_specialized_scan g)" "rd_format r = Some g"
    using assms(1) by (simp_all add: settled_def)
  note roll = last_read_rollback [OF sc(1) assms(5)]
  obtain res r' zs rest where r': "file_rebuild_index en r = Some (res, r')" "(li, raw) # xs = zs @ rest"
    "rd_index r' = read_all g (rd_index_time r) en zs us"
    "lines_ok (rd_tr_end r) (file_end (li_offset li) zs) (rd_index r')" "same_search r' r"
    "length (rd_index r') < length (rd_index r) \<longrightarrow> res = INVALID"
    using rebuild_grown [OF assms(1-4), unfolded roll(1,2), OF assms(6)] by blast
  have "take (length (rd_index r)) (rd_index r') = rd_index r" if "zs \<noteq> []"
  proof -
    from that r'(2) obtain ws where ws: "zs = (li, raw) # ws" by (cases zs) auto
    obtain new where "read_all g (rd_index_time r) en ((li, raw) # ws) us = rd_index r @ new" using roll(4) by blast
    with r'(3) ws show ?thesis by (simp del: read_all.simps)
  qed
  moreover have "res = INVALID" if "zs = []"
  proof -
    obtain t where "message_lines li t (new_of g (rd_index_time r) li (line_text en li raw) us)"
      using read_all_message [OF sc(1)] by blast
    with assms(5) that r'(3,6) show ?thesis by (auto simp: last_read_def message_lines_def)
  qed
  ultimately show ?thesis using r'(1,4,5) sc(2) by (auto simp: lines_ok_def same_search_def)
qed

text \<open>
  C5: polling a file that grows by whole lines, in a known format that no other format beats on its
  lines, keeps the promise that the rebuild of the index relies on: the lines that were indexed stay what
  they were unless the file is given up, and all lines of the file are in order.
\<close>

theorem grown_file_scan_ok:
  assumes "settled en g ((li, raw) # xs) r" and "grown en st r" and "index_in_order (rd_index r)"
    and "\<forall>ll\<in>set (rd_index r). ll_time ll \<le> rd_tr_end r" and "last_read g en us li raw r"
    and "follows en (li_offset li) ((li, raw) # xs)"
    and "ld_file_ptr ld = Some (as_logfile lf r)" and "ld_lines_indexed ld \<le> length (rd_index r)"
    and "\<forall>res r'. file_rebuild_index en r = Some (res, r') \<longrightarrow> length (rd_index r') \<le> MAX_LINES_PER_FILE"
  shows "scan_of lf fs en r \<noteq> None \<and> scan_ok (\<lambda>i. scan_of lf fs en r) ld i"
proof -
  obtain res r' where r': "file_rebuild_index en r = Some (res, r')" "index_in_order (rd_index r')"
    "res = INVALID \<or> take (length (rd_index r)) (rd_index r') = rd_index r" "rd_format r' = Some g"
    using grown_extends [OF assms(1-6)] by blast
  have g: "rd_format r = Some g" using assms(1) by (simp add: settled_def)
  have scan: "scan_of lf fs en r = Some (as_logfile lf r', fs (rd_observer r'), scan_result_of res)"
    using r'(1) by (simp add: scan_of_def)
  have keep: "ld_lines_indexed ld \<le> length (rd_index r')
    \<and> take (ld_lines_indexed ld) (rd_index r') = take (ld_lines_indexed ld) (rd_index r)" if "res \<noteq> INVALID"
  proof -
    from that r'(3) have t: "take (length (rd_index r)) (rd_index r') = rd_index r" by simp
    then have "length (rd_index r) \<le> length (rd_index r')" by (metis length_take min.cobounded1)
    moreover have "take (ld_lines_indexed ld) (rd_index r) = take (ld_lines_indexed ld) (rd_index r')"
      using arg_cong [OF t, of "take (ld_lines_indexed ld)"] assms(8) by (simp add: min_absorb1)
    ultimately show ?thesis using assms(8) by simp
  qed
  have "scan_ok (\<lambda>i. scan_of lf fs en r) ld i"
    using scan assms(7,9) r'(1,4) g index_in_order_sorted [OF r'(2)] keep
    by (cases "res = INVALID") (auto simp: scan_ok_def new_order_def as_logfile_def take_map)
  with scan show ?thesis by simp
qed

theorem grown_file_scan_ok_witness:
  "let r = new_reader (Some digit_format) True (read_all digit_format 0 (digit_env digit_lines) (take 2 digit_lines) []);
       lf = \<lparr>lf_id = 0, lf_lines = [], lf_time_ordered = True, lf_specialized = True, lf_remaining = 0,
             lf_longest_line = 0, lf_visible_option = True, lf_indexing = True, lf_metadata = (\<lambda>_. None)\<rparr>;
       ld = (logfile_data_new 0 (\<lambda>_. 0) (as_logfile lf r))\<lparr>ld_lines_indexed := 2\<rparr>
   in scan_ok (\<lambda>i. scan_of lf (\<lambda>_. filter_state_init (\<lambda>_. 0)) (digit_env digit_lines) r) ld 0"
proof -
  let ?en = "digit_env digit_lines"
  let ?ls = "read_all digit_format 0 ?en (take 2 digit_lines) []"
  let ?r = "new_reader (Some digit_format) True ?ls"
  let ?lf = "\<lparr>lf_id = 0, lf_lines = [], lf_time_ordered = True, lf_specialized = True, lf_remaining = 0,
             lf_longest_line = 0, lf_visible_option = True, lf_indexing = True, lf_metadata = (\<lambda>_. None)\<rparr>"
  let ?ld = "(logfile_data_new 0 (\<lambda>_. 0) (as_logfile ?lf ?r))\<lparr>ld_lines_indexed := 2\<rparr>"
  have ls: "?ls = [logline_new 0 5 LEVEL_INFO, (logline_new 4 5 LEVEL_INFO)\<lparr>ll_continued := True\<rparr>]"
    by (simp add: digit_simps' line_text_def rtrim_def is_line_ending_def new_of_def digit_format_def digit_scan_def
      isdigit_def schar_def noted_def unmatched_def usr_empty_def is_valid_def Let_def)
  have g: "grown ?en (15, 0) ?r"
    unfolding ls by (simp add: grown_def overwritten_def observers_run_def digit_simps')
  have o: "index_in_order (rd_index ?r)" "\<forall>ll\<in>set (rd_index ?r). ll_time ll \<le> rd_tr_end ?r"
    unfolding ls by (simp_all add: index_in_order_def ordered_def before_in_file_def digit_simps')
  let ?x = "line_at 4 '' b''" and ?xs = "[line_at 7 ''3 c'', line_at 11 ''7 d'']" and ?us = "[logline_new 0 5 LEVEL_INFO]"
  have lr: "last_read digit_format ?en ?us (fst ?x) (snd ?x) ?r"
    unfolding ls by (simp add: last_read_def digit_simps' line_text_def rtrim_def is_line_ending_def new_of_def
      digit_format_def digit_scan_def isdigit_def schar_def unmatched_def usr_empty_def is_valid_def Let_def)
  have f: "follows ?en (li_offset (fst ?x)) ((fst ?x, snd ?x) # ?xs)" by (simp add: digit_simps')
  have d: "ld_file_ptr ?ld = Some (as_logfile ?lf ?r)" "ld_lines_indexed ?ld \<le> length (rd_index ?r)"
    unfolding ls by (simp_all add: logfile_data_new_def new_reader_def)
  have m: "length (rd_index r') \<le> MAX_LINES_PER_FILE" if "file_rebuild_index ?en ?r = Some (res, r')" for res r'
  proof -
    have rf: "follows ?en (read_from ?r) (drop 1 digit_lines)"
      unfolding ls by (simp add: read_from_def digit_simps')
    obtain res2 r2 zs rest where r2: "file_rebuild_index ?en ?r = Some (res2, r2)" "drop 1 digit_lines = zs @ rest"
      "rd_index r2 = read_all digit_format (rd_index_time ?r) ?en zs (rollback (rd_index ?r))"
      using rebuild_grown [OF digit_settled g o rf] by blast
    have z: "drop 1 digit_lines = zs @ rest"
      "rd_index r' = read_all digit_format (rd_index_time ?r) ?en zs (rollback (rd_index ?r))"
      using r2 that by simp_all
    have one: "length (new_of digit_format t li sbr us) = 1" for t li sbr us
      by (simp add: new_of_def digit_format_def digit_scan_def noted_def skewed_def Let_def)
    have "length (read_all digit_format t ?en ws us) = length us + length ws" for t ws us
    proof (induction ws arbitrary: us)
      case (Cons w ws)
      show ?case by (cases w) (simp add: Cons one)
    qed simp
    then have "length (rd_index r') = length (rollback (rd_index ?r)) + length zs" by (simp only: z(2))
    moreover have "length (rollback (rd_index ?r)) = 1" unfolding ls by (simp add: rollback_def logline_new_def new_reader_def)
    moreover have "length zs \<le> 3" using arg_cong [OF z(1), of length] by (simp add: digit_lines_def)
    ultimately show ?thesis by (simp add: MAX_LINES_PER_FILE_def)
  qed
  from grown_file_scan_ok [OF digit_settled g o lr f d, of "\<lambda>_. filter_state_init (\<lambda>_. 0)" 0] m
  show ?thesis unfolding Let_def by blast
qed

end
