(* ===== verification/Time_Util.thy ===== *)
theory Time_Util
  imports Lnav_Prelude
begin

text \<open>
  \<open>src/base/time_util.cc\<close> and \<open>.hh\<close>: broken-down time (\<open>struct tm\<close>), the conversions
  \<open>secs2tm\<close> and \<open>tm2sec\<close> between it and seconds since the epoch, the RFC 3339 printer and
  \<open>time_range\<close>. The specification is the proleptic Gregorian calendar.
\<close>

section \<open>Data\<close>

text \<open>
  C's \<open>int\<close> and \<open>long\<close> fields are integers: no operation below comes near their bounds for the
  times the program accepts (\<open>MAX_TIME_T\<close>); how far \<open>secs2tm\<close> goes is \<open>secs2tm_year_bounds\<close>. \<open>tm_zone\<close> is null or a zone name
  (\<open>HAVE_STRUCT_TM_TM_ZONE\<close> is set).
\<close>

record tm =
  tm_sec :: int
  tm_min :: int
  tm_hour :: int
  tm_mday :: int
  tm_mon :: int
  tm_year :: int
  tm_wday :: int
  tm_yday :: int
  tm_isdst :: int
  tm_gmtoff :: int
  tm_zone :: "string option"

definition zero_tm :: tm where
  "zero_tm = \<lparr>tm_sec = 0, tm_min = 0, tm_hour = 0, tm_mday = 0, tm_mon = 0, tm_year = 0,
     tm_wday = 0, tm_yday = 0, tm_isdst = 0, tm_gmtoff = 0, tm_zone = None\<rparr>"

section \<open>Seconds to broken-down time\<close>

definition isleap :: "int \<Rightarrow> bool" where
  "isleap y \<longleftrightarrow> (y mod 4 = 0 \<and> y mod 100 \<noteq> 0) \<or> y mod 400 = 0"

definition year_length :: "int \<Rightarrow> int" where
  "year_length y = (if isleap y then 366 else 365)"

definition mon_yday :: "bool \<Rightarrow> int list" where
  "mon_yday leap =
     (if leap then [0, 31, 60, 91, 121, 152, 182, 213, 244, 274, 305, 335, 366]
      else [0, 31, 59, 90, 120, 151, 181, 212, 243, 273, 304, 334, 365])"

text \<open>\<open>days\<close> and \<open>rem\<close> of a time: division truncates, then the \<open>while\<close> loop borrows days.\<close>

function borrow_days :: "int \<Rightarrow> int \<Rightarrow> int \<times> int" where
  "borrow_days days r = (if r < 0 then borrow_days (days - 1) (r + 86400) else (days, r))"
  by pat_completeness auto
termination
  by (relation "measure (\<lambda>(days, r). nat (- r))") auto

declare borrow_days.simps [simp del]

text \<open>
  The two year loops: forward from 1970 (\<open>for\<close>) and backward (\<open>do ... while\<close>). The year is an
  \<open>int\<close> in the code and unbounded here: both agree while the year that is reached fits, which
  \<open>secs2tm_year_bounds\<close> shows for times up to 67 * 10^15 seconds from the epoch; beyond them the
  addition overflows and this is no model of the code.
\<close>

function years_up :: "int \<Rightarrow> int \<Rightarrow> int \<times> int" where
  "years_up y days =
     (if days < year_length y then (y, days) else years_up (y + 1) (days - year_length y))"
  by pat_completeness auto
termination
  by (relation "measure (\<lambda>(y, days). nat days)") (auto simp: year_length_def split: if_splits)

declare years_up.simps [simp del]

function years_down :: "int \<Rightarrow> int \<Rightarrow> int \<times> int" where
  "years_down y days =
     (let y' = y - 1; days' = days + year_length y'
      in if days' < 0 then years_down y' days' else (y', days'))"
  by pat_completeness auto
termination
  by (relation "measure (\<lambda>(y, days). nat (- days))") (auto simp: year_length_def split: if_splits)

declare years_down.simps [simp del]

text \<open>
  \<open>for (y = 11; days < (long int) ip[y]; --y)\<close>; it stops at 0 at the latest because
  \<open>ip[0]\<close> is 0 and \<open>days\<close> is not negative here.
\<close>

fun month_down :: "int list \<Rightarrow> int \<Rightarrow> nat \<Rightarrow> nat" where
  "month_down ip days 0 = 0"
| "month_down ip days (Suc y) = (if days < ip ! Suc y then month_down ip days y else Suc y)"

definition secs2tm_long :: "int \<Rightarrow> tm \<Rightarrow> tm" where
  "secs2tm_long lcltime res =
    (let (days, r) = borrow_days (lcltime sdiv 86400) (lcltime smod 86400);
         hour = r sdiv 3600;
         r = r smod 3600;
         wd = (4 + days) smod 7;
         (y, yday) = (if days \<ge> 0 then years_up 1970 days else years_down 1970 days);
         ip = mon_yday (isleap y);
         mon = month_down ip yday 11
     in res\<lparr>tm_hour := hour, tm_min := r sdiv 60, tm_sec := r smod 60,
            tm_wday := (if wd < 0 then wd + 7 else wd),
            tm_year := y - 1900, tm_yday := yday,
            tm_mon := int mon, tm_mday := yday - ip ! mon + 1, tm_isdst := 0\<rparr>)"

text \<open>\<open>lnav::time64_t\<close> is \<open>uint64_t\<close>; the code reads it as a \<open>long\<close>.\<close>

definition secs2tm :: "64 word \<Rightarrow> tm \<Rightarrow> tm" where
  "secs2tm tim res = secs2tm_long (sint tim) res"

definition secs2wday :: "int \<Rightarrow> tm \<Rightarrow> tm" where
  "secs2wday tv_sec res =
    (let (days, r) = borrow_days (tv_sec sdiv 86400) (tv_sec smod 86400);
         wd = (4 + days) smod 7
     in res\<lparr>tm_wday := (if wd < 0 then wd + 7 else wd)\<rparr>)"

section \<open>Broken-down time to seconds\<close>

definition BAD_DATE :: int where
  "BAD_DATE = -1"

definition dayoffset :: "int list" where
  "dayoffset = [306, 337, 0, 31, 61, 92, 122, 153, 184, 214, 245, 275]"

text \<open>
  \<open>time_t\<close> has 8 bytes, so the clamp for 4-byte \<open>time_t\<close> is dead. After the first guard and
  the shift to a March-based year, \<open>year\<close> is at least 69, where C's division is \<open>div\<close>.
  The index into \<open>dayoffset\<close> is in range for the months the parsers produce (0 to 11).
\<close>

definition tm2sec :: "tm \<Rightarrow> int" where
  "tm2sec t =
    (if tm_year t < 70 then BAD_DATE
     else
       let year = (if tm_yday t \<ge> 1
                   then (if tm_yday t \<le> 59 then tm_year t - 1 else tm_year t)
                   else (if tm_mon t < 2 then tm_year t - 1 else tm_year t));
           days = year * 365 + year div 4 - year div 100 + (year div 100 + 3) div 4;
           days = days +
             (if tm_yday t \<ge> 1
              then (if tm_yday t > 59
                    then tm_yday t - 59 - (if isleap year then 1 else 0)
                    else 306 + tm_yday t)
              else dayoffset ! nat (tm_mon t) + tm_mday t - 1);
           days = days - 25508;
           secs = ((days * 24 + tm_hour t) * 60 + tm_min t) * 60 + tm_sec t
       in if secs < 0 then BAD_DATE
          else (case tm_zone t of None \<Rightarrow> secs | Some _ \<Rightarrow> secs - tm_gmtoff t))"


section \<open>RFC 3339 printing and time ranges\<close>

text \<open>
  The buffer after the call, without its NUL. \<open>micros\<close> is a count of microseconds; its fraction
  of a second is taken with C's \<open>%\<close>.
\<close>

definition strftime_rfc3339 :: "tm \<Rightarrow> int \<Rightarrow> char \<Rightarrow> char list" where
  "strftime_rfc3339 t micros sep =
    (let micros_count = micros smod 1000000;
         year = tm_year t + 1900;
         month = tm_mon t + 1
     in [cdigit year 1000, cdigit year 100, cdigit year 10, cdigit year 1, CHR ''-'',
         cdigit month 10, cdigit month 1, CHR ''-'',
         cdigit (tm_mday t) 10, cdigit (tm_mday t) 1, sep,
         cdigit (tm_hour t) 10, cdigit (tm_hour t) 1, CHR '':'',
         cdigit (tm_min t) 10, cdigit (tm_min t) 1, CHR '':'',
         cdigit (tm_sec t) 10, cdigit (tm_sec t) 1, CHR ''.'',
         cdigit micros_count 100000, cdigit micros_count 10000, cdigit micros_count 1000,
         cdigit micros_count 100, cdigit micros_count 10, cdigit micros_count 1])"

text \<open>\<open>duration_cast<seconds>\<close> truncates; \<open>secs2tm\<close> takes the count as a \<open>uint64_t\<close>.\<close>

definition to_rfc3339_string :: "int \<Rightarrow> char \<Rightarrow> char list" where
  "to_rfc3339_string micros sep =
     strftime_rfc3339 (secs2tm (word_of_int (micros sdiv 1000000)) zero_tm) micros sep"

record time_range =
  tr_begin :: int
  tr_end :: int

text \<open>\<open>std::chrono::microseconds::max()\<close>: the largest signed 64-bit count.\<close>

definition microseconds_max :: int where
  "microseconds_max = 2 ^ 63 - 1"

definition unbounded :: time_range where
  "unbounded = \<lparr>tr_begin = 0, tr_end = microseconds_max\<rparr>"

definition invalidate :: "time_range \<Rightarrow> time_range" where
  "invalidate tr = tr\<lparr>tr_begin := microseconds_max, tr_end := 0\<rparr>"

definition has_lower_bound :: "time_range \<Rightarrow> bool" where
  "has_lower_bound tr \<longleftrightarrow> tr_begin tr \<noteq> 0"

definition has_upper_bound :: "time_range \<Rightarrow> bool" where
  "has_upper_bound tr \<longleftrightarrow> tr_end tr \<noteq> microseconds_max"

definition has_bounds :: "time_range \<Rightarrow> bool" where
  "has_bounds tr \<longleftrightarrow> has_lower_bound tr \<or> has_upper_bound tr"

text \<open>\<open>operator|=\<close>\<close>

definition tr_union :: "time_range \<Rightarrow> time_range \<Rightarrow> time_range" where
  "tr_union this rhs =
    (let this = (if tr_begin rhs < tr_begin this then this\<lparr>tr_begin := tr_begin rhs\<rparr> else this)
     in if tr_end this < tr_end rhs then this\<lparr>tr_end := tr_end rhs\<rparr> else this)"

definition extend_to :: "time_range \<Rightarrow> int \<Rightarrow> time_range" where
  "extend_to this tv =
    (if tv < tr_begin this then this\<lparr>tr_begin := tv\<rparr>
     else if tr_end this < tv then this\<lparr>tr_end := tv\<rparr> else this)"

definition duration :: "time_range \<Rightarrow> int" where
  "duration tr = tr_end tr - tr_begin tr"

definition contains_inclusive :: "time_range \<Rightarrow> int \<Rightarrow> bool" where
  "contains_inclusive tr tv \<longleftrightarrow> tr_begin tr \<le> tv \<and> tv \<le> tr_end tr"

section \<open>The calendar the conversions are measured against\<close>

text \<open>
  \<open>jan1 y\<close> is the number of days from 1970-01-01 to the first of January of year \<open>y\<close> in the
  proleptic Gregorian calendar: 0 for 1970, and one year length further for each year
  (\<open>jan1_Suc\<close>), which determines it.
\<close>

definition jan1 :: "int \<Rightarrow> int" where
  "jan1 y = 365 * (y - 1970) + ((y - 1) div 4 - 492) - ((y - 1) div 100 - 19) + ((y - 1) div 400 - 4)"

lemma jan1_1970: "jan1 1970 = 0"
  by (simp add: jan1_def)

lemma div_step:
  fixes y n :: int
  assumes n: "0 < n"
  shows "y div n = (y - 1) div n + (if y mod n = 0 then 1 else 0)"
proof -
  define q r where "q = y div n" and "r = y mod n"
  have y: "y = n * q + r" and r: "0 \<le> r" "r < n"
    using n by (simp_all add: q_def r_def)
  show ?thesis
  proof (cases "r = 0")
    case True
    have "(y - 1) div n = q - 1"
      by (rule int_div_pos_eq [where r = "n - 1"]) (use y True n in \<open>auto simp: algebra_simps\<close>)
    with True show ?thesis by (simp add: q_def r_def)
  next
    case False
    have "(y - 1) div n = q"
      by (rule int_div_pos_eq [where r = "r - 1"]) (use y r False in auto)
    with False show ?thesis by (simp add: q_def r_def)
  qed
qed

lemma div_step':
  fixes x y n :: int
  shows "0 < n \<Longrightarrow> y = x + 1 \<Longrightarrow> y div n = x div n + (if y mod n = 0 then 1 else 0)"
  using div_step [of n y] by simp

lemma jan1_Suc: "jan1 (y + 1) = jan1 y + year_length y"
proof -
  define A B C where "A \<longleftrightarrow> y mod 4 = 0" and "B \<longleftrightarrow> y mod 100 = 0" and "C \<longleftrightarrow> y mod 400 = 0"
  define a b c where "a = (y - 1) div 4" and "b = (y - 1) div 100" and "c = (y - 1) div 400"
  have CB: "C \<Longrightarrow> B" and BA: "B \<Longrightarrow> A"
    unfolding A_def B_def C_def by (erule mod_zero_trans [rotated], simp)+
  have "y div 4 = a + (if A then 1 else 0)" "y div 100 = b + (if B then 1 else 0)"
    "y div 400 = c + (if C then 1 else 0)"
    unfolding A_def B_def C_def a_def b_def c_def by (rule div_step, simp)+
  then have "jan1 (y + 1) - jan1 y
      = 365 + (if A then 1 else 0) - (if B then 1 else 0) + (if C then 1 else 0)"
    unfolding jan1_def by (simp flip: a_def b_def c_def)
  moreover have "year_length y = (if (A \<and> \<not> B) \<or> C then 366 else 365)"
    unfolding year_length_def isleap_def by (simp only: A_def B_def C_def)
  ultimately show ?thesis using CB BA by (auto split: if_splits)
qed

lemma year_length_pos: "0 < year_length y"
  by (simp add: year_length_def)

lemma jan1_mono: "y \<le> z \<Longrightarrow> jan1 y \<le> jan1 z"
proof (induction z rule: int_ge_induct)
  case base
  show ?case by simp
next
  case (step z)
  then show ?case using year_length_pos [of z] by (simp add: jan1_Suc)
qed

lemma jan1_nonneg: "1970 \<le> y \<Longrightarrow> 0 \<le> jan1 y"
  using jan1_mono [of 1970 y] by (simp add: jan1_1970)

text \<open>The day a month starts on, within its year.\<close>

definition month_start :: "int \<Rightarrow> int \<Rightarrow> int" where
  "month_start y mon = mon_yday (isleap y) ! nat mon"

definition civil_days :: "int \<Rightarrow> int \<Rightarrow> int \<Rightarrow> int" where
  "civil_days y mon mday = jan1 y + month_start y mon + (mday - 1)"

lemma borrow_days_spec:
  "- 86400 < r \<Longrightarrow> r < 86400 \<Longrightarrow>
   borrow_days days r = (if r < 0 then (days - 1, r + 86400) else (days, r))"
  by (auto simp: borrow_days.simps [of days r] borrow_days.simps [of "days - 1"])

lemma smod_sdiv_split:
  fixes t :: int
  shows "t sdiv 86400 * 86400 + t smod 86400 = t" and "\<bar>t smod 86400\<bar> < 86400"
    and "0 \<le> t \<Longrightarrow> 0 \<le> t smod 86400" and "t < 0 \<Longrightarrow> t smod 86400 \<le> 0"
proof -
  show "t sdiv 86400 * 86400 + t smod 86400 = t"
    by (rule sdiv_mult_smod_eq)
  show "\<bar>t smod 86400\<bar> < 86400" "0 \<le> t \<Longrightarrow> 0 \<le> t smod 86400" "t < 0 \<Longrightarrow> t smod 86400 \<le> 0"
    by (auto simp: signed_modulo_int_def sgn_if abs_if)
qed

text \<open>Truncation and borrowing together are division that rounds down.\<close>

lemma borrow_days_floor:
  "borrow_days (t sdiv 86400) (t smod 86400) = (t div 86400, t mod 86400)"
proof -
  have "borrow_days (t sdiv 86400) (t smod 86400) =
      (if t smod 86400 < 0 then (t sdiv 86400 - 1, t smod 86400 + 86400)
       else (t sdiv 86400, t smod 86400))"
    using smod_sdiv_split (2) [of t] by (intro borrow_days_spec) auto
  moreover have "t div 86400 = t sdiv 86400 - 1 \<and> t mod 86400 = t smod 86400 + 86400"
    if "t smod 86400 < 0"
    using that smod_sdiv_split (1,2) [of t]
    by (intro conjI int_div_pos_eq [where r = "t smod 86400 + 86400"]
        int_mod_pos_eq [where q = "t sdiv 86400 - 1"]) auto
  moreover have "t div 86400 = t sdiv 86400 \<and> t mod 86400 = t smod 86400"
    if "\<not> t smod 86400 < 0"
    using that smod_sdiv_split (1,2) [of t]
    by (intro conjI int_div_pos_eq [where r = "t smod 86400"]
        int_mod_pos_eq [where q = "t sdiv 86400"]) auto
  ultimately show ?thesis by (auto split: if_splits)
qed

lemma years_up_spec:
  "0 \<le> days \<Longrightarrow> years_up y days = (y', d') \<Longrightarrow>
   jan1 y' + d' = jan1 y + days \<and> 0 \<le> d' \<and> d' < year_length y' \<and> y \<le> y'"
proof (induction y days rule: years_up.induct)
  case (1 y days)
  show ?case
  proof (cases "days < year_length y")
    case True
    with 1 show ?thesis by (auto simp: years_up.simps [of y days])
  next
    case False
    with 1 have "jan1 y' + d' = jan1 (y + 1) + (days - year_length y) \<and> 0 \<le> d'
        \<and> d' < year_length y' \<and> y + 1 \<le> y'"
      by (simp add: years_up.simps [of y days])
    then show ?thesis by (simp add: jan1_Suc)
  qed
qed

lemma years_down_spec:
  "days < 0 \<Longrightarrow> years_down y days = (y', d') \<Longrightarrow>
   jan1 y' + d' = jan1 y + days \<and> 0 \<le> d' \<and> d' < year_length y' \<and> y' < y"
proof (induction y days rule: years_down.induct)
  case (1 y days)
  have j: "jan1 y = jan1 (y - 1) + year_length (y - 1)"
    using jan1_Suc [of "y - 1"] by simp
  show ?case
  proof (cases "days + year_length (y - 1) < 0")
    case True
    with 1 have "jan1 y' + d' = jan1 (y - 1) + (days + year_length (y - 1)) \<and> 0 \<le> d'
        \<and> d' < year_length y' \<and> y' < y - 1"
      by (simp add: years_down.simps [of y days] Let_def)
    with j show ?thesis by simp
  next
    case False
    with 1 j show ?thesis by (auto simp: years_down.simps [of y days] Let_def)
  qed
qed

lemma length_mon_yday [simp]: "length (mon_yday l) = 13"
  by (simp add: mon_yday_def)

lemma mon_yday_0 [simp]: "mon_yday l ! 0 = 0"
  by (simp add: mon_yday_def)

lemma mon_yday_12: "mon_yday (isleap y) ! 12 = year_length y"
  by (simp add: mon_yday_def year_length_def)

lemma month_down_le: "month_down ip d n \<le> n"
  by (induction ip d n rule: month_down.induct) auto

lemma month_down_spec:
  "ip ! 0 \<le> d \<Longrightarrow> d < ip ! Suc n \<Longrightarrow>
   ip ! month_down ip d n \<le> d \<and> d < ip ! Suc (month_down ip d n)"
  by (induction ip d n rule: month_down.induct) auto


section \<open>Functional correctness of the conversions\<close>

text \<open>What it means for a broken-down time to name a moment of the calendar consistently.\<close>

definition month_length :: "int \<Rightarrow> int \<Rightarrow> int" where
  "month_length y mon = mon_yday (isleap y) ! Suc (nat mon) - mon_yday (isleap y) ! nat mon"

definition valid_tm :: "tm \<Rightarrow> bool" where
  "valid_tm t \<longleftrightarrow>
     0 \<le> tm_sec t \<and> tm_sec t < 60 \<and> 0 \<le> tm_min t \<and> tm_min t < 60 \<and>
     0 \<le> tm_hour t \<and> tm_hour t < 24 \<and> 0 \<le> tm_mon t \<and> tm_mon t < 12 \<and>
     1 \<le> tm_mday t \<and> tm_mday t \<le> month_length (tm_year t + 1900) (tm_mon t)"

definition day_secs :: "tm \<Rightarrow> int" where
  "day_secs t = tm_hour t * 3600 + tm_min t * 60 + tm_sec t"

text \<open>Seconds since the epoch of the date and time of day that the fields name.\<close>

definition civil_secs :: "tm \<Rightarrow> int" where
  "civil_secs t =
     civil_days (tm_year t + 1900) (tm_mon t) (tm_mday t) * 86400 + day_secs t"

lemma years_loop_spec:
  assumes "(if days \<ge> 0 then years_up 1970 days else years_down 1970 days) = (y, d)"
  shows "jan1 y + d = days" and "0 \<le> d" and "d < year_length y" and "0 \<le> days \<Longrightarrow> 1970 \<le> y"
  using assms years_up_spec [of days 1970 y d] years_down_spec [of days 1970 y d] jan1_1970
  by (auto split: if_splits)

lemma secs2tm_long_fields:
  fixes t :: int and res :: tm
  defines "r \<equiv> secs2tm_long t res" and "days \<equiv> t div 86400" and "s \<equiv> t mod 86400"
  shows "tm_hour r = s div 3600" and "tm_min r = s mod 3600 div 60"
    and "tm_sec r = s mod 3600 mod 60"
    and "(if days \<ge> 0 then years_up 1970 days else years_down 1970 days)
         = (tm_year r + 1900, tm_yday r)"
    and "tm_mon r = int (month_down (mon_yday (isleap (tm_year r + 1900))) (tm_yday r) 11)"
    and "tm_mday r = tm_yday r - month_start (tm_year r + 1900) (tm_mon r) + 1"
    and "tm_zone r = tm_zone res" and "tm_gmtoff r = tm_gmtoff res" and "tm_isdst r = 0"
proof -
  obtain y d where yd: "(if days \<ge> 0 then years_up 1970 days else years_down 1970 days) = (y, d)"
    by fastforce
  have s: "0 \<le> s" by (simp add: s_def)
  note unf = r_def secs2tm_long_def borrow_days_floor Let_def month_start_def
  have "r = secs2tm_long t res" by (simp add: r_def)
  with yd [unfolded days_def] s show "tm_hour r = s div 3600" "tm_min r = s mod 3600 div 60"
    "tm_sec r = s mod 3600 mod 60"
    "(if days \<ge> 0 then years_up 1970 days else years_down 1970 days)
         = (tm_year r + 1900, tm_yday r)"
    "tm_mon r = int (month_down (mon_yday (isleap (tm_year r + 1900))) (tm_yday r) 11)"
    "tm_mday r = tm_yday r - month_start (tm_year r + 1900) (tm_mon r) + 1"
    "tm_zone r = tm_zone res" "tm_gmtoff r = tm_gmtoff res" "tm_isdst r = 0"
    by (simp_all add: unf s_def days_def sdiv_nonneg smod_nonneg split_beta)
qed

lemma secs2tm_long_yday:
  fixes t :: int and res :: tm
  defines "r \<equiv> secs2tm_long t res"
  shows "jan1 (tm_year r + 1900) + tm_yday r = t div 86400" and "0 \<le> tm_yday r"
    and "tm_yday r < year_length (tm_year r + 1900)" and "0 \<le> t \<Longrightarrow> 70 \<le> tm_year r"
  using years_loop_spec [OF secs2tm_long_fields(4) [of t res]] unfolding r_def
  by (auto simp: pos_imp_zdiv_nonneg_iff)

lemma secs2tm_long_day_secs: "day_secs (secs2tm_long t res) = t mod 86400"
proof -
  have "s div 3600 * 3600 + s mod 3600 div 60 * 60 + s mod 3600 mod 60 = (s::int)" for s
    by simp
  then show ?thesis by (simp add: day_secs_def secs2tm_long_fields)
qed

lemma month_down_mon_yday:
  assumes "0 \<le> d" and "d < year_length y"
  defines "m \<equiv> month_down (mon_yday (isleap y)) d 11"
  shows "mon_yday (isleap y) ! m \<le> d" and "d < mon_yday (isleap y) ! Suc m" and "m < 12"
proof -
  have 12: "Suc 11 = (12::nat)" by simp
  show "mon_yday (isleap y) ! m \<le> d" "d < mon_yday (isleap y) ! Suc m"
    using month_down_spec [of "mon_yday (isleap y)" d 11] assms mon_yday_12 [of y]
    unfolding 12 by simp_all
  show "m < 12" using month_down_le [of "mon_yday (isleap y)" d 11] by (simp add: m_def)
qed

lemma secs2tm_long_valid: "valid_tm (secs2tm_long t res)"
proof -
  have "0 \<le> s div 3600 \<and> s div 3600 < 24" if "0 \<le> s" "s < 86400" for s :: int
    using that by auto
  then have "0 \<le> t mod 86400 div 3600 \<and> t mod 86400 div 3600 < 24" by simp
  moreover have "0 \<le> u div 60 \<and> u div 60 < 60" if "0 \<le> u" "u < 3600" for u :: int
    using that by auto
  then have "0 \<le> t mod 86400 mod 3600 div 60 \<and> t mod 86400 mod 3600 div 60 < 60" by simp
  ultimately show ?thesis
    using secs2tm_long_yday [where t = t and res = res]
      month_down_mon_yday [of "tm_yday (secs2tm_long t res)" "tm_year (secs2tm_long t res) + 1900"]
    by (simp add: valid_tm_def secs2tm_long_fields(1,2,3,5,6) month_start_def month_length_def)
qed

lemma secs2tm_long_civil: "civil_secs (secs2tm_long t res) = t"
proof -
  let ?r = "secs2tm_long t res"
  have "civil_days (tm_year ?r + 1900) (tm_mon ?r) (tm_mday ?r) = t div 86400"
    using secs2tm_long_yday(1) [of t res]
    by (simp add: civil_days_def secs2tm_long_fields(6))
  then show ?thesis by (simp add: civil_secs_def secs2tm_long_day_secs)
qed

subsection \<open>Days since the first of March 1900\<close>

lemma march_days:
  assumes "0 \<le> year"
  shows "year * 365 + year div 4 - year div 100 + (year div 100 + 3) div 4 - 25508
         = jan1 (year + 1900) + month_start (year + 1900) 2"
proof -
  define A B C where "A \<longleftrightarrow> year mod 4 = 0" and "B \<longleftrightarrow> year mod 100 = 0"
    and "C \<longleftrightarrow> (year + 300) mod 400 = 0"
  define a b c where "a = year div 4" and "b = year div 100" and "c = (year + 300) div 400"
  have m: "(year + 1900) mod 4 = year mod 4" "(year + 1900) mod 100 = year mod 100"
    "(year + 1900) mod 400 = (year + 300) mod 400" "(year + 300) mod 100 = year mod 100"
    by (rule int_mod_shift [where k = 475] int_mod_shift [where k = 19]
        int_mod_shift [where k = 4] int_mod_shift [where k = 3], simp)+
  have d: "(year + 1900) div 4 = a + 475" "(year + 1900) div 100 = b + 19"
    "(year + 1900) div 400 = c + 4"
    unfolding a_def b_def c_def by (rule int_div_shift; simp)+
  have BA: "B \<Longrightarrow> A"
    unfolding A_def B_def by (erule mod_zero_trans [rotated]) simp
  have "C \<Longrightarrow> (year + 300) mod 100 = 0"
    unfolding C_def by (erule mod_zero_trans [rotated]) simp
  then have CB: "C \<Longrightarrow> B" unfolding B_def m .
  have leap: "isleap (year + 1900) \<longleftrightarrow> (A \<and> \<not> B) \<or> C"
    unfolding isleap_def m by (simp only: A_def B_def C_def)
  define a' b' c' where "a' = (year + 1899) div 4" and "b' = (year + 1899) div 100"
    and "c' = (year + 1899) div 400"
  have "a + 475 = a' + (if A then 1 else 0)"
    unfolding A_def a'_def d(1) [symmetric] m(1) [symmetric] by (rule div_step') simp_all
  moreover have "b + 19 = b' + (if B then 1 else 0)"
    unfolding B_def b'_def d(2) [symmetric] m(2) [symmetric] by (rule div_step') simp_all
  moreover have "c + 4 = c' + (if C then 1 else 0)"
    unfolding C_def c'_def d(3) [symmetric] m(3) [symmetric] by (rule div_step') simp_all
  moreover have "(b + 3) div 4 = c"
  proof -
    have "(year + 300) div 100 = b + 3"
      unfolding b_def by (rule int_div_shift) simp_all
    then show ?thesis
      using zdiv_zmult2_eq [of 4 "year + 300" 100] by (simp add: c_def)
  qed
  moreover have "jan1 (year + 1900) = 365 * (year - 70) + (a' - 492) - (b' - 19) + (c' - 4)"
  proof -
    have e: "year + 1900 - 1 = year + 1899" by simp
    show ?thesis unfolding jan1_def e a'_def b'_def c'_def by simp
  qed
  moreover have "month_start (year + 1900) 2 = (if (A \<and> \<not> B) \<or> C then 60 else 59)"
    unfolding month_start_def leap by (simp add: mon_yday_def)
  ultimately have "year * 365 + a - b + (b + 3) div 4 - 25508
      = jan1 (year + 1900) + month_start (year + 1900) 2"
    using BA CB by (cases A; cases B; cases C; simp)
  then show ?thesis by (simp only: a_def b_def)
qed

lemma year_days_split:
  "jan1 (y + 1) = jan1 y + mon_yday (isleap y) ! 12"
  by (simp add: jan1_Suc mon_yday_12)

text \<open>
  The month table of \<open>tm2sec\<close> counts from March, with January and February in the year before.
\<close>

lemma nat_less_12_cases:
  assumes "0 \<le> m" and "m < (12::int)"
  shows "m = 0 \<or> m = 1 \<or> m = 2 \<or> m = 3 \<or> m = 4 \<or> m = 5 \<or> m = 6 \<or> m = 7 \<or> m = 8
    \<or> m = 9 \<or> m = 10 \<or> m = 11"
  using assms by arith

lemma dayoffset_late: "2 \<le> m \<Longrightarrow> m < 12 \<Longrightarrow>
    dayoffset ! nat m = month_start y m - month_start y 2"
  using nat_less_12_cases [of m] by (auto simp: dayoffset_def month_start_def mon_yday_def)

lemma dayoffset_early: "0 \<le> m \<Longrightarrow> m < 2 \<Longrightarrow> dayoffset ! nat m = 306 + month_start y m"
  using nat_less_12_cases [of m] by (auto simp: dayoffset_def month_start_def mon_yday_def)

lemma march_to_jan: "month_start y 2 + 306 = year_length y"
  by (simp add: month_start_def mon_yday_def year_length_def)

lemma march_days_prev:
  assumes "1 \<le> year"
  shows "(year - 1) * 365 + (year - 1) div 4 - (year - 1) div 100 + ((year - 1) div 100 + 3) div 4
         - 25508 + 306 = jan1 (year + 1900)"
  using march_days [of "year - 1"] assms jan1_Suc [of "year + 1899"]
    march_to_jan [of "year + 1899"] by (simp add: algebra_simps)

lemma tm2sec_days_month:
  assumes y: "70 \<le> tm_year t" and yd: "tm_yday t < 1" and m: "0 \<le> tm_mon t" "tm_mon t < 12"
    and z: "tm_zone t = None"
  shows "tm2sec t = (if civil_secs t < 0 then BAD_DATE else civil_secs t)"
proof (cases "tm_mon t < 2")
  case True
  have "(tm_year t - 1) * 365 + (tm_year t - 1) div 4 - (tm_year t - 1) div 100
        + ((tm_year t - 1) div 100 + 3) div 4 - 25508 + 306 = jan1 (tm_year t + 1900)"
    using y by (intro march_days_prev) simp
  moreover have "dayoffset ! nat (tm_mon t) = 306 + month_start (tm_year t + 1900) (tm_mon t)"
    using True m by (intro dayoffset_early) auto
  ultimately show ?thesis
    using True y yd z
    by (simp add: tm2sec_def Let_def civil_secs_def civil_days_def day_secs_def algebra_simps)
next
  case False
  have "tm_year t * 365 + tm_year t div 4 - tm_year t div 100 + (tm_year t div 100 + 3) div 4
        - 25508 = jan1 (tm_year t + 1900) + month_start (tm_year t + 1900) 2"
    using y by (intro march_days) simp
  moreover have "dayoffset ! nat (tm_mon t)
      = month_start (tm_year t + 1900) (tm_mon t) - month_start (tm_year t + 1900) 2"
    using False m by (intro dayoffset_late) auto
  ultimately show ?thesis
    using False y yd z
    by (simp add: tm2sec_def Let_def civil_secs_def civil_days_def day_secs_def algebra_simps)
qed


subsection \<open>The day-of-year path\<close>

text \<open>
  When \<open>tm_yday\<close> is set, \<open>tm2sec\<close> asks \<open>isleap\<close> about the year counted from 1900. The number
  of days its answer is off by, from March on:
\<close>

definition leap_skew :: "tm \<Rightarrow> int" where
  "leap_skew t =
    (if tm_yday t > 59
     then of_bool (isleap (tm_year t + 1900)) - of_bool (isleap (tm_year t))
     else 0)"

definition yday_secs :: "tm \<Rightarrow> int" where
  "yday_secs t = (jan1 (tm_year t + 1900) + tm_yday t) * 86400 + day_secs t"

lemma tm2sec_days_yday:
  assumes y: "70 \<le> tm_year t" and yd: "1 \<le> tm_yday t" and z: "tm_zone t = None"
  shows "tm2sec t = (let s = yday_secs t + 86400 * leap_skew t
                     in if s < 0 then BAD_DATE else s)"
proof (cases "tm_yday t \<le> 59")
  case True
  have "(tm_year t - 1) * 365 + (tm_year t - 1) div 4 - (tm_year t - 1) div 100
        + ((tm_year t - 1) div 100 + 3) div 4 - 25508 + 306 = jan1 (tm_year t + 1900)"
    using y by (intro march_days_prev) simp
  with True y yd z show ?thesis
    by (simp add: tm2sec_def Let_def yday_secs_def leap_skew_def day_secs_def algebra_simps)
next
  case False
  have "tm_year t * 365 + tm_year t div 4 - tm_year t div 100 + (tm_year t div 100 + 3) div 4
        - 25508 = jan1 (tm_year t + 1900) + month_start (tm_year t + 1900) 2"
    using y by (intro march_days) simp
  moreover have "month_start (tm_year t + 1900) 2 = 59 + of_bool (isleap (tm_year t + 1900))"
    by (simp add: month_start_def mon_yday_def)
  ultimately show ?thesis
    using False y yd z
    by (simp add: tm2sec_def Let_def yday_secs_def leap_skew_def day_secs_def algebra_simps)
qed

lemma secs2tm_long_yday_secs: "yday_secs (secs2tm_long t res) = t"
  using secs2tm_long_yday(1) [of t res] by (simp add: yday_secs_def secs2tm_long_day_secs)

lemma tm2sec_secs2tm_long:
  assumes t: "0 \<le> t" and z: "tm_zone res = None"
  shows "tm2sec (secs2tm_long t res) = t + 86400 * leap_skew (secs2tm_long t res)"
proof -
  let ?r = "secs2tm_long t res"
  have y: "70 \<le> tm_year ?r" and yd: "0 \<le> tm_yday ?r" and zr: "tm_zone ?r = None"
    using secs2tm_long_yday [of t res] t z by (simp_all add: secs2tm_long_fields)
  show ?thesis
  proof (cases "tm_yday ?r = 0")
    case True
    have v: "0 \<le> tm_mon ?r" "tm_mon ?r < 12"
      using secs2tm_long_valid [of t res] by (simp_all add: valid_tm_def)
    have "tm2sec ?r = t"
      using tm2sec_days_month [OF y _ v zr] True t by (simp add: secs2tm_long_civil)
    with True show ?thesis by (simp add: leap_skew_def)
  next
    case False
    with yd have yd1: "1 \<le> tm_yday ?r" by simp
    have "0 \<le> t + 86400 * leap_skew ?r"
    proof (cases "tm_yday ?r \<le> 59")
      case True
      with t show ?thesis by (simp add: leap_skew_def)
    next
      case False
      have "0 \<le> jan1 (tm_year ?r + 1900)"
        using y by (simp add: jan1_nonneg)
      then have "60 \<le> t div 86400"
        using secs2tm_long_yday(1) [of t res] False by simp
      then have "86400 \<le> t" by linarith
      then show ?thesis by (simp add: leap_skew_def)
    qed
    then show ?thesis
      using tm2sec_days_yday [OF y yd1 zr] by (simp add: Let_def secs2tm_long_yday_secs)
  qed
qed

lemma isleap_offset:
  assumes "70 \<le> k" and "k \<le> 196" and "isleap (k + 1900) \<noteq> isleap k"
  shows "k = 100"
proof -
  have m: "(k + 1900) mod 4 = k mod 4" "(k + 1900) mod 100 = k mod 100"
    by (rule int_mod_shift [where k = 475] int_mod_shift [where k = 19], simp)+
  have k: "k mod 400 \<noteq> 0" using assms(1,2) by simp
  from assms(3) have "(k + 1900) mod 400 = 0"
    unfolding isleap_def m using k by argo
  then have "400 dvd k + 1900" by (rule mod_0_imp_dvd)
  then obtain q where q: "k + 1900 = 400 * q" by (rule dvdE)
  with assms(1,2) have "4 < q" and "q < 6" by linarith+
  then have "q = 5" by linarith
  with q show ?thesis by simp
qed

text \<open>A year is determined by the days it covers.\<close>

lemma year_of_days:
  assumes "jan1 y + d = n" and "0 \<le> d" and "d < year_length y"
  shows "Y \<le> y \<longleftrightarrow> jan1 Y \<le> n"
proof
  assume "Y \<le> y"
  then have "jan1 Y \<le> jan1 y" by (rule jan1_mono)
  with assms show "jan1 Y \<le> n" by simp
next
  assume n: "jan1 Y \<le> n"
  show "Y \<le> y"
  proof (rule ccontr)
    assume "\<not> Y \<le> y"
    then have "jan1 (y + 1) \<le> jan1 Y" by (intro jan1_mono) simp
    with assms n show False by (simp add: jan1_Suc)
  qed
qed

lemma leap_skew_window:
  assumes t: "0 \<le> t" "t < 4000000000"
  shows "leap_skew (secs2tm_long t res) = of_bool (951868800 \<le> t \<and> t < 978307200)"
proof -
  let ?r = "secs2tm_long t res"
  let ?Y = "tm_year ?r + 1900"
  note yd = secs2tm_long_yday [of t res]
  note yr = year_of_days [OF yd(1-3)]
  have c: "jan1 2000 = 10957" "jan1 2001 = 11323" "jan1 2097 = 46387"
    by (simp_all add: jan1_def)
  have lo: "70 \<le> tm_year ?r" using yd(4) t by simp
  have "t div 86400 < 46386" using t by linarith
  then have hi: "tm_year ?r \<le> 196" using yr [of 2097] c by auto
  have y2000: "tm_year ?r = 100 \<longleftrightarrow> 10957 \<le> t div 86400 \<and> t div 86400 < 11323"
    using yr [of 2000] yr [of 2001] unfolding c by auto
  have skew: "leap_skew ?r = of_bool (tm_year ?r = 100 \<and> 59 < tm_yday ?r)"
  proof -
    have i: "isleap (100 + 1900)" "\<not> isleap 100" by (simp_all add: isleap_def)
    show ?thesis
    proof (cases "tm_year ?r = 100")
      case True
      with i show ?thesis by (simp add: leap_skew_def)
    next
      case False
      with isleap_offset [OF lo hi] show ?thesis by (auto simp: leap_skew_def)
    qed
  qed
  have "tm_year ?r = 100 \<and> 59 < tm_yday ?r \<longleftrightarrow> 11017 \<le> t div 86400 \<and> t div 86400 < 11323"
    using y2000 yd(1) c by auto
  also have "\<dots> \<longleftrightarrow> 951868800 \<le> t \<and> t < 978307200" by linarith
  finally show ?thesis by (simp only: skew)
qed

section \<open>Properties\<close>

text \<open>The year fits its \<open>int\<close>, and with it the years that the loops pass.\<close>

lemma jan1_bounds:
  assumes "- 775462963328 \<le> jan1 y" and "jan1 y \<le> 775462962963"
  shows "- 2147480000 \<le> y" and "y \<le> 2147480000"
proof -
  define e where "e = 400 * ((y - 1) div 4) - 400 * ((y - 1) div 100) + 400 * ((y - 1) div 400)"
  have scale: "400 * x - 400 * k + 400 \<le> 400 * k * (x div k)" "400 * k * (x div k) \<le> 400 * x" if "0 < k" for x k :: int
    using pos_mod_sign [OF that, of x] pos_mod_bound [OF that, of x] mult_div_mod_eq [of k x] by (simp_all, linarith+)
  have "400 * ((y - 1) div 4) \<le> 100 * y - 100" "4 * y - 400 \<le> 400 * ((y - 1) div 100)"
      "400 * ((y - 1) div 400) \<le> y - 1" "100 * y - 400 \<le> 400 * ((y - 1) div 4)"
      "400 * ((y - 1) div 100) \<le> 4 * y - 4" "y - 400 \<le> 400 * ((y - 1) div 400)"
    using scale [of 4 "y - 1"] scale [of 100 "y - 1"] scale [of 400 "y - 1"] by simp_all
  then have "e \<le> 97 * y + 1000" "97 * y - 1000 \<le> e" unfolding e_def by linarith+
  moreover have "146000 * y + e = 400 * jan1 y + 287810800" by (simp add: e_def jan1_def)
  ultimately show "- 2147480000 \<le> y" and "y \<le> 2147480000" using assms by linarith+
qed

lemma secs2tm_year_bounds:
  assumes "\<bar>t\<bar> \<le> 67000000000000000"
  shows "- (2 ^ 31) \<le> tm_year (secs2tm_long t res) \<and> tm_year (secs2tm_long t res) + 1900 < 2 ^ 31"
proof -
  let ?y = "tm_year (secs2tm_long t res) + 1900" and ?d = "tm_yday (secs2tm_long t res)"
  have d: "jan1 ?y + ?d = t div 86400" "0 \<le> ?d" "?d \<le> 365"
    using secs2tm_long_yday(1-3) [of t res] by (auto simp: year_length_def split: if_splits)
  have "- 775462962963 \<le> t div 86400" "t div 86400 \<le> 775462962963" using assms by linarith+
  with d have "- 775462963328 \<le> jan1 ?y" "jan1 ?y \<le> 775462962963" by linarith+
  from jan1_bounds [OF this] show ?thesis by simp
qed

text \<open>
  C34: \<open>secs2tm\<close> computes the calendar date, time of day and day of the week of every time up to
  67 * 10^15 seconds from the epoch, before it or after it: its fields are in range and name exactly the
  given second. Up to there the year, which is counted in an \<open>int\<close>, does not overflow.
\<close>

theorem secs2tm_calendar:
  assumes "\<bar>sint w\<bar> \<le> 67000000000000000"
  shows "valid_tm (secs2tm w res) \<and> civil_secs (secs2tm w res) = sint w
   \<and> tm_wday (secs2tm w res) = (4 + sint w div 86400) mod 7
   \<and> - (2 ^ 31) \<le> tm_year (secs2tm w res) \<and> tm_year (secs2tm w res) + 1900 < 2 ^ 31"
proof -
  have "tm_wday (secs2tm_long t res) = (4 + t div 86400) mod 7" for t
    unfolding secs2tm_long_def borrow_days_floor Let_def split_beta
    using smod_wrap [of 7 "4 + t div 86400"] by (simp split: if_splits)
  then show ?thesis
    using secs2tm_year_bounds [OF assms, of res]
    by (simp add: secs2tm_def secs2tm_long_valid secs2tm_long_civil)
qed

text \<open>Noon of a leap day, and the last second before the epoch.\<close>

theorem secs2tm_calendar_witness:
  "civil_secs (secs2tm 1709208000 zero_tm) = 1709208000 \<and> tm_wday (secs2tm 1709208000 zero_tm) = 4
   \<and> civil_secs (secs2tm (- 1) zero_tm) = - 1 \<and> tm_wday (secs2tm (- 1) zero_tm) = 3"
proof -
  have "sint (1709208000 :: 64 word) = 1709208000" "sint (- 1 :: 64 word) = - 1" by simp_all
  then show ?thesis
    using secs2tm_calendar [of 1709208000 zero_tm] secs2tm_calendar [of "- 1" zero_tm] by simp
qed

text \<open>
  From a date (no day of the year set, no zone) \<open>tm2sec\<close> computes the second it names, and
  \<open>BAD_DATE\<close> for the dates it cannot represent.
\<close>

theorem tm2sec_calendar:
  assumes "tm_yday t < 1" and "0 \<le> tm_mon t" and "tm_mon t < 12" and "tm_zone t = None"
  shows "tm2sec t = (if tm_year t < 70 \<or> civil_secs t < 0 then BAD_DATE else civil_secs t)"
  using tm2sec_days_month [of t] assms by (cases "tm_year t < 70") (simp_all add: tm2sec_def)

theorem tm2sec_calendar_witness:
  "tm2sec (zero_tm\<lparr>tm_year := 124, tm_mon := 1, tm_mday := 29, tm_hour := 12\<rparr>) = 1709208000"
  using tm2sec_calendar [of "zero_tm\<lparr>tm_year := 124, tm_mon := 1, tm_mday := 29, tm_hour := 12\<rparr>"]
  by (simp add: zero_tm_def civil_secs_def civil_days_def day_secs_def month_start_def mon_yday_def
      isleap_def jan1_def)

text \<open>
  C32: converting a time to its fields and back returns it, except from March to December 2000,
  where the result is one day later: \<open>tm2sec\<close> asks \<open>isleap\<close> about 100 instead of 2000.
\<close>

theorem tm2sec_secs2tm:
  assumes "tm_zone res = None" and "w < 4000000000"
  shows "tm2sec (secs2tm w res) =
    uint w + (if 951868800 \<le> uint w \<and> uint w < 978307200 then 86400 else 0)"
proof -
  have u: "0 \<le> uint w" "uint w < 4000000000"
    using assms(2) by (simp_all add: word_less_def)
  then have "sint w = uint w" by (intro sint_small) auto
  with u assms(1) show ?thesis
    by (simp add: secs2tm_def tm2sec_secs2tm_long leap_skew_window)
qed

theorem tm2sec_secs2tm_witness:
  "tm2sec (secs2tm 951868800 zero_tm) = 951955200 \<and> tm2sec (secs2tm 951868799 zero_tm) = 951868799"
  using tm2sec_secs2tm [of zero_tm 951868800] tm2sec_secs2tm [of zero_tm 951868799]
  by (simp add: zero_tm_def)

text \<open>
  On a range whose ends are in order, \<open>extend_to\<close> makes the smallest range that holds the
  old one and the new time.
\<close>

theorem extend_to_least:
  assumes "tr_begin r \<le> tr_end r"
  shows "contains_inclusive (extend_to r tv) x \<longleftrightarrow>
    (min (tr_begin r) tv \<le> x \<and> x \<le> max (tr_end r) tv)"
  using assms by (auto simp: extend_to_def contains_inclusive_def)

theorem extend_to_least_witness:
  "contains_inclusive (extend_to \<lparr>tr_begin = 3, tr_end = 5\<rparr> 9) 7"
  using extend_to_least [of "\<lparr>tr_begin = 3, tr_end = 5\<rparr>" 9 7] by simp

text \<open>
  On a range that \<open>invalidate\<close> has reset, the first time only sets the lower end: the upper end
  stays 0 and the range does not hold the time.
\<close>

lemma extend_to_invalidated:
  assumes "0 < tv" and "tv < microseconds_max"
  shows "extend_to (invalidate r) tv = r\<lparr>tr_begin := tv, tr_end := 0\<rparr>"
    and "\<not> contains_inclusive (extend_to (invalidate r) tv) tv"
  using assms by (simp_all add: extend_to_def invalidate_def contains_inclusive_def)

lemma tr_union_invalidated:
  assumes "0 \<le> tr_end x" and "tr_begin x \<le> microseconds_max"
  shows "tr_union (invalidate r) x = r\<lparr>tr_begin := tr_begin x, tr_end := tr_end x\<rparr>"
  using assms by (auto simp: tr_union_def invalidate_def Let_def)

end
