(* ===== verification/Ptimec.thy ===== *)
theory Ptimec
  imports Time_Util
begin

text \<open>
  \<open>src/ptimec.hh\<close> and \<open>src/ptimec_rt.cc\<close>: the hand-written timestamp parsers \<open>ptime_X\<close>, one
  per \<open>%\<close>-directive, their printers \<open>ftime_X\<close>, and the two interpreters of a format string,
  \<open>ptime_fmt\<close> and \<open>ftime_fmt\<close>.

  A parser takes the time under construction, the input and the offset in it, and returns whether it
  succeeded with the new time and offset, which the code also changes when it fails. The input is
  the list of its \<open>len\<close> bytes. A printer takes the size \<open>len\<close> of the buffer, the time and the
  bytes written so far (\<open>dst[0..off_inout)\<close>) and returns the bytes written after the call.
\<close>

section \<open>Data\<close>

datatype exttm_flag =
  ETF_YEAR_SET | ETF_MONTH_SET | ETF_DAY_SET | ETF_YDAY_SET | ETF_HOUR_SET | ETF_MINUTE_SET
| ETF_SECOND_SET | ETF_MACHINE_ORIENTED | ETF_EPOCH_TIME | ETF_SUB_NOT_IN_FORMAT
| ETF_MILLIS_SET | ETF_MICROS_SET | ETF_NANOS_SET | ETF_ZONE_SET | ETF_Z_FOR_UTC | ETF_Z_COLON
| ETF_Z_IS_UTC | ETF_Z_IS_GMT

text \<open>The bit mask \<open>et_flags\<close> is the set of its bits.\<close>

record exttm =
  et_tm :: tm
  et_nsec :: int
  et_flags :: "exttm_flag set"
  et_gmtoff :: int
  et_orig_gmtoff :: int

definition exttm_init :: exttm where
  "exttm_init = \<lparr>et_tm = zero_tm, et_nsec = 0, et_flags = {}, et_gmtoff = 0, et_orig_gmtoff = 0\<rparr>"

type_synonym ptime_res = "bool \<times> exttm \<times> nat"
type_synonym ptime_func = "exttm \<Rightarrow> char list \<Rightarrow> nat \<Rightarrow> ptime_res"
type_synonym ftime_func = "nat \<Rightarrow> exttm \<Rightarrow> char list \<Rightarrow> char list"

definition upd_tm :: "(tm \<Rightarrow> tm) \<Rightarrow> exttm \<Rightarrow> exttm" where
  "upd_tm f e = e\<lparr>et_tm := f (et_tm e)\<rparr>"

definition or_flags :: "exttm_flag set \<Rightarrow> exttm \<Rightarrow> exttm" where
  "or_flags fl e = e\<lparr>et_flags := et_flags e \<union> fl\<rparr>"

definition MAX_TIME_T :: "64 word" where
  "MAX_TIME_T = 4000000000"

text \<open>
  \<open>exttm::to_timeval\<close>: seconds and microseconds. The nanoseconds are converted with a truncating
  division.
\<close>

definition to_timeval :: "exttm \<Rightarrow> int \<times> int" where
  "to_timeval e = (tm2sec (et_tm e) - et_gmtoff e, et_nsec e sdiv 1000)"

text \<open>
  \<open>PTIME_APPEND\<close>: a character is stored only if two more fit, and the function returns at the
  first that is not. A printer that appends the characters \<open>cs\<close> one after the other:
\<close>

fun put :: "nat \<Rightarrow> char list \<Rightarrow> char list \<Rightarrow> char list" where
  "put len [] out = out"
| "put len (c # cs) out = (if length out + 2 \<ge> len then out else put len cs (out @ [c]))"

text \<open>
  \<open>snprintf(&dst[off], len - off, ...)\<close> keeps at most \<open>len - off - 1\<close> characters, and
  \<open>off_inout = strlen(dst)\<close> follows.
\<close>

definition put_snprintf :: "nat \<Rightarrow> char list \<Rightarrow> char list \<Rightarrow> char list" where
  "put_snprintf len s out = out @ take (len - length out - 1) s"

text \<open>Clearing bit 5 of a byte (\<open>& ~0x20UL\<close>, \<open>& 0xdf\<close>) makes an ASCII letter upper case.\<close>

fun clear20 :: "char \<Rightarrow> char" where
  "clear20 (Char b0 b1 b2 b3 b4 b5 b6 b7) = Char b0 b1 b2 b3 b4 False b6 b7"

section \<open>Skipping\<close>

function ptime_upto :: "char \<Rightarrow> char list \<Rightarrow> nat \<Rightarrow> bool \<times> nat" where
  "ptime_upto ch str off =
     (if off < length str
      then if str ! off = ch then (True, off) else ptime_upto ch str (Suc off)
      else (False, off))"
  by pat_completeness auto
termination
  by (relation "measure (\<lambda>(ch, str, off). length str - off)") auto

declare ptime_upto.simps [simp del]

definition ptime_upto_end :: "char list \<Rightarrow> nat \<Rightarrow> bool \<times> nat" where
  "ptime_upto_end str off = (True, length str)"

section \<open>Month names\<close>

text \<open>
  \<open>strptime\<close> with \<open>%b\<close> or \<open>%B\<close> depends on the locale: it is a parameter, a function of the
  rest of the input and the broken-down time that gives the new time and the number of bytes it
  consumed.
\<close>

type_synonym strptime = "char list \<Rightarrow> tm \<Rightarrow> (tm \<times> nat) option"

text \<open>The packed letters of \<open>ABR_TO_INT\<close> are equal exactly when the three bytes are.\<close>

definition month_abbr :: "(char list \<times> int) list" where
  "month_abbr = [(''JAN'', 0), (''FEB'', 1), (''MAR'', 2), (''APR'', 3), (''MAY'', 4), (''JUN'', 5),
     (''JUL'', 6), (''AUG'', 7), (''SEP'', 8), (''OCT'', 9), (''NOV'', 10), (''DEC'', 11)]"

definition ptime_b_int :: "exttm \<Rightarrow> char list \<Rightarrow> nat \<Rightarrow> bool \<times> exttm" where
  "ptime_b_int dst str off =
    (case map_of month_abbr
        [clear20 (str ! off), clear20 (str ! (off + 1)), clear20 (str ! (off + 2))] of
       Some val \<Rightarrow> (True, or_flags {ETF_MONTH_SET} (upd_tm (\<lambda>t. t\<lparr>tm_mon := val\<rparr>) dst))
     | None \<Rightarrow> (False, dst))"

text \<open>
  The second retry inserts a dot after the letters. The code looks for a dot at
  \<open>zone[off_inout]\<close>, an index into the copy of the rest of the input; a read past the copy, which
  C leaves undefined, reads as NUL here.
\<close>

definition ptime_b_slow :: "strptime \<Rightarrow> ptime_func" where
  "ptime_b_slow sp dst str off =
    (let zone = drop off str in
     case sp zone (et_tm dst) of
       Some (t, consumed) \<Rightarrow>
         (let off = off + consumed;
              off = (if off + 1 < length str \<and> str_at zone off = CHR ''.'' then off + 1 else off)
          in (True, or_flags {ETF_MONTH_SET} (dst\<lparr>et_tm := t\<rparr>), off))
     | None \<Rightarrow>
         (let alpha_len = length (takeWhile isalpha zone) in
          if alpha_len > 0 \<and> (alpha_len \<ge> length zone \<or> zone ! alpha_len \<noteq> CHR ''.'')
          then (case sp (take alpha_len zone @ CHR ''.'' # drop alpha_len zone) (et_tm dst) of
                  Some (t, consumed) \<Rightarrow>
                    (True, or_flags {ETF_MONTH_SET} (dst\<lparr>et_tm := t\<rparr>),
                     if consumed > alpha_len then off + (consumed - 1) else off + consumed)
                | None \<Rightarrow> (False, dst, off))
          else (False, dst, off)))"

definition ptime_b :: "strptime \<Rightarrow> ptime_func" where
  "ptime_b sp dst str off =
    (if off + 3 < length str \<and> str ! (off + 3) \<noteq> CHR ''.'' \<and> \<not> isalpha (str ! (off + 3))
     then (case ptime_b_int dst str off of
             (True, dst') \<Rightarrow> (True, dst', off + 3)
           | (False, dst') \<Rightarrow> ptime_b_slow sp dst' str off)
     else ptime_b_slow sp dst str off)"

definition ftime_a :: ftime_func where
  "ftime_a len e =
    (let d = tm_wday (et_tm e) in
     put len (if d = 0 then ''Sun'' else if d = 1 then ''Mon'' else if d = 2 then ''Tue''
       else if d = 3 then ''Wed'' else if d = 4 then ''Thu'' else if d = 5 then ''Fri''
       else if d = 6 then ''Sat'' else ''XXX''))"

definition ftime_b :: ftime_func where
  "ftime_b len e =
    (let m = tm_mon (et_tm e) in
     put len (if m = 0 then ''Jan'' else if m = 1 then ''Feb'' else if m = 2 then ''Mar''
       else if m = 3 then ''Apr'' else if m = 4 then ''May'' else if m = 5 then ''Jun''
       else if m = 6 then ''Jul'' else if m = 7 then ''Aug'' else if m = 8 then ''Sep''
       else if m = 9 then ''Oct'' else if m = 10 then ''Nov'' else if m = 11 then ''Dec''
       else ''XXX''))"

section \<open>Two-digit fields\<close>

text \<open>
  \<open>PTIME_CHECK_S\<close>, \<open>_M\<close>, \<open>_H\<close>, \<open>_d\<close> and \<open>_Y\<close> check the bytes at an absolute offset
  without advancing; on failure they leave the assignment they have made behind.
\<close>

definition PTIME_CHECK_S :: "exttm \<Rightarrow> char list \<Rightarrow> nat \<Rightarrow> bool \<times> exttm" where
  "PTIME_CHECK_S dst str off =
    (let v = dig (str ! off) * 10 + dig (str ! (off + 1));
         dst = upd_tm (\<lambda>t. t\<lparr>tm_sec := v\<rparr>) dst
     in if v < 0 \<or> v \<ge> 60 then (False, dst) else (True, or_flags {ETF_SECOND_SET} dst))"

definition PTIME_CHECK_M :: "exttm \<Rightarrow> char list \<Rightarrow> nat \<Rightarrow> bool \<times> exttm" where
  "PTIME_CHECK_M dst str off =
    (let v = dig (str ! off) * 10 + dig (str ! (off + 1));
         dst = upd_tm (\<lambda>t. t\<lparr>tm_min := v\<rparr>) dst
     in if v < 0 \<or> v \<ge> 60 then (False, dst) else (True, or_flags {ETF_MINUTE_SET} dst))"

definition PTIME_CHECK_H :: "exttm \<Rightarrow> char list \<Rightarrow> nat \<Rightarrow> bool \<times> exttm" where
  "PTIME_CHECK_H dst str off =
    (let v = (if str ! off = CHR '' '' then 0 else dig (str ! off) * 10) + dig (str ! (off + 1));
         dst = upd_tm (\<lambda>t. t\<lparr>tm_hour := v\<rparr>) dst
     in if v < 0 \<or> v > 23 then (False, dst) else (True, or_flags {ETF_HOUR_SET} dst))"

definition PTIME_CHECK_d :: "exttm \<Rightarrow> char list \<Rightarrow> nat \<Rightarrow> bool \<times> exttm" where
  "PTIME_CHECK_d dst str off =
    (let v = (if str ! off = CHR '' '' then 0 else dig (str ! off) * 10) + dig (str ! (off + 1));
         dst = upd_tm (\<lambda>t. t\<lparr>tm_yday := -1, tm_mday := v\<rparr>) dst
     in if v \<ge> 1 \<and> v \<le> 31 then (True, or_flags {ETF_DAY_SET} dst) else (False, dst))"

definition PTIME_CHECK_Y :: "exttm \<Rightarrow> char list \<Rightarrow> nat \<Rightarrow> bool \<times> exttm" where
  "PTIME_CHECK_Y dst str off =
    (let v = dig (str ! off) * 1000 + dig (str ! (off + 1)) * 100 + dig (str ! (off + 2)) * 10
             + dig (str ! (off + 3)) * 1 - 1900;
         dst = upd_tm (\<lambda>t. t\<lparr>tm_year := v\<rparr>) dst
     in if v < 0 \<or> v > 1100 then (False, dst) else (True, or_flags {ETF_YEAR_SET} dst))"

text \<open>\<open>PTIME_CONSUME\<close> around one of these checks.\<close>

definition ptime_checked :: "nat \<Rightarrow> (exttm \<Rightarrow> char list \<Rightarrow> nat \<Rightarrow> bool \<times> exttm) \<Rightarrow> ptime_func" where
  "ptime_checked amount check dst str off =
    (if off + amount > length str then (False, dst, off)
     else case check dst str off of
            (True, dst') \<Rightarrow> (True, dst', off + amount)
          | (False, dst') \<Rightarrow> (False, dst', off))"

definition ptime_S :: ptime_func where
  "ptime_S = ptime_checked 2 PTIME_CHECK_S"

definition ptime_M :: ptime_func where
  "ptime_M = ptime_checked 2 PTIME_CHECK_M"

definition ptime_H :: ptime_func where
  "ptime_H = ptime_checked 2 PTIME_CHECK_H"

definition ptime_d :: ptime_func where
  "ptime_d = ptime_checked 2 PTIME_CHECK_d"

definition ptime_Y :: ptime_func where
  "ptime_Y = ptime_checked 4 PTIME_CHECK_Y"

definition ftime_S :: ftime_func where
  "ftime_S len e = put len [cdigit (tm_sec (et_tm e)) 10, cdigit (tm_sec (et_tm e)) 1]"

definition ftime_M :: ftime_func where
  "ftime_M len e = put len [cdigit (tm_min (et_tm e)) 10, cdigit (tm_min (et_tm e)) 1]"

definition ftime_H :: ftime_func where
  "ftime_H len e = put len [cdigit (tm_hour (et_tm e)) 10, cdigit (tm_hour (et_tm e)) 1]"

definition ftime_d :: ftime_func where
  "ftime_d len e = put len [cdigit (tm_mday (et_tm e)) 10, cdigit (tm_mday (et_tm e)) 1]"

definition ftime_Y :: ftime_func where
  "ftime_Y len e =
    (let year = tm_year (et_tm e) + 1900
     in put len [cdigit year 1000, cdigit year 100, cdigit year 10, cdigit year 1])"

section \<open>Epoch times\<close>

definition epoch_flags :: "exttm_flag set" where
  "epoch_flags = {ETF_DAY_SET, ETF_MONTH_SET, ETF_YEAR_SET, ETF_HOUR_SET, ETF_MINUTE_SET,
     ETF_SECOND_SET, ETF_MACHINE_ORIENTED, ETF_EPOCH_TIME, ETF_ZONE_SET}"

text \<open>
  The loop of \<open>ptime_s\<close>: a thirteenth digit makes it fail. \<open>epoch\<close> is a \<open>uint64_t\<close>.
\<close>

function ptime_s_loop :: "char list \<Rightarrow> nat \<Rightarrow> nat \<Rightarrow> 64 word \<Rightarrow> bool \<times> 64 word \<times> nat" where
  "ptime_s_loop str off_start off epoch =
    (if off < length str \<and> isdigit (str ! off)
     then if off - off_start > 11 then (False, epoch, off)
          else ptime_s_loop str off_start (Suc off) (epoch * 10 + word_of_int (dig (str ! off)))
     else (True, epoch, off))"
  by pat_completeness auto
termination
  by (relation "measure (\<lambda>(str, off_start, off, epoch). length str - off)") auto

declare ptime_s_loop.simps [simp del]

definition ptime_s :: ptime_func where
  "ptime_s dst str off =
    (case ptime_s_loop str off off 0 of
       (False, epoch, off') \<Rightarrow> (False, dst, off')
     | (True, epoch, off') \<Rightarrow>
         if epoch \<ge> MAX_TIME_T then (False, dst, off')
         else (epoch > 0, (upd_tm (secs2tm epoch) dst)\<lparr>et_flags := epoch_flags\<rparr>, off'))"

definition ftime_s :: ftime_func where
  "ftime_s len e = put_snprintf len (dec_str (tm2sec (et_tm e)))"

text \<open>
  The hexadecimal epoch: \<open>tolower\<close> selects the case, but the letter itself is subtracted
  from \<open>'a'\<close>, so an upper-case digit adds a number that wraps.
\<close>

definition tolower :: "char \<Rightarrow> int" where
  "tolower c = (if isupper_c c then schar c + 32 else schar c)"

definition ptime_q_digit :: "char \<Rightarrow> int" where
  "ptime_q_digit c =
    (if 48 \<le> tolower c \<and> tolower c \<le> 57 then schar c - 48
     else if 97 \<le> tolower c \<and> tolower c \<le> 102 then schar c - 97 + 10
     else 0)"

function ptime_q_loop :: "char list \<Rightarrow> nat \<Rightarrow> nat \<Rightarrow> 64 word \<Rightarrow> bool \<times> 64 word \<times> nat" where
  "ptime_q_loop str off_start off epoch =
    (if off < length str \<and> isxdigit (str ! off)
     then if off - off_start > 11 then (False, epoch, off)
          else ptime_q_loop str off_start (Suc off)
                 (epoch * 16 + word_of_int (ptime_q_digit (str ! off)))
     else (True, epoch, off))"
  by pat_completeness auto
termination
  by (relation "measure (\<lambda>(str, off_start, off, epoch). length str - off)") auto

declare ptime_q_loop.simps [simp del]

definition ptime_q :: ptime_func where
  "ptime_q dst str off =
    (case ptime_q_loop str off off 0 of
       (False, epoch, off') \<Rightarrow> (False, dst, off')
     | (True, epoch, off') \<Rightarrow>
         if epoch \<ge> MAX_TIME_T then (False, dst, off')
         else (epoch > 0, (upd_tm (secs2tm epoch) dst)\<lparr>et_flags := epoch_flags\<rparr>, off'))"

text \<open>\<open>printf("%lx")\<close>\<close>

definition hex_char :: "nat \<Rightarrow> char" where
  "hex_char d = (if d < 10 then char_of (48 + d) else char_of (87 + d))"

function hex_digits :: "nat \<Rightarrow> char list" where
  "hex_digits n = (if n < 16 then [hex_char n] else hex_digits (n div 16) @ [hex_char (n mod 16)])"
  by pat_completeness auto
termination
  by (relation "measure id") auto

declare hex_digits.simps [simp del]

definition ftime_q :: ftime_func where
  "ftime_q len e = put_snprintf len (hex_digits (unat (word_of_int (tm2sec (et_tm e)) :: 64 word)))"

text \<open>The unbounded loops of the milli-, micro- and nanosecond epochs wrap modulo \<open>2 ^ 64\<close>.\<close>

function epoch_loop :: "char list \<Rightarrow> nat \<Rightarrow> 64 word \<Rightarrow> 64 word \<times> nat" where
  "epoch_loop str off epoch =
    (if off < length str \<and> isdigit (str ! off)
     then epoch_loop str (Suc off) (epoch * 10 + word_of_int (dig (str ! off)))
     else (epoch, off))"
  by pat_completeness auto
termination
  by (relation "measure (\<lambda>(str, off, epoch). length str - off)") auto

declare epoch_loop.simps [simp del]

definition ptime_i :: ptime_func where
  "ptime_i dst str off =
    (let (epoch_ms, off') = epoch_loop str off 0;
         dst = dst\<lparr>et_nsec := uint (epoch_ms mod 1000) * 1000000\<rparr>;
         epoch = epoch_ms div 1000
     in if epoch \<ge> MAX_TIME_T then (False, dst, off')
        else (epoch_ms > 0,
              (upd_tm (secs2tm epoch) dst)
                \<lparr>et_flags := epoch_flags \<union> {ETF_MILLIS_SET, ETF_SUB_NOT_IN_FORMAT}\<rparr>, off'))"

definition ftime_i :: ftime_func where
  "ftime_i len e = put_snprintf len (dec_str (tm2sec (et_tm e) + et_nsec e sdiv 1000000))"

definition ptime_6 :: ptime_func where
  "ptime_6 dst str off =
    (let (epoch_us, off') = epoch_loop str off 0;
         dst = dst\<lparr>et_nsec := uint (epoch_us mod 1000000) * 1000\<rparr>;
         epoch = epoch_us div 1000000
     in if epoch \<ge> MAX_TIME_T then (False, dst, off')
        else (epoch_us > 0,
              (upd_tm (secs2tm epoch) dst)
                \<lparr>et_flags := epoch_flags \<union>
                   {ETF_MICROS_SET, ETF_SUB_NOT_IN_FORMAT, ETF_Z_FOR_UTC}\<rparr>, off'))"

definition ftime_6 :: ftime_func where
  "ftime_6 len e =
     put_snprintf len (dec_str (tm2sec (et_tm e) * 1000000 + et_nsec e sdiv 1000))"

definition ptime_9 :: ptime_func where
  "ptime_9 dst str off =
    (let (epoch_ns, off') = epoch_loop str off 0;
         dst = dst\<lparr>et_nsec := uint (epoch_ns mod 1000000000)\<rparr>;
         epoch = epoch_ns div 1000000000
     in if epoch \<ge> MAX_TIME_T then (False, dst, off')
        else (epoch_ns > 0,
              (upd_tm (secs2tm epoch) dst)
                \<lparr>et_flags := epoch_flags \<union>
                   {ETF_NANOS_SET, ETF_SUB_NOT_IN_FORMAT, ETF_Z_FOR_UTC}\<rparr>, off'))"

definition ftime_9 :: ftime_func where
  "ftime_9 len e =
     put_snprintf len (dec_str (tm2sec (et_tm e) * 1000000000 + et_nsec e))"

section \<open>Fractions of a second\<close>

definition ptime_L :: ptime_func where
  "ptime_L dst str off =
    (let avail = length str - off;
         finish = (\<lambda>ms amount.
           if ms \<ge> 0 \<and> ms \<le> 999
           then (True, or_flags {ETF_MILLIS_SET} dst\<lparr>et_nsec := ms * 1000000\<rparr>, off + amount)
           else (False, dst, off + amount))
     in if avail \<ge> 3 \<and> isdigit (str ! (off + 2))
        then if \<not> isdigit (str ! off) \<or> \<not> isdigit (str ! (off + 1)) \<or> \<not> isdigit (str ! (off + 2))
             then (False, dst, off)
             else finish (dig (str ! off) * 100 + dig (str ! (off + 1)) * 10
                          + dig (str ! (off + 2))) 3
        else if avail \<ge> 2 \<and> isdigit (str ! (off + 1))
        then if \<not> isdigit (str ! off) \<or> \<not> isdigit (str ! (off + 1)) then (False, dst, off)
             else finish (dig (str ! off) * 100 + dig (str ! (off + 1)) * 10) 2
        else if off + 1 > length str then (False, dst, off)
        else if \<not> isdigit (str ! off) then (False, dst, off)
        else finish (dig (str ! off) * 100) 1)"

definition ftime_L :: ftime_func where
  "ftime_L len e =
    (let millis = et_nsec e sdiv 1000000
     in put len [cdigit millis 100, cdigit millis 10, cdigit millis 1])"

text \<open>\<open>int32_t\<close> sums of at most nine digits do not overflow; the tenth has weight 0.\<close>

fun ptime_f_loop :: "char list \<Rightarrow> nat \<Rightarrow> nat \<Rightarrow> int \<Rightarrow> int \<Rightarrow> nat \<Rightarrow> int \<times> nat" where
  "ptime_f_loop str off index mult nsec 0 = (nsec, index)"
| "ptime_f_loop str off index mult nsec (Suc left) =
    (if index < length str - off
     then if \<not> isdigit (str ! (off + index)) then (nsec, index)
          else ptime_f_loop str off (Suc index) (mult div 10)
                 (nsec + dig (str ! (off + index)) * mult) left
     else (nsec, index))"

definition ptime_f :: ptime_func where
  "ptime_f dst str off =
    (let (nsec, index) = ptime_f_loop str off 0 100000000 0 10;
         dst = or_flags (if index < 4 then {ETF_MILLIS_SET}
                         else if index < 7 then {ETF_MICROS_SET} else {ETF_NANOS_SET}) dst
     in (True, dst\<lparr>et_nsec := nsec\<rparr>, off + index))"

text \<open>The divisor is a \<open>uint32_t\<close>, so the nanoseconds are read as one too.\<close>

definition ftime_f_digits :: "int \<Rightarrow> nat \<Rightarrow> char list" where
  "ftime_f_digits value n =
     map (\<lambda>k. digit_char ((value mod 2 ^ 32) div (100000000 div 10 ^ k) mod 10)) [0..<n]"

definition ftime_f :: ftime_func where
  "ftime_f len e =
    (let out_len = (if ETF_MICROS_SET \<in> et_flags e then 6
                    else if ETF_NANOS_SET \<in> et_flags e then 9 else 3)
     in put len (ftime_f_digits (et_nsec e) out_len))"

definition ptime_N :: ptime_func where
  "ptime_N dst str off =
    (if off + 9 > length str then (False, dst, off)
     else if \<not> list_all isdigit (take 9 (drop off str)) then (False, dst, off)
     else (True,
           or_flags {ETF_NANOS_SET} dst
             \<lparr>et_nsec := dig (str ! (off + 0)) * 100000000 + dig (str ! (off + 1)) * 10000000
                + dig (str ! (off + 2)) * 1000000 + dig (str ! (off + 3)) * 100000
                + dig (str ! (off + 4)) * 10000 + dig (str ! (off + 5)) * 1000
                + dig (str ! (off + 6)) * 100 + dig (str ! (off + 7)) * 10
                + dig (str ! (off + 8)) * 1\<rparr>, off + 9))"

definition ftime_N :: ftime_func where
  "ftime_N len e =
    (let nano = et_nsec e mod 2 ^ 32
     in put len [cdigit nano 100000000, cdigit nano 10000000, cdigit nano 1000000,
          cdigit nano 100000, cdigit nano 10000, cdigit nano 1000, cdigit nano 100,
          cdigit nano 10, cdigit nano 1])"

section \<open>Hours on a twelve-hour clock, days, months, years\<close>

definition ptime_I :: ptime_func where
  "ptime_I dst str off =
    (if off + 2 > length str then (False, dst, off)
     else if schar (str ! (off + 1)) > 57 then (False, dst, off)
     else if isdigit (str ! off) \<or> str ! off = CHR '' ''
     then let v = (if isdigit (str ! off) then dig (str ! off) * 10 else 0)
                  + dig (str ! (off + 1));
              dst = upd_tm (\<lambda>t. t\<lparr>tm_hour := v\<rparr>) dst
          in if v < 1 \<or> v > 12 then (False, dst, off)
             else (True, or_flags {ETF_HOUR_SET} dst, off + 2)
     else (False, dst, off))"

definition twelve_hour :: "int \<Rightarrow> int" where
  "twelve_hour h =
    (let hour = (if h \<ge> 12 then h - 12 else h) in if hour = 0 then 12 else hour)"

definition ftime_I :: ftime_func where
  "ftime_I len e =
    (let hour = twelve_hour (tm_hour (et_tm e)) in put len [cdigit hour 10, cdigit hour 1])"

text \<open>
  The comparisons \<open>str[off] >= '0' && str[off] <= '9'\<close> are \<open>isdigit\<close> of the C locale. The second
  and third digits of \<open>%e\<close>, \<open>%j\<close>, \<open>%m\<close> and \<open>%k\<close> are optional:
\<close>

definition more_digit :: "char list \<Rightarrow> int \<times> nat \<Rightarrow> int \<times> nat" where
  "more_digit str = (\<lambda>(v, off).
     if off < length str \<and> isdigit (str ! off) then (v * 10 + dig (str ! off), off + 1)
     else (v, off))"

definition ptime_e :: ptime_func where
  "ptime_e dst str off =
    (let dst = upd_tm (\<lambda>t. t\<lparr>tm_yday := -1, tm_mday := 0\<rparr>) dst
     in if off + 1 > length str then (False, dst, off)
        else if str ! off \<noteq> CHR '' '' \<and> \<not> isdigit (str ! off) then (False, dst, off)
        else let (v, off') = more_digit str
                   (if str ! off = CHR '' '' then 0 else dig (str ! off), off + 1);
                 dst = upd_tm (\<lambda>t. t\<lparr>tm_mday := v\<rparr>) dst
             in if v \<ge> 1 \<and> v \<le> 31 then (True, or_flags {ETF_DAY_SET} dst, off')
                else (False, dst, off'))"

definition ftime_e :: ftime_func where
  "ftime_e len e =
    (let d = tm_mday (et_tm e)
     in put len [if d < 10 then CHR '' '' else cdigit d 10, cdigit d 1])"

definition ptime_j :: ptime_func where
  "ptime_j dst str off =
    (if off + 1 > length str \<or> \<not> isdigit (str ! off)
     then (False, upd_tm (\<lambda>t. t\<lparr>tm_yday := -1\<rparr>) dst, off)
     else let (v, off') = more_digit str (more_digit str (dig (str ! off), off + 1))
          in if v \<ge> 1 \<and> v \<le> 366
             then (True, or_flags {ETF_YDAY_SET} (upd_tm (\<lambda>t. t\<lparr>tm_yday := v - 1\<rparr>) dst), off')
             else (False, upd_tm (\<lambda>t. t\<lparr>tm_yday := -1\<rparr>) dst, off'))"

definition ftime_j :: ftime_func where
  "ftime_j len e =
    (let d = tm_yday (et_tm e) + 1
     in put len [digit_char ((d sdiv 100) smod 100), cdigit d 10, cdigit d 1])"

definition ptime_m :: ptime_func where
  "ptime_m dst str off =
    (if off + 1 > length str \<or> \<not> isdigit (str ! off) then (False, dst, off)
     else let (v, off') = more_digit str (dig (str ! off), off + 1);
              val = v - 1
          in if val \<ge> 0 \<and> val \<le> 11
             then (True, upd_tm (\<lambda>t. t\<lparr>tm_mon := val\<rparr>) (or_flags {ETF_MONTH_SET} dst), off')
             else (False, dst, off))"

definition ftime_m :: ftime_func where
  "ftime_m len e =
    (let m = tm_mon (et_tm e) + 1 in put len [cdigit m 10, cdigit m 1])"

text \<open>\<open>ptime_k\<close> sets the flag in the branch of the second digit only.\<close>

definition ptime_k :: ptime_func where
  "ptime_k dst str off =
    (if off + 1 > length str \<or> \<not> isdigit (str ! off)
     then (False, upd_tm (\<lambda>t. t\<lparr>tm_hour := 0\<rparr>) dst, off)
     else let (v, off') = more_digit str (dig (str ! off), off + 1);
              dst = upd_tm (\<lambda>t. t\<lparr>tm_hour := v\<rparr>) dst;
              dst = (if off' = off + 2 then or_flags {ETF_HOUR_SET} dst else dst)
          in (v \<ge> 0 \<and> v \<le> 23, dst, off'))"

definition ftime_k :: ftime_func where
  "ftime_k len e =
    (let h = tm_hour (et_tm e)
     in put len [if h < 10 then CHR '' '' else cdigit h 10, cdigit h 1])"

definition ptime_l :: ptime_func where
  "ptime_l dst str orig_off =
    (let dst = upd_tm (\<lambda>t. t\<lparr>tm_hour := 0\<rparr>) dst in
     if orig_off + 1 \<ge> length str then (False, dst, orig_off)
     else
       let consumed_space = (str ! orig_off = CHR '' '');
           off = (if consumed_space then orig_off + 1 else orig_off)
       in if off + 1 \<ge> length str then (False, dst, orig_off)
          else if schar (str ! off) < 49 \<or> schar (str ! off) > 57 then (False, dst, orig_off)
          else
            let v = dig (str ! off);
                dst = upd_tm (\<lambda>t. t\<lparr>tm_hour := v\<rparr>) dst;
                off = off + 1
            in if \<not> consumed_space \<and> off + 1 \<ge> length str then (False, dst, orig_off)
               else if consumed_space \<or> \<not> isdigit (str ! off)
               then (True, or_flags {ETF_HOUR_SET} dst, off)
               else
                 let v = v * 10 + dig (str ! off);
                     dst = upd_tm (\<lambda>t. t\<lparr>tm_hour := v\<rparr>) dst
                 in if v \<ge> 0 \<and> v \<le> 23 then (True, or_flags {ETF_HOUR_SET} dst, off + 1)
                    else (False, dst, orig_off))"

definition ftime_l :: ftime_func where
  "ftime_l len e =
    (let hour = twelve_hour (tm_hour (et_tm e))
     in put len [if hour < 10 then CHR '' '' else cdigit hour 10, cdigit hour 1])"

definition ptime_p :: ptime_func where
  "ptime_p dst str off =
    (if off + 2 > length str then (False, dst, off)
     else
       let lead = clear20 (str ! off); h = tm_hour (et_tm dst)
       in if clear20 (str ! (off + 1)) \<noteq> CHR ''M'' then (False, dst, off)
          else if lead = CHR ''A''
          then (True, (if h = 12 then upd_tm (\<lambda>t. t\<lparr>tm_hour := 0\<rparr>) dst else dst), off + 2)
          else if lead = CHR ''P''
          then (True, (if h < 12 then upd_tm (\<lambda>t. t\<lparr>tm_hour := h + 12\<rparr>) dst else dst), off + 2)
          else (False, dst, off))"

definition ftime_p :: ftime_func where
  "ftime_p len e = put len [if tm_hour (et_tm e) < 12 then CHR ''A'' else CHR ''P'', CHR ''M'']"

definition ptime_y :: ptime_func where
  "ptime_y dst str off =
    (if off + 2 > length str then (False, dst, off)
     else
       let v = dig (str ! (off + 0)) * 10 + dig (str ! (off + 1)) * 1
       in if v \<ge> 0 \<and> v < 100
          then (True, or_flags {ETF_YEAR_SET}
                        (upd_tm (\<lambda>t. t\<lparr>tm_year := (if v < 69 then v + 100 else v)\<rparr>) dst), off + 2)
          else (False, upd_tm (\<lambda>t. t\<lparr>tm_year := v\<rparr>) dst, off + 2))"

definition ftime_y :: ftime_func where
  "ftime_y len e =
    (let year = tm_year (et_tm e) + 1900 in put len [cdigit year 10, cdigit year 1])"

section \<open>Time zones\<close>

text \<open>
  The table of \<open>ptime_Z_to_gmtoff\<close>: the letters with bit 5 cleared, the number of bytes, the
  extra flags, the offset from GMT. The key has four bytes; the fourth is the next byte of the
  input with bit 5 cleared, or 0 at its end, so a three-letter zone is recognised at the end of the
  input and before a byte that clearing bit 5 makes 0 (a space).
\<close>

definition zone_table :: "(char list \<times> nat \<times> exttm_flag set \<times> int) list" where
  "zone_table =
    (let z3 = (\<lambda>n fl gmtoff. (n @ [CHR 0x00], 3, fl, gmtoff)) in
     [z3 ''UTC'' {ETF_Z_IS_UTC} 0,
      z3 ''GMT'' {ETF_Z_IS_GMT} 0,
      z3 ''EAT'' {} (3 * 60 * 60),
      z3 ''WAT'' {} (1 * 60 * 60),
      z3 ''CET'' {} (1 * 60 * 60),
      z3 ''CAT'' {} (2 * 60 * 60),
      (''CEDT'', 4, {}, 2 * 60 * 60),
      (''CEST'', 4, {}, 2 * 60 * 60),
      z3 ''MSK'' {} (3 * 60 * 60),
      z3 ''IDT'' {} (3 * 60 * 60),
      z3 ''IST'' {} (5 * 60 * 60 + 30 * 60),
      z3 ''HKT'' {} (8 * 60 * 60),
      z3 ''JST'' {} (9 * 60 * 60),
      z3 ''KST'' {} (9 * 60 * 60),
      z3 ''NST'' {} (-3 * 60 * 60 + 30 * 60),
      z3 ''NDT'' {} (-2 * 60 * 60 + 30 * 60),
      z3 ''EST'' {} (-5 * 60 * 60),
      z3 ''EDT'' {} (-4 * 60 * 60),
      z3 ''CST'' {} (-6 * 60 * 60),
      z3 ''CDT'' {} (-5 * 60 * 60),
      z3 ''MST'' {} (-7 * 60 * 60),
      z3 ''MDT'' {} (-6 * 60 * 60),
      z3 ''PST'' {} (-8 * 60 * 60),
      z3 ''PDT'' {} (-7 * 60 * 60),
      z3 ''HST'' {} (-10 * 60 * 60),
      z3 ''AST'' {} (-4 * 60 * 60),
      z3 ''ADT'' {} (-3 * 60 * 60)])"

definition ptime_Z_to_gmtoff :: ptime_func where
  "ptime_Z_to_gmtoff dst str off =
    (let avail = length str - off in
     if avail < 3 then (False, dst, off)
     else
       let zone = map clear20 [str ! off, str ! (off + 1), str ! (off + 2)]
                  @ [if avail \<ge> 4 then clear20 (str ! (off + 3)) else CHR 0x00]
       in case map_of zone_table zone of
            Some (amount, fl, gmtoff) \<Rightarrow>
              (True, (or_flags ({ETF_ZONE_SET} \<union> fl) dst)\<lparr>et_gmtoff := gmtoff\<rparr>, off + amount)
          | None \<Rightarrow> (False, dst, off))"

definition ptime_Z_upto :: "char \<Rightarrow> ptime_func" where
  "ptime_Z_upto term dst str off =
    (case ptime_Z_to_gmtoff dst str off of
       (False, dst', off') \<Rightarrow> (False, dst', off')
     | (True, dst', off') \<Rightarrow> (case ptime_upto term str off' of (ok, off'') \<Rightarrow> (ok, dst', off'')))"

definition ptime_Z_upto_end :: ptime_func where
  "ptime_Z_upto_end dst str off =
    (case ptime_Z_to_gmtoff dst str off of
       (False, dst', off') \<Rightarrow> (False, dst', off')
     | (True, dst', off') \<Rightarrow>
         (case ptime_upto_end str off' of (ok, off'') \<Rightarrow> (ok, dst', off'')))"

definition ptime_z :: ptime_func where
  "ptime_z dst str off =
    (if off + 1 \<le> length str \<and> str ! off = CHR ''Z''
     then (True, (upd_tm (\<lambda>t. t\<lparr>tm_gmtoff := 0\<rparr>) (or_flags {ETF_ZONE_SET, ETF_Z_FOR_UTC} dst))
                   \<lparr>et_gmtoff := 0\<rparr>, off + 1)
     else
       let skip_colon = (if off + 6 \<le> length str \<and> str ! (off + 3) = CHR '':'' then 1 else 0);
           consume_amount = 5 + skip_colon
       in if off + consume_amount > length str then (False, dst, off)
          else if str ! off \<noteq> CHR ''+'' \<and> str ! off \<noteq> CHR ''-'' then (False, dst, off)
          else
            let sign = (if str ! off = CHR ''+'' then 1 else -1);
                hours = (dig (str ! (off + 1)) * 10 + dig (str ! (off + 2)) * 1) * 60 * 60;
                mins = (dig (str ! (off + skip_colon + 3)) * 10
                        + dig (str ! (off + skip_colon + 4)) * 1) * 60;
                dst = (if skip_colon = 1 then or_flags {ETF_Z_COLON} dst else dst);
                dst = or_flags {ETF_ZONE_SET} dst
            in (True, (upd_tm (\<lambda>t. t\<lparr>tm_gmtoff := sign * (hours + mins)\<rparr>) dst)
                        \<lparr>et_gmtoff := sign * (hours + mins)\<rparr>, off + consume_amount))"

definition ftime_z :: ftime_func where
  "ftime_z len e =
    (if ETF_ZONE_SET \<notin> et_flags e then id
     else if et_gmtoff e = 0 \<and> ETF_Z_FOR_UTC \<in> et_flags e then put len [CHR ''Z'']
     else
       let gmtoff = \<bar>et_gmtoff e\<bar> sdiv 60;
           mins = gmtoff smod 60;
           hours = gmtoff sdiv 60
       in put len
            ([if et_gmtoff e < 0 then CHR ''-'' else CHR ''+'', cdigit hours 10, cdigit hours 1]
             @ (if ETF_Z_COLON \<in> et_flags e then [CHR '':''] else [])
             @ [cdigit mins 10, cdigit mins 1]))"

definition ftime_Z :: ftime_func where
  "ftime_Z len e =
    (if et_gmtoff e = 0 \<and> ETF_Z_IS_UTC \<in> et_flags e then put len ''UTC''
     else if et_gmtoff e = 0 \<and> ETF_Z_IS_GMT \<in> et_flags e then put len ''GMT''
     else if ETF_ZONE_SET \<in> et_flags e then ftime_z len e
     else id)"

section \<open>Literal characters and TAI64N labels\<close>

definition ptime_char :: "char \<Rightarrow> char list \<Rightarrow> nat \<Rightarrow> bool \<times> nat" where
  "ptime_char val str off =
    (if off + 1 > length str then (False, off)
     else if val \<noteq> str ! off then (False, off)
     else (True, off + 1))"

definition ftime_char :: "nat \<Rightarrow> char \<Rightarrow> char list \<Rightarrow> char list" where
  "ftime_char len ch = put len [ch]"

definition ptime_hex_to_quad :: "'a::len word \<Rightarrow> char \<Rightarrow> bool \<times> 'a word" where
  "ptime_hex_to_quad value quad =
    (let value = push_bit 4 value in
     if 48 \<le> schar quad \<and> schar quad \<le> 57
     then (True, or value (and (word_of_int (schar quad - 48)) 15))
     else if 97 \<le> schar quad \<and> schar quad \<le> 102
     then (True, or value (10 + and (word_of_int (schar quad - 97)) 15))
     else if 65 \<le> schar quad \<and> schar quad \<le> 70
     then (True, or value (10 + and (word_of_int (schar quad - 65)) 15))
     else (False, value))"

fun hex_quads :: "'a::len word \<Rightarrow> char list \<Rightarrow> bool \<times> 'a word" where
  "hex_quads value [] = (True, value)"
| "hex_quads value (q # qs) =
    (case ptime_hex_to_quad value q of
       (True, value') \<Rightarrow> hex_quads value' qs
     | (False, value') \<Rightarrow> (False, value'))"

definition ptime_at :: ptime_func where
  "ptime_at dst str off =
    (if off + 16 > length str then (False, dst, off)
     else case hex_quads (0 :: 64 word) (take 16 (drop off str)) of
       (False, _) \<Rightarrow> (False, dst, off)
     | (True, secs) \<Rightarrow>
        (let dst = dst\<lparr>et_nsec := 0\<rparr>; small_secs = secs - 4611686018427387914
         in if small_secs \<ge> MAX_TIME_T then (False, dst, off)
            else
              let dst = upd_tm (secs2tm small_secs) dst;
                  off = off + 16;
                  finish = (\<lambda>dst off.
                    (True, or_flags (epoch_flags \<union> {ETF_NANOS_SET}) dst, off))
              in if length str - off = 8
                 then (case hex_quads (word_of_int (et_nsec dst) :: 32 word) (take 8 (drop off str)) of
                         (False, w) \<Rightarrow> (False, dst\<lparr>et_nsec := sint w\<rparr>, off)
                       | (True, w) \<Rightarrow>
                           let dst = dst\<lparr>et_nsec := sint w\<rparr>
                           in if et_nsec dst < 0 then (False, dst, off + 8)
                              else finish dst (off + 8))
                 else finish dst off))"

definition ftime_at :: ftime_func where
  "ftime_at len e = id"

section \<open>Format strings\<close>

text \<open>The \<open>FMT_CASE\<close> and \<open>FTIME_FMT_CASE\<close> tables.\<close>

definition ptime_case :: "strptime \<Rightarrow> char \<Rightarrow> ptime_func option" where
  "ptime_case sp_b ch = map_of
    [(CHR ''b'', ptime_b sp_b), (CHR ''S'', ptime_S), (CHR ''s'', ptime_s), (CHR ''L'', ptime_L),
     (CHR ''M'', ptime_M), (CHR ''H'', ptime_H), (CHR ''i'', ptime_i), (CHR ''6'', ptime_6),
     (CHR ''9'', ptime_9), (CHR ''I'', ptime_I), (CHR ''d'', ptime_d), (CHR ''e'', ptime_e),
     (CHR ''j'', ptime_j), (CHR ''f'', ptime_f), (CHR ''k'', ptime_k), (CHR ''l'', ptime_l),
     (CHR ''m'', ptime_m), (CHR ''N'', ptime_N), (CHR ''p'', ptime_p), (CHR ''q'', ptime_q),
     (CHR ''Y'', ptime_Y), (CHR ''y'', ptime_y), (CHR ''z'', ptime_z), (CHR ''@'', ptime_at)] ch"

definition ftime_case :: "char \<Rightarrow> ftime_func option" where
  "ftime_case ch = map_of
    [(CHR ''a'', ftime_a), (CHR ''b'', ftime_b), (CHR ''S'', ftime_S), (CHR ''s'', ftime_s),
     (CHR ''L'', ftime_L), (CHR ''M'', ftime_M), (CHR ''H'', ftime_H), (CHR ''i'', ftime_i),
     (CHR ''6'', ftime_6), (CHR ''9'', ftime_9), (CHR ''I'', ftime_I), (CHR ''d'', ftime_d),
     (CHR ''e'', ftime_e), (CHR ''j'', ftime_j), (CHR ''f'', ftime_f), (CHR ''k'', ftime_k),
     (CHR ''l'', ftime_l), (CHR ''m'', ftime_m), (CHR ''N'', ftime_N), (CHR ''p'', ftime_p),
     (CHR ''q'', ftime_q), (CHR ''Y'', ftime_Y), (CHR ''y'', ftime_y), (CHR ''z'', ftime_z)] ch"

text \<open>
  A \<open>%\<close> before a letter that is in no case is skipped alone: the letter is then matched (or
  printed) as a literal, and \<open>%%\<close> leaves its second \<open>%\<close> to start a directive. The end of the
  format reads as its NUL, which is in no case.
\<close>

fun ptime_fmt :: "strptime \<Rightarrow> strptime \<Rightarrow> char list \<Rightarrow> ptime_func" where
  "ptime_fmt sp_b sp_B [] dst str off = (True, dst, off)"
| "ptime_fmt sp_b sp_B [c] dst str off =
    (if c = CHR ''%'' then (True, dst, off)
     else case ptime_char c str off of (ok, off') \<Rightarrow> (ok, dst, off'))"
| "ptime_fmt sp_b sp_B (c # d # fmt) dst str off =
    (if c = CHR ''%''
     then if d = CHR ''B''
       then (case sp_B (drop off str) (et_tm dst) of
               Some (t, consumed) \<Rightarrow> ptime_fmt sp_b sp_B fmt (dst\<lparr>et_tm := t\<rparr>) str (off + consumed)
             | None \<Rightarrow> (False, dst, off))
       else if d = CHR ''a'' \<or> d = CHR ''Z''
       then (case (case fmt of t # _ \<Rightarrow> ptime_upto t str off | [] \<Rightarrow> ptime_upto_end str off) of
               (True, off') \<Rightarrow> ptime_fmt sp_b sp_B fmt dst str off'
             | (False, off') \<Rightarrow> (False, dst, off'))
       else (case ptime_case sp_b d of
               Some f \<Rightarrow>
                 (case f dst str off of
                    (True, dst', off') \<Rightarrow> ptime_fmt sp_b sp_B fmt dst' str off'
                  | (False, dst', off') \<Rightarrow> (False, dst', off'))
             | None \<Rightarrow> ptime_fmt sp_b sp_B (d # fmt) dst str off)
     else (case ptime_char c str off of
             (True, off') \<Rightarrow> ptime_fmt sp_b sp_B (d # fmt) dst str off'
           | (False, off') \<Rightarrow> (False, dst, off')))"

fun ftime_fmt :: "nat \<Rightarrow> char list \<Rightarrow> exttm \<Rightarrow> char list \<Rightarrow> char list" where
  "ftime_fmt len [] e out = out"
| "ftime_fmt len [c] e out = (if c = CHR ''%'' then out else ftime_char len c out)"
| "ftime_fmt len (c # d # fmt) e out =
    (if c = CHR ''%''
     then if d = CHR ''%'' then ftime_fmt len (d # fmt) e (ftime_char len (CHR ''%'') out)
          else (case ftime_case d of
                  Some f \<Rightarrow> ftime_fmt len fmt e (f len e out)
                | None \<Rightarrow> ftime_fmt len (d # fmt) e out)
     else ftime_fmt len (d # fmt) e (ftime_char len c out))"

end
