(* ===== verification/Ptimec_Codec.thy ===== *)
theory Ptimec_Codec
  imports Ptimec
begin

text \<open>
  Printing a time and parsing the text back. A directive is a codec when what it prints is a fixed
  text of the time and parsing that text anywhere in an input restores the fields it stands for;
  the locale states these laws, the interpretations prove them for the directives of
  \<open>src/ptimec.hh\<close>, and \<open>Ptimec_Format\<close> composes them along a format string.
\<close>

section \<open>Writing into the buffer\<close>

lemma put_take: "put len cs out = out @ take (len - 2 - length out) cs"
proof (induction len cs out rule: put.induct)
  case (1 len out)
  then show ?case by simp
next
  case (2 len c cs out)
  show ?case
  proof (cases "length out + 2 \<ge> len")
    case True
    then show ?thesis by simp
  next
    case False
    then have "len - 2 - length out = Suc (len - 2 - length (out @ [c]))" by simp
    with 2 False show ?thesis by (simp only: take_Suc_Cons put.simps) simp
  qed
qed

lemma put_fits: "length out + length cs + 1 < len \<Longrightarrow> put len cs out = out @ cs"
  by (simp add: put_take)

lemma length_put: "length out < len \<Longrightarrow> length (put len cs out) < len"
  by (simp add: put_take min_def) linarith

lemma length_put_snprintf: "length out < len \<Longrightarrow> length (put_snprintf len s out) < len"
  by (simp add: put_snprintf_def min_def) linarith

section \<open>The interface of a directive\<close>

text \<open>
  \<open>shown e\<close> is what the directive prints for the time \<open>e\<close>, \<open>copy e dst\<close> is \<open>dst\<close> with
  the directive's fields as parsed from it, \<open>ok e\<close> says that the fields are in the range the
  directive can express, and \<open>follow post\<close> that the text may be followed by \<open>post\<close>.
\<close>

locale time_directive =
  fixes parse :: ptime_func
    and print :: ftime_func
    and shown :: "exttm \<Rightarrow> char list"
    and copy :: "exttm \<Rightarrow> exttm \<Rightarrow> exttm"
    and ok :: "exttm \<Rightarrow> bool"
    and follow :: "char list \<Rightarrow> bool"
  assumes print_shown: "ok e \<Longrightarrow> print len e out = put len (shown e) out"
    and parse_shown: "ok e \<Longrightarrow> follow post \<Longrightarrow>
      parse dst (pre @ shown e @ post) (length pre)
        = (True, copy e dst, length pre + length (shown e))"
begin

lemma print_fits:
  "ok e \<Longrightarrow> length out + length (shown e) + 1 < len \<Longrightarrow> print len e out = out @ shown e"
  by (simp add: print_shown put_fits)

lemma roundtrip:
  assumes "ok e" and "follow []" and "length (shown e) + 1 < len"
  shows "parse dst (print len e []) 0 = (True, copy e dst, length (shown e))"
  using assms parse_shown [where pre = "[]" and post = "[]"] print_fits [of e "[]" len] by simp

text \<open>Parsing is insensitive to what the parsed time held in the directive's own fields.\<close>

lemma reparse:
  assumes "ok e" and "follow post" and "copy e (copy e dst) = copy e dst"
  shows "parse (copy e dst) (pre @ shown e @ post) (length pre)
    = parse dst (pre @ shown e @ post) (length pre)"
  using assms by (simp add: parse_shown)

end

section \<open>Digits\<close>

lemma dig_cdigit [digit_simps]: "0 \<le> x \<Longrightarrow> 0 < p \<Longrightarrow> dig (cdigit x p) = x div p mod 10"
  by (simp add: cdigit_nonneg dig_digit_char)

lemma isdigit_cdigit [digit_simps]: "0 \<le> x \<Longrightarrow> 0 < p \<Longrightarrow> isdigit (cdigit x p)"
  by (simp add: cdigit_nonneg isdigit_digit_char)

lemma schar_cdigit [digit_simps]: "0 \<le> x \<Longrightarrow> 0 < p \<Longrightarrow> schar (cdigit x p) = 48 + x div p mod 10"
  by (simp add: cdigit_nonneg schar_digit_char)

lemma cdigit_neq [digit_simps]:
  assumes "0 \<le> x" and "0 < p" and "\<not> isdigit c"
  shows "cdigit x p \<noteq> c" and "c \<noteq> cdigit x p"
  using assms isdigit_cdigit [of x p] by auto

lemma two_digits:
  fixes x :: int
  shows "0 \<le> x \<Longrightarrow> x < 100 \<Longrightarrow> x div 10 mod 10 * 10 + x mod 10 = x"
proof -
  assume "0 \<le> x" "x < 100"
  then have "x div 10 mod 10 = x div 10" by (simp add: div_pos_pos_trivial)
  then show ?thesis by simp
qed

lemma three_digits:
  fixes x :: int
  assumes "0 \<le> x" and "x < 1000"
  shows "x div 100 mod 10 * 100 + x div 10 mod 10 * 10 + x mod 10 = x"
proof -
  define y where "y = x div 10"
  have y: "0 \<le> y" "y < 100" using assms by (simp_all add: y_def)
  have d: "x div 100 = y div 10" by (simp add: y_def)
  have "x div 100 mod 10 * 100 + y mod 10 * 10 = (y div 10 mod 10 * 10 + y mod 10) * 10"
    unfolding d by (simp add: algebra_simps)
  also have "\<dots> + x mod 10 = x" unfolding two_digits [OF y] by (simp add: y_def)
  finally show ?thesis by (simp only: y_def)
qed

lemma four_digits:
  fixes x :: int
  assumes "0 \<le> x" and "x < 10000"
  shows "x div 1000 mod 10 * 1000 + x div 100 mod 10 * 100 + x div 10 mod 10 * 10 + x mod 10 = x"
proof -
  define y where "y = x div 10"
  have y: "0 \<le> y" "y < 1000" using assms by (simp_all add: y_def)
  have d: "x div 1000 = y div 100" "x div 100 = y div 10" by (simp_all add: y_def)
  have "x div 1000 mod 10 * 1000 + x div 100 mod 10 * 100 + y mod 10 * 10
      = (y div 100 mod 10 * 100 + y div 10 mod 10 * 10 + y mod 10) * 10"
    unfolding d by (simp add: algebra_simps)
  also have "\<dots> + x mod 10 = x" unfolding three_digits [OF y] by (simp add: y_def)
  finally show ?thesis by (simp only: y_def)
qed

lemma two_digits_read:
  "0 \<le> x \<Longrightarrow> x < 100 \<Longrightarrow> dig (cdigit x 10) * 10 + dig (cdigit x 1) = x"
  using two_digits [of x] by (simp only: dig_cdigit zero_less_numeral zero_less_one div_by_1)

lemma isdigit_space [simp]: "\<not> isdigit (CHR '' '')"
  by (simp add: isdigit_def schar_def)

lemmas codec_simps = nth_append Let_def digit_simps two_digits three_digits four_digits
  upd_tm_def or_flags_def

definition any_post :: "char list \<Rightarrow> bool" where
  "any_post post \<longleftrightarrow> True"

section \<open>The directives\<close>

definition set_field :: "(tm \<Rightarrow> tm) \<Rightarrow> exttm_flag \<Rightarrow> exttm \<Rightarrow> exttm" where
  "set_field f fl dst = or_flags {fl} (upd_tm f dst)"

definition text2 :: "int \<Rightarrow> char list" where
  "text2 x = [cdigit x 10, cdigit x 1]"

definition copy_S :: "exttm \<Rightarrow> exttm \<Rightarrow> exttm" where
  "copy_S e = set_field (\<lambda>t. t\<lparr>tm_sec := tm_sec (et_tm e)\<rparr>) ETF_SECOND_SET"

definition ok_S :: "exttm \<Rightarrow> bool" where
  "ok_S e \<longleftrightarrow> 0 \<le> tm_sec (et_tm e) \<and> tm_sec (et_tm e) < 60"

interpretation dir_S: time_directive ptime_S ftime_S "\<lambda>e. text2 (tm_sec (et_tm e))" copy_S ok_S any_post
  by unfold_locales
    (auto simp: ftime_S_def text2_def ok_S_def copy_S_def set_field_def ptime_S_def
      ptime_checked_def PTIME_CHECK_S_def codec_simps)

definition copy_M :: "exttm \<Rightarrow> exttm \<Rightarrow> exttm" where
  "copy_M e = set_field (\<lambda>t. t\<lparr>tm_min := tm_min (et_tm e)\<rparr>) ETF_MINUTE_SET"

definition ok_M :: "exttm \<Rightarrow> bool" where
  "ok_M e \<longleftrightarrow> 0 \<le> tm_min (et_tm e) \<and> tm_min (et_tm e) < 60"

interpretation dir_M: time_directive ptime_M ftime_M "\<lambda>e. text2 (tm_min (et_tm e))" copy_M ok_M any_post
  by unfold_locales
    (auto simp: ftime_M_def text2_def ok_M_def copy_M_def set_field_def ptime_M_def
      ptime_checked_def PTIME_CHECK_M_def codec_simps)

definition copy_H :: "exttm \<Rightarrow> exttm \<Rightarrow> exttm" where
  "copy_H e = set_field (\<lambda>t. t\<lparr>tm_hour := tm_hour (et_tm e)\<rparr>) ETF_HOUR_SET"

definition ok_H :: "exttm \<Rightarrow> bool" where
  "ok_H e \<longleftrightarrow> 0 \<le> tm_hour (et_tm e) \<and> tm_hour (et_tm e) < 24"

interpretation dir_H: time_directive ptime_H ftime_H "\<lambda>e. text2 (tm_hour (et_tm e))" copy_H ok_H any_post
  by unfold_locales
    (auto simp: ftime_H_def text2_def ok_H_def copy_H_def set_field_def ptime_H_def
      ptime_checked_def PTIME_CHECK_H_def codec_simps)

definition copy_d :: "exttm \<Rightarrow> exttm \<Rightarrow> exttm" where
  "copy_d e = set_field (\<lambda>t. t\<lparr>tm_yday := -1, tm_mday := tm_mday (et_tm e)\<rparr>) ETF_DAY_SET"

definition ok_d :: "exttm \<Rightarrow> bool" where
  "ok_d e \<longleftrightarrow> 1 \<le> tm_mday (et_tm e) \<and> tm_mday (et_tm e) \<le> 31"

interpretation dir_d: time_directive ptime_d ftime_d "\<lambda>e. text2 (tm_mday (et_tm e))" copy_d ok_d any_post
  by unfold_locales
    (auto simp: ftime_d_def text2_def ok_d_def copy_d_def set_field_def ptime_d_def
      ptime_checked_def PTIME_CHECK_d_def codec_simps)

definition copy_Y :: "exttm \<Rightarrow> exttm \<Rightarrow> exttm" where
  "copy_Y e = set_field (\<lambda>t. t\<lparr>tm_year := tm_year (et_tm e)\<rparr>) ETF_YEAR_SET"

definition ok_Y :: "exttm \<Rightarrow> bool" where
  "ok_Y e \<longleftrightarrow> 0 \<le> tm_year (et_tm e) \<and> tm_year (et_tm e) \<le> 1100"

definition text_Y :: "exttm \<Rightarrow> char list" where
  "text_Y e =
    (let year = tm_year (et_tm e) + 1900
     in [cdigit year 1000, cdigit year 100, cdigit year 10, cdigit year 1])"

interpretation dir_Y: time_directive ptime_Y ftime_Y text_Y copy_Y ok_Y any_post
proof unfold_locales
  fix e len out assume "ok_Y e"
  show "ftime_Y len e out = put len (text_Y e) out" by (simp add: ftime_Y_def text_Y_def Let_def)
next
  fix e post dst pre assume ok: "ok_Y e"
  define y where "y = tm_year (et_tm e) + 1900"
  have y: "0 \<le> y" "y < 10000" and r: "\<not> (tm_year (et_tm e) < 0 \<or> tm_year (et_tm e) > 1100)"
    using ok by (auto simp: ok_Y_def y_def)
  let ?s = "pre @ text_Y e @ post"
  have n: "?s ! length pre = cdigit y 1000" "?s ! (length pre + 1) = cdigit y 100"
    "?s ! (length pre + 2) = cdigit y 10" "?s ! (length pre + 3) = cdigit y 1"
    by (simp_all add: text_Y_def nth_append Let_def flip: y_def)
  have v: "dig (?s ! length pre) * 1000 + dig (?s ! (length pre + 1)) * 100
      + dig (?s ! (length pre + 2)) * 10 + dig (?s ! (length pre + 3)) * 1 - 1900
      = tm_year (et_tm e)"
  proof -
    have "dig (cdigit y 1000) * 1000 + dig (cdigit y 100) * 100 + dig (cdigit y 10) * 10
        + dig (cdigit y 1) * 1 - 1900 = y - 1900"
      using y(1) by (simp only: dig_cdigit zero_less_numeral zero_less_one div_by_1 mult_1_right
          four_digits [OF y])
    then show ?thesis unfolding n by (simp add: y_def)
  qed
  have "length pre + 4 \<le> length ?s" by (simp add: text_Y_def Let_def)
  then show "ptime_Y dst ?s (length pre) = (True, copy_Y e dst, length pre + length (text_Y e))"
    using r unfolding ptime_Y_def ptime_checked_def PTIME_CHECK_Y_def v Let_def
    by (simp add: copy_Y_def set_field_def text_Y_def Let_def)
qed

definition copy_m :: "exttm \<Rightarrow> exttm \<Rightarrow> exttm" where
  "copy_m e = set_field (\<lambda>t. t\<lparr>tm_mon := tm_mon (et_tm e)\<rparr>) ETF_MONTH_SET"

definition ok_m :: "exttm \<Rightarrow> bool" where
  "ok_m e \<longleftrightarrow> 0 \<le> tm_mon (et_tm e) \<and> tm_mon (et_tm e) < 12"

text \<open>Reading one more digit at the offset after \<open>pre\<close> and one character.\<close>

lemma more_digit_hit:
  "str ! off = c \<Longrightarrow> off < length str \<Longrightarrow> isdigit c \<Longrightarrow>
   more_digit str (v, off) = (v * 10 + dig c, off + 1)"
  by (simp add: more_digit_def)

interpretation dir_m: time_directive ptime_m ftime_m "\<lambda>e. text2 (tm_mon (et_tm e) + 1)"
  copy_m ok_m any_post
  by unfold_locales
    (auto simp: ftime_m_def text2_def ok_m_def copy_m_def set_field_def ptime_m_def
      more_digit_def codec_simps)

definition copy_e :: "exttm \<Rightarrow> exttm \<Rightarrow> exttm" where
  "copy_e = copy_d"

definition text_e :: "exttm \<Rightarrow> char list" where
  "text_e e =
    (let d = tm_mday (et_tm e) in [if d < 10 then CHR '' '' else cdigit d 10, cdigit d 1])"

interpretation dir_e: time_directive ptime_e ftime_e text_e copy_e ok_d any_post
  by unfold_locales
    (auto simp: ftime_e_def text_e_def ok_d_def copy_e_def copy_d_def set_field_def ptime_e_def
      more_digit_def codec_simps)

text \<open>\<open>%k\<close> pads with a space, which \<open>ptime_k\<close> does not take: it is a codec from 10 on.\<close>

definition ok_k :: "exttm \<Rightarrow> bool" where
  "ok_k e \<longleftrightarrow> 10 \<le> tm_hour (et_tm e) \<and> tm_hour (et_tm e) < 24"

interpretation dir_k: time_directive ptime_k ftime_k "\<lambda>e. text2 (tm_hour (et_tm e))" copy_H ok_k any_post
  by unfold_locales
    (auto simp: ftime_k_def text2_def ok_k_def copy_H_def set_field_def ptime_k_def
      more_digit_def codec_simps)

definition copy_I :: "exttm \<Rightarrow> exttm \<Rightarrow> exttm" where
  "copy_I e = set_field (\<lambda>t. t\<lparr>tm_hour := twelve_hour (tm_hour (et_tm e))\<rparr>) ETF_HOUR_SET"

lemma twelve_hour_range: "ok_H e \<Longrightarrow>
    1 \<le> twelve_hour (tm_hour (et_tm e)) \<and> twelve_hour (tm_hour (et_tm e)) \<le> 12"
  by (auto simp: ok_H_def twelve_hour_def Let_def)

lemma last_digit_le: "0 \<le> x \<Longrightarrow> \<not> 57 < schar (cdigit x 1)"
  by (simp add: schar_cdigit)

interpretation dir_I: time_directive ptime_I ftime_I
  "\<lambda>e. text2 (twelve_hour (tm_hour (et_tm e)))" copy_I ok_H any_post
proof unfold_locales
  fix e len out
  show "ftime_I len e out = put len (text2 (twelve_hour (tm_hour (et_tm e)))) out"
    by (simp add: ftime_I_def text2_def Let_def)
next
  fix e post dst pre assume "ok_H e"
  define h where "h = twelve_hour (tm_hour (et_tm e))"
  have h: "1 \<le> h" "h \<le> 12" using twelve_hour_range [OF \<open>ok_H e\<close>] by (simp_all add: h_def)
  then show "ptime_I dst (pre @ text2 (twelve_hour (tm_hour (et_tm e))) @ post) (length pre)
      = (True, copy_I e dst, length pre + length (text2 (twelve_hour (tm_hour (et_tm e)))))"
    by (simp add: text2_def copy_I_def set_field_def ptime_I_def last_digit_le codec_simps
        flip: h_def)
qed

definition copy_p :: "exttm \<Rightarrow> exttm \<Rightarrow> exttm" where
  "copy_p e dst =
    (let h = tm_hour (et_tm dst) in
     if tm_hour (et_tm e) < 12 then (if h = 12 then upd_tm (\<lambda>t. t\<lparr>tm_hour := 0\<rparr>) dst else dst)
     else (if h < 12 then upd_tm (\<lambda>t. t\<lparr>tm_hour := h + 12\<rparr>) dst else dst))"

definition text_p :: "exttm \<Rightarrow> char list" where
  "text_p e = [if tm_hour (et_tm e) < 12 then CHR ''A'' else CHR ''P'', CHR ''M'']"

interpretation dir_p: time_directive ptime_p ftime_p text_p copy_p ok_H any_post
  by unfold_locales
    (simp_all add: ftime_p_def text_p_def copy_p_def ptime_p_def nth_append Let_def)

definition copy_j :: "exttm \<Rightarrow> exttm \<Rightarrow> exttm" where
  "copy_j e = set_field (\<lambda>t. t\<lparr>tm_yday := tm_yday (et_tm e)\<rparr>) ETF_YDAY_SET"

definition ok_j :: "exttm \<Rightarrow> bool" where
  "ok_j e \<longleftrightarrow> 0 \<le> tm_yday (et_tm e) \<and> tm_yday (et_tm e) < 366"

definition text3 :: "int \<Rightarrow> char list" where
  "text3 x = [cdigit x 100, cdigit x 10, cdigit x 1]"

lemma three_digits_read:
  assumes "0 \<le> x" and "x < 1000"
  shows "(dig (cdigit x 100) * 10 + dig (cdigit x 10)) * 10 + dig (cdigit x 1) = x"
proof -
  have "(a * 10 + b) * 10 + c = a * 100 + b * 10 + c" for a b c :: int by simp
  then show ?thesis
    using assms(1) by (simp only: dig_cdigit zero_less_numeral zero_less_one div_by_1
        three_digits [OF assms])
qed

interpretation dir_j: time_directive ptime_j ftime_j "\<lambda>e. text3 (tm_yday (et_tm e) + 1)"
  copy_j ok_j any_post
proof unfold_locales
  fix e len out assume "ok_j e"
  define d where "d = tm_yday (et_tm e) + 1"
  have d: "0 \<le> d" "d < 1000" using \<open>ok_j e\<close> by (simp_all add: ok_j_def d_def)
  then have "d div 100 < 10" by linarith
  with d have "digit_char ((d sdiv 100) smod 100) = cdigit d 100"
    by (simp add: cdigit_nonneg sdiv_nonneg smod_nonneg pos_imp_zdiv_nonneg_iff)
  then show "ftime_j len e out = put len (text3 (tm_yday (et_tm e) + 1)) out"
    by (simp add: ftime_j_def text3_def Let_def flip: d_def)
next
  fix e post dst pre assume ok: "ok_j e"
  define d where "d = tm_yday (et_tm e) + 1"
  have d: "0 \<le> d" "d < 1000" "1 \<le> d" "d \<le> 366" "tm_yday (et_tm e) = d - 1"
    using ok by (simp_all add: ok_j_def d_def)
  let ?s = "pre @ text3 d @ post"
  have n: "?s ! length pre = cdigit d 100" "?s ! (length pre + 1) = cdigit d 10"
    "?s ! (length pre + 1 + 1) = cdigit d 1" "length pre + 1 + 1 < length ?s"
    by (simp_all add: text3_def nth_append)
  have "more_digit ?s (more_digit ?s (dig (cdigit d 100), length pre + 1))
      = ((dig (cdigit d 100) * 10 + dig (cdigit d 10)) * 10 + dig (cdigit d 1),
         length pre + 1 + 1 + 1)"
    using n d(1) by (simp add: more_digit_hit isdigit_cdigit)
  then have m: "more_digit ?s (more_digit ?s (dig (cdigit d 100), length pre + 1))
      = (d, length pre + 3)"
    using three_digits_read [OF d(1,2)] by simp
  have "length pre + 1 \<le> length ?s" using n(4) by simp
  then show "ptime_j dst (pre @ text3 (tm_yday (et_tm e) + 1) @ post) (length pre)
      = (True, copy_j e dst, length pre + length (text3 (tm_yday (et_tm e) + 1)))"
    unfolding d_def [symmetric] ptime_j_def n(1) m
    using d by (simp add: isdigit_cdigit copy_j_def set_field_def text3_def)
qed

section \<open>Fractions of a second\<close>

definition ok_nsec :: "exttm \<Rightarrow> bool" where
  "ok_nsec e \<longleftrightarrow> 0 \<le> et_nsec e \<and> et_nsec e < 1000000000"

definition set_nsec :: "int \<Rightarrow> exttm_flag \<Rightarrow> exttm \<Rightarrow> exttm" where
  "set_nsec n fl dst = (or_flags {fl} dst)\<lparr>et_nsec := n\<rparr>"

text \<open>One more digit from the left of a number read from the right.\<close>

lemma digit_step: "0 < p \<Longrightarrow> q = p * 10 \<Longrightarrow> x div p mod 10 * p + x mod p = x mod q"
  for p q x :: int
  using zmod_zmult2_eq [of 10 x p] by (simp add: mult.commute)

lemma digit_steps:
  fixes x :: int
  shows "x div 10 mod 10 * 10 + x mod 10 = x mod 100"
    and "x div 100 mod 10 * 100 + x mod 100 = x mod 1000"
    and "x div 1000 mod 10 * 1000 + x mod 1000 = x mod 10000"
    and "x div 10000 mod 10 * 10000 + x mod 10000 = x mod 100000"
    and "x div 100000 mod 10 * 100000 + x mod 100000 = x mod 1000000"
    and "x div 1000000 mod 10 * 1000000 + x mod 1000000 = x mod 10000000"
    and "x div 10000000 mod 10 * 10000000 + x mod 10000000 = x mod 100000000"
    and "x div 100000000 mod 10 * 100000000 + x mod 100000000 = x mod 1000000000"
  by (rule digit_step; simp)+

definition text9 :: "int \<Rightarrow> char list" where
  "text9 x = [cdigit x 100000000, cdigit x 10000000, cdigit x 1000000, cdigit x 100000,
     cdigit x 10000, cdigit x 1000, cdigit x 100, cdigit x 10, cdigit x 1]"

lemma length_text9 [simp]: "length (text9 x) = 9"
  by (simp add: text9_def)

lemma nine_digits_read:
  assumes "0 \<le> x" and "x < 1000000000"
  shows "dig (cdigit x 100000000) * 100000000 + dig (cdigit x 10000000) * 10000000
    + dig (cdigit x 1000000) * 1000000 + dig (cdigit x 100000) * 100000
    + dig (cdigit x 10000) * 10000 + dig (cdigit x 1000) * 1000 + dig (cdigit x 100) * 100
    + dig (cdigit x 10) * 10 + dig (cdigit x 1) * 1 = x"
proof -
  have "x mod 1000000000 = x" using assms by simp
  with assms(1) show ?thesis
    by (simp only: dig_cdigit zero_less_numeral zero_less_one div_by_1 mult_1_right add.assoc
        digit_steps)
qed

definition copy_N :: "exttm \<Rightarrow> exttm \<Rightarrow> exttm" where
  "copy_N e = set_nsec (et_nsec e) ETF_NANOS_SET"

lemma nsec_u32: "ok_nsec e \<Longrightarrow> et_nsec e mod 2 ^ 32 = et_nsec e"
  by (simp add: ok_nsec_def)

interpretation dir_N: time_directive ptime_N ftime_N "\<lambda>e. text9 (et_nsec e)" copy_N ok_nsec any_post
proof unfold_locales
  fix e len out assume "ok_nsec e"
  then show "ftime_N len e out = put len (text9 (et_nsec e)) out"
    unfolding ftime_N_def text9_def Let_def by (simp only: nsec_u32)
next
  fix e post dst pre assume "ok_nsec e"
  define x where "x = et_nsec e"
  have x: "0 \<le> x" "x < 1000000000" using \<open>ok_nsec e\<close> by (simp_all add: ok_nsec_def x_def)
  let ?s = "pre @ text9 x @ post"
  have n: "?s ! (length pre + 0) = cdigit x 100000000" "?s ! (length pre + 1) = cdigit x 10000000"
    "?s ! (length pre + 2) = cdigit x 1000000" "?s ! (length pre + 3) = cdigit x 100000"
    "?s ! (length pre + 4) = cdigit x 10000" "?s ! (length pre + 5) = cdigit x 1000"
    "?s ! (length pre + 6) = cdigit x 100" "?s ! (length pre + 7) = cdigit x 10"
    "?s ! (length pre + 8) = cdigit x 1"
    by (simp_all add: text9_def nth_append)
  have "take 9 (drop (length pre) ?s) = text9 x" by (simp add: text9_def)
  then have d: "list_all isdigit (take 9 (drop (length pre) ?s))"
    using x by (simp add: text9_def isdigit_cdigit)
  have l: "\<not> length pre + 9 > length ?s" by (simp add: text9_def)
  show "ptime_N dst (pre @ text9 (et_nsec e) @ post) (length pre)
      = (True, copy_N e dst, length pre + length (text9 (et_nsec e)))"
    unfolding x_def [symmetric] ptime_N_def n nine_digits_read [OF x]
    using l d by (simp add: copy_N_def set_nsec_def x_def text9_def)
qed

definition copy_L :: "exttm \<Rightarrow> exttm \<Rightarrow> exttm" where
  "copy_L e = set_nsec (et_nsec e div 1000000 * 1000000) ETF_MILLIS_SET"

interpretation dir_L: time_directive ptime_L ftime_L "\<lambda>e. text3 (et_nsec e div 1000000)"
  copy_L ok_nsec any_post
proof unfold_locales
  fix e len out assume "ok_nsec e"
  then show "ftime_L len e out = put len (text3 (et_nsec e div 1000000)) out"
    by (simp add: ftime_L_def text3_def Let_def ok_nsec_def sdiv_nonneg)
next
  fix e post dst pre assume ok: "ok_nsec e"
  define x where "x = et_nsec e div 1000000"
  have x: "0 \<le> x" "x < 1000" using ok by (auto simp: ok_nsec_def x_def)
  let ?s = "pre @ text3 x @ post"
  have n: "?s ! length pre = cdigit x 100" "?s ! (length pre + 1) = cdigit x 10"
    "?s ! (length pre + 2) = cdigit x 1" "length ?s - length pre \<ge> 3"
    by (simp_all add: text3_def nth_append)
  have v: "dig (cdigit x 100) * 100 + dig (cdigit x 10) * 10 + dig (cdigit x 1) = x"
    using three_digits_read [OF x] by simp
  show "ptime_L dst (pre @ text3 (et_nsec e div 1000000) @ post) (length pre)
      = (True, copy_L e dst, length pre + length (text3 (et_nsec e div 1000000)))"
    unfolding x_def [symmetric] ptime_L_def Let_def n v
    using n(4) x by (simp add: isdigit_cdigit copy_L_def set_nsec_def text3_def x_def)
qed

text \<open>The greedy \<open>%f\<close>: its text must not be followed by a digit.\<close>

definition no_digit :: "char list \<Rightarrow> bool" where
  "no_digit post \<longleftrightarrow> (case post of [] \<Rightarrow> True | c # _ \<Rightarrow> \<not> isdigit c)"

fun frac_val :: "int \<Rightarrow> char list \<Rightarrow> int" where
  "frac_val m [] = 0"
| "frac_val m (c # cs) = dig c * m + frac_val (m div 10) cs"

lemma ptime_f_loop_run:
  assumes "list_all isdigit ds" and "no_digit post" and "length ds < left"
  shows "ptime_f_loop (pre @ seen @ ds @ post) (length pre) (length seen) m n left
    = (n + frac_val m ds, length seen + length ds)"
  using assms
proof (induction left arbitrary: seen ds m n)
  case 0
  then show ?case by simp
next
  case (Suc left)
  show ?case
  proof (cases ds)
    case Nil
    with Suc.prems show ?thesis
      by (cases post) (auto simp: no_digit_def nth_append)
  next
    case (Cons c cs)
    have "ptime_f_loop (pre @ (seen @ [c]) @ cs @ post) (length pre) (length (seen @ [c]))
        (m div 10) (n + dig c * m) left
        = (n + dig c * m + frac_val (m div 10) cs, length (seen @ [c]) + length cs)"
      using Suc.prems Cons by (intro Suc.IH) auto
    with Cons Suc.prems show ?thesis by (simp add: nth_append)
  qed
qed

definition frac_len :: "exttm \<Rightarrow> nat" where
  "frac_len e = (if ETF_MICROS_SET \<in> et_flags e then 6
                 else if ETF_NANOS_SET \<in> et_flags e then 9 else 3)"

definition text_f :: "exttm \<Rightarrow> char list" where
  "text_f e = take (frac_len e) (text9 (et_nsec e))"

definition copy_f :: "exttm \<Rightarrow> exttm \<Rightarrow> exttm" where
  "copy_f e =
    (if frac_len e = 3 then set_nsec (et_nsec e div 1000000 * 1000000) ETF_MILLIS_SET
     else if frac_len e = 6 then set_nsec (et_nsec e div 1000 * 1000) ETF_MICROS_SET
     else set_nsec (et_nsec e) ETF_NANOS_SET)"

lemma ftime_f_digits_text:
  assumes "ok_nsec e" and "n \<le> 9"
  shows "ftime_f_digits (et_nsec e) n = take n (text9 (et_nsec e))"
proof -
  have x: "0 \<le> et_nsec e" using assms(1) by (simp add: ok_nsec_def)
  have "ftime_f_digits (et_nsec e) 9 = text9 (et_nsec e)"
    unfolding ftime_f_digits_def nsec_u32 [OF assms(1)] text9_def
    by (simp add: upt_rec cdigit_nonneg x)
  moreover have "ftime_f_digits (et_nsec e) n = take n (ftime_f_digits (et_nsec e) 9)"
    using assms(2) by (simp add: ftime_f_digits_def take_map)
  ultimately show ?thesis by simp
qed

lemma frac_val_text9:
  assumes "0 \<le> x" and "x < 1000000000"
  shows "frac_val 100000000 (take 9 (text9 x)) = x"
    and "frac_val 100000000 (take 6 (text9 x)) = x div 1000 * 1000"
    and "frac_val 100000000 (take 3 (text9 x)) = x div 1000000 * 1000000"
proof -
  define d where "d p = dig (cdigit x p)" for p
  have v: "d p = x div p mod 10" if "0 < p" for p
    using assms(1) that by (simp add: d_def dig_cdigit)
  have n: "d 100000000 * 100000000 + d 10000000 * 10000000 + d 1000000 * 1000000
      + d 100000 * 100000 + d 10000 * 10000 + d 1000 * 1000 + d 100 * 100 + d 10 * 10 + d 1 = x"
    using nine_digits_read [OF assms] by (simp only: d_def mult_1_right)
  have l: "d 100 * 100 + (d 10 * 10 + d 1) = x mod 1000"
    by (simp only: v zero_less_numeral zero_less_one div_by_1 digit_steps)
  have h: "d 100000 * 100000 + (d 10000 * 10000 + (d 1000 * 1000 + x mod 1000)) = x mod 1000000"
    by (simp only: v zero_less_numeral digit_steps)
  have m: "x div 1000 * 1000 + x mod 1000 = x" "x div 1000000 * 1000000 + x mod 1000000 = x"
    by (simp_all only: div_mult_mod_eq)
  have "frac_val 100000000 (take 9 (text9 x)) = d 100000000 * 100000000 + d 10000000 * 10000000
      + d 1000000 * 1000000 + d 100000 * 100000 + d 10000 * 10000 + d 1000 * 1000 + d 100 * 100
      + d 10 * 10 + d 1"
    by (simp add: text9_def d_def)
  with n show "frac_val 100000000 (take 9 (text9 x)) = x" by (simp only:)
  have "frac_val 100000000 (take 6 (text9 x)) = d 100000000 * 100000000 + d 10000000 * 10000000
      + d 1000000 * 1000000 + d 100000 * 100000 + d 10000 * 10000 + d 1000 * 1000"
    by (simp add: text9_def d_def)
  then have "frac_val 100000000 (take 6 (text9 x)) + x mod 1000 = x"
    using n l by (simp only: add.assoc)
  then show "frac_val 100000000 (take 6 (text9 x)) = x div 1000 * 1000"
    using m(1) by (metis add_right_cancel)
  have "frac_val 100000000 (take 3 (text9 x)) = d 100000000 * 100000000 + d 10000000 * 10000000
      + d 1000000 * 1000000"
    by (simp add: text9_def d_def)
  then have "frac_val 100000000 (take 3 (text9 x)) + x mod 1000000 = x"
    using n l h by (simp only: add.assoc)
  then show "frac_val 100000000 (take 3 (text9 x)) = x div 1000000 * 1000000"
    using m(2) by (metis add_right_cancel)
qed

interpretation dir_f: time_directive ptime_f ftime_f text_f copy_f ok_nsec no_digit
proof unfold_locales
  fix e len out assume "ok_nsec e"
  then show "ftime_f len e out = put len (text_f e) out"
    by (simp add: ftime_f_def text_f_def frac_len_def ftime_f_digits_text Let_def)
next
  fix e post dst pre assume ok: "ok_nsec e" and nd: "no_digit post"
  define x where "x = et_nsec e"
  have x: "0 \<le> x" "x < 1000000000" using ok by (simp_all add: ok_nsec_def x_def)
  have n: "frac_len e = 3 \<or> frac_len e = 6 \<or> frac_len e = 9" by (simp add: frac_len_def)
  have "list_all isdigit (text9 x)" using x by (simp add: text9_def isdigit_cdigit)
  then have d: "list_all isdigit (text_f e)"
    unfolding text_f_def x_def by (metis list_all_append append_take_drop_id)
  have len: "length (text_f e) = frac_len e" using n by (auto simp: text_f_def text9_def)
  have "ptime_f_loop (pre @ text_f e @ post) (length pre) 0 100000000 0 10
      = (frac_val 100000000 (text_f e), frac_len e)"
    using ptime_f_loop_run [OF d nd, of 10 pre "[]" 100000000 0] len n by auto
  then show "ptime_f dst (pre @ text_f e @ post) (length pre)
      = (True, copy_f e dst, length pre + length (text_f e))"
    using n frac_val_text9 [OF x]
    by (auto simp: ptime_f_def len copy_f_def set_nsec_def text_f_def x_def)
qed

section \<open>Month names and zones\<close>

text \<open>
  The fast path of \<open>%b\<close> needs a following character that is neither a dot nor a letter; then the
  locale is not consulted.
\<close>

definition word_end :: "char list \<Rightarrow> bool" where
  "word_end post \<longleftrightarrow>
     (case post of [] \<Rightarrow> False | c # _ \<Rightarrow> c \<noteq> CHR ''.'' \<and> \<not> isalpha c)"

definition month_name :: "int \<Rightarrow> char list" where
  "month_name m =
    (if m = 0 then ''Jan'' else if m = 1 then ''Feb'' else if m = 2 then ''Mar''
     else if m = 3 then ''Apr'' else if m = 4 then ''May'' else if m = 5 then ''Jun''
     else if m = 6 then ''Jul'' else if m = 7 then ''Aug'' else if m = 8 then ''Sep''
     else if m = 9 then ''Oct'' else if m = 10 then ''Nov'' else if m = 11 then ''Dec''
     else ''XXX'')"

lemma length_month_name [simp]: "length (month_name m) = 3"
  by (simp add: month_name_def)

lemma month_name_abbr:
  assumes "0 \<le> m" and "m < 12"
  shows "map_of month_abbr
    [clear20 (month_name m ! 0), clear20 (month_name m ! 1), clear20 (month_name m ! 2)] = Some m"
  using nat_less_12_cases [OF assms] by (auto simp: month_name_def month_abbr_def)

interpretation dir_b: time_directive "ptime_b sp" ftime_b "\<lambda>e. month_name (tm_mon (et_tm e))"
  copy_m ok_m word_end for sp
proof unfold_locales
  fix e len out
  show "ftime_b len e out = put len (month_name (tm_mon (et_tm e))) out"
    by (simp add: ftime_b_def month_name_def Let_def)
next
  fix e post dst pre assume ok: "ok_m e" and w: "word_end post"
  define m where "m = tm_mon (et_tm e)"
  have m: "0 \<le> m" "m < 12" using ok by (simp_all add: ok_m_def m_def)
  let ?s = "pre @ month_name m @ post"
  obtain c cs where post: "post = c # cs" "c \<noteq> CHR ''.''" "\<not> isalpha c"
    using w by (cases post) (auto simp: word_end_def)
  have n: "?s ! length pre = month_name m ! 0" "?s ! (length pre + 1) = month_name m ! 1"
    "?s ! (length pre + 2) = month_name m ! 2" "?s ! (length pre + 3) = c"
    "length pre + 3 < length ?s"
    by (simp_all add: nth_append post(1))
  have "ptime_b_int dst ?s (length pre) = (True, copy_m e dst)"
    unfolding ptime_b_int_def n month_name_abbr [OF m]
    by (simp add: copy_m_def set_field_def m_def)
  then show "ptime_b sp dst (pre @ month_name (tm_mon (et_tm e)) @ post) (length pre)
      = (True, copy_m e dst, length pre + length (month_name (tm_mon (et_tm e))))"
    unfolding m_def [symmetric] ptime_b_def n(4) using n(5) post by simp
qed

definition ok_z :: "exttm \<Rightarrow> bool" where
  "ok_z e \<longleftrightarrow>
     ETF_ZONE_SET \<in> et_flags e \<and> \<bar>et_gmtoff e\<bar> < 360000 \<and> \<bar>et_gmtoff e\<bar> mod 60 = 0"

definition text_z :: "exttm \<Rightarrow> char list" where
  "text_z e =
    (if et_gmtoff e = 0 \<and> ETF_Z_FOR_UTC \<in> et_flags e then [CHR ''Z'']
     else
       [if et_gmtoff e < 0 then CHR ''-'' else CHR ''+''] @ text2 (\<bar>et_gmtoff e\<bar> div 3600)
       @ (if ETF_Z_COLON \<in> et_flags e then [CHR '':''] else [])
       @ text2 (\<bar>et_gmtoff e\<bar> div 60 mod 60))"

definition copy_z :: "exttm \<Rightarrow> exttm \<Rightarrow> exttm" where
  "copy_z e dst =
    (upd_tm (\<lambda>t. t\<lparr>tm_gmtoff := et_gmtoff e\<rparr>)
      (or_flags
        (if et_gmtoff e = 0 \<and> ETF_Z_FOR_UTC \<in> et_flags e then {ETF_ZONE_SET, ETF_Z_FOR_UTC}
         else if ETF_Z_COLON \<in> et_flags e then {ETF_ZONE_SET, ETF_Z_COLON} else {ETF_ZONE_SET})
        dst))\<lparr>et_gmtoff := et_gmtoff e\<rparr>"

lemma text_z_parts:
  assumes "ok_z e"
  defines "g \<equiv> \<bar>et_gmtoff e\<bar>"
  shows "0 \<le> g div 3600" and "g div 3600 < 100" and "0 \<le> g div 60 mod 60"
    and "g div 60 mod 60 < 100"
    and "(g div 3600) * 3600 + (g div 60 mod 60) * 60 = g"
    and "(g sdiv 60) sdiv 60 = g div 3600" and "(g sdiv 60) smod 60 = g div 60 mod 60"
proof -
  have g: "0 \<le> g" "g < 360000" "g mod 60 = 0" using assms by (simp_all add: ok_z_def)
  have q: "g div 3600 = g div 60 div 60" by simp
  show "0 \<le> g div 3600" "0 \<le> g div 60 mod 60" "g div 60 mod 60 < 100"
    using g(1) by (simp_all add: pos_imp_zdiv_nonneg_iff)
  show "g div 3600 < 100" using g(2) by linarith
  have "g div 60 div 60 * 60 + g div 60 mod 60 = g div 60" by (rule div_mult_mod_eq)
  then have "(g div 60 div 60) * 3600 + (g div 60 mod 60) * 60 = g div 60 * 60" by linarith
  also have "g div 60 * 60 = g" using g(3) div_mult_mod_eq [of g 60] by simp
  finally show "(g div 3600) * 3600 + (g div 60 mod 60) * 60 = g" by (simp only: q)
  show "(g sdiv 60) sdiv 60 = g div 3600" "(g sdiv 60) smod 60 = g div 60 mod 60"
    using g(1) by (simp_all add: sdiv_nonneg smod_nonneg pos_imp_zdiv_nonneg_iff)
qed

interpretation dir_z: time_directive ptime_z ftime_z text_z copy_z ok_z any_post
proof unfold_locales
  fix e len out assume ok: "ok_z e"
  then have z: "ETF_ZONE_SET \<in> et_flags e" by (simp add: ok_z_def)
  show "ftime_z len e out = put len (text_z e) out"
    unfolding ftime_z_def Let_def text_z_parts(6,7) [OF ok] text_z_def text2_def using z by simp
next
  fix e post dst pre assume ok: "ok_z e"
  define h m where "h = \<bar>et_gmtoff e\<bar> div 3600" and "m = \<bar>et_gmtoff e\<bar> div 60 mod 60"
  have h: "0 \<le> h" "h < 100" and m: "0 \<le> m" "m < 100"
    and g: "h * 3600 + m * 60 = \<bar>et_gmtoff e\<bar>"
    using text_z_parts(1-5) [OF ok] by (simp_all add: h_def m_def)
  have hv: "dig (cdigit h 10) * 10 + dig (cdigit h 1) = h"
    and mv: "dig (cdigit m 10) * 10 + dig (cdigit m 1) = m"
    using h m by (simp_all only: two_digits_read)
  have nc: "cdigit m 10 \<noteq> CHR '':''"
    using isdigit_cdigit [OF m(1), of 10] by (auto simp: isdigit_def schar_def)
  define sg where "sg = (if et_gmtoff e < 0 then CHR ''-'' else CHR ''+'')"
  have sg: "sg \<noteq> CHR ''Z''" "sg = CHR ''+'' \<or> sg = CHR ''-''" by (simp_all add: sg_def)
  have off: "(if sg = CHR ''+'' then 1 else -1) * (h * 60 * 60 + m * 60) = et_gmtoff e"
    using g by (auto simp: sg_def)
  have t: "text_z e = (if et_gmtoff e = 0 \<and> ETF_Z_FOR_UTC \<in> et_flags e then [CHR ''Z'']
     else [sg, cdigit h 10, cdigit h 1] @ (if ETF_Z_COLON \<in> et_flags e then [CHR '':''] else [])
       @ [cdigit m 10, cdigit m 1])"
    by (simp add: text_z_def text2_def sg_def h_def m_def)
  show "ptime_z dst (pre @ text_z e @ post) (length pre)
      = (True, copy_z e dst, length pre + length (text_z e))"
  proof (cases "et_gmtoff e = 0 \<and> ETF_Z_FOR_UTC \<in> et_flags e")
    case True
    then show ?thesis by (simp add: t ptime_z_def copy_z_def)
  next
    case False
    have val: "(if sg = CHR ''+'' then 1 else -1)
        * ((dig (cdigit h 10) * 10 + dig (cdigit h 1) * 1) * 60 * 60
           + (dig (cdigit m 10) * 10 + dig (cdigit m 1) * 1) * 60) = et_gmtoff e"
      unfolding mult_1_right hv mv by (rule off)
    let ?s = "pre @ text_z e @ post"
    have n: "?s ! length pre = sg" "?s ! (length pre + 1) = cdigit h 10"
      "?s ! (length pre + 2) = cdigit h 1"
      by (simp_all add: t if_not_P [OF False] nth_append)
    have sg2: "\<not> (sg \<noteq> CHR ''+'' \<and> sg \<noteq> CHR ''-'')" using sg(2) by blast
    show ?thesis
    proof (cases "ETF_Z_COLON \<in> et_flags e")
      case True
      have k: "?s ! (length pre + 3) = CHR '':''" "?s ! (length pre + 1 + 3) = cdigit m 10"
        "?s ! (length pre + 1 + 4) = cdigit m 1" "length pre + 6 \<le> length ?s"
        "length (text_z e) = 6"
        by (simp_all add: t if_not_P [OF False] nth_append True)
      then have "length pre + 6 \<le> length ?s \<and> CHR '':'' = CHR '':''" by simp
      from sg(1) k(4) show ?thesis
        unfolding ptime_z_def copy_z_def if_not_P [OF False] n k(1) Let_def
          if_P [OF \<open>length pre + 6 \<le> length ?s \<and> CHR '':'' = CHR '':''\<close>] k(2,3) val
          if_not_P [OF sg2]
        by (simp add: True k(5) or_flags_def insert_commute)
    next
      case nocolon: False
      have k: "?s ! (length pre + 3) = cdigit m 10" "?s ! (length pre + 0 + 3) = cdigit m 10"
        "?s ! (length pre + 0 + 4) = cdigit m 1" "length pre + 5 \<le> length ?s"
        "length (text_z e) = 5"
        by (simp_all add: t if_not_P [OF False] nth_append nocolon)
      have c: "\<not> (length pre + 6 \<le> length ?s \<and> cdigit m 10 = CHR '':'')" using nc by blast
      from sg(1) k(4) show ?thesis
        unfolding ptime_z_def copy_z_def if_not_P [OF False] n k(1) Let_def if_not_P [OF c] k(2,3)
          val if_not_P [OF sg2]
        by (simp add: nocolon k(5))
    qed
  qed
qed

end
