(* ===== verification/Ptimec_Format.thy ===== *)
theory Ptimec_Format
  imports Ptimec_Codec
begin

text \<open>
  The format-string interpreters \<open>ptime_fmt\<close> and \<open>ftime_fmt\<close> (\<open>src/ptimec_rt.cc\<close>): printing
  never leaves the buffer, parsing never leaves the input, and parsing what was printed restores the
  printed fields.
\<close>

section \<open>Printing stays in the buffer\<close>

lemma ftime_case_bounded:
  assumes "ftime_case c = Some f" and "length out < len"
  shows "length (f len e out) < len"
proof -
  note defs = ftime_a_def ftime_b_def ftime_S_def ftime_s_def ftime_L_def ftime_M_def ftime_H_def
    ftime_i_def ftime_6_def ftime_9_def ftime_I_def ftime_d_def ftime_e_def ftime_j_def ftime_f_def
    ftime_k_def ftime_l_def ftime_m_def ftime_N_def ftime_p_def ftime_q_def ftime_Y_def ftime_y_def
    ftime_z_def
  show ?thesis
    using assms(1) unfolding ftime_case_def
    by (auto simp: defs Let_def length_put [OF assms(2)] length_put_snprintf [OF assms(2)] assms(2)
        simp del: put.simps split: if_splits)
qed

text \<open>The NUL that \<open>ftime_fmt\<close> stores after the text is inside the buffer.\<close>

theorem ftime_fmt_bounded: "length out < len \<Longrightarrow> length (ftime_fmt len fmt e out) < len"
proof (induction len fmt e out rule: ftime_fmt.induct)
  case (1 len e out)
  then show ?case by simp
next
  case (2 len c e out)
  then show ?case by (simp add: ftime_char_def length_put del: put.simps)
next
  case (3 len c d fmt e out)
  have ch: "length (ftime_char len x out) < len" for x
    using 3 by (simp add: ftime_char_def length_put del: put.simps)
  show ?case
    using 3 ch ftime_case_bounded [of d _ out len e] by (auto split: option.splits)
qed

theorem ftime_fmt_bounded_witness: "length (ftime_fmt 6 ''%Y-%m-%d'' exttm_init ''x'') < 6"
  by (rule ftime_fmt_bounded) simp

section \<open>Formats made of codecs\<close>

record codec =
  cd_shown :: "exttm \<Rightarrow> char list"
  cd_copy :: "exttm \<Rightarrow> exttm \<Rightarrow> exttm"
  cd_ok :: "exttm \<Rightarrow> bool"
  cd_follow :: "char list \<Rightarrow> bool"

definition mk_codec :: "(exttm \<Rightarrow> char list) \<Rightarrow> (exttm \<Rightarrow> exttm \<Rightarrow> exttm) \<Rightarrow> (exttm \<Rightarrow> bool) \<Rightarrow>
    (char list \<Rightarrow> bool) \<Rightarrow> codec" where
  "mk_codec t c k f = \<lparr>cd_shown = t, cd_copy = c, cd_ok = k, cd_follow = f\<rparr>"

definition dir_codec :: "char \<Rightarrow> codec option" where
  "dir_codec d = map_of
    [(CHR ''S'', mk_codec (\<lambda>e. text2 (tm_sec (et_tm e))) copy_S ok_S any_post),
     (CHR ''M'', mk_codec (\<lambda>e. text2 (tm_min (et_tm e))) copy_M ok_M any_post),
     (CHR ''H'', mk_codec (\<lambda>e. text2 (tm_hour (et_tm e))) copy_H ok_H any_post),
     (CHR ''d'', mk_codec (\<lambda>e. text2 (tm_mday (et_tm e))) copy_d ok_d any_post),
     (CHR ''Y'', mk_codec text_Y copy_Y ok_Y any_post),
     (CHR ''m'', mk_codec (\<lambda>e. text2 (tm_mon (et_tm e) + 1)) copy_m ok_m any_post),
     (CHR ''e'', mk_codec text_e copy_e ok_d any_post),
     (CHR ''k'', mk_codec (\<lambda>e. text2 (tm_hour (et_tm e))) copy_H ok_k any_post),
     (CHR ''I'', mk_codec (\<lambda>e. text2 (twelve_hour (tm_hour (et_tm e)))) copy_I ok_H any_post),
     (CHR ''p'', mk_codec text_p copy_p ok_H any_post),
     (CHR ''j'', mk_codec (\<lambda>e. text3 (tm_yday (et_tm e) + 1)) copy_j ok_j any_post),
     (CHR ''N'', mk_codec (\<lambda>e. text9 (et_nsec e)) copy_N ok_nsec any_post),
     (CHR ''L'', mk_codec (\<lambda>e. text3 (et_nsec e div 1000000)) copy_L ok_nsec any_post),
     (CHR ''f'', mk_codec text_f copy_f ok_nsec no_digit),
     (CHR ''b'', mk_codec (\<lambda>e. month_name (tm_mon (et_tm e))) copy_m ok_m word_end),
     (CHR ''z'', mk_codec text_z copy_z ok_z any_post)] d"

lemma dir_codec_laws:
  assumes "dir_codec d = Some k"
  obtains f g where "ptime_case sp d = Some f" and "ftime_case d = Some g"
    and "time_directive f g (cd_shown k) (cd_copy k) (cd_ok k) (cd_follow k)"
    and "d \<notin> {CHR ''%'', CHR ''B'', CHR ''a'', CHR ''Z''}"
proof -
  note axs = dir_S.time_directive_axioms dir_M.time_directive_axioms dir_H.time_directive_axioms
    dir_d.time_directive_axioms dir_Y.time_directive_axioms dir_m.time_directive_axioms
    dir_e.time_directive_axioms dir_k.time_directive_axioms dir_I.time_directive_axioms
    dir_p.time_directive_axioms dir_j.time_directive_axioms dir_N.time_directive_axioms
    dir_L.time_directive_axioms dir_f.time_directive_axioms dir_b.time_directive_axioms
    dir_z.time_directive_axioms
  have "\<exists>f g. ptime_case sp d = Some f \<and> ftime_case d = Some g
      \<and> time_directive f g (cd_shown k) (cd_copy k) (cd_ok k) (cd_follow k)
      \<and> d \<notin> {CHR ''%'', CHR ''B'', CHR ''a'', CHR ''Z''}"
    using assms axs unfolding dir_codec_def
    by (auto simp: ptime_case_def ftime_case_def mk_codec_def split: if_splits)
  with that show ?thesis by blast
qed

datatype fmt_item = Lit char | Dir char

fun fmt_str :: "fmt_item list \<Rightarrow> char list" where
  "fmt_str [] = []"
| "fmt_str (Lit c # is) = c # fmt_str is"
| "fmt_str (Dir d # is) = CHR ''%'' # d # fmt_str is"

text \<open>The text of a format for a time, and the fields its parser sets.\<close>

fun fmt_text :: "fmt_item list \<Rightarrow> exttm \<Rightarrow> char list" where
  "fmt_text [] e = []"
| "fmt_text (Lit c # is) e = c # fmt_text is e"
| "fmt_text (Dir d # is) e =
     (case dir_codec d of Some k \<Rightarrow> cd_shown k e @ fmt_text is e | None \<Rightarrow> fmt_text is e)"

fun fmt_copy :: "fmt_item list \<Rightarrow> exttm \<Rightarrow> exttm \<Rightarrow> exttm" where
  "fmt_copy [] e dst = dst"
| "fmt_copy (Lit c # is) e dst = fmt_copy is e dst"
| "fmt_copy (Dir d # is) e dst =
     (case dir_codec d of Some k \<Rightarrow> fmt_copy is e (cd_copy k e dst) | None \<Rightarrow> fmt_copy is e dst)"

text \<open>
  A format is invertible for a time if its literals are not \<open>%\<close>, its directives are codecs, the
  fields they print are in range, and a greedy directive is followed by text that ends it.
\<close>

fun fmt_ok :: "fmt_item list \<Rightarrow> exttm \<Rightarrow> bool" where
  "fmt_ok [] e \<longleftrightarrow> True"
| "fmt_ok (Lit c # is) e \<longleftrightarrow> c \<noteq> CHR ''%'' \<and> fmt_ok is e"
| "fmt_ok (Dir d # is) e \<longleftrightarrow>
     (case dir_codec d of Some k \<Rightarrow> cd_ok k e \<and> cd_follow k (fmt_text is e) \<and> fmt_ok is e
                        | None \<Rightarrow> False)"

lemma ftime_fmt_lit:
  "c \<noteq> CHR ''%'' \<Longrightarrow> ftime_fmt len (c # fmt) e out = ftime_fmt len fmt e (ftime_char len c out)"
  by (cases fmt) simp_all

lemma ftime_fmt_dir:
  "ftime_case d = Some f \<Longrightarrow> d \<noteq> CHR ''%'' \<Longrightarrow>
   ftime_fmt len (CHR ''%'' # d # fmt) e out = ftime_fmt len fmt e (f len e out)"
  by simp

lemma ptime_fmt_lit:
  "c \<noteq> CHR ''%'' \<Longrightarrow> ptime_fmt a b (c # fmt) dst str off =
     (case ptime_char c str off of
        (True, off') \<Rightarrow> ptime_fmt a b fmt dst str off'
      | (False, off') \<Rightarrow> (False, dst, off'))"
  by (cases fmt) (auto split: prod.splits bool.splits)

lemma ptime_fmt_dir:
  "ptime_case a d = Some f \<Longrightarrow> d \<notin> {CHR ''%'', CHR ''B'', CHR ''a'', CHR ''Z''} \<Longrightarrow>
   ptime_fmt a b (CHR ''%'' # d # fmt) dst str off =
     (case f dst str off of
        (True, dst', off') \<Rightarrow> ptime_fmt a b fmt dst' str off'
      | (False, dst', off') \<Rightarrow> (False, dst', off'))"
  by simp

lemma ftime_fmt_text:
  "fmt_ok is e \<Longrightarrow> length out + length (fmt_text is e) + 1 < len \<Longrightarrow>
   ftime_fmt len (fmt_str is) e out = out @ fmt_text is e"
proof (induction "is" arbitrary: out)
  case Nil
  then show ?case by simp
next
  case (Cons i "is")
  show ?case
  proof (cases i)
    case (Lit c)
    with Cons show ?thesis by (simp add: ftime_fmt_lit ftime_char_def put_fits del: put.simps)
  next
    case (Dir d)
    with Cons.prems obtain k where k: "dir_codec d = Some k" and kok: "cd_ok k e" "fmt_ok is e"
      by (auto split: option.splits)
    obtain f g where "ftime_case d = Some g" "d \<noteq> CHR ''%''"
      and "time_directive f g (cd_shown k) (cd_copy k) (cd_ok k) (cd_follow k)"
      using dir_codec_laws [OF k] by (metis insertI1)
    with k kok Cons Dir show ?thesis
      using time_directive.print_fits [of f g "cd_shown k" "cd_copy k" "cd_ok k" "cd_follow k" e out len]
      by simp
  qed
qed

lemma ptime_fmt_text:
  "fmt_ok is e \<Longrightarrow>
   ptime_fmt a b (fmt_str is) dst (pre @ fmt_text is e) (length pre)
     = (True, fmt_copy is e dst, length pre + length (fmt_text is e))"
proof (induction "is" arbitrary: pre dst)
  case Nil
  then show ?case by simp
next
  case (Cons i "is")
  show ?case
  proof (cases i)
    case (Lit c)
    with Cons.prems Cons.IH [where pre = "pre @ [c]"] show ?thesis
      by (simp add: ptime_fmt_lit ptime_char_def)
  next
    case (Dir d)
    with Cons.prems obtain k where k: "dir_codec d = Some k"
      and kok: "cd_ok k e" "cd_follow k (fmt_text is e)" "fmt_ok is e"
      by (auto split: option.splits)
    obtain f g where f: "ptime_case a d = Some f"
      "d \<notin> {CHR ''%'', CHR ''B'', CHR ''a'', CHR ''Z''}"
      and dir: "time_directive f g (cd_shown k) (cd_copy k) (cd_ok k) (cd_follow k)"
      using dir_codec_laws [OF k, of a] by metis
    have "f dst (pre @ cd_shown k e @ fmt_text is e) (length pre)
        = (True, cd_copy k e dst, length pre + length (cd_shown k e))"
      using time_directive.parse_shown [OF dir kok(1,2)] .
    then show ?thesis
      using Cons.IH [where pre = "pre @ cd_shown k e" and dst = "cd_copy k e dst"] kok(3) k Dir
      by (simp add: ptime_fmt_dir [OF f] del: ptime_fmt.simps)
  qed
qed

text \<open>
  C28: for every format made of these directives and literal characters, parsing what was printed
  succeeds, consumes the whole text and restores the printed fields, whatever the parsed time held
  before.
\<close>

theorem format_roundtrip:
  assumes "fmt_ok is e" and "length (fmt_text is e) + 1 < len"
  shows "ptime_fmt sp_b sp_B (fmt_str is) dst (ftime_fmt len (fmt_str is) e []) 0
    = (True, fmt_copy is e dst, length (fmt_text is e))"
  using ptime_fmt_text [OF assms(1), of sp_b sp_B dst "[]"]
    ftime_fmt_text [OF assms(1), of "[]" len] assms(2)
  by simp

theorem format_roundtrip_witness:
  "ptime_fmt (\<lambda>_ _. None) (\<lambda>_ _. None) ''%H:%M'' exttm_init
     (ftime_fmt 32 ''%H:%M'' (exttm_init\<lparr>et_tm := zero_tm\<lparr>tm_hour := 23, tm_min := 7\<rparr>\<rparr>) []) 0
   = (True, exttm_init\<lparr>et_tm := zero_tm\<lparr>tm_hour := 23, tm_min := 7\<rparr>,
        et_flags := {ETF_HOUR_SET, ETF_MINUTE_SET}\<rparr>, 5)"
  using format_roundtrip [of "[Dir (CHR ''H''), Lit (CHR '':''), Dir (CHR ''M'')]"
      "exttm_init\<lparr>et_tm := zero_tm\<lparr>tm_hour := 23, tm_min := 7\<rparr>\<rparr>" 32
      "\<lambda>_ _. None" "\<lambda>_ _. None" exttm_init]
  by (simp add: dir_codec_def mk_codec_def any_post_def ok_H_def ok_M_def copy_H_def copy_M_def
      set_field_def upd_tm_def or_flags_def text2_def exttm_init_def zero_tm_def insert_commute)

section \<open>Parsing stays in the input\<close>

text \<open>The offset a parser leaves behind, whether it succeeds or not.\<close>

definition bounded_parser :: "ptime_func \<Rightarrow> bool" where
  "bounded_parser f \<longleftrightarrow>
     (\<forall>dst str off. off \<le> length str \<longrightarrow>
        off \<le> snd (snd (f dst str off)) \<and> snd (snd (f dst str off)) \<le> length str)"

lemma bounded_parserI:
  "(\<And>dst str off. off \<le> length str \<Longrightarrow>
      off \<le> snd (snd (f dst str off)) \<and> snd (snd (f dst str off)) \<le> length str) \<Longrightarrow>
   bounded_parser f"
  by (simp add: bounded_parser_def)

lemma bounded_parserD:
  "bounded_parser f \<Longrightarrow> f dst str off = (ok, dst', off') \<Longrightarrow> off \<le> length str \<Longrightarrow>
   off \<le> off' \<and> off' \<le> length str"
  unfolding bounded_parser_def by (metis snd_conv)

definition bounded_strptime :: "strptime \<Rightarrow> bool" where
  "bounded_strptime sp \<longleftrightarrow> (\<forall>s t t' n. sp s t = Some (t', n) \<longrightarrow> n \<le> length s)"

lemma ptime_checked_bounded: "bounded_parser (ptime_checked n check)"
  by (rule bounded_parserI) (auto simp: ptime_checked_def split: prod.splits bool.splits)

lemma ptime_s_loop_bounds:
  "off \<le> length str \<Longrightarrow> ptime_s_loop str st off v = (ok, v', off') \<Longrightarrow> off \<le> off' \<and> off' \<le> length str"
  by (induction str st off v rule: ptime_s_loop.induct)
    (force simp: ptime_s_loop.simps split: if_splits)

lemma ptime_q_loop_bounds:
  "off \<le> length str \<Longrightarrow> ptime_q_loop str st off v = (ok, v', off') \<Longrightarrow> off \<le> off' \<and> off' \<le> length str"
  by (induction str st off v rule: ptime_q_loop.induct)
    (force simp: ptime_q_loop.simps split: if_splits)

lemma epoch_loop_bounds:
  "off \<le> length str \<Longrightarrow> epoch_loop str off v = (v', off') \<Longrightarrow> off \<le> off' \<and> off' \<le> length str"
  by (induction str off v rule: epoch_loop.induct) (force simp: epoch_loop.simps split: if_splits)

lemma ptime_f_loop_bounds:
  "i \<le> length str - off \<Longrightarrow> ptime_f_loop str off i m n left = (n', i') \<Longrightarrow>
   i' \<le> length str - off"
  by (induction str off i m n left rule: ptime_f_loop.induct) (auto split: if_splits)

lemma ptime_upto_bounds:
  "off \<le> length str \<Longrightarrow> ptime_upto ch str off = (ok, off') \<Longrightarrow> off \<le> off' \<and> off' \<le> length str"
  by (induction ch str off rule: ptime_upto.induct) (force simp: ptime_upto.simps split: if_splits)

lemma more_digit_bounds:
  "more_digit str (v, off) = (v', off') \<Longrightarrow> off \<le> length str \<Longrightarrow> off \<le> off' \<and> off' \<le> length str"
  by (auto simp: more_digit_def split: if_splits)

lemma ptime_b_slow_bounded:
  assumes sp: "bounded_strptime sp"
  shows "bounded_parser (ptime_b_slow sp)"
proof (rule bounded_parserI)
  fix dst :: exttm and str :: "char list" and off :: nat
  assume off: "off \<le> length str"
  let ?zone = "drop off str"
  let ?n = "length (takeWhile isalpha ?zone)"
  let ?zone' = "take ?n ?zone @ CHR ''.'' # drop ?n ?zone"
  have n: "?n \<le> length ?zone" by (rule length_takeWhile_le)
  have z: "c \<le> length ?zone" if "sp ?zone (et_tm dst) = Some (t, c)" for t c
    using sp that unfolding bounded_strptime_def by blast
  have "length ?zone' = Suc (length ?zone)" using n by simp
  then have z': "c \<le> Suc (length ?zone)" if "sp ?zone' (et_tm dst) = Some (t, c)" for t c
    using sp that unfolding bounded_strptime_def by metis
  show "off \<le> snd (snd (ptime_b_slow sp dst str off))
      \<and> snd (snd (ptime_b_slow sp dst str off)) \<le> length str"
  proof (cases "sp ?zone (et_tm dst)")
    case (Some p)
    then show ?thesis
      using z off by (cases p) (fastforce simp: ptime_b_slow_def Let_def)
  next
    case None
    then show ?thesis
      using z' n off
      by (fastforce simp: ptime_b_slow_def Let_def split: option.splits prod.splits)
  qed
qed

lemma ptime_b_bounded: "bounded_strptime sp \<Longrightarrow> bounded_parser (ptime_b sp)"
proof (rule bounded_parserI)
  fix dst :: exttm and str :: "char list" and off :: nat
  assume sp: "bounded_strptime sp" and off: "off \<le> length str"
  have "off \<le> snd (snd (ptime_b_slow sp d str off)) \<and> snd (snd (ptime_b_slow sp d str off)) \<le> length str"
    for d
    using ptime_b_slow_bounded [OF sp] off unfolding bounded_parser_def by blast
  then show "off \<le> snd (snd (ptime_b sp dst str off)) \<and> snd (snd (ptime_b sp dst str off)) \<le> length str"
    by (auto simp: ptime_b_def split: prod.splits bool.splits)
qed

lemma ptime_epoch_bounded:
  "bounded_parser ptime_s" "bounded_parser ptime_q" "bounded_parser ptime_i"
  "bounded_parser ptime_6" "bounded_parser ptime_9"
  by (rule bounded_parserI;
      force simp: ptime_s_def ptime_q_def ptime_i_def ptime_6_def ptime_9_def Let_def
        dest: ptime_s_loop_bounds ptime_q_loop_bounds epoch_loop_bounds
        split: prod.splits bool.splits)+

lemma ptime_f_bounded: "bounded_parser ptime_f"
proof (rule bounded_parserI)
  fix dst :: exttm and str :: "char list" and off :: nat
  assume off: "off \<le> length str"
  obtain n i where l: "ptime_f_loop str off 0 100000000 0 10 = (n, i)" by fastforce
  then have "i \<le> length str - off" using ptime_f_loop_bounds [OF _ l] by simp
  with l off show "off \<le> snd (snd (ptime_f dst str off)) \<and> snd (snd (ptime_f dst str off)) \<le> length str"
    by (auto simp: ptime_f_def Let_def)
qed

lemma ptime_digits_bounded:
  "bounded_parser ptime_e" "bounded_parser ptime_j" "bounded_parser ptime_m" "bounded_parser ptime_k"
  by (rule bounded_parserI;
      auto simp: ptime_e_def ptime_j_def ptime_m_def ptime_k_def more_digit_def Let_def)+

lemma ptime_fixed_bounded:
  "bounded_parser ptime_L" "bounded_parser ptime_N" "bounded_parser ptime_I"
  "bounded_parser ptime_p" "bounded_parser ptime_y" "bounded_parser ptime_z"
  by (rule bounded_parserI;
      auto simp: ptime_L_def ptime_N_def ptime_I_def ptime_p_def ptime_y_def ptime_z_def Let_def)+

lemma ptime_l_bounded: "bounded_parser ptime_l"
  by (rule bounded_parserI) (simp add: ptime_l_def Let_def)

lemma ptime_at_bounded: "bounded_parser ptime_at"
  by (rule bounded_parserI) (auto simp: ptime_at_def Let_def split: prod.splits bool.splits)

lemma ptime_case_bounded:
  assumes "ptime_case sp c = Some f" and "bounded_strptime sp"
  shows "bounded_parser f"
  using assms(1) ptime_b_bounded [OF assms(2)] ptime_checked_bounded ptime_epoch_bounded
    ptime_f_bounded ptime_digits_bounded ptime_fixed_bounded ptime_l_bounded ptime_at_bounded
  unfolding ptime_case_def
  by (auto simp: ptime_S_def ptime_M_def ptime_H_def ptime_d_def ptime_Y_def split: if_splits)

lemma ptime_fmt_offset:
  assumes "bounded_strptime sp_b" and "bounded_strptime sp_B" and "off \<le> length str"
    and "ptime_fmt sp_b sp_B fmt dst str off = (ok, dst', off')"
  shows "off \<le> off' \<and> off' \<le> length str"
  using assms
proof (induction sp_b sp_B fmt dst str off rule: ptime_fmt.induct)
  case (1 sp_b sp_B dst str off)
  then show ?case by simp
next
  case (2 sp_b sp_B c dst str off)
  then show ?case by (auto simp: ptime_char_def split: if_splits)
next
  case (3 sp_b sp_B c d fmt dst str off)
  note IH = 3(1-5) and sp_b = 3(6) and sp_B = 3(7) and off = 3(8) and res = 3(9)
  consider (B) "c = CHR ''%''" "d = CHR ''B''"
    | (skip) "c = CHR ''%''" "d = CHR ''a'' \<or> d = CHR ''Z''"
    | (dir) "c = CHR ''%''" "d \<noteq> CHR ''B''" "\<not> (d = CHR ''a'' \<or> d = CHR ''Z'')"
    | (lit) "c \<noteq> CHR ''%''"
    by blast
  then show ?case
  proof cases
    case B
    show ?thesis
    proof (cases "sp_B (drop off str) (et_tm dst)")
      case None
      with B res off show ?thesis by simp
    next
      case (Some p)
      obtain t n where p: "p = (t, n)" by (cases p)
      have "n \<le> length str - off"
        using sp_B Some p unfolding bounded_strptime_def by (metis length_drop)
      with off have "off + n \<le> length str" by simp
      with IH(1) [OF B Some p [symmetric] sp_b sp_B] res B Some p show ?thesis by auto
    qed
  next
    case skip
    then have d: "d \<noteq> CHR ''B''" by auto
    obtain ok1 off1 where u: "(case fmt of t # _ \<Rightarrow> ptime_upto t str off
        | [] \<Rightarrow> ptime_upto_end str off) = (ok1, off1)" by fastforce
    have b: "off \<le> off1 \<and> off1 \<le> length str"
      using u off ptime_upto_bounds [OF off] by (auto simp: ptime_upto_end_def split: list.splits)
    show ?thesis
    proof (cases ok1)
      case True
      with IH(2) [OF skip(1) d skip(2) u [symmetric] _ sp_b sp_B] res skip d u b show ?thesis by auto
    next
      case False
      with res skip d u b show ?thesis by auto
    qed
  next
    case dir
    show ?thesis
    proof (cases "ptime_case sp_b d")
      case None
      with IH(3) [OF dir None sp_b sp_B off] res dir show ?thesis by auto
    next
      case (Some f)
      obtain ok1 dst1 off1 where u: "f dst str off = (ok1, dst1, off1)" by (cases "f dst str off") auto
      have b: "off \<le> off1 \<and> off1 \<le> length str"
        using bounded_parserD [OF ptime_case_bounded [OF Some sp_b] u off] .
      show ?thesis
      proof (cases ok1)
        case True
        with IH(4) [OF dir Some u [symmetric] _ refl sp_b sp_B] res dir Some u b show ?thesis by auto
      next
        case False
        with res dir Some u b show ?thesis by auto
      qed
    qed
  next
    case lit
    obtain ok1 off1 where u: "ptime_char c str off = (ok1, off1)" by fastforce
    have b: "off \<le> off1 \<and> off1 \<le> length str"
      using u off by (auto simp: ptime_char_def split: if_splits)
    show ?thesis
    proof (cases ok1)
      case True
      with IH(5) [OF lit u [symmetric] _ sp_b sp_B] res lit u b show ?thesis by auto
    next
      case False
      with res lit u b show ?thesis by auto
    qed
  qed
qed

text \<open>
  Whatever the format and the input, the interpreter of a format leaves the offset inside the
  input and never moves it back.
\<close>

theorem ptime_fmt_bounded:
  assumes "bounded_strptime sp_b" and "bounded_strptime sp_B"
  shows "bounded_parser (ptime_fmt sp_b sp_B fmt)"
  by (rule bounded_parserI) (metis ptime_fmt_offset [OF assms] prod.collapse)

theorem ptime_fmt_bounded_witness:
  "snd (snd (ptime_fmt (\<lambda>s t. if take 3 s = ''Jan'' then Some (t\<lparr>tm_mon := 0\<rparr>, 3) else None)
      (\<lambda>_ _. None) ''%b %d'' exttm_init ''Jan 7'' 0)) \<le> length ''Jan 7''"
proof -
  let ?b = "\<lambda>s t. if take 3 s = ''Jan'' then Some (t\<lparr>tm_mon := 0\<rparr>, 3) else None"
  let ?r = "ptime_fmt ?b (\<lambda>_ _. None) ''%b %d'' exttm_init ''Jan 7'' 0"
  have b: "bounded_strptime ?b"
    by (auto simp: bounded_strptime_def split: if_splits dest: arg_cong [where f = length])
  have B: "bounded_strptime (\<lambda>_ _. None)" by (simp add: bounded_strptime_def)
  show ?thesis
    using ptime_fmt_bounded [OF b B, of "''%b %d''"] unfolding bounded_parser_def by blast
qed

end
