(* ===== verification/Ptimec_Compile.thy ===== *)
theory Ptimec_Compile
  imports Ptimec_Format
begin

text \<open>
  \<open>src/ptimec.cc\<close>, the build-time compiler from the format strings of \<open>src/time_formats.am\<close> to the
  C++ functions \<open>ptime_fN\<close> and \<open>ftime_fN\<close> of the table \<open>PTIMEC_FORMATS\<close>, and the one fused
  parser of \<open>src/ptimec_spec.hh\<close>.

  The text the compiler prints is a list of statements here, one constructor per \<open>printf\<close>, and
  \<open>exec_stmt\<close> gives each the meaning of the C++ it stands for. The main result is that a compiled
  format accepts what the interpreter \<open>ptime_fmt\<close> accepts and with the same time and offset.
\<close>

section \<open>The fused parser\<close>

definition two :: "char list \<Rightarrow> nat \<Rightarrow> int" where
  "two str off = dig (str ! off) * 10 + dig (str ! (off + 1)) * 1"

definition ptime_YmdTHM :: ptime_func where
  "ptime_YmdTHM dst str off =
    (if off + 16 > length str then (False, dst, off)
     else
       let sep_count = (if str ! (off + 4) = CHR ''-'' then 1 else 0)
             + (if str ! (off + 7) = CHR ''-'' then 1 else 0)
             + (if str ! (off + 10) = CHR ''T'' then 1 else 0)
             + (if str ! (off + 13) = CHR '':'' then 1 else (0::nat));
           m = two str (off + 5); d = two str (off + 8);
           H = two str (off + 11); M = two str (off + 14);
           Y = (two str off * 100 + two str (off + 2)) - 1900
       in if sep_count \<noteq> 4 \<or> Y < 0 \<or> Y > 1100 \<or> m < 1 \<or> m > 12 \<or> d < 0 \<or> d > 31 \<or> H < 0 \<or> H > 23
             \<or> M < 0 \<or> M > 59
          then (False, dst, off)
          else (True,
                or_flags {ETF_YEAR_SET, ETF_MONTH_SET, ETF_DAY_SET, ETF_HOUR_SET, ETF_MINUTE_SET}
                  (upd_tm (\<lambda>t. t\<lparr>tm_year := Y, tm_mon := m - 1, tm_mday := d, tm_hour := H,
                                 tm_min := M\<rparr>) dst), off + 16))"

section \<open>The generated statements\<close>

datatype stmt =
  ClearFlags            \<comment> \<open>\<open>dst->et_flags = 0;\<close>\<close>
| MinWidth nat          \<comment> \<open>\<open>if (len - off_inout < n) return false;\<close>\<close>
| YmdTHM                \<comment> \<open>\<open>if (!ptime_YmdTHM(...)) return false;\<close>\<close>
| Advance nat           \<comment> \<open>\<open>off_inout += n;\<close>\<close>
| Upto char | UptoEnd | ZUpto char | ZUptoEnd | At
| CheckDir char nat     \<comment> \<open>\<open>PTIME_CHECK_X(dst, str, off_inout + n);\<close>\<close>
| CallDir char          \<comment> \<open>\<open>if (!ptime_X(...)) return false;\<close>\<close>
| CheckChar char nat    \<comment> \<open>\<open>PTIME_CHECK_CHAR(c, str[off_inout + n]);\<close>\<close>
| CallChar char         \<comment> \<open>\<open>if (!ptime_char(...)) return false;\<close>\<close>

text \<open>
  The macro \<open>PTIME_CHECK_b\<close> falls back on \<open>ptime_b_slow\<close>, and moves \<open>off_inout\<close> by what a longer
  name adds to the three bytes the compiler counted.
\<close>

definition PTIME_CHECK_b :: "strptime \<Rightarrow> nat \<Rightarrow> ptime_func" where
  "PTIME_CHECK_b sp p dst str off =
    (let q = off + p;
         (fast, dst) = (if str_at str (q + 3) = CHR ''.'' \<or> isalpha (str_at str (q + 3))
                        then (False, dst) else ptime_b_int dst str q)
     in if fast then (True, dst, off)
        else case ptime_b_slow sp dst str q of
               (False, dst', _) \<Rightarrow> (False, dst', q)
             | (True, dst', tmp_off) \<Rightarrow>
                 (True, dst', nat (int off + (int tmp_off - int (q + 3)))))"

definition check_case :: "char \<Rightarrow> (exttm \<Rightarrow> char list \<Rightarrow> nat \<Rightarrow> bool \<times> exttm) option" where
  "check_case d = map_of
    [(CHR ''d'', PTIME_CHECK_d), (CHR ''H'', PTIME_CHECK_H), (CHR ''M'', PTIME_CHECK_M),
     (CHR ''S'', PTIME_CHECK_S), (CHR ''Y'', PTIME_CHECK_Y)] d"

text \<open>
  A directive without a function gives a C++ file that does not compile; its call fails here.
\<close>

fun exec_stmt :: "strptime \<Rightarrow> stmt \<Rightarrow> ptime_func" where
  "exec_stmt sp ClearFlags dst str off = (True, dst\<lparr>et_flags := {}\<rparr>, off)"
| "exec_stmt sp (MinWidth n) dst str off = (\<not> length str - off < n, dst, off)"
| "exec_stmt sp YmdTHM dst str off = ptime_YmdTHM dst str off"
| "exec_stmt sp (Advance n) dst str off = (True, dst, off + n)"
| "exec_stmt sp (Upto t) dst str off = (case ptime_upto t str off of (ok, off') \<Rightarrow> (ok, dst, off'))"
| "exec_stmt sp UptoEnd dst str off = (case ptime_upto_end str off of (ok, off') \<Rightarrow> (ok, dst, off'))"
| "exec_stmt sp (ZUpto t) dst str off = ptime_Z_upto t dst str off"
| "exec_stmt sp ZUptoEnd dst str off = ptime_Z_upto_end dst str off"
| "exec_stmt sp At dst str off = ptime_at dst str off"
| "exec_stmt sp (CheckDir d p) dst str off =
    (if d = CHR ''b'' then PTIME_CHECK_b sp p dst str off
     else case check_case d of
            Some check \<Rightarrow> (case check dst str (off + p) of (ok, dst') \<Rightarrow> (ok, dst', off))
          | None \<Rightarrow> (False, dst, off))"
| "exec_stmt sp (CallDir d) dst str off =
    (case ptime_case sp d of Some f \<Rightarrow> f dst str off | None \<Rightarrow> (False, dst, off))"
| "exec_stmt sp (CheckChar c p) dst str off = (c = str ! (off + p), dst, off)"
| "exec_stmt sp (CallChar c) dst str off =
    (case ptime_char c str off of (ok, off') \<Rightarrow> (ok, dst, off'))"

text \<open>The body of a generated function: it returns at the first statement that fails.\<close>

fun exec :: "strptime \<Rightarrow> stmt list \<Rightarrow> ptime_func" where
  "exec sp [] dst str off = (True, dst, off)"
| "exec sp (s # ss) dst str off =
    (case exec_stmt sp s dst str off of
       (True, dst', off') \<Rightarrow> exec sp ss dst' str off'
     | (False, dst', off') \<Rightarrow> (False, dst', off'))"

section \<open>The compiler\<close>

definition spec_fixed_width :: "char \<Rightarrow> nat option" where
  "spec_fixed_width c =
    (if c \<in> {CHR ''d'', CHR ''H'', CHR ''M'', CHR ''S''} then Some 2
     else if c = CHR ''b'' then Some 3
     else if c = CHR ''Y'' then Some 4
     else None)"

definition startswith :: "char list \<Rightarrow> char list \<Rightarrow> bool" where
  "startswith fmt pat \<longleftrightarrow> take (length pat) fmt = pat"

definition ymdthm :: "char list" where
  "ymdthm = ''%Y-%m-%dT%H:%M''"

text \<open>The first loop: the bytes that have to be there up to the first directive of variable width.\<close>

fun min_width :: "char list \<Rightarrow> nat" where
  "min_width [] = 0"
| "min_width [c] = (if c = CHR ''%'' then 0 else 1)"
| "min_width (c # d # fmt) =
    (if c = CHR ''%''
     then (case spec_fixed_width d of Some w \<Rightarrow> w + min_width fmt | None \<Rightarrow> 0)
     else 1 + min_width (d # fmt))"

text \<open>
  The second loop, with \<open>checked_pos\<close>. A \<open>%\<close> at the end of the format makes the C++ loop step over
  the terminating NUL; the statements printed up to there are what this definition gives.
\<close>

definition dir_stmt :: "nat option \<Rightarrow> char \<Rightarrow> char list \<Rightarrow> stmt" where
  "dir_stmt checked_pos d rest =
    (if d = CHR ''a'' then (case rest of t # _ \<Rightarrow> Upto t | [] \<Rightarrow> UptoEnd)
     else if d = CHR ''Z'' then (case rest of t # _ \<Rightarrow> ZUpto t | [] \<Rightarrow> ZUptoEnd)
     else if d = CHR ''@'' then At
     else case checked_pos of
            Some p \<Rightarrow> (case spec_fixed_width d of Some _ \<Rightarrow> CheckDir d p | None \<Rightarrow> CallDir d)
          | None \<Rightarrow> CallDir d)"

function gen_body :: "nat \<Rightarrow> nat option \<Rightarrow> char list \<Rightarrow> stmt list" where
  "gen_body mw checked_pos [] = (case checked_pos of Some _ \<Rightarrow> [Advance mw] | None \<Rightarrow> [])"
| "gen_body mw checked_pos (c # cs) =
    (if startswith (c # cs) ymdthm then YmdTHM # gen_body mw None (drop 13 cs)
     else if c = CHR ''%''
     then (case cs of
             [] \<Rightarrow> (case checked_pos of Some p \<Rightarrow> [Advance p] | None \<Rightarrow> []) @ [CallDir (CHR 0x00)]
           | d # rest \<Rightarrow>
               (case checked_pos of
                  None \<Rightarrow> dir_stmt None d rest # gen_body mw None rest
                | Some p \<Rightarrow>
                    (case spec_fixed_width d of
                       Some w \<Rightarrow> dir_stmt (Some p) d rest # gen_body mw (Some (p + w)) rest
                     | None \<Rightarrow> Advance p # dir_stmt (Some p) d rest # gen_body mw None rest)))
     else (case checked_pos of
             Some p \<Rightarrow> CheckChar c p # gen_body mw (Some (p + 1)) cs
           | None \<Rightarrow> CallChar c # gen_body mw None cs))"
  by pat_completeness auto
termination
  by (relation "measure (\<lambda>(mw, cp, fmt). length fmt)") auto

declare gen_body.simps [simp del]

definition ptime_gen :: "char list \<Rightarrow> stmt list" where
  "ptime_gen fmt =
    (let mw = min_width fmt
     in ClearFlags # (if mw > 0 then [MinWidth mw] else []) @ gen_body mw (Some 0) fmt)"

definition compiled_ptime :: "strptime \<Rightarrow> char list \<Rightarrow> ptime_func" where
  "compiled_ptime sp fmt = exec sp (ptime_gen fmt)"

text \<open>The printer: one call per character or directive.\<close>

datatype fstmt = FChar char | FAt | FDir char

fun ftime_gen :: "char list \<Rightarrow> fstmt list" where
  "ftime_gen [] = []"
| "ftime_gen [c] = (if c = CHR ''%'' then [FDir (CHR 0x00)] else [FChar c])"
| "ftime_gen (c # d # fmt) =
    (if c = CHR ''%'' then (if d = CHR ''@'' then FAt else FDir d) # ftime_gen fmt
     else FChar c # ftime_gen (d # fmt))"

definition ftime_func_of :: "char \<Rightarrow> ftime_func option" where
  "ftime_func_of d = (if d = CHR ''Z'' then Some ftime_Z else ftime_case d)"

fun exec_fstmt :: "nat \<Rightarrow> exttm \<Rightarrow> fstmt \<Rightarrow> char list \<Rightarrow> char list" where
  "exec_fstmt len e (FChar c) out = ftime_char len c out"
| "exec_fstmt len e FAt out = ftime_at len e out"
| "exec_fstmt len e (FDir d) out = (case ftime_func_of d of Some f \<Rightarrow> f len e out | None \<Rightarrow> out)"

definition compiled_ftime :: "char list \<Rightarrow> ftime_func" where
  "compiled_ftime fmt len e out = fold (exec_fstmt len e) (ftime_gen fmt) out"

section \<open>Compiled and interpreted formats agree\<close>

text \<open>
  The formats of the equivalence: every directive has a parser, none is \<open>%Z\<close> (which only the compiled
  format converts). The fused prefix may come first.
\<close>

fun plain_fmt :: "char list \<Rightarrow> bool" where
  "plain_fmt [] \<longleftrightarrow> True"
| "plain_fmt [c] \<longleftrightarrow> c \<noteq> CHR ''%''"
| "plain_fmt (c # d # fmt) \<longleftrightarrow>
    \<not> startswith (c # d # fmt) ymdthm
    \<and> (if c = CHR ''%''
       then (d = CHR ''a'' \<or> ptime_case (\<lambda>_ _. None) d \<noteq> None) \<and> plain_fmt fmt
       else plain_fmt (d # fmt))"

definition agreeing_fmt :: "char list \<Rightarrow> bool" where
  "agreeing_fmt fmt \<longleftrightarrow> plain_fmt (if startswith fmt ymdthm then drop (length ymdthm) fmt else fmt)"

text \<open>
  Up to the first directive of variable width the compiled format has counted three bytes for a month:
  there the text has an English abbreviation that ends with these, or no name that \<open>strptime\<close> knows.
\<close>

definition english_month :: "char list \<Rightarrow> nat \<Rightarrow> bool" where
  "english_month str q \<longleftrightarrow>
     map_of month_abbr [clear20 (str ! q), clear20 (str ! (q + 1)), clear20 (str ! (q + 2))] \<noteq> None"

definition month_fits :: "strptime \<Rightarrow> char list \<Rightarrow> nat \<Rightarrow> bool" where
  "month_fits sp str q \<longleftrightarrow>
     q + 3 < length str \<and> str ! (q + 3) \<noteq> CHR ''.'' \<and> \<not> isalpha (str ! (q + 3)) \<and> english_month str q
     \<or> (\<forall>dst. \<not> fst (ptime_b_slow sp dst str q)) \<and> (q + 3 \<noteq> length str \<or> \<not> english_month str q)"

fun months_fit :: "strptime \<Rightarrow> char list \<Rightarrow> char list \<Rightarrow> nat \<Rightarrow> bool" where
  "months_fit sp [] str q \<longleftrightarrow> True"
| "months_fit sp [c] str q \<longleftrightarrow> True"
| "months_fit sp (c # d # fmt) str q \<longleftrightarrow>
    (if c = CHR ''%''
     then (d = CHR ''b'' \<longrightarrow> month_fits sp str q)
       \<and> (case spec_fixed_width d of Some w \<Rightarrow> months_fit sp fmt str (q + w) | None \<Rightarrow> True)
     else months_fit sp (d # fmt) str (q + 1))"

text \<open>The twelve digits of \<open>YYYY-mm-ddTHH:MM\<close>.\<close>

definition ymdthm_digits :: "char list \<Rightarrow> nat \<Rightarrow> bool" where
  "ymdthm_digits str off \<longleftrightarrow>
     list_all (\<lambda>k. isdigit (str ! (off + k))) [0, 1, 2, 3, 5, 6, 8, 9, 11, 12, 14, 15]"

text \<open>
  The fused parser takes any bytes for digits and a day 0, and it does not reset the day of the year
  (the scanner does that before); the directives take a month or hour of one digit.
\<close>

definition text_fits :: "strptime \<Rightarrow> char list \<Rightarrow> exttm \<Rightarrow> char list \<Rightarrow> nat \<Rightarrow> bool" where
  "text_fits sp fmt dst str off \<longleftrightarrow>
    (if startswith fmt ymdthm
     then off + 16 \<le> length str \<and> ymdthm_digits str off \<and> two str (off + 8) \<noteq> 0 \<and> tm_yday (et_tm dst) = - 1
     else months_fit sp fmt str off)"

lemma ptime_case_defined: "ptime_case sp d \<noteq> None \<longleftrightarrow> ptime_case sp' d \<noteq> None"
  by (simp add: ptime_case_def)

lemma ptime_case_not:
  "ptime_case sp (CHR ''B'') = None" "ptime_case sp (CHR ''a'') = None" "ptime_case sp (CHR ''Z'') = None"
  by (simp_all add: ptime_case_def)

lemma ptime_case_at: "ptime_case sp (CHR ''@'') = Some ptime_at"
  by (simp add: ptime_case_def)

text \<open>The directives of the equivalence, for a step of either machine.\<close>

lemma plain_dirE:
  assumes "plain_fmt (CHR ''%'' # d # fmt)"
  obtains (a) "d = CHR ''a''" "plain_fmt fmt" "\<not> startswith (CHR ''%'' # d # fmt) ymdthm"
  | (dir) f where "ptime_case sp d = Some f" "d \<noteq> CHR ''a''" "d \<noteq> CHR ''B''"
      "d \<noteq> CHR ''Z''" "plain_fmt fmt" "\<not> startswith (CHR ''%'' # d # fmt) ymdthm"
proof (cases "d = CHR ''a''")
  case True
  with assms a show thesis by simp
next
  case False
  with assms have "ptime_case (\<lambda>_ _. None) d \<noteq> None" and d: "plain_fmt fmt"
      "\<not> startswith (CHR ''%'' # d # fmt) ymdthm"
    by simp_all
  then obtain f where f: "ptime_case sp d = Some f"
    using ptime_case_defined [of sp d "\<lambda>_ _. None"] by auto
  then have "d \<noteq> CHR ''B''" "d \<noteq> CHR ''Z''" using ptime_case_not [of sp] by auto
  with dir f False d show thesis by blast
qed

lemma startswith_Cons:
  "startswith (c # cs) ymdthm \<Longrightarrow> c = CHR ''%''"
  by (simp add: startswith_def ymdthm_def)

lemma gen_body_char [simp]:
  "c \<noteq> CHR ''%'' \<Longrightarrow> gen_body mw cp (c # cs) =
     (case cp of Some p \<Rightarrow> CheckChar c p # gen_body mw (Some (p + 1)) cs
      | None \<Rightarrow> CallChar c # gen_body mw None cs)"
  using startswith_Cons [of c cs] by (auto simp: gen_body.simps)

lemma gen_body_dir [simp]:
  "\<not> startswith (CHR ''%'' # d # rest) ymdthm \<Longrightarrow> gen_body mw cp (CHR ''%'' # d # rest) =
     (case cp of
        None \<Rightarrow> dir_stmt None d rest # gen_body mw None rest
      | Some p \<Rightarrow>
          (case spec_fixed_width d of
             Some w \<Rightarrow> dir_stmt (Some p) d rest # gen_body mw (Some (p + w)) rest
           | None \<Rightarrow> Advance p # dir_stmt (Some p) d rest # gen_body mw None rest))"
  by (simp add: gen_body.simps)

lemma gen_body_Nil [simp]:
  "gen_body mw cp [] = (case cp of Some _ \<Rightarrow> [Advance mw] | None \<Rightarrow> [])"
  by (simp add: gen_body.simps)

lemma ptime_fmt_char:
  "c \<noteq> CHR ''%'' \<Longrightarrow> ptime_fmt sp sp' (c # fmt) dst str off =
     (case ptime_char c str off of
        (True, off') \<Rightarrow> ptime_fmt sp sp' fmt dst str off' | (False, off') \<Rightarrow> (False, dst, off'))"
  by (cases fmt) (auto split: prod.splits bool.splits)

lemma plain_fmt_char: "c \<noteq> CHR ''%'' \<Longrightarrow> plain_fmt (c # fmt) \<Longrightarrow> plain_fmt fmt"
  by (cases fmt) auto

lemma min_width_char: "c \<noteq> CHR ''%'' \<Longrightarrow> min_width (c # fmt) = 1 + min_width fmt"
  by (cases fmt) auto

text \<open>Unchecked code does exactly what the interpreter does.\<close>

lemma exec_unchecked:
  "plain_fmt fmt \<Longrightarrow>
   exec sp (gen_body mw None fmt) dst str off = ptime_fmt sp sp' fmt dst str off"
proof (induction fmt arbitrary: dst off rule: plain_fmt.induct)
  case 1
  then show ?case by simp
next
  case (2 c)
  then show ?case by (auto split: prod.splits bool.splits)
next
  case (3 c d fmt)
  show ?case
  proof (cases "c = CHR ''%''")
    case False
    with 3 have "exec sp (gen_body mw None (d # fmt)) dst str off' = ptime_fmt sp sp' (d # fmt) dst str off'"
      for off' by simp
    with False show ?thesis
      by (simp add: ptime_fmt_char [of c] del: ptime_fmt.simps split: prod.splits bool.splits)
  next
    case True
    from 3(3) have pl: "plain_fmt (CHR ''%'' # d # fmt)" using True by simp
    have IH: "plain_fmt fmt \<Longrightarrow>
        exec sp (gen_body mw None fmt) dst str off' = ptime_fmt sp sp' fmt dst str off'" for dst off'
      using 3(1) True by blast
    from pl show ?thesis
    proof (cases rule: plain_dirE [where sp = sp])
      case a
      then show ?thesis using True IH
        by (auto simp: dir_stmt_def split: list.splits prod.splits bool.splits)
    next
      case (dir f)
      then show ?thesis using True IH ptime_case_at [of sp]
        by (auto simp: dir_stmt_def split: prod.splits bool.splits)
    qed
  qed
qed

text \<open>
  Checked code reads at a fixed distance from the start, which is where the interpreter has got to,
  as long as the bytes are there.
\<close>

definition same_success :: "ptime_res \<Rightarrow> ptime_res \<Rightarrow> bool" where
  "same_success r q \<longleftrightarrow> fst r = fst q \<and> (fst q \<longrightarrow> r = q)"

lemma spec_fixed_dir:
  assumes "spec_fixed_width d = Some w" and "d \<noteq> CHR ''b''"
  obtains check where "check_case d = Some check" and "ptime_case sp d = Some (ptime_checked w check)"
    and "d \<noteq> CHR ''a''" and "d \<noteq> CHR ''Z''" and "d \<noteq> CHR ''@''" and "d \<noteq> CHR ''B''"
  using assms
  by (auto simp: spec_fixed_width_def check_case_def ptime_case_def ptime_d_def ptime_H_def
      ptime_M_def ptime_S_def ptime_Y_def split: if_splits)


text \<open>At the month of the checked part both take the abbreviation or both fail.\<close>

lemma ptime_b_int_english: "fst (ptime_b_int dst str q) \<longleftrightarrow> english_month str q"
  by (simp add: ptime_b_int_def english_month_def split: option.split)

lemma ptime_b_int_fails: "\<not> fst (ptime_b_int dst str q) \<Longrightarrow> ptime_b_int dst str q = (False, dst)"
  by (auto simp: ptime_b_int_def split: option.splits)

lemma month_checked:
  assumes "month_fits sp str (off + p)" and "off + p + 3 \<le> length str"
  shows "(\<exists>dst'. PTIME_CHECK_b sp p dst str off = (True, dst', off) \<and> ptime_b sp dst str (off + p) = (True, dst', off + p + 3))
    \<or> \<not> fst (PTIME_CHECK_b sp p dst str off) \<and> \<not> fst (ptime_b sp dst str (off + p))"
proof (cases "off + p + 3 < length str \<and> str ! (off + p + 3) \<noteq> CHR ''.'' \<and> \<not> isalpha (str ! (off + p + 3))
    \<and> english_month str (off + p)")
  case True
  then obtain dst' where "ptime_b_int dst str (off + p) = (True, dst')"
    using ptime_b_int_english [of dst str "off + p"] by (cases "ptime_b_int dst str (off + p)") auto
  with True show ?thesis by (simp add: PTIME_CHECK_b_def ptime_b_def str_at_def)
next
  case False
  with assms(1) have slow: "\<forall>dst. \<not> fst (ptime_b_slow sp dst str (off + p))"
    and e: "off + p + 3 \<noteq> length str \<or> \<not> english_month str (off + p)" by (auto simp: month_fits_def)
  have s: "\<exists>d o'. ptime_b_slow sp dst str (off + p) = (False, d, o')"
    using spec [OF slow, of dst] by (cases "ptime_b_slow sp dst str (off + p)") auto
  have i: "ptime_b_int dst str (off + p) = (False, dst)" if "\<not> english_month str (off + p)"
    using that ptime_b_int_fails ptime_b_int_english by blast
  show ?thesis
  proof (cases "english_month str (off + p)")
    case True
    with e assms(2) False have "off + p + 3 < length str"
      "str ! (off + p + 3) = CHR ''.'' \<or> isalpha (str ! (off + p + 3))" by auto
    with s show ?thesis by (auto simp: PTIME_CHECK_b_def ptime_b_def str_at_def)
  next
    case False
    with s i show ?thesis by (auto simp: PTIME_CHECK_b_def ptime_b_def Let_def)
  qed
qed

lemma month_width:
  assumes "month_fits sp str q" and "ptime_b sp dst str q = (True, dst', q')"
  shows "q + 3 < length str \<and> q' = q + 3"
proof (cases "q + 3 < length str \<and> str ! (q + 3) \<noteq> CHR ''.'' \<and> \<not> isalpha (str ! (q + 3)) \<and> english_month str q")
  case True
  then show ?thesis using assms(2) ptime_b_int_english [of dst str q]
    by (auto simp: ptime_b_def split: prod.splits bool.splits)
next
  case False
  with assms(1) have "\<not> fst (ptime_b_slow sp dst str q)" for dst by (auto simp: month_fits_def)
  moreover from this have "\<not> fst (ptime_b sp dst str q)"
    using False ptime_b_int_english [of dst str q]
    by (auto simp: ptime_b_def split: prod.splits bool.splits)
  ultimately show ?thesis using assms(2) by simp
qed

lemma ptime_case_b: "ptime_case sp (CHR ''b'') = Some (ptime_b sp)"
  by (simp add: ptime_case_def)

lemma months_fit_char: "c \<noteq> CHR ''%'' \<Longrightarrow> months_fit sp (c # fmt) str q \<Longrightarrow> months_fit sp fmt str (Suc q)"
  by (cases fmt) auto

lemma exec_checked:
  "plain_fmt fmt \<Longrightarrow> months_fit sp fmt str (off + p) \<Longrightarrow> off + p + min_width fmt \<le> length str \<Longrightarrow>
   mw = p + min_width fmt \<Longrightarrow>
   same_success (exec sp (gen_body mw (Some p) fmt) dst str off)
     (ptime_fmt sp sp' fmt dst str (off + p))"
proof (induction fmt arbitrary: dst p rule: plain_fmt.induct)
  case 1
  then show ?case by (simp add: same_success_def)
next
  case (2 c)
  then show ?case by (auto simp: same_success_def ptime_char_def)
next
  case (3 c d fmt)
  show ?case
  proof (cases "c = CHR ''%''")
    case False
    with 3(3-6) have pre: "plain_fmt (d # fmt)" "months_fit sp (d # fmt) str (off + Suc p)"
        "off + Suc p + min_width (d # fmt) \<le> length str" "mw = Suc p + min_width (d # fmt)"
      using months_fit_char [OF False 3(4)] by (simp_all add: min_width_char)
    note IH = 3(2) [OF False pre, of dst]
    have "off + p < length str" using 3(5) False by (simp add: min_width_char)
    with False IH show ?thesis
      by (auto simp: ptime_fmt_char [of c] ptime_char_def same_success_def simp del: ptime_fmt.simps)
  next
    case True
    from 3(3) have pl: "plain_fmt (CHR ''%'' # d # fmt)" using True by simp
    note IH = 3(1) [OF True]
    from pl show ?thesis
    proof (cases rule: plain_dirE [where sp = sp])
      case a
      then show ?thesis using True
        by (auto simp: dir_stmt_def spec_fixed_width_def exec_unchecked [of fmt sp _ _ _ _ sp']
            same_success_def split: list.splits prod.splits bool.splits)
    next
      case (dir f)
      show ?thesis
      proof (cases "spec_fixed_width d")
        case None
        with dir show ?thesis using True ptime_case_at [of sp]
          by (auto simp: dir_stmt_def exec_unchecked [of fmt sp _ _ _ _ sp'] same_success_def
              split: prod.splits bool.splits)
      next
        case (Some w)
        from 3(4-6) True Some have len: "off + p + w + min_width fmt \<le> length str"
          and mw: "mw = p + w + min_width fmt" and m: "months_fit sp fmt str (off + (p + w))"
          and b: "d = CHR ''b'' \<longrightarrow> month_fits sp str (off + p)" by (simp_all add: add.assoc)
        have ih: "same_success (exec sp (gen_body mw (Some (p + w)) fmt) dst' str off)
            (ptime_fmt sp sp' fmt dst' str (off + p + w))" for dst'
          using IH [OF dir(5) m, of dst'] len mw by (simp add: add.assoc)
        show ?thesis
        proof (cases "d = CHR ''b''")
          case True
          with Some have w: "w = 3" by (simp add: spec_fixed_width_def)
          from month_checked [of sp str off p dst] b len True w
          consider (ok) dst' where "PTIME_CHECK_b sp p dst str off = (True, dst', off)"
              "ptime_b sp dst str (off + p) = (True, dst', off + p + 3)"
            | (fail) "\<not> fst (PTIME_CHECK_b sp p dst str off)" "\<not> fst (ptime_b sp dst str (off + p))" by auto
          then show ?thesis
          proof cases
            case ok
            with True Some w \<open>c = CHR ''%''\<close> dir(6) ih [of dst'] show ?thesis
              by (simp add: dir_stmt_def ptime_case_b)
          next
            case fail
            with True Some \<open>c = CHR ''%''\<close> dir(6) show ?thesis
              by (auto simp: dir_stmt_def ptime_case_b same_success_def split: prod.splits bool.splits)
          qed
        next
          case False
          obtain check where c: "check_case d = Some check"
              "ptime_case sp d = Some (ptime_checked w check)" "d \<noteq> CHR ''@''"
            by (rule spec_fixed_dir [OF Some False, where sp = sp]) blast
          obtain ok dst' where k: "check dst str (off + p) = (ok, dst')" by (metis surj_pair)
          have "exec sp (gen_body mw (Some p) (c # d # fmt)) dst str off
              = (if ok then exec sp (gen_body mw (Some (p + w)) fmt) dst' str off else (False, dst', off))"
            using c dir True Some False k by (simp add: dir_stmt_def)
          moreover have "ptime_fmt sp sp' (c # d # fmt) dst str (off + p)
              = (if ok then ptime_fmt sp sp' fmt dst' str (off + p + w) else (False, dst', off + p))"
            using c dir True k len by (simp add: ptime_checked_def)
          ultimately show ?thesis using ih [of dst'] by (simp add: same_success_def)
        qed
      qed
    qed
  qed
qed

lemma min_width_needed:
  "plain_fmt fmt \<Longrightarrow> months_fit sp fmt str off \<Longrightarrow> off \<le> length str \<Longrightarrow> fst (ptime_fmt sp sp' fmt dst str off) \<Longrightarrow>
   off + min_width fmt \<le> length str"
proof (induction fmt arbitrary: dst off rule: plain_fmt.induct)
  case 1
  then show ?case by simp
next
  case (2 c)
  then show ?case by (auto simp: ptime_char_def split: if_splits)
next
  case (3 c d fmt)
  show ?case
  proof (cases "c = CHR ''%''")
    case False
    with 3(3,5,6) 3(2) [OF False _ months_fit_char [OF False 3(4)], of dst] show ?thesis
      by (auto simp: ptime_fmt_char [of c] min_width_char ptime_char_def simp del: ptime_fmt.simps
          split: if_splits)
  next
    case True
    from 3(3) have pl: "plain_fmt (CHR ''%'' # d # fmt)" using True by simp
    note IH = 3(1) [OF True]
    show ?thesis
    proof (cases "spec_fixed_width d")
      case None
      with True 3(5) show ?thesis by simp
    next
      case (Some w)
      from pl show ?thesis
      proof (cases rule: plain_dirE [where sp = sp])
        case a
        with Some show ?thesis by (simp add: spec_fixed_width_def)
      next
        case (dir f)
        from 3(4) True Some have m: "months_fit sp fmt str (off + w)"
          and b: "d = CHR ''b'' \<longrightarrow> month_fits sp str off" by simp_all
        show ?thesis
        proof (cases "d = CHR ''b''")
          case True
          with Some have w: "w = 3" by (simp add: spec_fixed_width_def)
          from 3(6) True \<open>c = CHR ''%''\<close> obtain dst' q' where q:
            "ptime_b sp dst str off = (True, dst', q')" "fst (ptime_fmt sp sp' fmt dst' str q')"
            by (auto simp: ptime_case_b split: prod.splits bool.splits)
          with month_width [OF _ q(1)] b True IH [OF dir(5) m, of dst'] w Some \<open>c = CHR ''%''\<close> show ?thesis
            by (auto simp: add.assoc)
        next
          case False
          obtain check where "ptime_case sp d = Some (ptime_checked w check)"
            by (rule spec_fixed_dir [OF Some False, where sp = sp]) blast
          with 3(6) True dir Some IH [OF dir(5) m] show ?thesis
            by (auto simp: ptime_checked_def add.assoc split: if_splits prod.splits bool.splits)
        qed
      qed
    qed
  qed
qed

lemma plain_agrees:
  assumes "plain_fmt fmt" and "off \<le> length str" and "months_fit sp fmt str off"
  shows "same_success (compiled_ptime sp fmt dst str off) (ptime_fmt sp sp' fmt (dst\<lparr>et_flags := {}\<rparr>) str off)"
proof (cases "off + min_width fmt \<le> length str")
  case True
  then have "\<not> length str - off < min_width fmt" by simp
  moreover have "same_success
      (exec sp (gen_body (min_width fmt) (Some 0) fmt) (dst\<lparr>et_flags := {}\<rparr>) str off)
      (ptime_fmt sp sp' fmt (dst\<lparr>et_flags := {}\<rparr>) str off)"
    using exec_checked [OF assms(1), of sp str off 0 "min_width fmt"] assms(3) True by simp
  ultimately show ?thesis
    by (auto simp: compiled_ptime_def ptime_gen_def Let_def same_success_def)
next
  case False
  then have "\<not> fst (ptime_fmt sp sp' fmt (dst\<lparr>et_flags := {}\<rparr>) str off)"
    using min_width_needed [OF assms(1,3,2)] by blast
  moreover have "length str - off < min_width fmt" using False assms(2) by simp
  ultimately show ?thesis by (simp add: compiled_ptime_def ptime_gen_def Let_def same_success_def)
qed

section \<open>The fused parser against the interpreter\<close>

lemma dig_isdigit: "isdigit c \<Longrightarrow> 0 \<le> dig c \<and> dig c \<le> 9"
  by (simp add: isdigit_def dig_def)

lemma isdigit_not_space: "isdigit c \<Longrightarrow> c \<noteq> CHR '' ''"
  by (auto simp: isdigit_def schar_def)

lemma step_Y:
  "off + 4 \<le> length str \<Longrightarrow> ptime_Y dst str off =
     (let y = two str off * 100 + two str (off + 2) - 1900;
          dst' = upd_tm (\<lambda>t. t\<lparr>tm_year := y\<rparr>) dst
      in if y < 0 \<or> y > 1100 then (False, dst', off)
         else (True, or_flags {ETF_YEAR_SET} dst', off + 4))"
proof -
  have "dig (str ! off) * 1000 + dig (str ! (off + 1)) * 100 + dig (str ! (off + 2)) * 10
      + dig (str ! (off + 3)) * 1 - 1900 = two str off * 100 + two str (off + 2) - 1900"
    by (simp add: two_def eval_nat_numeral)
  note v = this
  assume "off + 4 \<le> length str"
  then show ?thesis
    unfolding ptime_Y_def ptime_checked_def PTIME_CHECK_Y_def Let_def v
    by (auto split: prod.split bool.split)
qed

lemma step_m:
  assumes "off + 2 \<le> length str" and "isdigit (str ! off)" and "isdigit (str ! (off + 1))"
  shows "ptime_m dst str off =
     (if two str off < 1 \<or> two str off > 12 then (False, dst, off)
      else (True, upd_tm (\<lambda>t. t\<lparr>tm_mon := two str off - 1\<rparr>) (or_flags {ETF_MONTH_SET} dst), off + 2))"
  using assms by (auto simp: ptime_m_def more_digit_def two_def Let_def)

lemma step_d:
  assumes "off + 2 \<le> length str" and "isdigit (str ! off)" and "isdigit (str ! (off + 1))"
  shows "ptime_d dst str off =
     (let dst' = upd_tm (\<lambda>t. t\<lparr>tm_yday := -1, tm_mday := two str off\<rparr>) dst
      in if two str off < 1 \<or> two str off > 31 then (False, dst', off)
         else (True, or_flags {ETF_DAY_SET} dst', off + 2))"
  using assms(1) isdigit_not_space [OF assms(2)]
  by (auto simp: ptime_d_def ptime_checked_def PTIME_CHECK_d_def two_def Let_def)

lemma step_H:
  assumes "off + 2 \<le> length str" and "isdigit (str ! off)" and "isdigit (str ! (off + 1))"
  shows "ptime_H dst str off =
     (let dst' = upd_tm (\<lambda>t. t\<lparr>tm_hour := two str off\<rparr>) dst
      in if two str off < 0 \<or> two str off > 23 then (False, dst', off)
         else (True, or_flags {ETF_HOUR_SET} dst', off + 2))"
  using assms(1) isdigit_not_space [OF assms(2)]
  by (auto simp: ptime_H_def ptime_checked_def PTIME_CHECK_H_def two_def Let_def)

lemma step_M:
  "off + 2 \<le> length str \<Longrightarrow> ptime_M dst str off =
     (let dst' = upd_tm (\<lambda>t. t\<lparr>tm_min := two str off\<rparr>) dst
      in if two str off < 0 \<or> two str off > 59 then (False, dst', off)
         else (True, or_flags {ETF_MINUTE_SET} dst', off + 2))"
  by (auto simp: ptime_M_def ptime_checked_def PTIME_CHECK_M_def two_def Let_def)

lemma ptime_fmt_ymdthm:
  "ptime_fmt sp sp' ymdthm dst str off =
    (case ptime_Y dst str off of (False, d1, o1) \<Rightarrow> (False, d1, o1) | (True, d1, o1) \<Rightarrow>
     (case ptime_char (CHR ''-'') str o1 of (False, o2) \<Rightarrow> (False, d1, o2) | (True, o2) \<Rightarrow>
     (case ptime_m d1 str o2 of (False, d3, o3) \<Rightarrow> (False, d3, o3) | (True, d3, o3) \<Rightarrow>
     (case ptime_char (CHR ''-'') str o3 of (False, o4) \<Rightarrow> (False, d3, o4) | (True, o4) \<Rightarrow>
     (case ptime_d d3 str o4 of (False, d5, o5) \<Rightarrow> (False, d5, o5) | (True, d5, o5) \<Rightarrow>
     (case ptime_char (CHR ''T'') str o5 of (False, o6) \<Rightarrow> (False, d5, o6) | (True, o6) \<Rightarrow>
     (case ptime_H d5 str o6 of (False, d7, o7) \<Rightarrow> (False, d7, o7) | (True, d7, o7) \<Rightarrow>
     (case ptime_char (CHR '':'') str o7 of (False, o8) \<Rightarrow> (False, d7, o8) | (True, o8) \<Rightarrow>
      ptime_M d7 str o8))))))))"
  by (simp add: ymdthm_def ptime_case_def split: prod.split bool.split)

text \<open>
  Where the twelve digits are there, the fused parser of \<open>%Y-%m-%dT%H:%M\<close> accepts what the
  five directives accept, plus the day 0, and computes the same time except that it leaves
  \<open>tm_yday\<close> alone.
\<close>

lemma fused_directives:
  assumes "off + 16 \<le> length str" and "ymdthm_digits str off" and "two str (off + 8) \<noteq> 0"
  shows "fst (ptime_fmt sp sp' ymdthm dst str off) = fst (ptime_YmdTHM dst str off)
    \<and> (fst (ptime_YmdTHM dst str off) \<longrightarrow> ptime_fmt sp sp' ymdthm dst str off =
        (let (ok, dst', off') = ptime_YmdTHM dst str off
         in (ok, upd_tm (\<lambda>t. t\<lparr>tm_yday := -1\<rparr>) dst', off')))"
proof -
  have dg: "isdigit (str ! (off + 5))" "isdigit (str ! (off + 6))" "isdigit (str ! (off + 8))"
      "isdigit (str ! (off + 9))" "isdigit (str ! (off + 11))" "isdigit (str ! (off + 12))"
    using assms(2) by (simp_all add: ymdthm_digits_def)
  have day: "two str (off + 8) < 1 \<longleftrightarrow> two str (off + 8) < 0" using assms(3) by linarith
  have c: "ptime_char x str (off + n) = (if x = str ! (off + n) then (True, off + (n + 1)) else (False, off + n))"
    if "n < 16" for x n using assms(1) that by (auto simp: ptime_char_def)
  note c1 = c [of 4, simplified] and c2 = c [of 7, simplified] and c3 = c [of 10, simplified]
    and c4 = c [of 13, simplified]
  note m = step_m [of "off + 5" str, simplified add.assoc, simplified, OF _ dg(1,2)]
    and d = step_d [of "off + 8" str, simplified add.assoc, simplified, OF _ dg(3,4)]
    and H = step_H [of "off + 11" str, simplified add.assoc, simplified, OF _ dg(5,6)]
    and M = step_M [of "off + 14" str, simplified add.assoc, simplified]
    and Y = step_Y [of off str]
  show ?thesis
    using assms(1) day
    by (simp add: ptime_fmt_ymdthm ptime_YmdTHM_def Y m d H M c1 c2 c3 c4
        Let_def upd_tm_def or_flags_def insert_commute)
qed

text \<open>The day 0 is the difference: the fused parser takes it, the directives do not.\<close>

lemma ptime_YmdTHM_day_zero:
  "fst (ptime_YmdTHM dst ''2024-03-00T10:00'' 0)
   \<and> \<not> fst (ptime_fmt sp sp' ymdthm dst ''2024-03-00T10:00'' 0)"
  by (simp add: ptime_fmt_ymdthm ptime_YmdTHM_def step_Y step_m step_d ptime_char_def two_def dig_def
      schar_def isdigit_def Let_def)
section \<open>The equivalence\<close>

text \<open>A format that begins with the fused prefix goes on unchecked.\<close>

lemma startswith_append: "startswith fmt pat \<Longrightarrow> fmt = pat @ drop (length pat) fmt"
  unfolding startswith_def by (metis append_take_drop_id)

lemma ptime_fmt_fused:
  "ptime_fmt sp sp' (ymdthm @ rest) dst str off =
     (case ptime_fmt sp sp' ymdthm dst str off of
        (True, dst', off') \<Rightarrow> ptime_fmt sp sp' rest dst' str off' | (False, dst', off') \<Rightarrow> (False, dst', off'))"
  by (simp add: ymdthm_def ptime_case_def split: prod.split bool.split)

lemma gen_body_fused: "gen_body mw (Some 0) (ymdthm @ rest) = YmdTHM # gen_body mw None rest"
proof -
  have "ymdthm @ rest = CHR ''%'' # tl ymdthm @ rest" "startswith (ymdthm @ rest) ymdthm"
    "drop 13 (tl ymdthm @ rest) = rest" by (simp_all add: ymdthm_def startswith_def)
  then show ?thesis by (metis gen_body.simps(2))
qed

lemma if_result: "(if b then (False, x, m) else (True, y, n)) = (ok, z, k) \<Longrightarrow> ok \<Longrightarrow> z = y"
  by (simp split: if_splits)

lemma fused_yday:
  assumes "ptime_YmdTHM dst str off = (ok, dst', off')" and ok
  shows "tm_yday (et_tm dst') = tm_yday (et_tm dst)"
proof (cases "off + 16 > length str")
  case True
  then show ?thesis using assms by (simp add: ptime_YmdTHM_def)
next
  case False
  show ?thesis
    unfolding if_result [OF assms(1) [unfolded ptime_YmdTHM_def Let_def if_not_P [OF False]] assms(2)]
    by (simp add: upd_tm_def or_flags_def)
qed

lemma fused_agrees:
  assumes "plain_fmt rest" and "text_fits sp (ymdthm @ rest) dst str off"
  shows "same_success (compiled_ptime sp (ymdthm @ rest) dst str off)
    (ptime_fmt sp sp' (ymdthm @ rest) (dst\<lparr>et_flags := {}\<rparr>) str off)"
proof -
  let ?dst = "dst\<lparr>et_flags := {}\<rparr>"
  have t: "off + 16 \<le> length str" "ymdthm_digits str off" "two str (off + 8) \<noteq> 0" "tm_yday (et_tm dst) = - 1"
    using assms(2) by (simp_all add: text_fits_def startswith_def)
  obtain ok dst' off' where y: "ptime_YmdTHM ?dst str off = (ok, dst', off')" by (metis prod_cases3)
  have yd: "tm_yday (et_tm dst') = - 1" if ok
    using fused_yday [OF y that] t(4) by simp
  have "upd_tm (\<lambda>t. t\<lparr>tm_yday := - 1\<rparr>) dst' = dst'" if ok
    using yd [OF that] by (cases dst'; cases "et_tm dst'") (simp add: upd_tm_def)
  then have i: "fst (ptime_fmt sp sp' ymdthm ?dst str off) = ok"
    "ok \<longrightarrow> ptime_fmt sp sp' ymdthm ?dst str off = (True, dst', off')"
    using fused_directives [OF t(1-3), of sp sp' ?dst] y by auto
  have mw: "min_width (ymdthm @ rest) = 5" by (simp add: ymdthm_def spec_fixed_width_def)
  have w: "(\<not> length str - off < 5) = True" using t(1) by simp
  have "compiled_ptime sp (ymdthm @ rest) dst str off
      = (if ok then ptime_fmt sp sp' rest dst' str off' else (False, dst', off'))"
    using y by (simp only: compiled_ptime_def ptime_gen_def mw gen_body_fused Let_def exec.simps exec_stmt.simps w
      prod.case bool.case append.simps zero_less_numeral if_True)
      (simp add: exec_unchecked [OF assms(1), of sp _ _ _ _ sp'])
  moreover have "ptime_fmt sp sp' (ymdthm @ rest) ?dst str off = ptime_fmt sp sp' rest dst' str off'" if ok
    using i that by (simp add: ptime_fmt_fused del: ptime_fmt.simps)
  moreover have "\<not> fst (ptime_fmt sp sp' (ymdthm @ rest) ?dst str off)" if "\<not> ok"
    using i that by (cases "ptime_fmt sp sp' ymdthm ?dst str off") (simp add: ptime_fmt_fused del: ptime_fmt.simps)
  ultimately show ?thesis by (auto simp: same_success_def simp del: ptime_fmt.simps)
qed

text \<open>
  C29: a compiled timestamp format without \<open>%Z\<close> and the run-time interpreter of the same format accept
  the same texts, and leave the same time and offset when they do. Where the format begins with the fused
  prefix, the text has its twelve digits, with a day other than 0, and the day of the year was reset, as
  the scanner does; at a month before the first directive of variable width, the text has an English
  abbreviation or none of the names of the locale.
\<close>

theorem compiled_agrees:
  assumes "agreeing_fmt fmt" and "off \<le> length str" and "text_fits sp fmt dst str off"
  shows "fst (compiled_ptime sp fmt dst str off)
      = fst (ptime_fmt sp sp' fmt (dst\<lparr>et_flags := {}\<rparr>) str off)
    \<and> (fst (compiled_ptime sp fmt dst str off) \<longrightarrow>
       compiled_ptime sp fmt dst str off = ptime_fmt sp sp' fmt (dst\<lparr>et_flags := {}\<rparr>) str off)"
proof -
  have "same_success (compiled_ptime sp fmt dst str off) (ptime_fmt sp sp' fmt (dst\<lparr>et_flags := {}\<rparr>) str off)"
  proof (cases "startswith fmt ymdthm")
    case True
    then obtain rest where "fmt = ymdthm @ rest" "plain_fmt rest"
      using assms(1) startswith_append [OF True] by (auto simp: agreeing_fmt_def)
    then show ?thesis using fused_agrees assms(3) by blast
  next
    case False
    then show ?thesis using plain_agrees assms by (simp add: agreeing_fmt_def text_fits_def)
  qed
  then show ?thesis by (auto simp: same_success_def)
qed

text \<open>A format with the fused prefix, and one with a month.\<close>

theorem compiled_agrees_witness:
  "compiled_ptime (\<lambda>_ _. None) ''%Y-%m-%dT%H:%M:%S.%f'' (upd_tm (\<lambda>t. t\<lparr>tm_yday := - 1\<rparr>) exttm_init) ''2024-02-29T12:34:56.789'' 0 =
   ptime_fmt (\<lambda>_ _. None) (\<lambda>_ _. None) ''%Y-%m-%dT%H:%M:%S.%f'' (upd_tm (\<lambda>t. t\<lparr>tm_yday := - 1\<rparr>) exttm_init) ''2024-02-29T12:34:56.789'' 0
   \<and> compiled_ptime (\<lambda>_ _. None) ''%b %d %H:%M:%S'' exttm_init ''Jun 13 12:34:56 host'' 0 =
   ptime_fmt (\<lambda>_ _. None) (\<lambda>_ _. None) ''%b %d %H:%M:%S'' exttm_init ''Jun 13 12:34:56 host'' 0"
proof -
  let ?sp = "\<lambda>_ _. None" and ?e = "upd_tm (\<lambda>t. t\<lparr>tm_yday := - 1\<rparr>) exttm_init"
  let ?f1 = "''%Y-%m-%dT%H:%M:%S.%f''" and ?s1 = "''2024-02-29T12:34:56.789''"
    and ?f2 = "''%b %d %H:%M:%S''" and ?s2 = "''Jun 13 12:34:56 host''"
  have clear: "?e\<lparr>et_flags := {}\<rparr> = ?e" "exttm_init\<lparr>et_flags := {}\<rparr> = exttm_init"
    by (simp_all add: exttm_init_def upd_tm_def)
  have "agreeing_fmt ?f1" "agreeing_fmt ?f2" by code_simp+
  moreover have "startswith ?f1 ymdthm" "\<not> startswith ?f2 ymdthm" "ymdthm_digits ?s1 0" "two ?s1 (0 + 8) \<noteq> 0" by code_simp+
  then have "text_fits ?sp ?f1 ?e ?s1 0" by (simp add: text_fits_def upd_tm_def)
  moreover have "english_month ?s2 0" by code_simp
  then have "months_fit ?sp ?f2 ?s2 0"
    by (simp add: month_fits_def spec_fixed_width_def isalpha_def isupper_c_def islower_c_def schar_def)
  with \<open>\<not> startswith ?f2 ymdthm\<close> have "text_fits ?sp ?f2 exttm_init ?s2 0" by (simp add: text_fits_def)
  moreover have "fst (compiled_ptime ?sp ?f1 ?e ?s1 0)" "fst (compiled_ptime ?sp ?f2 exttm_init ?s2 0)" by code_simp+
  ultimately show ?thesis
    using compiled_agrees [of ?f1 0 ?s1 ?sp ?e ?sp] compiled_agrees [of ?f2 0 ?s2 ?sp exttm_init ?sp] clear
    by (simp del: ptime_fmt.simps)
qed


text \<open>The same for printing: the formats without \<open>%%\<close>, \<open>%Z\<close>, \<open>%B\<close> and \<open>%@\<close>.\<close>

fun printable_fmt :: "char list \<Rightarrow> bool" where
  "printable_fmt [] \<longleftrightarrow> True"
| "printable_fmt [c] \<longleftrightarrow> c \<noteq> CHR ''%''"
| "printable_fmt (c # d # fmt) \<longleftrightarrow>
    (if c = CHR ''%'' then ftime_case d \<noteq> None \<and> printable_fmt fmt else printable_fmt (d # fmt))"

text \<open>A compiled format prints a time exactly as the interpreter of the format does.\<close>

theorem compiled_ftime_agrees:
  "printable_fmt fmt \<Longrightarrow> compiled_ftime fmt len e out = ftime_fmt len fmt e out"
proof (induction fmt arbitrary: out rule: printable_fmt.induct)
  case (3 c d fmt)
  have "d \<noteq> CHR ''%'' \<and> d \<noteq> CHR ''@'' \<and> d \<noteq> CHR ''Z''" if "c = CHR ''%''"
    using 3(3) that by (auto simp: ftime_case_def)
  with 3 show ?case
    by (auto simp: compiled_ftime_def ftime_func_of_def split: option.splits if_splits)
qed (simp_all add: compiled_ftime_def)

theorem compiled_ftime_agrees_witness:
  "compiled_ftime ''%d %b %Y'' 32 (exttm_init\<lparr>et_tm := zero_tm\<lparr>tm_mday := 9, tm_year := 124\<rparr>\<rparr>) []
   = ftime_fmt 32 ''%d %b %Y'' (exttm_init\<lparr>et_tm := zero_tm\<lparr>tm_mday := 9, tm_year := 124\<rparr>\<rparr>) []"
  by (rule compiled_ftime_agrees) code_simp

end
