(* ===== verification/Date_Time_Scanner.thy ===== *)
theory Date_Time_Scanner
  imports Ptimec_Compile
begin

text \<open>
  \<open>src/base/date_time_scanner.cc\<close>: discovery of the format of a timestamp, the lock on it, the
  local-time cache, and the scan of one timestamp.

  Parameters (\<open>scan_env\<close>): \<open>localtime_r\<close>, the \<open>int64_t\<close> scanner of the scn library (the value and
  the number of bytes it leaves), \<open>strptime\<close> for month names and the configuration. A time zone of
  the date library is the pair of its \<open>make_zoned\<close> conversions from local to system time: \<open>None\<close>
  is the exception for a local time the zone skips or has twice.
\<close>

section \<open>State\<close>

type_synonym timeval = "int \<times> int"

record zone =
  zn_earliest :: "int \<Rightarrow> int option"
  zn_unique :: "int \<Rightarrow> int option"

record dts =
  dts_keep_base_tz :: bool
  dts_local_time :: bool
  dts_zoned_to_local :: bool
  dts_base_time :: int
  dts_base_tm :: exttm
  dts_fmt_lock :: int
  dts_fmt_len :: int
  dts_last_tm :: tm
  dts_last_tv :: timeval
  dts_local_offset_cache :: int
  dts_local_offset_valid :: int
  dts_local_offset_expiry :: int
  dts_localtime_cached_gmt :: int
  dts_localtime_cached_tm :: tm
  dts_default_zone :: "zone option"

record scan_env =
  env_localtime :: "int \<Rightarrow> tm"
  env_scan_int64 :: "char list \<Rightarrow> (int \<times> nat) option"
  env_strptime_b :: strptime
  env_strptime_B :: strptime
  env_zoned_to_local :: bool
  env_formats :: "char list list"

definition clear :: "dts \<Rightarrow> dts" where
  "clear d = d\<lparr>dts_base_time := 0, dts_base_tm := exttm_init, dts_fmt_lock := -1, dts_fmt_len := -1,
     dts_last_tv := (0, 0), dts_last_tm := zero_tm, dts_localtime_cached_gmt := 0,
     dts_localtime_cached_tm := zero_tm\<rparr>"

definition dts_init :: dts where
  "dts_init = clear
     \<lparr>dts_keep_base_tz = False, dts_local_time = False, dts_zoned_to_local = True,
      dts_base_time = 0, dts_base_tm = exttm_init, dts_fmt_lock = -1, dts_fmt_len = -1,
      dts_last_tm = zero_tm, dts_last_tv = (0, 0), dts_local_offset_cache = 0,
      dts_local_offset_valid = 0, dts_local_offset_expiry = 0, dts_localtime_cached_gmt = 0,
      dts_localtime_cached_tm = zero_tm, dts_default_zone = None\<rparr>"

definition unlock :: "dts \<Rightarrow> (int \<times> int) \<times> dts" where
  "unlock d = ((dts_fmt_lock d, dts_fmt_len d), d\<lparr>dts_fmt_lock := -1, dts_fmt_len := -1\<rparr>)"

definition relock :: "int \<times> int \<Rightarrow> dts \<Rightarrow> dts" where
  "relock ls d = d\<lparr>dts_fmt_lock := fst ls, dts_fmt_len := snd ls\<rparr>"

definition set_base_time :: "int \<Rightarrow> tm \<Rightarrow> dts \<Rightarrow> dts" where
  "set_base_time base_time local_tm d =
     d\<lparr>dts_base_time := base_time, dts_base_tm := (dts_base_tm d)\<lparr>et_tm := local_tm\<rparr>,
       dts_last_tm := zero_tm, dts_last_tv := (0, 0)\<rparr>"

section \<open>The next format to try\<close>

text \<open>\<open>n\<close> is the number of formats; the array ends with a null pointer.\<close>

definition next_format :: "nat \<Rightarrow> int \<Rightarrow> int \<Rightarrow> bool \<times> int" where
  "next_format n index locked_index =
    (if locked_index = -1 then (\<not> int n \<le> index + 1, index + 1)
     else if index = locked_index then (False, index)
     else (True, locked_index))"

section \<open>Local time\<close>

definition EXPIRE_TIME :: int where
  "EXPIRE_TIME = 15 * 60"

definition no_zone :: "tm \<Rightarrow> tm" where
  "no_zone t = t\<lparr>tm_gmtoff := 0, tm_zone := None\<rparr>"

definition to_localtime :: "(int \<Rightarrow> tm) \<Rightarrow> int \<Rightarrow> dts \<Rightarrow> exttm \<Rightarrow> dts \<times> exttm" where
  "to_localtime localtime t d tm_out =
    (if t < 24 * 60 * 60 then (d, tm_out)
     else
       let (d, tm_out) =
         (if t < dts_local_offset_valid d \<or> t \<ge> dts_local_offset_expiry d
          then
            let tm_out = tm_out\<lparr>et_tm := (no_zone (localtime t))\<lparr>tm_isdst := 0\<rparr>\<rparr>;
                new_gmt = tm2sec (et_tm tm_out);
                expiry = t + (EXPIRE_TIME - 1);
                expiry = expiry - expiry smod EXPIRE_TIME
            in (d\<lparr>dts_local_offset_cache := new_gmt - t, dts_local_offset_valid := t,
                  dts_local_offset_expiry := expiry\<rparr>, tm_out)
          else
            let adjust_gmt = t + dts_local_offset_cache d;
                adjust_gmt_min = adjust_gmt sdiv 60
            in if dts_localtime_cached_gmt d = adjust_gmt_min
               then (d, tm_out\<lparr>et_tm := (dts_localtime_cached_tm d)\<lparr>tm_sec := adjust_gmt smod 60\<rparr>\<rparr>)
               else
                 let tm_out = tm_out\<lparr>et_tm := secs2tm (word_of_int adjust_gmt) (et_tm tm_out)\<rparr>
                 in (d\<lparr>dts_localtime_cached_gmt := adjust_gmt_min,
                       dts_localtime_cached_tm := (et_tm tm_out)\<lparr>tm_sec := 0\<rparr>\<rparr>, tm_out))
       in (d, tm_out\<lparr>et_orig_gmtoff := dts_local_offset_cache d, et_gmtoff := 0,
                     et_tm := no_zone (et_tm tm_out)\<rparr>))"

section \<open>Scanning one timestamp\<close>

text \<open>
  What one turn of the loop does: it fails and leaves \<open>tm_out\<close> behind, it finds the timestamp up
  to an offset, or an exception leaves \<open>scan\<close>.
\<close>

datatype scan_attempt = Miss exttm | Hit nat dts exttm timeval | Threw

definition needs_local :: "dts \<Rightarrow> bool \<Rightarrow> exttm \<Rightarrow> bool" where
  "needs_local d convert_local e \<longleftrightarrow>
     convert_local \<and>
     (dts_local_time d \<or> ETF_EPOCH_TIME \<in> et_flags e
      \<or> (ETF_ZONE_SET \<in> et_flags e \<or> \<not> Option.is_none (dts_default_zone d)) \<and> dts_zoned_to_local d)"

definition uses_default_zone :: "exttm \<Rightarrow> bool" where
  "uses_default_zone e \<longleftrightarrow> ETF_ZONE_SET \<notin> et_flags e \<and> ETF_EPOCH_TIME \<notin> et_flags e"

text \<open>
  The two branches convert with the default zone differently: the built-in formats take the
  earliest of two candidates and log an exception, the configured formats let it escape.
\<close>

definition to_gmt :: "bool \<Rightarrow> dts \<Rightarrow> exttm \<Rightarrow> int option" where
  "to_gmt builtin d e =
    (let gmt = fst (to_timeval e) in
     case dts_default_zone d of
       None \<Rightarrow> Some gmt
     | Some z \<Rightarrow>
         if uses_default_zone e
         then if builtin
              then Some (case zn_earliest z gmt of Some g \<Rightarrow> g | None \<Rightarrow> gmt)
              else zn_unique z gmt
         else Some gmt)"

definition same_minute :: "tm \<Rightarrow> tm \<Rightarrow> bool" where
  "same_minute a b \<longleftrightarrow> tm_year a = tm_year b \<and> tm_mon a = tm_mon b \<and> tm_mday a = tm_mday b
     \<and> tm_hour a = tm_hour b \<and> tm_min a = tm_min b"

text \<open>The time of the fields: a second in the minute of the last timestamp is counted from it.\<close>

definition set_tv :: "dts \<Rightarrow> exttm \<Rightarrow> exttm \<times> timeval" where
  "set_tv d e =
    (let (e, sec) =
       (if same_minute (dts_last_tm d) (et_tm e)
        then (upd_tm (\<lambda>t. t\<lparr>tm_wday := tm_wday (dts_last_tm d)\<rparr>) e,
              fst (dts_last_tv d) + (tm_sec (et_tm e) - tm_sec (dts_last_tm d)))
        else (upd_tm (secs2wday (fst (to_timeval e))) e, fst (to_timeval e)))
     in (e, sec, et_nsec e sdiv 1000))"

text \<open>What follows a successful parse, up to \<open>found = true\<close>.\<close>

definition accept :: "scan_env \<Rightarrow> bool \<Rightarrow> bool \<Rightarrow> nat \<Rightarrow> nat \<Rightarrow> dts \<Rightarrow> exttm \<Rightarrow> scan_attempt" where
  "accept env builtin convert_local idx off d e =
    (let e = (if tm_year (et_tm e) < 70 then upd_tm (\<lambda>t. t\<lparr>tm_year := 80\<rparr>) e else e)
     in case (if needs_local d convert_local e
              then map_option (\<lambda>gmt. to_localtime (env_localtime env) gmt d e) (to_gmt builtin d e)
              else Some (d, e)) of
          None \<Rightarrow> Threw
        | Some (d, e) \<Rightarrow>
            let (e, tv) = set_tv d e
            in Hit off (d\<lparr>dts_fmt_lock := int idx, dts_fmt_len := int off\<rparr>) e tv)"

text \<open>The epoch time of a \<open>+\<close> and a digit.\<close>

definition is_plus_epoch :: "char list \<Rightarrow> bool" where
  "is_plus_epoch str \<longleftrightarrow> length str > 1 \<and> str ! 0 = CHR ''+'' \<and> isdigit (str ! 1)"

definition scan_plus_epoch :: "scan_env \<Rightarrow> bool \<Rightarrow> char list \<Rightarrow> nat \<Rightarrow> dts \<Rightarrow> exttm \<Rightarrow> scan_attempt" where
  "scan_plus_epoch env convert_local str idx d e =
    (case env_scan_int64 env str of
       None \<Rightarrow> Miss e
     | Some (gmt, rest) \<Rightarrow>
         if gmt > 300000000
         then
           let (e, gmt) =
             (if convert_local \<and> (dts_local_time d \<or> dts_zoned_to_local d)
              then let e = e\<lparr>et_tm := (env_localtime env gmt)\<lparr>tm_zone := None, tm_isdst := 0\<rparr>\<rparr>
                   in (e, fst (to_timeval e))
              else (e, gmt));
             e = e\<lparr>et_flags := epoch_flags\<rparr>;
             off = length str - rest
           in Hit off (d\<lparr>dts_fmt_lock := int idx, dts_fmt_len := int off\<rparr>) e (gmt, 0)
         else Miss e)"

text \<open>\<open>*tm_out = dts_base_tm\<close> and the assignments after it.\<close>

definition start_tm :: "dts \<Rightarrow> exttm" where
  "start_tm d = (upd_tm (\<lambda>t. t\<lparr>tm_yday := -1\<rparr>) (dts_base_tm d))\<lparr>et_flags := {}\<rparr>"

definition parse_tm :: "dts \<Rightarrow> exttm" where
  "parse_tm d = (if dts_keep_base_tz d then start_tm d
                 else upd_tm (\<lambda>t. t\<lparr>tm_zone := None\<rparr>) (start_tm d))"

text \<open>\<open>fmts\<close> is \<open>None\<close> for \<open>PTIMEC_FORMAT_STR\<close>, the formats compiled into the program.\<close>

definition attempt :: "scan_env \<Rightarrow> char list list option \<Rightarrow> bool \<Rightarrow> char list \<Rightarrow> dts \<Rightarrow> nat \<Rightarrow> scan_attempt" where
  "attempt env fmts convert_local str d idx =
    (if is_plus_epoch str then scan_plus_epoch env convert_local str idx d (start_tm d)
     else case fmts of
       None \<Rightarrow>
         (case compiled_ptime (env_strptime_b env) (env_formats env ! idx) (parse_tm d) str 0 of
            (True, e, off) \<Rightarrow> accept env True convert_local idx off d e
          | (False, e, off) \<Rightarrow> Miss e)
     | Some fs \<Rightarrow>
         (case ptime_fmt (env_strptime_b env) (env_strptime_B env) (fs ! idx) (parse_tm d) str 0 of
            (True, e, off) \<Rightarrow>
              if str_at str off = CHR ''.'' \<or> str_at str off = CHR '','' \<or> off = length str
              then accept env False convert_local idx off d e
              else Miss e
          | (False, e, off) \<Rightarrow> Miss e))"

definition num_formats :: "scan_env \<Rightarrow> char list list option \<Rightarrow> nat" where
  "num_formats env fmts = (case fmts of None \<Rightarrow> length (env_formats env) | Some fs \<Rightarrow> length fs)"

text \<open>The loop. \<open>Miss\<close> carries the last \<open>tm_out\<close>.\<close>

function scan_loop ::
  "scan_env \<Rightarrow> char list list option \<Rightarrow> bool \<Rightarrow> char list \<Rightarrow> dts \<Rightarrow> int \<Rightarrow> exttm \<Rightarrow> scan_attempt" where
  "scan_loop env fmts convert_local str d index tm_out =
    (case next_format (num_formats env fmts) index (dts_fmt_lock d) of
       (False, _) \<Rightarrow> Miss tm_out
     | (True, index') \<Rightarrow>
         (case attempt env fmts convert_local str d (nat index') of
            Miss e \<Rightarrow> scan_loop env fmts convert_local str d index' e
          | r \<Rightarrow> r))"
  by pat_completeness auto
termination
  by (relation "measure (\<lambda>(env, fmts, cl, str, d, index, e).
        if dts_fmt_lock d = -1 then nat (int (num_formats env fmts) - index)
        else if index = dts_fmt_lock d then 0 else 1)")
    (auto simp: next_format_def split: if_splits)

declare scan_loop.simps [simp del]

definition sub_flags :: "exttm_flag set" where
  "sub_flags = {ETF_MILLIS_SET, ETF_MICROS_SET, ETF_NANOS_SET}"

text \<open>The fraction that the format does not name.\<close>

definition sub_second :: "char list \<Rightarrow> nat \<Rightarrow> dts \<Rightarrow> exttm \<Rightarrow> timeval \<Rightarrow> nat \<times> dts \<times> exttm \<times> timeval" where
  "sub_second str off d e tv =
    (if off < length str \<and> et_flags e \<inter> sub_flags = {}
        \<and> (str ! off = CHR ''.'' \<or> str ! off = CHR '','')
     then case ptime_N e str (off + 1) of
       (True, e, _) \<Rightarrow>
         (off + 10, d\<lparr>dts_fmt_len := dts_fmt_len d + 10\<rparr>,
          or_flags {ETF_NANOS_SET, ETF_SUB_NOT_IN_FORMAT} e, fst tv, et_nsec e sdiv 1000)
     | (False, e, _) \<Rightarrow>
         (case ptime_f e str (off + 1) of
            (True, e, off') \<Rightarrow>
              (off', d\<lparr>dts_fmt_len := int off'\<rparr>, or_flags {ETF_SUB_NOT_IN_FORMAT} e,
               fst tv, et_nsec e sdiv 1000)
          | (False, e, _) \<Rightarrow> (off, d, e, tv))
     else (off, d, e, tv))"

text \<open>The fields a timestamp without a fraction does not name.\<close>

definition fill_fields :: "exttm \<Rightarrow> tm \<Rightarrow> tm" where
  "fill_fields e t =
    (let t = t\<lparr>tm_sec := 0\<rparr> in
     if ETF_MINUTE_SET \<in> et_flags e then t else
     let t = t\<lparr>tm_min := 0\<rparr> in
     if ETF_HOUR_SET \<in> et_flags e then t else
     let t = t\<lparr>tm_hour := 0\<rparr> in
     if ETF_DAY_SET \<in> et_flags e then t else
     let t = t\<lparr>tm_mday := 1\<rparr> in
     if ETF_MONTH_SET \<in> et_flags e then t else t\<lparr>tm_mon := 0\<rparr>)"

definition fill_missing :: "exttm \<Rightarrow> timeval \<Rightarrow> exttm \<times> timeval" where
  "fill_missing e tv =
    (if et_flags e \<inter> sub_flags \<noteq> {} then (e, tv)
     else
       let e = e\<lparr>et_nsec := 0\<rparr>; tv = (fst tv, 0)
       in if ETF_SECOND_SET \<in> et_flags e then (e, tv)
          else let e = upd_tm (fill_fields e) e in (e, tm2sec (et_tm e), 0))"

datatype scan_result = Scan_threw | Not_found dts exttm timeval | Found nat dts exttm timeval

definition scan_finish :: "char list \<Rightarrow> nat \<Rightarrow> dts \<Rightarrow> exttm \<Rightarrow> timeval \<Rightarrow> scan_result" where
  "scan_finish str off d e tv =
    (let d = d\<lparr>dts_last_tm := et_tm e, dts_last_tv := tv\<rparr>;
         (off, d, e, tv) = sub_second str off d e tv;
         (e, tv) = fill_missing e tv
     in Found off d e tv)"

definition scan ::
  "scan_env \<Rightarrow> char list list option \<Rightarrow> bool \<Rightarrow> char list \<Rightarrow> dts \<Rightarrow> exttm \<Rightarrow> timeval \<Rightarrow> scan_result" where
  "scan env fmts convert_local str d tm_out tv_out =
    (let d = d\<lparr>dts_zoned_to_local := env_zoned_to_local env\<rparr>
     in case scan_loop env fmts convert_local str d (-1) tm_out of
          Threw \<Rightarrow> Scan_threw
        | Miss e \<Rightarrow> Not_found d e tv_out
        | Hit off d e tv \<Rightarrow> scan_finish str off d e tv)"

text \<open>\<open>None\<close> is an exception.\<close>

definition convert_to_timeval ::
  "scan_env \<Rightarrow> char list list option \<Rightarrow> char list \<Rightarrow> dts \<Rightarrow> timeval \<Rightarrow> (bool \<times> dts \<times> timeval) option" where
  "convert_to_timeval env fmts str d tv_out =
    (case scan env fmts True str d exttm_init tv_out of
       Scan_threw \<Rightarrow> None
     | Not_found d e tv \<Rightarrow> Some (False, d, tv)
     | Found off d e tv \<Rightarrow> Some (True, d, tv))"

section \<open>Printing\<close>

definition default_fmt_index :: "char list list \<Rightarrow> nat" where
  "default_fmt_index fmts =
     fold (\<lambda>i r. if fmts ! i = ''%Y-%m-%dT%H:%M:%S'' then i else r) [0..<length fmts] 0"

definition ftime_builtin :: "scan_env \<Rightarrow> nat \<Rightarrow> exttm \<Rightarrow> dts \<Rightarrow> char list" where
  "ftime_builtin env len e d =
    (let default_index = default_fmt_index (env_formats env);
         index = (if dts_fmt_lock d \<noteq> -1 \<and> ETF_MACHINE_ORIENTED \<notin> et_flags e
                  then nat (dts_fmt_lock d) else default_index);
         out = compiled_ftime (env_formats env ! index) len e [];
         out = (if ETF_SUB_NOT_IN_FORMAT \<in> et_flags e
                then if ETF_MILLIS_SET \<in> et_flags e then ftime_L len e (out @ [CHR ''.''])
                     else if ETF_MICROS_SET \<in> et_flags e then ftime_f len e (out @ [CHR ''.''])
                     else if ETF_NANOS_SET \<in> et_flags e then ftime_N len e (out @ [CHR ''.''])
                     else out
                else out)
     in if index = default_index \<and> ETF_ZONE_SET \<in> et_flags e then ftime_z len e out else out)"

definition dts_ftime :: "scan_env \<Rightarrow> nat \<Rightarrow> char list list option \<Rightarrow> exttm \<Rightarrow> dts \<Rightarrow> char list" where
  "dts_ftime env len time_fmt e d =
    (case time_fmt of
       Some fs \<Rightarrow>
         if dts_fmt_lock d \<noteq> -1 \<and> ETF_MACHINE_ORIENTED \<notin> et_flags e
         then ftime_fmt len (fs ! nat (dts_fmt_lock d)) e []
         else ftime_builtin env len e d
     | None \<Rightarrow> ftime_builtin env len e d)"


section \<open>Format discovery\<close>

fun missed :: "scan_attempt \<Rightarrow> bool" where
  "missed (Miss e) = True"
| "missed (Hit off d e tv) = False"
| "missed Threw = False"

lemma missedE: "missed a \<Longrightarrow> (\<And>e. a = Miss e \<Longrightarrow> thesis) \<Longrightarrow> thesis"
  by (cases a) simp_all

text \<open>An unlocked scanner tries the formats after \<open>index\<close> in their order.\<close>

lemma scan_loop_unlocked:
  assumes "dts_fmt_lock d = -1" and "-1 \<le> index"
  shows "(\<exists>i. index < int i \<and> i < num_formats env fmts
            \<and> scan_loop env fmts cl str d index tm = attempt env fmts cl str d i
            \<and> \<not> missed (attempt env fmts cl str d i)
            \<and> (\<forall>j. index < int j \<and> j < i \<longrightarrow> missed (attempt env fmts cl str d j)))
       \<or> missed (scan_loop env fmts cl str d index tm)
         \<and> (\<forall>j. index < int j \<and> j < num_formats env fmts \<longrightarrow> missed (attempt env fmts cl str d j))"
  using assms
proof (induction env fmts cl str d index tm rule: scan_loop.induct)
  case (1 env fmts cl str d index tm)
  let ?n = "num_formats env fmts" and ?a = "attempt env fmts cl str d"
  show ?case
  proof (cases "int ?n \<le> index + 1")
    case True
    then have "scan_loop env fmts cl str d index tm = Miss tm"
      using 1(2) by (subst scan_loop.simps) (simp add: next_format_def)
    with True show ?thesis by (intro disjI2) auto
  next
    case False
    define i where "i = nat (index + 1)"
    have i: "int i = index + 1" "i < ?n" using False 1(3) by (simp_all add: i_def)
    have nf: "next_format ?n index (dts_fmt_lock d) = (True, int i)"
      using False 1(2) i by (simp add: next_format_def)
    have gap: "j = i \<or> int i < int j" if "index < int j" for j using that i by linarith
    show ?thesis
    proof (cases "missed (?a i)")
      case True
      then obtain e where e: "?a i = Miss e" by (rule missedE)
      then have step: "scan_loop env fmts cl str d index tm = scan_loop env fmts cl str d (int i) e"
        using nf by (subst scan_loop.simps) simp
      have "-1 \<le> int i" by simp
      from 1(1) [OF nf [symmetric] refl _ 1(2) this, of e] e
      have "(\<exists>i'. int i < int i' \<and> i' < ?n \<and> scan_loop env fmts cl str d (int i) e = ?a i'
              \<and> \<not> missed (?a i') \<and> (\<forall>j. int i < int j \<and> j < i' \<longrightarrow> missed (?a j)))
          \<or> missed (scan_loop env fmts cl str d (int i) e)
             \<and> (\<forall>j. int i < int j \<and> j < ?n \<longrightarrow> missed (?a j))"
        by simp
      then show ?thesis
      proof (elim disjE exE conjE)
        fix i' assume "int i < int i'" "i' < ?n" "scan_loop env fmts cl str d (int i) e = ?a i'"
          "\<not> missed (?a i')" "\<forall>j. int i < int j \<and> j < i' \<longrightarrow> missed (?a j)"
        moreover from this True gap have "\<forall>j. index < int j \<and> j < i' \<longrightarrow> missed (?a j)" by blast
        ultimately show ?thesis using step i(1) by (intro disjI1 exI [of _ i']) simp
      next
        assume "missed (scan_loop env fmts cl str d (int i) e)"
          "\<forall>j. int i < int j \<and> j < ?n \<longrightarrow> missed (?a j)"
        with True gap step show ?thesis by (intro disjI2) auto
      qed
    next
      case False
      then have "scan_loop env fmts cl str d index tm = ?a i"
        using nf by (subst scan_loop.simps) (auto split: scan_attempt.split)
      moreover have "\<forall>j. index < int j \<and> j < i \<longrightarrow> missed (?a j)" using i(1) by auto
      ultimately show ?thesis using False i by (intro disjI1 exI [of _ i]) simp
    qed
  qed
qed

text \<open>A locked one tries that format and no other.\<close>

lemma scan_loop_locked:
  assumes "dts_fmt_lock d \<noteq> -1" and "dts_fmt_lock d \<noteq> index"
  shows "scan_loop env fmts cl str d index tm = attempt env fmts cl str d (nat (dts_fmt_lock d))"
proof -
  have stop: "scan_loop env fmts cl str d (dts_fmt_lock d) e = Miss e" for e
    using assms(1) by (subst scan_loop.simps) (simp add: next_format_def)
  have "next_format (num_formats env fmts) index (dts_fmt_lock d) = (True, dts_fmt_lock d)"
    using assms by (simp add: next_format_def)
  then show ?thesis by (subst scan_loop.simps) (simp add: stop split: scan_attempt.split)
qed

text \<open>What a hit changes of the scanner.\<close>

lemma to_localtime_frame:
  assumes "to_localtime lt t d e = (d', e')"
  shows "dts_base_tm d' = dts_base_tm d" and "dts_keep_base_tz d' = dts_keep_base_tz d"
    and "dts_fmt_lock d' = dts_fmt_lock d" and "dts_fmt_len d' = dts_fmt_len d"
    and "dts_last_tm d' = dts_last_tm d" and "dts_last_tv d' = dts_last_tv d"
    and "dts_zoned_to_local d' = dts_zoned_to_local d"
  using assms by (auto simp: to_localtime_def Let_def split: if_splits)

lemma accept_lock:
  "accept env b cl idx off d e = Hit off' d' e' tv \<Longrightarrow>
   dts_fmt_lock d' = int idx \<and> dts_fmt_len d' = int off' \<and> off' = off"
  by (auto simp: accept_def Let_def split: option.splits prod.splits)

lemma attempt_lock:
  "attempt env fmts cl str d idx = Hit off d' e tv \<Longrightarrow>
   dts_fmt_lock d' = int idx \<and> dts_fmt_len d' = int off"
  by (auto simp: attempt_def scan_plus_epoch_def Let_def accept_lock dest!: accept_lock
      split: if_splits option.splits prod.splits bool.splits)

lemma fmt_len_self: "d\<lparr>dts_fmt_len := dts_fmt_len d\<rparr> = d"
  by (cases d) simp

lemma sub_second_len:
  "sub_second str off d e tv = (off', d', e', tv') \<Longrightarrow> d' = d\<lparr>dts_fmt_len := dts_fmt_len d'\<rparr>"
  by (auto simp: sub_second_def fmt_len_self split: if_splits prod.splits bool.splits)

lemma sub_second_frame:
  "sub_second str off d e tv = (off', d', e', tv') \<Longrightarrow>
   dts_fmt_lock d' = dts_fmt_lock d \<and> d'\<lparr>dts_fmt_len := n\<rparr> = d\<lparr>dts_fmt_len := n\<rparr>"
  by (auto simp: sub_second_def split: if_splits prod.splits bool.splits)

definition conf :: "scan_env \<Rightarrow> dts \<Rightarrow> dts" where
  "conf env d = d\<lparr>dts_zoned_to_local := env_zoned_to_local env\<rparr>"

lemma conf_same: "dts_zoned_to_local d = env_zoned_to_local env \<Longrightarrow> conf env d = d"
  by (cases d) (simp add: conf_def)

lemma scan_conf:
  "scan env fmts cl str d tm tv =
     (case scan_loop env fmts cl str (conf env d) (-1) tm of
        Threw \<Rightarrow> Scan_threw
      | Miss e \<Rightarrow> Not_found (conf env d) e tv
      | Hit off d' e tv \<Rightarrow> scan_finish str off d' e tv)"
  unfolding scan_def conf_def Let_def by (rule refl)

lemma scan_FoundE:
  assumes "scan env fmts cl str d tm tv0 = Found off d' e tv"
  obtains off1 d1 e1 tv1 where "scan_loop env fmts cl str (conf env d) (-1) tm = Hit off1 d1 e1 tv1"
    and "scan_finish str off1 d1 e1 tv1 = Found off d' e tv"
  using assms by (auto simp: scan_conf split: scan_attempt.splits)

lemma scan_finishE:
  obtains off' d' e' tv' where "scan_finish str off d e tv = Found off' d' e' tv'"
proof -
  obtain off1 d1 e1 tv1 where
    "sub_second str off (d\<lparr>dts_last_tm := et_tm e, dts_last_tv := tv\<rparr>) e tv = (off1, d1, e1, tv1)"
    by (metis prod.exhaust)
  moreover obtain e2 tv2 where "fill_missing e1 tv1 = (e2, tv2)" by (cases "fill_missing e1 tv1")
  ultimately show thesis using that by (simp add: scan_finish_def Let_def)
qed

lemma scan_finish_lock:
  "scan_finish str off d e tv = Found off' d' e' tv' \<Longrightarrow> dts_fmt_lock d' = dts_fmt_lock d"
  by (auto simp: scan_finish_def Let_def dest!: sub_second_frame split: prod.splits)

text \<open>
  C31: an unlocked scanner finds a timestamp exactly if one of its formats accepts it, and locks on
  the first that does.
\<close>

theorem scan_discovers:
  assumes "dts_fmt_lock d = -1"
  shows "case scan env fmts cl str d tm tv of
      Not_found d' e tv' \<Rightarrow>
        \<forall>i < num_formats env fmts. missed (attempt env fmts cl str (conf env d) i)
    | Found off d' e tv' \<Rightarrow>
        \<exists>i < num_formats env fmts. dts_fmt_lock d' = int i
          \<and> \<not> missed (attempt env fmts cl str (conf env d) i)
          \<and> (\<forall>j < i. missed (attempt env fmts cl str (conf env d) j))
    | Scan_threw \<Rightarrow>
        \<exists>i < num_formats env fmts. attempt env fmts cl str (conf env d) i = Threw
          \<and> (\<forall>j < i. missed (attempt env fmts cl str (conf env d) j))"
proof -
  have c: "dts_fmt_lock (conf env d) = -1" using assms by (simp add: conf_def)
  have nat_gt: "-1 < int j" for j by simp
  note L = scan_loop_unlocked [OF c order_refl, of env fmts cl str tm, simplified nat_gt simp_thms]
  show ?thesis
  proof (cases "scan_loop env fmts cl str (conf env d) (-1) tm")
    case (Miss e)
    with L have "\<forall>i < num_formats env fmts. missed (attempt env fmts cl str (conf env d) i)"
      by (metis missed.simps(1))
    with Miss show ?thesis by (simp add: scan_conf)
  next
    case Threw
    with L show ?thesis by (auto simp: scan_conf)
  next
    case (Hit off1 d1 e1 tv1)
    from L Hit obtain i where i: "i < num_formats env fmts"
        "attempt env fmts cl str (conf env d) i = Hit off1 d1 e1 tv1"
        "\<forall>j < i. missed (attempt env fmts cl str (conf env d) j)"
      by auto
    obtain off d' e tv' where f: "scan_finish str off1 d1 e1 tv1 = Found off d' e tv'"
      by (rule scan_finishE)
    have "dts_fmt_lock d' = int i" using attempt_lock [OF i(2)] scan_finish_lock [OF f] by simp
    with i f Hit show ?thesis by (auto simp: scan_conf)
  qed
qed

definition sample_env :: scan_env where
  "sample_env = \<lparr>env_localtime = (\<lambda>t. secs2tm_long t zero_tm), env_scan_int64 = (\<lambda>s. None),
     env_strptime_b = (\<lambda>s t. None), env_strptime_B = (\<lambda>s t. None), env_zoned_to_local = False,
     env_formats = [''%H:%M:%S'', ''%Y-%m-%d'', ''%d/%m/%y'']\<rparr>"

theorem scan_discovers_witness:
  "\<not> missed (attempt sample_env None True ''2024-02-29'' (conf sample_env dts_init) 1)
   \<and> missed (attempt sample_env None True ''2024-02-29'' (conf sample_env dts_init) 0)"
proof -
  have "(case scan sample_env None True ''2024-02-29'' dts_init exttm_init (0, 0) of
      Found off d e tv \<Rightarrow> (off, dts_fmt_lock d, tv) | _ \<Rightarrow> (0, 0, 0, 0))
      = (10, 1, 1709164800, 0)"
    by code_simp
  then obtain d e tv where "scan sample_env None True ''2024-02-29'' dts_init exttm_init (0, 0)
      = Found 10 d e tv" and l: "dts_fmt_lock d = 1"
    by (auto split: scan_result.splits)
  moreover have "dts_fmt_lock dts_init = -1" by (simp add: dts_init_def clear_def)
  ultimately show ?thesis
    using scan_discovers [of dts_init sample_env None True "''2024-02-29''" exttm_init "(0, 0)"] l
    by (auto simp: less_Suc_eq)
qed

section \<open>Scanning again\<close>

lemma parse_tm_frame:
  "dts_base_tm d' = dts_base_tm d \<Longrightarrow> dts_keep_base_tz d' = dts_keep_base_tz d \<Longrightarrow>
   parse_tm d' = parse_tm d \<and> start_tm d' = start_tm d"
  by (simp add: parse_tm_def start_tm_def)

lemma set_tv_again:
  assumes "set_tv d e = (e1, tv)" and "dts_last_tm d' = et_tm e1" and "dts_last_tv d' = tv"
  shows "set_tv d' e = (e1, tv)"
proof -
  obtain w where "e1 = upd_tm (\<lambda>t. t\<lparr>tm_wday := w\<rparr>) e"
    using assms(1) by (auto simp: set_tv_def secs2wday_def upd_tm_def Let_def split: if_splits prod.splits)
  moreover obtain s where "tv = (s, et_nsec e sdiv 1000)"
    using assms(1) by (auto simp: set_tv_def upd_tm_def Let_def split: if_splits prod.splits)
  ultimately show ?thesis
    using assms(2,3) by (simp add: set_tv_def same_minute_def upd_tm_def)
qed

text \<open>The scanner after a hit, as \<open>scan\<close> leaves it.\<close>

definition remember :: "exttm \<Rightarrow> timeval \<Rightarrow> dts \<Rightarrow> dts" where
  "remember e tv d = d\<lparr>dts_last_tm := et_tm e, dts_last_tv := tv\<rparr>"

lemma accept_again:
  assumes "accept env b False idx off d e = Hit off' d' e' tv"
  shows "accept env b False idx off (remember e' tv d') e = Hit off' (remember e' tv d') e' tv"
    and "\<exists>l n. d' = d\<lparr>dts_fmt_lock := l, dts_fmt_len := n\<rparr>"
proof -
  let ?e = "if tm_year (et_tm e) < 70 then upd_tm (\<lambda>t. t\<lparr>tm_year := 80\<rparr>) e else e"
  have 1: "set_tv d ?e = (e', tv)" and 2: "d' = d\<lparr>dts_fmt_lock := int idx, dts_fmt_len := int off\<rparr>"
    and 3: "off' = off"
    using assms by (auto simp: accept_def needs_local_def Let_def split: prod.splits)
  have "set_tv (remember e' tv d') ?e = (e', tv)"
    by (rule set_tv_again [OF 1]) (simp_all add: remember_def)
  then show "accept env b False idx off (remember e' tv d') e = Hit off' (remember e' tv d') e' tv"
    by (simp add: accept_def needs_local_def Let_def 2 3 remember_def)
  show "\<exists>l n. d' = d\<lparr>dts_fmt_lock := l, dts_fmt_len := n\<rparr>" using 2 by blast
qed

lemma set_tv_fmt_len: "set_tv (d\<lparr>dts_fmt_len := n\<rparr>) e = set_tv d e"
  by (simp add: set_tv_def)

text \<open>The length of the last format is written, never read.\<close>

lemma accept_fmt_len:
  "accept env b False idx off (d\<lparr>dts_fmt_len := n\<rparr>) e = accept env b False idx off d e"
  by (simp add: accept_def needs_local_def Let_def set_tv_fmt_len split: prod.splits)

lemma plus_epoch_fmt_len:
  "scan_plus_epoch env False str idx (d\<lparr>dts_fmt_len := n\<rparr>) e = scan_plus_epoch env False str idx d e"
  by (simp add: scan_plus_epoch_def Let_def split: option.splits prod.splits)

lemma attempt_fmt_len:
  "attempt env fmts False str (d\<lparr>dts_fmt_len := n\<rparr>) idx = attempt env fmts False str d idx"
proof -
  have "parse_tm (d\<lparr>dts_fmt_len := n\<rparr>) = parse_tm d" "start_tm (d\<lparr>dts_fmt_len := n\<rparr>) = start_tm d"
    using parse_tm_frame [of "d\<lparr>dts_fmt_len := n\<rparr>" d] by simp_all
  note p = this
  show ?thesis unfolding attempt_def accept_fmt_len plus_epoch_fmt_len p by (rule refl)
qed

lemma attempt_again:
  assumes "attempt env fmts False str d idx = Hit off d' e tv"
  shows "attempt env fmts False str (remember e tv d') idx = Hit off (remember e tv d') e tv"
    and "\<exists>l n. d' = d\<lparr>dts_fmt_lock := l, dts_fmt_len := n\<rparr>"
proof -
  show D: "\<exists>l n. d' = d\<lparr>dts_fmt_lock := l, dts_fmt_len := n\<rparr>"
    using assms
    by (auto simp: attempt_def scan_plus_epoch_def Let_def dest: accept_again(2)
        split: if_splits option.splits prod.splits bool.splits)
  then have p: "parse_tm (remember e tv d') = parse_tm d" "start_tm (remember e tv d') = start_tm d"
    using parse_tm_frame [of "remember e tv d'" d] by (auto simp: remember_def)
  show "attempt env fmts False str (remember e tv d') idx = Hit off (remember e tv d') e tv"
    using assms
    by (auto simp: attempt_def p scan_plus_epoch_def Let_def dest: accept_again(1)
        split: if_splits option.splits prod.splits bool.splits)
      (auto simp: remember_def)
qed

text \<open>
  Without conversion to local time, scanning a timestamp a second time, now with the format
  locked, gives the same time, the same length and the same state as the first scan.
\<close>

theorem scan_again:
  assumes "scan env fmts False str d tm tv0 = Found off d' e tv" and "-1 \<le> dts_fmt_lock d"
  shows "scan env fmts False str d' tm' tv0' = Found off d' e tv"
  using assms
proof -
  obtain off1 d1 e1 tv1 where
    h: "scan_loop env fmts False str (conf env d) (-1) tm = Hit off1 d1 e1 tv1"
    and f: "scan_finish str off1 d1 e1 tv1 = Found off d' e tv"
    using assms(1) by (rule scan_FoundE)
  obtain idx where a: "attempt env fmts False str (conf env d) idx = Hit off1 d1 e1 tv1"
  proof (cases "dts_fmt_lock d = -1")
    case True
    then have "dts_fmt_lock (conf env d) = -1" by (simp add: conf_def)
    from scan_loop_unlocked [OF this order_refl, of env fmts False str tm] h that
    show thesis by auto
  next
    case False
    then have "dts_fmt_lock (conf env d) \<noteq> -1" by (simp add: conf_def)
    from scan_loop_locked [OF this this, of env fmts False str tm] h that
    show thesis by auto
  qed
  note again = attempt_again(1) [OF a]
  obtain l n where d1: "d1 = (conf env d)\<lparr>dts_fmt_lock := l, dts_fmt_len := n\<rparr>"
    using attempt_again(2) [OF a] by blast
  have lock: "dts_fmt_lock d1 = int idx" "dts_fmt_len d1 = int off1"
    using attempt_lock [OF a] by simp_all
  define m where "m = dts_fmt_len d'"
  have m: "d' = (remember e1 tv1 d1)\<lparr>dts_fmt_len := m\<rparr>"
    using f unfolding scan_finish_def Let_def m_def
    by (auto simp flip: remember_def dest!: sub_second_len split: prod.splits)
  have c: "conf env d' = d'"
    by (rule conf_same) (simp add: m remember_def d1 conf_def)
  have l': "dts_fmt_lock d' = int idx" using lock by (simp add: m remember_def)
  have "scan_loop env fmts False str d' (-1) tm' = attempt env fmts False str d' idx"
    using scan_loop_locked [of d' "-1" env fmts False str tm'] l' by simp
  moreover have "attempt env fmts False str d' idx = Hit off1 (remember e1 tv1 d1) e1 tv1"
    using again unfolding m by (simp only: attempt_fmt_len)
  ultimately show ?thesis using f
    by (simp add: scan_conf c scan_finish_def remember_def)
qed


theorem scan_again_witness:
  "\<exists>d e. scan sample_env None False ''2024-02-29'' dts_init exttm_init (0, 0)
        = Found 10 d e (1709164800, 0)
    \<and> scan sample_env None False ''2024-02-29'' d exttm_init (5, 5) = Found 10 d e (1709164800, 0)"
proof -
  have "(case scan sample_env None False ''2024-02-29'' dts_init exttm_init (0, 0) of
      Found off d e tv \<Rightarrow> (off, tv) | _ \<Rightarrow> (0, 0, 0)) = (10, 1709164800, 0)"
    by code_simp
  then obtain d e where f: "scan sample_env None False ''2024-02-29'' dts_init exttm_init (0, 0)
      = Found 10 d e (1709164800, 0)"
    by (auto split: scan_result.splits)
  moreover have "-1 \<le> dts_fmt_lock dts_init" by (simp add: dts_init_def clear_def)
  ultimately show ?thesis using scan_again [OF f, of exttm_init "(5, 5)"] by blast
qed

section \<open>Local time\<close>

text \<open>
  What \<open>localtime_r\<close> is relied on for at a time: the fields of the time shifted by the offset of the
  zone then. The cache takes the offset to be the same up to the next multiple of a quarter of an hour.
\<close>

definition local_zone :: "(int \<Rightarrow> tm) \<Rightarrow> (int \<Rightarrow> int) \<Rightarrow> int \<Rightarrow> bool" where
  "local_zone localtime zoff t \<longleftrightarrow>
     (\<exists>isdst zn. localtime t = (secs2tm_long (t + zoff t) zero_tm)
        \<lparr>tm_isdst := isdst, tm_gmtoff := zoff t, tm_zone := Some zn\<rparr>)"

definition steady_offset :: "(int \<Rightarrow> int) \<Rightarrow> int \<Rightarrow> bool" where
  "steady_offset zoff t \<longleftrightarrow> (\<forall>u\<ge>t. u div EXPIRE_TIME = t div EXPIRE_TIME \<longrightarrow> zoff u = zoff t)"

text \<open>The invariant of the two caches: the offset of a window and the fields of a minute.\<close>

definition cache_ok :: "(int \<Rightarrow> int) \<Rightarrow> dts \<Rightarrow> bool" where
  "cache_ok zoff d \<longleftrightarrow>
     (\<forall>x. dts_local_offset_valid d \<le> x \<and> x < dts_local_offset_expiry d \<longrightarrow>
        zoff x = dts_local_offset_cache d)
     \<and> (dts_localtime_cached_gmt d = 0
        \<or> valid_tm (dts_localtime_cached_tm d) \<and> tm_sec (dts_localtime_cached_tm d) = 0
          \<and> civil_secs (dts_localtime_cached_tm d) = dts_localtime_cached_gmt d * 60)"

lemma cache_ok_init: "cache_ok zoff dts_init"
  by (simp add: cache_ok_def dts_init_def clear_def)

lemma civil_secs_sec: "civil_secs (t\<lparr>tm_sec := s\<rparr>) = civil_secs t - tm_sec t + s"
  by (simp add: civil_secs_def day_secs_def)

lemma valid_tm_sec: "valid_tm t \<Longrightarrow> 0 \<le> s \<Longrightarrow> s < 60 \<Longrightarrow> valid_tm (t\<lparr>tm_sec := s\<rparr>)"
  by (simp add: valid_tm_def)

lemma no_zone_fields [simp]:
  "valid_tm (no_zone t) = valid_tm t" "civil_secs (no_zone t) = civil_secs t"
  by (simp_all add: no_zone_def valid_tm_def civil_secs_def day_secs_def)

lemma tm_sec_mod: "valid_tm t \<Longrightarrow> tm_sec t = civil_secs t mod 60"
proof -
  assume "valid_tm t"
  then have s: "0 \<le> tm_sec t" "tm_sec t < 60" by (simp_all add: valid_tm_def)
  have "civil_secs t = tm_sec t + (civil_days (tm_year t + 1900) (tm_mon t) (tm_mday t) * 1440
      + tm_hour t * 60 + tm_min t) * 60"
    by (simp add: civil_secs_def day_secs_def)
  then have "civil_secs t mod 60 = tm_sec t mod 60" by (rule int_mod_shift)
  with s show ?thesis by simp
qed

lemma secs2tm_long_unzoned:
  "(secs2tm_long x zero_tm)\<lparr>tm_gmtoff := 0, tm_zone := None, tm_isdst := 0\<rparr> = secs2tm_long x zero_tm"
  by (simp add: secs2tm_long_def zero_tm_def split_beta Let_def)

lemma window:
  assumes "t \<le> x" and "x < t + (EXPIRE_TIME - 1) - (t + (EXPIRE_TIME - 1)) mod EXPIRE_TIME"
  shows "x div EXPIRE_TIME = t div EXPIRE_TIME"
proof -
  define q r where "q = t div 900" and "r = t mod 900"
  have t: "t = 900 * q + r" "0 \<le> r" "r < 900" by (simp_all add: q_def r_def)
  have "x < 900 * (q + 1)"
  proof (cases "r = 0")
    case True
    then have "(t + 899) mod 900 = 899" using t(1) by simp
    with assms(2) True t(1) show ?thesis by (simp add: EXPIRE_TIME_def)
  next
    case False
    then have "(t + 899) mod 900 = r - 1"
      by (intro int_mod_pos_eq [where q = "q + 1"]) (use t in auto)
    with assms(2) t(1) show ?thesis by (simp add: EXPIRE_TIME_def)
  qed
  then have "x div 900 = q"
    by (intro int_div_pos_eq [where r = "x - 900 * q"]) (use t assms(1) in auto)
  then show ?thesis by (simp add: EXPIRE_TIME_def q_def)
qed

text \<open>
  C30: with its caches, \<open>to_localtime\<close> computes the date and time of day of the local zone of a time
  from 24 hours after the epoch on, and keeps the caches valid, if the offset of the zone does not change
  between the time and the next quarter of an hour. The local time is not in the months from March to
  December of 2000, for which \<open>tm2sec\<close> is a day late and the offset with it.
\<close>

theorem to_localtime_correct:
  assumes z: "local_zone localtime zoff t" and st: "steady_offset zoff t" and inv: "cache_ok zoff d"
    and t: "86400 \<le> t"
    and x: "60 \<le> t + zoff t" "t + zoff t < 4000000000"
    and y2k: "t + zoff t < 951868800 \<or> 978307200 \<le> t + zoff t"
    and r: "to_localtime localtime t d e = (d', e')"
  shows "valid_tm (et_tm e') \<and> civil_secs (et_tm e') = t + zoff t
    \<and> et_gmtoff e' = 0 \<and> et_orig_gmtoff e' = zoff t \<and> cache_ok zoff d'"
proof (cases "t < dts_local_offset_valid d \<or> t \<ge> dts_local_offset_expiry d")
  case True
  let ?T = "secs2tm_long (t + zoff t) zero_tm"
  have lt: "(no_zone (localtime t))\<lparr>tm_isdst := 0\<rparr> = ?T"
  proof -
    obtain i zn where "localtime t = (secs2tm_long (t + zoff t) zero_tm)
        \<lparr>tm_isdst := i, tm_gmtoff := zoff t, tm_zone := Some zn\<rparr>"
      using z unfolding local_zone_def by blast
    then show ?thesis by (simp add: no_zone_def secs2tm_long_unzoned)
  qed
  have "leap_skew ?T = 0" using leap_skew_window [of "t + zoff t" zero_tm] x y2k by auto
  moreover have "tm_zone zero_tm = None" by (simp add: zero_tm_def)
  ultimately have T: "tm2sec ?T = t + zoff t"
    using tm2sec_secs2tm_long [of "t + zoff t" zero_tm] x by simp
  have "to_localtime localtime t d e = (d\<lparr>dts_local_offset_cache := zoff t, dts_local_offset_valid := t,
        dts_local_offset_expiry := t + (EXPIRE_TIME - 1) - (t + (EXPIRE_TIME - 1)) mod EXPIRE_TIME\<rparr>,
      e\<lparr>et_orig_gmtoff := zoff t, et_gmtoff := 0, et_tm := no_zone ?T\<rparr>)"
    unfolding to_localtime_def Let_def if_P [OF True] lt using t
    by (simp add: T smod_nonneg EXPIRE_TIME_def)
  with r have d': "d' = d\<lparr>dts_local_offset_cache := zoff t, dts_local_offset_valid := t,
        dts_local_offset_expiry := t + (EXPIRE_TIME - 1) - (t + (EXPIRE_TIME - 1)) mod EXPIRE_TIME\<rparr>"
    and e': "e' = e\<lparr>et_orig_gmtoff := zoff t, et_gmtoff := 0, et_tm := no_zone ?T\<rparr>"
    by simp_all
  have same: "zoff u = zoff t"
    if "t \<le> u" "u < t + (EXPIRE_TIME - 1) - (t + (EXPIRE_TIME - 1)) mod EXPIRE_TIME" for u
    using st window [OF that] that(1) unfolding steady_offset_def by blast
  have "cache_ok zoff d'" unfolding d' cache_ok_def
  proof (intro conjI allI impI)
    fix u
    assume "dts_local_offset_valid (d\<lparr>dts_local_offset_cache := zoff t, dts_local_offset_valid := t,
        dts_local_offset_expiry := t + (EXPIRE_TIME - 1) - (t + (EXPIRE_TIME - 1)) mod EXPIRE_TIME\<rparr>) \<le> u
      \<and> u < dts_local_offset_expiry (d\<lparr>dts_local_offset_cache := zoff t, dts_local_offset_valid := t,
        dts_local_offset_expiry := t + (EXPIRE_TIME - 1) - (t + (EXPIRE_TIME - 1)) mod EXPIRE_TIME\<rparr>)"
    with same [of u] show "zoff u = dts_local_offset_cache (d\<lparr>dts_local_offset_cache := zoff t,
        dts_local_offset_valid := t, dts_local_offset_expiry :=
          t + (EXPIRE_TIME - 1) - (t + (EXPIRE_TIME - 1)) mod EXPIRE_TIME\<rparr>)"
      by simp
  qed (use inv in \<open>simp add: cache_ok_def\<close>)
  then show ?thesis by (simp add: e' secs2tm_long_valid secs2tm_long_civil)
next
  case False
  define a where "a = t + zoff t"
  have off: "dts_local_offset_cache d = zoff t"
    using inv False by (auto simp: cache_ok_def)
  have sa: "a sdiv 60 = a div 60" "a smod 60 = a mod 60" and nz: "a div 60 \<noteq> 0"
    using x(1) by (simp_all add: a_def sdiv_nonneg smod_nonneg)
  have w: "secs2tm (word_of_int a) u = secs2tm_long a u" for u
    using x by (simp add: secs2tm_def sint_word_of_small flip: a_def)
  show ?thesis
  proof (cases "dts_localtime_cached_gmt d = a div 60")
    case True
    let ?T = "(dts_localtime_cached_tm d)\<lparr>tm_sec := a mod 60\<rparr>"
    have "to_localtime localtime t d e
        = (d, e\<lparr>et_orig_gmtoff := zoff t, et_gmtoff := 0, et_tm := no_zone ?T\<rparr>)"
      unfolding to_localtime_def Let_def if_not_P [OF False] off a_def [symmetric] sa using t True
      by (simp add: off)
    with r have "(d', e') = (d, e\<lparr>et_orig_gmtoff := zoff t, et_gmtoff := 0, et_tm := no_zone ?T\<rparr>)"
      by (simp only:)
    then have d': "d' = d"
      and e': "e' = e\<lparr>et_orig_gmtoff := zoff t, et_gmtoff := 0, et_tm := no_zone ?T\<rparr>"
      by simp_all
    have "valid_tm (dts_localtime_cached_tm d)" "tm_sec (dts_localtime_cached_tm d) = 0"
      "civil_secs (dts_localtime_cached_tm d) = a div 60 * 60"
      using inv True nz by (auto simp: cache_ok_def)
    then show ?thesis
      using inv by (simp add: d' e' civil_secs_sec valid_tm_sec flip: a_def)
  next
    case miss: False
    let ?T = "secs2tm_long a (et_tm e)"
    have "to_localtime localtime t d e
        = (d\<lparr>dts_localtime_cached_gmt := a div 60, dts_localtime_cached_tm := ?T\<lparr>tm_sec := 0\<rparr>\<rparr>,
           e\<lparr>et_orig_gmtoff := zoff t, et_gmtoff := 0, et_tm := no_zone ?T\<rparr>)"
      unfolding to_localtime_def Let_def if_not_P [OF False] off a_def [symmetric] sa w
        if_not_P [OF miss] using t
      by (simp add: off)
    with r have d': "d' = d\<lparr>dts_localtime_cached_gmt := a div 60,
          dts_localtime_cached_tm := ?T\<lparr>tm_sec := 0\<rparr>\<rparr>"
      and e': "e' = e\<lparr>et_orig_gmtoff := zoff t, et_gmtoff := 0, et_tm := no_zone ?T\<rparr>"
      by simp_all
    have "tm_sec ?T = a mod 60"
      using tm_sec_mod [OF secs2tm_long_valid, of a "et_tm e"] by (simp add: secs2tm_long_civil)
    then have "civil_secs (?T\<lparr>tm_sec := 0\<rparr>) = a div 60 * 60"
      using minus_mod_eq_div_mult [of a 60] by (simp add: civil_secs_sec secs2tm_long_civil)
    then have "cache_ok zoff d'"
      using inv valid_tm_sec [OF secs2tm_long_valid, of 0 a "et_tm e"] by (simp add: cache_ok_def d')
    then show ?thesis by (simp add: e' secs2tm_long_valid secs2tm_long_civil flip: a_def)
  qed
qed


text \<open>A zone of a constant offset: the fields of the second conversion come from the cache.\<close>

definition utc_plus :: "int \<Rightarrow> int \<Rightarrow> tm" where
  "utc_plus z t = (secs2tm_long (t + z) zero_tm)\<lparr>tm_gmtoff := z, tm_zone := Some ''XYZ''\<rparr>"

lemma utc_plus_eq:
  "utc_plus z t = (secs2tm_long (t + z) zero_tm)\<lparr>tm_isdst := 0, tm_gmtoff := z, tm_zone := Some ''XYZ''\<rparr>"
  by (simp add: utc_plus_def secs2tm_long_def split_beta Let_def)

lemma local_zone_utc_plus: "local_zone (utc_plus z) (\<lambda>t. z) t"
  unfolding local_zone_def utc_plus_eq by blast

text \<open>A zone that was 44 minutes and 30 seconds behind until 7 January 1972, as Monrovia's; its clock moved then.\<close>

definition moved_zone :: "int \<Rightarrow> int" where
  "moved_zone t = (if t < 63593070 then - 2670 else 0)"

lemma steady_moved_zone: "63593070 \<le> t \<Longrightarrow> steady_offset moved_zone t"
  by (simp add: steady_offset_def moved_zone_def)

definition moved_clock :: "int \<Rightarrow> tm" where
  "moved_clock t = utc_plus (moved_zone t) t"

theorem to_localtime_correct_witness:
  "civil_secs (et_tm (snd (to_localtime (utc_plus 3600) 1700000000 dts_init exttm_init))) = 1700003600
   \<and> civil_secs (et_tm (snd (to_localtime moved_clock 63593070 dts_init exttm_init))) = 63593070"
proof
  obtain d e where r: "to_localtime (utc_plus 3600) 1700000000 dts_init exttm_init = (d, e)"
    by (cases "to_localtime (utc_plus 3600) 1700000000 dts_init exttm_init")
  have "steady_offset (\<lambda>t. 3600) 1700000000" by (simp add: steady_offset_def)
  then have "civil_secs (et_tm e) = 1700000000 + 3600"
    using to_localtime_correct [OF local_zone_utc_plus _ cache_ok_init _ _ _ _ r] by simp
  then show "civil_secs (et_tm (snd (to_localtime (utc_plus 3600) 1700000000 dts_init exttm_init))) = 1700003600"
    by (simp add: r)
  obtain d' e' where r': "to_localtime moved_clock 63593070 dts_init exttm_init = (d', e')"
    by (cases "to_localtime moved_clock 63593070 dts_init exttm_init")
  have "local_zone moved_clock moved_zone 63593070"
    unfolding local_zone_def moved_clock_def utc_plus_eq by blast
  from to_localtime_correct [OF this steady_moved_zone cache_ok_init _ _ _ _ r']
  show "civil_secs (et_tm (snd (to_localtime moved_clock 63593070 dts_init exttm_init))) = 63593070"
    by (simp add: r' moved_zone_def)
qed

section \<open>Times counted from the last one\<close>

definition march_count :: "int \<Rightarrow> int \<Rightarrow> int \<Rightarrow> int \<Rightarrow> int" where
  "march_count yr mon mday yday =
    (let year = (if yday \<ge> 1 then (if yday \<le> 59 then yr - 1 else yr)
                 else (if mon < 2 then yr - 1 else yr));
         days = year * 365 + year div 4 - year div 100 + (year div 100 + 3) div 4;
         days = days +
           (if yday \<ge> 1
            then (if yday > 59 then yday - 59 - (if isleap year then 1 else 0) else 306 + yday)
            else dayoffset ! nat mon + mday - 1)
     in days - 25508)"

lemma tm2sec_day_and_time:
  assumes "tm_zone t = None" and "tm2sec t \<noteq> BAD_DATE"
  shows "tm2sec t =
    ((march_count (tm_year t) (tm_mon t) (tm_mday t) (tm_yday t) * 24 + tm_hour t) * 60 + tm_min t) * 60
    + tm_sec t"
proof -
  define s where "s = ((march_count (tm_year t) (tm_mon t) (tm_mday t) (tm_yday t) * 24 + tm_hour t)
    * 60 + tm_min t) * 60 + tm_sec t"
  have "tm2sec t = (if tm_year t < 70 then BAD_DATE else if s < 0 then BAD_DATE else s)"
    unfolding tm2sec_def s_def march_count_def Let_def assms(1) option.case by (rule refl)
  with assms(2) show ?thesis unfolding s_def [symmetric] by (simp split: if_splits)
qed

text \<open>
  Counting a timestamp from the last one in the same minute gives the time of its own fields,
  if it has the offset from GMT of the last one.
\<close>

theorem set_tv_correct:
  assumes "fst (dts_last_tv d) = tm2sec (dts_last_tm d) - et_gmtoff e"
    and "tm_yday (dts_last_tm d) = tm_yday (et_tm e)"
    and "tm_zone (dts_last_tm d) = None" and "tm_zone (et_tm e) = None"
    and "tm2sec (dts_last_tm d) \<noteq> BAD_DATE" and "tm2sec (et_tm e) \<noteq> BAD_DATE"
  shows "snd (set_tv d e) = to_timeval e"
proof (cases "same_minute (dts_last_tm d) (et_tm e)")
  case True
  have "tm2sec (et_tm e) - tm_sec (et_tm e) = tm2sec (dts_last_tm d) - tm_sec (dts_last_tm d)"
    unfolding tm2sec_day_and_time [OF assms(3,5)] tm2sec_day_and_time [OF assms(4,6)]
    using True assms(2) by (simp add: same_minute_def)
  with True assms(1) show ?thesis by (simp add: set_tv_def to_timeval_def upd_tm_def Let_def)
next
  case False
  then show ?thesis by (simp add: set_tv_def to_timeval_def upd_tm_def Let_def)
qed

theorem set_tv_correct_witness:
  "snd (set_tv (dts_init\<lparr>dts_last_tm := zero_tm\<lparr>tm_year := 124, tm_mday := 1, tm_sec := 7\<rparr>,
          dts_last_tv := (1704067207, 0)\<rparr>)
        (exttm_init\<lparr>et_tm := zero_tm\<lparr>tm_year := 124, tm_mday := 1, tm_sec := 30\<rparr>\<rparr>))
   = (1704067230, 0)"
  using set_tv_correct [of "dts_init\<lparr>dts_last_tm := zero_tm\<lparr>tm_year := 124, tm_mday := 1, tm_sec := 7\<rparr>,
          dts_last_tv := (1704067207, 0)\<rparr>"
      "exttm_init\<lparr>et_tm := zero_tm\<lparr>tm_year := 124, tm_mday := 1, tm_sec := 30\<rparr>\<rparr>"]
  by (simp add: dts_init_def clear_def exttm_init_def zero_tm_def tm2sec_def dayoffset_def BAD_DATE_def
      to_timeval_def isleap_def)

text \<open>
  The offset is not compared. Without the conversion to local time, two timestamps of the same
  minute that differ only in their zones are given the same time: 10:00 at +0000 and at +0500.
\<close>

theorem zone_ignored:
  "case scan sample_env (Some [''%Y-%m-%d %H:%M:%S%z'']) True ''2023-01-01 10:00:00+0000''
          dts_init exttm_init (0, 0) of
     Found off d e tv \<Rightarrow>
       (case scan sample_env (Some [''%Y-%m-%d %H:%M:%S%z'']) True ''2023-01-01 10:00:00+0500''
               d exttm_init (0, 0) of
          Found off' d' e' tv' \<Rightarrow>
            tv = (1672567200, 0) \<and> tv' = tv \<and> et_gmtoff e' = 18000 \<and> to_timeval e' = (1672549200, 0)
        | _ \<Rightarrow> False)
   | _ \<Rightarrow> False"
  by code_simp

end
