(* ===== verification/Ptimec_Times.thy ===== *)
theory Ptimec_Times
  imports Ptimec_Format
begin

text \<open>
  Times through their text: the RFC 3339 form of \<open>src/base/time_util.cc\<close> and the epoch directive
  \<open>%s\<close> of \<open>src/ptimec.hh\<close>.
\<close>

section \<open>RFC 3339\<close>

definition rfc3339_items :: "char \<Rightarrow> fmt_item list" where
  "rfc3339_items sep =
    [Dir (CHR ''Y''), Lit (CHR ''-''), Dir (CHR ''m''), Lit (CHR ''-''), Dir (CHR ''d''), Lit sep,
     Dir (CHR ''H''), Lit (CHR '':''), Dir (CHR ''M''), Lit (CHR '':''), Dir (CHR ''S''),
     Lit (CHR ''.''), Dir (CHR ''f'')]"

text \<open>The time whose fields \<open>strftime_rfc3339\<close> prints.\<close>

definition rfc3339_tm :: "int \<Rightarrow> exttm" where
  "rfc3339_tm micros =
     exttm_init\<lparr>et_tm := secs2tm_long (micros div 1000000) zero_tm,
       et_nsec := micros mod 1000000 * 1000, et_flags := {ETF_MICROS_SET}\<rparr>"

lemma cdigit_scale: "0 \<le> x \<Longrightarrow> 0 < p \<Longrightarrow> cdigit (x * 1000) (p * 1000) = cdigit x p"
  by (simp add: cdigit_nonneg)

lemma month_length_le: "0 \<le> m \<Longrightarrow> m < 12 \<Longrightarrow> month_length y m \<le> 31"
  using nat_less_12_cases [of m] by (auto simp: month_length_def mon_yday_def)

lemma secs2tm_long_year_bound:
  assumes "0 \<le> t" and "t < 4000000000"
  shows "70 \<le> tm_year (secs2tm_long t res) \<and> tm_year (secs2tm_long t res) \<le> 196"
proof -
  note yd = secs2tm_long_yday [of t res]
  have "jan1 2097 = 46387" by (simp add: jan1_def)
  moreover have "t div 86400 < 46387" using assms by linarith
  ultimately have "tm_year (secs2tm_long t res) \<le> 196"
    using year_of_days [OF yd(1-3), of 2097] by auto
  with yd(4) assms show ?thesis by simp
qed

lemma rfc3339_fmt_ok:
  assumes "0 \<le> micros" and "micros < 4000000000000000" and "sep \<noteq> CHR ''%''"
  shows "fmt_ok (rfc3339_items sep) (rfc3339_tm micros)"
proof -
  define t where "t = micros div 1000000"
  have t: "0 \<le> t" "t < 4000000000" using assms(1,2) by (simp_all add: t_def)
  note v = secs2tm_long_valid [of t zero_tm, unfolded valid_tm_def]
  have "month_length (tm_year (secs2tm_long t zero_tm) + 1900) (tm_mon (secs2tm_long t zero_tm)) \<le> 31"
    using v by (intro month_length_le) auto
  with v have "tm_mday (secs2tm_long t zero_tm) \<le> 31" by linarith
  moreover have "0 \<le> micros mod 1000000 * 1000" "micros mod 1000000 * 1000 < 1000000000"
    by simp_all
  ultimately show ?thesis
    using v secs2tm_long_year_bound [OF t, of zero_tm] assms(3)
    by (simp add: rfc3339_items_def dir_codec_def mk_codec_def any_post_def no_digit_def ok_Y_def
        ok_m_def ok_d_def ok_H_def ok_M_def ok_S_def ok_nsec_def rfc3339_tm_def flip: t_def)
qed

lemma rfc3339_text:
  assumes "0 \<le> micros" and "micros < 4000000000000000"
  shows "to_rfc3339_string micros sep = fmt_text (rfc3339_items sep) (rfc3339_tm micros)"
proof -
  define t u where "t = micros div 1000000" and "u = micros mod 1000000"
  have t: "0 \<le> t" "t < 4000000000" and u: "0 \<le> u" using assms by (simp_all add: t_def u_def)
  have d: "micros sdiv 1000000 = t" "micros smod 1000000 = u"
    using assms(1) by (simp_all add: sdiv_nonneg smod_nonneg t_def u_def)
  have f: "cdigit (u * 1000) 100000000 = cdigit u 100000" "cdigit (u * 1000) 10000000 = cdigit u 10000"
    "cdigit (u * 1000) 1000000 = cdigit u 1000" "cdigit (u * 1000) 100000 = cdigit u 100"
    "cdigit (u * 1000) 10000 = cdigit u 10" "cdigit (u * 1000) 1000 = cdigit u 1"
    using cdigit_scale [OF u, of 100000] cdigit_scale [OF u, of 10000] cdigit_scale [OF u, of 1000]
      cdigit_scale [OF u, of 100] cdigit_scale [OF u, of 10] cdigit_scale [OF u, of 1] by simp_all
  show ?thesis
    unfolding to_rfc3339_string_def strftime_rfc3339_def d secs2tm_def sint_word_of_small [OF t]
      rfc3339_items_def rfc3339_tm_def t_def [symmetric] u_def [symmetric] Let_def
    by (simp add: dir_codec_def mk_codec_def text_Y_def text2_def text_f_def frac_len_def
        text9_def f Let_def)
qed

lemma rfc3339_copied:
  assumes "0 \<le> micros"
  shows "fmt_copy (rfc3339_items sep) (rfc3339_tm micros) dst =
    dst\<lparr>et_tm := (et_tm dst)\<lparr>tm_sec := tm_sec (et_tm (rfc3339_tm micros)),
          tm_min := tm_min (et_tm (rfc3339_tm micros)),
          tm_hour := tm_hour (et_tm (rfc3339_tm micros)),
          tm_mday := tm_mday (et_tm (rfc3339_tm micros)),
          tm_mon := tm_mon (et_tm (rfc3339_tm micros)),
          tm_year := tm_year (et_tm (rfc3339_tm micros)), tm_yday := -1\<rparr>,
       et_nsec := micros mod 1000000 * 1000,
       et_flags := et_flags dst \<union> {ETF_YEAR_SET, ETF_MONTH_SET, ETF_DAY_SET, ETF_HOUR_SET,
          ETF_MINUTE_SET, ETF_SECOND_SET, ETF_MICROS_SET}\<rparr>"
proof -
  have "rfc3339_tm micros = exttm_init\<lparr>et_tm := et_tm (rfc3339_tm micros),
       et_nsec := micros mod 1000000 * 1000, et_flags := {ETF_MICROS_SET}\<rparr>"
    by (simp add: rfc3339_tm_def)
  then have fl: "frac_len (rfc3339_tm micros) = 6"
    and ns: "et_nsec (rfc3339_tm micros) = micros mod 1000000 * 1000"
    by (simp_all add: frac_len_def rfc3339_tm_def)
  show ?thesis
    by (simp add: rfc3339_items_def dir_codec_def mk_codec_def copy_Y_def copy_m_def copy_d_def
        copy_H_def copy_M_def copy_S_def copy_f_def set_field_def set_nsec_def fl ns upd_tm_def
        or_flags_def insert_commute)
qed

text \<open>
  C33: the RFC 3339 text of any time the program accepts, parsed with the matching format, gives
  back the same seconds and microseconds.
\<close>

theorem rfc3339_roundtrip:
  assumes "0 \<le> micros" and "micros < 4000000000000000" and "sep \<noteq> CHR ''%''"
    and "tm_zone (et_tm dst) = None" and "et_gmtoff dst = 0"
  shows "\<exists>r. ptime_fmt sp_b sp_B (fmt_str (rfc3339_items sep)) dst (to_rfc3339_string micros sep) 0
      = (True, r, 26) \<and> to_timeval r = (micros div 1000000, micros mod 1000000)"
proof -
  let ?e = "rfc3339_tm micros"
  let ?r = "fmt_copy (rfc3339_items sep) ?e dst"
  define t where "t = micros div 1000000"
  have t: "0 \<le> t" "t < 4000000000" using assms(1,2) by (simp_all add: t_def)
  have len: "length (fmt_text (rfc3339_items sep) ?e) = 26"
  proof -
    have "length (to_rfc3339_string micros sep) = 26"
      by (simp add: to_rfc3339_string_def strftime_rfc3339_def Let_def)
    then show ?thesis by (simp only: rfc3339_text [OF assms(1,2)])
  qed
  have p: "ptime_fmt sp_b sp_B (fmt_str (rfc3339_items sep)) dst (to_rfc3339_string micros sep) 0
      = (True, ?r, 26)"
    using ptime_fmt_text [OF rfc3339_fmt_ok [OF assms(1-3)], of sp_b sp_B dst "[]"] len
    by (simp add: rfc3339_text [OF assms(1,2)])
  have e: "et_tm ?e = secs2tm_long t zero_tm" by (simp add: rfc3339_tm_def t_def)
  have c: "civil_secs (et_tm ?r) = t"
    using secs2tm_long_civil [of t zero_tm]
    by (simp add: rfc3339_copied [OF assms(1)] e civil_secs_def day_secs_def)
  have y: "70 \<le> tm_year (et_tm ?r)" "0 \<le> tm_mon (et_tm ?r)" "tm_mon (et_tm ?r) < 12"
    using secs2tm_long_year_bound [OF t, of zero_tm] secs2tm_long_valid [of t zero_tm]
    by (simp_all add: rfc3339_copied [OF assms(1)] e valid_tm_def)
  have "tm2sec (et_tm ?r) = t"
    using tm2sec_days_month [OF y(1) _ y(2,3)] c t assms(4)
    by (simp add: rfc3339_copied [OF assms(1)])
  then have "to_timeval ?r = (t, micros mod 1000000)"
    using assms(5) by (simp add: to_timeval_def rfc3339_copied [OF assms(1)] sdiv_nonneg)
  with p show ?thesis unfolding t_def by blast
qed

theorem rfc3339_roundtrip_witness:
  "\<exists>r. ptime_fmt (\<lambda>_ _. None) (\<lambda>_ _. None) (fmt_str (rfc3339_items (CHR ''T''))) exttm_init
      (to_rfc3339_string 1700000000123456 (CHR ''T'')) 0 = (True, r, 26)
    \<and> to_timeval r = (1700000000, 123456)"
  using rfc3339_roundtrip [of 1700000000123456 "CHR ''T''" exttm_init "\<lambda>_ _. None" "\<lambda>_ _. None"]
  by (simp add: exttm_init_def zero_tm_def)

end
