(* ===== verification/Filter_Spec.thy ===== *)
theory Filter_Spec
  imports Filters
begin

text \<open>
  What the filters promise. The state of one filter is abstracted to a \<open>slot\<close>, the arrays read at
  its index and its bit of every mask; each operation acts on its own slot and leaves the others
  alone. On slots the operations are shown to compute, for every line, whether some line of its
  message matches.
\<close>

section \<open>The slot of a filter\<close>

record slot =
  sl_count :: nat
  sl_hits :: int
  sl_matched :: bool
  sl_lines :: nat
  sl_pending :: nat
  sl_last_matched :: bool
  sl_last_lines :: nat
  sl_last_hits :: nat
  sl_bits :: "bool list"

definition slot_of :: "nat \<Rightarrow> filter_state \<Rightarrow> slot" where
  "slot_of i s = \<lparr>sl_count = tfs_filter_count s i, sl_hits = tfs_filter_hits s i,
     sl_matched = tfs_message_matched s i, sl_lines = tfs_lines_for_message s i,
     sl_pending = tfs_hits_for_message s i, sl_last_matched = tfs_last_message_matched s i,
     sl_last_lines = tfs_last_lines_for_message s i, sl_last_hits = tfs_last_hits_for_message s i,
     sl_bits = map (\<lambda>w. bit w i) (tfs_mask s)\<rparr>"

lemma slot_of_sel [simp]:
  "sl_count (slot_of i s) = tfs_filter_count s i"
  "sl_hits (slot_of i s) = tfs_filter_hits s i"
  "sl_matched (slot_of i s) = tfs_message_matched s i"
  "sl_lines (slot_of i s) = tfs_lines_for_message s i"
  "sl_pending (slot_of i s) = tfs_hits_for_message s i"
  "sl_last_matched (slot_of i s) = tfs_last_message_matched s i"
  "sl_last_lines (slot_of i s) = tfs_last_lines_for_message s i"
  "sl_last_hits (slot_of i s) = tfs_last_hits_for_message s i"
  "sl_bits (slot_of i s) = map (\<lambda>w. bit w i) (tfs_mask s)"
  by (simp_all add: slot_of_def)

definition put_bits :: "nat \<Rightarrow> nat \<Rightarrow> bool \<Rightarrow> bool list \<Rightarrow> bool list" where
  "put_bits c n b bs = take c bs @ replicate n b @ drop (c + n) bs"

lemma length_put_bits [simp]: "c + n \<le> length bs \<Longrightarrow> length (put_bits c n b bs) = length bs"
  by (simp add: put_bits_def)

lemma nth_put_bits:
  "c + n \<le> length bs \<Longrightarrow> k < length bs \<Longrightarrow>
   put_bits c n b bs ! k = (if c \<le> k \<and> k < c + n then b else bs ! k)"
  by (auto simp: put_bits_def nth_append min_def)

lemma put_bits_0 [simp]: "put_bits c 0 b bs = bs"
  by (simp add: put_bits_def)

lemma put_bits_Suc:
  "c + Suc n \<le> length bs \<Longrightarrow> put_bits c (Suc n) b bs = put_bits (Suc c) n b (bs[c := b])"
  by (rule nth_equalityI) (auto simp: nth_put_bits nth_list_update)

lemma put_bits_Suc_end:
  "c + Suc n \<le> length bs \<Longrightarrow> put_bits c (Suc n) b bs = put_bits c n b (bs[c + n := b])"
  by (rule nth_equalityI) (auto simp: nth_put_bits nth_list_update)

text \<open>The operations on a slot.\<close>

definition slot_close :: "slot \<Rightarrow> slot" where
  "slot_close sl = sl\<lparr>sl_bits := put_bits (sl_count sl) (sl_lines sl) (sl_matched sl) (sl_bits sl),
     sl_count := sl_count sl + sl_lines sl, sl_hits := sl_hits sl + int (sl_pending sl),
     sl_last_matched := sl_matched sl, sl_last_lines := sl_lines sl, sl_last_hits := sl_pending sl,
     sl_matched := False, sl_lines := 0, sl_pending := 0\<rparr>"

definition slot_line :: "bool \<Rightarrow> bool \<Rightarrow> slot \<Rightarrow> slot" where
  "slot_line starts m sl =
    (let sl = (if starts then slot_close sl else sl)
     in sl\<lparr>sl_matched := sl_matched sl \<or> m, sl_lines := sl_lines sl + 1,
           sl_pending := sl_pending sl + (if m then 1 else 0)\<rparr>)"

lemma slot_line_starts: "slot_line True m sl = slot_line False m (slot_close sl)"
  by (simp add: slot_line_def)

definition slot_fits :: "nat \<Rightarrow> slot \<Rightarrow> bool" where
  "slot_fits n sl \<longleftrightarrow> length (sl_bits sl) = n \<and> sl_count sl + sl_lines sl \<le> n"

section \<open>The operations act on their own slot\<close>

lemma bit_filter_bit: "bit (filter_bit i) j \<longleftrightarrow> j = i \<and> i < 32"
  by (auto simp: filter_bit_def bit_exp_iff possible_bit_def)

lemma bit_mark:
  "j < 32 \<Longrightarrow> i < 32 \<Longrightarrow> bit (if b then or w (filter_bit i) else and w (not (filter_bit i))) j
     = (if j = i then b else bit w j)"
  by (auto simp: bit_or_iff bit_and_iff bit_not_iff bit_filter_bit possible_bit_def)

lemma bit_unmark:
  "j < 32 \<Longrightarrow> i < 32 \<Longrightarrow> bit (and w (not (filter_bit i))) j = (j \<noteq> i \<and> bit w j)"
  using bit_mark [of j i False w] by simp

lemma bits_update:
  assumes "\<And>w. bit (g w) j = (if j = i then b else bit w j)" and "c < length ws"
  shows "map (\<lambda>w. bit w j) (ws[c := g (ws ! c)]) =
    (if j = i then (map (\<lambda>w. bit w j) ws)[c := b] else map (\<lambda>w. bit w j) ws)"
proof -
  have e: "bit (g (ws ! c)) j = (if j = i then b else bit (ws ! c) j)" by (rule assms(1))
  show ?thesis
  proof (cases "j = i")
    case True
    with e have "bit (g (ws ! c)) j = b" by simp
    with True show ?thesis by (intro nth_equalityI) (auto simp: nth_list_update assms(2))
  next
    case False
    with e have "bit (g (ws ! c)) j = bit (ws ! c) j" by simp
    with False show ?thesis by (intro nth_equalityI) (auto simp: nth_list_update assms(2))
  qed
qed

lemma mark_lines_slot:
  assumes "i < 32"
  shows "length (tfs_mask s) = lfsize \<Longrightarrow> tfs_filter_count s i + n \<le> lfsize \<Longrightarrow>
    \<exists>s'. mark_lines lfsize i n s = Some s'
      \<and> slot_of i s' = (slot_of i s)
          \<lparr>sl_bits := put_bits (tfs_filter_count s i) n (tfs_message_matched s i) (sl_bits (slot_of i s)),
           sl_count := tfs_filter_count s i + n\<rparr>
      \<and> (\<forall>j<32. j \<noteq> i \<longrightarrow> slot_of j s' = slot_of j s)"
proof (induction n arbitrary: s)
  case 0
  then show ?case by (simp add: slot_of_def)
next
  case (Suc n)
  let ?c = "tfs_filter_count s i" and ?b = "tfs_message_matched s i"
  let ?g = "\<lambda>w. if ?b then or w (filter_bit i) else and w (not (filter_bit i))"
  let ?s = "s\<lparr>tfs_mask := (tfs_mask s)[?c := ?g (tfs_mask s ! ?c)],
      tfs_filter_count := (tfs_filter_count s)(i := ?c + 1)\<rparr>"
  have step: "mark_lines lfsize i (Suc n) s = mark_lines lfsize i n ?s"
    using Suc.prems by (simp add: Let_def)
  have g: "bit (?g w) j = (if j = i then ?b else bit w j)" if "j < 32" for w j
    using bit_mark [OF that assms] .
  have c: "?c < length (tfs_mask s)" using Suc.prems by simp
  from Suc.IH [of ?s] Suc.prems obtain s' where s': "mark_lines lfsize i n ?s = Some s'"
    "slot_of i s' = (slot_of i ?s)\<lparr>sl_bits := put_bits (?c + 1) n ?b (sl_bits (slot_of i ?s)),
       sl_count := ?c + 1 + n\<rparr>" "\<forall>j<32. j \<noteq> i \<longrightarrow> slot_of j s' = slot_of j ?s"
    by auto
  have own: "sl_bits (slot_of i ?s) = (sl_bits (slot_of i s))[?c := ?b]"
    using bits_update [where g = ?g and j = i and i = i and b = ?b, OF _ c] g [OF assms] by simp
  have other: "slot_of j ?s = slot_of j s" if "j < 32" "j \<noteq> i" for j
    using bits_update [where g = ?g and j = j and i = i and b = ?b, OF _ c] g [OF that(1)] that(2)
    by (simp add: slot_of_def)
  have "put_bits (?c + 1) n ?b ((sl_bits (slot_of i s))[?c := ?b])
      = put_bits ?c (Suc n) ?b (sl_bits (slot_of i s))"
    using Suc.prems by (subst put_bits_Suc) simp_all
  with s' own other step show ?case by (auto simp: slot_of_def)
qed

lemma end_of_message_slot:
  assumes i: "lf_index f < 32" and ok: "slot_fits lfsize (slot_of (lf_index f) s)"
  shows "\<exists>s'. end_of_message lfsize f s = Some s'
    \<and> slot_of (lf_index f) s' = slot_close (slot_of (lf_index f) s)
    \<and> (\<forall>j<32. j \<noteq> lf_index f \<longrightarrow> slot_of j s' = slot_of j s)"
proof -
  let ?i = "lf_index f"
  obtain s' where s': "mark_lines lfsize ?i (tfs_lines_for_message s ?i) s = Some s'"
    "slot_of ?i s' = (slot_of ?i s)\<lparr>sl_bits := put_bits (tfs_filter_count s ?i)
        (tfs_lines_for_message s ?i) (tfs_message_matched s ?i) (sl_bits (slot_of ?i s)),
      sl_count := tfs_filter_count s ?i + tfs_lines_for_message s ?i\<rparr>"
    "\<forall>j<32. j \<noteq> ?i \<longrightarrow> slot_of j s' = slot_of j s"
    using mark_lines_slot [OF i, of s lfsize "tfs_lines_for_message s ?i"] ok
    by (auto simp: slot_fits_def)
  have "slot_of ?i (close_message ?i s') = slot_close (slot_of ?i s)"
    using s'(2) by (simp add: slot_of_def close_message_def slot_close_def)
  moreover have "slot_of j (close_message ?i s') = slot_of j s'" if "j \<noteq> ?i" for j
    using that by (simp add: slot_of_def close_message_def)
  ultimately show ?thesis using s'(1,3) by (simp add: end_of_message_def)
qed

lemma add_line_slot:
  assumes i: "lf_index f < 32" and ok: "slot_fits lfsize (slot_of (lf_index f) s)"
  shows "\<exists>s'. add_line lfsize f l s = Some (lf_matches f (snd l), s')
    \<and> slot_of (lf_index f) s' = slot_line (fst l) (lf_matches f (snd l)) (slot_of (lf_index f) s)
    \<and> (\<forall>j<32. j \<noteq> lf_index f \<longrightarrow> slot_of j s' = slot_of j s)"
proof -
  let ?i = "lf_index f" and ?m = "lf_matches f (snd l)"
  have count: "slot_of ?i (count_line ?i ?m t) = slot_line False ?m (slot_of ?i t)"
    "j \<noteq> ?i \<Longrightarrow> slot_of j (count_line ?i ?m t) = slot_of j t" for t j
    unfolding slot_of_def count_line_def slot_line_def by simp_all
  show ?thesis
  proof (cases "fst l")
    case True
    from end_of_message_slot [OF i ok] obtain s' where
      "end_of_message lfsize f s = Some s'" "slot_of ?i s' = slot_close (slot_of ?i s)"
      "\<forall>j<32. j \<noteq> ?i \<longrightarrow> slot_of j s' = slot_of j s"
      by blast
    with True show ?thesis
      by (intro exI [of _ "count_line ?i ?m s'"]) (simp add: add_line_def slot_line_starts count)
  next
    case False
    then show ?thesis by (simp add: add_line_def count)
  qed
qed

section \<open>The interface of an operation on one slot\<close>

text \<open>
  What the observer relies on: a step skips a filter that is not live; for a live one it succeeds
  where its guard holds, changes the filter's slot as \<open>astep\<close> says and no other slot.
\<close>

locale slot_step =
  fixes step :: "text_filter \<Rightarrow> 's \<Rightarrow> 's option"
    and view :: "nat \<Rightarrow> 's \<Rightarrow> slot"
    and live :: "text_filter \<Rightarrow> bool"
    and astep :: "text_filter \<Rightarrow> slot \<Rightarrow> slot"
    and guard :: "text_filter \<Rightarrow> slot \<Rightarrow> bool"
  assumes skipped: "\<not> live f \<Longrightarrow> step f s = Some s"
    and own_slot: "live f \<Longrightarrow> lf_index f < 32 \<Longrightarrow> guard f (view (lf_index f) s) \<Longrightarrow>
    \<exists>s'. step f s = Some s' \<and> view (lf_index f) s' = astep f (view (lf_index f) s)
      \<and> (\<forall>j<32. j \<noteq> lf_index f \<longrightarrow> view j s' = view j s)"
begin

lemma all_slots:
  assumes "distinct (map lf_index (filter live fs))" and "\<forall>f\<in>set fs. lf_index f < 32"
    and "\<forall>f\<in>set fs. live f \<longrightarrow> guard f (view (lf_index f) s)"
  shows "\<exists>s'. ofold step fs s = Some s'
    \<and> (\<forall>f\<in>set fs. live f \<longrightarrow> view (lf_index f) s' = astep f (view (lf_index f) s))
    \<and> (\<forall>j<32. j \<notin> lf_index ` set (filter live fs) \<longrightarrow> view j s' = view j s)"
  using assms
proof (induction fs arbitrary: s)
  case Nil
  then show ?case by simp
next
  case (Cons f fs)
  show ?case
  proof (cases "live f")
    case False
    with Cons.prems Cons.IH [of s] skipped [of f s] show ?thesis by auto
  next
    case True
    with own_slot [of f s] Cons.prems obtain s1 where s1: "step f s = Some s1"
      "view (lf_index f) s1 = astep f (view (lf_index f) s)"
      "\<forall>j<32. j \<noteq> lf_index f \<longrightarrow> view j s1 = view j s"
      by auto
    have same: "view (lf_index g) s1 = view (lf_index g) s" if "g \<in> set fs" "live g" for g
    proof -
      have "lf_index f \<notin> lf_index ` set (filter live fs)" using Cons.prems(1) True by simp
      moreover have "g \<in> set (filter live fs)" using that by simp
      ultimately have "lf_index g \<noteq> lf_index f" by (metis imageI)
      moreover have "lf_index g < 32" using that Cons.prems(2) by simp
      ultimately show ?thesis using s1(3) by blast
    qed
    with Cons.prems True Cons.IH [of s1] obtain s' where s': "ofold step fs s1 = Some s'"
      "\<forall>g\<in>set fs. live g \<longrightarrow> view (lf_index g) s' = astep g (view (lf_index g) s1)"
      "\<forall>j<32. j \<notin> lf_index ` set (filter live fs) \<longrightarrow> view j s' = view j s1"
      by auto
    have "view (lf_index f) s' = view (lf_index f) s1"
      using s'(3) Cons.prems(1,2) True by simp
    with s1 s' same True show ?thesis by auto
  qed
qed

end

text \<open>The operations the observer runs over its stack, deleted filters skipped.\<close>

definition eof_step :: "nat \<Rightarrow> text_filter \<Rightarrow> filter_state \<Rightarrow> filter_state option" where
  "eof_step lfsize f s = (if lf_deleted f then Some s else end_of_message lfsize f s)"

interpretation eof: slot_step "eof_step lfsize" slot_of "\<lambda>f. \<not> lf_deleted f"
  "\<lambda>f. slot_close" "\<lambda>f. slot_fits lfsize"
  for lfsize
  by unfold_locales (use end_of_message_slot in \<open>auto simp: eof_step_def\<close>)

interpretation feed: slot_step "feed_filter lfsize offset l" "\<lambda>i r. slot_of i (snd r)"
  "\<lambda>f. \<not> lf_deleted f"
  "\<lambda>f sl. if offset < sl_count sl then sl else slot_line (fst l) (lf_matches f (snd l)) sl"
  "\<lambda>f. slot_fits lfsize"
  for lfsize offset l
proof unfold_locales
  fix f :: text_filter and r :: "bool \<times> filter_state"
  show "\<not> \<not> lf_deleted f \<Longrightarrow> feed_filter lfsize offset l f r = Some r"
    by (simp add: feed_filter_def)
  assume live: "\<not> lf_deleted f" and i: "lf_index f < 32"
    and g: "slot_fits lfsize (slot_of (lf_index f) (snd r))"
  show "\<exists>s'. feed_filter lfsize offset l f r = Some s'
    \<and> slot_of (lf_index f) (snd s') =
        (if offset < sl_count (slot_of (lf_index f) (snd r)) then slot_of (lf_index f) (snd r)
         else slot_line (fst l) (lf_matches f (snd l)) (slot_of (lf_index f) (snd r)))
    \<and> (\<forall>j<32. j \<noteq> lf_index f \<longrightarrow> slot_of j (snd s') = slot_of j (snd r))"
  proof (cases "offset < tfs_filter_count (snd r) (lf_index f)")
    case True
    then have "feed_filter lfsize offset l f r = Some r" by (auto simp: feed_filter_def)
    with True show ?thesis by (intro exI [of _ r]) auto
  next
    case False
    with add_line_slot [OF i, of lfsize "snd r" l] g live show ?thesis
      by (auto simp: feed_filter_def)
  qed
qed

section \<open>Messages\<close>

text \<open>Two lines are of one message if none after the first of them, up to the second, starts one.\<close>

definition same_message :: "fline list \<Rightarrow> nat \<Rightarrow> nat \<Rightarrow> bool" where
  "same_message xs j k \<longleftrightarrow> (\<forall>t \<in> {min j k<..max j k}. \<not> fst (xs ! t))"

definition message_hit :: "(string \<Rightarrow> bool) \<Rightarrow> fline list \<Rightarrow> nat \<Rightarrow> bool" where
  "message_hit m xs k \<longleftrightarrow> (\<exists>j \<in> {..<length xs}. same_message xs j k \<and> m (snd (xs ! j)))"

lemma same_message_code [code]:
  "same_message xs j k \<longleftrightarrow> list_all (\<lambda>t. \<not> fst (xs ! t)) [Suc (min j k)..<Suc (max j k)]"
proof -
  have "set [Suc (min j k)..<Suc (max j k)] = {min j k<..max j k}" by auto
  then show ?thesis by (simp only: list_all_iff same_message_def)
qed

lemma message_hit_code [code]:
  "message_hit m xs k \<longleftrightarrow> list_ex (\<lambda>j. same_message xs j k \<and> m (snd (xs ! j))) [0..<length xs]"
  by (auto simp: message_hit_def list_ex_iff)

definition hits :: "(string \<Rightarrow> bool) \<Rightarrow> fline list \<Rightarrow> nat" where
  "hits m xs = length (filter (m \<circ> snd) xs)"

text \<open>
  The slot of a filter after the lines \<open>xs\<close>: the lines of the messages before the last are marked,
  those of the last are counted.
\<close>

definition fed :: "(string \<Rightarrow> bool) \<Rightarrow> fline list \<Rightarrow> slot \<Rightarrow> bool" where
  "fed m xs sl \<longleftrightarrow>
     (let c = sl_count sl; n = length xs in
      c + sl_lines sl = n \<and> length (sl_bits sl) = n \<and> (c < n \<or> n = 0)
      \<and> (\<forall>k < c. sl_bits sl ! k \<longleftrightarrow> message_hit m xs k)
      \<and> (sl_matched sl \<longleftrightarrow> (\<exists>j. c \<le> j \<and> j < n \<and> m (snd (xs ! j))))
      \<and> sl_pending sl = hits m (drop c xs) \<and> sl_hits sl = int (hits m (take c xs))
      \<and> (\<forall>j. c < j \<and> j < n \<longrightarrow> \<not> fst (xs ! j)) \<and> (0 < c \<longrightarrow> fst (xs ! c)))"

text \<open>The slot once the last message is closed.\<close>

definition closed :: "(string \<Rightarrow> bool) \<Rightarrow> fline list \<Rightarrow> slot \<Rightarrow> bool" where
  "closed m xs sl \<longleftrightarrow>
     sl_count sl = length xs \<and> sl_lines sl = 0 \<and> length (sl_bits sl) = length xs
     \<and> (\<forall>k < length xs. sl_bits sl ! k \<longleftrightarrow> message_hit m xs k)
     \<and> \<not> sl_matched sl \<and> sl_pending sl = 0 \<and> sl_hits sl = int (hits m xs)"

lemma hits_append [simp]: "hits m (xs @ ys) = hits m xs + hits m ys"
  by (simp add: hits_def)

lemma hits_split: "hits m (take c xs) + hits m (drop c xs) = hits m xs"
  by (metis append_take_drop_id hits_append)

lemma message_hit_last:
  assumes "\<forall>j. c < j \<and> j < length xs \<longrightarrow> \<not> fst (xs ! j)" and "0 < c \<longrightarrow> fst (xs ! c)"
    and "c \<le> k" and "k < length xs"
  shows "message_hit m xs k \<longleftrightarrow> (\<exists>j. c \<le> j \<and> j < length xs \<and> m (snd (xs ! j)))"
proof
  assume "message_hit m xs k"
  then obtain j where j: "j < length xs" "same_message xs j k" "m (snd (xs ! j))"
    by (auto simp: message_hit_def)
  have "c \<le> j"
  proof (rule ccontr)
    assume "\<not> c \<le> j"
    then have "c \<in> {min j k<..max j k}" "0 < c" using assms(3) by auto
    with j(2) assms(2) show False by (auto simp: same_message_def)
  qed
  with j show "\<exists>j. c \<le> j \<and> j < length xs \<and> m (snd (xs ! j))" by blast
next
  assume "\<exists>j. c \<le> j \<and> j < length xs \<and> m (snd (xs ! j))"
  then obtain j where j: "c \<le> j" "j < length xs" "m (snd (xs ! j))" by blast
  have "same_message xs j k"
    unfolding same_message_def
  proof
    fix t
    assume "t \<in> {min j k<..max j k}"
    then have "c < t \<and> t < length xs"
      using assms(3,4) j(1,2) by (auto simp: max_def min_def split: if_splits)
    with assms(1) show "\<not> fst (xs ! t)" by blast
  qed
  with j show "message_hit m xs k" by (auto simp: message_hit_def)
qed

lemma fed_close: "fed m xs sl \<Longrightarrow> closed m xs (slot_close sl)"
proof -
  assume f: "fed m xs sl"
  let ?c = "sl_count sl"
  have len: "?c + sl_lines sl = length xs" "length (sl_bits sl) = length xs"
    using f by (simp_all add: fed_def Let_def)
  have bits: "put_bits ?c (sl_lines sl) (sl_matched sl) (sl_bits sl) ! k \<longleftrightarrow> message_hit m xs k"
    if "k < length xs" for k
  proof (cases "k < ?c")
    case True
    with f len that show ?thesis by (simp add: nth_put_bits fed_def Let_def)
  next
    case False
    with len that have "put_bits ?c (sl_lines sl) (sl_matched sl) (sl_bits sl) ! k = sl_matched sl"
      by (simp add: nth_put_bits)
    moreover have "message_hit m xs k = sl_matched sl"
      using f False that message_hit_last [of ?c xs k m] by (simp add: fed_def Let_def)
    ultimately show ?thesis by simp
  qed
  have "sl_hits sl + int (sl_pending sl) = int (hits m xs)"
    using f hits_split [of m ?c xs] by (simp add: fed_def Let_def)
  with bits len show ?thesis by (simp add: closed_def slot_close_def)
qed

text \<open>One more line: the mask grows by one, and the line starts a message or continues the last.\<close>

lemma message_hit_snoc:
  assumes "k < c" and "c \<le> length xs" and "c < length xs \<longrightarrow> fst (xs ! c)"
    and "c = length xs \<longrightarrow> fst l"
  shows "message_hit m (xs @ [l]) k = message_hit m xs k"
proof -
  have old: "same_message (xs @ [l]) j k = same_message xs j k" if "j < length xs" for j
    using assms(1,2) that unfolding same_message_def by (auto simp: nth_append)
  have "fst ((xs @ [l]) ! c)" using assms(2-4) by (auto simp: nth_append le_less)
  moreover have "c \<in> {min (length xs) k<..max (length xs) k}" using assms(1,2) by auto
  ultimately have new: "\<not> same_message (xs @ [l]) (length xs) k"
    unfolding same_message_def by blast
  show ?thesis
  proof
    assume "message_hit m (xs @ [l]) k"
    then obtain j where j: "j < Suc (length xs)" "same_message (xs @ [l]) j k"
      "m (snd ((xs @ [l]) ! j))"
      by (auto simp: message_hit_def)
    from j(2) new have "j \<noteq> length xs" by blast
    with j(1) have "j < length xs" by simp
    with j old show "message_hit m xs k" by (auto simp: message_hit_def nth_append)
  next
    assume "message_hit m xs k"
    then obtain j where "j < length xs" "same_message xs j k" "m (snd (xs ! j))"
      by (auto simp: message_hit_def)
    with old show "message_hit m (xs @ [l]) k" unfolding message_hit_def
      by (intro bexI [of _ j]) (auto simp: nth_append)
  qed
qed

definition slot_grow :: "slot \<Rightarrow> slot" where
  "slot_grow sl = sl\<lparr>sl_bits := sl_bits sl @ [False]\<rparr>"

lemma slot_close_grow:
  "sl_count sl + sl_lines sl \<le> length (sl_bits sl) \<Longrightarrow> slot_close (slot_grow sl) = slot_grow (slot_close sl)"
  by (simp add: slot_close_def slot_grow_def put_bits_def)

lemma fed_snoc:
  assumes f: "fed m xs sl"
  shows "fed m (xs @ [l]) (slot_line (fst l) (m (snd l)) (slot_grow sl))"
proof (cases "fst l")
  case True
  have "slot_close (slot_grow sl) = slot_grow (slot_close sl)"
    using f by (intro slot_close_grow) (simp add: fed_def Let_def)
  moreover have "closed m xs (slot_close sl)" using f by (rule fed_close)
  moreover define cl where "cl = slot_close sl"
  ultimately have sl: "slot_line (fst l) (m (snd l)) (slot_grow sl) = slot_line False (m (snd l)) (slot_grow cl)"
    and c: "closed m xs cl"
    using True by (simp_all add: slot_line_starts)
  have "message_hit m (xs @ [l]) k = message_hit m xs k" if "k < length xs" for k
    using that True by (intro message_hit_snoc [where c = "length xs"]) simp_all
  with c show ?thesis unfolding sl
    by (auto simp: fed_def closed_def slot_line_def slot_grow_def Let_def nth_append hits_def True)
next
  case False
  show ?thesis
  proof (cases "xs = []")
    case True
    with f False show ?thesis
      by (auto simp: fed_def slot_line_def slot_grow_def Let_def hits_def message_hit_def)
  next
    case ne: False
    let ?c = "sl_count sl"
    have c: "?c < length xs" "0 < ?c \<longrightarrow> fst (xs ! ?c)"
      using f ne by (auto simp: fed_def Let_def)
    have hit: "message_hit m (xs @ [l]) k = message_hit m xs k" if "k < ?c" for k
      using that c by (intro message_hit_snoc [where c = ?c]) auto
    have ex: "(\<exists>j. ?c \<le> j \<and> j < Suc (length xs) \<and> m (snd ((xs @ [l]) ! j))) \<longleftrightarrow>
        (\<exists>j. ?c \<le> j \<and> j < length xs \<and> m (snd (xs ! j))) \<or> m (snd l)"
    proof
      assume "\<exists>j. ?c \<le> j \<and> j < Suc (length xs) \<and> m (snd ((xs @ [l]) ! j))"
      then obtain j where j: "?c \<le> j" "j < Suc (length xs)" "m (snd ((xs @ [l]) ! j))" by blast
      then show "(\<exists>j. ?c \<le> j \<and> j < length xs \<and> m (snd (xs ! j))) \<or> m (snd l)"
        by (cases "j = length xs") (auto simp: nth_append)
    next
      assume "(\<exists>j. ?c \<le> j \<and> j < length xs \<and> m (snd (xs ! j))) \<or> m (snd l)"
      then show "\<exists>j. ?c \<le> j \<and> j < Suc (length xs) \<and> m (snd ((xs @ [l]) ! j))"
      proof (elim disjE exE conjE)
        fix j assume "?c \<le> j" "j < length xs" "m (snd (xs ! j))"
        then show ?thesis by (intro exI [of _ j]) (simp add: nth_append)
      next
        assume "m (snd l)"
        then show ?thesis using c(1) by (intro exI [of _ "length xs"]) simp
      qed
    qed
    let ?sl = "slot_line (fst l) (m (snd l)) (slot_grow sl)"
    have new: "sl_count ?sl = ?c" "sl_lines ?sl = sl_lines sl + 1" "sl_bits ?sl = sl_bits sl @ [False]"
      "sl_matched ?sl = (sl_matched sl \<or> m (snd l))" "sl_hits ?sl = sl_hits sl"
      "sl_pending ?sl = sl_pending sl + hits m [l]"
      using False by (simp_all add: slot_line_def slot_grow_def hits_def)
    have bits: "\<forall>k < ?c. (sl_bits sl @ [False]) ! k = message_hit m (xs @ [l]) k"
      using f hit c(1) by (simp add: fed_def Let_def nth_append)
    have cont: "\<forall>j. ?c < j \<and> j < Suc (length xs) \<longrightarrow> \<not> fst ((xs @ [l]) ! j)"
      using f False by (auto simp: fed_def Let_def nth_append less_Suc_eq)
    have F: "?c + sl_lines sl = length xs" "length (sl_bits sl) = length xs"
      "sl_matched sl \<longleftrightarrow> (\<exists>j. ?c \<le> j \<and> j < length xs \<and> m (snd (xs ! j)))"
      "sl_pending sl = hits m (drop ?c xs)" "sl_hits sl = int (hits m (take ?c xs))"
      using f unfolding fed_def Let_def by blast+
    have dt: "drop ?c (xs @ [l]) = drop ?c xs @ [l]" "take ?c (xs @ [l]) = take ?c xs"
      "0 < ?c \<longrightarrow> fst ((xs @ [l]) ! ?c)"
      using c by (simp_all add: nth_append)
    show ?thesis
      unfolding fed_def Let_def new length_append_singleton dt(1,2) hits_append
      using bits cont dt(3) c(1) F(1,2,4,5) ex F(3) by (intro conjI) simp_all
  qed
qed


section \<open>The observer marks messages\<close>

text \<open>The filters that count have different indexes below 32 (\<open>next_index\<close>).\<close>

definition stack_ok :: "filter_stack \<Rightarrow> bool" where
  "stack_ok fs \<longleftrightarrow> distinct (map lf_index (filter (\<lambda>f. \<not> lf_deleted f) (fs_filters fs)))
     \<and> (\<forall>f\<in>set (fs_filters fs). lf_index f < 32)"

text \<open>The calls a log file makes while it grows from \<open>n\<close> lines, one line at a time.\<close>

fun observe_from :: "filter_stack \<Rightarrow> nat \<Rightarrow> fline list \<Rightarrow> filter_state \<Rightarrow> filter_state option" where
  "observe_from fs n [] s = Some s"
| "observe_from fs n (l # ls) s =
    (case logline_new_lines fs (Suc n) n [l] s of
       Some (_, s') \<Rightarrow> observe_from fs (Suc n) ls s' | None \<Rightarrow> None)"

definition all_fed :: "filter_stack \<Rightarrow> fline list \<Rightarrow> filter_state \<Rightarrow> bool" where
  "all_fed fs xs s \<longleftrightarrow>
     (\<forall>f\<in>set (fs_filters fs). \<not> lf_deleted f \<longrightarrow> fed (lf_matches f) xs (slot_of (lf_index f) s))
     \<and> length (tfs_mask s) = length xs"

lemma slot_of_resize:
  "length (tfs_mask s) = n \<Longrightarrow> slot_of i (tfs_resize (Suc n) s) = slot_grow (slot_of i s)"
  by (simp add: slot_of_def slot_grow_def tfs_resize_def)

lemma mark_lines_length: "mark_lines n i k s = Some s' \<Longrightarrow> length (tfs_mask s') = length (tfs_mask s)"
  by (induction n i k s rule: mark_lines.induct) (auto simp: Let_def split: if_splits)

lemma end_of_message_length:
  "end_of_message n f s = Some s' \<Longrightarrow> length (tfs_mask s') = length (tfs_mask s)"
  by (auto simp: end_of_message_def close_message_def dest: mark_lines_length)

lemma add_line_length: "add_line n f l s = Some (b, s') \<Longrightarrow> length (tfs_mask s') = length (tfs_mask s)"
  by (auto simp: add_line_def count_line_def dest: end_of_message_length split: if_splits)

lemma feed_filters_length:
  "ofold (feed_filter n off l) fs r = Some r' \<Longrightarrow> length (tfs_mask (snd r')) = length (tfs_mask (snd r))"
proof (induction fs arbitrary: r)
  case (Cons f fs)
  then show ?case
    by (auto simp: feed_filter_def dest!: add_line_length split: if_splits option.splits)
qed simp

lemma new_line_fed:
  assumes "stack_ok fs" and "fs_filters fs \<noteq> []" and "all_fed fs xs s"
  shows "\<exists>b s'. logline_new_lines fs (Suc (length xs)) (length xs) [l] s = Some (b, s')
    \<and> all_fed fs (xs @ [l]) s'"
proof -
  let ?n = "length xs" and ?s = "tfs_resize (Suc (length xs)) s"
  have grow: "slot_of i ?s = slot_grow (slot_of i s)" for i
    using assms(3) by (intro slot_of_resize) (simp add: all_fed_def)
  have fits: "slot_fits (Suc ?n) (slot_of (lf_index f) ?s)" "\<not> ?n < sl_count (slot_of (lf_index f) ?s)"
    if "f \<in> set (fs_filters fs)" "\<not> lf_deleted f" for f
  proof -
    have "fed (lf_matches f) xs (slot_of (lf_index f) s)"
      using that assms(3) by (simp add: all_fed_def)
    then show "slot_fits (Suc ?n) (slot_of (lf_index f) ?s)" "\<not> ?n < sl_count (slot_of (lf_index f) ?s)"
      unfolding grow by (simp_all add: fed_def slot_fits_def slot_grow_def Let_def)
  qed
  obtain r where r: "ofold (feed_filter (Suc ?n) ?n l) (fs_filters fs) (False, ?s) = Some r"
    "\<forall>f\<in>set (fs_filters fs). \<not> lf_deleted f \<longrightarrow> slot_of (lf_index f) (snd r) =
       slot_line (fst l) (lf_matches f (snd l)) (slot_of (lf_index f) ?s)"
    using feed.all_slots [of "fs_filters fs" "Suc ?n" "(False, ?s)" ?n l] assms(1) fits
    by (auto simp: stack_ok_def)
  have "length (tfs_mask (snd r)) = Suc ?n"
    using feed_filters_length [OF r(1)] assms(3) by (simp add: tfs_resize_def all_fed_def)
  then have "all_fed fs (xs @ [l]) (snd r)"
    using r(2) assms(3) fed_snoc by (auto simp: all_fed_def grow)
  with r(1) assms(2) show ?thesis
    by (cases r) (simp add: logline_new_lines_def Let_def)
qed

lemma observe_fed:
  assumes "stack_ok fs" and "fs_filters fs \<noteq> []" and "all_fed fs xs s"
  shows "\<exists>s'. observe_from fs (length xs) ls s = Some s' \<and> all_fed fs (xs @ ls) s'"
  using assms(3)
proof (induction ls arbitrary: xs s)
  case Nil
  then show ?case by simp
next
  case (Cons l ls)
  from new_line_fed [OF assms(1,2) Cons.prems, of l] obtain b s1 where
    s1: "logline_new_lines fs (Suc (length xs)) (length xs) [l] s = Some (b, s1)"
    "all_fed fs (xs @ [l]) s1" by blast
  from Cons.IH [OF s1(2)] s1(1) show ?case by simp
qed

lemma fed_Nil: "fed m [] (slot_of i (filter_state_init junk))"
  by (simp add: fed_def slot_of_def filter_state_init_def hits_def)

lemma marked_messages:
  assumes "stack_ok fs" and "f \<in> set (fs_filters fs)" and "\<not> lf_deleted f"
  shows "\<exists>s s'. observe_from fs 0 lines (filter_state_init junk) = Some s
    \<and> logline_eof fs (length lines) s = Some s'
    \<and> length (tfs_mask s') = length lines
    \<and> (\<forall>k < length lines. bit (tfs_mask s' ! k) (lf_index f) = message_hit (lf_matches f) lines k)
    \<and> tfs_filter_hits s' (lf_index f) = int (hits (lf_matches f) lines)"
proof -
  have ne: "fs_filters fs \<noteq> []" using assms(2) by auto
  have "all_fed fs [] (filter_state_init junk)"
    by (simp add: all_fed_def fed_Nil) (simp add: filter_state_init_def)
  from observe_fed [OF assms(1) ne this, of lines] obtain s where
    s: "observe_from fs 0 lines (filter_state_init junk) = Some s" "all_fed fs lines s" by auto
  have fits: "slot_fits (length lines) (slot_of (lf_index g) s)"
    if "g \<in> set (fs_filters fs)" "\<not> lf_deleted g" for g
    using s(2) that unfolding all_fed_def fed_def slot_fits_def Let_def by fastforce
  obtain s' where s': "ofold (eof_step (length lines)) (fs_filters fs) s = Some s'"
    "slot_of (lf_index f) s' = slot_close (slot_of (lf_index f) s)"
    using eof.all_slots [of "fs_filters fs" "length lines" s] assms fits by (auto simp: stack_ok_def)
  have "closed (lf_matches f) lines (slot_of (lf_index f) s')"
    using s(2) assms(2,3) fed_close by (simp add: s'(2) all_fed_def)
  moreover have "logline_eof fs (length lines) s = Some s'"
    using s'(1) by (simp add: logline_eof_def eof_step_def [abs_def])
  ultimately show ?thesis using s(1) by (auto simp: closed_def)
qed

text \<open>
  C35: after a file is read line by line and closed, every filter's bit of a line's mask says whether
  a line of the same message matches, its hits are the lines that match, and no assertion failed.
\<close>

theorem filters_mark_messages:
  assumes "stack_ok fs" and "f \<in> set (fs_filters fs)" and "\<not> lf_deleted f"
  shows "\<exists>s s'. observe_from fs 0 lines (filter_state_init junk) = Some s
    \<and> logline_eof fs (length lines) s = Some s'
    \<and> length (tfs_mask s') = length lines
    \<and> (\<forall>k < length lines. bit (tfs_mask s' ! k) (lf_index f) = message_hit (lf_matches f) lines k)
    \<and> tfs_filter_hits s' (lf_index f) = int (hits (lf_matches f) lines)"
  using marked_messages [OF assms] .

definition two_filters :: filter_stack where
  "two_filters = \<lparr>fs_generation = 0, fs_reserved = 0, fs_filters =
     [\<lparr>lf_deleted = False, lf_enabled = True, lf_type = INCLUDE, lf_lang = REGEX, lf_id = ''a'',
       lf_index = 0, lf_matches = (\<lambda>t. CHR ''a'' \<in> set t)\<rparr>,
      \<lparr>lf_deleted = False, lf_enabled = True, lf_type = EXCLUDE, lf_lang = REGEX, lf_id = ''b'',
       lf_index = 1, lf_matches = (\<lambda>t. CHR ''b'' \<in> set t)\<rparr>]\<rparr>"

lemma two_filters_ok: "stack_ok two_filters"
  by (simp add: stack_ok_def two_filters_def)

theorem filters_mark_messages_witness:
  "\<exists>s s'. observe_from two_filters 0 [(True, ''x''), (False, ''a''), (True, ''b'')]
        (filter_state_init (\<lambda>_. 7)) = Some s
    \<and> logline_eof two_filters 3 s = Some s' \<and> bit (tfs_mask s' ! 0) 0 \<and> \<not> bit (tfs_mask s' ! 2) 0
    \<and> tfs_filter_hits s' 0 = 1"
proof -
  let ?xs = "[(True, ''x''), (False, ''a''), (True, ''b'')]" and ?f = "fs_filters two_filters ! 0"
  have f: "?f \<in> set (fs_filters two_filters)" "\<not> lf_deleted ?f" by (simp_all add: two_filters_def)
  have m: "lf_index ?f = 0" "lf_matches ?f = (\<lambda>t. CHR ''a'' \<in> set t)"
    by (simp_all add: two_filters_def)
  obtain s s' where s: "observe_from two_filters 0 ?xs (filter_state_init (\<lambda>_. 7)) = Some s"
    "logline_eof two_filters (length ?xs) s = Some s'"
    "\<forall>k < length ?xs. bit (tfs_mask s' ! k) (lf_index ?f) = message_hit (lf_matches ?f) ?xs k"
    "tfs_filter_hits s' (lf_index ?f) = int (hits (lf_matches ?f) ?xs)"
    using filters_mark_messages [OF two_filters_ok f, of ?xs "\<lambda>_. 7"] by blast
  have "message_hit (\<lambda>t. CHR ''a'' \<in> set t) ?xs 0" "\<not> message_hit (\<lambda>t. CHR ''a'' \<in> set t) ?xs 2"
    "hits (\<lambda>t. CHR ''a'' \<in> set t) ?xs = 1"
    by code_simp+
  with s(3,4) m have "bit (tfs_mask s' ! 0) 0" "\<not> bit (tfs_mask s' ! 2) 0" "tfs_filter_hits s' 0 = 1"
    by simp_all
  moreover have "length ?xs = 3" by simp
  ultimately show ?thesis using s(1,2) by metis
qed

section \<open>Which lines are hidden\<close>

definition active :: "filter_type \<Rightarrow> filter_stack \<Rightarrow> text_filter set" where
  "active t fs = {f \<in> set (fs_filters fs). \<not> lf_deleted f \<and> lf_enabled f \<and> lf_type f = t}"

definition mask_for :: "filter_type \<Rightarrow> enabled_masks \<Rightarrow> 32 word" where
  "mask_for t m = (case t of INCLUDE \<Rightarrow> filter_in_mask m | INCLUDE_AND \<Rightarrow> filter_in_and_mask m
     | EXCLUDE \<Rightarrow> filter_out_mask m | EXCLUDE_AND \<Rightarrow> filter_out_and_mask m)"

lemma bit_add_to_masks:
  "j < 32 \<Longrightarrow> lf_index f < 32 \<Longrightarrow> bit (mask_for t (add_to_masks f m)) j \<longleftrightarrow>
     bit (mask_for t m) j
     \<or> \<not> lf_deleted f \<and> lf_enabled f \<and> lf_type f = t \<and> lf_index f = j"
  by (cases t; cases "lf_type f")
    (auto simp: mask_for_def add_to_masks_def bit_or_iff bit_filter_bit)

lemma bit_masks_fold:
  "j < 32 \<Longrightarrow> \<forall>f\<in>set fs. lf_index f < 32 \<Longrightarrow> bit (mask_for t (fold add_to_masks fs m)) j \<longleftrightarrow>
     bit (mask_for t m) j
     \<or> (\<exists>f\<in>set fs. \<not> lf_deleted f \<and> lf_enabled f \<and> lf_type f = t \<and> lf_index f = j)"
  by (induction fs arbitrary: m) (auto simp: bit_add_to_masks)

lemma bit_enabled_mask:
  assumes "j < 32" and "\<forall>f\<in>set (fs_filters fs). lf_index f < 32"
  shows "bit (mask_for t (get_enabled_mask fs)) j \<longleftrightarrow> (\<exists>f\<in>active t fs. lf_index f = j)"
  using bit_masks_fold [OF assms, of t "\<lparr>filter_in_mask = 0, filter_out_mask = 0,
      filter_in_and_mask = 0, filter_out_and_mask = 0\<rparr>"]
  by (auto simp: get_enabled_mask_def active_def mask_for_def split: filter_type.splits)

lemma word_zero_iff: "(w :: 32 word) = 0 \<longleftrightarrow> (\<forall>j<32. \<not> bit w j)"
  by (auto simp: bit_eq_iff possible_bit_def)

lemma word_and_iff: "and w m = (m :: 32 word) \<longleftrightarrow> (\<forall>j<32. bit m j \<longrightarrow> bit w j)"
  by (auto simp: bit_eq_iff bit_and_iff possible_bit_def)

lemma masks_as_filters:
  assumes "\<forall>f\<in>set (fs_filters fs). lf_index f < 32"
  shows "mask_for t (get_enabled_mask fs) = 0 \<longleftrightarrow> active t fs = {}"
    and "and w (mask_for t (get_enabled_mask fs)) = 0 \<longleftrightarrow> (\<forall>f\<in>active t fs. \<not> bit w (lf_index f))"
    and "and w (mask_for t (get_enabled_mask fs)) = mask_for t (get_enabled_mask fs) \<longleftrightarrow>
      (\<forall>f\<in>active t fs. bit w (lf_index f))"
proof -
  note b = bit_enabled_mask [OF _ assms]
  have lt: "lf_index f < 32" if "f \<in> active t fs" for f using that assms by (simp add: active_def)
  show "mask_for t (get_enabled_mask fs) = 0 \<longleftrightarrow> active t fs = {}"
    unfolding word_zero_iff using b lt by blast
  show "and w (mask_for t (get_enabled_mask fs)) = 0 \<longleftrightarrow> (\<forall>f\<in>active t fs. \<not> bit w (lf_index f))"
    unfolding word_zero_iff bit_and_iff using b lt by blast
  show "and w (mask_for t (get_enabled_mask fs)) = mask_for t (get_enabled_mask fs) \<longleftrightarrow>
      (\<forall>f\<in>active t fs. bit w (lf_index f))"
    unfolding word_and_iff using b lt by blast
qed

lemma excluded_iff:
  assumes "\<forall>f\<in>set (fs_filters fs). lf_index f < 32"
  shows "excluded (get_enabled_mask fs) k s \<longleftrightarrow>
    (let B = (\<lambda>f. bit (tfs_mask s ! k) (lf_index f)) in
      active INCLUDE fs \<noteq> {} \<and> (\<forall>f\<in>active INCLUDE fs. \<not> B f)
      \<or> (\<exists>f\<in>active INCLUDE_AND fs. \<not> B f)
      \<or> (\<exists>f\<in>active EXCLUDE fs. B f)
      \<or> active EXCLUDE_AND fs \<noteq> {} \<and> (\<forall>f\<in>active EXCLUDE_AND fs. B f))"
proof -
  have m: "filter_in_mask m = mask_for INCLUDE m" "filter_in_and_mask m = mask_for INCLUDE_AND m"
    "filter_out_mask m = mask_for EXCLUDE m" "filter_out_and_mask m = mask_for EXCLUDE_AND m" for m
    by (simp_all add: mask_for_def)
  show ?thesis unfolding excluded_def Let_def m masks_as_filters [OF assms] by blast
qed

text \<open>
  C36: with filters in effect, a line of a file that was read is hidden exactly if there are
  include filters and none matches its message, an include-and filter does not match, an exclude
  filter matches, or there are exclude-and filters and all match.
\<close>

theorem line_hidden:
  assumes "stack_ok fs" and "observe_from fs 0 lines (filter_state_init junk) = Some s"
    and "logline_eof fs (length lines) s = Some s'" and "k < length lines"
  shows "excluded (get_enabled_mask fs) k s' \<longleftrightarrow>
    (let hit = (\<lambda>f. message_hit (lf_matches f) lines k) in
      active INCLUDE fs \<noteq> {} \<and> (\<forall>f\<in>active INCLUDE fs. \<not> hit f)
      \<or> (\<exists>f\<in>active INCLUDE_AND fs. \<not> hit f)
      \<or> (\<exists>f\<in>active EXCLUDE fs. hit f)
      \<or> active EXCLUDE_AND fs \<noteq> {} \<and> (\<forall>f\<in>active EXCLUDE_AND fs. hit f))"
proof -
  have "bit (tfs_mask s' ! k) (lf_index f) = message_hit (lf_matches f) lines k"
    if "f \<in> active t fs" for f t
    using marked_messages [OF assms(1), of f lines junk] that assms(2-4) by (auto simp: active_def)
  then show ?thesis
    using assms(1) by (simp add: excluded_iff stack_ok_def Let_def cong: conj_cong ball_cong bex_cong)
qed

theorem line_hidden_witness:
  "\<exists>s s'. observe_from two_filters 0 [(True, ''x''), (False, ''a''), (True, ''b'')]
        (filter_state_init (\<lambda>_. 7)) = Some s
    \<and> logline_eof two_filters 3 s = Some s'
    \<and> \<not> excluded (get_enabled_mask two_filters) 0 s' \<and> excluded (get_enabled_mask two_filters) 2 s'"
proof -
  let ?xs = "[(True, ''x''), (False, ''a''), (True, ''b'')]" and ?f = "fs_filters two_filters ! 0"
  have f: "?f \<in> set (fs_filters two_filters)" "\<not> lf_deleted ?f" by (simp_all add: two_filters_def)
  obtain s s' where s: "observe_from two_filters 0 ?xs (filter_state_init (\<lambda>_. 7)) = Some s"
    "logline_eof two_filters (length ?xs) s = Some s'"
    using marked_messages [OF two_filters_ok f, of ?xs "\<lambda>_. 7"] by blast
  have act: "active INCLUDE two_filters = {fs_filters two_filters ! 0}"
    "active EXCLUDE two_filters = {fs_filters two_filters ! Suc 0}"
    "active INCLUDE_AND two_filters = {}" "active EXCLUDE_AND two_filters = {}"
    by (auto simp: active_def two_filters_def)
  have mt: "lf_matches (fs_filters two_filters ! 0) = (\<lambda>t. CHR ''a'' \<in> set t)"
    "lf_matches (fs_filters two_filters ! Suc 0) = (\<lambda>t. CHR ''b'' \<in> set t)"
    by (simp_all add: two_filters_def)
  have "message_hit (\<lambda>t. CHR ''a'' \<in> set t) ?xs 0" by code_simp
  moreover have "\<not> message_hit (\<lambda>t. CHR ''b'' \<in> set t) ?xs 0" by code_simp
  moreover have "message_hit (\<lambda>t. CHR ''b'' \<in> set t) ?xs 2" by code_simp
  ultimately have "\<not> excluded (get_enabled_mask two_filters) 0 s'" "excluded (get_enabled_mask two_filters) 2 s'"
    using line_hidden [OF two_filters_ok s] by (simp_all add: act mt)
  moreover have "length ?xs = 3" by simp
  ultimately show ?thesis using s by metis
qed

end
