(* ===== verification/Filter_Stack.thy ===== *)
theory Filter_Stack
  imports Filter_Spec
begin

text \<open>
  The stack of filters keeps the indexes apart that the filter states rely on, and what the other
  operations of a filter state do to a slot: reverting the last message when a file grows, dropping
  the slots of deleted filters, and looking up a line of the file in the list of visible lines.
\<close>

section \<open>Indexes\<close>

lemma mark_used_spec:
  assumes "\<forall>f\<in>set fs. lf_index f < length used"
    and "distinct (map lf_index (filter (\<lambda>f. \<not> lf_deleted f) fs))"
    and "\<forall>f\<in>set fs. \<not> lf_deleted f \<longrightarrow> \<not> used ! lf_index f"
  shows "\<exists>used'. mark_used fs used = Some used' \<and> length used' = length used
    \<and> (\<forall>k < length used. used' ! k \<longleftrightarrow> used ! k \<or> (\<exists>f\<in>set fs. \<not> lf_deleted f \<and> lf_index f = k))"
  using assms
proof (induction fs arbitrary: used)
  case Nil
  then show ?case by simp
next
  case (Cons f fs)
  show ?case
  proof (cases "lf_deleted f")
    case True
    with Cons show ?thesis by auto
  next
    case False
    let ?u = "used[lf_index f := True]"
    have "\<not> ?u ! lf_index g" if "g \<in> set fs" "\<not> lf_deleted g" for g
    proof -
      have "lf_index f \<notin> lf_index ` set (filter (\<lambda>f. \<not> lf_deleted f) fs)"
        using Cons.prems(2) False by simp
      moreover have "g \<in> set (filter (\<lambda>f. \<not> lf_deleted f) fs)" using that by simp
      ultimately have "lf_index g \<noteq> lf_index f" by (metis imageI)
      with Cons.prems(3) that show ?thesis by simp
    qed
    with Cons.prems False obtain used' where "mark_used fs ?u = Some used'" "length used' = length used"
      "\<forall>k < length used. used' ! k \<longleftrightarrow> ?u ! k \<or> (\<exists>f\<in>set fs. \<not> lf_deleted f \<and> lf_index f = k)"
      using Cons.IH [of ?u] by auto
    with Cons.prems False show ?thesis by (auto simp: nth_list_update)
  qed
qed

definition live_indexes :: "filter_stack \<Rightarrow> nat set" where
  "live_indexes fs = lf_index ` set (filter (\<lambda>f. \<not> lf_deleted f) (fs_filters fs))"

lemma next_index_spec:
  assumes "stack_ok fs"
  shows "\<exists>r. next_index fs = Some r
    \<and> (case r of
         Some i \<Rightarrow> fs_reserved fs \<le> i \<and> i < MAX_FILTERS \<and> i \<notin> live_indexes fs
           \<and> (\<forall>j. fs_reserved fs \<le> j \<and> j < i \<longrightarrow> j \<in> live_indexes fs)
       | None \<Rightarrow> \<forall>j. fs_reserved fs \<le> j \<and> j < MAX_FILTERS \<longrightarrow> j \<in> live_indexes fs)"
proof -
  from mark_used_spec [of "fs_filters fs" "replicate MAX_FILTERS False"] assms
  obtain used where u: "mark_used (fs_filters fs) (replicate MAX_FILTERS False) = Some used"
    "length used = MAX_FILTERS"
    "\<forall>k < MAX_FILTERS. used ! k \<longleftrightarrow> (\<exists>f\<in>set (fs_filters fs). \<not> lf_deleted f \<and> lf_index f = k)"
    by (auto simp: stack_ok_def MAX_FILTERS_def)
  have used: "used ! k \<longleftrightarrow> k \<in> live_indexes fs" if "k < MAX_FILTERS" for k
    using u(3) that by (auto simp: live_indexes_def)
  let ?l = "[fs_reserved fs..<MAX_FILTERS]"
  show ?thesis
  proof (cases "find (\<lambda>lpc. \<not> used ! lpc) ?l")
    case None
    then have "\<forall>j. fs_reserved fs \<le> j \<and> j < MAX_FILTERS \<longrightarrow> used ! j" by (simp add: find_None_iff)
    with used u(1) None show ?thesis by (simp add: next_index_def)
  next
    case (Some i)
    then obtain k where k: "k < length ?l" "i = ?l ! k" "\<not> used ! i" "\<forall>j<k. used ! (?l ! j)"
      by (auto simp: find_Some_iff)
    have i: "fs_reserved fs \<le> i" "i < MAX_FILTERS" "k = i - fs_reserved fs" using k(1,2) by auto
    have "used ! j" if "fs_reserved fs \<le> j" "j < i" for j
      using k(4) [rule_format, of "j - fs_reserved fs"] that i by simp
    with used i k(3) u(1) Some show ?thesis by (auto simp: next_index_def)
  qed
qed

text \<open>
  The index of a new filter is the lowest that no filter in use has, there is none exactly if
  all are taken, the assertion of \<open>next_index\<close> holds, and adding the filter under it keeps the
  indexes apart.
\<close>

theorem next_index_keeps_stack_ok:
  assumes "stack_ok fs"
  shows "\<exists>r. next_index fs = Some r
    \<and> (case r of
         Some i \<Rightarrow> i \<notin> live_indexes fs \<and> fs_reserved fs \<le> i
           \<and> (\<forall>j. fs_reserved fs \<le> j \<and> j < i \<longrightarrow> j \<in> live_indexes fs)
           \<and> (\<forall>f. lf_index f = i \<longrightarrow> stack_ok (add_filter f fs))
       | None \<Rightarrow> {fs_reserved fs..<MAX_FILTERS} \<subseteq> live_indexes fs)"
proof -
  have "stack_ok (add_filter f fs)" if "lf_index f \<notin> live_indexes fs" "lf_index f < MAX_FILTERS" for f
    using assms that by (auto simp: stack_ok_def add_filter_def live_indexes_def MAX_FILTERS_def)
  with next_index_spec [OF assms] show ?thesis by (auto split: option.splits)
qed

theorem next_index_keeps_stack_ok_witness:
  "next_index two_filters = Some (Some 2) \<and>
   stack_ok (add_filter ((fs_filters two_filters ! 0)\<lparr>lf_index := 2\<rparr>) two_filters)"
proof -
  have n: "next_index two_filters = Some (Some 2)" by code_simp
  with next_index_keeps_stack_ok [OF two_filters_ok] show ?thesis by auto
qed

lemma set_erase_first: "set (erase_first i fs) \<subseteq> set fs"
  by (induction fs) auto

lemma distinct_erase_first:
  "distinct (map h (filter P fs)) \<Longrightarrow> distinct (map h (filter P (erase_first i fs)))"
  by (induction fs) (auto dest: subsetD [OF set_erase_first])

lemma delete_filter_stack_ok: "stack_ok fs \<Longrightarrow> stack_ok (snd (delete_filter i fs))"
  by (auto simp: stack_ok_def delete_filter_def dest: subsetD [OF set_erase_first]
      intro: distinct_erase_first)

section \<open>Reverting the last message\<close>

text \<open>
  When a file grows, its last line is read again, so the filters give back the message they closed
  last. On a slot:
\<close>

definition slot_revert :: "nat \<Rightarrow> slot \<Rightarrow> slot" where
  "slot_revert rollback_size sl =
    (let n = sl_last_lines sl; c = sl_count sl - n; lines = n - rollback_size
     in sl\<lparr>sl_bits := put_bits c n False (sl_bits sl), sl_count := c,
           sl_hits := sl_hits sl - (if sl_last_matched sl then int n else 0),
           sl_lines := lines, sl_matched := sl_last_matched sl \<and> lines \<noteq> 0,
           sl_pending := sl_last_hits sl\<rparr>)"

lemma unmark_lines_slot:
  assumes "i < 32"
  shows "n \<le> tfs_filter_count s i \<Longrightarrow> tfs_filter_count s i \<le> length (tfs_mask s) \<Longrightarrow>
    slot_of i (unmark_lines i n s) = (slot_of i s)
      \<lparr>sl_bits := put_bits (tfs_filter_count s i - n) n False (sl_bits (slot_of i s)),
       sl_count := tfs_filter_count s i - n,
       sl_hits := tfs_filter_hits s i - (if tfs_message_matched s i then int n else 0)\<rparr>
    \<and> (\<forall>j<32. j \<noteq> i \<longrightarrow> slot_of j (unmark_lines i n s) = slot_of j s)"
proof (induction n arbitrary: s)
  case 0
  then show ?case by (simp add: slot_of_def)
next
  case (Suc n)
  let ?c = "tfs_filter_count s i - 1"
  let ?g = "\<lambda>w. and w (not (filter_bit i))"
  let ?h = "if tfs_message_matched s i then tfs_filter_hits s i - 1 else tfs_filter_hits s i"
  let ?s = "s\<lparr>tfs_filter_hits := (tfs_filter_hits s)(i := ?h),
      tfs_filter_count := (tfs_filter_count s)(i := ?c),
      tfs_mask := (tfs_mask s)[?c := ?g (tfs_mask s ! ?c)]\<rparr>"
  have step: "unmark_lines i (Suc n) s = unmark_lines i n ?s"
    by (simp add: Let_def)
  have g: "bit (?g w) j = (if j = i then False else bit w j)" if "j < 32" for w j
    using bit_unmark [OF that assms, of w] by simp
  have c: "?c < length (tfs_mask s)" using Suc.prems by simp
  have own: "sl_bits (slot_of i ?s) = (sl_bits (slot_of i s))[?c := False]"
    using bits_update [where g = ?g and j = i and i = i and b = False, OF _ c] g [OF assms] by simp
  have other: "slot_of j ?s = slot_of j s" if "j < 32" "j \<noteq> i" for j
    using bits_update [where g = ?g and j = j and i = i and b = False, OF _ c] g [OF that(1)] that(2)
    by (simp add: slot_of_def)
  note IH = Suc.IH [of ?s]
  have "put_bits (?c - n) n False ((sl_bits (slot_of i s))[?c := False])
      = put_bits (?c - n) (Suc n) False (sl_bits (slot_of i s))"
    using Suc.prems by (subst put_bits_Suc_end) simp_all
  moreover have "?c - n = tfs_filter_count s i - Suc n" by simp
  ultimately show ?case unfolding step using IH Suc.prems own other
    by (auto simp: slot_of_def)
qed

lemma revert_to_last_slot:
  assumes i: "lf_index f < 32" and "tfs_lines_for_message s (lf_index f) = 0"
    and n: "tfs_last_lines_for_message s (lf_index f) \<le> tfs_filter_count s (lf_index f)"
    and c: "tfs_filter_count s (lf_index f) \<le> length (tfs_mask s)"
    and r: "0 < tfs_last_lines_for_message s (lf_index f) \<longrightarrow>
      rollback_size \<le> tfs_last_lines_for_message s (lf_index f)"
  shows "\<exists>s'. revert_to_last f rollback_size s = Some s'
    \<and> slot_of (lf_index f) s' = slot_revert rollback_size (slot_of (lf_index f) s)
    \<and> (\<forall>j<32. j \<noteq> lf_index f \<longrightarrow> slot_of j s' = slot_of j s)"
proof -
  let ?i = "lf_index f"
  let ?n = "tfs_last_lines_for_message s ?i"
  define s1 where "s1 = s\<lparr>tfs_message_matched := (tfs_message_matched s)(?i := tfs_last_message_matched s ?i),
      tfs_lines_for_message := (tfs_lines_for_message s)(?i := ?n),
      tfs_hits_for_message := (tfs_hits_for_message s)(?i := tfs_last_hits_for_message s ?i)\<rparr>"
  define s2 where "s2 = unmark_lines ?i ?n s1"
  have u: "slot_of ?i s2 = (slot_of ?i s1)
      \<lparr>sl_bits := put_bits (tfs_filter_count s ?i - ?n) ?n False (sl_bits (slot_of ?i s)),
       sl_count := tfs_filter_count s ?i - ?n,
       sl_hits := tfs_filter_hits s ?i - (if tfs_last_message_matched s ?i then int ?n else 0)\<rparr>"
    "\<forall>j<32. j \<noteq> ?i \<longrightarrow> slot_of j s2 = slot_of j s1"
    using unmark_lines_slot [OF i, of ?n s1] n c unfolding s2_def by (simp_all add: s1_def)
  have o: "slot_of j s1 = slot_of j s" if "j \<noteq> ?i" for j
    using that by (simp add: s1_def slot_of_def)
  have m: "tfs_message_matched s2 ?i = tfs_last_message_matched s ?i"
    using arg_cong [OF u(1), of sl_matched] by (simp add: s1_def)
  let ?s3 = "s2\<lparr>tfs_lines_for_message := (tfs_lines_for_message s2)(?i := ?n - rollback_size),
      tfs_message_matched := (tfs_message_matched s2)
        (?i := tfs_message_matched s2 ?i \<and> ?n - rollback_size \<noteq> 0)\<rparr>"
  have "revert_to_last f rollback_size s = Some ?s3"
    unfolding revert_to_last_def Let_def s1_def [symmetric] s2_def [symmetric]
    using assms(2) r by (simp only: if_False) auto
  moreover have "slot_of ?i ?s3 = slot_revert rollback_size (slot_of ?i s)"
    using u(1) m by (simp add: slot_of_def slot_revert_def Let_def s1_def not_le)
  moreover have "\<forall>j<32. j \<noteq> ?i \<longrightarrow> slot_of j ?s3 = slot_of j s"
    using u(2) o by (simp add: slot_of_def)
  ultimately show ?thesis by blast
qed


text \<open>
  Reverting the whole last message of a filter takes the lines of that message, and no others,
  back out of its part of the masks and its count, so that they can be read again.
\<close>

theorem revert_undoes_message:
  assumes "lf_index f < 32" and "slot_fits lfsize (slot_of (lf_index f) s)"
    and "end_of_message lfsize f s = Some s1"
  shows "\<exists>s2. revert_to_last f (tfs_lines_for_message s (lf_index f)) s1 = Some s2
    \<and> tfs_filter_count s2 (lf_index f) = tfs_filter_count s (lf_index f)
    \<and> tfs_lines_for_message s2 (lf_index f) = 0 \<and> \<not> tfs_message_matched s2 (lf_index f)
    \<and> (\<forall>k < length (tfs_mask s). \<forall>j<32. bit (tfs_mask s2 ! k) j =
        (bit (tfs_mask s ! k) j
         \<and> \<not> (j = lf_index f \<and> tfs_filter_count s j \<le> k
              \<and> k < tfs_filter_count s j + tfs_lines_for_message s j)))"
proof -
  let ?i = "lf_index f"
  let ?n = "tfs_lines_for_message s ?i" and ?c = "tfs_filter_count s ?i"
  from end_of_message_slot [OF assms(1,2)] assms(3) have
    own: "slot_of ?i s1 = slot_close (slot_of ?i s)"
    and other: "\<forall>j<32. j \<noteq> ?i \<longrightarrow> slot_of j s1 = slot_of j s" by auto
  have len: "length (tfs_mask s) = lfsize" "?c + ?n \<le> lfsize"
    using assms(2) by (simp_all add: slot_fits_def)
  have len1: "length (tfs_mask s1) = lfsize"
    using end_of_message_length [OF assms(3)] len(1) by simp
  have f1: "tfs_lines_for_message s1 ?i = 0" "tfs_last_lines_for_message s1 ?i = ?n"
    "tfs_filter_count s1 ?i = ?c + ?n"
    using arg_cong [OF own, of sl_lines] arg_cong [OF own, of sl_last_lines]
      arg_cong [OF own, of sl_count]
    by (simp_all add: slot_close_def)
  obtain s2 where s2: "revert_to_last f ?n s1 = Some s2"
    "slot_of ?i s2 = slot_revert ?n (slot_of ?i s1)"
    "\<forall>j<32. j \<noteq> ?i \<longrightarrow> slot_of j s2 = slot_of j s1"
    using revert_to_last_slot [OF assms(1), of s1 ?n] f1 len len1 by auto
  have "map (\<lambda>w. bit w ?i) (tfs_mask s2) = put_bits ?c ?n False (map (\<lambda>w. bit w ?i) (tfs_mask s1))"
    using arg_cong [OF s2(2), of sl_bits] f1 by (simp add: slot_revert_def Let_def)
  moreover have "map (\<lambda>w. bit w ?i) (tfs_mask s1)
      = put_bits ?c ?n (tfs_message_matched s ?i) (map (\<lambda>w. bit w ?i) (tfs_mask s))"
    using arg_cong [OF own, of sl_bits] by (simp add: slot_close_def)
  ultimately have b: "map (\<lambda>w. bit w ?i) (tfs_mask s2)
      = put_bits ?c ?n False (put_bits ?c ?n (tfs_message_matched s ?i) (map (\<lambda>w. bit w ?i) (tfs_mask s)))"
    by simp
  have len2: "length (tfs_mask s2) = lfsize" using arg_cong [OF b, of length] len by simp
  have bits: "bit (tfs_mask s2 ! k) j = (bit (tfs_mask s ! k) j
         \<and> \<not> (j = ?i \<and> tfs_filter_count s j \<le> k \<and> k < tfs_filter_count s j + tfs_lines_for_message s j))"
    if k: "k < lfsize" and j: "j < 32" for k j
  proof (cases "j = ?i")
    case True
    have "bit (tfs_mask s2 ! k) ?i = map (\<lambda>w. bit w ?i) (tfs_mask s2) ! k" using k len2 by simp
    then show ?thesis using True b k len by (simp add: nth_put_bits)
  next
    case False
    with j other s2(3) have "slot_of j s2 = slot_of j s" by simp
    from arg_cong [OF this, of sl_bits] have "map (\<lambda>w. bit w j) (tfs_mask s2) ! k
        = map (\<lambda>w. bit w j) (tfs_mask s) ! k" by simp
    with k len len2 False show ?thesis by simp
  qed
  have "tfs_filter_count s2 ?i = ?c" "tfs_lines_for_message s2 ?i = 0" "\<not> tfs_message_matched s2 ?i"
    using arg_cong [OF s2(2), of sl_count] arg_cong [OF s2(2), of sl_lines]
      arg_cong [OF s2(2), of sl_matched] f1
    by (simp_all add: slot_revert_def Let_def)
  with s2(1) bits len(1) show ?thesis by blast
qed

definition read_one :: filter_state where
  "read_one = the (observe_from two_filters 0 [(True, ''a'')] (filter_state_init (\<lambda>_. 0)))"

theorem revert_undoes_message_witness:
  "case end_of_message 1 (hd (fs_filters two_filters)) read_one of None \<Rightarrow> False
   | Some s1 \<Rightarrow>
    (\<exists>s2. revert_to_last (hd (fs_filters two_filters)) 1 s1 = Some s2
       \<and> tfs_filter_count s2 0 = 0 \<and> \<not> bit (tfs_mask s2 ! 0) 0)"
proof -
  let ?f = "hd (fs_filters two_filters)"
  have i: "lf_index ?f = 0" by (simp add: two_filters_def)
  have fits: "slot_fits 1 (slot_of (lf_index ?f) read_one)" by code_simp
  have c: "tfs_filter_count read_one 0 = 0" "tfs_lines_for_message read_one 0 = 1"
    "length (tfs_mask read_one) = 1" by code_simp+
  obtain s1 where s1: "end_of_message 1 ?f read_one = Some s1"
    using end_of_message_slot [OF _ fits] i by auto
  obtain s2 where "revert_to_last ?f 1 s1 = Some s2" "tfs_filter_count s2 0 = 0"
    "\<forall>k < length (tfs_mask read_one). \<forall>j<32. bit (tfs_mask s2 ! k) j =
        (bit (tfs_mask read_one ! k) j \<and> \<not> (j = 0 \<and> tfs_filter_count read_one j \<le> k
              \<and> k < tfs_filter_count read_one j + tfs_lines_for_message read_one j))"
    using revert_undoes_message [OF _ fits s1, unfolded i] c by auto
  with s1 c show ?thesis by force
qed

text \<open>
  The hits are not given back: a file of one matching line that is read again counts two hits.
\<close>

theorem revert_keeps_hits:
  "case observe_from two_filters 0 [(True, ''a'')] (filter_state_init (\<lambda>_. 0)) of None \<Rightarrow> False
   | Some s1 \<Rightarrow>
    (case Option.bind (logline_eof two_filters 1 s1) (logline_restart two_filters 1) of None \<Rightarrow> False
     | Some s2 \<Rightarrow>
      (case Option.bind (observe_from two_filters 0 [(True, ''a'')] s2) (logline_eof two_filters 1) of
         None \<Rightarrow> False
       | Some s3 \<Rightarrow> tfs_filter_hits s3 0 = 2 \<and> tfs_filter_count s3 0 = 1 \<and> bit (tfs_mask s3 ! 0) 0))"
  by code_simp

section \<open>Deleted filters and visible lines\<close>

lemma clear_filter_state_slot:
  "slot_of j (clear_filter_state i s) =
     (if j = i then (slot_of i s)\<lparr>sl_count := 0, sl_hits := 0, sl_matched := False, sl_lines := 0,
        sl_pending := 0, sl_last_matched := False, sl_last_lines := 0\<rparr> else slot_of j s)"
  by (simp add: slot_of_def clear_filter_state_def)

lemma clear_fold_slot:
  "slot_of j (fold (\<lambda>lpc s. if \<not> bit m lpc then clear_filter_state lpc s else s) ls s) =
     (if j \<in> set ls \<and> \<not> bit m j
      then (slot_of j s)\<lparr>sl_count := 0, sl_hits := 0, sl_matched := False, sl_lines := 0,
        sl_pending := 0, sl_last_matched := False, sl_last_lines := 0\<rparr> else slot_of j s)"
  by (induction ls arbitrary: s) (auto simp: clear_filter_state_slot)

lemma clear_deleted_slot:
  "j < 32 \<Longrightarrow> slot_of j (clear_deleted_filter_state m s) =
     (if bit m j then slot_of j s
      else (slot_of j s)\<lparr>sl_count := 0, sl_hits := 0, sl_matched := False, sl_lines := 0,
        sl_pending := 0, sl_last_matched := False, sl_last_lines := 0,
        sl_bits := replicate (length (tfs_mask s)) False\<rparr>)"
proof -
  assume j: "j < 32"
  let ?s = "fold (\<lambda>lpc s. if \<not> bit m lpc then clear_filter_state lpc s else s) [0..<MAX_FILTERS] s"
  note f = clear_fold_slot [of j m "[0..<MAX_FILTERS]" s]
  have bits: "map (\<lambda>w. bit w j) (tfs_mask ?s) = map (\<lambda>w. bit w j) (tfs_mask s)"
    using arg_cong [OF f, of sl_bits] by (simp split: if_splits)
  then have "length (map (\<lambda>w. bit w j) (tfs_mask ?s)) = length (map (\<lambda>w. bit w j) (tfs_mask s))"
    by (simp only:)
  then have "length (tfs_mask ?s) = length (tfs_mask s)" by simp
  with bits have "map (\<lambda>w. bit w j) (map (and m) (tfs_mask ?s)) =
      (if bit m j then map (\<lambda>w. bit w j) (tfs_mask s) else replicate (length (tfs_mask s)) False)"
    by (auto simp: o_def bit_and_iff map_replicate_const)
  then show ?thesis
    using f j by (auto simp: clear_deleted_filter_state_def Let_def slot_of_def MAX_FILTERS_def)
qed

lemma bit_used_mask:
  "j < 32 \<Longrightarrow> \<forall>f\<in>set fs. lf_index f < 32 \<Longrightarrow>
   bit (fold (\<lambda>f m. if lf_deleted f then m else or m (filter_bit (lf_index f))) fs m) j \<longleftrightarrow>
     bit m j \<or> (\<exists>f\<in>set fs. \<not> lf_deleted f \<and> lf_index f = j)"
  by (induction fs arbitrary: m) (auto simp: bit_or_iff bit_filter_bit)

text \<open>
  Clearing the state of deleted filters leaves every filter in use as it was and resets the
  index of the others, their bits of every mask included.
\<close>

theorem clear_deleted_keeps_live:
  assumes "stack_ok fs" and "j < 32"
  shows "if j \<in> live_indexes fs then slot_of j (observer_clear_deleted fs s) = slot_of j s
    else sl_count (slot_of j (observer_clear_deleted fs s)) = 0
      \<and> sl_bits (slot_of j (observer_clear_deleted fs s)) = replicate (length (tfs_mask s)) False"
proof -
  have "bit (fold (\<lambda>f m. if lf_deleted f then m else or m (filter_bit (lf_index f))) (fs_filters fs) 0) j
      \<longleftrightarrow> j \<in> live_indexes fs"
    using bit_used_mask [OF assms(2), of "fs_filters fs" 0] assms(1)
    by (auto simp: stack_ok_def live_indexes_def)
  then show ?thesis
    by (simp add: observer_clear_deleted_def Let_def clear_deleted_slot [OF assms(2)] del: slot_of_sel)
qed

theorem clear_deleted_keeps_live_witness:
  "slot_of 1 (observer_clear_deleted two_filters (filter_state_init (\<lambda>_. 0)))
     = slot_of 1 (filter_state_init (\<lambda>_. 0))"
proof -
  have "1 \<in> live_indexes two_filters"
    by (simp add: live_indexes_def two_filters_def)
  with clear_deleted_keeps_live [OF two_filters_ok, of 1 "filter_state_init (\<lambda>_. 0)"]
  show ?thesis by simp
qed

lemma length_takeWhile_sorted:
  "sorted_wrt (<) xs \<Longrightarrow> k < length xs \<Longrightarrow> xs ! k = (x::nat) \<Longrightarrow> length (takeWhile (\<lambda>y. y < x) xs) = k"
proof (induction xs arbitrary: k)
  case (Cons a xs)
  then show ?case by (cases k) (auto simp: nth_Cons')
qed simp

text \<open>
  A line of the file is looked up in the visible lines, which are kept in order, exactly if it
  is one of them, at its position.
\<close>

theorem content_line_to_vis_line_correct:
  assumes "sorted_wrt (<) (tfs_index s)"
  shows "content_line_to_vis_line line s = Some k \<longleftrightarrow> k < length (tfs_index s) \<and> tfs_index s ! k = line"
proof
  assume a: "content_line_to_vis_line line s = Some k"
  have "length (takeWhile (\<lambda>x. x < line) (tfs_index s)) \<le> length (tfs_index s)"
    by (rule length_takeWhile_le)
  with a show "k < length (tfs_index s) \<and> tfs_index s ! k = line"
    by (auto simp: content_line_to_vis_line_def Let_def split: if_splits)
next
  assume "k < length (tfs_index s) \<and> tfs_index s ! k = line"
  with length_takeWhile_sorted [OF assms, of k line] show "content_line_to_vis_line line s = Some k"
    by (auto simp: content_line_to_vis_line_def Let_def)
qed

theorem content_line_to_vis_line_correct_witness:
  "content_line_to_vis_line 7 ((filter_state_init (\<lambda>_. 0))\<lparr>tfs_index := [2, 5, 7]\<rparr>) = Some 2"
  using content_line_to_vis_line_correct
    [of "(filter_state_init (\<lambda>_. 0))\<lparr>tfs_index := [2, 5, 7]\<rparr>" 7 2] by simp

end
