(* ===== verification/Log_Rebuild.thy ===== *)
theory Log_Rebuild
  imports Log_Index_Spec "HOL-Library.Code_Target_Nat"
begin

text \<open>
  The composition of the phases of \<open>rebuild_index\<close>: that it never fails an assertion and leaves a
  correct index, and what the visible rows are after it.
\<close>

section \<open>The scans of a rebuild\<close>

lemma set_file_order: "set (file_order s) = {..<length (lss_files s)}"
  and distinct_file_order: "distinct (file_order s)"
proof -
  have "mset (file_order s) = mset [0..<length (lss_files s)]"
    by (simp add: file_order_def mset_sort_by del: mset_upt)
  from mset_eq_setD [OF this] mset_eq_imp_distinct_iff [OF this]
  show "set (file_order s) = {..<length (lss_files s)}" and "distinct (file_order s)"
    by (auto simp: lessThan_atLeast0)
qed

definition opened :: "log_source \<Rightarrow> nat set" where
  "opened s = {i. i < length (lss_files s) \<and> ld_file_ptr (lss_files s ! i) \<noteq> None}"

definition scan_list :: "bool \<Rightarrow> log_source \<Rightarrow> nat list" where
  "scan_list paused s = to_scan paused False s (file_order s) @ to_scan paused True s (file_order s)"

lemma set_scan_list: "set (scan_list paused s) = (if paused then {} else opened s)"
  by (auto simp: scan_list_def to_scan_def set_file_order opened_def split: option.splits)

lemma distinct_scan_list: "distinct (scan_list paused s)"
  using distinct_file_order [of s]
  by (auto simp: scan_list_def to_scan_def split: option.splits)

lemma scannable_scan_list:
  "\<forall>i\<in>opened s. \<not> paused \<longrightarrow> scan_ok scans (lss_files s ! i) i \<Longrightarrow> scannable scans s (scan_list paused s)"
  using distinct_scan_list [of paused s] by (auto simp: scannable_def set_scan_list opened_def)

lemma process_only_forced:
  "forced c \<or> (\<exists>i\<in>set is. new_order scans i) \<Longrightarrow> forced (fold (process_only ao scans s) is c)"
proof (induction "is" arbitrary: c)
  case (Cons i "is")
  have "forced (process_only ao scans s i c) \<or> (\<exists>i\<in>set is. new_order scans i)"
    using Cons.prems process_force process_new_order
    by (auto simp: process_only_def new_order_def split: option.splits prod.splits)
  then show ?case using Cons.IH by simp
qed simp

text \<open>Whether the files are scanned by threads or not, the results decide the same.\<close>

lemma scan_phase:
  fixes seqs pars :: "nat list"
  assumes "scannable scans s (seqs @ pars)"
  defines "fin \<equiv> fold (scan_only scans) (seqs @ pars) s"
  shows "\<exists>c' left'. scan_parallel ao threads scans pars (fold (scan_one ao scans) seqs (s, c, True)) = (fin, c', left')
    \<and> (forced c \<or> (\<exists>i\<in>set (seqs @ pars). new_order scans i) \<longrightarrow> forced c')
    \<and> ((\<forall>i\<in>set (seqs @ pars). \<not> new_order scans i) \<and> files_ok (views s) \<and> index_ok s \<longrightarrow>
        c' = fold (process_only ao scans fin) (seqs @ pars) c)"
proof -
  define s1 where "s1 = fold (scan_only scans) seqs s"
  obtain c1 l1 where st: "fold (scan_one ao scans) seqs (s, c, True) = (s1, c1, l1)"
    using scan_one_fst [of ao scans seqs s c True] by (metis prod.collapse s1_def)
  have c1f: "forced c \<or> (\<exists>i\<in>set seqs. new_order scans i) \<Longrightarrow> forced c1"
    using scan_one_forced [of c seqs scans ao s True] st by simp
  have fin: "fold (scan_only scans) pars s1 = fin" by (simp add: fin_def s1_def)
  obtain c2 l2 where p: "scan_parallel ao threads scans pars (s1, c1, l1) = (fin, c2, l2)"
  proof -
    have "fst (scan_parallel ao threads scans pars (s1, c1, l1)) = fin"
      using scan_one_fst [of ao scans pars s1 c1 l1] fin by (simp add: scan_parallel_def Let_def)
    then show thesis using that by (metis prod.collapse)
  qed
  have c2: "c2 = (if length pars \<le> 1 \<or> threads \<le> 1 then fst (snd (fold (scan_one ao scans) pars (s1, c1, l1)))
      else fold (process_only ao scans fin) pars c1)"
    using p fin by (auto simp: scan_parallel_def Let_def split: if_splits)
  have "forced c2" if "forced c1 \<or> (\<exists>i\<in>set pars. new_order scans i)"
    unfolding c2 using scan_one_forced [OF that] process_only_forced [OF that] by simp
  moreover have "c2 = fold (process_only ao scans fin) (seqs @ pars) c"
    if good: "\<forall>i\<in>set (seqs @ pars). \<not> new_order scans i" and ok: "files_ok (views s)" "index_ok s"
  proof -
    have c1: "c1 = fold (process_only ao scans fin) seqs c"
      using scan_one_process [OF assms(1) good ok, of ao c True] st by (simp add: fin_def)
    have sc: "scannable scans s seqs" "\<forall>i\<in>set seqs. \<not> new_order scans i"
      using assms(1) good scannable_append by auto
    have "lss_files s1 ! i = lss_files s ! i" if "i \<in> set pars" for i
      using assms(1) that unfolding s1_def by (intro scan_fold_other) (auto simp: scannable_def)
    then have "scannable scans s1 (pars @ [])"
      using assms(1) by (simp add: scannable_def s1_def)
    moreover have "files_ok (views s1)" using scanned_files_ok [OF sc(1) ok(1)] by (simp add: s1_def)
    moreover have "index_ok s1"
      using index_ok_extends [OF ok(2) scanned_extends [OF sc]] by (simp add: s1_def)
    ultimately have "fst (snd (fold (scan_one ao scans) pars (s1, c1, l1)))
        = fold (process_only ao scans fin) pars c1"
      using scan_one_process [of scans s1 pars "[]" ao c1 l1] good fin by simp
    then show ?thesis by (simp add: c2 c1)
  qed
  ultimately show ?thesis using st p c1f by auto
qed

lemma check_closed_forced: "forced c \<Longrightarrow> forced (check_closed s is c)"
  unfolding check_closed_def by (induction "is" arbitrary: c) (auto simp: forced_def force_full_def)

lemma check_closed_cases:
  "(\<forall>i\<in>set is. ld_file_ptr (lss_files s ! i) = None \<longrightarrow> ld_lines_indexed (lss_files s ! i) = 0) \<and>
     check_closed s is c = c \<or> forced (check_closed s is c)"
proof (induction "is" arbitrary: c)
  case (Cons i "is")
  then show ?case
  proof (cases "ld_file_ptr (lss_files s ! i) = None \<and> ld_lines_indexed (lss_files s ! i) > 0")
    case True
    have "forced (force_full c)" by (simp add: forced_def force_full_def)
    then have "forced (check_closed s is (force_full c))" by (rule check_closed_forced)
    with True show ?thesis by (simp add: check_closed_def)
  next
    case False
    with Cons [of c] show ?thesis by (auto simp: check_closed_def)
  qed
qed (simp add: check_closed_def)

lemma scan_files_ok:
  assumes sc: "scannable scans s (scan_list paused s)"
    and c: "forced c \<or> \<not> rc_force c \<and> ctx_ok (all_time_ordered s) s c \<and> rc_retval c = Rr_no_change
      \<and> files_ok (views s) \<and> index_ok s
      \<and> (\<forall>i\<in>opened s. paused \<or> scans i = None \<longrightarrow> nothing_new (views s ! i))"
  defines "fin \<equiv> fold (scan_only scans) (scan_list paused s) s"
  shows "\<exists>c' left'. scan_files paused threads scans s c = (fin, c', left')
    \<and> (forced c' \<or> \<not> rc_force c' \<and> index_ok fin \<and> ctx_ok (all_time_ordered s) fin c'
       \<and> (\<forall>v\<in>set (views fin). decided fin c' v))
    \<and> (forced c \<longrightarrow> forced c')"
proof -
  let ?ao = "all_time_ordered s" and ?L = "scan_list paused s"
  define c1 where "c1 = check_closed s (file_order s) c"
  obtain c2 left2 where ph: "scan_parallel ?ao threads scans (to_scan paused True s (file_order s))
      (fold (scan_one ?ao scans) (to_scan paused False s (file_order s)) (s, c1, True)) = (fin, c2, left2)"
    "forced c1 \<or> (\<exists>i\<in>set ?L. new_order scans i) \<longrightarrow> forced c2"
    "(\<forall>i\<in>set ?L. \<not> new_order scans i) \<and> files_ok (views s) \<and> index_ok s \<longrightarrow>
       c2 = fold (process_only ?ao scans fin) ?L c1"
    using scan_phase [of scans s "to_scan paused False s (file_order s)" "to_scan paused True s (file_order s)"
      ?ao threads c1] sc unfolding scan_list_def [symmetric] fin_def by blast
  define c3 where "c3 = (if \<not> ?ao \<and> rc_retval c2 = Rr_partial_rebuild then force_full c2 else c2)"
  have r: "scan_files paused threads scans s c = (fin, c3, left2)"
    using ph(1) by (simp add: scan_files_def Let_def c1_def c3_def)
  have f3: "forced c2 \<Longrightarrow> forced c3" by (simp add: c3_def forced_def force_full_def)
  have keep: "forced c \<Longrightarrow> forced c1" by (simp add: c1_def check_closed_forced)
  consider "forced c1" | "\<exists>i\<in>set ?L. new_order scans i"
    | "\<not> forced c1" "\<forall>i\<in>set ?L. \<not> new_order scans i" by blast
  then show ?thesis
  proof cases
    case 1
    with r ph(2) f3 show ?thesis by blast
  next
    case 2
    with r ph(2) f3 show ?thesis by blast
  next
    case 3
    with keep c have c': "\<not> rc_force c" "ctx_ok ?ao s c" "rc_retval c = Rr_no_change"
      "files_ok (views s)" "index_ok s" "\<forall>i\<in>opened s. paused \<or> scans i = None \<longrightarrow> nothing_new (views s ! i)"
      by auto
    from check_closed_cases [of "file_order s" s c] 3(1) have c1: "c1 = c" by (auto simp: c1_def)
    have fok: "files_ok (views fin)" unfolding fin_def by (rule scanned_files_ok [OF sc c'(4)])
    have iok: "index_ok fin"
      using index_ok_extends [OF c'(5) scanned_extends [OF sc 3(2)]] by (simp add: fin_def)
    have idx: "lss_index fin = lss_index s" by (simp add: fin_def)
    have len: "length (lss_files fin) = length (lss_files s)" by (simp add: fin_def)
    have L: "set ?L \<subseteq> {..<length (lss_files s)}" "distinct ?L" using sc by (auto simp: scannable_def)
    have vfin: "views fin ! i = (if i \<in> set ?L then scan_view scans i (views s ! i) else views s ! i)"
      if "i < length (lss_files s)" for i
      unfolding fin_def by (rule views_scanned [OF L(2,1) that])
    have ctx: "ctx_ok ?ao fin c" using c'(2,3) by (simp add: ctx_ok_def idx)
    have open_fin: "ld_file_ptr (lss_files fin ! i) \<noteq> None" if "i \<in> set ?L" for i
    proof -
      have "lss_files fin ! i = lss_files (scan_only scans i s) ! i"
        unfolding fin_def using that L by (intro scan_fold_file) auto
      moreover have "ld_file_ptr (lss_files s ! i) \<noteq> None" "i < length (lss_files s)"
        using sc that L by (auto simp: scannable_def)
      ultimately show ?thesis by (auto simp: scan_only_def set_scanned_def split: option.split)
    qed
    have none: "\<forall>i\<in>set ?L. scans i = None \<longrightarrow> nothing_new (views fin ! i)"
      using c'(6) L vfin by (auto simp: set_scan_list scan_view_def opened_def split: if_splits)
    have c2: "c2 = fold (process_only ?ao scans fin) ?L c" using ph(3) 3(2) c'(4,5) c1 by blast
    have pf: "forced c2 \<or> \<not> rc_force c2 \<and> ctx_ok ?ao fin c2
        \<and> (\<forall>v. decided fin c v \<or> v \<in> (!) (views fin) ` set ?L \<longrightarrow> decided fin c2 v)"
      unfolding c2
    proof (rule process_fold_ok [OF fok iok])
      show "\<forall>i\<in>set ?L. i < length (lss_files fin)" using L(1) len by auto
    qed (use open_fin 3(2) none ctx c'(1) in auto)
    show ?thesis
    proof (cases "forced c2")
      case True
      with r f3 show ?thesis by blast
    next
      case False
      with pf have p: "\<not> rc_force c2" "ctx_ok ?ao fin c2"
        "\<forall>v. decided fin c v \<or> v \<in> (!) (views fin) ` set ?L \<longrightarrow> decided fin c2 v" by auto
      have "decided fin c2 (views fin ! i)" if i: "i < length (lss_files s)" for i
      proof (cases "i \<in> set ?L")
        case True
        with p(3) show ?thesis by blast
      next
        case False
        have "nothing_new (views s ! i)"
        proof (cases "ld_file_ptr (lss_files s ! i)")
          case None
          with i show ?thesis by (simp add: nothing_new_def nth_views view_def view_lines_def)
        next
          case (Some lf)
          with i have "i \<in> opened s" by (simp add: opened_def)
          with False c'(6) show ?thesis by (auto simp: set_scan_list split: if_splits)
        qed
        then have "decided fin c (views fin ! i)" using vfin [OF i] False c'(3) by (simp add: decided_def)
        with p(3) show ?thesis by blast
      qed
      then have dec: "\<forall>v\<in>set (views fin). decided fin c2 v"
        by (metis in_set_conv_nth length_views len)
      have "c3 = c2" using p(2) by (auto simp: c3_def ctx_ok_def)
      with r p(1,2) iok dec 3(1) keep show ?thesis by auto
    qed
  qed
qed

lemma scan_files_left:
  assumes "\<forall>i\<in>set (scan_list paused s). scans i \<noteq> None"
  shows "snd (snd (scan_files paused threads scans s c))"
proof -
  have one: "snd (snd (fold (scan_one ao scans) is st)) = snd (snd st)" if "\<forall>i\<in>set is. scans i \<noteq> None" for ao "is" st
    using that by (induction "is" arbitrary: st) (auto simp: scan_one_def Let_def split: prod.split)
  have par: "snd (snd (scan_parallel ao threads scans is st)) = snd (snd st)"
    if "\<forall>i\<in>set is. scans i \<noteq> None" for ao "is" st
    using one [OF that] by (cases st) (simp add: scan_parallel_def Let_def)
  define ao where "ao = all_time_ordered s"
  define c1 where "c1 = check_closed s (file_order s) c"
  have l: "\<forall>i\<in>set (to_scan paused b s (file_order s)). scans i \<noteq> None" for b
    using assms by (cases b) (auto simp: scan_list_def)
  define st where "st = scan_parallel ao threads scans (to_scan paused True s (file_order s))
      (fold (scan_one ao scans) (to_scan paused False s (file_order s)) (s, c1, True))"
  have "snd (snd st)" using par [OF l] one [OF l] by (simp add: st_def)
  moreover have "snd (snd (scan_files paused threads scans s c)) = snd (snd st)"
    unfolding scan_files_def Let_def ao_def [symmetric] c1_def [symmetric] st_def [symmetric]
    by (cases st) simp
  ultimately show ?thesis by simp
qed

section \<open>The index after a rebuild\<close>

text \<open>What a rebuild needs: the files in order and below the limits, and scans that keep to their contract.\<close>

definition rebuildable :: "bool \<Rightarrow> scans \<Rightarrow> log_source \<Rightarrow> bool" where
  "rebuildable paused scans s \<longleftrightarrow> files_ok (views s)
     \<and> (\<forall>i\<in>opened s. \<not> paused \<longrightarrow> scan_ok scans (lss_files s ! i) i)
     \<and> (lss_force_rebuild s \<or> index_ok s
         \<and> (\<forall>i\<in>opened s. paused \<or> scans i = None \<longrightarrow> nothing_new (views s ! i)))"

definition all_lines_indexed :: "log_source \<Rightarrow> bool" where
  "all_lines_indexed s \<longleftrightarrow> (\<forall>v\<in>set (views s). nothing_new v)"

text \<open>The lines a file has after its scan.\<close>

definition scanned_lines :: "bool \<Rightarrow> scans \<Rightarrow> log_source \<Rightarrow> nat \<Rightarrow> logline list" where
  "scanned_lines paused scans s i = view_lines (if \<not> paused \<and> i \<in> opened s
     then scan_view scans i (views s ! i) else views s ! i)"

lemma index_all_nothing_new: "nothing_new (index_all v)"
  by (simp add: nothing_new_def index_all_def view_lines_def split: option.split)

lemma length_new_lines_views: "length (new_lines s) = length (filter open_view (views s))"
proof -
  have "filter open_view (map view lds) = map view (filter (\<lambda>ld. ld_file_ptr ld \<noteq> None) lds)" for lds
    by (induction lds) (auto simp: open_view_def view_def)
  then show ?thesis by (simp add: length_new_lines views_def)
qed

lemma filter_open_map:
  "(\<And>v. open_view (f v) = open_view v) \<Longrightarrow> length (filter open_view (map f vs)) = length (filter open_view vs)"
  by (induction vs) auto

lemma file_count_views: "file_count s = length (filter open_view (views s))"
  using length_new_lines_views [of s] length_new_lines [of s] by (simp add: file_count_def)

lemma reset_index_frame:
  "views (reset_index s) = map (\<lambda>v. (fst v, 0, snd (snd v))) (views s)"
  "lss_index (reset_index s) = []" "lss_filtered_index (reset_index s) = []"
  by (simp_all add: reset_index_def Let_def map_files_def views_def view_def index_start_def)

lemma files_ok_map:
  "files_ok vs \<Longrightarrow> (\<And>v. fst (f v) = fst v) \<Longrightarrow> (\<And>v. view_lines (f v) = view_lines v) \<Longrightarrow> files_ok (map f vs)"
  by (simp add: files_ok_def)

lemma scan_time_ordered:
  assumes "scannable scans s is" and "all_time_ordered s"
  shows "\<forall>ld\<in>set (lss_files (fold (scan_only scans) is s)). \<forall>lf. ld_file_ptr ld = Some lf \<longrightarrow> lf_time_ordered lf"
proof (intro ballI allI impI)
  let ?fin = "fold (scan_only scans) is s"
  fix ld lf assume "ld \<in> set (lss_files ?fin)" and lf: "ld_file_ptr ld = Some lf"
  then obtain i where i: "i < length (lss_files s)" "lss_files ?fin ! i = ld"
    by (auto simp: in_set_conv_nth)
  have o: "lf_time_ordered lf0" if "ld_file_ptr (lss_files s ! i) = Some lf0" for lf0
    using assms(2) i(1) that by (auto simp: all_time_ordered_def list_all_iff dest!: bspec [of _ _ "lss_files s ! i"])
  show "lf_time_ordered lf"
  proof (cases "i \<in> set is")
    case False
    then show ?thesis using i(2) lf o by (simp add: scan_fold_other)
  next
    case True
    with assms(1) i have ld: "ld = lss_files (scan_only scans i s) ! i"
      by (auto simp: scannable_def scan_fold_file)
    obtain lf0 where lf0: "ld_file_ptr (lss_files s ! i) = Some lf0" "scan_ok scans (lss_files s ! i) i"
      using assms(1) True by (auto simp: scannable_def)
    with ld lf i(1) o show ?thesis
      by (auto simp: scan_only_def set_scanned_def scan_ok_def split: option.splits)
  qed
qed

text \<open>The state that the lines are added to.\<close>

lemma prepare_index_ok:
  assumes "files_ok (views s)" and "all_ordered \<longrightarrow> (\<forall>ld\<in>set (lss_files s). \<forall>lf. ld_file_ptr ld = Some lf \<longrightarrow> lf_time_ordered lf)"
    and "forced c \<or> \<not> rc_force c \<and> index_ok s \<and> ctx_ok all_ordered s c \<and> (\<forall>v\<in>set (views s). decided s c v)"
  shows "\<exists>c' s'. prepare_index c s = Some (c', s') \<and> files_ok (views s')
    \<and> map (snd \<circ> snd) (views s') = map (snd \<circ> snd) (views s)
    \<and> (if rc_full_sort c' then lss_index s' = [] else ready s') \<and> index_ok s'
    \<and> (rc_retval c' = Rr_no_change \<and> \<not> rc_force c' \<longrightarrow> all_lines_indexed s')"
proof -
  define grown where "grown = fst (reserve_index (total_lines s) s)"
  define s1 where "s1 = (let s1 = snd (reserve_index (total_lines s) s)
    in if grown then s1\<lparr>tss_level_filtered_count := 0\<rparr> else s1)"
  define c1 where "c1 = (if grown then force_full c else c)"
  have s1: "views s1 = views s" "lss_index s1 = lss_index s" "lss_files s1 = lss_files s"
    by (simp_all add: s1_def reserve_index_def Let_def grown_def)
  have pr: "prepare_index c s = (if rc_force c1 then Some (c1, reset_index s1)
      else if rc_retval c1 = Rr_partial_rebuild then map_option (Pair c1) (cut_index (the (rc_lowest c1)) s1)
      else Some (c1, s1))"
    by (simp add: prepare_index_def c1_def s1_def grown_def Let_def split: prod.split)
  have forced1: "rc_force c1 \<Longrightarrow> rc_full_sort c1"
    using assms(3) by (auto simp: c1_def force_full_def forced_def)
  show ?thesis
  proof (cases "rc_force c1")
    case True
    have ok: "files_ok (views (reset_index s1))"
      unfolding reset_index_frame s1(1) using assms(1) by (rule files_ok_map) (simp_all add: view_lines_def)
    have "index_ok (reset_index s1)"
      by (auto simp: index_ok_def reset_index_frame places_def time_sorted_def)
    with True pr ok forced1 show ?thesis by (auto simp: reset_index_frame s1(1) o_def)
  next
    case False
    then have g: "c1 = c" by (auto simp: c1_def force_full_def split: if_splits)
    with False assms(3) have c: "index_ok s" "ctx_ok all_ordered s c" "\<forall>v\<in>set (views s). decided s c v"
      by (auto simp: forced_def)
    obtain ps where ps: "lss_index s = map (entry_of (views s)) ps" "distinct ps" "set ps = places (views s)"
      "time_sorted (views s) ps"
      using c(1) by (auto simp: index_ok_def)
    have iok: "index_ok s1" using c(1) by (simp add: index_ok_def s1)
    show ?thesis
    proof (cases "rc_retval c = Rr_partial_rebuild")
      case True
      then have "all_ordered" "lss_index s \<noteq> []" "\<not> rc_full_sort c" using c(2) by (auto simp: ctx_ok_def)
      moreover have "\<forall>v\<in>set (views s1). no_older (the (rc_lowest c)) v"
        using c(3) True by (simp add: decided_def s1)
      ultimately obtain s' where s': "cut_index (the (rc_lowest c)) s1 = Some s'" "ready s'"
        "views s' = map (cut_view (the (rc_lowest c))) (views s)"
        using cut_index_ready [of s1 "the (rc_lowest c)"] assms(1,2) iok s1 by auto
      have "snd (snd (cut_view t v)) = snd (snd v)" for t v
        by (simp add: cut_view_def split: option.split)
      moreover have "index_ok s'" "files_ok (views s')" using s'(2) by (auto simp: ready_def index_ok_def)
      ultimately show ?thesis using pr g s' True \<open>\<not> rc_full_sort c\<close> \<open>\<not> rc_force c1\<close> by (simp add: o_def)
    next
      case notp: False
      have r: "ready s1" if ne: "lss_index s \<noteq> []"
      proof -
        have fresh: "no_older (last_time s) v" if "v \<in> set (views s)" for v
          using c(2,3) that notp ne no_older_nothing_new [of v "last_time s"]
          by (cases "rc_retval c") (auto simp: decided_def ctx_ok_def)
        have pne: "ps \<noteq> []" using ne ps(1) by auto
        have lp: "last ps \<in> places (views s)" using pne ps(3) last_in_set by blast
        have "bare (ic_line s (last (lss_index s))) = line_in (views s) (last ps)"
          using ic_line_entry [OF assms(1) place_ok_places [OF lp]] pne by (simp add: ps(1) last_map)
        then have T: "last_time s = get_timeval (line_in (views s) (last ps))"
          by (metis bare_sel(4) last_time_def)
        have "ll_time (line_in (views s) p) \<le> ll_time (line_in (views s) q)"
          if pq: "p \<in> set ps" "q \<in> set (new_places (views s) (indexed_of (views s)))" for p q
        proof -
          have "ll_time (line_in (views s) p) \<le> ll_time (line_in (views s) (last ps))"
          proof (cases "p = last ps")
            case False
            have e: "ps = butlast ps @ [last ps]" using pne by simp
            have "p \<in> set (butlast ps @ [last ps])" using pq(1) e by simp
            with False have "p \<in> set (butlast ps)" by simp
            moreover have "time_sorted (views s) (butlast ps @ [last ps])" using ps(4) e by simp
            ultimately show ?thesis by (simp add: time_sorted_def sorted_wrt_append)
          qed simp
          moreover have "\<not> ll_less_tv (line_in (views s) q) (last_time s)"
            using fresh [of "views s ! fst q"] pq(2)
            by (auto simp: set_new_places no_older_def indexed_of_def line_in_def)
          then have "ll_time (line_in (views s) (last ps)) \<le> ll_time (line_in (views s) q)"
            unfolding T by simp
          ultimately show ?thesis by simp
        qed
        with ps assms(1) show ?thesis unfolding ready_def s1 by blast
      qed
      have "rc_retval c = Rr_no_change \<longrightarrow> all_lines_indexed s1"
        using c(3) by (auto simp: all_lines_indexed_def s1 decided_def)
      moreover have "rc_full_sort c \<longleftrightarrow> lss_index s = []" using c(2) by (simp add: ctx_ok_def)
      ultimately show ?thesis using pr g False notp r assms(1) iok by (auto simp: s1)
    qed
  qed
qed

lemma reset_index_force: "lss_force_rebuild (reset_index s) = lss_force_rebuild s"
  by (simp add: reset_index_def Let_def map_files_def)

lemma reload_rows_force: "lss_force_rebuild (reload_rows s) = lss_force_rebuild s"
proof -
  have "lss_force_rebuild (fold (\<lambda>k. index_line (f k)) ks t) = lss_force_rebuild t" for f :: "nat \<Rightarrow> nat" and ks t
    by (induction ks arbitrary: t) (auto simp: index_line_def)
  then show ?thesis by (simp add: reload_rows_def)
qed

lemma prepare_index_force: "prepare_index c s = Some (c', s') \<Longrightarrow> lss_force_rebuild s' = lss_force_rebuild s"
  by (auto simp: prepare_index_def cut_index_def reserve_index_def Let_def map_files_def reset_index_force
      reload_rows_force split: if_splits)

lemma scanned_open_views:
  assumes "scannable scans s is"
  shows "map open_view (views (fold (scan_only scans) is s)) = map open_view (views s)"
proof (rule nth_equalityI)
  let ?fin = "fold (scan_only scans) is s"
  fix i assume "i < length (map open_view (views ?fin))"
  then have i: "i < length (lss_files s)" by simp
  have "views ?fin ! i = (if i \<in> set is then scan_view scans i (views s ! i) else views s ! i)"
    using assms i by (subst views_scanned) (auto simp: scannable_def)
  moreover have "i \<in> set is \<Longrightarrow> open_view (views s ! i)"
    using assms i by (auto simp: scannable_def open_view_iff)
  ultimately have "open_view (views ?fin ! i) = open_view (views s ! i)"
    by (auto simp: scan_view_def open_view_def split: option.split)
  then show "map open_view (views ?fin) ! i = map open_view (views s) ! i"
    using i by simp
qed simp

text \<open>
  The run of a rebuild up to the point where lines are added: the files as scanned (\<open>fin\<close>), what the
  results ask for (\<open>c1\<close>), and the index prepared for it (\<open>c2\<close>, \<open>s2\<close>).
\<close>

definition rebuild_tail ::
  "marker \<Rightarrow> nat \<Rightarrow> rebuild_ctx \<Rightarrow> bool \<Rightarrow> log_source \<Rightarrow> (rebuild_result \<times> search_action \<times> log_source) option" where
  "rebuild_tail marker files c left s =
    (let search = (if rc_force c then 0 else length (lss_filtered_index s)) in
     if lss_index s = [] \<and> \<not> left then Some (Rr_appended_lines, No_search, s\<lparr>lss_force_rebuild := True\<rparr>)
     else if rc_retval c \<noteq> Rr_no_change \<or> rc_force c
     then map_option (finish_rebuild (rc_retval c) search) (add_lines marker (rc_full_sort c) files s)
     else Some (finish_rebuild (rc_retval c) search s))"

lemma rebuild_phases:
  assumes "rebuildable paused scans s"
  obtains fin c1 c2 s2 files left where
    "lss_filtered_index fin = lss_filtered_index s" "lss_delegate fin = lss_delegate s"
    "\<not> rc_force c1 \<Longrightarrow> \<not> lss_force_rebuild s \<and> lss_index fin = lss_index s \<and> index_ok fin"
    "files_ok (views fin)" "prepare_index c1 fin = Some (c2, s2)" "files_ok (views s2)"
    "if rc_full_sort c2 then lss_index s2 = [] else ready s2" "index_ok s2"
    "rc_retval c2 = Rr_no_change \<and> \<not> rc_force c2 \<longrightarrow> all_lines_indexed s2"
    "length (lss_files s2) = length (lss_files s)"
    "\<forall>i<length (lss_files s). view_lines (views s2 ! i) = scanned_lines paused scans s i"
    "length (new_lines s2) \<le> files" "\<not> lss_force_rebuild s2"
    "paused \<or> (\<forall>i\<in>opened s. scans i \<noteq> None) \<Longrightarrow> left"
    "rebuild_index paused threads scans marker s = rebuild_tail marker files c2 left s2"
proof -
  have ok: "files_ok (views s)" and sok: "\<forall>i\<in>opened s. \<not> paused \<longrightarrow> scan_ok scans (lss_files s ! i) i"
    and st: "lss_force_rebuild s \<or> index_ok s \<and> (\<forall>i\<in>opened s. paused \<or> scans i = None \<longrightarrow> nothing_new (views s ! i))"
    using assms by (auto simp: rebuildable_def)
  obtain c0 s0 where st0: "start_rebuild s = (c0, s0)" by (cases "start_rebuild s")
  have s0: "lss_files s0 = lss_files s" "lss_force_rebuild s \<or> lss_index s0 = lss_index s"
    "lss_filtered_index s0 = lss_filtered_index s" "lss_delegate s0 = lss_delegate s"
    "lss_force_rebuild s \<longrightarrow> forced c0" "\<not> lss_force_rebuild s0"
    using st0 by (auto simp: start_rebuild_def Let_def forced_def force_full_def split: if_splits)
  have v0: "views s0 = views s" "opened s0 = opened s" by (simp_all add: views_def opened_def s0(1))
  have c0: "forced c0 \<or> \<not> rc_force c0 \<and> ctx_ok (all_time_ordered s0) s0 c0 \<and> rc_retval c0 = Rr_no_change
      \<and> files_ok (views s0) \<and> index_ok s0
      \<and> (\<forall>i\<in>opened s0. paused \<or> scans i = None \<longrightarrow> nothing_new (views s0 ! i))"
    using st0 st ok s0 v0
    by (auto simp: start_rebuild_def Let_def forced_def force_full_def ctx_ok_def index_ok_def views_def
        split: if_splits)
  let ?L = "scan_list paused s0"
  have sc: "scannable scans s0 ?L" using sok by (intro scannable_scan_list) (simp add: v0 s0(1))
  define fin where "fin = fold (scan_only scans) ?L s0"
  obtain c1 left1 where sf: "scan_files paused threads scans s0 c0 = (fin, c1, left1)"
    "forced c1 \<or> \<not> rc_force c1 \<and> index_ok fin \<and> ctx_ok (all_time_ordered s0) fin c1
       \<and> (\<forall>v\<in>set (views fin). decided fin c1 v)" "forced c0 \<longrightarrow> forced c1"
    using scan_files_ok [OF sc c0, of threads] fin_def by auto
  have fok: "files_ok (views fin)" unfolding fin_def by (rule scanned_files_ok [OF sc]) (simp add: v0 ok)
  obtain c2 s2 where pr: "prepare_index c1 fin = Some (c2, s2)" "files_ok (views s2)"
    "map (snd \<circ> snd) (views s2) = map (snd \<circ> snd) (views fin)"
    "if rc_full_sort c2 then lss_index s2 = [] else ready s2" "index_ok s2"
    "rc_retval c2 = Rr_no_change \<and> \<not> rc_force c2 \<longrightarrow> all_lines_indexed s2"
    using prepare_index_ok [OF fok _ sf(2)] scan_time_ordered [OF sc] by (auto simp: fin_def)
  have len: "length (views s2) = length (views s)"
    using arg_cong [OF pr(3), of length] by (simp add: fin_def s0(1))
  have vl: "view_lines v = view_lines w" if "snd (snd v) = snd (snd w)" for v w :: file_view
    using that by (simp add: view_lines_def)
  have lines2: "view_lines (views s2 ! i) = scanned_lines paused scans s i" if i: "i < length (lss_files s)" for i
  proof -
    have "snd (snd (views s2 ! i)) = snd (snd (views fin ! i))"
      using arg_cong [OF pr(3), of "\<lambda>xs. xs ! i"] i len by (simp add: fin_def s0(1))
    then have "view_lines (views s2 ! i) = view_lines (views fin ! i)" by (rule vl)
    also have "views fin ! i = (if i \<in> set ?L then scan_view scans i (views s ! i) else views s ! i)"
      unfolding fin_def using sc i by (subst views_scanned) (auto simp: scannable_def v0 s0(1))
    finally show ?thesis by (simp add: scanned_lines_def set_scan_list v0)
  qed
  have files: "length (new_lines s2) \<le> file_count s0"
  proof -
    have "map open_view (views s2) = map (\<lambda>x. x \<noteq> None) (map (snd \<circ> snd) (views s2))"
      by (simp add: open_view_def)
    also have "\<dots> = map open_view (views fin)" unfolding pr(3) by (simp add: open_view_def)
    also have "\<dots> = map open_view (views s0)" unfolding fin_def by (rule scanned_open_views [OF sc])
    finally have "map open_view (views s2) = map open_view (views s0)" .
    moreover have count: "length (filter open_view vs) = length (filter id (map open_view vs))" for vs
      by (induction vs) auto
    ultimately have "length (filter open_view (views s2)) = length (filter open_view (views s0))"
      by (simp only: count)
    then show ?thesis by (simp add: length_new_lines_views file_count_views)
  qed
  have "rebuild_index paused threads scans marker s = rebuild_tail marker (file_count s0) c2 left1 s2"
    using pr(1) by (simp add: rebuild_index_def st0 sf(1) Let_def rebuild_tail_def)
  moreover have "lss_filtered_index fin = lss_filtered_index s" "lss_delegate fin = lss_delegate s"
    by (simp_all add: fin_def s0)
  moreover have "\<not> lss_force_rebuild s \<and> lss_index fin = lss_index s \<and> index_ok fin" if "\<not> rc_force c1"
    using that sf s0 st0 by (auto simp: fin_def forced_def)
  moreover have "length (lss_files s2) = length (lss_files s)" using len by simp
  moreover have "\<forall>i<length (lss_files s). view_lines (views s2 ! i) = scanned_lines paused scans s i"
    using lines2 by blast
  moreover have "\<not> lss_force_rebuild s2" using prepare_index_force [OF pr(1)] s0(6) by (simp add: fin_def)
  moreover have "left1" if "paused \<or> (\<forall>i\<in>opened s. scans i \<noteq> None)"
    using scan_files_left [of paused s0 scans threads c0] that sf(1) v0(2) by (auto simp: set_scan_list)
  ultimately show ?thesis
    using that [of fin c1 c2 s2 "file_count s0" left1] fok pr(1,2,4-6) files by blast
qed

lemma finish_rebuild_frame:
  "\<exists>act s''. finish_rebuild r k x = (r, act, s'') \<and> views s'' = views x \<and> lss_index s'' = lss_index x
     \<and> lss_filtered_index s'' = lss_filtered_index x \<and> lss_delegate s'' = lss_delegate x
     \<and> lss_force_rebuild s'' = lss_force_rebuild x"
  by (cases r) (auto simp: finish_rebuild_def)

text \<open>
  C1: whichever way it takes, a full sort, a partial rebuild or a merge of the new lines, and
  whether its files are scanned by threads or not, \<open>rebuild_index\<close> fails no assertion and leaves an
  index that holds every line of every open file that is not ignored exactly once, in the order of
  time, unless it ran out of time and asks for another rebuild.
\<close>

theorem rebuild_index_correct:
  assumes "rebuildable paused scans s"
  shows "\<exists>r act s'. rebuild_index paused threads scans marker s = Some (r, act, s') \<and> index_ok s'
    \<and> (lss_force_rebuild s' \<or> all_lines_indexed s')
    \<and> length (lss_files s') = length (lss_files s)
    \<and> (\<forall>i<length (lss_files s). view_lines (views s' ! i) = scanned_lines paused scans s i)"
proof (rule rebuild_phases [OF assms, of threads marker])
  fix fin c1 c2 s2 files left
  assume ok2: "files_ok (views s2)" and rdy: "if rc_full_sort c2 then lss_index s2 = [] else ready s2"
    and iok2: "index_ok s2" and all2: "rc_retval c2 = Rr_no_change \<and> \<not> rc_force c2 \<longrightarrow> all_lines_indexed s2"
    and len: "length (lss_files s2) = length (lss_files s)"
    and lines2: "\<forall>i<length (lss_files s). view_lines (views s2 ! i) = scanned_lines paused scans s i"
    and files: "length (new_lines s2) \<le> files"
    and run: "rebuild_index paused threads scans marker s = rebuild_tail marker files c2 left s2"
  let ?search = "if rc_force c2 then 0 else length (lss_filtered_index s2)"
  have iok: "index_ok x \<Longrightarrow> views y = views x \<Longrightarrow> lss_index y = lss_index x \<Longrightarrow> index_ok y" for x y
    by (simp add: index_ok_def)
  consider (early) "lss_index s2 = [] \<and> \<not> left"
    | (add) "\<not> (lss_index s2 = [] \<and> \<not> left)" "rc_retval c2 \<noteq> Rr_no_change \<or> rc_force c2"
    | (none) "\<not> (lss_index s2 = [] \<and> \<not> left)" "rc_retval c2 = Rr_no_change" "\<not> rc_force c2" by blast
  then show ?thesis
  proof cases
    case early
    then have "rebuild_index paused threads scans marker s
        = Some (Rr_appended_lines, No_search, s2\<lparr>lss_force_rebuild := True\<rparr>)" by (simp add: run rebuild_tail_def)
    moreover have "index_ok (s2\<lparr>lss_force_rebuild := True\<rparr>)" by (rule iok [OF iok2]) simp_all
    ultimately show ?thesis using len lines2 by simp
  next
    case add
    obtain s3 where s3: "add_lines marker (rc_full_sort c2) files s2 = Some s3" "index_ok s3"
      "views s3 = map index_all (views s2)"
      using add_lines_ok [OF ok2 rdy files] by blast
    obtain act s4 where s4: "finish_rebuild (rc_retval c2) ?search s3 = (rc_retval c2, act, s4)"
      "views s4 = views s3" "lss_index s4 = lss_index s3" using finish_rebuild_frame by blast
    have "rebuild_index paused threads scans marker s = Some (rc_retval c2, act, s4)"
      using add s3(1) s4(1) by (auto simp: run rebuild_tail_def Let_def)
    moreover have "index_ok s4" by (rule iok [OF s3(2) s4(2,3)])
    moreover have "all_lines_indexed s4" by (simp add: all_lines_indexed_def s4(2) s3(3) index_all_nothing_new)
    moreover have "length (lss_files s4) = length (lss_files s)"
      using arg_cong [OF s4(2), of length] s3(3) len by simp
    ultimately show ?thesis using lines2 len by (auto simp: s4(2) s3(3))
  next
    case none
    obtain act s4 where s4: "finish_rebuild (rc_retval c2) ?search s2 = (rc_retval c2, act, s4)"
      "views s4 = views s2" "lss_index s4 = lss_index s2" using finish_rebuild_frame by blast
    have "rebuild_index paused threads scans marker s = Some (rc_retval c2, act, s4)"
      using none s4(1) by (auto simp: run rebuild_tail_def Let_def)
    moreover have "index_ok s4" by (rule iok [OF iok2 s4(2,3)])
    moreover have "all_lines_indexed s4" using all2 none by (simp add: all_lines_indexed_def s4(2))
    moreover have "length (lss_files s4) = length (lss_files s)"
      using arg_cong [OF s4(2), of length] len by simp
    ultimately show ?thesis using lines2 by (auto simp: s4(2))
  qed
qed

text \<open>A file with two lines, and a second one that a scan finds a line for between them.\<close>

definition demo_file :: "nat \<Rightarrow> logline list \<Rightarrow> logfile" where
  "demo_file i lines = \<lparr>lf_id = i, lf_lines = lines, lf_time_ordered = True, lf_specialized = True,
     lf_remaining = 0, lf_longest_line = 10, lf_visible_option = True, lf_indexing = True,
     lf_metadata = (\<lambda>_. None)\<rparr>"

definition demo_lines :: "logline list" where
  "demo_lines = [logline_new 0 1000000 LEVEL_INFO, logline_new 20 5000000 LEVEL_ERROR]"

definition demo_data :: "nat \<Rightarrow> logfile \<Rightarrow> nat \<Rightarrow> logfile_data" where
  "demo_data i lf n = \<lparr>ld_file_index = i, ld_file_ptr = Some lf,
     ld_filter_state = (filter_state_init (\<lambda>_. 0))\<lparr>tfs_mask := [0, 0]\<rparr>,
     ld_lines_indexed = n, ld_visible = True\<rparr>"

definition demo_source :: log_source where
  "demo_source = \<lparr>lss_files = [demo_data 0 (demo_file 0 demo_lines) 2, demo_data 1 (demo_file 1 []) 0],
     lss_index = [\<lparr>ic_value = 0, ic_level = Normal_level\<rparr>, \<lparr>ic_value = 1, ic_level = Error_level\<rparr>],
     lss_capacity = 100, lss_filtered_index = [0, 1], lss_user_marks = (\<lambda>_. bv_empty),
     lss_view_marks = (\<lambda>_. bv_empty), lss_force_rebuild = False, lss_index_generation = 0,
     lss_longest_line = 0, lss_delegate = Some [0, 1], lss_marked_only = False,
     lss_line_meta_changed = False, tss_apply_filters = True,
     tss_filters = \<lparr>fs_generation = 0, fs_reserved = 0, fs_filters = []\<rparr>,
     tss_min_log_level = LEVEL_UNKNOWN, tss_level_filtered_count = 0,
     ttt_min_row_time = (0, 0), ttt_max_row_time = (9223372036854775807, 0)\<rparr>"

definition demo_scans :: scans where
  "demo_scans i =
    (if i = 0 then Some (demo_file 0 demo_lines, ld_filter_state (demo_data 0 (demo_file 0 []) 0), NO_NEW_LINES)
     else Some (demo_file 1 [logline_new 0 3000000 LEVEL_WARNING],
                ld_filter_state (demo_data 1 (demo_file 1 []) 0), NEW_LINES))"

lemma demo_views: "views demo_source = [(0, 2, Some demo_lines), (1, 0, Some [])]"
  by (simp add: views_def demo_source_def view_def demo_data_def demo_file_def demo_lines_def
      bare_def logline_new_def)

lemma demo_rebuildable: "rebuildable False demo_scans demo_source"
proof -
  have n: "length (lss_files demo_source) = 2" by (simp add: demo_source_def)
  have f: "files_ok (views demo_source)"
    unfolding demo_views
    by (auto simp: files_ok_def less_Suc_eq view_lines_def demo_lines_def logline_new_def
        logline_less_def MAX_LINES_PER_FILE_def)
  have p: "places (views demo_source) = {(0, 0), (0, 1)}"
    unfolding demo_views
    by (auto simp: places_def less_Suc_eq view_lines_def demo_lines_def logline_new_def line_in_def)
  have "index_ok demo_source"
    unfolding index_ok_def
  proof (intro exI conjI)
    show "lss_index demo_source = map (entry_of (views demo_source)) [(0, 0), (0, 1)]"
      unfolding demo_views
      by (simp add: demo_source_def entry_of_def line_in_def view_lines_def demo_lines_def new_content_def
          content_line_def logline_new_def level_from_log_def is_message_def)
    show "time_sorted (views demo_source) [(0, 0), (0, 1)]"
      unfolding demo_views
      by (simp add: time_sorted_def line_in_def view_lines_def demo_lines_def logline_new_def)
  qed (simp_all add: p)
  moreover have "scan_ok demo_scans (lss_files demo_source ! i) i" if "i < 2" for i
    using that
    by (auto simp: less_2_cases_iff scan_ok_def demo_scans_def demo_source_def demo_data_def demo_file_def
        demo_lines_def MAX_LINES_PER_FILE_def logline_new_def logline_less_def)
  ultimately show ?thesis using f n
    by (auto simp: rebuildable_def opened_def demo_scans_def)
qed

theorem rebuild_index_correct_witness:
  "\<exists>act s'. rebuild_index False 4 demo_scans (\<lambda>_ _. Some False) demo_source = Some (Rr_partial_rebuild, act, s')
    \<and> index_ok s' \<and> map ic_value (lss_index s') = [0, 134217728, 1] \<and> lss_filtered_index s' = [0, 1, 2]
    \<and> lss_delegate s' = Some [0, 134217728, 1]"
proof -
  have run: "map_option (\<lambda>(r, act, s'). (r, map ic_value (lss_index s'), lss_filtered_index s', lss_delegate s'))
      (rebuild_index False 4 demo_scans (\<lambda>_ _. Some False) demo_source)
    = Some (Rr_partial_rebuild, [0, 134217728, 1], [0, 1, 2], Some [0, 134217728, 1])"
    by code_simp
  from rebuild_index_correct [OF demo_rebuildable, of 4 "\<lambda>_ _. Some False"] obtain r act s' where
    "rebuild_index False 4 demo_scans (\<lambda>_ _. Some False) demo_source = Some (r, act, s')" "index_ok s'"
    by blast
  with run show ?thesis by auto
qed

end
