(* ===== verification/Log_Rows.thy ===== *)
theory Log_Rows
  imports Log_Rebuild
begin

text \<open>
  The visible rows of the index: which lines the filters let through, what the histogram was told of
  them, and the searches for a row by time and by line.
\<close>

section \<open>Which lines are shown\<close>

definition row_line :: "log_source \<Rightarrow> nat \<Rightarrow> logline" where
  "row_line s vl = the (find_line (at_row vl s) s)"

definition kept :: "bool \<Rightarrow> enabled_masks \<Rightarrow> log_source \<Rightarrow> nat \<Rightarrow> bool" where
  "kept skip_ignored m s k \<longleftrightarrow>
    (let (ld, line) = find_data (ic_value (lss_index s ! k)) s; lf = the (ld_file_ptr ld)
     in is_visible ld \<and> \<not> (skip_ignored \<and> ll_ignore (lf_lines lf ! line))
        \<and> (tss_apply_filters s \<longrightarrow> \<not> excluded m line (ld_filter_state ld) \<and> passes_extra lf line s))"

text \<open>Two states that show the same lines, when the marks do not matter.\<close>

definition row_view :: "logfile_data \<Rightarrow> bool \<times> filter_state \<times> logline list option" where
  "row_view ld = (ld_visible ld, ld_filter_state ld, map_option (map bare \<circ> lf_lines) (ld_file_ptr ld))"

definition same_rows :: "log_source \<Rightarrow> log_source \<Rightarrow> bool" where
  "same_rows s t \<longleftrightarrow> map row_view (lss_files t) = map row_view (lss_files s) \<and> lss_index t = lss_index s
     \<and> tss_apply_filters t = tss_apply_filters s \<and> tss_filters t = tss_filters s
     \<and> lss_marked_only t = lss_marked_only s \<and> tss_min_log_level t = tss_min_log_level s
     \<and> ttt_min_row_time t = ttt_min_row_time s \<and> ttt_max_row_time t = ttt_max_row_time s"

lemma same_rows_refl [simp]: "same_rows s s"
  by (simp add: same_rows_def)

lemma same_rows_trans: "same_rows s t \<Longrightarrow> same_rows t u \<Longrightarrow> same_rows s u"
  by (simp add: same_rows_def)

lemma same_rows_set_line: "same_rows s (set_line cl (\<lambda>ll. ll\<lparr>ll_expr_mark := b\<rparr>) s)"
proof -
  have "map bare (ls[k := (ls ! k)\<lparr>ll_expr_mark := b\<rparr>]) = map bare ls" for ls :: "logline list" and k
    by (rule map_update_id) simp
  then show ?thesis
    by (auto simp: same_rows_def set_line_def Let_def row_view_def split: option.splits
        intro!: map_update_id)
qed

lemma same_rows_update [simp]:
  "same_rows s (t\<lparr>lss_filtered_index := a\<rparr>) = same_rows s t"
  "same_rows s (t\<lparr>lss_view_marks := b\<rparr>) = same_rows s t"
  "same_rows s (t\<lparr>lss_user_marks := c\<rparr>) = same_rows s t"
  "same_rows s (t\<lparr>lss_delegate := d\<rparr>) = same_rows s t"
  "same_rows s (t\<lparr>tss_level_filtered_count := e\<rparr>) = same_rows s t"
  by (simp_all add: same_rows_def)

lemma same_rows_show_line: "same_rows s (show_line marker cl k s)"
  using same_rows_set_line [of s cl]
  by (auto simp: show_line_def Let_def index_line_def split: option.split)

lemma check_extra_eq: "fst (check_extra_filters lf k s) = passes_extra lf k s"
  by (auto simp: check_extra_filters_def passes_extra_def Let_def)

lemma same_rows_check_extra: "same_rows s (snd (check_extra_filters lf k s))"
  by (auto simp: check_extra_filters_def Let_def)

text \<open>A row of the index names a line that is there.\<close>

definition valid_row :: "log_source \<Rightarrow> nat \<Rightarrow> bool" where
  "valid_row s k \<longleftrightarrow> (let (ld, line) = find_data (ic_value (lss_index s ! k)) s in
     ic_value (lss_index s ! k) div MAX_LINES_PER_FILE < length (lss_files s)
     \<and> (\<forall>lf. ld_file_ptr ld = Some lf \<longrightarrow> line < length (lf_lines lf)))"

lemma kept_same:
  assumes "same_rows s t" and "valid_row s k" and "\<not> lss_marked_only s"
  shows "kept b m t k = kept b m s k"
proof -
  define i where "i = ic_value (lss_index s ! k) div MAX_LINES_PER_FILE"
  define line where "line = ic_value (lss_index s ! k) mod MAX_LINES_PER_FILE"
  have idx: "lss_index t = lss_index s" and rv: "map row_view (lss_files t) = map row_view (lss_files s)"
    using assms(1) by (simp_all add: same_rows_def)
  have i: "i < length (lss_files s)" "i < length (lss_files t)"
    using assms(2) arg_cong [OF rv, of length] by (simp_all add: valid_row_def find_data_def i_def)
  have v: "row_view (lss_files t ! i) = row_view (lss_files s ! i)"
    using arg_cong [OF rv, of "\<lambda>xs. xs ! i"] i by simp
  show ?thesis
  proof (cases "ld_file_ptr (lss_files s ! i)")
    case None
    with v have "ld_file_ptr (lss_files t ! i) = None" by (simp add: row_view_def)
    with None show ?thesis
      by (simp add: kept_def find_data_def idx i_def [symmetric] is_visible_def)
  next
    case (Some lf)
    with v obtain lf' where lf': "ld_file_ptr (lss_files t ! i) = Some lf'"
      "map bare (lf_lines lf') = map bare (lf_lines lf)" by (auto simp: row_view_def)
    have l: "line < length (lf_lines lf)"
      using assms(2) Some by (simp add: valid_row_def find_data_def i_def [symmetric] line_def)
    have "bare (lf_lines lf' ! line) = bare (lf_lines lf ! line)"
      using arg_cong [OF lf'(2), of "\<lambda>xs. xs ! line"] arg_cong [OF lf'(2), of length] l by simp
    then have "ll_ignore (lf_lines lf' ! line) = ll_ignore (lf_lines lf ! line)"
      "ll_level (lf_lines lf' ! line) = ll_level (lf_lines lf ! line)"
      "get_timeval (lf_lines lf' ! line) = get_timeval (lf_lines lf ! line)"
      by (metis bare_sel(2), metis (no_types) bare_def logline.select_convs(9) logline.surjective
        logline.update_convs(8), metis bare_sel(4))
    then show ?thesis using assms(1,3) v Some lf'(1)
      by (auto simp: kept_def find_data_def idx i_def [symmetric] line_def [symmetric] is_visible_def
          row_view_def passes_extra_def same_rows_def ll_less_tv_def ll_less_eq_tv_def)
  qed
qed

lemma show_line_delegate:
  "lss_delegate (show_line marker cl k s) = map_option (\<lambda>ls. ls @ [cl]) (lss_delegate s)"
  by (auto simp: show_line_def Let_def index_line_def set_line_def split: option.split)

lemma check_extra_other:
  "lss_filtered_index (snd (check_extra_filters lf k s)) = lss_filtered_index s"
  "lss_delegate (snd (check_extra_filters lf k s)) = lss_delegate s"
  by (auto simp: check_extra_filters_def Let_def)

lemma filter_line_row:
  "lss_filtered_index (filter_line b marker m k s) = lss_filtered_index s @ (if kept b m s k then [k] else [])
   \<and> lss_delegate (filter_line b marker m k s) = map_option (\<lambda>ls. ls @
       (if kept b m s k then [ic_value (lss_index s ! k)] else [])) (lss_delegate s)
   \<and> same_rows s (filter_line b marker m k s)"
proof -
  obtain ld line where f: "find_data (ic_value (lss_index s ! k)) s = (ld, line)" by fastforce
  define lf where "lf = the (ld_file_ptr ld)"
  obtain p s1 where c: "check_extra_filters lf line s = (p, s1)" by fastforce
  have p: "p = passes_extra lf line s" using check_extra_eq [of lf line s] c by simp
  have s1: "same_rows s s1" "lss_filtered_index s1 = lss_filtered_index s" "lss_delegate s1 = lss_delegate s"
    using same_rows_check_extra [of s lf line] check_extra_other [of lf line s] c by simp_all
  have show1: "same_rows s (show_line marker cl k s1)" for cl
    using s1(1) same_rows_show_line same_rows_trans by blast
  have k: "kept b m s k \<longleftrightarrow> is_visible ld \<and> \<not> (b \<and> ll_ignore (lf_lines lf ! line))
      \<and> (tss_apply_filters s \<longrightarrow> \<not> excluded m line (ld_filter_state ld) \<and> p)"
    by (simp add: kept_def f p lf_def Let_def)
  have d: "map_option (\<lambda>ls. ls) x = x" for x :: "nat list option" by (cases x) auto
  show ?thesis
    unfolding k
    by (simp add: filter_line_def f lf_def [symmetric] c Let_def s1 show1 same_rows_show_line
        show_line_delegate d)
qed

text \<open>The loop over the index keeps the rows of its start and adds those of the filters.\<close>

lemma filter_fold_rows:
  fixes s :: log_source and marker and m and b
  assumes "\<forall>k\<in>set ks. valid_row s k" and "\<not> lss_marked_only s"
  defines "t \<equiv> fold (filter_line b marker m) ks s"
  shows "lss_filtered_index t = lss_filtered_index s @ filter (kept b m s) ks
    \<and> lss_delegate t = map_option (\<lambda>ls. ls @ map (\<lambda>k. ic_value (lss_index s ! k)) (filter (kept b m s) ks))
        (lss_delegate s)
    \<and> same_rows s t"
  unfolding t_def using assms(1)
proof (induction ks rule: rev_induct)
  case Nil
  show ?case by (cases "lss_delegate s") simp_all
next
  case (snoc k ks)
  let ?t = "fold (filter_line b marker m) ks s"
  have IH: "lss_filtered_index ?t = lss_filtered_index s @ filter (kept b m s) ks"
    "lss_delegate ?t = map_option (\<lambda>ls. ls @ map (\<lambda>k. ic_value (lss_index s ! k)) (filter (kept b m s) ks))
        (lss_delegate s)" "same_rows s ?t"
    using snoc by auto
  have "kept b m ?t k = kept b m s k" using kept_same [OF IH(3) _ assms(2)] snoc.prems by simp
  moreover have "lss_index ?t = lss_index s" using IH(3) by (simp add: same_rows_def)
  ultimately show ?case
    using filter_line_row [of b marker m k ?t] IH same_rows_trans [OF IH(3)]
    by (auto simp: option.map_comp o_def)
qed

lemma valid_rows:
  assumes "files_ok (views s)" and "index_ok s" and "k < length (lss_index s)"
  shows "valid_row s k"
proof -
  obtain ps where ps: "lss_index s = map (entry_of (views s)) ps" "set ps = places (views s)"
    using assms(2) by (auto simp: index_ok_def)
  have p: "place_ok (views s) (ps ! k)"
    using ps assms(3) nth_mem [of k ps] place_ok_places by auto
  then have i: "fst (ps ! k) < length (lss_files s)" by (simp add: place_ok_def)
  have "snd (ps ! k) < MAX_LINES_PER_FILE"
    using p assms(1) by (auto simp: place_ok_def files_ok_def dest!: spec [of _ "fst (ps ! k)"])
  note dm = content_line_div_mod [OF this, of "fst (ps ! k)"]
  show ?thesis using p i assms(3) ps(1) ic_value_entry [OF assms(1) p]
    by (auto simp: valid_row_def find_data_def dm place_ok_def nth_views view_def view_lines_def)
qed

lemma same_rows_kept:
  "lss_files t = lss_files s \<Longrightarrow> lss_index t = lss_index s \<Longrightarrow> tss_apply_filters t = tss_apply_filters s \<Longrightarrow>
   lss_marked_only t = lss_marked_only s \<Longrightarrow> tss_min_log_level t = tss_min_log_level s \<Longrightarrow>
   ttt_min_row_time t = ttt_min_row_time s \<Longrightarrow> ttt_max_row_time t = ttt_max_row_time s \<Longrightarrow>
   kept b m t = kept b m s"
  by (intro ext) (simp add: kept_def find_data_def passes_extra_def split: prod.split)

lemma views_refresh: "views (refresh_filters reobserve s) = views s"
  by (auto simp: refresh_filters_def refresh_file_def Let_def invalidate_sql_filter_def map_files_def
      views_def view_def intro!: nth_equalityI split: option.split)

lemma refresh_other:
  "lss_index (refresh_filters reobserve s) = lss_index s"
  "lss_force_rebuild (refresh_filters reobserve s) = lss_force_rebuild s"
  "lss_marked_only (refresh_filters reobserve s) = lss_marked_only s"
  "tss_filters (refresh_filters reobserve s) = tss_filters s"
  "lss_delegate (refresh_filters reobserve s) = lss_delegate s"
  by (simp_all add: refresh_filters_def Let_def invalidate_sql_filter_def map_files_def)

text \<open>
  C2: after the filters were changed, when no rebuild is pending and not only marked lines are shown, the visible rows are exactly the rows of the index whose file
  is visible and whose line passes the text filters, the level and the times, in the order of the
  index, and the histogram was told of exactly their lines.
\<close>

theorem filters_changed_rows:
  assumes "files_ok (views s)" and "index_ok s" and "\<not> lss_force_rebuild s" and "\<not> lss_marked_only s"
    and t: "t = text_filters_changed marker reobserve s"
  shows "lss_index t = lss_index s \<and> index_ok t
    \<and> lss_filtered_index t = filter (kept False (get_enabled_mask (tss_filters s)) (refresh_filters reobserve s))
        [0..<length (lss_index s)]
    \<and> lss_delegate t = map_option (\<lambda>_. map (\<lambda>vl. at_row vl t) [0..<text_line_count t]) (lss_delegate s)"
proof -
  define s0 where "s0 = refresh_filters reobserve
    (s\<lparr>lss_index_generation := lss_index_generation s + 1, tss_level_filtered_count := 0\<rparr>)"
  define s1 where "s1 = (index_start s0)\<lparr>lss_view_marks := (lss_view_marks (index_start s0))
      (BM_USER_EXPR := bv_clear (lss_view_marks (index_start s0) BM_USER_EXPR)), lss_filtered_index := []\<rparr>"
  let ?m = "get_enabled_mask (tss_filters s)" and ?ks = "[0..<length (lss_index s)]"
  have s0: "lss_index s0 = lss_index s" "lss_force_rebuild s0 = lss_force_rebuild s"
    "lss_marked_only s0 = lss_marked_only s" "tss_filters s0 = tss_filters s" "lss_delegate s0 = lss_delegate s"
    by (simp_all add: s0_def refresh_other)
  have v0: "views s0 = views s"
    unfolding s0_def views_refresh by (simp add: views_def)
  have k0: "kept False ?m s1 = kept False ?m (refresh_filters reobserve s)"
    by (rule same_rows_kept)
      (simp_all add: s1_def s0_def index_start_def refresh_filters_def Let_def invalidate_sql_filter_def map_files_def)
  have s1: "lss_index s1 = lss_index s" "tss_filters s1 = tss_filters s" "lss_filtered_index s1 = []"
    "lss_delegate s1 = map_option (\<lambda>_. []) (lss_delegate s)" "views s1 = views s" "\<not> lss_marked_only s1"
    using s0 v0 assms(4) by (simp_all add: s1_def index_start_def views_def)
  have ok1: "index_ok s1" using assms(2) s1 by (simp add: index_ok_def)
  have "t = filter_rows False marker 0 s1"
    using assms(3) s0(2) by (simp add: t text_filters_changed_def Let_def s0_def [symmetric] s1_def)
  then have t1: "t = fold (filter_line False marker ?m) ?ks s1"
    using s1(1,2) by (simp add: filter_rows_def)
  have "\<forall>k\<in>set ?ks. valid_row s1 k" using valid_rows [of s1] assms(1) s1(1,5) ok1 by simp
  note rows = filter_fold_rows [OF this s1(6), of False marker ?m, folded t1]
  have fi: "lss_filtered_index t = filter (kept False ?m (refresh_filters reobserve s)) ?ks"
    using rows s1(3) by (simp add: k0)
  have idx: "lss_index t = lss_index s" using rows s1(1) by (simp add: same_rows_def)
  have "views t = views s" using s1(5) filter_rows_frame(1) [of False marker 0 s1] s1(1,2)
    by (simp add: t1 filter_rows_def)
  then have "index_ok t" using assms(2) idx by (simp add: index_ok_def)
  moreover have "lss_delegate t = map_option (\<lambda>_. map (\<lambda>vl. at_row vl t) [0..<text_line_count t]) (lss_delegate s)"
  proof -
    have "map (\<lambda>vl. at_row vl t) [0..<text_line_count t]
        = map (\<lambda>k. ic_value (lss_index s ! k)) (map ((!) (lss_filtered_index t)) [0..<length (lss_filtered_index t)])"
      by (simp add: at_row_def text_line_count_def idx)
    then have "map (\<lambda>vl. at_row vl t) [0..<text_line_count t]
        = map (\<lambda>k. ic_value (lss_index s ! k)) (lss_filtered_index t)"
      by (simp only: map_nth)
    then show ?thesis using rows s1 fi k0 by (cases "lss_delegate s") simp_all
  qed
  ultimately show ?thesis using idx fi by blast
qed

text \<open>The demonstration files when lines below a warning are to be hidden.\<close>

definition demo_level :: log_source where
  "demo_level = demo_source\<lparr>tss_min_log_level := LEVEL_WARNING\<rparr>"

theorem filters_changed_rows_witness:
  "index_ok (text_filters_changed (\<lambda>_ _. None) (\<lambda>_ fs. fs) demo_level)
   \<and> lss_filtered_index (text_filters_changed (\<lambda>_ _. None) (\<lambda>_ fs. fs) demo_level) = [1]
   \<and> lss_delegate (text_filters_changed (\<lambda>_ _. None) (\<lambda>_ fs. fs) demo_level) = Some [1]"
proof -
  let ?t = "text_filters_changed (\<lambda>_ _. None) (\<lambda>_ fs. fs) demo_level"
  have v: "views demo_level = views demo_source" "lss_index demo_level = lss_index demo_source"
    "\<not> lss_force_rebuild demo_level" "\<not> lss_marked_only demo_level" "lss_delegate demo_level = Some [0, 1]"
    by (simp_all add: demo_level_def demo_source_def views_def)
  have ok: "files_ok (views demo_level)" "index_ok demo_level"
    using demo_rebuildable v by (simp_all add: rebuildable_def index_ok_def demo_source_def)
  note r = filters_changed_rows [OF ok v(3,4) refl, of "\<lambda>_ _. None" "\<lambda>_ fs. fs"]
  let ?m = "get_enabled_mask (tss_filters demo_level)" and ?u = "refresh_filters (\<lambda>_ fs. fs) demo_level"
  have m: "\<not> excluded ?m k fs" for k fs
    by (simp add: excluded_def get_enabled_mask_def demo_level_def demo_source_def)
  have u: "lss_index ?u = lss_index demo_source" "\<not> lss_marked_only ?u" "tss_min_log_level ?u = LEVEL_WARNING"
    "ttt_min_row_time ?u = (0, 0)" "ttt_max_row_time ?u = (9223372036854775807, 0)"
    "tss_apply_filters ?u" "ld_file_ptr (lss_files ?u ! 0) = Some (demo_file 0 demo_lines)" "ld_visible (lss_files ?u ! 0)"
    by (simp_all add: refresh_filters_def refresh_file_def demo_level_def demo_source_def demo_data_def upt_rec)
  have "kept False ?m ?u k = (k = 1)" if "k < 2" for k
    using that m u by (auto simp: kept_def find_data_def is_visible_def passes_extra_def demo_source_def
      demo_file_def demo_lines_def less_2_cases_iff MAX_LINES_PER_FILE_def logline_new_def
      ll_less_tv_def ll_less_eq_tv_def get_timeval_def tv_less_def tv_less_eq_def less_log_level_def)
  then have "lss_filtered_index ?t = [1]"
    using r by (simp add: v demo_source_def upt_rec)
  moreover have "lss_index ?t = lss_index demo_source" using r v(2) by simp
  ultimately show ?thesis using r v(5)
    by (simp add: at_row_def text_line_count_def demo_source_def)
qed

section \<open>Rows and histogram over a rebuild\<close>

definition rows_ok :: "log_source \<Rightarrow> bool" where
  "rows_ok s \<longleftrightarrow> sorted_wrt (<) (lss_filtered_index s)
     \<and> (\<forall>k\<in>set (lss_filtered_index s). k < length (lss_index s))
     \<and> (\<forall>ls. lss_delegate s = Some ls \<longrightarrow> ls = map (\<lambda>k. ic_value (lss_index s ! k)) (lss_filtered_index s))"

lemma filter_fold_told:
  "sorted_wrt (<) ks \<Longrightarrow> \<exists>xs. lss_filtered_index (fold (filter_line b marker m) ks s) = lss_filtered_index s @ xs
    \<and> sorted_wrt (<) xs \<and> set xs \<subseteq> set ks \<and> lss_index (fold (filter_line b marker m) ks s) = lss_index s
    \<and> lss_delegate (fold (filter_line b marker m) ks s)
      = map_option (\<lambda>ls. ls @ map (\<lambda>k. ic_value (lss_index s ! k)) xs) (lss_delegate s)"
proof (induction ks rule: rev_induct)
  case Nil
  show ?case by (cases "lss_delegate s") (auto intro: exI [of _ "[]"])
next
  case (snoc k ks)
  let ?t = "fold (filter_line b marker m) ks s"
  obtain xs where xs: "lss_filtered_index ?t = lss_filtered_index s @ xs" "sorted_wrt (<) xs"
    "set xs \<subseteq> set ks" "lss_index ?t = lss_index s"
    "lss_delegate ?t = map_option (\<lambda>ls. ls @ map (\<lambda>k. ic_value (lss_index s ! k)) xs) (lss_delegate s)"
    using snoc by (auto simp: sorted_wrt_append)
  note r = filter_line_row [of b marker m k ?t]
  have "sorted_wrt (<) (xs @ (if kept b m ?t k then [k] else []))"
    using xs(2,3) snoc.prems by (auto simp: sorted_wrt_append)
  moreover have "lss_index (filter_line b marker m k ?t) = lss_index s"
    using r xs(4) by (simp add: same_rows_def)
  ultimately show ?case using r xs
    by (intro exI [of _ "xs @ (if kept b m ?t k then [k] else [])"])
      (auto simp: option.map_comp o_def)
qed

lemma filter_rows_ok:
  assumes "rows_ok s" and "\<forall>k\<in>set (lss_filtered_index s). k < start_size"
  shows "rows_ok (filter_rows b marker start_size s)"
proof -
  let ?ks = "[start_size..<length (lss_index s)]" and ?t = "filter_rows b marker start_size s"
  obtain xs where xs: "lss_filtered_index ?t = lss_filtered_index s @ xs" "sorted_wrt (<) xs"
    "set xs \<subseteq> set ?ks" "lss_index ?t = lss_index s"
    "lss_delegate ?t = map_option (\<lambda>ls. ls @ map (\<lambda>k. ic_value (lss_index s ! k)) xs) (lss_delegate s)"
    using filter_fold_told [of ?ks b marker "get_enabled_mask (tss_filters s)" s]
    by (auto simp: filter_rows_def)
  have "x < y" if "x \<in> set (lss_filtered_index s)" "y \<in> set xs" for x y
    using that assms(2) xs(3) by fastforce
  moreover have "k < length (lss_index s)" if "k \<in> set xs" for k using that xs(3) by auto
  ultimately show ?thesis using assms(1) xs
    by (auto simp: rows_ok_def sorted_wrt_append)
qed

text \<open>Adding lines leaves the rows, the histogram and the flags alone until the filters are run.\<close>

definition rows_part :: "log_source \<Rightarrow> nat list \<times> nat list option \<times> bool" where
  "rows_part s = (lss_filtered_index s, lss_delegate s, lss_force_rebuild s)"

lemma rows_part_fold: "(\<And>x s. rows_part (f x s) = rows_part s) \<Longrightarrow> rows_part (fold f xs s) = rows_part s"
  by (induction xs arbitrary: s) auto

lemma rows_part_push [simp]: "rows_part (push_line i kl s) = rows_part s"
  by (cases kl) (simp add: push_line_def mark_metadata_def Let_def rows_part_def)

lemma rows_part_update [simp]:
  "rows_part (s\<lparr>lss_index := xs\<rparr>) = rows_part s" "rows_part (map_files f s) = rows_part s"
  "rows_part (widen s) = rows_part s" "rows_part (all_indexed s) = rows_part s"
  by (simp_all add: rows_part_def map_files_def widen_def all_indexed_def)

lemma rows_part_sort [simp]: "rows_part (sort_lines s) = rows_part s"
  unfolding sort_lines_def Let_def rows_part_update by (intro rows_part_fold rows_part_push)

lemma merge_linesE:
  assumes "merge_lines files s = Some s'"
  obtains out where "s' = fold (\<lambda>x. push_line (fst x) (snd x)) out s"
  using assms by (auto simp: merge_lines_def split_def)

lemma rows_part_merge: "merge_lines files s = Some s' \<Longrightarrow> rows_part s' = rows_part s"
  by (erule merge_linesE) (simp add: rows_part_fold)

lemma push_appends: "\<exists>xs. lss_index (push_line i kl t) = lss_index t @ xs"
  by (cases kl) (simp add: push_line_def mark_metadata_def Let_def)

lemma pushes_append: "\<exists>xs. lss_index (fold (\<lambda>x. push_line (fst x) (snd x)) out t) = lss_index t @ xs"
proof (induction out arbitrary: t)
  case (Cons x out)
  obtain xs where xs: "lss_index (push_line (fst x) (snd x) t) = lss_index t @ xs"
    using push_appends by blast
  obtain ys where "lss_index (fold (\<lambda>x. push_line (fst x) (snd x)) out (push_line (fst x) (snd x) t))
      = lss_index (push_line (fst x) (snd x) t) @ ys"
    using Cons.IH by blast
  with xs show ?case by simp
qed simp

lemma merge_lines_appends: "merge_lines files s = Some s' \<Longrightarrow> \<exists>xs. lss_index s' = lss_index s @ xs"
  by (elim merge_linesE) (simp add: pushes_append)

lemma rows_ok_empty: "lss_filtered_index s = [] \<Longrightarrow> lss_delegate s \<in> {None, Some []} \<Longrightarrow> rows_ok s"
  by (auto simp: rows_ok_def)

lemma rows_ok_append:
  "rows_ok s \<Longrightarrow> rows_part t = rows_part s \<Longrightarrow> lss_index t = lss_index s @ xs \<Longrightarrow> rows_ok t"
  by (auto simp: rows_ok_def rows_part_def nth_append cong: map_cong)

lemma add_lines_rows:
  assumes "rows_ok s" and "full_sort \<Longrightarrow> lss_index s = []"
    and "add_lines marker full_sort files s = Some t"
  shows "rows_ok t"
proof -
  let ?w = "widen s" and ?n = "length (lss_index s)"
  obtain s1 where s1: "(if full_sort then Some (sort_lines ?w) else merge_lines files ?w) = Some s1"
    "t = filter_rows True marker ?n (if ?n = 0 then index_start (all_indexed s1) else all_indexed s1)"
    using assms(3) by (auto simp: add_lines_def Let_def)
  have rp: "rows_part s1 = rows_part s"
    using s1(1) rows_part_merge [of files ?w s1] by (auto split: if_splits)
  obtain xs where xs: "lss_index s1 = lss_index s @ xs"
    using s1(1) merge_lines_appends [of files ?w s1] assms(2) by (auto split: if_splits)
  have low: "\<forall>k\<in>set (lss_filtered_index s). k < ?n" using assms(1) by (simp add: rows_ok_def)
  show ?thesis
  proof (cases "?n = 0")
    case True
    then have "lss_filtered_index s1 = []" using low rp by (simp add: rows_part_def)
    then have "rows_ok (index_start (all_indexed s1))"
      by (intro rows_ok_empty) (cases "lss_delegate (all_indexed s1)"; simp add: index_start_def)+
    then show ?thesis using True \<open>lss_filtered_index s1 = []\<close> by (auto simp: s1(2) intro!: filter_rows_ok)
  next
    case False
    have "rows_ok (all_indexed s1)" using rows_ok_append [OF assms(1), of "all_indexed s1" xs] rp xs by simp
    then show ?thesis using False low rp
      by (auto simp: s1(2) rows_part_def intro!: filter_rows_ok)
  qed
qed

lemma rows_part_force: "rows_part s = rows_part t \<Longrightarrow> lss_force_rebuild s = lss_force_rebuild t"
  by (simp add: rows_part_def)

lemma filter_line_force: "lss_force_rebuild (filter_line b marker m k s) = lss_force_rebuild s"
proof -
  have sh: "lss_force_rebuild (show_line marker cl k t) = lss_force_rebuild t" for cl t
    by (simp add: show_line_def index_line_def set_line_def Let_def split: option.split)
  have ce: "lss_force_rebuild (snd (check_extra_filters lf l s)) = lss_force_rebuild s" for lf l
    by (simp add: check_extra_filters_def Let_def)
  obtain ld line where f: "find_data (ic_value (lss_index s ! k)) s = (ld, line)" by fastforce
  obtain p s1 where c: "check_extra_filters (the (ld_file_ptr ld)) line s = (p, s1)" by fastforce
  have "lss_force_rebuild s1 = lss_force_rebuild s"
    using ce [of "the (ld_file_ptr ld)" line] c by simp
  then show ?thesis by (simp add: filter_line_def f c Let_def sh)
qed

lemma add_lines_force:
  assumes "add_lines marker full_sort files s = Some t"
  shows "lss_force_rebuild t = lss_force_rebuild s"
proof -
  have fold: "lss_force_rebuild (fold (filter_line b marker m) ks x) = lss_force_rebuild x" for b m ks x
    by (induction ks arbitrary: x) (auto simp: filter_line_force)
  obtain s1 where s1: "(if full_sort then Some (sort_lines (widen s)) else merge_lines files (widen s)) = Some s1"
    "t = filter_rows True marker (length (lss_index s))
           (if length (lss_index s) = 0 then index_start (all_indexed s1) else all_indexed s1)"
    using assms by (auto simp: add_lines_def Let_def)
  have "rows_part s1 = rows_part s"
    using s1(1) rows_part_merge [of files "widen s" s1] by (auto split: if_splits)
  then show ?thesis
    by (simp add: s1(2) filter_rows_def fold rows_part_force [of "all_indexed s1" s])
qed

text \<open>The cut takes the rows of the lines it takes.\<close>

lemma length_takeWhile_gt:
  assumes "k < length xs" and "\<And>i. i \<le> k \<Longrightarrow> P (xs ! i)"
  shows "k < length (takeWhile P xs)"
proof (rule ccontr)
  assume "\<not> k < length (takeWhile P xs)"
  then have "length (takeWhile P xs) \<le> k" "length (takeWhile P xs) < length xs" using assms(1) by auto
  then show False using assms(2) nth_length_takeWhile by blast
qed

lemma reload_rows_delegate:
  "lss_delegate (reload_rows s) = map_option (\<lambda>_. map (\<lambda>k. ic_value (lss_index s ! k)) (lss_filtered_index s))
     (lss_delegate s)"
proof -
  have "lss_delegate (fold (\<lambda>k. index_line (f k)) ks t) = map_option (\<lambda>ls. ls @ map f ks) (lss_delegate t)"
    for f :: "nat \<Rightarrow> nat" and ks t
    by (induction ks arbitrary: t) (auto simp: index_line_def option.map_comp o_def option.map_ident)
  from this [of "\<lambda>k. ic_value (lss_index s ! k)" "lss_filtered_index s" "index_start s"] show ?thesis
    by (simp add: reload_rows_def index_start_def option.map_comp o_def)
qed

lemma rows_ok_reload:
  "sorted_wrt (<) (lss_filtered_index s) \<Longrightarrow> \<forall>k\<in>set (lss_filtered_index s). k < length (lss_index s) \<Longrightarrow>
   rows_ok (reload_rows s)"
  by (auto simp: rows_ok_def reload_rows_delegate)

lemma cut_index_rows:
  assumes "files_ok (views s)" and "index_ok s" and "rows_ok s" and "cut_index t s = Some s'"
  shows "rows_ok s'"
proof -
  define s1 where "s1 = map_files (\<lambda>ld. case ld_file_ptr ld of None \<Rightarrow> ld
             | Some lf \<Rightarrow> ld\<lparr>ld_lines_indexed := (case lf_find_from_time t lf of
                 Some k \<Rightarrow> k | None \<Rightarrow> length (lf_lines lf))\<rparr>) s"
  have v1: "views s1 = map (cut_view t) (views s)"
    by (auto simp: s1_def map_files_def views_def view_def cut_view_def lf_find_from_time_def Let_def
        takeWhile_map o_def split: option.splits)
  have s1: "lss_index s1 = lss_index s" "lss_filtered_index s1 = lss_filtered_index s"
    by (simp_all add: s1_def map_files_def)
  have ok1: "files_ok (views s1)" using assms(1) by (simp add: v1 files_ok_def)
  define n where "n = length (takeWhile (\<lambda>ic. ll_less_tv (ic_line s1 ic) t) (lss_index s1))"
  have s': "s' = reload_rows (s1\<lparr>lss_index := take n (lss_index s1),
      lss_filtered_index := take (lower_row t s1) (lss_filtered_index s1)\<rparr>)"
    using assms(4) by (auto simp: cut_index_def Let_def s1_def [symmetric] n_def split: if_splits)
  obtain ps where ps: "lss_index s = map (entry_of (views s)) ps" "set ps = places (views s)"
    "time_sorted (views s) ps"
    using assms(2) by (auto simp: index_ok_def)
  have line: "find_line (ic_value (lss_index s1 ! k)) s1 = Some (ic_line s1 (lss_index s1 ! k))
      \<and> bare (ic_line s1 (lss_index s1 ! k)) = line_in (views s) (ps ! k)" if "k < length ps" for k
  proof -
    have "place_ok (views s) (ps ! k)" using that ps(2) nth_mem [of k ps] place_ok_places by auto
    then have p: "place_ok (views s1) (ps ! k)" "fst (ps ! k) < length (views s)"
      by (auto simp: v1 place_ok_def)
    have "lss_index s1 ! k = entry_of (views s1) (ps ! k)"
      using that p(2) by (simp add: s1 ps(1) v1)
    then show ?thesis
      using find_line_entry [OF ok1 p(1)] ic_line_entry [OF ok1 p(1)] p(2)
      by (auto simp: v1 ic_line_def)
  qed
  have low: "k < n" if k: "k \<in> set (take (lower_row t s1) (lss_filtered_index s1))" for k
  proof -
    have "k \<in> set (takeWhile (filtered_less_tv s1 t) (lss_filtered_index s1))"
      using k by (simp add: lower_row_def takeWhile_eq_take [symmetric])
    then have f: "filtered_less_tv s1 t k" "k \<in> set (lss_filtered_index s)"
      using set_takeWhileD s1 by metis+
    then have len: "k < length ps" using assms(3) ps(1) by (auto simp: rows_ok_def)
    have bt: "ll_less_tv (bare ll) t = ll_less_tv ll t" for ll by (simp add: ll_less_tv_def)
    have "ll_less_tv (ic_line s1 (lss_index s1 ! k)) t"
      using f(1) line [OF len] by (simp add: filtered_less_tv_def)
    then have kt: "ll_less_tv (line_in (views s) (ps ! k)) t" using line [OF len] bt by metis
    have "ll_less_tv (ic_line s1 (lss_index s1 ! i)) t" if "i \<le> k" for i
    proof -
      have "ll_time (line_in (views s) (ps ! i)) \<le> ll_time (line_in (views s) (ps ! k))"
        using ps(3) len that by (cases "i = k") (auto simp: time_sorted_def sorted_wrt_iff_nth_less)
      then have "ll_less_tv (line_in (views s) (ps ! i)) t" using kt ll_time_mono_tv by blast
      then show ?thesis using line [of i] bt that len by (metis le_less_trans)
    qed
    then show ?thesis
      unfolding n_def using len s1(1) ps(1) by (intro length_takeWhile_gt) auto
  qed
  have "sorted_wrt (<) (take (lower_row t s1) (lss_filtered_index s1))"
    using assms(3) s1(2) by (metis rows_ok_def append_take_drop_id sorted_wrt_append)
  moreover have "k < length (take n (lss_index s1))"
    if "k \<in> set (take (lower_row t s1) (lss_filtered_index s1))" for k
    using low [OF that] in_set_takeD [OF that] assms(3) s1 by (auto simp: rows_ok_def)
  ultimately show ?thesis unfolding s' by (intro rows_ok_reload) auto
qed

lemma prepare_index_rows:
  assumes "files_ok (views s)" and "\<not> rc_force c \<Longrightarrow> index_ok s \<and> rows_ok s"
    and "prepare_index c s = Some (c', s')"
  shows "rows_ok s'"
proof -
  define s1 where "s1 = (let (grown, s) = reserve_index (total_lines s) s
    in if grown then s\<lparr>tss_level_filtered_count := 0\<rparr> else s)"
  have s1: "views s1 = views s" "lss_index s1 = lss_index s" "rows_part s1 = rows_part s"
    by (simp_all add: s1_def reserve_index_def rows_part_def)
  have reset: "rows_ok (reset_index s1)"
    by (intro rows_ok_empty) (cases "lss_delegate s1"; simp add: reset_index_def Let_def map_files_def index_start_def)+
  have "rows_ok s1 \<and> index_ok s1" if "\<not> rc_force c"
    using assms(2) [OF that] s1 by (auto simp: rows_ok_def index_ok_def rows_part_def)
  with assms(1,3) s1(1) reset cut_index_rows [of s1 "the (rc_lowest c)"] show ?thesis
    by (auto simp: prepare_index_def s1_def Let_def force_full_def split: prod.splits if_splits)
qed

text \<open>
  C3: a rebuild keeps the visible rows in order and inside the index, and the histogram is always told
  of exactly the lines of the visible rows, also where the index was cut or sorted again.
\<close>

theorem rebuild_keeps_rows:
  assumes "rebuildable paused scans s" and "lss_force_rebuild s \<or> rows_ok s"
    and "rebuild_index paused threads scans marker s = Some (r, act, s')"
  shows "rows_ok s'"
proof (rule rebuild_phases [OF assms(1), of threads marker])
  fix fin c1 c2 s2 files left
  assume fin: "lss_filtered_index fin = lss_filtered_index s" "lss_delegate fin = lss_delegate s"
    and nf: "\<not> rc_force c1 \<Longrightarrow> \<not> lss_force_rebuild s \<and> lss_index fin = lss_index s \<and> index_ok fin"
    and pr: "files_ok (views fin)" "prepare_index c1 fin = Some (c2, s2)"
    and rdy: "if rc_full_sort c2 then lss_index s2 = [] else ready s2"
    and run: "rebuild_index paused threads scans marker s = rebuild_tail marker files c2 left s2"
  have "rows_ok fin" if "\<not> rc_force c1"
    using nf [OF that] fin assms(2) by (auto simp: rows_ok_def)
  then have ok2: "rows_ok s2" using prepare_index_rows [OF pr(1) _ pr(2)] nf by blast
  have same: "rows_ok x \<Longrightarrow> finish_rebuild rv k x = (r, act, y) \<Longrightarrow> rows_ok y" for x y rv k
    using finish_rebuild_frame [of rv k x] by (auto simp: rows_ok_def)
  have "rc_full_sort c2 \<Longrightarrow> lss_index s2 = []" using rdy by simp
  note add = add_lines_rows [OF ok2 this]
  have tail: "Some (r, act, s') = rebuild_tail marker files c2 left s2" using run assms(3) by simp
  consider (early) "lss_index s2 = [] \<and> \<not> left" | (add) "\<not> (lss_index s2 = [] \<and> \<not> left)"
      "rc_retval c2 \<noteq> Rr_no_change \<or> rc_force c2"
    | (none) "\<not> (lss_index s2 = [] \<and> \<not> left)" "\<not> (rc_retval c2 \<noteq> Rr_no_change \<or> rc_force c2)" by blast
  then show ?thesis
  proof cases
    case early
    with tail have "s' = s2\<lparr>lss_force_rebuild := True\<rparr>" by (simp add: rebuild_tail_def)
    with ok2 show ?thesis by (simp add: rows_ok_def)
  next
    case add2: add
    with tail obtain x k where "add_lines marker (rc_full_sort c2) files s2 = Some x"
      "finish_rebuild (rc_retval c2) k x = (r, act, s')"
      by (cases "add_lines marker (rc_full_sort c2) files s2") (auto simp: rebuild_tail_def Let_def)
    with add same show ?thesis by blast
  next
    case none
    with tail obtain k where "finish_rebuild (rc_retval c2) k s2 = (r, act, s')"
      by (auto simp: rebuild_tail_def Let_def)
    with ok2 same show ?thesis by blast
  qed
qed

theorem rebuild_keeps_rows_witness:
  "\<exists>act s'. rebuild_index False 4 demo_scans (\<lambda>_ _. Some False) demo_source = Some (Rr_partial_rebuild, act, s')
    \<and> rows_ok s'"
proof -
  have "map_option fst (rebuild_index False 4 demo_scans (\<lambda>_ _. Some False) demo_source) = Some Rr_partial_rebuild"
    by code_simp
  then obtain act s' where r: "rebuild_index False 4 demo_scans (\<lambda>_ _. Some False) demo_source
      = Some (Rr_partial_rebuild, act, s')" by auto
  have "rows_ok demo_source" by (simp add: rows_ok_def demo_source_def)
  with rebuild_keeps_rows [OF demo_rebuildable _ r] r show ?thesis by blast
qed

text \<open>
  C4: a rebuild for which there is time for every open file completes: the index is not asked for
  again and has every line of every file. A rebuild that ran out of time before the first line asks
  for the next one, so with time the index is completed.
\<close>

theorem rebuild_completes:
  assumes "rebuildable paused scans s" and "paused \<or> (\<forall>i\<in>opened s. scans i \<noteq> None)"
  shows "\<exists>r act s'. rebuild_index paused threads scans marker s = Some (r, act, s')
    \<and> \<not> lss_force_rebuild s' \<and> all_lines_indexed s'"
proof (rule rebuild_phases [OF assms(1), of threads marker])
  fix fin c1 c2 s2 files left
  assume pr: "files_ok (views s2)" "if rc_full_sort c2 then lss_index s2 = [] else ready s2"
    and all2: "rc_retval c2 = Rr_no_change \<and> \<not> rc_force c2 \<longrightarrow> all_lines_indexed s2"
    and files: "length (new_lines s2) \<le> files" and nf: "\<not> lss_force_rebuild s2"
    and left: "paused \<or> (\<forall>i\<in>opened s. scans i \<noteq> None) \<Longrightarrow> left"
    and run: "rebuild_index paused threads scans marker s = rebuild_tail marker files c2 left s2"
  have left by (rule left [OF assms(2)])
  define k where "k = (if rc_force c2 then 0 else length (lss_filtered_index s2))"
  show ?thesis
  proof (cases "rc_retval c2 \<noteq> Rr_no_change \<or> rc_force c2")
    case True
    obtain x where x: "add_lines marker (rc_full_sort c2) files s2 = Some x" "views x = map index_all (views s2)"
      using add_lines_ok [OF pr files] by blast
    obtain act s' where y: "finish_rebuild (rc_retval c2) k x = (rc_retval c2, act, s')"
      "views s' = views x" "lss_force_rebuild s' = lss_force_rebuild x" using finish_rebuild_frame by blast
    have "\<not> lss_force_rebuild x" using add_lines_force [OF x(1)] nf by simp
    with True \<open>left\<close> x y show ?thesis
      by (simp add: run rebuild_tail_def k_def [symmetric] all_lines_indexed_def index_all_nothing_new)
  next
    case False
    obtain act s' where y: "finish_rebuild (rc_retval c2) k s2 = (rc_retval c2, act, s')"
      "views s' = views s2" "lss_force_rebuild s' = lss_force_rebuild s2" using finish_rebuild_frame by blast
    have "rebuild_index paused threads scans marker s = Some (rc_retval c2, act, s')"
      using False \<open>left\<close> y(1) by (simp add: run rebuild_tail_def k_def)
    then show ?thesis using False nf all2 y(2,3) by (simp add: all_lines_indexed_def)
  qed
qed

text \<open>The demonstration files before anything was indexed, when a rebuild was asked for.\<close>

definition demo_fresh :: log_source where
  "demo_fresh = demo_source\<lparr>lss_index := [], lss_filtered_index := [], lss_force_rebuild := True\<rparr>"

theorem rebuild_completes_witness:
  "\<exists>r act s'. rebuild_index False 1 demo_scans (\<lambda>_ _. None) demo_fresh = Some (r, act, s')
    \<and> \<not> lss_force_rebuild s' \<and> all_lines_indexed s'"
proof (rule rebuild_completes)
  show "rebuildable False demo_scans demo_fresh"
    using demo_rebuildable by (simp add: rebuildable_def demo_fresh_def views_def opened_def)
qed (auto simp: demo_scans_def)

section \<open>Finding a row\<close>

text \<open>The rows of an index in order: each has its line, no later row an earlier time, no two the same line.\<close>

lemma rows_lines:
  assumes "files_ok (views s)" and "index_ok s" and "rows_ok s"
  shows "vl < text_line_count s \<Longrightarrow> find_line (at_row vl s) s = Some (row_line s vl)"
    and "vl \<le> vm \<Longrightarrow> vm < text_line_count s \<Longrightarrow> ll_time (row_line s vl) \<le> ll_time (row_line s vm)"
    and "vl < text_line_count s \<Longrightarrow> vm < text_line_count s \<Longrightarrow> at_row vl s = at_row vm s \<Longrightarrow> vl = vm"
proof -
  let ?vs = "views s" and ?r = "(!) (lss_filtered_index s)"
  obtain ps where ps: "lss_index s = map (entry_of ?vs) ps" "distinct ps" "set ps = places ?vs" "time_sorted ?vs ps"
    using assms(2) by (auto simp: index_ok_def)
  have r: "?r v < length ps" if "v < text_line_count s" for v
    using assms(3) that ps(1) by (simp add: rows_ok_def text_line_count_def)
  have p: "place_ok ?vs (ps ! ?r v)" if "v < text_line_count s" for v
    using nth_mem [OF r [OF that]] ps(3) place_ok_places by auto
  have a: "at_row v s = ic_value (entry_of ?vs (ps ! ?r v))" if "v < text_line_count s" for v
    using r [OF that] by (simp add: at_row_def ps(1))
  show l: "find_line (at_row v s) s = Some (row_line s v)" if "v < text_line_count s" for v
    using find_line_entry [OF assms(1) p [OF that]] by (auto simp: row_line_def a [OF that])
  have b: "ll_time (row_line s v) = ll_time (line_in ?vs (ps ! ?r v))" if "v < text_line_count s" for v
  proof -
    have "bare (row_line s v) = line_in ?vs (ps ! ?r v)"
      using find_line_entry [OF assms(1) p [OF that]] l [OF that] by (simp add: a [OF that])
    then show ?thesis using bare_sel(1) by metis
  qed
  have lt: "?r v < ?r w" if "v < w" "w < text_line_count s" for v w
    using assms(3) that by (simp add: rows_ok_def text_line_count_def sorted_wrt_iff_nth_less)
  show "ll_time (row_line s vl) \<le> ll_time (row_line s vm)" if v: "vl \<le> vm" "vm < text_line_count s"
    using v lt [of vl vm] r [OF v(2)] ps(4) b [of vl] b [of vm]
    by (cases "vl = vm") (auto simp: time_sorted_def sorted_wrt_iff_nth_less)
  show "vl = vm" if v: "vl < text_line_count s" "vm < text_line_count s" "at_row vl s = at_row vm s"
  proof -
    have "place_of (entry_of ?vs (ps ! ?r v)) = ps ! ?r v" if "v < text_line_count s" for v
      using place_of_entry [OF assms(1) p [OF that]] .
    then have "ps ! ?r vl = ps ! ?r vm"
      using v a by (metis place_of_def)
    then have "?r vl = ?r vm" using ps(2) r v by (simp add: nth_eq_iff_index_eq)
    then show ?thesis using lt [of vl vm] lt [of vm vl] v by (cases vl vm rule: linorder_cases) auto
  qed
qed

lemma lower_row_iff:
  assumes "files_ok (views s)" and "index_ok s" and "rows_ok s" and "vl < text_line_count s"
  shows "vl < lower_row t s \<longleftrightarrow> ll_less_tv (row_line s vl) t"
proof -
  note rl = rows_lines [OF assms(1-3)]
  have f: "filtered_less_tv s t (lss_filtered_index s ! v) = ll_less_tv (row_line s v) t"
    if "v < text_line_count s" for v
    using rl(1) [OF that] by (simp add: filtered_less_tv_def at_row_def)
  show ?thesis
  proof
    assume "vl < lower_row t s"
    then have "filtered_less_tv s t (takeWhile (filtered_less_tv s t) (lss_filtered_index s) ! vl)"
      using set_takeWhileD nth_mem unfolding lower_row_def by metis
    then show "ll_less_tv (row_line s vl) t"
      using \<open>vl < lower_row t s\<close> f [OF assms(4)] by (simp add: lower_row_def takeWhile_nth)
  next
    assume l: "ll_less_tv (row_line s vl) t"
    show "vl < lower_row t s"
      unfolding lower_row_def
    proof (rule length_takeWhile_gt)
      show "vl < length (lss_filtered_index s)" using assms(4) by (simp add: text_line_count_def)
      fix i assume "i \<le> vl"
      then show "filtered_less_tv s t (lss_filtered_index s ! i)"
        using f [of i] rl(2) [of i vl] ll_time_mono_tv [OF _ l, of "row_line s i"] assms(4) by simp
    qed
  qed
qed

text \<open>
  C10: the search for a time gives the first visible row that is not before the time, and nothing
  exactly if all rows are before it.
\<close>

theorem find_from_time_correct:
  assumes "files_ok (views s)" and "index_ok s" and "rows_ok s"
  shows "find_from_time t s =
    (if \<exists>vl<text_line_count s. \<not> ll_less_tv (row_line s vl) t
     then Some (LEAST vl. vl < text_line_count s \<and> \<not> ll_less_tv (row_line s vl) t) else None)"
proof -
  let ?n = "lower_row t s"
  have n: "?n \<le> text_line_count s" by (simp add: lower_row_def text_line_count_def length_takeWhile_le)
  note iff = lower_row_iff [OF assms, where t = t]
  show ?thesis
  proof (cases "?n = text_line_count s")
    case True
    then show ?thesis using iff by (auto simp: find_from_time_def Let_def text_line_count_def)
  next
    case False
    with n have lt: "?n < text_line_count s" by simp
    have "(LEAST vl. vl < text_line_count s \<and> \<not> ll_less_tv (row_line s vl) t) = ?n"
      by (rule Least_equality) (use lt iff [of ?n] iff in \<open>auto simp: not_less [symmetric]\<close>)
    with False lt iff [OF lt] show ?thesis
      by (auto simp: find_from_time_def Let_def text_line_count_def)
  qed
qed

lemma demo_rows_ok: "files_ok (views demo_source)" "index_ok demo_source" "rows_ok demo_source"
  using demo_rebuildable by (simp_all add: rebuildable_def rows_ok_def demo_source_def)

theorem find_from_time_correct_witness:
  "find_from_time (3, 0) demo_source =
    Some (LEAST vl. vl < text_line_count demo_source \<and> \<not> ll_less_tv (row_line demo_source vl) (3, 0))
   \<and> find_from_time (3, 0) demo_source = Some 1 \<and> find_from_time (9, 0) demo_source = None"
proof -
  have "find_from_time (3, 0) demo_source = Some 1" "find_from_time (9, 0) demo_source = None"
    by code_simp+
  then show ?thesis
    using find_from_time_correct [OF demo_rows_ok, of "(3, 0)"] by (auto split: if_splits)
qed

lemma row_loop_finds:
  "(\<And>x. x \<in> set xs \<Longrightarrow> int (ic_value (lss_index s ! x)) \<noteq> i
       \<and> get_timeval (the (find_line (ic_value (lss_index s ! x)) s)) = t) \<Longrightarrow>
   int (ic_value (lss_index s ! k)) = i \<Longrightarrow>
   row_loop s t i first (lb + 0) (xs @ k # ys) = lb + length xs"
proof (induction xs arbitrary: lb)
  case (Cons x xs)
  have "row_loop s t i first (lb + 1 + 0) (xs @ k # ys) = lb + 1 + length xs"
    by (rule Cons.IH) (use Cons.prems in auto)
  then show ?case using Cons.prems(1) [of x] by simp
qed simp

text \<open>
  C9: a row named by its time and line, as a view keeps it while the index is rebuilt, is found again:
  \<open>row_for\<close> inverts \<open>time_for_row\<close> for every visible row, also among rows of the same time.
\<close>

theorem row_for_time_for_row:
  assumes "files_ok (views s)" and "index_ok s" and "rows_ok s" and "vl < text_line_count s"
  shows "\<exists>t i. time_for_row vl s = Some (t, i) \<and> row_for t i s = Some vl"
proof -
  note rl = rows_lines [OF assms(1-3)]
  let ?t = "get_timeval (row_line s vl)" and ?i = "int (at_row vl s)" and ?f = "lss_filtered_index s"
  have tr: "time_for_row vl s = Some (?t, ?i)"
    using assms(4) by (simp add: time_for_row_def text_line_count_def row_line_def Let_def)
  define lb where "lb = lower_row ?t s"
  have irr: "\<not> ll_less_tv (row_line s vl) ?t" by (simp add: ll_less_tv_def tv_less_get_timeval)
  then have lb: "lb \<le> vl" using lower_row_iff [OF assms, of ?t] by (simp add: lb_def)
  have between: "at_row v s \<noteq> at_row vl s \<and> get_timeval (row_line s v) = ?t" if v: "lb \<le> v" "v < vl" for v
  proof -
    have c: "v < text_line_count s" using v assms(4) by simp
    have "\<not> ll_less_tv (row_line s v) ?t" using lower_row_iff [OF assms(1-3) c, of ?t] v by (simp add: lb_def)
    then have "ll_time (row_line s vl) \<le> ll_time (row_line s v)"
      by (simp add: ll_less_tv_def tv_less_get_timeval)
    moreover have "ll_time (row_line s v) \<le> ll_time (row_line s vl)" using rl(2) [of v vl] v assms(4) by simp
    ultimately show ?thesis using rl(3) [OF c assms(4)] v by (auto simp: get_timeval_def)
  qed
  have split: "drop lb ?f = take (vl - lb) (drop lb ?f) @ ?f ! vl # drop (Suc vl) ?f"
    using lb assms(4) id_take_nth_drop [of "vl - lb" "drop lb ?f"] by (simp add: text_line_count_def)
  have "row_loop s ?t ?i lb (lb + 0) (take (vl - lb) (drop lb ?f) @ ?f ! vl # drop (Suc vl) ?f)
      = lb + length (take (vl - lb) (drop lb ?f))"
  proof (rule row_loop_finds)
    fix x assume "x \<in> set (take (vl - lb) (drop lb ?f))"
    then obtain j where j: "j < vl - lb" "x = ?f ! (lb + j)"
      using assms(4) by (auto simp: in_set_conv_nth text_line_count_def)
    then show "int (ic_value (lss_index s ! x)) \<noteq> ?i
        \<and> get_timeval (the (find_line (ic_value (lss_index s ! x)) s)) = ?t"
      using between [of "lb + j"] by (simp add: at_row_def row_line_def)
  qed (simp add: at_row_def)
  then have "row_loop s ?t ?i lb lb (drop lb ?f) = vl"
    using lb assms(4) split by (simp add: text_line_count_def)
  moreover have "lb \<noteq> length ?f" using lb assms(4) by (simp add: text_line_count_def)
  ultimately have "row_for ?t ?i s = Some vl" by (simp add: row_for_def lb_def Let_def)
  with tr show ?thesis by blast
qed

theorem row_for_time_for_row_witness:
  "(\<exists>t i. time_for_row 1 demo_source = Some (t, i) \<and> row_for t i demo_source = Some 1)
   \<and> time_for_row 1 demo_source = Some ((5, 0), 1)"
proof
  show "time_for_row 1 demo_source = Some ((5, 0), 1)" by code_simp
  have "1 < text_line_count demo_source" by (simp add: text_line_count_def demo_source_def)
  then show "\<exists>t i. time_for_row 1 demo_source = Some (t, i) \<and> row_for t i demo_source = Some 1"
    by (rule row_for_time_for_row [OF demo_rows_ok])
qed

end
