(* ===== verification/Location_History.thy ===== *)
theory Location_History
  imports Log_Source "HOL-Library.Code_Target_Nat"
begin

text \<open>
  The history of locations of a view: the ring buffer \<open>nonstd::ring_span\<close> (\<open>src/ring_span.hh\<close>) as far
  as the histories use it, \<open>vis_location_history\<close> (\<open>src/textview_curses.cc\<close>, \<open>.hh\<close>) and
  \<open>log_location_history\<close> (\<open>src/logfile_sub_source.cc\<close>, \<open>.hh\<close>). Both keep their contract, which is the
  locale \<open>loc_history\<close>: the entries are a list of at most \<open>MAX_SIZE\<close> with a position counted from its
  end. An entry of the first is a row, an entry of the second a content line whose row is looked up.
\<close>

section \<open>The ring buffer\<close>

record 'a ring =
  rs_data :: "'a list"
  rs_size :: nat
  rs_front :: nat

definition rs_capacity :: "'a ring \<Rightarrow> nat" where
  "rs_capacity r = length (rs_data r)"

definition rs_full :: "'a ring \<Rightarrow> bool" where
  "rs_full r \<longleftrightarrow> rs_size r = rs_capacity r"

text \<open>Indexes are \<open>size_t\<close>.\<close>

definition rs_index :: "'a ring \<Rightarrow> nat \<Rightarrow> nat" where
  "rs_index r idx = ((rs_front r + idx) mod 2 ^ 64) mod rs_capacity r"

definition rs_at :: "'a ring \<Rightarrow> nat \<Rightarrow> 'a" where
  "rs_at r idx = rs_data r ! rs_index r idx"

text \<open>\<open>*(rbegin() + i)\<close>\<close>

definition rs_from_end :: "'a ring \<Rightarrow> nat \<Rightarrow> 'a" where
  "rs_from_end r i = rs_at r ((rs_size r + 2 ^ 64 - i - 1) mod 2 ^ 64)"

definition rs_erase_from :: "nat \<Rightarrow> 'a ring \<Rightarrow> 'a ring" where
  "rs_erase_from idx r = r\<lparr>rs_size := idx\<rparr>"

definition rs_push_back :: "'a \<Rightarrow> 'a ring \<Rightarrow> 'a ring" where
  "rs_push_back x r =
    (let r = (if rs_full r then r\<lparr>rs_front := (rs_front r + 1) mod rs_capacity r\<rparr>
              else r\<lparr>rs_size := rs_size r + 1\<rparr>)
     in r\<lparr>rs_data := (rs_data r)[rs_index r (rs_size r - 1) := x]\<rparr>)"

definition rs_new :: "'a list \<Rightarrow> 'a ring" where
  "rs_new backing = \<lparr>rs_data = backing, rs_size = 0, rs_front = 0\<rparr>"

section \<open>The histories\<close>

definition MAX_SIZE :: nat where
  "MAX_SIZE = 100"

record 'a history =
  lh_ring :: "'a ring"
  lh_position :: nat

definition history_new :: "'a list \<Rightarrow> 'a history" where
  "history_new backing = \<lparr>lh_ring = rs_new backing, lh_position = 0\<rparr>"

definition append_entry :: "'a \<Rightarrow> 'a history \<Rightarrow> 'a history" where
  "append_entry x h =
    \<lparr>lh_ring = rs_push_back x (rs_erase_from (rs_size (lh_ring h) - lh_position h) (lh_ring h)),
     lh_position = 0\<rparr>"

definition vis_append :: "int \<Rightarrow> int history \<Rightarrow> int history" where
  "vis_append row h = append_entry row h"

definition current_position :: "int history \<Rightarrow> int" where
  "current_position h = rs_from_end (lh_ring h) (lh_position h)"

definition vis_back :: "int \<Rightarrow> int history \<Rightarrow> int option \<times> int history" where
  "vis_back current h =
    (if lh_position h = 0 \<and> current_position h \<noteq> current then (Some (current_position h), h)
     else if lh_position h + 1 \<ge> rs_size (lh_ring h) then (None, h)
     else let h = h\<lparr>lh_position := lh_position h + 1\<rparr> in (Some (current_position h), h))"

definition vis_forward :: "int \<Rightarrow> int history \<Rightarrow> int option \<times> int history" where
  "vis_forward current h =
    (if lh_position h = 0 then (None, h)
     else let h = h\<lparr>lh_position := lh_position h - 1\<rparr> in (Some (current_position h), h))"

definition row_of_content :: "log_source \<Rightarrow> nat \<Rightarrow> int option" where
  "row_of_content s cl = map_option int (find_from_content cl s)"

definition log_append :: "log_source \<Rightarrow> int \<Rightarrow> nat history \<Rightarrow> nat history" where
  "log_append s row h =
    (if row < 0 \<or> row \<ge> int (text_line_count s) then h else append_entry (at_row (nat row) s) h)"

function log_back :: "log_source \<Rightarrow> int \<Rightarrow> nat history \<Rightarrow> int option \<times> nat history" where
  "log_back s current h =
    (if lh_position h < rs_size (lh_ring h)
     then let last_row = row_of_content s (rs_from_end (lh_ring h) 0) in
          if lh_position h = 0 \<and> last_row \<noteq> Some current then (last_row, h)
          else if lh_position h + 1 \<ge> rs_size (lh_ring h) then (None, h)
          else let h = h\<lparr>lh_position := lh_position h + 1\<rparr>;
                   row = row_of_content s (rs_from_end (lh_ring h) (lh_position h))
               in if row \<noteq> None then (row, h) else log_back s current h
     else (None, h))"
  by pat_completeness auto
termination by (relation "measure (\<lambda>(s, current, h). rs_size (lh_ring h) - lh_position h)") auto

declare log_back.simps [simp del]

function log_forward :: "log_source \<Rightarrow> int \<Rightarrow> nat history \<Rightarrow> int option \<times> nat history" where
  "log_forward s current h =
    (if lh_position h > 0
     then let h = h\<lparr>lh_position := lh_position h - 1\<rparr>;
              row = row_of_content s (rs_from_end (lh_ring h) (lh_position h))
          in if row \<noteq> None then (row, h) else log_forward s current h
     else (None, h))"
  by pat_completeness auto
termination by (relation "measure (\<lambda>(s, current, h). lh_position h)") auto

declare log_forward.simps [simp del]

section \<open>The ring buffer as a list\<close>

definition ring_ok :: "'a ring \<Rightarrow> bool" where
  "ring_ok r \<longleftrightarrow> 0 < rs_capacity r \<and> rs_capacity r < 2 ^ 32 \<and> rs_size r \<le> rs_capacity r
     \<and> rs_front r < rs_capacity r"

definition ring_list :: "'a ring \<Rightarrow> 'a list" where
  "ring_list r = map (rs_at r) [0..<rs_size r]"

lemma length_ring_list [simp]: "length (ring_list r) = rs_size r"
  by (simp add: ring_list_def)

lemma rs_index_small: "ring_ok r \<Longrightarrow> i \<le> rs_capacity r \<Longrightarrow> rs_index r i = (rs_front r + i) mod rs_capacity r"
  by (simp add: rs_index_def ring_ok_def)

lemma rs_from_end_nth:
  assumes "i < rs_size r" and "rs_size r < 2 ^ 64"
  shows "rs_from_end r i = rev (ring_list r) ! i"
proof -
  have "rs_size r + 2 ^ 64 - i - 1 = (rs_size r - i - 1) + 2 ^ 64" using assms by simp
  then have "(rs_size r + 2 ^ 64 - i - 1) mod 2 ^ 64 = rs_size r - i - 1"
    using assms by (simp only: mod_add_self2) simp
  then show ?thesis using assms by (simp add: rs_from_end_def rev_nth ring_list_def)
qed

lemma ring_list_erase: "n \<le> rs_size r \<Longrightarrow> ring_list (rs_erase_from n r) = take n (ring_list r)"
  by (simp add: ring_list_def rs_erase_from_def take_map rs_at_def [abs_def] rs_index_def rs_capacity_def)

lemma ring_ok_erase: "ring_ok r \<Longrightarrow> n \<le> rs_size r \<Longrightarrow> ring_ok (rs_erase_from n r)"
  by (simp add: ring_ok_def rs_erase_from_def rs_capacity_def)

lemma mod_add_inj:
  fixes f :: nat
  assumes "(f + i) mod n = (f + j) mod n" and "i < n" and "j < n"
  shows "i = j"
proof -
  have "i = j" if "i \<le> j" "(f + j) mod n = (f + i) mod n" "j < n" for i j
  proof -
    have "n dvd (f + j) - (f + i)" using that by (simp add: mod_eq_dvd_iff_nat)
    then show ?thesis using that by (auto dest: dvd_imp_le)
  qed
  from this [of i j] this [of j i] assms show ?thesis by (cases "i \<le> j") auto
qed

text \<open>A push drops the oldest entry of a full buffer.\<close>

lemma ring_push:
  assumes "ring_ok r"
  shows "ring_ok (rs_push_back x r)" and "rs_capacity (rs_push_back x r) = rs_capacity r"
    and "ring_list (rs_push_back x r) = (if rs_full r then tl (ring_list r) else ring_list r) @ [x]"
proof -
  let ?c = "rs_capacity r"
  define r1 where "r1 = (if rs_full r then r\<lparr>rs_front := (rs_front r + 1) mod ?c\<rparr>
              else r\<lparr>rs_size := rs_size r + 1\<rparr>)"
  have c: "0 < ?c" and cap: "rs_capacity r1 = ?c" and data: "rs_data r1 = rs_data r"
    using assms by (auto simp: ring_ok_def r1_def rs_capacity_def)
  have ok1: "ring_ok r1" using assms by (auto simp: ring_ok_def r1_def rs_capacity_def rs_full_def)
  have size1: "rs_size r1 = (if rs_full r then rs_size r else rs_size r + 1)" "0 < rs_size r1"
    using assms by (auto simp: r1_def rs_full_def ring_ok_def)
  define j where "j = rs_index r1 (rs_size r1 - 1)"
  have push: "rs_push_back x r = r1\<lparr>rs_data := (rs_data r)[j := x]\<rparr>"
    by (simp add: rs_push_back_def Let_def r1_def [symmetric] j_def data [symmetric])
  have idx: "rs_index (rs_push_back x r) i = rs_index r1 i" for i
    by (simp add: push rs_index_def rs_capacity_def data)
  show cp: "rs_capacity (rs_push_back x r) = ?c" by (simp add: push rs_capacity_def)
  show "ring_ok (rs_push_back x r)" using ok1 cap cp by (simp add: ring_ok_def push)
  have si: "rs_index r1 i = (rs_front r1 + i) mod ?c" if "i \<le> ?c" for i
    using rs_index_small [OF ok1] that cap by simp
  have s1c: "rs_size r1 \<le> ?c" using ok1 cap by (simp add: ring_ok_def)
  have jl: "j < length (rs_data r)" using c by (simp add: j_def rs_index_def cap) (simp add: rs_capacity_def)
  have last: "rs_at (rs_push_back x r) (rs_size r1 - 1) = x"
    unfolding rs_at_def idx using jl by (simp add: push j_def)
  have other: "rs_at (rs_push_back x r) i = rs_at r (if rs_full r then i + 1 else i)" if "i < rs_size r1 - 1" for i
  proof -
    have "rs_index r1 i \<noteq> j"
    proof
      assume "rs_index r1 i = j"
      then have "(rs_front r1 + i) mod ?c = (rs_front r1 + (rs_size r1 - 1)) mod ?c"
        using that s1c si [of i] si [of "rs_size r1 - 1"] by (simp add: j_def)
      moreover have "i < ?c" "rs_size r1 - 1 < ?c" using that s1c size1(2) by auto
      ultimately have "i = rs_size r1 - 1" by (rule mod_add_inj)
      with that show False by simp
    qed
    moreover have "rs_index r1 i = rs_index r (if rs_full r then i + 1 else i)"
    proof -
      have "rs_index r k = (rs_front r + k) mod ?c" if "k \<le> ?c" for k
        using rs_index_small [OF assms that] .
      then show ?thesis using that s1c si [of i] by (auto simp: r1_def mod_simps)
    qed
    ultimately show ?thesis unfolding rs_at_def idx by (simp add: push)
  qed
  have sp: "rs_size (rs_push_back x r) = Suc (rs_size r1 - 1)" using size1 by (simp add: push)
  have "ring_list (rs_push_back x r) = map (rs_at (rs_push_back x r)) [0..<rs_size r1 - 1] @ [x]"
    unfolding ring_list_def sp using last by simp
  also have "map (rs_at (rs_push_back x r)) [0..<rs_size r1 - 1]
      = (if rs_full r then tl (ring_list r) else ring_list r)"
    by (rule nth_equalityI) (auto simp: other nth_tl size1, simp_all add: ring_list_def)
  finally show "ring_list (rs_push_back x r) = (if rs_full r then tl (ring_list r) else ring_list r) @ [x]" .
qed

section \<open>The history as a list with a position\<close>

definition trail :: "'a history \<Rightarrow> 'a list" where
  "trail h = ring_list (lh_ring h)"

definition history_ok :: "'a history \<Rightarrow> bool" where
  "history_ok h \<longleftrightarrow> ring_ok (lh_ring h) \<and> rs_capacity (lh_ring h) = MAX_SIZE
     \<and> (lh_position h = 0 \<or> lh_position h < rs_size (lh_ring h))"

lemma history_ok_new: "length backing = MAX_SIZE \<Longrightarrow> history_ok (history_new backing) \<and> trail (history_new backing) = []"
  by (simp add: history_ok_def history_new_def rs_new_def ring_ok_def rs_capacity_def trail_def ring_list_def MAX_SIZE_def)

lemma length_trail: "length (trail h) = rs_size (lh_ring h)"
  by (simp add: trail_def)

lemma trail_empty_iff: "trail h = [] \<longleftrightarrow> rs_size (lh_ring h) = 0"
  using length_trail [of h] by auto

lemma entry_at: "history_ok h \<Longrightarrow> i < rs_size (lh_ring h) \<Longrightarrow> rs_from_end (lh_ring h) i = rev (trail h) ! i"
  unfolding trail_def by (rule rs_from_end_nth) (auto simp: history_ok_def ring_ok_def)

lemma history_ok_move:
  "history_ok h \<Longrightarrow> p = 0 \<or> p < rs_size (lh_ring h) \<Longrightarrow> history_ok (h\<lparr>lh_position := p\<rparr>)"
  "trail (h\<lparr>lh_position := p\<rparr>) = trail h"
  by (simp_all add: history_ok_def trail_def)

lemma bounded_append:
  "length ts = n \<Longrightarrow> n \<le> m \<Longrightarrow> 0 < m \<Longrightarrow>
   (let t = ts @ [x] in drop (length t - m) t) = (if n = m then tl ts else ts) @ [x]"
  by (simp add: drop_Suc)

lemma append_entry_ok:
  assumes "history_ok h"
  shows "history_ok (append_entry x h) \<and> lh_position (append_entry x h) = 0
    \<and> trail (append_entry x h) = (let t = take (length (trail h) - lh_position h) (trail h) @ [x]
        in drop (length t - MAX_SIZE) t)"
proof -
  let ?r = "lh_ring h" and ?n = "rs_size (lh_ring h) - lh_position h"
  let ?e = "rs_erase_from ?n ?r"
  have ok: "ring_ok ?r" "rs_capacity ?r = MAX_SIZE" using assms by (simp_all add: history_ok_def)
  have e: "ring_ok ?e" "rs_capacity ?e = MAX_SIZE" "ring_list ?e = take ?n (ring_list ?r)"
    using ok ring_ok_erase [of ?r ?n] ring_list_erase [of ?n ?r] by (simp_all add: rs_erase_from_def rs_capacity_def)
  have a: "append_entry x h = \<lparr>lh_ring = rs_push_back x ?e, lh_position = 0\<rparr>" by (simp add: append_entry_def)
  note p = ring_push [OF e(1), of x]
  have "rs_full ?e \<longleftrightarrow> ?n = MAX_SIZE" using e(2) by (simp add: rs_full_def rs_erase_from_def)
  moreover have "?n \<le> MAX_SIZE" using ok by (auto simp: ring_ok_def)
  ultimately have "ring_list (rs_push_back x ?e)
      = (let t = take ?n (ring_list ?r) @ [x] in drop (length t - MAX_SIZE) t)"
    using p(3) [unfolded e(3)] bounded_append [of "take ?n (ring_list ?r)" ?n MAX_SIZE x] by (simp add: MAX_SIZE_def)
  then show ?thesis using p(1,2) e(2) by (simp add: a history_ok_def trail_def)
qed

text \<open>
  C17: recording a location takes away the entries that were left by going back, keeps at most the last
  100 entries and puts the position at the end, whatever the state of the ring buffer.
\<close>

theorem append_entry_trail:
  assumes "history_ok h"
  shows "history_ok (append_entry x h) \<and> lh_position (append_entry x h) = 0
    \<and> trail (append_entry x h) = (let t = take (length (trail h) - lh_position h) (trail h) @ [x]
        in drop (length t - MAX_SIZE) t)"
  using assms by (rule append_entry_ok)

theorem append_entry_trail_witness:
  "history_ok (append_entry (7::int) (history_new (replicate MAX_SIZE 0)))
   \<and> trail (append_entry (7::int) (history_new (replicate MAX_SIZE 0))) = [7]"
proof -
  have "history_ok (history_new (replicate MAX_SIZE (0::int)))
      \<and> trail (history_new (replicate MAX_SIZE (0::int))) = []"
    by (rule history_ok_new) simp
  with append_entry_trail [of "history_new (replicate MAX_SIZE (0::int))" 7] show ?thesis
    by (simp add: MAX_SIZE_def)
qed

section \<open>The contract of a history\<close>

text \<open>Going back or forward some times, from the rows \<open>c 0\<close>, \<open>c 1\<close>, and so on.\<close>

definition walk :: "(int \<Rightarrow> 'h \<Rightarrow> int option \<times> 'h) \<Rightarrow> (nat \<Rightarrow> int) \<Rightarrow> nat \<Rightarrow> 'h \<Rightarrow> 'h" where
  "walk step c k h = fold (\<lambda>i h. snd (step (c i) h)) [0..<k] h"

locale loc_history =
  fixes ok :: "'h \<Rightarrow> bool" and entries :: "'h \<Rightarrow> 'e list" and pos :: "'h \<Rightarrow> nat"
    and resolve :: "'e \<Rightarrow> int option" and prev :: "int \<Rightarrow> 'h \<Rightarrow> int option \<times> 'h"
    and succ :: "int \<Rightarrow> 'h \<Rightarrow> int option \<times> 'h"
  assumes position: "ok h \<Longrightarrow> pos h = 0 \<or> pos h < length (entries h)"
    and back_to_last: "ok h \<Longrightarrow> pos h = 0 \<Longrightarrow> entries h \<noteq> [] \<Longrightarrow> resolve (last (entries h)) = Some v \<Longrightarrow>
      v \<noteq> cur \<Longrightarrow> prev cur h = (Some v, h)"
    and back_step: "ok h \<Longrightarrow> pos h > 0 \<or> resolve (last (entries h)) = Some cur \<Longrightarrow>
      pos h + 1 < length (entries h) \<Longrightarrow> resolve (rev (entries h) ! (pos h + 1)) = Some v \<Longrightarrow>
      fst (prev cur h) = Some v \<and> ok (snd (prev cur h)) \<and> entries (snd (prev cur h)) = entries h
      \<and> pos (snd (prev cur h)) = pos h + 1"
    and back_end: "ok h \<Longrightarrow> pos h > 0 \<or> resolve (last (entries h)) = Some cur \<Longrightarrow>
      pos h + 1 = length (entries h) \<Longrightarrow> prev cur h = (None, h)"
    and forward_step: "ok h \<Longrightarrow> pos h > 0 \<Longrightarrow> resolve (rev (entries h) ! (pos h - 1)) = Some v \<Longrightarrow>
      fst (succ cur h) = Some v \<and> ok (snd (succ cur h)) \<and> entries (snd (succ cur h)) = entries h
      \<and> pos (snd (succ cur h)) = pos h - 1"
    and forward_end: "ok h \<Longrightarrow> pos h = 0 \<Longrightarrow> succ cur h = (None, h)"
begin

lemma walk_back:
  assumes "ok h" and "pos h = 0" and "\<forall>e\<in>set (entries h). resolve e \<noteq> None"
    and "resolve (last (entries h)) = Some (c 0)"
  shows "k < length (entries h) \<Longrightarrow> ok (walk prev c k h) \<and> entries (walk prev c k h) = entries h
    \<and> pos (walk prev c k h) = k"
proof (induction k)
  case 0
  show ?case using assms by (simp add: walk_def)
next
  case (Suc k)
  let ?h = "walk prev c k h"
  have IH: "ok ?h" "entries ?h = entries h" "pos ?h = k" using Suc by simp_all
  have "rev (entries h) ! (k + 1) \<in> set (entries h)" using Suc.prems nth_mem [of "k + 1" "rev (entries h)"] by simp
  then obtain v where "resolve (rev (entries h) ! (k + 1)) = Some v" using assms(3) by blast
  moreover have "pos ?h > 0 \<or> resolve (last (entries ?h)) = Some (c k)"
    using IH assms(4) by (cases k) simp_all
  moreover have "walk prev c (Suc k) h = snd (prev (c k) ?h)" by (simp add: walk_def)
  ultimately show ?case using back_step [of ?h "c k" v] IH Suc.prems by simp
qed

lemma visits_in_turn:
  assumes "ok h" and "pos h = 0" and "\<forall>e\<in>set (entries h). resolve e \<noteq> None"
    and "resolve (last (entries h)) = Some (c 0)" and "k + 1 < length (entries h)"
  shows "fst (prev (c k) (walk prev c k h)) = resolve (rev (entries h) ! (k + 1))
    \<and> fst (succ cur (walk prev c (k + 1) h)) = resolve (rev (entries h) ! k)"
proof -
  let ?h = "walk prev c k h" and ?h1 = "walk prev c (k + 1) h"
  have a: "ok ?h" "entries ?h = entries h" "pos ?h = k" "ok ?h1" "entries ?h1 = entries h" "pos ?h1 = k + 1"
    using walk_back [where c = c and k = k, OF assms(1-4)] walk_back [where c = c and k = "k + 1", OF assms(1-4)]
      assms(5) by simp_all
  have "rev (entries h) ! i \<in> set (entries h)" if "i < length (entries h)" for i
    using that nth_mem [of i "rev (entries h)"] by simp
  then obtain v w where v: "resolve (rev (entries h) ! (k + 1)) = Some v" "resolve (rev (entries h) ! k) = Some w"
    using assms(3,5) by (metis Suc_eq_plus1 Suc_lessD option.exhaust)
  have "pos ?h > 0 \<or> resolve (last (entries ?h)) = Some (c k)" using a assms(4) by (cases k) simp_all
  with back_step [of ?h "c k" v] forward_step [of ?h1 w cur] a v assms(5) show ?thesis by simp
qed

end

lemma last_from_end:
  assumes "history_ok h" and "trail h \<noteq> []"
  shows "rs_from_end (lh_ring h) 0 = last (trail h)"
proof -
  have "rs_from_end (lh_ring h) 0 = rev (trail h) ! 0"
    using assms by (intro entry_at) (auto simp: trail_empty_iff)
  also have "\<dots> = last (trail h)" using assms(2) by (metis hd_conv_nth hd_rev rev_is_Nil_conv)
  finally show ?thesis .
qed

interpretation vis_hist: loc_history history_ok trail lh_position Some vis_back vis_forward
proof (unfold_locales, goal_cases)
  case (1 h)
  then show ?case by (simp add: history_ok_def length_trail)
next
  case (2 h v cur)
  then show ?case using last_from_end [of h] trail_empty_iff [of h]
    by (auto simp: vis_back_def current_position_def)
next
  case (3 h cur v)
  have "lh_position h = 0 \<longrightarrow> current_position h = cur"
    using 3 last_from_end [of h] trail_empty_iff [of h] length_trail [of h] by (auto simp: current_position_def)
  then have "vis_back cur h = (Some (rs_from_end (lh_ring h) (lh_position h + 1)), h\<lparr>lh_position := lh_position h + 1\<rparr>)"
    using 3 by (auto simp: vis_back_def Let_def current_position_def length_trail)
  with 3 entry_at [of h "lh_position h + 1"] show ?case by (simp add: length_trail history_ok_move)
next
  case (4 h cur)
  have "lh_position h = 0 \<longrightarrow> current_position h = cur"
    using 4 last_from_end [of h] trail_empty_iff [of h] length_trail [of h] by (auto simp: current_position_def)
  with 4 show ?case by (auto simp: vis_back_def length_trail)
next
  case (5 h v cur)
  have "lh_position h < rs_size (lh_ring h)" "lh_position h - 1 < rs_size (lh_ring h)"
    using 5 by (auto simp: history_ok_def)
  with 5 entry_at [of h "lh_position h - 1"] show ?case
    by (auto simp: vis_forward_def Let_def current_position_def history_ok_move)
qed (simp add: vis_forward_def)

interpretation log_hist: loc_history history_ok trail lh_position "row_of_content s" "log_back s" "log_forward s"
  for s
proof (unfold_locales, goal_cases)
  case (1 h)
  then show ?case by (simp add: history_ok_def length_trail)
next
  case (2 h v cur)
  then show ?case using last_from_end [of h] trail_empty_iff [of h]
    by (auto simp: log_back.simps [of s cur h] Let_def)
next
  case (3 h cur v)
  have "lh_position h = 0 \<longrightarrow> row_of_content s (rs_from_end (lh_ring h) 0) = Some cur"
    using 3 last_from_end [of h] trail_empty_iff [of h] length_trail [of h] by auto
  with 3 entry_at [of h "lh_position h + 1"] show ?case
    by (auto simp: log_back.simps [of s cur h] Let_def length_trail history_ok_move)
next
  case (4 h cur)
  have "lh_position h = 0 \<longrightarrow> row_of_content s (rs_from_end (lh_ring h) 0) = Some cur"
    using 4 last_from_end [of h] trail_empty_iff [of h] length_trail [of h] by auto
  with 4 show ?case by (auto simp: log_back.simps [of s cur h] Let_def length_trail)
next
  case (5 h v cur)
  have "lh_position h < rs_size (lh_ring h)" "lh_position h - 1 < rs_size (lh_ring h)"
    using 5 by (auto simp: history_ok_def)
  with 5 entry_at [of h "lh_position h - 1"] show ?case
    by (auto simp: log_forward.simps [of s cur h] Let_def history_ok_move)
qed (simp add: log_forward.simps)

text \<open>
  In the history of the log view, as long as the recorded lines are visible, going back visits the
  entries from the last to the first whatever the rows it is called from, and going forward after a
  step back returns to where the step was made.
\<close>

theorem log_history_visits:
  assumes "history_ok h" and "lh_position h = 0" and "\<forall>cl\<in>set (trail h). row_of_content s cl \<noteq> None"
    and "row_of_content s (last (trail h)) = Some (c 0)" and "k + 1 < length (trail h)"
  shows "fst (log_back s (c k) (walk (log_back s) c k h)) = row_of_content s (rev (trail h) ! (k + 1))
    \<and> fst (log_forward s cur (walk (log_back s) c (k + 1) h)) = row_of_content s (rev (trail h) ! k)"
  using assms by (rule log_hist.visits_in_turn)

text \<open>The last two rows of a source, recorded in turn.\<close>

definition two_rows :: log_source where
  "two_rows = \<lparr>lss_files = [\<lparr>ld_file_index = 0, ld_file_ptr = Some \<lparr>lf_id = 0,
       lf_lines = [logline_new 0 1000000 LEVEL_INFO, logline_new 20 5000000 LEVEL_ERROR],
       lf_time_ordered = True, lf_specialized = True, lf_remaining = 0, lf_longest_line = 10,
       lf_visible_option = True, lf_indexing = True, lf_metadata = (\<lambda>_. None)\<rparr>,
       ld_filter_state = filter_state_init (\<lambda>_. 0), ld_lines_indexed = 2, ld_visible = True\<rparr>],
     lss_index = [\<lparr>ic_value = 0, ic_level = Normal_level\<rparr>, \<lparr>ic_value = 1, ic_level = Error_level\<rparr>],
     lss_capacity = 100, lss_filtered_index = [0, 1], lss_user_marks = (\<lambda>_. bv_empty),
     lss_view_marks = (\<lambda>_. bv_empty), lss_force_rebuild = False, lss_index_generation = 0,
     lss_longest_line = 0, lss_delegate = None, lss_marked_only = False,
     lss_line_meta_changed = False, tss_apply_filters = True,
     tss_filters = \<lparr>fs_generation = 0, fs_reserved = 0, fs_filters = []\<rparr>,
     tss_min_log_level = LEVEL_UNKNOWN, tss_level_filtered_count = 0,
     ttt_min_row_time = (0, 0), ttt_max_row_time = (9223372036854775807, 0)\<rparr>"

definition visited :: "nat history" where
  "visited = log_append two_rows 1 (log_append two_rows 0 (history_new (replicate MAX_SIZE 0)))"

theorem log_history_visits_witness:
  "fst (log_back two_rows 1 (walk (log_back two_rows) (\<lambda>_. 1) 0 visited)) = Some 0
   \<and> fst (log_forward two_rows 0 (walk (log_back two_rows) (\<lambda>_. 1) 1 visited)) = Some 1"
proof -
  have new: "history_ok (history_new (replicate MAX_SIZE (0::nat)))"
    "trail (history_new (replicate MAX_SIZE (0::nat))) = []"
    using history_ok_new [of "replicate MAX_SIZE (0::nat)"] by simp_all
  have app: "log_append two_rows 0 h = append_entry 0 h" "log_append two_rows 1 h = append_entry 1 h" for h
    by (simp_all add: log_append_def text_line_count_def at_row_def two_rows_def)
  have one: "history_ok (append_entry x h) \<and> lh_position (append_entry x h) = 0
      \<and> trail (append_entry x h) = trail h @ [x]"
    if "history_ok h" "lh_position h = 0" "length (trail h) < 100" for x :: nat and h
    using append_entry_ok [OF that(1), of x] that by (simp add: MAX_SIZE_def Let_def)
  have v: "history_ok visited" "lh_position visited = 0" "trail visited = [0, 1]"
    using one [of "append_entry 0 (history_new (replicate MAX_SIZE 0))" 1]
      one [of "history_new (replicate MAX_SIZE (0::nat))" 0] new
    by (simp_all add: visited_def app) (simp_all add: history_new_def)
  have rows: "row_of_content two_rows 0 = Some 0" "row_of_content two_rows 1 = Some 1" by code_simp+
  show ?thesis
    using log_history_visits [OF v(1,2), of two_rows "\<lambda>_. 1" 0 0] v(3) rows by simp
qed

end
