(* ===== verification/Shlex.thy ===== *)
theory Shlex
  imports Lnav_Prelude
begin

text \<open>
  The splitting and the expansion of command lines (\<open>src/shlex.cc\<close>, \<open>src/shlex.hh\<close>): the tokens, the
  variables and home directories, and the elements of a command line.

  The environment, the password file and the variables of the caller are functions of a name. The text
  ends in a NUL byte that is no part of it. \<open>back()\<close> of an empty list of elements and a range that
  ends before it begins are \<open>None\<close>, as is a loop that does not end.
\<close>

section \<open>Tokens\<close>

datatype shlex_token = Tk_eof | Tk_whitespace | Tk_escape | Tk_double_quote_start | Tk_double_quote_end
  | Tk_single_quote_start | Tk_single_quote_end | Tk_variable_ref | Tk_quoted_variable_ref | Tk_tilde

datatype shlex_state = State_normal | State_in_double_quote | State_in_single_quote

record shlex =
  s_str :: string
  s_ignore_quotes :: bool
  s_index :: nat
  s_state :: shlex_state

type_synonym frag = "nat \<times> nat"
type_synonym tokenize_result = "shlex_token \<times> frag"
type_synonym tokenize_error = "string \<times> frag"

definition shlex_new :: "string \<Rightarrow> shlex" where
  "shlex_new str = \<lparr>s_str = str, s_ignore_quotes = False, s_index = 0, s_state = State_normal\<rparr>"

definition s_len :: "shlex \<Rightarrow> nat" where
  "s_len sh = length (s_str sh)"

definition isalnum :: "char \<Rightarrow> bool" where
  "isalnum c \<longleftrightarrow> isalpha c \<or> isdigit c"

text \<open>The end of a loop that skips characters.\<close>

definition skip_while :: "(char \<Rightarrow> bool) \<Rightarrow> nat \<Rightarrow> string \<Rightarrow> nat" where
  "skip_while p i str = i + length (takeWhile p (drop i str))"

definition tilde_char :: "char \<Rightarrow> bool" where
  "tilde_char c \<longleftrightarrow> isalnum c \<or> c = CHR ''_'' \<or> c = CHR ''-''"

definition variable_char :: "char \<Rightarrow> bool" where
  "variable_char c \<longleftrightarrow> isalnum c \<or> c = CHR ''#'' \<or> c = CHR ''_''"

definition scan_variable_ref :: "shlex \<Rightarrow> (tokenize_error + tokenize_result) \<times> shlex" where
  "scan_variable_ref sh =
    (let b = s_index sh; i = b + 1; len = s_len sh; str = s_str sh in
     if i \<ge> len then (Inr (Tk_eof, (len, i)), sh\<lparr>s_index := i\<rparr>)
     else if str ! i = CHR ''{''
     then let j = skip_while (\<lambda>c. c \<noteq> CHR ''}'') (i + 1) str;
              e = (if j < len then j + 1 else j)
          in if str ! (e - 1) \<noteq> CHR ''}''
             then (Inl (''missing closing curly-brace in variable reference'', (b + 1, b + 2)), sh\<lparr>s_index := e\<rparr>)
             else (Inr (Tk_quoted_variable_ref, (b, e)), sh\<lparr>s_index := e\<rparr>)
     else let e = skip_while variable_char i str
          in (Inr (Tk_variable_ref, (b, e)), sh\<lparr>s_index := e\<rparr>))"

text \<open>A token of one character that changes the state.\<close>

definition quote_token :: "shlex_token \<Rightarrow> shlex_state \<Rightarrow> shlex \<Rightarrow> (tokenize_error + tokenize_result) \<times> shlex" where
  "quote_token tok st sh =
    (Inr (tok, (s_index sh, s_index sh + 1)), sh\<lparr>s_index := s_index sh + 1, s_state := st\<rparr>)"

definition span_token :: "shlex_token \<Rightarrow> nat \<Rightarrow> shlex \<Rightarrow> (tokenize_error + tokenize_result) \<times> shlex" where
  "span_token tok e sh = (Inr (tok, (s_index sh, e)), sh\<lparr>s_index := e\<rparr>)"

text \<open>What the character at the index is taken for; \<open>None\<close> if it is skipped.\<close>

definition token_at :: "shlex \<Rightarrow> ((tokenize_error + tokenize_result) \<times> shlex) option" where
  "token_at sh =
    (let c = s_str sh ! s_index sh; i = s_index sh in
     if c = CHR 0x5C
     then Some (if i + 1 < s_len sh then span_token Tk_escape (i + 2) sh
                else (Inl (''invalid escape'', (i, i + 1)), sh\<lparr>s_index := i + 1\<rparr>))
     else if c = CHR 0x22
     then if s_ignore_quotes sh then None
          else (case s_state sh of
             State_normal \<Rightarrow> Some (quote_token Tk_double_quote_start State_in_double_quote sh)
           | State_in_double_quote \<Rightarrow> Some (quote_token Tk_double_quote_end State_normal sh)
           | State_in_single_quote \<Rightarrow> None)
     else if c = CHR 0x27
     then if s_ignore_quotes sh then None
          else (case s_state sh of
             State_normal \<Rightarrow> Some (quote_token Tk_single_quote_start State_in_single_quote sh)
           | State_in_single_quote \<Rightarrow> Some (quote_token Tk_single_quote_end State_normal sh)
           | State_in_double_quote \<Rightarrow> None)
     else if c = CHR ''$''
     then if s_state sh = State_in_single_quote then None else Some (scan_variable_ref sh)
     else if c = CHR ''~''
     then if s_state sh = State_normal
          then Some (span_token Tk_tilde (skip_while tilde_char (i + 1) (s_str sh)) sh) else None
     else if c = CHR '' '' \<or> c = CHR 0x09
     then if s_state sh = State_normal
          then Some (span_token Tk_whitespace (skip_while isspace i (s_str sh)) sh) else None
     else None)"

function tokenize :: "shlex \<Rightarrow> (tokenize_error + tokenize_result) \<times> shlex" where
  "tokenize sh =
    (if s_index sh < s_len sh
     then (case token_at sh of
             Some r \<Rightarrow> r
           | None \<Rightarrow> tokenize (sh\<lparr>s_index := s_index sh + 1\<rparr>))
     else if s_state sh \<noteq> State_normal
     then (Inl (''non-terminated string'', (s_index sh, s_len sh)), sh)
     else (Inr (Tk_eof, (s_len sh, s_len sh)), sh))"
  by pat_completeness auto
termination by (relation "measure (\<lambda>sh. s_len sh - s_index sh)") (auto simp: s_len_def)

declare tokenize.simps [simp del]

section \<open>Expansion\<close>

record shlex_env =
  se_getenv :: "string \<Rightarrow> string option"
  se_getpwnam :: "string \<Rightarrow> string option"
  se_vars :: "string \<Rightarrow> string option"

definition text_range :: "nat \<Rightarrow> nat \<Rightarrow> string \<Rightarrow> string" where
  "text_range b e str = take (e - b) (drop b str)"

definition resolve_home_dir :: "shlex_env \<Rightarrow> string \<Rightarrow> frag \<Rightarrow> string" where
  "resolve_home_dir env str cap =
    (let (b, e) = cap in
     if e - b = 1 then (case se_getenv env ''HOME'' of None \<Rightarrow> ''~'' | Some h \<Rightarrow> h)
     else case se_getpwnam env (text_range (b + 1) e str) of Some dir \<Rightarrow> dir | None \<Rightarrow> text_range b e str)"

definition variable_value :: "shlex_env \<Rightarrow> string \<Rightarrow> string" where
  "variable_value env name =
    (case se_vars env name of
       Some v \<Rightarrow> v
     | None \<Rightarrow> (case se_getenv env name of Some v \<Rightarrow> v | None \<Rightarrow> ''''))"

definition variable_name :: "string \<Rightarrow> shlex_token \<Rightarrow> frag \<Rightarrow> string" where
  "variable_name str tok fr =
    (let (b, e) = fr; extra = (if tok = Tk_variable_ref then 0 else 1)
     in text_range (b + 1 + extra) (e - extra) str)"

text \<open>What a token adds to the text of \<open>eval\<close>, and to an element of \<open>split\<close>.\<close>

definition split_text :: "shlex_env \<Rightarrow> string \<Rightarrow> shlex_token \<Rightarrow> frag \<Rightarrow> string" where
  "split_text env str tok fr =
    (case tok of
       Tk_escape \<Rightarrow> [str ! (fst fr + 1)]
     | Tk_variable_ref \<Rightarrow> variable_value env (variable_name str tok fr)
     | Tk_quoted_variable_ref \<Rightarrow> variable_value env (variable_name str tok fr)
     | Tk_tilde \<Rightarrow> resolve_home_dir env str fr
     | _ \<Rightarrow> '''')"

definition eval_text :: "shlex_env \<Rightarrow> string \<Rightarrow> shlex_token \<Rightarrow> frag \<Rightarrow> string" where
  "eval_text env str tok fr =
    (case tok of
       Tk_whitespace \<Rightarrow> text_range (fst fr) (snd fr) str
     | Tk_double_quote_start \<Rightarrow> [CHR 0x22]
     | Tk_double_quote_end \<Rightarrow> [CHR 0x22]
     | Tk_single_quote_start \<Rightarrow> [CHR 0x27]
     | Tk_single_quote_end \<Rightarrow> [CHR 0x27]
     | _ \<Rightarrow> split_text env str tok fr)"

partial_function (option) eval_loop :: "shlex_env \<Rightarrow> shlex \<Rightarrow> nat \<Rightarrow> string \<Rightarrow> (bool \<times> string) option" where
  "eval_loop env sh last_index result =
    (case tokenize sh of
       (Inl _, _) \<Rightarrow> Some (False, result)
     | (Inr (tok, (b, e)), sh') \<Rightarrow>
         if b < last_index then None
         else
           let result = result @ text_range last_index b (s_str sh) @ eval_text env (s_str sh) tok (b, e)
           in if tok = Tk_eof then Some (True, result @ text_range e (s_len sh) (s_str sh))
              else eval_loop env sh' e result)"

definition shlex_eval :: "shlex_env \<Rightarrow> shlex \<Rightarrow> (bool \<times> string) option" where
  "shlex_eval env sh = eval_loop env sh 0 ''''"

section \<open>Elements\<close>

record split_element =
  se_origin :: frag
  se_value :: string

definition back_update :: "(split_element \<Rightarrow> split_element) \<Rightarrow> split_element list \<Rightarrow> split_element list option" where
  "back_update f els = (if els = [] then None else Some (butlast els @ [f (last els)]))"

type_synonym split_result = "(split_element list \<times> tokenize_error) + split_element list"

definition split_failed :: "tokenize_error \<Rightarrow> string \<Rightarrow> nat \<Rightarrow> split_element list \<Rightarrow> split_result" where
  "split_failed te str last_index els =
    Inl (if els = [] then [\<lparr>se_origin = (0, length str), se_value = str\<rparr>]
         else butlast els @ [(last els)\<lparr>se_origin := (fst (se_origin (last els)), snd (snd te)),
                se_value := se_value (last els) @ drop last_index str\<rparr>], te)"

text \<open>The element that the text before a token goes to.\<close>

definition open_element ::
  "string \<Rightarrow> bool \<Rightarrow> nat \<Rightarrow> shlex_token \<Rightarrow> frag \<Rightarrow> split_element list \<Rightarrow> split_element list option" where
  "open_element str start_new last_index tok fr els =
    (if start_new
     then Some (if last_index < length str then els @ [\<lparr>se_origin = (last_index, fst fr), se_value = ''''\<rparr>] else els)
     else back_update (\<lambda>el. el\<lparr>se_origin := (fst (se_origin el), if tok \<noteq> Tk_whitespace then snd fr else fst fr)\<rparr>) els)"

definition split_tail :: "string \<Rightarrow> bool \<Rightarrow> nat \<Rightarrow> split_element list \<Rightarrow> split_element list option" where
  "split_tail str start_new last_index els =
    (if last_index < length str
     then let els = (if start_new \<or> els = []
                     then els @ [\<lparr>se_origin = (last_index, length str), se_value = ''''\<rparr>] else els)
          in back_update (\<lambda>el. el\<lparr>se_value := se_value el @ drop last_index str\<rparr>) els
     else Some els)"

partial_function (option) split_loop ::
  "shlex_env \<Rightarrow> shlex \<Rightarrow> nat \<Rightarrow> bool \<Rightarrow> split_element list \<Rightarrow> split_result option" where
  "split_loop env sh last_index start_new els =
    (case tokenize sh of
       (Inl te, _) \<Rightarrow> Some (split_failed te (s_str sh) last_index els)
     | (Inr (tok, fr), sh') \<Rightarrow>
         if fst fr < last_index then None
         else Option.bind (open_element (s_str sh) start_new last_index tok fr els) (\<lambda>els.
           Option.bind (back_update (\<lambda>el. el\<lparr>se_value := se_value el @ text_range last_index (fst fr) (s_str sh)
               @ split_text env (s_str sh) tok fr\<rparr>) els) (\<lambda>els.
             if tok = Tk_eof then map_option Inr (split_tail (s_str sh) False (snd fr) els)
             else split_loop env sh' (snd fr) (tok = Tk_whitespace) els)))"

definition shlex_split :: "shlex_env \<Rightarrow> shlex \<Rightarrow> split_result option" where
  "shlex_split env sh =
    (let i = skip_while isspace (s_index sh) (s_str sh); sh = sh\<lparr>s_index := i\<rparr>
     in if i = s_len sh then Some (Inr []) else split_loop env sh 0 True [])"

declare eval_loop.simps [code] split_loop.simps [code]

definition shlex_escape :: "string \<Rightarrow> string" where
  "shlex_escape s = concat (map (\<lambda>c. if c = CHR 0x27 then [CHR 0x5C, CHR 0x27] else [c]) s)"

section \<open>Tokens advance\<close>

lemma s_len_update [simp]:
  "s_len (sh\<lparr>s_index := i\<rparr>) = s_len sh" "s_len (sh\<lparr>s_state := st\<rparr>) = s_len sh"
  "s_len (sh\<lparr>s_ignore_quotes := q\<rparr>) = s_len sh"
  by (simp_all add: s_len_def)

lemma skip_while_bounds: "i \<le> length str \<Longrightarrow> i \<le> skip_while p i str \<and> skip_while p i str \<le> length str"
  using length_takeWhile_le [of p "drop i str"] by (simp add: skip_while_def)

lemma skip_while_first: "i < length str \<Longrightarrow> p (str ! i) \<Longrightarrow> i < skip_while p i str"
  by (simp add: skip_while_def Cons_nth_drop_Suc [symmetric])

text \<open>Where a token may be, and where the index is after it.\<close>

definition token_ok :: "shlex \<Rightarrow> (tokenize_error + tokenize_result) \<times> shlex \<Rightarrow> bool" where
  "token_ok sh r \<longleftrightarrow> s_str (snd r) = s_str sh \<and> s_ignore_quotes (snd r) = s_ignore_quotes sh
     \<and> s_index sh \<le> s_index (snd r) \<and> s_index (snd r) \<le> s_len sh
     \<and> (case fst r of Inl (m, b, e) \<Rightarrow> True
        | Inr (tok, b, e) \<Rightarrow> s_index sh \<le> b \<and> b \<le> e \<and> e = s_index (snd r) \<and> e \<le> s_len sh
            \<and> (tok = Tk_eof \<longrightarrow> b = s_len sh) \<and> (tok \<noteq> Tk_eof \<longrightarrow> b < e))"

lemma scan_variable_ref_ok: "s_index sh < s_len sh \<Longrightarrow> token_ok sh (scan_variable_ref sh)"
  using skip_while_bounds [of "s_index sh + 1" "s_str sh" variable_char]
    skip_while_bounds [of "s_index sh + 2" "s_str sh" "\<lambda>c. c \<noteq> CHR ''}''"]
  by (auto simp: scan_variable_ref_def Let_def token_ok_def s_len_def)

lemma token_at_ok:
  assumes "s_index sh < s_len sh" and "token_at sh = Some r"
  shows "token_ok sh r"
proof -
  let ?i = "s_index sh"
  have span: "token_ok sh (span_token tok e sh)" if "?i < e" "e \<le> s_len sh" "tok \<noteq> Tk_eof" for tok e
    using that by (simp add: token_ok_def span_token_def s_len_def)
  have quote: "token_ok sh (quote_token tok st sh)" if "tok \<noteq> Tk_eof" for tok st
    using that assms(1) by (simp add: token_ok_def quote_token_def s_len_def)
  have err: "token_ok sh (Inl (''invalid escape'', (?i, ?i + 1)), sh\<lparr>s_index := ?i + 1\<rparr>)"
    using assms(1) by (simp add: token_ok_def s_len_def)
  have tilde: "?i < skip_while tilde_char (?i + 1) (s_str sh) \<and> skip_while tilde_char (?i + 1) (s_str sh) \<le> s_len sh"
    using assms(1) skip_while_bounds [of "?i + 1" "s_str sh" tilde_char] by (simp add: s_len_def)
  have blank: "?i < skip_while isspace ?i (s_str sh) \<and> skip_while isspace ?i (s_str sh) \<le> s_len sh"
    if "s_str sh ! ?i = CHR '' '' \<or> s_str sh ! ?i = CHR 0x09"
    using that assms(1) skip_while_bounds [of ?i "s_str sh" isspace] skip_while_first [of ?i "s_str sh" isspace]
    by (auto simp: s_len_def isspace_def)
  show ?thesis
    using assms(2) span quote err tilde blank scan_variable_ref_ok [OF assms(1)] assms(1)
    by (auto simp: token_at_def Let_def split: if_splits shlex_state.splits)
qed

lemma tokenize_ok: "s_index sh \<le> s_len sh \<Longrightarrow> token_ok sh (tokenize sh)"
proof (induction sh rule: tokenize.induct)
  case (1 sh)
  show ?case
  proof (cases "s_index sh < s_len sh")
    case False
    with 1 show ?thesis by (auto simp: tokenize.simps [of sh] token_ok_def s_len_def)
  next
    case True
    show ?thesis
    proof (cases "token_at sh")
      case (Some r)
      with True token_at_ok show ?thesis by (simp add: tokenize.simps [of sh])
    next
      case None
      let ?sh = "sh\<lparr>s_index := s_index sh + 1\<rparr>"
      have "token_ok ?sh (tokenize ?sh)" using 1 True None by (simp add: s_len_def)
      with True None show ?thesis
        by (auto simp: tokenize.simps [of sh] token_ok_def s_len_def split: sum.splits)
    qed
  qed
qed

lemma tokenize_Inr:
  assumes "tokenize sh = (Inr (tok, (b, e)), sh')" and "s_index sh \<le> s_len sh"
  shows "s_str sh' = s_str sh" "s_ignore_quotes sh' = s_ignore_quotes sh" "s_index sh \<le> b" "b \<le> e"
    "e = s_index sh'" "e \<le> s_len sh" "tok = Tk_eof \<Longrightarrow> b = s_len sh" "tok \<noteq> Tk_eof \<Longrightarrow> b < e"
  using tokenize_ok [OF assms(2)] by (auto simp: assms(1) token_ok_def)

text \<open>Every token but the end of the text advances, so the loops end.\<close>

lemma eval_loop_ends:
  "s_index sh \<le> s_len sh \<Longrightarrow> last_index \<le> s_index sh \<Longrightarrow> \<exists>r. eval_loop env sh last_index result = Some r"
proof (induction "s_len sh - s_index sh" arbitrary: sh last_index result rule: less_induct)
  case less
  obtain r sh' where t: "tokenize sh = (r, sh')" by fastforce
  show ?case
  proof (cases r)
    case (Inl te)
    then show ?thesis by (auto simp: eval_loop.simps t)
  next
    case (Inr x)
    then obtain tok b e where x: "r = Inr (tok, (b, e))" by (cases x) auto
    note tk = tokenize_Inr [OF t [unfolded x] less.prems(1)]
    show ?thesis
    proof (cases "tok = Tk_eof")
      case True
      with tk(3) less.prems show ?thesis by (auto simp: eval_loop.simps t x Let_def)
    next
      case False
      have "\<exists>r. eval_loop env sh' e res = Some r" for res
        by (rule less.hyps) (use tk False less.prems in \<open>auto simp: s_len_def\<close>)
      with tk(3) less.prems False show ?thesis by (simp add: eval_loop.simps [of env sh] t x Let_def)
    qed
  qed
qed

lemma split_loop_ends:
  "s_index sh \<le> s_len sh \<Longrightarrow> last_index \<le> s_index sh \<Longrightarrow> (els = [] \<longrightarrow> start_new \<and> last_index < s_len sh) \<Longrightarrow>
   \<exists>r. split_loop env sh last_index start_new els = Some r"
proof (induction "s_len sh - s_index sh" arbitrary: sh last_index start_new els rule: less_induct)
  case less
  obtain r sh' where t: "tokenize sh = (r, sh')" by fastforce
  show ?case
  proof (cases r)
    case (Inl te)
    then show ?thesis by (simp add: split_loop.simps t)
  next
    case (Inr x)
    then obtain tok b e where x: "r = Inr (tok, (b, e))" by (cases x) auto
    note tk = tokenize_Inr [OF t [unfolded x] less.prems(1)]
    obtain els1 where e1: "open_element (s_str sh) start_new last_index tok (b, e) els = Some els1" "els1 \<noteq> []"
    proof (cases start_new)
      case True
      with less.prems(3) that show thesis by (cases "els = []") (auto simp: open_element_def s_len_def)
    next
      case False
      with less.prems(3) that show thesis by (auto simp: open_element_def back_update_def)
    qed
    have e2: "back_update f els1 = Some (butlast els1 @ [f (last els1)])" for f
      using e1(2) by (simp add: back_update_def)
    have nb: "\<not> b < last_index" using tk(3) less.prems by simp
    show ?thesis
    proof (cases "tok = Tk_eof")
      case True
      with tk have "e = length (s_str sh)" by (simp add: s_len_def)
      with True nb e1 e2 show ?thesis by (simp add: split_loop.simps t x split_tail_def)
    next
      case False
      have "\<exists>r. split_loop env sh' e (tok = Tk_whitespace) (ys @ [y]) = Some r" for ys y
        by (rule less.hyps) (use tk False less.prems in \<open>auto simp: s_len_def\<close>)
      with False nb e1 e2 show ?thesis by (simp add: split_loop.simps [of env sh] t x)
    qed
  qed
qed

text \<open>
  C16: expanding or splitting a command line always ends, and neither reads a range that ends before it
  begins nor the last element where there is none.
\<close>

theorem shlex_ends:
  "(\<exists>r. shlex_eval env ((shlex_new str)\<lparr>s_ignore_quotes := q\<rparr>) = Some r)
   \<and> (\<exists>r. shlex_split env ((shlex_new str)\<lparr>s_ignore_quotes := q\<rparr>) = Some r)"
proof
  let ?sh = "(shlex_new str)\<lparr>s_ignore_quotes := q\<rparr>"
  let ?i = "skip_while isspace (s_index ?sh) (s_str ?sh)"
  show "\<exists>r. shlex_eval env ?sh = Some r"
    unfolding shlex_eval_def by (rule eval_loop_ends) (simp_all add: shlex_new_def)
  have "?i \<le> s_len ?sh" using skip_while_bounds [of 0 str isspace] by (simp add: shlex_new_def s_len_def)
  then have "\<exists>r. split_loop env (?sh\<lparr>s_index := ?i\<rparr>) 0 True [] = Some r" if "?i \<noteq> s_len ?sh"
    using that by (intro split_loop_ends) (auto simp: s_len_def)
  then show "\<exists>r. shlex_split env ?sh = Some r" by (auto simp: shlex_split_def Let_def)
qed

section \<open>Errors\<close>

text \<open>The quoting at the end of a text: the state, and whether a backslash waits for its character.\<close>

fun quote_step :: "char \<Rightarrow> shlex_state \<times> bool \<Rightarrow> shlex_state \<times> bool" where
  "quote_step c (q, True) = (q, False)"
| "quote_step c (q, False) =
    (if c = CHR 0x5C then (q, True)
     else if c = CHR 0x22
     then (case q of State_normal \<Rightarrow> State_in_double_quote | State_in_double_quote \<Rightarrow> State_normal
           | State_in_single_quote \<Rightarrow> State_in_single_quote, False)
     else if c = CHR 0x27
     then (case q of State_normal \<Rightarrow> State_in_single_quote | State_in_single_quote \<Rightarrow> State_normal
           | State_in_double_quote \<Rightarrow> State_in_double_quote, False)
     else (q, False))"

definition quoting :: "string \<Rightarrow> shlex_state \<Rightarrow> shlex_state \<times> bool" where
  "quoting str q = fold quote_step str (q, False)"

lemma quoting_Cons: "i < length str \<Longrightarrow> quoting (drop i str) q
    = fold quote_step (drop (i + 1) str) (quote_step (str ! i) (q, False))"
  by (simp add: quoting_def Cons_nth_drop_Suc [symmetric])

lemma quoting_skip:
  assumes "\<And>c. p c \<Longrightarrow> c \<notin> {CHR 0x5C, CHR 0x22, CHR 0x27}" and "i \<le> length str"
  shows "quoting (drop i str) q = quoting (drop (skip_while p i str) str) q"
proof -
  let ?xs = "takeWhile p (drop i str)"
  have "fold quote_step xs (q, False) = (q, False)" if "\<forall>c\<in>set xs. p c" for xs
    using that assms(1) by (induction xs) auto
  then have "fold quote_step ?xs (q, False) = (q, False)" using set_takeWhileD by metis
  moreover have "drop (skip_while p i str) str = dropWhile p (drop i str)"
    by (simp add: skip_while_def dropWhile_eq_drop add.commute)
  then have "drop i str = ?xs @ drop (skip_while p i str) str" by simp
  ultimately show ?thesis unfolding quoting_def by (metis comp_apply fold_append)
qed

lemma plain_chars:
  "isspace c \<Longrightarrow> c \<notin> {CHR 0x5C, CHR 0x22, CHR 0x27}" "tilde_char c \<Longrightarrow> c \<notin> {CHR 0x5C, CHR 0x22, CHR 0x27}"
  by (auto simp: isspace_def tilde_char_def isalnum_def isalpha_def isupper_c_def islower_c_def isdigit_def schar_def)

text \<open>What a token does to the quoting.\<close>

definition token_quoting :: "shlex \<Rightarrow> (tokenize_error + tokenize_result) \<times> shlex \<Rightarrow> bool" where
  "token_quoting sh r \<longleftrightarrow>
    (let rest = quoting (drop (s_index sh) (s_str sh)) (s_state sh) in
     case fst r of
       Inl e \<Rightarrow> rest \<noteq> (State_normal, False)
     | Inr (tok, fr) \<Rightarrow> rest = (if tok = Tk_eof then (State_normal, False)
         else quoting (drop (s_index (snd r)) (s_str sh)) (s_state (snd r))))"

lemma token_at_quoting:
  assumes "s_index sh < s_len sh" and "\<not> s_ignore_quotes sh" and "CHR ''$'' \<notin> set (s_str sh)"
  shows "case token_at sh of Some r \<Rightarrow> token_quoting sh r
    | None \<Rightarrow> quoting (drop (s_index sh) (s_str sh)) (s_state sh) = quoting (drop (s_index sh + 1) (s_str sh)) (s_state sh)"
proof -
  let ?i = "s_index sh" and ?c = "s_str sh ! s_index sh"
  have i: "?i < length (s_str sh)" using assms(1) by (simp add: s_len_def)
  have nd: "?c \<noteq> CHR ''$''" using assms(3) i nth_mem by metis
  note q = quoting_Cons [OF i, of "s_state sh"]
  have esc: "fold quote_step (drop (?i + 1) (s_str sh)) (st, True) = quoting (drop (?i + 2) (s_str sh)) st"
    if "?i + 1 < length (s_str sh)" for st
    using that by (simp add: quoting_def Cons_nth_drop_Suc [symmetric])
  have last: "drop (?i + 1) (s_str sh) = []" if "\<not> ?i + 1 < length (s_str sh)" using that by simp
  have blank: "quoting (drop ?i (s_str sh)) st = quoting (drop (skip_while isspace ?i (s_str sh)) (s_str sh)) st" for st
    by (rule quoting_skip) (use plain_chars i in auto)
  have tilde: "quoting (drop (?i + 1) (s_str sh)) st
      = quoting (drop (skip_while tilde_char (?i + 1) (s_str sh)) (s_str sh)) st" for st
    by (rule quoting_skip) (use plain_chars i in auto)
  consider "?c = CHR 0x5C" | "?c = CHR 0x22" | "?c = CHR 0x27" | "?c = CHR ''~''" | "?c = CHR '' '' \<or> ?c = CHR 0x09"
    | "?c \<notin> {CHR 0x5C, CHR 0x22, CHR 0x27, CHR ''~'', CHR '' '', CHR 0x09}" by blast
  then show ?thesis
  proof cases
    case 1
    then show ?thesis using q esc last
      by (auto simp: token_at_def Let_def token_quoting_def span_token_def s_len_def)
  next
    case 2
    then show ?thesis using q assms(2)
      by (cases "s_state sh") (auto simp: token_at_def Let_def token_quoting_def quote_token_def quoting_def)
  next
    case 3
    then show ?thesis using q assms(2)
      by (cases "s_state sh") (auto simp: token_at_def Let_def token_quoting_def quote_token_def quoting_def)
  next
    case 4
    then show ?thesis using q tilde [of State_normal]
      by (auto simp: token_at_def Let_def token_quoting_def span_token_def quoting_def)
  next
    case 5
    then show ?thesis using q blank [of State_normal]
      by (auto simp: token_at_def Let_def token_quoting_def span_token_def quoting_def)
  next
    case 6
    then show ?thesis using q nd by (auto simp: token_at_def Let_def quoting_def)
  qed
qed

lemma tokenize_quoting:
  "s_index sh \<le> s_len sh \<Longrightarrow> \<not> s_ignore_quotes sh \<Longrightarrow> CHR ''$'' \<notin> set (s_str sh) \<Longrightarrow>
   token_quoting sh (tokenize sh)"
proof (induction sh rule: tokenize.induct)
  case (1 sh)
  show ?case
  proof (cases "s_index sh < s_len sh")
    case False
    with 1(2) show ?thesis
      by (auto simp: tokenize.simps [of sh] token_quoting_def quoting_def s_len_def)
  next
    case True
    note ta = token_at_quoting [OF True 1(3,4)]
    show ?thesis
    proof (cases "token_at sh")
      case (Some r)
      with True ta show ?thesis by (simp add: tokenize.simps [of sh])
    next
      case None
      let ?sh = "sh\<lparr>s_index := s_index sh + 1\<rparr>"
      have "token_quoting ?sh (tokenize ?sh)" using 1 True None by (simp add: s_len_def)
      then have "token_quoting sh (tokenize ?sh)" using ta None
        by (cases "tokenize ?sh"; cases "fst (tokenize ?sh)") (auto simp: token_quoting_def)
      with True None show ?thesis by (simp add: tokenize.simps [of sh])
    qed
  qed
qed

lemma eval_loop_quoting:
  assumes "\<not> s_ignore_quotes sh" and "CHR ''$'' \<notin> set (s_str sh)" and "s_index sh \<le> s_len sh"
    and "eval_loop env sh last_index result = Some r"
  shows "fst r \<longleftrightarrow> quoting (drop (s_index sh) (s_str sh)) (s_state sh) = (State_normal, False)"
  using assms
proof (induction "s_len sh - s_index sh" arbitrary: sh last_index result rule: less_induct)
  case less
  obtain x sh' where t: "tokenize sh = (x, sh')" by fastforce
  note tq = tokenize_quoting [OF less.prems(3,1,2)]
  show ?case
  proof (cases x)
    case (Inl te)
    with less.prems(4) tq show ?thesis by (auto simp: eval_loop.simps t token_quoting_def Let_def)
  next
    case (Inr y)
    then obtain tok b e where x: "x = Inr (tok, (b, e))" by (cases y) auto
    note tk = tokenize_Inr [OF t [unfolded x] less.prems(3)]
    show ?thesis
    proof (cases "tok = Tk_eof")
      case True
      with less.prems(4) tq show ?thesis
        by (auto simp: eval_loop.simps t x token_quoting_def Let_def split: if_splits)
    next
      case False
      obtain res where "eval_loop env sh' e res = Some r"
        using less.prems(4) False by (auto simp: eval_loop.simps [of env sh] t x Let_def split: if_splits)
      then have "fst r \<longleftrightarrow> quoting (drop (s_index sh') (s_str sh')) (s_state sh') = (State_normal, False)"
        using tk False less.prems by (intro less.hyps) (auto simp: s_len_def)
      with tq False tk(1) show ?thesis by (simp add: t x token_quoting_def)
    qed
  qed
qed

lemma split_loop_quoting:
  assumes "\<not> s_ignore_quotes sh" and "CHR ''$'' \<notin> set (s_str sh)" and "s_index sh \<le> s_len sh"
    and "split_loop env sh last_index start_new els = Some r"
  shows "isl r \<longleftrightarrow> quoting (drop (s_index sh) (s_str sh)) (s_state sh) \<noteq> (State_normal, False)"
  using assms
proof (induction "s_len sh - s_index sh" arbitrary: sh last_index start_new els rule: less_induct)
  case less
  obtain x sh' where t: "tokenize sh = (x, sh')" by fastforce
  note tq = tokenize_quoting [OF less.prems(3,1,2)]
  show ?case
  proof (cases x)
    case (Inl te)
    with less.prems(4) tq show ?thesis
      by (auto simp: split_loop.simps t token_quoting_def Let_def split_failed_def)
  next
    case (Inr y)
    then obtain tok b e where x: "x = Inr (tok, (b, e))" by (cases y) auto
    note tk = tokenize_Inr [OF t [unfolded x] less.prems(3)]
    show ?thesis
    proof (cases "tok = Tk_eof")
      case True
      with less.prems(4) tq show ?thesis
        by (auto simp: split_loop.simps t x token_quoting_def Let_def split: if_splits Option.bind_splits)
    next
      case False
      obtain els' where "split_loop env sh' e (tok = Tk_whitespace) els' = Some r"
        using less.prems(4) False
        by (auto simp: split_loop.simps [of env sh] t x split: if_splits Option.bind_splits)
      then have "isl r \<longleftrightarrow> quoting (drop (s_index sh') (s_str sh')) (s_state sh') \<noteq> (State_normal, False)"
        using tk False less.prems by (intro less.hyps) (auto simp: s_len_def)
      with tq False tk(1) show ?thesis by (simp add: t x token_quoting_def)
    qed
  qed
qed

text \<open>
  C15: without variables, a command line is rejected, by \<open>eval\<close> and by \<open>split\<close> alike, exactly if a quote
  is left open or a backslash has nothing after it; the quoting is read by the automaton \<open>quote_step\<close>.
\<close>

theorem shlex_rejects:
  assumes "CHR ''$'' \<notin> set str"
  shows "(\<exists>ok result. shlex_eval env (shlex_new str) = Some (ok, result)
      \<and> (ok \<longleftrightarrow> quoting str State_normal = (State_normal, False)))
    \<and> (\<exists>r. shlex_split env (shlex_new str) = Some r
      \<and> (isl r \<longleftrightarrow> quoting str State_normal \<noteq> (State_normal, False)))"
proof
  let ?sh = "shlex_new str"
  have sh: "\<not> s_ignore_quotes ?sh" "s_str ?sh = str" "s_index ?sh = 0" "s_state ?sh = State_normal" "s_len ?sh = length str"
    by (simp_all add: shlex_new_def s_len_def)
  obtain ok result where e: "eval_loop env ?sh 0 '''' = Some (ok, result)"
    using eval_loop_ends [of ?sh 0 env "''''"] sh by auto
  show "\<exists>ok result. shlex_eval env ?sh = Some (ok, result)
      \<and> (ok \<longleftrightarrow> quoting str State_normal = (State_normal, False))"
    using eval_loop_quoting [OF sh(1) _ _ e] assms sh e by (auto simp: shlex_eval_def)
  define i where "i = skip_while isspace 0 str"
  have i: "i \<le> length str" using skip_while_bounds [of 0 str isspace] by (simp add: i_def)
  have q: "quoting str State_normal = quoting (drop i str) State_normal"
    using quoting_skip [of isspace 0 str State_normal] plain_chars by (simp add: i_def)
  show "\<exists>r. shlex_split env ?sh = Some r
      \<and> (isl r \<longleftrightarrow> quoting str State_normal \<noteq> (State_normal, False))"
  proof (cases "i = length str")
    case True
    with q show ?thesis by (auto simp: shlex_split_def sh i_def [symmetric] Let_def quoting_def)
  next
    case False
    let ?sh1 = "?sh\<lparr>s_index := i\<rparr>"
    obtain r where r: "split_loop env ?sh1 0 True [] = Some r"
      using split_loop_ends [of ?sh1 0 "[]" True env] i False sh by (cases str) auto
    have "isl r \<longleftrightarrow> quoting (drop i str) State_normal \<noteq> (State_normal, False)"
      using split_loop_quoting [OF _ _ _ r] assms i sh by simp
    with q r False show ?thesis by (auto simp: shlex_split_def sh i_def [symmetric] Let_def)
  qed
qed

definition no_env :: shlex_env where
  "no_env = \<lparr>se_getenv = (\<lambda>_. None), se_getpwnam = (\<lambda>_. None), se_vars = (\<lambda>_. None)\<rparr>"

definition open_quote :: string where
  "open_quote = [CHR ''a'', CHR '' '', CHR 0x27, CHR ''b'']"

theorem shlex_rejects_witness:
  "quoting open_quote State_normal = (State_in_single_quote, False)
   \<and> (\<exists>r. shlex_split no_env (shlex_new open_quote) = Some r \<and> isl r)"
proof -
  have q: "quoting open_quote State_normal = (State_in_single_quote, False)"
    by (simp add: quoting_def open_quote_def)
  have "CHR ''$'' \<notin> set open_quote" by (simp add: open_quote_def)
  from shlex_rejects [OF this, of no_env] q show ?thesis by auto
qed

section \<open>Quoted words come back\<close>

text \<open>Characters of words that need no quoting but that of the single quote.\<close>

definition word_char :: "char \<Rightarrow> bool" where
  "word_char c \<longleftrightarrow> c \<notin> {CHR 0x5C, CHR 0x22, CHR ''$'', CHR ''~''} \<and> \<not> isspace c"

fun command_line :: "string list \<Rightarrow> string" where
  "command_line [] = []"
| "command_line (w # ws) = shlex_escape w @ concat (map (\<lambda>w. CHR '' '' # shlex_escape w) ws)"

abbreviation at_index :: "string \<Rightarrow> nat \<Rightarrow> shlex" where
  "at_index str i \<equiv> (shlex_new str)\<lparr>s_index := i\<rparr>"

lemma shlex_new_sel [simp]:
  "s_str (shlex_new str) = str" "s_len (shlex_new str) = length str" "s_index (shlex_new str) = 0"
  "s_state (shlex_new str) = State_normal" "\<not> s_ignore_quotes (shlex_new str)"
  by (simp_all add: shlex_new_def s_len_def)

lemma drop_add: "drop i str = p @ rest \<Longrightarrow> drop (i + length p) str = rest"
  by (metis add.commute append_eq_conv_conj drop_drop)

lemma drop_nth: "drop i str = c # rest \<Longrightarrow> i < length str \<and> str ! i = c \<and> drop (i + 1) str = rest"
  by (metis Cons_nth_drop_Suc Suc_eq_plus1 drop_all list.inject list.simps(3) not_le)

lemma tokenize_word:
  "drop i str = p @ rest \<Longrightarrow> \<forall>c\<in>set p. word_char c \<and> c \<noteq> CHR 0x27 \<Longrightarrow>
   tokenize (at_index str i) = tokenize (at_index str (i + length p))"
proof (induction p arbitrary: i)
  case (Cons c p)
  have d: "i < length str" "str ! i = c" "drop (i + 1) str = p @ rest" using drop_nth [of i str c] Cons.prems(1) by auto
  have "token_at (at_index str i) = None"
    using Cons.prems(2) d(2) by (auto simp: token_at_def Let_def word_char_def isspace_def)
  then have "tokenize (at_index str i) = tokenize (at_index str (i + 1))"
    using d(1) by (simp add: tokenize.simps [of "at_index str i"])
  with Cons.IH [OF d(3)] Cons.prems(2) show ?case by simp
qed simp

lemma tokenize_quote:
  assumes "drop i str = p @ CHR 0x5C # c # rest" and "\<forall>c\<in>set p. word_char c \<and> c \<noteq> CHR 0x27"
  shows "tokenize (at_index str i) = (Inr (Tk_escape, (i + length p, i + length p + 2)), at_index str (i + length p + 2))"
proof -
  let ?j = "i + length p"
  have "drop ?j str = CHR 0x5C # c # rest" using drop_add [OF assms(1)] .
  from drop_nth [OF this] drop_nth [of "?j + 1" str c rest]
  have "?j < length str" "str ! ?j = CHR 0x5C" "?j + 1 < length str" by auto
  then show ?thesis
    unfolding tokenize_word [OF assms]
    by (simp add: tokenize.simps [of "at_index str ?j"] token_at_def Let_def span_token_def)
qed

lemma tokenize_blank:
  assumes "drop i str = p @ CHR '' '' # c # rest" and "\<forall>c\<in>set p. word_char c \<and> c \<noteq> CHR 0x27" and "\<not> isspace c"
  shows "tokenize (at_index str i) = (Inr (Tk_whitespace, (i + length p, i + length p + 1)), at_index str (i + length p + 1))"
proof -
  let ?j = "i + length p"
  have d: "drop ?j str = CHR '' '' # c # rest" using drop_add [OF assms(1)] .
  then have "?j < length str" "str ! ?j = CHR '' ''" using drop_nth [OF d] by auto
  moreover have "skip_while isspace ?j str = ?j + 1" using d assms(3) by (simp add: skip_while_def isspace_def)
  ultimately show ?thesis
    unfolding tokenize_word [OF assms(1,2)]
    by (simp add: tokenize.simps [of "at_index str ?j"] token_at_def Let_def span_token_def)
qed

lemma tokenize_end:
  assumes "drop i str = p" and "i \<le> length str" and "\<forall>c\<in>set p. word_char c \<and> c \<noteq> CHR 0x27"
  shows "tokenize (at_index str i) = (Inr (Tk_eof, (length str, length str)), at_index str (length str))"
proof -
  have "i + length p = length str" using assms(1,2) by auto
  then show ?thesis
    using tokenize_word [of i str p "[]"] assms by (simp add: tokenize.simps [of "at_index str (length str)"])
qed

text \<open>The elements \<open>els\<close> when the text \<open>v\<close> of the current word was read up to the index \<open>i\<close>.\<close>

definition reading :: "string \<Rightarrow> nat \<Rightarrow> bool \<Rightarrow> split_element list \<Rightarrow> string list \<Rightarrow> string \<Rightarrow> bool" where
  "reading str i start_new els done_words v \<longleftrightarrow>
    (if start_new then i < length str \<and> map se_value els = done_words \<and> v = ''''
     else els \<noteq> [] \<and> map se_value els = done_words @ [v])"

lemma reading_step:
  assumes "reading str i start_new els ws v" and "i \<le> b"
  obtains els1 els2 where "open_element str start_new i tok (b, e) els = Some els1"
    and "back_update (\<lambda>el. el\<lparr>se_value := se_value el @ x\<rparr>) els1 = Some els2"
    and "els2 \<noteq> []" and "map se_value els2 = ws @ [v @ x]"
proof -
  obtain els1 where o: "open_element str start_new i tok (b, e) els = Some els1" "els1 \<noteq> []"
    "map se_value els1 = ws @ [v]"
  proof (cases start_new)
    case True
    with assms that show thesis by (auto simp: reading_def open_element_def)
  next
    case False
    show thesis
    proof (cases els rule: rev_cases)
      case Nil
      with assms(1) False show thesis by (simp add: reading_def)
    next
      case (snoc xs y)
      with assms(1) False that show thesis by (auto simp: reading_def open_element_def back_update_def)
    qed
  qed
  show thesis
  proof (cases els1 rule: rev_cases)
    case Nil
    with o(2) show thesis by simp
  next
    case (snoc xs y)
    with o(3) that [OF o(1), of "xs @ [y\<lparr>se_value := se_value y @ x\<rparr>]"] show thesis
      by (auto simp: back_update_def)
  qed
qed

lemma split_token:
  assumes "reading str i start_new els ws v" and "i \<le> b" and "tok \<noteq> Tk_eof"
    and "tokenize (at_index str i) = (Inr (tok, (b, e)), at_index str e)"
  shows "\<exists>els2. els2 \<noteq> [] \<and> map se_value els2 = ws @ [v @ text_range i b str @ split_text env str tok (b, e)]
    \<and> split_loop env (at_index str i) i start_new els = split_loop env (at_index str e) e (tok = Tk_whitespace) els2"
proof -
  let ?x = "text_range i b str @ split_text env str tok (b, e)"
  obtain els1 els2 where "open_element str start_new i tok (b, e) els = Some els1"
    "back_update (\<lambda>el. el\<lparr>se_value := se_value el @ ?x\<rparr>) els1 = Some els2" "els2 \<noteq> []"
    "map se_value els2 = ws @ [v @ ?x]"
    by (rule reading_step [OF assms(1,2)])
  with assms(2-4) show ?thesis
    by (intro exI [of _ els2]) (simp add: split_loop.simps [of env "at_index str i"])
qed

lemma range_drop: "drop i str = p @ rest \<Longrightarrow> text_range i (i + length p) str = p"
  by (simp add: text_range_def)

lemma split_quote:
  assumes "drop i str = p @ CHR 0x5C # CHR 0x27 # rest" and "\<forall>c\<in>set p. word_char c \<and> c \<noteq> CHR 0x27"
    and "reading str i start_new els ws v"
  shows "\<exists>els2 j. reading str j False els2 ws (v @ p @ [CHR 0x27]) \<and> drop j str = rest \<and> j \<le> length str
    \<and> split_loop env (at_index str i) i start_new els = split_loop env (at_index str j) j False els2"
proof -
  let ?b = "i + length p"
  have d: "drop ?b str = CHR 0x5C # CHR 0x27 # rest" by (rule drop_add [OF assms(1)])
  from drop_nth [OF d] have d1: "drop (?b + 1) str = CHR 0x27 # rest" by simp
  from drop_nth [OF d1] have n: "str ! (?b + 1) = CHR 0x27" "drop (?b + 2) str = rest" "?b + 2 \<le> length str" by auto
  obtain els2 where e: "els2 \<noteq> []" "map se_value els2 = ws @ [v @ p @ [CHR 0x27]]"
    "split_loop env (at_index str i) i start_new els = split_loop env (at_index str (?b + 2)) (?b + 2) False els2"
    using split_token [OF assms(3) _ _ tokenize_quote [OF assms(1,2)], of env] range_drop [OF assms(1)] n
    by (auto simp: split_text_def)
  then have "reading str (?b + 2) False els2 ws (v @ p @ [CHR 0x27])" by (simp add: reading_def)
  with e(3) n show ?thesis by blast
qed

lemma escape_split:
  assumes "\<forall>c\<in>set w. word_char c"
  obtains (plain) "\<forall>c\<in>set w. word_char c \<and> c \<noteq> CHR 0x27" "shlex_escape w = w"
  | (quote) p w' where "w = p @ CHR 0x27 # w'" "\<forall>c\<in>set p. word_char c \<and> c \<noteq> CHR 0x27"
      "shlex_escape w = p @ CHR 0x5C # CHR 0x27 # shlex_escape w'"
proof (cases "CHR 0x27 \<in> set w")
  case False
  have "CHR 0x27 \<notin> set u \<Longrightarrow> shlex_escape u = u" for u
    by (induction u) (auto simp: shlex_escape_def)
  with False assms plain show thesis by auto
next
  case True
  have e: "CHR 0x27 \<notin> set u \<Longrightarrow> shlex_escape (u @ r) = u @ shlex_escape r" for u r
    by (induction u) (auto simp: shlex_escape_def)
  from True obtain p w' where w: "w = p @ CHR 0x27 # w'" "CHR 0x27 \<notin> set p" by (meson split_list_first)
  with e [of p "CHR 0x27 # w'"] assms quote [of p w'] show thesis by (auto simp: shlex_escape_def)
qed

lemma split_word_blank:
  assumes "\<forall>c\<in>set w. word_char c" and "drop i str = shlex_escape w @ CHR '' '' # c # rest" and "\<not> isspace c"
    and "reading str i start_new els ws v"
  shows "\<exists>els2 j. reading str j True els2 (ws @ [v @ w]) '''' \<and> drop j str = c # rest
    \<and> split_loop env (at_index str i) i start_new els = split_loop env (at_index str j) j True els2"
  using assms
proof (induction "length w" arbitrary: w i start_new els v rule: less_induct)
  case less
  from less.prems(1) show ?case
  proof (cases rule: escape_split)
    case plain
    let ?b = "i + length w"
    from plain less.prems(2) have d: "drop i str = w @ CHR '' '' # c # rest" by simp
    have d1: "drop (?b + 1) str = c # rest" using drop_nth [OF drop_add [OF d]] by simp
    obtain els2 where e: "map se_value els2 = ws @ [v @ w]"
      "split_loop env (at_index str i) i start_new els = split_loop env (at_index str (?b + 1)) (?b + 1) True els2"
      using split_token [OF less.prems(4) _ _ tokenize_blank [OF d plain(1) less.prems(3)], of env] range_drop [OF d]
      by (auto simp: split_text_def)
    then have "reading str (?b + 1) True els2 (ws @ [v @ w]) ''''" using drop_nth [OF d1] by (simp add: reading_def)
    with e(2) d1 show ?thesis by blast
  next
    case (quote p w')
    from quote(3) less.prems(2) have d: "drop i str = p @ CHR 0x5C # CHR 0x27 # shlex_escape w' @ CHR '' '' # c # rest" by simp
    from split_quote [OF d quote(2) less.prems(4), of env] obtain els2 j
      where r: "reading str j False els2 ws (v @ p @ [CHR 0x27])" "drop j str = shlex_escape w' @ CHR '' '' # c # rest"
      "split_loop env (at_index str i) i start_new els = split_loop env (at_index str j) j False els2" by blast
    have "\<forall>c\<in>set w'. word_char c" using less.prems(1) quote(1) by simp
    from less.hyps [OF _ this r(2) less.prems(3) r(1)] r(3) quote(1) show ?thesis by auto
  qed
qed

lemma split_word_end:
  assumes "\<forall>c\<in>set w. word_char c" and "drop i str = shlex_escape w" and "i \<le> length str"
    and "reading str i start_new els ws v"
  shows "\<exists>els2. split_loop env (at_index str i) i start_new els = Some (Inr els2) \<and> map se_value els2 = ws @ [v @ w]"
  using assms
proof (induction "length w" arbitrary: w i start_new els v rule: less_induct)
  case less
  from less.prems(1) show ?case
  proof (cases rule: escape_split)
    case plain
    with less.prems(2) have d: "drop i str = w" by simp
    have t: "tokenize (at_index str i) = (Inr (Tk_eof, (length str, length str)), at_index str (length str))"
      by (rule tokenize_end [OF d less.prems(3) plain(1)])
    obtain els1 els2 where "open_element str start_new i Tk_eof (length str, length str) els = Some els1"
      "back_update (\<lambda>el. el\<lparr>se_value := se_value el @ w\<rparr>) els1 = Some els2" "map se_value els2 = ws @ [v @ w]"
      by (rule reading_step [OF less.prems(4,3)])
    moreover have "take (length str - i) w = w" using arg_cong [OF d, of length] by simp
    ultimately show ?thesis using d t less.prems(3)
      by (simp add: split_loop.simps [of env "at_index str i"] text_range_def split_text_def split_tail_def)
  next
    case (quote p w')
    from quote(3) less.prems(2) have d: "drop i str = p @ CHR 0x5C # CHR 0x27 # shlex_escape w'" by simp
    from split_quote [OF d quote(2) less.prems(4), of env] obtain els2 j
      where r: "reading str j False els2 ws (v @ p @ [CHR 0x27])" "drop j str = shlex_escape w'" "j \<le> length str"
      "split_loop env (at_index str i) i start_new els = split_loop env (at_index str j) j False els2" by blast
    have "\<forall>c\<in>set w'. word_char c" using less.prems(1) quote(1) by simp
    from less.hyps [OF _ this r(2,3,1)] r(4) quote(1) show ?thesis by auto
  qed
qed

lemma escape_first: "w \<noteq> [] \<Longrightarrow> word_char (hd w) \<Longrightarrow> \<exists>c r. shlex_escape w = c # r \<and> \<not> isspace c"
  by (cases w) (auto simp: shlex_escape_def word_char_def isspace_def)

lemma split_command_line:
  assumes "ws \<noteq> []" and "\<forall>w\<in>set ws. w \<noteq> [] \<and> (\<forall>c\<in>set w. word_char c)" and "drop i str = command_line ws"
    and "reading str i True els done_words ''''"
  shows "\<exists>els2. split_loop env (at_index str i) i True els = Some (Inr els2) \<and> map se_value els2 = done_words @ ws"
  using assms
proof (induction ws arbitrary: i els done_words)
  case (Cons w ws)
  have w: "w \<noteq> []" "\<forall>c\<in>set w. word_char c" using Cons.prems(2) by auto
  show ?case
  proof (cases ws)
    case Nil
    with Cons.prems(3) have d: "drop i str = shlex_escape w" by simp
    have "i \<le> length str" using Cons.prems(4) by (simp add: reading_def)
    from split_word_end [OF w(2) d this Cons.prems(4), of env] Nil show ?thesis by simp
  next
    case (Cons w2 ws2)
    have "w2 \<noteq> []" "word_char (hd w2)" using Cons Cons.prems(2) by auto
    then obtain c r where c: "shlex_escape w2 = c # r" "\<not> isspace c" using escape_first by blast
    let ?rest = "r @ concat (map (\<lambda>w. CHR '' '' # shlex_escape w) ws2)"
    have d: "drop i str = shlex_escape w @ CHR '' '' # c # ?rest" using Cons.prems(3) Cons c(1) by simp
    obtain els2 j where r: "reading str j True els2 (done_words @ [w]) ''''" "drop j str = c # ?rest"
      "split_loop env (at_index str i) i True els = split_loop env (at_index str j) j True els2"
      using split_word_blank [OF w(2) d c(2) Cons.prems(4), of env] by auto
    have "drop j str = command_line ws" using r(2) Cons c(1) by simp
    from Cons.IH [OF _ _ this r(1)] Cons Cons.prems(2) r(3) show ?thesis by simp
  qed
qed simp

text \<open>
  C14: words that are quoted with \<open>escape\<close> and joined with blanks are split into the same words again, if
  each has a character, and none is a blank, a backslash, a double quote, a dollar or a tilde.
\<close>

theorem split_escape:
  assumes "\<forall>w\<in>set ws. w \<noteq> [] \<and> (\<forall>c\<in>set w. word_char c)"
  shows "\<exists>els. shlex_split env (shlex_new (command_line ws)) = Some (Inr els) \<and> map se_value els = ws"
proof (cases ws)
  case Nil
  then show ?thesis by (simp add: shlex_split_def skip_while_def)
next
  case (Cons w ws')
  let ?str = "command_line ws"
  have "w \<noteq> []" "word_char (hd w)" using Cons assms by auto
  then obtain c r where c: "shlex_escape w = c # r" "\<not> isspace c" using escape_first by blast
  then have s: "skip_while isspace 0 ?str = 0" "?str \<noteq> []" using Cons by (simp_all add: skip_while_def)
  have i: "(shlex_new ?str)\<lparr>s_index := 0\<rparr> = shlex_new ?str" by (simp add: shlex_new_def)
  have "reading ?str 0 True [] [] ''''" using s(2) by (simp add: reading_def)
  from split_command_line [OF _ assms _ this, of env] Cons show ?thesis using s i
    by (auto simp: shlex_split_def)
qed

definition it_words :: "string list" where
  "it_words = [''it'' @ [CHR 0x27] @ ''s'', ''b'']"

theorem split_escape_witness:
  "command_line it_words = ''it'' @ [CHR 0x5C, CHR 0x27] @ ''s b''
   \<and> (\<exists>els. shlex_split no_env (shlex_new (command_line it_words)) = Some (Inr els) \<and> map se_value els = it_words)"
proof -
  have "\<forall>w\<in>set it_words. w \<noteq> [] \<and> (\<forall>c\<in>set w. word_char c)"
    by (simp add: it_words_def word_char_def isspace_def)
  from split_escape [OF this, of no_env] show ?thesis by (simp add: it_words_def shlex_escape_def)
qed

end
