(* ===== verification/Cell_Container.thy ===== *)
theory Cell_Container
  imports Lnav_Prelude "HOL-Library.Word" "HOL-Library.Monad_Syntax"
begin

text \<open>
  The store of the cells of a query's result (\<open>src/base/cell_container.cc\<close>, \<open>.hh\<close>): cells are pushed as
  bytes into a chain of chunks, all but the last chunk are compressed, and cursors walk over them
  while at most three compressed chunks are unpacked. The compression library is a pair of
  parameters. A chunk is known by its place in the chain that the \<open>cc_next\<close> pointers make; a double
  is its 64 bits. \<open>None\<close> stands for what the code has no value for: a failed \<open>require\<close> or \<open>ensure\<close>, or
  a read through the null pointer of a chunk that is not unpacked.
\<close>

section \<open>Chunks and the container\<close>

unbundle bit_operations_syntax

type_synonym bytes = "8 word list"

record cell_chunk =
  cc_capacity :: nat
  cc_size :: nat
  cc_data :: "bytes option"
  cc_compressed :: "bytes option"

record cell_container =
  cc_chunks :: "cell_chunk list"
  cc_chunk_cache :: "nat option list"

record cell_cursor =
  c_chunk :: nat
  c_offset :: nat

definition DEFAULT_CHUNK_SIZE :: nat where
  "DEFAULT_CHUNK_SIZE = 32 * 1024"

definition SHORT_TEXT_LENGTH :: nat where
  "SHORT_TEXT_LENGTH = unat (drop_bit 2 (0xff :: 8 word))"

definition CT_NULL :: "8 word" where "CT_NULL = 0"
definition CT_INTEGER :: "8 word" where "CT_INTEGER = 1"
definition CT_FLOAT :: "8 word" where "CT_FLOAT = 2"
definition CT_TEXT :: "8 word" where "CT_TEXT = 3"
definition NULL_CELL_SUB :: "8 word" where "NULL_CELL_SUB = 1"

definition combine_type_value :: "8 word \<Rightarrow> 8 word \<Rightarrow> 8 word" where
  "combine_type_value type subvalue = type OR push_bit 2 subvalue"

definition new_chunk :: "bytes \<Rightarrow> nat \<Rightarrow> cell_chunk" where
  "new_chunk data capacity =
    \<lparr>cc_capacity = capacity, cc_size = 0, cc_data = Some data, cc_compressed = None\<rparr>"

definition available :: "cell_chunk \<Rightarrow> nat" where
  "available cc = cc_capacity cc - cc_size cc"

definition chunk_reset :: "cell_chunk \<Rightarrow> cell_chunk" where
  "chunk_reset cc =
    cc\<lparr>cc_size := 0,
       cc_data := (if cc_data cc = None then Some (replicate (cc_capacity cc) 0) else cc_data cc),
       cc_compressed := None\<rparr>"

definition chunk_load :: "(nat \<Rightarrow> bytes \<Rightarrow> bytes option) \<Rightarrow> cell_chunk \<Rightarrow> cell_chunk option" where
  "chunk_load uncompress cc =
    (if cc_data cc \<noteq> None then Some cc
     else do {
       z \<leftarrow> cc_compressed cc;
       d \<leftarrow> uncompress (cc_capacity cc) z;
       Some (cc\<lparr>cc_data := Some (d @ drop (length d) (replicate (cc_capacity cc) 0))\<rparr>)
     })"

definition chunk_evict :: "cell_chunk \<Rightarrow> cell_chunk" where
  "chunk_evict cc = cc\<lparr>cc_data := None\<rparr>"

definition new_container :: cell_container where
  "new_container =
    \<lparr>cc_chunks = [new_chunk (replicate DEFAULT_CHUNK_SIZE 0) DEFAULT_CHUNK_SIZE],
     cc_chunk_cache = [None, None, None]\<rparr>"

text \<open>The buffer of the full chunk moves to the new one, so it keeps its old bytes there.\<close>

definition next_chunk_after ::
  "(bytes \<Rightarrow> bytes) \<Rightarrow> nat \<Rightarrow> cell_chunk \<Rightarrow> (cell_chunk \<times> cell_chunk) option" where
  "next_chunk_after compress2 amount last_chunk = do {
     d \<leftarrow> cc_data last_chunk;
     let chunk_size = max amount DEFAULT_CHUNK_SIZE;
     let data = (if chunk_size > cc_capacity last_chunk then replicate chunk_size 0 else d);
     Some (last_chunk\<lparr>cc_data := None,
             cc_compressed := Some (compress2 (take (cc_size last_chunk) d))\<rparr>,
           new_chunk data chunk_size)
   }"

definition alloc :: "(bytes \<Rightarrow> bytes) \<Rightarrow> nat \<Rightarrow> cell_container \<Rightarrow> (cell_container \<times> nat) option" where
  "alloc compress2 amount c = do {
     let last_chunk = last (cc_chunks c);
     chunks \<leftarrow> (if available last_chunk < amount
        then do {
          (old, new) \<leftarrow> next_chunk_after compress2 amount last_chunk;
          Some (butlast (cc_chunks c) @ [old, new])
        }
        else Some (cc_chunks c));
     let lc = last chunks;
     Some (c\<lparr>cc_chunks := butlast chunks @ [lc\<lparr>cc_size := cc_size lc + amount\<rparr>]\<rparr>, cc_size lc)
   }"

text \<open>The writes through the pointer that \<open>alloc\<close> returned.\<close>

definition write_cell :: "nat \<Rightarrow> bytes \<Rightarrow> cell_container \<Rightarrow> cell_container option" where
  "write_cell off bs c = do {
     let lc = last (cc_chunks c);
     d \<leftarrow> cc_data lc;
     Some (c\<lparr>cc_chunks := butlast (cc_chunks c)
              @ [lc\<lparr>cc_data := Some (take off d @ bs @ drop (off + length bs) d)\<rparr>]\<rparr>)
   }"

definition load_chunk_into_cache ::
  "(nat \<Rightarrow> bytes \<Rightarrow> bytes option) \<Rightarrow> nat \<Rightarrow> cell_container \<Rightarrow> cell_container option" where
  "load_chunk_into_cache uncompress i c =
    (if cc_data (cc_chunks c ! i) \<noteq> None then Some c
     else do {
       let chunks = (case cc_chunk_cache c ! 2 of
           None \<Rightarrow> cc_chunks c
         | Some j \<Rightarrow> (cc_chunks c)[j := chunk_evict (cc_chunks c ! j)]);
       cc \<leftarrow> chunk_load uncompress (chunks ! i);
       Some \<lparr>cc_chunks = chunks[i := cc],
             cc_chunk_cache = [Some i, cc_chunk_cache c ! 0, cc_chunk_cache c ! 1]\<rparr>
     })"

definition container_reset :: "cell_container \<Rightarrow> cell_container" where
  "container_reset c =
    \<lparr>cc_chunks = [chunk_reset (hd (cc_chunks c))], cc_chunk_cache = [None, None, None]\<rparr>"

section \<open>Pushing cells\<close>

text \<open>The bytes of an object of the machine, the lowest first.\<close>

definition object_bytes :: "64 word \<Rightarrow> bytes" where
  "object_bytes w = map (\<lambda>k. ucast (drop_bit (8 * k) w)) [0..<8]"

definition of_object_bytes :: "bytes \<Rightarrow> 64 word" where
  "of_object_bytes bs = foldr (\<lambda>b w. ucast b OR push_bit 8 w) bs 0"

definition push_bytes :: "(bytes \<Rightarrow> bytes) \<Rightarrow> bytes \<Rightarrow> cell_container \<Rightarrow> cell_container option" where
  "push_bytes compress2 bs c = do {
     (c1, off) \<leftarrow> alloc compress2 (length bs) c;
     write_cell off bs c1
   }"

definition push_null_cell :: "(bytes \<Rightarrow> bytes) \<Rightarrow> cell_container \<Rightarrow> cell_container option" where
  "push_null_cell compress2 = push_bytes compress2 [combine_type_value CT_NULL NULL_CELL_SUB]"

definition push_int_cell :: "(bytes \<Rightarrow> bytes) \<Rightarrow> 64 word \<Rightarrow> cell_container \<Rightarrow> cell_container option" where
  "push_int_cell compress2 i =
    push_bytes compress2 (combine_type_value CT_INTEGER 0 # object_bytes i)"

definition push_float_cell :: "(bytes \<Rightarrow> bytes) \<Rightarrow> 64 word \<Rightarrow> cell_container \<Rightarrow> cell_container option" where
  "push_float_cell compress2 f =
    push_bytes compress2 (combine_type_value CT_FLOAT 0 # object_bytes f)"

definition push_float_with_units_cell ::
  "(bytes \<Rightarrow> bytes) \<Rightarrow> 64 word \<Rightarrow> bytes \<Rightarrow> cell_container \<Rightarrow> cell_container option" where
  "push_float_with_units_cell compress2 actual as_str c =
    (if length as_str < SHORT_TEXT_LENGTH
     then push_bytes compress2
       (combine_type_value CT_FLOAT (of_nat (length as_str)) # object_bytes actual @ as_str) c
     else None)"

definition length_bytes :: "32 word \<Rightarrow> bytes" where
  "length_bytes len =
    [ucast (len AND 0xff), ucast (drop_bit 8 len AND 0xff), ucast (drop_bit 16 len AND 0xff),
     ucast (drop_bit 24 len AND 0xff)]"

definition push_text_cell :: "(bytes \<Rightarrow> bytes) \<Rightarrow> bytes \<Rightarrow> cell_container \<Rightarrow> cell_container option" where
  "push_text_cell compress2 sf =
    (if length sf < SHORT_TEXT_LENGTH
     then push_bytes compress2 (combine_type_value CT_TEXT (of_nat (length sf)) # sf)
     else push_bytes compress2
       (combine_type_value CT_TEXT (of_nat SHORT_TEXT_LENGTH)
        # length_bytes (of_nat (length sf)) @ sf))"

section \<open>Cursors\<close>

definition end_cursor :: "cell_container \<Rightarrow> cell_cursor" where
  "end_cursor c =
    \<lparr>c_chunk = length (cc_chunks c) - 1, c_offset = cc_size (last (cc_chunks c))\<rparr>"

text \<open>The byte \<open>udata()[k]\<close>, and \<open>n\<close> bytes from there on.\<close>

definition udata :: "cell_container \<Rightarrow> cell_cursor \<Rightarrow> nat \<Rightarrow> 8 word option" where
  "udata c cur k = do {
     d \<leftarrow> cc_data (cc_chunks c ! c_chunk cur);
     if c_offset cur + k < length d then Some (d ! (c_offset cur + k)) else None
   }"

definition udata_bytes :: "cell_container \<Rightarrow> cell_cursor \<Rightarrow> nat \<Rightarrow> nat \<Rightarrow> bytes option" where
  "udata_bytes c cur k n = do {
     d \<leftarrow> cc_data (cc_chunks c ! c_chunk cur);
     if c_offset cur + k + n \<le> length d then Some (take n (drop (c_offset cur + k) d)) else None
   }"

definition get_type :: "cell_container \<Rightarrow> cell_cursor \<Rightarrow> 8 word option" where
  "get_type c cur = do { b \<leftarrow> udata c cur 0; Some (b AND 0x03) }"

definition get_sub_value :: "cell_container \<Rightarrow> cell_cursor \<Rightarrow> nat option" where
  "get_sub_value c cur = do { b \<leftarrow> udata c cur 0; Some (unat (drop_bit 2 b)) }"

definition get_text_length :: "cell_container \<Rightarrow> cell_cursor \<Rightarrow> nat option" where
  "get_text_length c cur = do {
     sub \<leftarrow> get_sub_value c cur;
     if sub < SHORT_TEXT_LENGTH then Some sub
     else do {
       b1 \<leftarrow> udata c cur 1; b2 \<leftarrow> udata c cur 2; b3 \<leftarrow> udata c cur 3; b4 \<leftarrow> udata c cur 4;
       let i = (ucast b1 :: 32 word) OR push_bit 8 (ucast b2) OR push_bit 16 (ucast b3)
         OR push_bit 24 (ucast b4);
       Some (unat (scast i :: 64 word))
     }
   }"

definition get_text :: "cell_container \<Rightarrow> cell_cursor \<Rightarrow> bytes option" where
  "get_text c cur = do {
     sub \<leftarrow> get_sub_value c cur;
     len \<leftarrow> get_text_length c cur;
     if sub < SHORT_TEXT_LENGTH then udata_bytes c cur 1 len else udata_bytes c cur 5 len
   }"

definition get_int :: "cell_container \<Rightarrow> cell_cursor \<Rightarrow> 64 word option" where
  "get_int c cur = do { bs \<leftarrow> udata_bytes c cur 1 8; Some (of_object_bytes bs) }"

definition get_float :: "cell_container \<Rightarrow> cell_cursor \<Rightarrow> 64 word option" where
  "get_float c cur = do { bs \<leftarrow> udata_bytes c cur 1 8; Some (of_object_bytes bs) }"

definition get_float_as_text :: "cell_container \<Rightarrow> cell_cursor \<Rightarrow> bytes option" where
  "get_float_as_text c cur = do {
     sub \<leftarrow> get_sub_value c cur;
     if sub > 0 then udata_bytes c cur 9 sub else None
   }"

definition cursor_sync ::
  "(nat \<Rightarrow> bytes \<Rightarrow> bytes option) \<Rightarrow> cell_container \<Rightarrow> cell_cursor
    \<Rightarrow> (cell_container \<times> cell_cursor option) option" where
  "cursor_sync uncompress c cur =
    (if c_offset cur < cc_size (cc_chunks c ! c_chunk cur)
     then do { c1 \<leftarrow> load_chunk_into_cache uncompress (c_chunk cur) c; Some (c1, Some cur) }
     else let i = Suc (c_chunk cur) in
       if i < length (cc_chunks c)
       then do {
         c1 \<leftarrow> load_chunk_into_cache uncompress i c;
         Some (c1, Some \<lparr>c_chunk = i, c_offset = 0\<rparr>)
       }
       else Some (c, None))"

definition cell_advance :: "cell_container \<Rightarrow> cell_cursor \<Rightarrow> nat option" where
  "cell_advance c cur = do {
     t \<leftarrow> get_type c cur;
     if t = CT_NULL then Some 1
     else if t = CT_TEXT then do {
       len \<leftarrow> get_text_length c cur;
       Some (if len \<ge> SHORT_TEXT_LENGTH then 1 + len + 4 else 1 + len)
     }
     else do { sub \<leftarrow> get_sub_value c cur; Some (1 + 8 + sub) }
   }"

text \<open>The end of \<open>next\<close>: a zero byte ends the chunk.\<close>

definition arrive_at ::
  "(nat \<Rightarrow> bytes \<Rightarrow> bytes option) \<Rightarrow> cell_container \<Rightarrow> cell_cursor
    \<Rightarrow> (cell_container \<times> cell_cursor option) option" where
  "arrive_at uncompress c cur = do {
     b \<leftarrow> udata c cur 0;
     let i = Suc (c_chunk cur);
     if b = 0
     then if i < length (cc_chunks c)
       then do {
         c1 \<leftarrow> load_chunk_into_cache uncompress i c;
         Some (c1, Some \<lparr>c_chunk = i, c_offset = 0\<rparr>)
       }
       else Some (c, None)
     else do { c1 \<leftarrow> load_chunk_into_cache uncompress (c_chunk cur) c; Some (c1, Some cur) }
   }"

definition cursor_next ::
  "(nat \<Rightarrow> bytes \<Rightarrow> bytes option) \<Rightarrow> cell_container \<Rightarrow> cell_cursor
    \<Rightarrow> (cell_container \<times> cell_cursor option) option" where
  "cursor_next uncompress c cur = do {
     advance \<leftarrow> cell_advance c cur;
     if c_offset cur + advance \<ge> cc_size (cc_chunks c ! c_chunk cur)
     then let i = Suc (c_chunk cur) in
       if i < length (cc_chunks c)
       then do {
         c1 \<leftarrow> load_chunk_into_cache uncompress i c;
         arrive_at uncompress c1 \<lparr>c_chunk = i, c_offset = 0\<rparr>
       }
       else Some (c, None)
     else arrive_at uncompress c (cur\<lparr>c_offset := c_offset cur + advance\<rparr>)
   }"

text \<open>\<open>to_string_fragment\<close>; the two number formats are the library's, the bytes of a null are \<open><NULL>\<close>.\<close>

definition null_text :: bytes where
  "null_text = [0x3C, 0x4E, 0x55, 0x4C, 0x4C, 0x3E]"

definition to_string_fragment ::
  "(64 word \<Rightarrow> bytes) \<Rightarrow> (64 word \<Rightarrow> bytes) \<Rightarrow> cell_container \<Rightarrow> cell_cursor \<Rightarrow> bytes option" where
  "to_string_fragment fmt_int fmt_float c cur = do {
     t \<leftarrow> get_type c cur;
     if t = CT_NULL then Some null_text
     else if t = CT_INTEGER then do { i \<leftarrow> get_int c cur; Some (fmt_int i) }
     else if t = CT_FLOAT then do {
       as_str_len \<leftarrow> get_sub_value c cur;
       if as_str_len > 0 then get_float_as_text c cur
       else do { f \<leftarrow> get_float c cur; Some (fmt_float f) }
     }
     else if t = CT_TEXT then get_text c cur
     else None
   }"

section \<open>What is in a chunk\<close>

datatype cell =
    Null_cell
  | Int_cell "64 word"
  | Float_cell "64 word"
  | Float_with_units_cell "64 word" bytes
  | Text_cell bytes

definition push_cell :: "(bytes \<Rightarrow> bytes) \<Rightarrow> cell \<Rightarrow> cell_container \<Rightarrow> cell_container option" where
  "push_cell compress2 x =
    (case x of Null_cell \<Rightarrow> push_null_cell compress2
     | Int_cell i \<Rightarrow> push_int_cell compress2 i
     | Float_cell f \<Rightarrow> push_float_cell compress2 f
     | Float_with_units_cell f s \<Rightarrow> push_float_with_units_cell compress2 f s
     | Text_cell s \<Rightarrow> push_text_cell compress2 s)"

text \<open>A fragment's length is an \<open>int\<close>, and a unit is a short text.\<close>

definition cell_ok :: "cell \<Rightarrow> bool" where
  "cell_ok x =
    (case x of Float_with_units_cell f s \<Rightarrow> length s < SHORT_TEXT_LENGTH
     | Text_cell s \<Rightarrow> length s < 2 ^ 31
     | _ \<Rightarrow> True)"

definition cell_type :: "cell \<Rightarrow> 8 word" where
  "cell_type x =
    (case x of Null_cell \<Rightarrow> CT_NULL | Int_cell _ \<Rightarrow> CT_INTEGER | Float_cell _ \<Rightarrow> CT_FLOAT
     | Float_with_units_cell _ _ \<Rightarrow> CT_FLOAT | Text_cell _ \<Rightarrow> CT_TEXT)"

text \<open>A float pushed with an empty text is read as a float without one.\<close>

definition as_read :: "cell \<Rightarrow> cell" where
  "as_read x = (case x of Float_with_units_cell f s \<Rightarrow> if s = [] then Float_cell f else x | _ \<Rightarrow> x)"

definition read_cell :: "cell_container \<Rightarrow> cell_cursor \<Rightarrow> cell option" where
  "read_cell c cur = do {
     t \<leftarrow> get_type c cur;
     if t = CT_NULL then Some Null_cell
     else if t = CT_INTEGER then do { i \<leftarrow> get_int c cur; Some (Int_cell i) }
     else if t = CT_FLOAT then do {
       sub \<leftarrow> get_sub_value c cur;
       f \<leftarrow> get_float c cur;
       if sub > 0 then do { s \<leftarrow> get_float_as_text c cur; Some (Float_with_units_cell f s) }
       else Some (Float_cell f)
     }
     else do { s \<leftarrow> get_text c cur; Some (Text_cell s) }
   }"

definition cell_text :: "(64 word \<Rightarrow> bytes) \<Rightarrow> (64 word \<Rightarrow> bytes) \<Rightarrow> cell \<Rightarrow> bytes" where
  "cell_text fmt_int fmt_float x =
    (case as_read x of Null_cell \<Rightarrow> null_text | Int_cell i \<Rightarrow> fmt_int i | Float_cell f \<Rightarrow> fmt_float f
     | Float_with_units_cell _ s \<Rightarrow> s | Text_cell s \<Rightarrow> s)"

definition cell_bytes :: "cell \<Rightarrow> bytes" where
  "cell_bytes x =
    (case x of Null_cell \<Rightarrow> [combine_type_value CT_NULL NULL_CELL_SUB]
     | Int_cell i \<Rightarrow> combine_type_value CT_INTEGER 0 # object_bytes i
     | Float_cell f \<Rightarrow> combine_type_value CT_FLOAT 0 # object_bytes f
     | Float_with_units_cell f s \<Rightarrow>
         combine_type_value CT_FLOAT (of_nat (length s)) # object_bytes f @ s
     | Text_cell s \<Rightarrow>
         if length s < SHORT_TEXT_LENGTH then combine_type_value CT_TEXT (of_nat (length s)) # s
         else combine_type_value CT_TEXT (of_nat SHORT_TEXT_LENGTH)
           # length_bytes (of_nat (length s)) @ s)"

lemma short_text_length [simp]: "SHORT_TEXT_LENGTH = 63"
  by (simp add: SHORT_TEXT_LENGTH_def drop_bit_eq_div)

lemma push_cell_bytes:
  "cell_ok x \<Longrightarrow> push_cell compress2 x c = push_bytes compress2 (cell_bytes x) c"
  by (cases x) (auto simp: push_cell_def cell_ok_def cell_bytes_def push_null_cell_def push_int_cell_def
      push_float_cell_def push_float_with_units_cell_def push_text_cell_def)

subsection \<open>Reading back what was written\<close>

lemma length_object_bytes [simp]: "length (object_bytes w) = 8"
  by (simp add: object_bytes_def)

lemma bit_of_object_bytes:
  "bit (of_object_bytes bs) n \<longleftrightarrow> n < 64 \<and> n div 8 < length bs \<and> bit (bs ! (n div 8)) (n mod 8)"
proof (induction bs arbitrary: n)
  case Nil
  then show ?case by (simp add: of_object_bytes_def)
next
  case (Cons b bs)
  have step: "of_object_bytes (b # bs) = ucast b OR push_bit 8 (of_object_bytes bs)"
    by (simp add: of_object_bytes_def)
  show ?case
  proof (cases "n < 8")
    case True
    then show ?thesis by (simp add: step bit_or_iff bit_ucast_iff bit_push_bit_iff)
  next
    case False
    then obtain m where m: "n = 8 + m" using le_Suc_ex [of 8 n] by auto
    have "\<not> bit b n" using bit_imp_le_length [of b n] False by auto
    moreover have "n div 8 = Suc (m div 8)" "n mod 8 = m mod 8" by (simp_all add: m)
    ultimately show ?thesis using Cons.IH [of m]
      by (simp add: step bit_or_iff bit_ucast_iff bit_push_bit_iff) (auto simp: m)
  qed
qed

lemma of_object_bytes [simp]: "of_object_bytes (object_bytes w) = w"
proof (rule bit_word_eqI)
  fix n assume "n < LENGTH(64)"
  then have n: "n < 64" "n div 8 < 8" by simp_all
  then show "bit (of_object_bytes (object_bytes w)) n \<longleftrightarrow> bit w n"
    by (simp add: bit_of_object_bytes object_bytes_def bit_ucast_iff bit_drop_bit_eq)
qed

lemma length_length_bytes [simp]: "length (length_bytes w) = 4"
  by (simp add: length_bytes_def)

lemma of_length_bytes:
  "(ucast (length_bytes w ! 0) :: 32 word) OR push_bit 8 (ucast (length_bytes w ! 1))
     OR push_bit 16 (ucast (length_bytes w ! 2)) OR push_bit 24 (ucast (length_bytes w ! 3)) = w"
proof (rule bit_word_eqI)
  fix n assume n: "n < LENGTH(32)"
  have mask: "bit (0xff :: 8 word) k \<longleftrightarrow> k < 8" for k
    using bit_mask_iff [of 8 k, where ?'a = "8 word"] by (auto simp: mask_eq_exp_minus_1)
  have maski: "bit (0xff :: int) k \<longleftrightarrow> k < 8" for k
    using bit_mask_iff [of 8 k, where ?'a = int] by (auto simp: mask_eq_exp_minus_1)
  consider "n < 8" | "8 \<le> n" "n < 16" | "16 \<le> n" "n < 24" | "24 \<le> n" using n by linarith
  then show "bit ((ucast (length_bytes w ! 0) :: 32 word) OR push_bit 8 (ucast (length_bytes w ! 1))
      OR push_bit 16 (ucast (length_bytes w ! 2)) OR push_bit 24 (ucast (length_bytes w ! 3))) n
      \<longleftrightarrow> bit w n"
    using n by cases (auto simp: length_bytes_def bit_or_iff bit_ucast_iff bit_push_bit_iff bit_and_iff
        bit_drop_bit_eq mask maski)
qed

lemma header_bits:
  assumes "n < 64" "t < 4"
  shows "unat (drop_bit 2 (combine_type_value t (of_nat n))) = n" (is ?A)
    and "combine_type_value t (of_nat n) AND 0x03 = t" (is ?B)
proof -
  have n: "drop_bit 2 (push_bit 2 (of_nat n :: 8 word)) = of_nat n"
  proof (rule bit_word_eqI)
    fix k assume "k < LENGTH(8)"
    have "\<not> bit n k" if "6 \<le> k"
    proof -
      have "n < 2 ^ k" using assms(1) power_increasing [of 6 k "2::nat"] that by simp
      then show ?thesis by (simp add: bit_nat_def)
    qed
    then show "bit (drop_bit 2 (push_bit 2 (of_nat n :: 8 word))) k \<longleftrightarrow> bit (of_nat n :: 8 word) k"
      using \<open>k < LENGTH(8)\<close>
      by (cases "6 \<le> k") (auto simp: bit_drop_bit_eq bit_push_bit_iff bit_of_nat_iff)
  qed
  have t: "t = 0 \<or> t = 1 \<or> t = 2 \<or> t = 3"
  proof -
    have "unat t < 4" using assms(2) by (simp add: word_less_nat_alt)
    then have "unat t = 0 \<or> unat t = 1 \<or> unat t = 2 \<or> unat t = 3" by linarith
    then show ?thesis by (simp add: word_unat_eq_iff)
  qed
  have z: "drop_bit 2 t = 0" using t by (auto simp: drop_bit_eq_div)
  have d: "drop_bit 2 (combine_type_value t (of_nat n)) = (of_nat n :: 8 word)"
    unfolding combine_type_value_def drop_bit_or z by (simp add: n)
  show ?A unfolding d using assms(1) by (simp add: unat_of_nat)
  have "push_bit 2 (of_nat n) AND 0x03 = (0 :: 8 word)"
  proof (rule bit_word_eqI)
    fix k assume "k < LENGTH(8)"
    have "bit (0x03 :: 8 word) k \<longleftrightarrow> k < 2"
      using bit_mask_iff [of 2 k, where ?'a = "8 word"] by (auto simp: mask_eq_exp_minus_1)
    then show "bit (push_bit 2 (of_nat n) AND 0x03 :: 8 word) k \<longleftrightarrow> bit (0 :: 8 word) k"
      by (auto simp: bit_and_iff bit_push_bit_iff)
  qed
  then show ?B unfolding combine_type_value_def bit.conj_disj_distrib2 using t by auto
qed

subsection \<open>The accessors at a cell\<close>

definition cell_at :: "cell_container \<Rightarrow> cell_cursor \<Rightarrow> cell \<Rightarrow> bool" where
  "cell_at c cur x \<longleftrightarrow>
    (\<exists>d. cc_data (cc_chunks c ! c_chunk cur) = Some d
       \<and> c_offset cur + length (cell_bytes x) \<le> length d
       \<and> take (length (cell_bytes x)) (drop (c_offset cur) d) = cell_bytes x)"

definition cell_sub :: "cell \<Rightarrow> nat" where
  "cell_sub x =
    (case x of Null_cell \<Rightarrow> 1 | Int_cell _ \<Rightarrow> 0 | Float_cell _ \<Rightarrow> 0
     | Float_with_units_cell _ s \<Rightarrow> length s
     | Text_cell s \<Rightarrow> min (length s) SHORT_TEXT_LENGTH)"

lemma cell_sub_less: "cell_ok x \<Longrightarrow> cell_sub x < 64"
  by (cases x) (auto simp: cell_sub_def cell_ok_def)

lemma cell_type_less: "cell_type x < 4"
  by (cases x) (simp_all add: cell_type_def CT_NULL_def CT_INTEGER_def CT_FLOAT_def CT_TEXT_def)

lemma cell_bytes_header:
  "cell_ok x \<Longrightarrow>
    \<exists>rest. cell_bytes x = combine_type_value (cell_type x) (of_nat (cell_sub x)) # rest"
  by (cases x) (auto simp: cell_bytes_def cell_type_def cell_sub_def NULL_CELL_SUB_def cell_ok_def)

lemma udata_cell:
  assumes "cell_at c cur x" "k < length (cell_bytes x)"
  shows "udata c cur k = Some (cell_bytes x ! k)"
proof -
  obtain d where d: "cc_data (cc_chunks c ! c_chunk cur) = Some d"
      "c_offset cur + length (cell_bytes x) \<le> length d"
      "take (length (cell_bytes x)) (drop (c_offset cur) d) = cell_bytes x"
    using assms(1) unfolding cell_at_def by blast
  have "cell_bytes x ! k = d ! (c_offset cur + k)"
    by (subst d(3) [symmetric]) (use assms(2) d(2) in simp)
  then show ?thesis using d assms(2) by (simp add: udata_def)
qed

lemma udata_bytes_cell:
  assumes "cell_at c cur x" "k + n \<le> length (cell_bytes x)"
  shows "udata_bytes c cur k n = Some (take n (drop k (cell_bytes x)))"
proof -
  obtain d where d: "cc_data (cc_chunks c ! c_chunk cur) = Some d"
      "c_offset cur + length (cell_bytes x) \<le> length d"
      "take (length (cell_bytes x)) (drop (c_offset cur) d) = cell_bytes x"
    using assms(1) unfolding cell_at_def by blast
  have "take n (drop k (cell_bytes x)) = take n (drop k (take (length (cell_bytes x)) (drop (c_offset cur) d)))"
    by (simp only: d(3))
  also have "\<dots> = take n (drop (c_offset cur + k) d)"
    using assms(2) by (simp add: drop_take min_def add.commute)
  finally show ?thesis using d(1,2) assms(2) by (simp add: udata_bytes_def)
qed

lemma udata_header:
  assumes "cell_at c cur x" "cell_ok x"
  shows "udata c cur 0 = Some (combine_type_value (cell_type x) (of_nat (cell_sub x)))"
proof -
  obtain rest where "cell_bytes x = combine_type_value (cell_type x) (of_nat (cell_sub x)) # rest"
    using cell_bytes_header [OF assms(2)] by blast
  then show ?thesis using udata_cell [OF assms(1), of 0] by simp
qed

lemma get_type_cell: "cell_at c cur x \<Longrightarrow> cell_ok x \<Longrightarrow> get_type c cur = Some (cell_type x)"
  by (simp add: get_type_def udata_header header_bits(2) [OF cell_sub_less cell_type_less])

lemma get_sub_value_cell: "cell_at c cur x \<Longrightarrow> cell_ok x \<Longrightarrow> get_sub_value c cur = Some (cell_sub x)"
  by (simp add: get_sub_value_def udata_header header_bits(1) [OF cell_sub_less cell_type_less])

lemma scast_length:
  assumes "n < 2 ^ 31"
  shows "unat (scast (of_nat n :: 32 word) :: 64 word) = n"
proof -
  have s: "sint (of_nat n :: 32 word) = int n"
    using assms by (simp add: sint_uint unsigned_of_nat take_bit_nat_eq_self signed_take_bit_int_eq_self)
  have "(scast (of_nat n :: 32 word) :: 64 word) = of_nat n"
    unfolding scast_eq by (simp add: s)
  then show ?thesis using assms by (simp add: unsigned_of_nat take_bit_nat_eq_self)
qed

lemma get_text_length_cell:
  assumes "cell_at c cur (Text_cell s)" "cell_ok (Text_cell s)"
  shows "get_text_length c cur = Some (length s)"
proof (cases "length s < 63")
  case True
  then show ?thesis
    using get_sub_value_cell [OF assms] by (simp add: get_text_length_def cell_sub_def)
next
  case False
  define lb where "lb = length_bytes (of_nat (length s))"
  have cb: "cell_bytes (Text_cell s) = combine_type_value CT_TEXT (of_nat 63) # lb @ s"
    using False by (simp add: cell_bytes_def lb_def)
  have l: "length lb = 4" by (simp add: lb_def)
  have "udata c cur 1 = Some (lb ! 0)" "udata c cur 2 = Some (lb ! 1)" "udata c cur 3 = Some (lb ! 2)"
      "udata c cur 4 = Some (lb ! 3)"
    using udata_cell [OF assms(1), of 1] udata_cell [OF assms(1), of 2]
      udata_cell [OF assms(1), of 3] udata_cell [OF assms(1), of 4]
    by (simp_all add: cb l nth_append)
  moreover have "get_sub_value c cur = Some 63"
    using get_sub_value_cell [OF assms] False by (simp add: cell_sub_def)
  moreover have "length s < 2 ^ 31" using assms(2) by (simp add: cell_ok_def)
  ultimately show ?thesis
    unfolding get_text_length_def
    by (simp add: lb_def of_length_bytes [unfolded One_nat_def] scast_length del: of_nat_numeral)
qed

lemma get_text_cell:
  assumes "cell_at c cur (Text_cell s)" "cell_ok (Text_cell s)"
  shows "get_text c cur = Some s"
proof (cases "length s < 63")
  case True
  then show ?thesis
    using get_sub_value_cell [OF assms] get_text_length_cell [OF assms]
      udata_bytes_cell [OF assms(1), of 1 "length s"]
    by (simp add: get_text_def cell_sub_def cell_bytes_def)
next
  case False
  then show ?thesis
    using get_sub_value_cell [OF assms] get_text_length_cell [OF assms]
      udata_bytes_cell [OF assms(1), of 5 "length s"]
    by (simp add: get_text_def cell_sub_def cell_bytes_def)
qed

lemma udata_value:
  assumes "cell_at c cur x" "x = Int_cell w \<or> x = Float_cell w \<or> (\<exists>s. x = Float_with_units_cell w s)"
  shows "udata_bytes c cur 1 8 = Some (object_bytes w)"
  using assms(2) udata_bytes_cell [OF assms(1), of 1 8] by (auto simp: cell_bytes_def)

lemma get_float_as_text_cell:
  assumes "cell_at c cur (Float_with_units_cell w s)" "cell_ok (Float_with_units_cell w s)" "s \<noteq> []"
  shows "get_float_as_text c cur = Some s"
  using get_sub_value_cell [OF assms(1,2)] udata_bytes_cell [OF assms(1), of 9 "length s"] assms(3)
  by (simp add: get_float_as_text_def cell_sub_def cell_bytes_def)

lemmas cell_type_values = CT_NULL_def CT_INTEGER_def CT_FLOAT_def CT_TEXT_def

lemma read_cell_cell:
  assumes "cell_at c cur x" "cell_ok x"
  shows "read_cell c cur = Some (as_read x)"
  using get_type_cell [OF assms] get_sub_value_cell [OF assms] assms get_text_cell [of c cur]
    udata_value [of c cur x] get_float_as_text_cell [of c cur]
  by (cases x) (simp_all add: read_cell_def cell_type_def cell_type_values as_read_def get_int_def
      get_float_def cell_sub_def)

lemma to_string_fragment_cell:
  assumes "cell_at c cur x" "cell_ok x"
  shows "to_string_fragment fmt_int fmt_float c cur = Some (cell_text fmt_int fmt_float x)"
  using get_type_cell [OF assms] get_sub_value_cell [OF assms] assms get_text_cell [of c cur]
    udata_value [of c cur x] get_float_as_text_cell [of c cur]
  by (cases x) (simp_all add: to_string_fragment_def cell_type_def cell_type_values as_read_def get_int_def
      get_float_def cell_sub_def cell_text_def)

lemma cell_advance_cell:
  assumes "cell_at c cur x" "cell_ok x"
  shows "cell_advance c cur = Some (length (cell_bytes x))"
  using get_type_cell [OF assms] get_sub_value_cell [OF assms] assms get_text_length_cell [of c cur]
  by (cases x) (simp_all add: cell_advance_def cell_type_def cell_type_values cell_bytes_def cell_sub_def)

lemma header_not_zero:
  assumes "cell_ok x"
  shows "combine_type_value (cell_type x) (of_nat (cell_sub x)) \<noteq> 0"
proof
  assume z: "combine_type_value (cell_type x) (of_nat (cell_sub x)) = 0"
  have "cell_type x = 0" "cell_sub x = 0"
    using header_bits [OF cell_sub_less [OF assms] cell_type_less [of x], unfolded z] by simp_all
  then show False by (cases x) (simp_all add: cell_type_def cell_sub_def cell_type_values)
qed

end
