(* ===== verification/Cell_Walk.thy ===== *)
theory Cell_Walk
  imports Cell_Container
begin

text \<open>
  What the store of cells promises its readers: the cells that each chunk of a container holds are an
  invariant of every operation, and a cursor that was taken before cells were pushed meets them in
  their order, with their types and values.
\<close>

unbundle bit_operations_syntax

section \<open>What is in a container\<close>

definition bytes_of :: "cell list \<Rightarrow> bytes" where
  "bytes_of xs = concat (map cell_bytes xs)"

definition zlib_ok :: "(bytes \<Rightarrow> bytes) \<Rightarrow> (nat \<Rightarrow> bytes \<Rightarrow> bytes option) \<Rightarrow> bool" where
  "zlib_ok compress2 uncompress \<longleftrightarrow>
    (\<forall>cap d. length d \<le> cap \<longrightarrow> uncompress cap (compress2 d) = Some d)"

definition buffer_holds :: "cell_chunk \<Rightarrow> bytes \<Rightarrow> bytes \<Rightarrow> bool" where
  "buffer_holds cc bs d \<longleftrightarrow> cc_capacity cc \<le> length d \<and> take (length bs) d = bs"

text \<open>A chunk before the last one is compressed, and may be unpacked; the last one is only unpacked.\<close>

definition packed_holds :: "(bytes \<Rightarrow> bytes) \<Rightarrow> cell_chunk \<Rightarrow> cell list \<Rightarrow> bool" where
  "packed_holds compress2 cc xs \<longleftrightarrow>
    cc_size cc = length (bytes_of xs) \<and> cc_size cc \<le> cc_capacity cc
    \<and> cc_compressed cc = Some (compress2 (bytes_of xs))
    \<and> (cc_data cc = None \<or> buffer_holds cc (bytes_of xs) (the (cc_data cc)))"

definition open_holds :: "cell_chunk \<Rightarrow> cell list \<Rightarrow> bool" where
  "open_holds cc xs \<longleftrightarrow>
    cc_size cc = length (bytes_of xs) \<and> cc_size cc \<le> cc_capacity cc
    \<and> cc_data cc \<noteq> None \<and> buffer_holds cc (bytes_of xs) (the (cc_data cc))"

definition cache_ok :: "nat option list \<Rightarrow> cell_chunk list \<Rightarrow> bool" where
  "cache_ok cache packed \<longleftrightarrow>
    length cache = 3
    \<and> (\<forall>j. Some j \<in> set cache \<longrightarrow> j < length packed)
    \<and> (\<forall>i<length packed. cc_data (packed ! i) \<noteq> None \<longrightarrow> Some i \<in> set cache)"

definition container_holds ::
  "(bytes \<Rightarrow> bytes) \<Rightarrow> cell_container \<Rightarrow> cell list list \<Rightarrow> cell list \<Rightarrow> bool" where
  "container_holds compress2 c xss xs \<longleftrightarrow>
    cc_chunks c \<noteq> []
    \<and> list_all2 (packed_holds compress2) (butlast (cc_chunks c)) xss
    \<and> open_holds (last (cc_chunks c)) xs
    \<and> (\<forall>ys\<in>set (tl (xss @ [xs])). ys \<noteq> [])
    \<and> (\<forall>ys\<in>set (xss @ [xs]). \<forall>x\<in>set ys. cell_ok x)
    \<and> cache_ok (cc_chunk_cache c) (butlast (cc_chunks c))"

lemma bytes_of_simps [simp]:
  "bytes_of [] = []" "bytes_of (x # xs) = cell_bytes x @ bytes_of xs"
  "bytes_of (xs @ ys) = bytes_of xs @ bytes_of ys"
  by (simp_all add: bytes_of_def)

lemma new_container_holds: "container_holds compress2 new_container [] []"
  by (simp add: container_holds_def new_container_def new_chunk_def open_holds_def buffer_holds_def
      cache_ok_def)

lemma container_reset_holds:
  assumes "container_holds compress2 c xss xs"
  shows "container_holds compress2 (container_reset c) [] []"
proof (cases "cc_chunks c")
  case Nil
  then show ?thesis using assms by (simp add: container_holds_def)
next
  case (Cons cc ccs)
  have "cc_data cc = None \<or> cc_capacity cc \<le> length (the (cc_data cc))"
  proof (cases ccs)
    case Nil
    then show ?thesis using assms Cons by (auto simp: container_holds_def open_holds_def buffer_holds_def)
  next
    case (Cons cc' ccs')
    then show ?thesis using assms \<open>cc_chunks c = cc # ccs\<close>
      by (auto simp: container_holds_def packed_holds_def buffer_holds_def list_all2_Cons1)
  qed
  then show ?thesis
    by (auto simp: container_holds_def container_reset_def Cons chunk_reset_def open_holds_def
        buffer_holds_def cache_ok_def)
qed

subsection \<open>Pushing\<close>

lemma open_holds_write:
  assumes "open_holds cc xs" "cell_ok x" "length (cell_bytes x) \<le> available cc"
  shows "\<exists>d. cc_data cc = Some d
    \<and> open_holds (cc\<lparr>cc_size := cc_size cc + length (cell_bytes x),
         cc_data := Some (take (cc_size cc) d @ cell_bytes x
           @ drop (cc_size cc + length (cell_bytes x)) d)\<rparr>) (xs @ [x])"
proof -
  obtain d where d: "cc_data cc = Some d" "cc_size cc = length (bytes_of xs)"
      "cc_size cc \<le> cc_capacity cc" "cc_capacity cc \<le> length d" "take (length (bytes_of xs)) d = bytes_of xs"
    using assms(1) by (auto simp: open_holds_def buffer_holds_def)
  then show ?thesis using assms(3) by (simp add: open_holds_def buffer_holds_def available_def)
qed

lemma push_bytes_room:
  assumes "cc_chunks c = packed @ [cc]" "length bs \<le> available cc" "cc_data cc = Some d"
  shows "push_bytes compress2 bs c = Some (c\<lparr>cc_chunks := packed @ [cc\<lparr>cc_size := cc_size cc + length bs,
      cc_data := Some (take (cc_size cc) d @ bs @ drop (cc_size cc + length bs) d)\<rparr>]\<rparr>)"
  using assms by (simp add: push_bytes_def alloc_def write_cell_def)

lemma push_bytes_full:
  assumes "cc_chunks c = packed @ [cc]" "\<not> length bs \<le> available cc"
    and "next_chunk_after compress2 (length bs) cc = Some (old, new)"
    and "cc_data new = Some d" "cc_size new = 0"
  shows "push_bytes compress2 bs c = Some (c\<lparr>cc_chunks := packed @ [old,
      new\<lparr>cc_size := length bs, cc_data := Some (bs @ drop (length bs) d)\<rparr>]\<rparr>)"
  using assms by (simp add: push_bytes_def alloc_def write_cell_def butlast_append)

lemma next_chunk_holds:
  assumes "open_holds cc xs" "length bs = amount"
  shows "\<exists>old new d. next_chunk_after compress2 amount cc = Some (old, new)
    \<and> packed_holds compress2 old xs \<and> cc_data old = None
    \<and> cc_data new = Some d \<and> cc_size new = 0 \<and> cc_capacity new \<le> length d \<and> amount \<le> cc_capacity new"
proof -
  obtain d where d: "cc_data cc = Some d" "cc_size cc = length (bytes_of xs)"
      "cc_size cc \<le> cc_capacity cc" "cc_capacity cc \<le> length d" "take (length (bytes_of xs)) d = bytes_of xs"
    using assms(1) by (auto simp: open_holds_def buffer_holds_def)
  then show ?thesis
    by (simp add: next_chunk_after_def Let_def packed_holds_def new_chunk_def) linarith
qed

lemma push_cell_holds:
  assumes "container_holds compress2 c xss xs" "cell_ok x"
  shows "\<exists>c'. push_cell compress2 x c = Some c'
    \<and> (container_holds compress2 c' xss (xs @ [x]) \<or> container_holds compress2 c' (xss @ [xs]) [x])"
proof -
  obtain packed cc where cs: "cc_chunks c = packed @ [cc]"
    using assms(1) by (metis container_holds_def append_butlast_last_id)
  have h: "list_all2 (packed_holds compress2) packed xss" "open_holds cc xs"
      "cache_ok (cc_chunk_cache c) packed"
      "\<forall>ys\<in>set (tl (xss @ [xs])). ys \<noteq> []" "\<forall>ys\<in>set (xss @ [xs]). \<forall>x\<in>set ys. cell_ok x"
    using assms(1) by (simp_all add: container_holds_def cs)
  have p: "push_cell compress2 x c = push_bytes compress2 (cell_bytes x) c"
    by (rule push_cell_bytes [OF assms(2)])
  show ?thesis
  proof (cases "length (cell_bytes x) \<le> available cc")
    case True
    obtain d where d: "cc_data cc = Some d"
      "open_holds (cc\<lparr>cc_size := cc_size cc + length (cell_bytes x),
         cc_data := Some (take (cc_size cc) d @ cell_bytes x
           @ drop (cc_size cc + length (cell_bytes x)) d)\<rparr>) (xs @ [x])"
      using open_holds_write [OF h(2) assms(2) True] by blast
    have ne: "\<forall>ys\<in>set (tl (xss @ [xs @ [x]])). ys \<noteq> []"
      using h(4) by (cases xss) auto
    show ?thesis
      unfolding p push_bytes_room [OF cs True d(1)]
      using h d(2) ne assms(2) by (auto simp: container_holds_def)
  next
    case False
    obtain old new d where n: "next_chunk_after compress2 (length (cell_bytes x)) cc = Some (old, new)"
        "packed_holds compress2 old xs" "cc_data old = None" "cc_data new = Some d" "cc_size new = 0"
        "cc_capacity new \<le> length d" "length (cell_bytes x) \<le> cc_capacity new"
      using next_chunk_holds [OF h(2) refl] by blast
    have ne: "\<forall>ys\<in>set (tl (xss @ [xs, [x]])). ys \<noteq> []"
      using h(4) by (cases xss) auto
    have o: "open_holds (new\<lparr>cc_size := length (cell_bytes x),
        cc_data := Some (cell_bytes x @ drop (length (cell_bytes x)) d)\<rparr>) [x]"
      using n by (simp add: open_holds_def buffer_holds_def)
    have "cache_ok (cc_chunk_cache c) (packed @ [old])"
      using h(3) n(3) by (auto simp: cache_ok_def nth_append less_Suc_eq)
    then show ?thesis
      unfolding p push_bytes_full [OF cs False n(1,4,5)]
      using h n(2) ne o assms(2)
      by (auto simp: container_holds_def butlast_append list_all2_appendI)
  qed
qed

subsection \<open>Unpacking\<close>

definition chunk_cells :: "cell list list \<Rightarrow> cell list \<Rightarrow> nat \<Rightarrow> cell list" where
  "chunk_cells xss xs i = (xss @ [xs]) ! i"

lemma chunk_load_packed:
  assumes "packed_holds compress2 cc xs" "zlib_ok compress2 uncompress"
  shows "\<exists>cc'. chunk_load uncompress cc = Some cc' \<and> packed_holds compress2 cc' xs \<and> cc_data cc' \<noteq> None"
proof (cases "cc_data cc")
  case (Some d)
  then show ?thesis using assms(1) by (simp add: chunk_load_def)
next
  case None
  then show ?thesis using assms
    by (simp add: chunk_load_def packed_holds_def zlib_ok_def buffer_holds_def)
qed

lemma chunk_evict_packed: "packed_holds compress2 cc xs \<Longrightarrow> packed_holds compress2 (chunk_evict cc) xs"
  by (simp add: packed_holds_def chunk_evict_def)

lemma load_last:
  assumes "container_holds compress2 c xss xs"
  shows "load_chunk_into_cache uncompress (length xss) c = Some c"
proof -
  obtain packed cc where cs: "cc_chunks c = packed @ [cc]"
    using assms(1) by (metis container_holds_def append_butlast_last_id)
  then have "cc_data (cc_chunks c ! length xss) \<noteq> None"
    using assms by (auto simp: container_holds_def open_holds_def nth_append dest!: list_all2_lengthD)
  then show ?thesis by (simp add: load_chunk_into_cache_def)
qed

lemma load_packed:
  assumes "container_holds compress2 c xss xs" "zlib_ok compress2 uncompress" "i < length xss"
  shows "\<exists>c'. load_chunk_into_cache uncompress i c = Some c' \<and> container_holds compress2 c' xss xs
    \<and> cc_data (cc_chunks c' ! i) \<noteq> None"
proof (cases "cc_data (cc_chunks c ! i) = None")
  case False
  then show ?thesis using assms(1) by (simp add: load_chunk_into_cache_def)
next
  case True
  obtain packed cc where cs: "cc_chunks c = packed @ [cc]"
    using assms(1) by (metis container_holds_def append_butlast_last_id)
  have h: "list_all2 (packed_holds compress2) packed xss" "cache_ok (cc_chunk_cache c) packed"
    using assms(1) by (simp_all add: container_holds_def cs)
  have len: "length packed = length xss" using h(1) by (rule list_all2_lengthD)
  obtain a b e where abe: "cc_chunk_cache c = [a, b, e]"
    using h(2) by (auto simp: cache_ok_def length_Suc_conv numeral_3_eq_3)
  define packed1 where
    "packed1 = (case e of None \<Rightarrow> packed | Some j \<Rightarrow> packed[j := chunk_evict (packed ! j)])"
  have e: "j < length packed" if "e = Some j" for j using h(2) that by (simp add: cache_ok_def abe)
  have p1: "list_all2 (packed_holds compress2) packed1 xss"
  proof (cases e)
    case (Some j)
    then have "list_all2 (packed_holds compress2) (packed[j := chunk_evict (packed ! j)]) (xss[j := xss ! j])"
      using e [OF Some] h(1) len by (intro list_all2_update_cong) (auto simp: chunk_evict_packed list_all2_nthD)
    then show ?thesis using Some by (simp add: packed1_def)
  qed (simp add: packed1_def h(1))
  have l1: "length packed1 = length xss" using p1 by (rule list_all2_lengthD)
  have d1: "Some k \<in> {a, b}" if "k < length packed1" "cc_data (packed1 ! k) \<noteq> None" for k
    using that h(2) e
    by (cases e) (auto simp: packed1_def cache_ok_def abe nth_list_update chunk_evict_def split: if_splits)
  obtain cc' where cc': "chunk_load uncompress (packed1 ! i) = Some cc'"
      "packed_holds compress2 cc' (xss ! i)" "cc_data cc' \<noteq> None"
    using chunk_load_packed [OF list_all2_nthD2 [OF p1 assms(3)] assms(2)] by blast
  define c' where "c' = \<lparr>cc_chunks = packed1[i := cc'] @ [cc], cc_chunk_cache = [Some i, a, b]\<rparr>"
  have ch: "(case e of None \<Rightarrow> cc_chunks c
      | Some j \<Rightarrow> (cc_chunks c)[j := chunk_evict (cc_chunks c ! j)]) = packed1 @ [cc]"
    using e by (auto simp: packed1_def cs list_update_append nth_append split: option.splits)
  have "load_chunk_into_cache uncompress i c = Some c'"
    using True assms(3) l1 cc'(1)
    by (simp add: load_chunk_into_cache_def abe ch Let_def nth_append list_update_append c'_def)
  moreover have "container_holds compress2 c' xss xs"
  proof -
    have "list_all2 (packed_holds compress2) (packed1[i := cc']) (xss[i := xss ! i])"
      using p1 cc'(2) by (intro list_all2_update_cong)
    moreover have "cache_ok [Some i, a, b] (packed1[i := cc'])"
      using d1 h(2) assms(3) l1 len
      by (auto simp: cache_ok_def abe nth_list_update split: if_splits)
    ultimately show ?thesis using assms(1) by (simp add: container_holds_def c'_def cs)
  qed
  moreover have "cc_data (cc_chunks c' ! i) \<noteq> None"
    using cc'(3) assms(3) l1 by (simp add: c'_def nth_append)
  ultimately show ?thesis by blast
qed

lemma load_holds:
  assumes "container_holds compress2 c xss xs" "zlib_ok compress2 uncompress" "i \<le> length xss"
  shows "\<exists>c'. load_chunk_into_cache uncompress i c = Some c' \<and> container_holds compress2 c' xss xs
    \<and> cc_data (cc_chunks c' ! i) \<noteq> None"
proof (cases "i < length xss")
  case True
  then show ?thesis by (rule load_packed [OF assms(1,2)])
next
  case False
  then have i: "i = length xss" using assms(3) by simp
  have "cc_data (cc_chunks c ! length xss) \<noteq> None"
    using assms(1) by (auto simp: container_holds_def open_holds_def last_conv_nth dest!: list_all2_lengthD)
  then show ?thesis using load_last [OF assms(1)] assms(1) i by blast
qed

text \<open>What is known of the chunk \<open>i\<close> of the chain.\<close>

lemma container_chunk:
  assumes "container_holds compress2 c xss xs" "i \<le> length xss"
  shows "cc_size (cc_chunks c ! i) = length (bytes_of (chunk_cells xss xs i))"
    and "length (cc_chunks c) = Suc (length xss)"
    and "cc_data (cc_chunks c ! i) = Some d \<Longrightarrow>
      length (bytes_of (chunk_cells xss xs i)) \<le> length d
      \<and> take (length (bytes_of (chunk_cells xss xs i))) d = bytes_of (chunk_cells xss xs i)"
proof -
  obtain packed cc where cs: "cc_chunks c = packed @ [cc]"
    using assms(1) by (metis container_holds_def append_butlast_last_id)
  have h: "list_all2 (packed_holds compress2) packed xss" "open_holds cc xs"
    using assms(1) by (simp_all add: container_holds_def cs)
  have len: "length packed = length xss" using h(1) by (rule list_all2_lengthD)
  show "length (cc_chunks c) = Suc (length xss)" by (simp add: cs len)
  have "packed_holds compress2 (cc_chunks c ! i) (chunk_cells xss xs i)
      \<or> open_holds (cc_chunks c ! i) (chunk_cells xss xs i)"
    using h assms(2) len by (cases "i < length xss") (auto simp: chunk_cells_def cs nth_append list_all2_nthD)
  then show "cc_size (cc_chunks c ! i) = length (bytes_of (chunk_cells xss xs i))"
    and "cc_data (cc_chunks c ! i) = Some d \<Longrightarrow>
      length (bytes_of (chunk_cells xss xs i)) \<le> length d
      \<and> take (length (bytes_of (chunk_cells xss xs i))) d = bytes_of (chunk_cells xss xs i)"
    by (auto simp: packed_holds_def open_holds_def buffer_holds_def)
qed

section \<open>Walking over the cells\<close>

text \<open>\<open>rest\<close> are the cells from the cursor on; \<open>at_cell\<close> says the cursor is at the first of them.\<close>

definition at_cells :: "cell list list \<Rightarrow> cell list \<Rightarrow> cell_cursor \<Rightarrow> cell list \<Rightarrow> bool" where
  "at_cells xss xs cur rest \<longleftrightarrow>
    (\<exists>pre post. c_chunk cur \<le> length xss \<and> chunk_cells xss xs (c_chunk cur) = pre @ post
       \<and> c_offset cur = length (bytes_of pre)
       \<and> rest = post @ concat (drop (Suc (c_chunk cur)) (xss @ [xs])))"

definition standing_at :: "cell list list \<Rightarrow> cell list \<Rightarrow> cell_cursor \<Rightarrow> cell \<Rightarrow> cell list \<Rightarrow> bool" where
  "standing_at xss xs cur x rest \<longleftrightarrow>
    (\<exists>pre post. c_chunk cur \<le> length xss \<and> chunk_cells xss xs (c_chunk cur) = pre @ x # post
       \<and> c_offset cur = length (bytes_of pre)
       \<and> rest = post @ concat (drop (Suc (c_chunk cur)) (xss @ [xs])))"

lemma standing_at_cells: "standing_at xss xs cur x rest \<Longrightarrow> at_cells xss xs cur (x # rest)"
  unfolding standing_at_def at_cells_def by (metis append_Cons)

lemma cell_bytes_not_empty: "cell_bytes x \<noteq> []"
  by (cases x) (simp_all add: cell_bytes_def)

lemma bytes_of_empty [simp]: "bytes_of xs = [] \<longleftrightarrow> xs = []"
  by (cases xs) (simp_all add: cell_bytes_not_empty)

lemma chunk_cells_ok:
  assumes "container_holds compress2 c xss xs" "i \<le> length xss" "x \<in> set (chunk_cells xss xs i)"
  shows "cell_ok x"
proof -
  have "chunk_cells xss xs i \<in> set (xss @ [xs])"
    unfolding chunk_cells_def by (rule nth_mem) (use assms(2) in simp)
  then show ?thesis using assms by (auto simp: container_holds_def)
qed

lemma later_chunk_cells:
  assumes "container_holds compress2 c xss xs" "0 < i" "i \<le> length xss"
  shows "chunk_cells xss xs i \<noteq> []"
proof -
  have "chunk_cells xss xs i = tl (xss @ [xs]) ! (i - 1)"
    using assms(2,3) by (simp add: chunk_cells_def nth_tl)
  then have "chunk_cells xss xs i \<in> set (tl (xss @ [xs]))" using assms(2,3) by simp
  then show ?thesis using assms(1) by (auto simp: container_holds_def)
qed

lemma drop_chunk_cells:
  "i \<le> length xss \<Longrightarrow> drop i (xss @ [xs]) = chunk_cells xss xs i # drop (Suc i) (xss @ [xs])"
  unfolding chunk_cells_def by (rule Cons_nth_drop_Suc [symmetric]) simp

lemma standing_cell_at:
  assumes "container_holds compress2 c xss xs" "standing_at xss xs cur x rest"
    and "cc_data (cc_chunks c ! c_chunk cur) \<noteq> None"
  shows "cell_at c cur x" and "cell_ok x"
proof -
  obtain pre post where cur: "c_chunk cur \<le> length xss"
      "chunk_cells xss xs (c_chunk cur) = pre @ x # post" "c_offset cur = length (bytes_of pre)"
    using assms(2) unfolding standing_at_def by blast
  obtain d where d: "cc_data (cc_chunks c ! c_chunk cur) = Some d" using assms(3) by blast
  have t: "length (bytes_of pre) + length (cell_bytes x) + length (bytes_of post) \<le> length d"
      "take (length (bytes_of (pre @ x # post))) d = bytes_of (pre @ x # post)"
    using container_chunk(3) [OF assms(1) cur(1) d] cur(2) by simp_all
  have "d = bytes_of pre @ cell_bytes x @ bytes_of post @ drop (length (bytes_of (pre @ x # post))) d"
    using append_take_drop_id [of "length (bytes_of (pre @ x # post))" d] by (subst (asm) t(2)) simp
  then obtain more where "d = bytes_of pre @ cell_bytes x @ more" by blast
  then show "cell_at c cur x" using d cur(3) by (simp add: cell_at_def)
  show "cell_ok x" by (rule chunk_cells_ok [OF assms(1) cur(1)]) (simp add: cur(2))
qed

lemma standing_at_chunk_start:
  assumes "container_holds compress2 c xss xs" "0 < i" "i \<le> length xss"
  shows "\<exists>x rest. standing_at xss xs \<lparr>c_chunk = i, c_offset = 0\<rparr> x rest
    \<and> concat (drop i (xss @ [xs])) = x # rest"
proof -
  obtain x post where "chunk_cells xss xs i = x # post"
    using later_chunk_cells [OF assms] by (meson neq_Nil_conv)
  then have c: "chunk_cells xss xs i = [] @ x # post" by simp
  have "concat (drop i (xss @ [xs])) = x # (post @ concat (drop (Suc i) (xss @ [xs])))"
    unfolding drop_chunk_cells [OF assms(3)] c by simp
  moreover have "standing_at xss xs \<lparr>c_chunk = i, c_offset = 0\<rparr> x (post @ concat (drop (Suc i) (xss @ [xs])))"
    unfolding standing_at_def
    by (rule exI [of _ "[]"], rule exI [of _ post]) (simp add: c [simplified] assms(3))
  ultimately show ?thesis by blast
qed

text \<open>What \<open>sync\<close> and \<open>next\<close> return, for the cells that are left.\<close>

definition stands_on ::
  "(bytes \<Rightarrow> bytes) \<Rightarrow> cell list list \<Rightarrow> cell list \<Rightarrow> cell list \<Rightarrow> (cell_container \<times> cell_cursor option) option
    \<Rightarrow> bool" where
  "stands_on compress2 xss xs rest r \<longleftrightarrow>
    (\<exists>c' at. r = Some (c', at) \<and> container_holds compress2 c' xss xs
       \<and> (case rest of [] \<Rightarrow> at = None
          | x # ys \<Rightarrow> \<exists>cur. at = Some cur \<and> standing_at xss xs cur x ys
              \<and> cc_data (cc_chunks c' ! c_chunk cur) \<noteq> None))"

lemma load_stands_on:
  assumes "container_holds compress2 c xss xs" "zlib_ok compress2 uncompress"
    and "standing_at xss xs cur x rest"
  shows "stands_on compress2 xss xs (x # rest)
    (do { c1 \<leftarrow> load_chunk_into_cache uncompress (c_chunk cur) c; Some (c1, Some cur) })"
proof -
  have "c_chunk cur \<le> length xss" using assms(3) unfolding standing_at_def by blast
  then obtain c' where "load_chunk_into_cache uncompress (c_chunk cur) c = Some c'"
      "container_holds compress2 c' xss xs" "cc_data (cc_chunks c' ! c_chunk cur) \<noteq> None"
    using load_holds [OF assms(1,2)] by blast
  then show ?thesis using assms(3) by (simp add: stands_on_def)
qed

lemma cursor_sync_stands_on:
  assumes "container_holds compress2 c xss xs" "zlib_ok compress2 uncompress"
    and "at_cells xss xs cur rest"
  shows "stands_on compress2 xss xs rest (cursor_sync uncompress c cur)"
proof -
  obtain pre post where cur: "c_chunk cur \<le> length xss"
      "chunk_cells xss xs (c_chunk cur) = pre @ post" "c_offset cur = length (bytes_of pre)"
      "rest = post @ concat (drop (Suc (c_chunk cur)) (xss @ [xs]))"
    using assms(3) unfolding at_cells_def by blast
  have size: "cc_size (cc_chunks c ! c_chunk cur) = length (bytes_of (pre @ post))"
    using container_chunk(1) [OF assms(1) cur(1)] cur(2) by simp
  have len: "length (cc_chunks c) = Suc (length xss)" by (rule container_chunk(2) [OF assms(1) cur(1)])
  show ?thesis
  proof (cases post)
    case (Cons x post')
    have "standing_at xss xs cur x (post' @ concat (drop (Suc (c_chunk cur)) (xss @ [xs])))"
      using cur Cons by (auto simp: standing_at_def)
    moreover have "c_offset cur < cc_size (cc_chunks c ! c_chunk cur)"
      using cell_bytes_not_empty [of x] by (simp add: size cur(3) Cons)
    ultimately show ?thesis
      using load_stands_on [OF assms(1,2)] by (simp add: cursor_sync_def cur(4) Cons)
  next
    case Nil
    have no: "\<not> c_offset cur < cc_size (cc_chunks c ! c_chunk cur)" by (simp add: size cur(3) Nil)
    show ?thesis
    proof (cases "Suc (c_chunk cur) \<le> length xss")
      case True
      obtain x ys where "standing_at xss xs \<lparr>c_chunk = Suc (c_chunk cur), c_offset = 0\<rparr> x ys"
          "concat (drop (Suc (c_chunk cur)) (xss @ [xs])) = x # ys"
        using standing_at_chunk_start [OF assms(1) _ True] by blast
      then show ?thesis
        using load_stands_on [OF assms(1,2)] no True
        by (fastforce simp: cursor_sync_def cur(4) Nil len Let_def)
    next
      case False
      then show ?thesis using no assms(1)
        by (simp add: cursor_sync_def cur(4) Nil len Let_def stands_on_def)
    qed
  qed
qed

lemma arrive_at_stands_on:
  assumes "container_holds compress2 c xss xs" "zlib_ok compress2 uncompress"
    and "standing_at xss xs cur x rest" "cc_data (cc_chunks c ! c_chunk cur) \<noteq> None"
  shows "stands_on compress2 xss xs (x # rest) (arrive_at uncompress c cur)"
  using load_stands_on [OF assms(1-3)] udata_header [OF standing_cell_at [OF assms(1,3,4)]]
    header_not_zero [OF standing_cell_at(2) [OF assms(1,3,4)]]
  by (simp add: arrive_at_def)

lemma cursor_next_stands_on:
  assumes "container_holds compress2 c xss xs" "zlib_ok compress2 uncompress"
    and "standing_at xss xs cur x rest" "cc_data (cc_chunks c ! c_chunk cur) \<noteq> None"
  shows "stands_on compress2 xss xs rest (cursor_next uncompress c cur)"
proof -
  obtain pre post where cur: "c_chunk cur \<le> length xss"
      "chunk_cells xss xs (c_chunk cur) = pre @ x # post" "c_offset cur = length (bytes_of pre)"
      "rest = post @ concat (drop (Suc (c_chunk cur)) (xss @ [xs]))"
    using assms(3) unfolding standing_at_def by blast
  have size: "cc_size (cc_chunks c ! c_chunk cur) = length (bytes_of (pre @ x # post))"
    using container_chunk(1) [OF assms(1) cur(1)] cur(2) by simp
  have len: "length (cc_chunks c) = Suc (length xss)" by (rule container_chunk(2) [OF assms(1) cur(1)])
  have adv: "cell_advance c cur = Some (length (cell_bytes x))"
    by (rule cell_advance_cell [OF standing_cell_at [OF assms(1,3,4)]])
  show ?thesis
  proof (cases post)
    case (Cons y post')
    define cur' where "cur' = cur\<lparr>c_offset := c_offset cur + length (cell_bytes x)\<rparr>"
    have "standing_at xss xs cur' y (post' @ concat (drop (Suc (c_chunk cur)) (xss @ [xs])))"
      using cur Cons by (auto simp: standing_at_def cur'_def intro!: exI [of _ "pre @ [x]"])
    moreover have "\<not> cc_size (cc_chunks c ! c_chunk cur) \<le> c_offset cur + length (cell_bytes x)"
      using cell_bytes_not_empty [of y] by (simp add: size cur(3) Cons)
    moreover have "cc_data (cc_chunks c ! c_chunk cur') \<noteq> None" using assms(4) by (simp add: cur'_def)
    ultimately show ?thesis
      using arrive_at_stands_on [OF assms(1,2)] by (simp add: cursor_next_def adv cur(4) Cons cur'_def)
  next
    case Nil
    have yes: "cc_size (cc_chunks c ! c_chunk cur) \<le> c_offset cur + length (cell_bytes x)"
      by (simp add: size cur(3) Nil)
    show ?thesis
    proof (cases "Suc (c_chunk cur) \<le> length xss")
      case True
      obtain y ys where y: "standing_at xss xs \<lparr>c_chunk = Suc (c_chunk cur), c_offset = 0\<rparr> y ys"
          "concat (drop (Suc (c_chunk cur)) (xss @ [xs])) = y # ys"
        using standing_at_chunk_start [OF assms(1) _ True] by blast
      obtain c' where c': "load_chunk_into_cache uncompress (Suc (c_chunk cur)) c = Some c'"
          "container_holds compress2 c' xss xs" "cc_data (cc_chunks c' ! Suc (c_chunk cur)) \<noteq> None"
        using load_holds [OF assms(1,2) True] by blast
      have "stands_on compress2 xss xs (y # ys)
          (arrive_at uncompress c' \<lparr>c_chunk = Suc (c_chunk cur), c_offset = 0\<rparr>)"
        using arrive_at_stands_on [OF c'(2) assms(2) y(1)] c'(3) by simp
      moreover have "rest = y # ys" by (simp only: cur(4) Nil y(2) append_Nil)
      ultimately show ?thesis
        using yes True c'(1) by (simp add: cursor_next_def adv len Let_def)
    next
      case False
      then show ?thesis using yes assms(1)
        by (simp add: cursor_next_def adv cur(4) Nil len Let_def stands_on_def)
    qed
  qed
qed

lemma holds_keeps_cells:
  assumes "container_holds compress2 c xss xs" "zlib_ok compress2 uncompress"
    and "load_chunk_into_cache uncompress i c = Some c'" "i < length (cc_chunks c)"
  shows "container_holds compress2 c' xss xs"
proof -
  have "i \<le> length xss" using assms(4) container_chunk(2) [OF assms(1), of 0] by simp
  then show ?thesis using load_holds [OF assms(1,2)] assms(3) by fastforce
qed

lemma length_chunks:
  "container_holds compress2 c xss xs \<Longrightarrow> length (cc_chunks c) = Suc (length xss)"
  by (rule container_chunk(2) [where i = 0]) simp_all

lemma cursor_sync_keeps_cells:
  assumes "container_holds compress2 c xss xs" "zlib_ok compress2 uncompress"
    and "c_chunk cur < length (cc_chunks c)" "cursor_sync uncompress c cur = Some (c', r)"
  shows "container_holds compress2 c' xss xs"
  using assms(3,4) holds_keeps_cells [OF assms(1,2)] assms(1)
  by (auto simp: cursor_sync_def Let_def bind_eq_Some_conv split: if_splits)

lemma arrive_at_keeps_cells:
  assumes "container_holds compress2 c xss xs" "zlib_ok compress2 uncompress"
    and "c_chunk cur < length (cc_chunks c)" "arrive_at uncompress c cur = Some (c', r)"
  shows "container_holds compress2 c' xss xs"
  using assms(3,4) holds_keeps_cells [OF assms(1,2)] assms(1)
  by (auto simp: arrive_at_def Let_def bind_eq_Some_conv split: if_splits)

lemma cursor_next_keeps_cells:
  assumes "container_holds compress2 c xss xs" "zlib_ok compress2 uncompress"
    and "c_chunk cur < length (cc_chunks c)" "cursor_next uncompress c cur = Some (c', r)"
  shows "container_holds compress2 c' xss xs"
proof (cases "\<exists>adv. cell_advance c cur = Some adv
    \<and> cc_size (cc_chunks c ! c_chunk cur) \<le> c_offset cur + adv \<and> Suc (c_chunk cur) < length (cc_chunks c)")
  case True
  then obtain c1 where c1: "load_chunk_into_cache uncompress (Suc (c_chunk cur)) c = Some c1"
      "arrive_at uncompress c1 \<lparr>c_chunk = Suc (c_chunk cur), c_offset = 0\<rparr> = Some (c', r)"
      "Suc (c_chunk cur) < length (cc_chunks c)"
    using assms(4) by (auto simp: cursor_next_def Let_def bind_eq_Some_conv)
  have h: "container_holds compress2 c1 xss xs" by (rule holds_keeps_cells [OF assms(1,2) c1(1,3)])
  then show ?thesis
    using arrive_at_keeps_cells [OF h assms(2) _ c1(2)] c1(3) length_chunks [OF h] length_chunks [OF assms(1)]
    by simp
next
  case False
  obtain adv where adv: "cell_advance c cur = Some adv"
    using assms(4) by (auto simp: cursor_next_def bind_eq_Some_conv)
  have "arrive_at uncompress c (cur\<lparr>c_offset := c_offset cur + adv\<rparr>) = Some (c', r)
      \<Longrightarrow> container_holds compress2 c' xss xs"
    using arrive_at_keeps_cells [OF assms(1,2), of "cur\<lparr>c_offset := c_offset cur + adv\<rparr>"] assms(3) by simp
  then show ?thesis using False assms(1,3,4)
    by (auto simp: cursor_next_def Let_def adv split: if_splits)
qed

subsection \<open>The containers that the operations reach\<close>

text \<open>
  \<open>cells_pushed c xs c'\<close>: from \<open>c\<close> the operations lead to \<open>c'\<close> with the cells \<open>xs\<close> pushed on the way,
  with the cursors of any readers moved in between.
\<close>

inductive cells_pushed ::
  "(bytes \<Rightarrow> bytes) \<Rightarrow> (nat \<Rightarrow> bytes \<Rightarrow> bytes option) \<Rightarrow> cell_container \<Rightarrow> cell list \<Rightarrow> cell_container \<Rightarrow> bool"
  for compress2 uncompress c0 where
  no_cells: "cells_pushed compress2 uncompress c0 [] c0"
| one_cell: "cells_pushed compress2 uncompress c0 xs c \<Longrightarrow> cell_ok x
    \<Longrightarrow> push_cell compress2 x c = Some c' \<Longrightarrow> cells_pushed compress2 uncompress c0 (xs @ [x]) c'"
| cells_sync: "cells_pushed compress2 uncompress c0 xs c \<Longrightarrow> c_chunk cur < length (cc_chunks c)
    \<Longrightarrow> cursor_sync uncompress c cur = Some (c', r) \<Longrightarrow> cells_pushed compress2 uncompress c0 xs c'"
| cells_next: "cells_pushed compress2 uncompress c0 xs c \<Longrightarrow> c_chunk cur < length (cc_chunks c)
    \<Longrightarrow> cursor_next uncompress c cur = Some (c', r) \<Longrightarrow> cells_pushed compress2 uncompress c0 xs c'"

inductive container_reached ::
  "(bytes \<Rightarrow> bytes) \<Rightarrow> (nat \<Rightarrow> bytes \<Rightarrow> bytes option) \<Rightarrow> cell_container \<Rightarrow> bool"
  for compress2 uncompress where
  reached_new: "container_reached compress2 uncompress new_container"
| reached_reset: "container_reached compress2 uncompress c
    \<Longrightarrow> container_reached compress2 uncompress (container_reset c)"
| reached_cells: "container_reached compress2 uncompress c \<Longrightarrow> cells_pushed compress2 uncompress c xs c'
    \<Longrightarrow> container_reached compress2 uncompress c'"

lemma at_cells_push:
  assumes "at_cells xss xs cur rest"
  shows "at_cells xss (xs @ [x]) cur (rest @ [x])" and "at_cells (xss @ [xs]) [x] cur (rest @ [x])"
proof -
  obtain pre post where cur: "c_chunk cur \<le> length xss"
      "chunk_cells xss xs (c_chunk cur) = pre @ post" "c_offset cur = length (bytes_of pre)"
      "rest = post @ concat (drop (Suc (c_chunk cur)) (xss @ [xs]))"
    using assms unfolding at_cells_def by blast
  show "at_cells (xss @ [xs]) [x] cur (rest @ [x])"
    unfolding at_cells_def
    by (rule exI [of _ pre], rule exI [of _ post])
      (use cur in \<open>cases "c_chunk cur < length xss"; simp add: chunk_cells_def nth_append\<close>)
  show "at_cells xss (xs @ [x]) cur (rest @ [x])"
  proof (cases "c_chunk cur = length xss")
    case True
    then show ?thesis
      unfolding at_cells_def
      by (intro exI [of _ pre] exI [of _ "post @ [x]"]) (use cur in \<open>simp add: chunk_cells_def nth_append\<close>)
  next
    case False
    then show ?thesis
      unfolding at_cells_def
      by (intro exI [of _ pre] exI [of _ post]) (use cur in \<open>simp add: chunk_cells_def nth_append\<close>)
  qed
qed

lemma at_end_cursor:
  assumes "container_holds compress2 c xss xs"
  shows "at_cells xss xs (end_cursor c) []"
proof -
  have "cc_size (last (cc_chunks c)) = length (bytes_of xs)"
    using assms by (simp add: container_holds_def open_holds_def)
  then show ?thesis
    using length_chunks [OF assms]
    by (auto simp: at_cells_def end_cursor_def chunk_cells_def intro!: exI [of _ xs] exI [of _ "[]"])
qed

lemma cells_pushed_holds:
  assumes "cells_pushed compress2 uncompress c0 pushed c" "zlib_ok compress2 uncompress"
    and "container_holds compress2 c0 xss0 xs0" "at_cells xss0 xs0 cur0 rest"
  shows "\<exists>xss xs. container_holds compress2 c xss xs \<and> at_cells xss xs cur0 (rest @ pushed)"
  using assms(1)
proof (induction rule: cells_pushed.induct)
  case no_cells
  then show ?case using assms(3,4) by auto
next
  case (one_cell ys c x c')
  then obtain xss xs where h: "container_holds compress2 c xss xs" "at_cells xss xs cur0 (rest @ ys)" by blast
  show ?case
    using push_cell_holds [OF h(1) one_cell.hyps(2)] one_cell.hyps(3) at_cells_push [OF h(2), of x]
    by (metis append_assoc option.inject)
next
  case (cells_sync xs c cur c' r)
  then show ?case using cursor_sync_keeps_cells assms(2) by blast
next
  case (cells_next xs c cur c' r)
  then show ?case using cursor_next_keeps_cells assms(2) by blast
qed

lemma reached_holds:
  assumes "container_reached compress2 uncompress c" "zlib_ok compress2 uncompress"
  shows "\<exists>xss xs. container_holds compress2 c xss xs"
  using assms(1)
proof (induction rule: container_reached.induct)
  case reached_new
  then show ?case using new_container_holds by blast
next
  case (reached_reset c)
  then show ?case using container_reset_holds by blast
next
  case (reached_cells c xs c')
  then show ?case using cells_pushed_holds assms(2) at_end_cursor by meson
qed

subsection \<open>Rows of cells\<close>

primrec walk ::
  "(nat \<Rightarrow> bytes \<Rightarrow> bytes option) \<Rightarrow> cell_container \<Rightarrow> cell_cursor \<Rightarrow> nat
    \<Rightarrow> (cell_container \<times> cell_cursor option) option" where
  "walk uncompress c cur 0 = cursor_sync uncompress c cur"
| "walk uncompress c cur (Suc n) =
    (case walk uncompress c cur n of Some (c', Some cur') \<Rightarrow> cursor_next uncompress c' cur' | _ \<Rightarrow> None)"

text \<open>The loop of a reader of a row of \<open>n\<close> columns: \<open>sync\<close>, and then the text of the cell and \<open>next\<close>.\<close>

fun row_from ::
  "(64 word \<Rightarrow> bytes) \<Rightarrow> (64 word \<Rightarrow> bytes) \<Rightarrow> (nat \<Rightarrow> bytes \<Rightarrow> bytes option) \<Rightarrow> nat
    \<Rightarrow> (cell_container \<times> cell_cursor option) \<Rightarrow> (bytes list \<times> cell_container) option" where
  "row_from fmt_int fmt_float uncompress n (c, at) =
    (if n = 0 then Some ([], c)
     else do {
       cur \<leftarrow> at;
       s \<leftarrow> to_string_fragment fmt_int fmt_float c cur;
       r \<leftarrow> cursor_next uncompress c cur;
       (ss, c') \<leftarrow> row_from fmt_int fmt_float uncompress (n - 1) r;
       Some (s # ss, c')
     })"

declare row_from.simps [simp del]

definition read_row ::
  "(64 word \<Rightarrow> bytes) \<Rightarrow> (64 word \<Rightarrow> bytes) \<Rightarrow> (nat \<Rightarrow> bytes \<Rightarrow> bytes option) \<Rightarrow> nat
    \<Rightarrow> cell_container \<Rightarrow> cell_cursor \<Rightarrow> (bytes list \<times> cell_container) option" where
  "read_row fmt_int fmt_float uncompress n c cur = do {
     r \<leftarrow> cursor_sync uncompress c cur;
     row_from fmt_int fmt_float uncompress n r
   }"

lemma walk_stands_on:
  assumes "container_holds compress2 c xss xs" "zlib_ok compress2 uncompress"
    and "at_cells xss xs cur rest"
  shows "n \<le> length rest \<Longrightarrow> stands_on compress2 xss xs (drop n rest) (walk uncompress c cur n)"
proof (induction n)
  case 0
  then show ?case using cursor_sync_stands_on [OF assms] by simp
next
  case (Suc n)
  then obtain x ys where d: "drop n rest = x # ys" "drop (Suc n) rest = ys"
    using Cons_nth_drop_Suc [of n rest] Suc.prems by (metis Suc_le_eq)
  obtain c' cur' where w: "walk uncompress c cur n = Some (c', Some cur')"
      "container_holds compress2 c' xss xs" "standing_at xss xs cur' x ys"
      "cc_data (cc_chunks c' ! c_chunk cur') \<noteq> None"
    using Suc by (auto simp: stands_on_def d(1))
  then show ?case using cursor_next_stands_on [OF w(2) assms(2) w(3,4)] by (simp add: d(2))
qed

lemma row_from_cells:
  assumes "stands_on compress2 xss xs rest (Some r)" "zlib_ok compress2 uncompress" "n \<le> length rest"
  shows "\<exists>c'. row_from fmt_int fmt_float uncompress n r
      = Some (map (cell_text fmt_int fmt_float) (take n rest), c')
    \<and> container_holds compress2 c' xss xs"
  using assms(1,3)
proof (induction n arbitrary: r rest)
  case 0
  then show ?case by (cases r) (auto simp: stands_on_def row_from.simps)
next
  case (Suc n)
  then obtain x ys where rest: "rest = x # ys" by (cases rest) auto
  then obtain c cur where r: "r = (c, Some cur)" "container_holds compress2 c xss xs"
      "standing_at xss xs cur x ys" "cc_data (cc_chunks c ! c_chunk cur) \<noteq> None"
    using Suc.prems(1) by (auto simp: stands_on_def)
  have s: "to_string_fragment fmt_int fmt_float c cur = Some (cell_text fmt_int fmt_float x)"
    by (rule to_string_fragment_cell [OF standing_cell_at [OF r(2-4)]])
  have nxt: "stands_on compress2 xss xs ys (cursor_next uncompress c cur)"
    by (rule cursor_next_stands_on [OF r(2) assms(2) r(3,4)])
  then obtain r' where r': "cursor_next uncompress c cur = Some r'" by (auto simp: stands_on_def)
  obtain c' where "row_from fmt_int fmt_float uncompress n r'
      = Some (map (cell_text fmt_int fmt_float) (take n ys), c')" "container_holds compress2 c' xss xs"
    using Suc.IH [of ys r'] nxt r' Suc.prems(2) rest by auto
  then show ?case
    by (simp add: row_from.simps [of fmt_int fmt_float uncompress "Suc n"] r(1) s r' rest)
qed

lemma pushed_after_end:
  assumes "zlib_ok compress2 uncompress" "container_reached compress2 uncompress c0"
    and "cells_pushed compress2 uncompress c0 pushed c"
  shows "\<exists>xss xs. container_holds compress2 c xss xs \<and> at_cells xss xs (end_cursor c0) pushed"
proof -
  obtain xss0 xs0 where h: "container_holds compress2 c0 xss0 xs0"
    using reached_holds [OF assms(2,1)] by blast
  show ?thesis using cells_pushed_holds [OF assms(3,1) h at_end_cursor [OF h]] by simp
qed

section \<open>Properties\<close>

text \<open>
  C24: A cell keeps its type and its value: walking with \<open>sync\<close> and \<open>next\<close> from the end cursor that was taken
  before the cells were pushed stands on each of them in turn, with the type it was pushed with and
  the accessors of that type giving its value, and ends after the last one, whatever chunks were
  packed, unpacked and evicted in between by this or by other readers.
\<close>

theorem cells_keep_their_type:
  assumes "zlib_ok compress2 uncompress" "container_reached compress2 uncompress c0"
    and "cells_pushed compress2 uncompress c0 pushed c"
  shows "(\<forall>n<length pushed. \<exists>c' cur. walk uncompress c (end_cursor c0) n = Some (c', Some cur)
      \<and> get_type c' cur = Some (cell_type (pushed ! n))
      \<and> read_cell c' cur = Some (as_read (pushed ! n)))
    \<and> (\<exists>c'. walk uncompress c (end_cursor c0) (length pushed) = Some (c', None))"
proof -
  obtain xss xs where h: "container_holds compress2 c xss xs" "at_cells xss xs (end_cursor c0) pushed"
    using pushed_after_end [OF assms] by blast
  note w = walk_stands_on [OF h(1) assms(1) h(2)]
  have "\<exists>c' cur. walk uncompress c (end_cursor c0) n = Some (c', Some cur)
      \<and> get_type c' cur = Some (cell_type (pushed ! n)) \<and> read_cell c' cur = Some (as_read (pushed ! n))"
    if "n < length pushed" for n
  proof -
    have d: "drop n pushed = pushed ! n # drop (Suc n) pushed" using that by (rule Cons_nth_drop_Suc [symmetric])
    have "\<exists>c' cur. walk uncompress c (end_cursor c0) n = Some (c', Some cur)
        \<and> container_holds compress2 c' xss xs \<and> standing_at xss xs cur (pushed ! n) (drop (Suc n) pushed)
        \<and> cc_data (cc_chunks c' ! c_chunk cur) \<noteq> None"
      using w [of n] that by (auto simp: stands_on_def d)
    then obtain c' cur where r: "walk uncompress c (end_cursor c0) n = Some (c', Some cur)"
        "container_holds compress2 c' xss xs" "standing_at xss xs cur (pushed ! n) (drop (Suc n) pushed)"
        "cc_data (cc_chunks c' ! c_chunk cur) \<noteq> None"
      by blast
    note a = standing_cell_at [OF r(2-4)]
    show ?thesis using r(1) get_type_cell [OF a] read_cell_cell [OF a] by blast
  qed
  moreover have "\<exists>c'. walk uncompress c (end_cursor c0) (length pushed) = Some (c', None)"
    using w [of "length pushed"] by (simp add: stands_on_def) blast
  ultimately show ?thesis by blast
qed

text \<open>
  The reader of a row gets, for any number of the columns pushed since the end cursor of the row was taken,
  the text of each cell, without dereferencing an empty cursor or an evicted chunk, and leaves the
  container in a state that further operations can go on from.
\<close>

theorem rows_read_back:
  assumes "zlib_ok compress2 uncompress" "container_reached compress2 uncompress c0"
    and "cells_pushed compress2 uncompress c0 pushed c" "n \<le> length pushed"
  shows "\<exists>c'. read_row fmt_int fmt_float uncompress n c (end_cursor c0)
      = Some (map (cell_text fmt_int fmt_float) (take n pushed), c')"
proof -
  obtain xss xs where h: "container_holds compress2 c xss xs" "at_cells xss xs (end_cursor c0) pushed"
    using pushed_after_end [OF assms(1-3)] by blast
  have st: "stands_on compress2 xss xs pushed (cursor_sync uncompress c (end_cursor c0))"
    by (rule cursor_sync_stands_on [OF h(1) assms(1) h(2)])
  then obtain r where r: "cursor_sync uncompress c (end_cursor c0) = Some r"
    by (auto simp: stands_on_def)
  obtain c' where "row_from fmt_int fmt_float uncompress n r
      = Some (map (cell_text fmt_int fmt_float) (take n pushed), c')"
    using row_from_cells [OF st [unfolded r] assms(1,4)] by blast
  then show ?thesis by (simp add: read_row_def r)
qed

text \<open>
  C40: On every container that the operations reach, pushing a cell returns, and at most four chunks are
  unpacked: the three of the cache and the one that is being filled.
\<close>

theorem at_most_four_chunks_unpacked:
  assumes "zlib_ok compress2 uncompress" "container_reached compress2 uncompress c"
  shows "card {i. i < length (cc_chunks c) \<and> cc_data (cc_chunks c ! i) \<noteq> None} \<le> 4
    \<and> (\<forall>x. cell_ok x \<longrightarrow> push_cell compress2 x c \<noteq> None)"
proof -
  obtain xss xs where h: "container_holds compress2 c xss xs"
    using reached_holds [OF assms(2,1)] by blast
  obtain packed cc where cs: "cc_chunks c = packed @ [cc]"
    using h by (metis container_holds_def append_butlast_last_id)
  have cache: "cache_ok (cc_chunk_cache c) packed" using h by (simp add: container_holds_def cs)
  let ?in = "\<lambda>i. Some i \<in> set (cc_chunk_cache c)"
  have sub: "{i. i < length (cc_chunks c) \<and> cc_data (cc_chunks c ! i) \<noteq> None}
      \<subseteq> insert (length packed) (the ` set (cc_chunk_cache c))"
    using cache by (force simp: cs nth_append cache_ok_def less_Suc_eq)
  have "card (the ` set (cc_chunk_cache c)) \<le> 3"
    using card_image_le [of "set (cc_chunk_cache c)" the] card_length [of "cc_chunk_cache c"] cache
    by (simp add: cache_ok_def)
  then have "card (insert (length packed) (the ` set (cc_chunk_cache c))) \<le> 4"
    by (simp add: card_insert_if)
  then have "card {i. i < length (cc_chunks c) \<and> cc_data (cc_chunks c ! i) \<noteq> None} \<le> 4"
    using card_mono [OF _ sub] by simp
  moreover have "push_cell compress2 x c \<noteq> None" if "cell_ok x" for x
    using push_cell_holds [OF h that] by auto
  ultimately show ?thesis by blast
qed

subsection \<open>Witnesses\<close>

definition stored :: "bytes \<Rightarrow> bytes" where
  "stored d = d"

definition unstored :: "nat \<Rightarrow> bytes \<Rightarrow> bytes option" where
  "unstored cap z = (if length z \<le> cap then Some z else None)"

lemma stored_ok: "zlib_ok stored unstored"
  by (simp add: zlib_ok_def stored_def unstored_def)

lemma two_cells_pushed:
  assumes "cell_ok x" "cell_ok y"
  shows "\<exists>c. cells_pushed stored unstored new_container [x, y] c"
proof -
  have 0: "container_reached stored unstored new_container" by (rule reached_new)
  obtain c1 where c1: "push_cell stored x new_container = Some c1"
    using push_cell_holds [OF new_container_holds assms(1)] by blast
  have p1: "cells_pushed stored unstored new_container [x] c1"
    using one_cell [OF no_cells assms(1) c1] by simp
  obtain xss xs where "container_holds stored c1 xss xs"
    using reached_holds [OF reached_cells [OF 0 p1] stored_ok] by blast
  then obtain c2 where "push_cell stored y c1 = Some c2" using push_cell_holds assms(2) by blast
  then show ?thesis using one_cell [OF p1 assms(2)] by auto
qed

theorem cells_keep_their_type_witness:
  "\<exists>c. cells_pushed stored unstored new_container [Int_cell 7, Text_cell [0x6F, 0x6B]] c
    \<and> (\<exists>c' cur. walk unstored c (end_cursor new_container) 1 = Some (c', Some cur)
        \<and> get_type c' cur = Some CT_TEXT \<and> read_cell c' cur = Some (Text_cell [0x6F, 0x6B]))"
proof -
  obtain c where c: "cells_pushed stored unstored new_container [Int_cell 7, Text_cell [0x6F, 0x6B]] c"
    using two_cells_pushed [of "Int_cell 7" "Text_cell [0x6F, 0x6B]"] by (auto simp: cell_ok_def)
  have "\<exists>c' cur. walk unstored c (end_cursor new_container) 1 = Some (c', Some cur)
      \<and> get_type c' cur = Some (cell_type ([Int_cell 7, Text_cell [0x6F, 0x6B]] ! 1))
      \<and> read_cell c' cur = Some (as_read ([Int_cell 7, Text_cell [0x6F, 0x6B]] ! 1))"
    by (rule conjunct1 [OF cells_keep_their_type [OF stored_ok reached_new c], rule_format]) simp
  then show ?thesis using c by (auto simp: cell_type_def as_read_def)
qed

theorem rows_read_back_witness:
  "\<exists>c c'. read_row (\<lambda>_. [0x37]) (\<lambda>_. []) unstored 2 c (end_cursor new_container)
     = Some ([[0x37], null_text], c')"
proof -
  obtain c where c: "cells_pushed stored unstored new_container [Int_cell 7, Null_cell] c"
    using two_cells_pushed [of "Int_cell 7" Null_cell] by (auto simp: cell_ok_def)
  show ?thesis
    using rows_read_back [OF stored_ok reached_new c, of 2 "\<lambda>_. [0x37]" "\<lambda>_. []"]
    by (auto simp: cell_text_def as_read_def)
qed

theorem at_most_four_chunks_unpacked_witness:
  "push_cell stored (Text_cell [0x6F]) new_container \<noteq> None"
  using at_most_four_chunks_unpacked [OF stored_ok reached_new] by (simp add: cell_ok_def)

end
