(* ===== verification/Json_Ptr.thy ===== *)
theory Json_Ptr
  imports Lnav_Prelude
begin

text \<open>
  JSON pointers (\<open>src/yajlpp/json_ptr.cc\<close>) and the operations that follow one through the events of
  a JSON parser (\<open>src/yajlpp/json_op.cc\<close>, \<open>jget\<close> of \<open>src/json-extension-functions.cc\<close>). The parser and
  the generator of JSON text are a library: the model consumes the events that the parser calls back
  with, and the status of each call to the generator is a parameter. A pointer that has been read up
  to some place is the rest of its characters; it holds no NUL, and \<open>str_at\<close> gives the terminator.
\<close>

section \<open>Escapes\<close>

text \<open>\<open>json_ptr::encode\<close> counts the bytes before it writes them; \<open>encode_to\<close> appends to a string.\<close>

definition encode_char :: "char \<Rightarrow> string" where
  "encode_char ch =
    (if ch = CHR 0x7E then ''~0'' else if ch = CHR 0x2F then ''~1'' else if ch = CHR 0x23 then ''~2''
     else [ch])"

definition encode_outlen :: "string \<Rightarrow> nat" where
  "encode_outlen s =
    foldl (\<lambda>n ch. if ch = CHR 0x2F \<or> ch = CHR 0x7E \<or> ch = CHR 0x23 then n + 1 else n) (length s) s"

definition encode :: "string \<Rightarrow> string" where
  "encode s = concat (map encode_char s)"

definition encode_to :: "string \<Rightarrow> string \<Rightarrow> string" where
  "encode_to s out = foldl (\<lambda>o' ch. o' @ encode_char ch) out s"

text \<open>\<open>decode\<close>: an escape that is not one of the three is dropped.\<close>

fun decode_from :: "bool \<Rightarrow> string \<Rightarrow> string" where
  "decode_from in_escape [] = []"
| "decode_from in_escape (ch # cs) =
    (if in_escape
     then (if ch = CHR ''0'' then CHR 0x7E # decode_from False cs
           else if ch = CHR ''1'' then CHR 0x2F # decode_from False cs
           else if ch = CHR ''2'' then CHR 0x23 # decode_from False cs
           else decode_from False cs)
     else if ch = CHR 0x7E then decode_from True cs
     else ch # decode_from False cs)"

definition decode :: "string \<Rightarrow> string" where
  "decode s = decode_from False s"

lemma encode_simps [simp]:
  "encode [] = []" "encode (c # cs) = encode_char c @ encode cs" "encode (xs @ ys) = encode xs @ encode ys"
  by (simp_all add: encode_def)

lemma encode_to_eq: "encode_to s out = out @ encode s"
  by (induction s arbitrary: out) (simp_all add: encode_to_def)

lemma encode_outlen_eq: "encode_outlen s = length (encode s)"
proof -
  have "length (encode s) + n
      = foldl (\<lambda>n ch. if ch = CHR 0x2F \<or> ch = CHR 0x7E \<or> ch = CHR 0x23 then n + 1 else n) (length s + n) s"
    for n
  proof (induction s arbitrary: n)
    case (Cons c s)
    show ?case using Cons.IH [of n] Cons.IH [of "Suc n"] Cons.IH [of "Suc (Suc n)"]
      by (simp add: encode_char_def)
  qed simp
  from this [of 0] show ?thesis by (simp add: encode_outlen_def)
qed

lemma decode_encode_char: "decode_from False (encode_char c @ s) = c # decode_from False s"
  by (simp add: encode_char_def)

lemma decode_encode_append: "decode_from False (encode s @ t) = s @ decode_from False t"
  by (induction s) (simp_all add: decode_encode_char)

lemma encode_no_slash: "CHR 0x2F \<notin> set (encode s)"
  by (induction s) (auto simp: encode_char_def)

text \<open>
  Encoding a component and decoding it gives the component back, encoding onto a string appends the
  same characters, the length that \<open>encode\<close> allocates is the one it fills, and the encoded
  component has no slash.
\<close>

theorem component_round_trip:
  "decode (encode s) = s \<and> encode_to s out = out @ encode s \<and> encode_outlen s = length (encode s)
    \<and> CHR 0x2F \<notin> set (encode s)"
  using decode_encode_append [of s "[]"]
  by (simp add: decode_def encode_to_eq encode_outlen_eq encode_no_slash)

section \<open>Following a pointer\<close>

datatype match_state =
    DONE
  | VALUE
  | ERR_INVALID_TYPE
  | ERR_NO_SLASH
  | ERR_INVALID_ESCAPE
  | ERR_INVALID_INDEX

record json_ptr =
  jp_pos :: string
  jp_depth :: int
  jp_array_index :: int
  jp_state :: match_state

definition json_ptr_of :: "string \<Rightarrow> json_ptr" where
  "json_ptr_of value = \<lparr>jp_pos = value, jp_depth = 0, jp_array_index = - 1, jp_state = VALUE\<rparr>"

definition reached_end :: "json_ptr \<Rightarrow> bool" where
  "reached_end jp \<longleftrightarrow> str_at (jp_pos jp) 0 = CHR 0x00"

text \<open>The two \<open>int32_t&\<close> arguments are \<open>depth\<close> and \<open>index\<close>; they come back with the pointer.\<close>

definition expect_map :: "json_ptr \<Rightarrow> int \<Rightarrow> int \<Rightarrow> bool \<times> json_ptr \<times> int \<times> int" where
  "expect_map jp depth index =
    (let (jp1, index1) =
      (if jp_state jp = DONE then (jp, index)
       else if depth \<noteq> jp_depth jp then (jp, index)
       else if reached_end jp then (jp, index)
       else if jp_state jp = VALUE \<and> (jp_array_index jp = - 1 \<or> index - 1 = jp_array_index jp)
       then (if str_at (jp_pos jp) 0 = CHR 0x2F
             then (jp\<lparr>jp_pos := drop 1 (jp_pos jp), jp_depth := jp_depth jp + 1,
                      jp_array_index := - 1, jp_state := VALUE\<rparr>, - 1)
             else (jp, index))
       else (jp, index))
     in (True, jp1, depth + 1, index1))"

datatype key_match = Key_accepted string | Key_differs | Key_bad_escape

fun at_key_scan :: "string \<Rightarrow> string \<Rightarrow> key_match" where
  "at_key_scan pos [] = Key_accepted pos"
| "at_key_scan pos (c # cs) =
    (if str_at pos 0 = CHR 0x7E
     then (if str_at pos 1 = CHR ''0''
           then (if CHR 0x7E \<noteq> c then Key_differs else at_key_scan (drop 2 pos) cs)
           else if str_at pos 1 = CHR ''1''
           then (if CHR 0x2F \<noteq> c then Key_differs else at_key_scan (drop 2 pos) cs)
           else Key_bad_escape)
     else (if (if str_at pos 0 = CHR 0x2F then CHR 0x00 else str_at pos 0) \<noteq> c then Key_differs
           else at_key_scan (drop 1 pos) cs))"

definition at_key :: "json_ptr \<Rightarrow> int \<Rightarrow> string \<Rightarrow> bool \<times> json_ptr" where
  "at_key jp depth component =
    (if jp_state jp = DONE \<or> depth \<noteq> jp_depth jp then (True, jp)
     else case at_key_scan (jp_pos jp) component of
       Key_bad_escape \<Rightarrow> (False, jp\<lparr>jp_state := ERR_INVALID_ESCAPE\<rparr>)
     | Key_differs \<Rightarrow> (True, jp)
     | Key_accepted rest \<Rightarrow> (True, jp\<lparr>jp_pos := rest, jp_state := VALUE\<rparr>))"

definition exit_container :: "json_ptr \<Rightarrow> int \<Rightarrow> int \<Rightarrow> json_ptr \<times> int \<times> int" where
  "exit_container jp depth index =
    (let depth1 = depth - 1 in
     if jp_state jp = VALUE \<and> depth1 = jp_depth jp
       \<and> (index = - 1 \<or> index - 1 = jp_array_index jp) \<and> reached_end jp
     then (jp\<lparr>jp_state := DONE\<rparr>, depth1, - 1)
     else (jp, depth1, index))"

text \<open>\<open>sscanf(pos, "/%d%n")\<close> after the slash: the number and what follows it.\<close>

definition scanf_space :: "char \<Rightarrow> bool" where
  "scanf_space c \<longleftrightarrow> c \<in> {CHR '' '', CHR 0x09, CHR 0x0A, CHR 0x0B, CHR 0x0C, CHR 0x0D}"

definition scan_int :: "string \<Rightarrow> (int \<times> string) option" where
  "scan_int s =
    (let s1 = dropWhile scanf_space s;
         neg = (str_at s1 0 = CHR ''-'');
         s2 = (if neg \<or> str_at s1 0 = CHR ''+'' then drop 1 s1 else s1);
         ds = takeWhile isdigit s2
     in if ds = [] then None
        else Some (if neg then - digits_val ds else digits_val ds, dropWhile isdigit s2))"

definition expect_array :: "json_ptr \<Rightarrow> int \<Rightarrow> int \<Rightarrow> bool \<times> json_ptr \<times> int \<times> int" where
  "expect_array jp depth index =
    (let (jp1, index1) =
      (if jp_state jp = DONE then (jp, index)
       else if depth \<noteq> jp_depth jp then (jp, index)
       else if reached_end jp then (jp, index)
       else if str_at (jp_pos jp) 0 = CHR 0x2F \<and> index = jp_array_index jp
       then let jp' = jp\<lparr>jp_depth := jp_depth jp + 1\<rparr> in
         (case scan_int (drop 1 (jp_pos jp)) of
           None \<Rightarrow> (jp'\<lparr>jp_state := ERR_INVALID_INDEX\<rparr>, index)
         | Some (i, rest) \<Rightarrow>
             (if str_at rest 0 \<noteq> CHR 0x00 \<and> str_at rest 0 \<noteq> CHR 0x2F
              then (jp'\<lparr>jp_array_index := i, jp_state := ERR_INVALID_INDEX\<rparr>, index)
              else (jp'\<lparr>jp_pos := rest, jp_array_index := i, jp_state := VALUE\<rparr>, 0)))
       else (jp\<lparr>jp_state := ERR_NO_SLASH\<rparr>, index))
     in (True, jp1, depth + 1, index1))"

definition at_index :: "json_ptr \<Rightarrow> int \<Rightarrow> int \<Rightarrow> bool \<Rightarrow> bool \<times> json_ptr \<times> int" where
  "at_index jp depth index primitive =
    (if jp_state jp = DONE then (False, jp, index)
     else if depth < jp_depth jp then (False, jp, index)
     else if depth = jp_depth jp
     then (if index = - 1
           then (if jp_array_index jp = - 1
                 then (reached_end jp,
                       if primitive \<and> reached_end jp then jp\<lparr>jp_state := DONE\<rparr> else jp, index)
                 else (False, jp, index))
           else if index = jp_array_index jp
           then (reached_end jp,
                 (let jp1 = jp\<lparr>jp_array_index := - 1\<rparr> in
                  if primitive \<and> reached_end jp then jp1\<lparr>jp_state := DONE\<rparr> else jp1), - 1)
           else (False, jp, index + 1))
     else if index = - 1 then (reached_end jp, jp, index)
     else (False, jp, index))"

definition error_msg :: "json_ptr \<Rightarrow> string" where
  "error_msg jp =
    (case jp_state jp of
       ERR_INVALID_ESCAPE \<Rightarrow> ''invalid escape sequence near -- '' @ jp_pos jp
     | ERR_INVALID_INDEX \<Rightarrow> ''expecting array index at -- '' @ jp_pos jp
     | ERR_INVALID_TYPE \<Rightarrow> ''expecting container at -- '' @ jp_pos jp
     | _ \<Rightarrow> [])"

section \<open>The events of a parser\<close>

text \<open>\<open>'n\<close> is what a parser gives for a number: its text, or its value.\<close>

datatype 'n json_event =
    Ev_null
  | Ev_bool bool
  | Ev_number 'n
  | Ev_string string
  | Ev_start_map
  | Ev_map_key string
  | Ev_end_map
  | Ev_start_array
  | Ev_end_array

datatype 'n json =
    JNull
  | JBool bool
  | JNumber 'n
  | JString string
  | JArray "'n json list"
  | JObject "(string \<times> 'n json) list"

fun json_events :: "'n json \<Rightarrow> 'n json_event list" where
  "json_events JNull = [Ev_null]"
| "json_events (JBool b) = [Ev_bool b]"
| "json_events (JNumber n) = [Ev_number n]"
| "json_events (JString s) = [Ev_string s]"
| "json_events (JArray vs) = Ev_start_array # concat (map json_events vs) @ [Ev_end_array]"
| "json_events (JObject kvs) =
    Ev_start_map # concat (map (\<lambda>(k, v). Ev_map_key k # json_events v) kvs) @ [Ev_end_map]"

section \<open>The operation on what a pointer finds\<close>

record json_op =
  jo_depth :: int
  jo_array_index :: int
  jo_ptr :: json_ptr
  jo_found :: bool

definition json_op_of :: "string \<Rightarrow> json_op" where
  "json_op_of ptr = \<lparr>jo_depth = 0, jo_array_index = - 1, jo_ptr = json_ptr_of ptr, jo_found = False\<rparr>"

definition check_index :: "bool \<Rightarrow> json_op \<Rightarrow> bool \<times> json_op" where
  "check_index primitive jo =
    (let (retval, jp, index) = at_index (jo_ptr jo) (jo_depth jo) (jo_array_index jo) primitive in
     (retval, jo\<lparr>jo_array_index := index, jo_ptr := jp, jo_found := jo_found jo \<or> retval\<rparr>))"

text \<open>
  The callbacks: given the event, the state of the pointer and their own state \<open>'s\<close>, they return
  whether the parser is to go on, and their next state.
\<close>

type_synonym ('n, 's) callbacks = "'n json_event \<Rightarrow> match_state \<Rightarrow> 's \<Rightarrow> bool \<times> 's"

definition checked_callback ::
  "('n, 's) callbacks \<Rightarrow> bool \<Rightarrow> 'n json_event \<Rightarrow> json_op \<times> 's \<Rightarrow> bool \<times> json_op \<times> 's" where
  "checked_callback cb primitive e st =
    (let (jo, s) = st; (found, jo1) = check_index primitive jo in
     if found then (let (go_on, s1) = cb e (jp_state (jo_ptr jo1)) s in (go_on, jo1, s1))
     else (True, jo1, s))"

definition handle_start_map :: "('n, 's) callbacks \<Rightarrow> json_op \<times> 's \<Rightarrow> bool \<times> json_op \<times> 's" where
  "handle_start_map cb st =
    (let (retval, jo, s) = checked_callback cb False Ev_start_map st;
         (ok, jp, depth, index) = expect_map (jo_ptr jo) (jo_depth jo) (jo_array_index jo) in
     (retval \<and> ok, jo\<lparr>jo_depth := depth, jo_array_index := index, jo_ptr := jp\<rparr>, s))"

definition handle_map_key :: "('n, 's) callbacks \<Rightarrow> string \<Rightarrow> json_op \<times> 's \<Rightarrow> bool \<times> json_op \<times> 's" where
  "handle_map_key cb key st =
    (let (retval, jo, s) = checked_callback cb False (Ev_map_key key) st;
         (ok, jp) = at_key (jo_ptr jo) (jo_depth jo) key in
     (retval \<and> ok, jo\<lparr>jo_ptr := jp\<rparr>, s))"

definition handle_end_container ::
  "('n, 's) callbacks \<Rightarrow> 'n json_event \<Rightarrow> json_op \<times> 's \<Rightarrow> bool \<times> json_op \<times> 's" where
  "handle_end_container cb e st =
    (let (retval, jo, s) = checked_callback cb True e st;
         (jp, depth, index) = exit_container (jo_ptr jo) (jo_depth jo) (jo_array_index jo) in
     (retval, jo\<lparr>jo_depth := depth, jo_array_index := index, jo_ptr := jp\<rparr>, s))"

definition handle_start_array :: "('n, 's) callbacks \<Rightarrow> json_op \<times> 's \<Rightarrow> bool \<times> json_op \<times> 's" where
  "handle_start_array cb st =
    (let (retval, jo, s) = checked_callback cb False Ev_start_array st;
         (_, jp, depth, index) = expect_array (jo_ptr jo) (jo_depth jo) (jo_array_index jo) in
     (retval, jo\<lparr>jo_depth := depth, jo_array_index := index, jo_ptr := jp\<rparr>, s))"

definition json_op_event ::
  "('n, 's) callbacks \<Rightarrow> 'n json_event \<Rightarrow> json_op \<times> 's \<Rightarrow> bool \<times> json_op \<times> 's" where
  "json_op_event cb e st =
    (case e of
       Ev_start_map \<Rightarrow> handle_start_map cb st
     | Ev_map_key key \<Rightarrow> handle_map_key cb key st
     | Ev_end_map \<Rightarrow> handle_end_container cb e st
     | Ev_start_array \<Rightarrow> handle_start_array cb st
     | Ev_end_array \<Rightarrow> handle_end_container cb e st
     | _ \<Rightarrow> checked_callback cb True e st)"

text \<open>The parser stops at the first handler that returns zero (\<open>Inl\<close>).\<close>

fun parse_events ::
  "('n, 's) callbacks \<Rightarrow> 'n json_event list \<Rightarrow> json_op \<times> 's \<Rightarrow> (json_op \<times> 's) + (json_op \<times> 's)" where
  "parse_events cb [] st = Inr st"
| "parse_events cb (e # es) st =
    (let (go_on, st1) = json_op_event cb e st in if go_on then parse_events cb es st1 else Inl st1)"

text \<open>
  The callbacks that generate what was found: each call appends to the calls the generator has had,
  and \<open>gen_status\<close> is what the generator returns for it (0 is \<open>yajl_gen_status_ok\<close>).
\<close>

definition gen_callbacks ::
  "('n json_event list \<Rightarrow> 'n json_event \<Rightarrow> nat) \<Rightarrow> ('n, 'n json_event list) callbacks" where
  "gen_callbacks gen_status e match gen = (gen_status gen e = 0, gen @ [e])"

definition extract_json_from ::
  "('n json_event list \<Rightarrow> 'n json_event \<Rightarrow> nat) \<Rightarrow> 'n json_event list \<Rightarrow> string
    \<Rightarrow> unit + (bool \<times> 'n json_event list)" where
  "extract_json_from gen_status es ptr =
    (case parse_events (gen_callbacks gen_status) es (json_op_of ptr, []) of
       Inl _ \<Rightarrow> Inl ()
     | Inr (jo, gen) \<Rightarrow> Inr (jo_found jo, gen))"

section \<open>\<open>jget\<close>\<close>

text \<open>
  The value that the SQL function returns: its type is unset (\<open>-1\<close>) until a scalar is handed over with
  the pointer \<open>DONE\<close>. \<open>scan_int64\<close> and \<open>scan_double\<close> read the text of a number; the first has no
  value when the text is not all of a 64-bit integer.
\<close>

datatype 'f sql_json_value = Sjo_unset | Sjo_null | Sjo_int "64 word" | Sjo_float 'f | Sjo_text string

definition sql_json_callbacks ::
  "('n json_event list \<Rightarrow> 'n json_event \<Rightarrow> nat) \<Rightarrow> ('n \<Rightarrow> 64 word option) \<Rightarrow> ('n \<Rightarrow> 'f)
    \<Rightarrow> ('n, 'f sql_json_value \<times> 'n json_event list) callbacks" where
  "sql_json_callbacks gen_status scan_int64 scan_double e m st =
    (let (sjo, gen) = st;
         generate = (let (ok, gen1) = gen_callbacks gen_status e m gen in (ok, (sjo, gen1))) in
     if m = DONE
     then (case e of
         Ev_null \<Rightarrow> (True, (Sjo_null, gen))
       | Ev_bool b \<Rightarrow> (True, (Sjo_int (of_bool b), gen))
       | Ev_string s \<Rightarrow> (True, (Sjo_text s, gen))
       | Ev_number n \<Rightarrow>
           (True, (case scan_int64 n of Some i \<Rightarrow> Sjo_int i | None \<Rightarrow> Sjo_float (scan_double n), gen))
       | _ \<Rightarrow> generate)
     else generate)"

datatype ('n, 'f) jget_result =
    Jget_default
  | Jget_error string
  | Jget_null
  | Jget_int int
  | Jget_float 'f
  | Jget_text string
  | Jget_json "'n json_event list"

text \<open>A JSON argument: its text, the events of the parser on it, and its error if the text is invalid.\<close>

record 'n json_text =
  jt_text :: string
  jt_events :: "'n json_event list"
  jt_error :: "string option"

definition sql_jget ::
  "('n json_event list \<Rightarrow> 'n json_event \<Rightarrow> nat) \<Rightarrow> ('n \<Rightarrow> 64 word option) \<Rightarrow> ('n \<Rightarrow> 'f)
    \<Rightarrow> 'n json_text option \<Rightarrow> string option \<Rightarrow> ('n, 'f) jget_result" where
  "sql_jget gen_status scan_int64 scan_double json_in ptr_in =
    (case json_in of None \<Rightarrow> Jget_default
     | Some jt \<Rightarrow>
        (case ptr_in of None \<Rightarrow> Jget_text (jt_text jt)
         | Some ptr \<Rightarrow>
            (case parse_events (sql_json_callbacks gen_status scan_int64 scan_double) (jt_events jt)
                (json_op_of ptr, (Sjo_unset, [])) of
               Inl (jo, _) \<Rightarrow>
                 if jp_state (jo_ptr jo) = ERR_INVALID_ESCAPE then Jget_error (error_msg (jo_ptr jo))
                 else Jget_default
             | Inr (jo, sjo, gen) \<Rightarrow>
                 (case jt_error jt of Some err \<Rightarrow> Jget_error err
                  | None \<Rightarrow>
                     (case sjo of
                        Sjo_text s \<Rightarrow> Jget_text s
                      | Sjo_null \<Rightarrow> Jget_null
                      | Sjo_int i \<Rightarrow> Jget_int (sint (ucast i :: 32 word))
                      | Sjo_float f \<Rightarrow> Jget_float f
                      | Sjo_unset \<Rightarrow> if gen = [] then Jget_default else Jget_json gen)))))"

end
