(* ===== verification/Json_Extract.thy ===== *)
theory Json_Extract
  imports Json_Ptr "HOL-Library.Sublist"
begin

text \<open>
  What following a JSON pointer finds: the value at a path, generated event by event, where no earlier
  key of an object on the path is a prefix of the path's key and no earlier element of an array is an
  array that the rest of the path would enter.
\<close>

section \<open>Paths\<close>

datatype path_step = Key string | Index nat

fun step_text :: "path_step \<Rightarrow> string" where
  "step_text (Key k) = CHR 0x2F # encode k"
| "step_text (Index n) = CHR 0x2F # nat_digits n"

definition path_text :: "path_step list \<Rightarrow> string" where
  "path_text p = concat (map step_text p)"

fun json_lookup :: "'n json \<Rightarrow> path_step list \<Rightarrow> 'n json option" where
  "json_lookup v [] = Some v"
| "json_lookup (JObject kvs) (Key k # p) =
    (case map_of kvs k of None \<Rightarrow> None | Some w \<Rightarrow> json_lookup w p)"
| "json_lookup (JArray vs) (Index n # p) = (if n < length vs then json_lookup (vs ! n) p else None)"
| "json_lookup _ (_ # p) = None"

definition plain_key :: "string \<Rightarrow> bool" where
  "plain_key k \<longleftrightarrow> k \<noteq> [] \<and> CHR 0x23 \<notin> set k \<and> CHR 0x00 \<notin> set k"

fun is_array :: "'n json \<Rightarrow> bool" where
  "is_array (JArray vs) \<longleftrightarrow> True"
| "is_array _ \<longleftrightarrow> False"

fun is_container :: "'n json \<Rightarrow> bool" where
  "is_container (JArray vs) \<longleftrightarrow> True"
| "is_container (JObject kvs) \<longleftrightarrow> True"
| "is_container _ \<longleftrightarrow> False"

fun clear_path :: "'n json \<Rightarrow> path_step list \<Rightarrow> bool" where
  "clear_path v [] \<longleftrightarrow> True"
| "clear_path (JObject kvs) (Key k # p) \<longleftrightarrow>
    plain_key k
    \<and> (\<forall>(k', _)\<in>set (takeWhile (\<lambda>(k', _). k' \<noteq> k) kvs). \<not> prefix k' k \<and> CHR 0x00 \<notin> set k')
    \<and> (case map_of kvs k of None \<Rightarrow> False | Some w \<Rightarrow> clear_path w p)"
| "clear_path (JArray vs) (Index n # p) \<longleftrightarrow>
    n < length vs \<and> (p = [] \<or> (\<forall>u\<in>set (take n vs). \<not> is_array u)) \<and> clear_path (vs ! n) p"
| "clear_path _ (_ # p) \<longleftrightarrow> False"

lemma path_text_simps [simp]: "path_text [] = []" "path_text (x # p) = step_text x @ path_text p"
  by (simp_all add: path_text_def)

text \<open>What follows a component is the end of the pointer or a slash.\<close>

definition rest_ok :: "string \<Rightarrow> bool" where
  "rest_ok s \<longleftrightarrow> s = [] \<or> hd s = CHR 0x2F"

lemma path_text_rest_ok [simp]: "rest_ok (path_text p)"
proof (cases p)
  case (Cons x p')
  then show ?thesis by (cases x) (simp_all add: rest_ok_def)
qed (simp add: rest_ok_def)

lemma rest_ok_not_plain:
  "rest_ok s \<Longrightarrow> c \<noteq> CHR 0x00 \<Longrightarrow>
    str_at s 0 \<noteq> CHR 0x7E \<and> (if str_at s 0 = CHR 0x2F then CHR 0x00 else str_at s 0) \<noteq> c"
  by (cases s) (auto simp: rest_ok_def str_at_def)

lemma str_at_simps [simp]: "str_at (c # s) 0 = c" "str_at (c # s) (Suc n) = str_at s n" "str_at [] n = CHR 0x00"
  by (simp_all add: str_at_def)

lemma at_key_scan_encoded:
  assumes "CHR 0x23 \<noteq> a" "CHR 0x00 \<noteq> a"
  shows "at_key_scan (encode_char a @ s) (c # cs) = (if a = c then at_key_scan s cs else Key_differs)"
proof -
  consider "a = CHR 0x7E" | "a = CHR 0x2F" | "a \<noteq> CHR 0x7E" "a \<noteq> CHR 0x2F" by blast
  then show ?thesis using assms by cases (simp_all add: encode_char_def)
qed

lemma at_key_scan_same:
  "CHR 0x23 \<notin> set k \<Longrightarrow> CHR 0x00 \<notin> set k \<Longrightarrow> at_key_scan (encode k @ rest) k = Key_accepted rest"
  by (induction k) (simp_all add: at_key_scan_encoded del: at_key_scan.simps(2))

lemma at_key_scan_other:
  assumes "rest_ok rest"
  shows "CHR 0x23 \<notin> set k \<Longrightarrow> CHR 0x00 \<notin> set k \<Longrightarrow> CHR 0x00 \<notin> set k' \<Longrightarrow> \<not> prefix k' k
    \<Longrightarrow> at_key_scan (encode k @ rest) k' = Key_differs"
proof (induction k arbitrary: k')
  case Nil
  then obtain c cs where "k' = c # cs" by (cases k') auto
  then show ?case using rest_ok_not_plain [OF assms, of c] Nil.prems(3) by auto
next
  case (Cons a k)
  then obtain c cs where "k' = c # cs" by (cases k') auto
  then show ?case using Cons at_key_scan_encoded [of a "encode k @ rest" c cs]
    by (auto simp del: at_key_scan.simps(2))
qed

lemma scan_int_digits:
  assumes "rest_ok rest"
  shows "scan_int (nat_digits n @ rest) = Some (int n, rest)"
proof -
  have digit: "isdigit c" if "c \<in> set (nat_digits n)" for c using that by (rule nat_digits_isdigit)
  obtain d ds where nd: "nat_digits n = d # ds" by (cases "nat_digits n") auto
  have d: "isdigit d" using digit by (simp add: nd)
  have "\<not> scanf_space d" "d \<noteq> CHR ''-''" "d \<noteq> CHR ''+''"
    using d by (auto simp: scanf_space_def isdigit_def schar_def)
  moreover have stop: "takeWhile isdigit rest = []" "dropWhile isdigit rest = rest"
    using assms by (cases rest; auto simp: rest_ok_def isdigit_def schar_def)+
  moreover have "takeWhile isdigit (nat_digits n @ rest) = nat_digits n"
      "dropWhile isdigit (nat_digits n @ rest) = rest"
    using digit by (auto simp: stop takeWhile_append2 dropWhile_append2)
  ultimately show ?thesis
    using digits_val_nat_digits [of n] by (simp add: scan_int_def Let_def nd)
qed

section \<open>The parser's events against a pointer\<close>

abbreviation json_op_at :: "int \<Rightarrow> int \<Rightarrow> json_ptr \<Rightarrow> bool \<Rightarrow> json_op" where
  "json_op_at d i jp f \<equiv> \<lparr>jo_depth = d, jo_array_index = i, jo_ptr = jp, jo_found = f\<rparr>"

lemmas json_op_simps = json_op_event_def handle_start_map_def handle_map_key_def
  handle_end_container_def handle_start_array_def checked_callback_def check_index_def Let_def

lemma parse_events_append:
  "parse_events cb xs st = Inr st' \<Longrightarrow> parse_events cb (xs @ ys) st = parse_events cb ys st'"
  by (induction xs arbitrary: st) (auto simp: Let_def split: prod.splits if_splits)

text \<open>Nothing happens once the value is done, or deeper than the pointer looks.\<close>

definition quiet :: "json_ptr \<Rightarrow> int \<Rightarrow> int \<Rightarrow> bool" where
  "quiet jp d i \<longleftrightarrow> jp_state jp = DONE \<or> (jp_depth jp < d \<and> (i \<noteq> - 1 \<or> \<not> reached_end jp))"

lemma quiet_deeper: "quiet jp d i \<Longrightarrow> quiet jp (d + 1) i"
  by (auto simp: quiet_def)

lemma at_index_quiet: "quiet jp d i \<Longrightarrow> at_index jp d i b = (False, jp, i)"
  by (auto simp: quiet_def at_index_def)

lemma expect_quiet:
  assumes "quiet jp d i"
  shows "expect_map jp d i = (True, jp, d + 1, i)" and "expect_array jp d i = (True, jp, d + 1, i)"
  using assms by (auto simp: quiet_def expect_map_def expect_array_def)

lemma at_key_quiet: "quiet jp d i \<Longrightarrow> at_key jp d k = (True, jp)"
  by (auto simp: quiet_def at_key_def)

lemma exit_quiet: "quiet jp d i \<Longrightarrow> exit_container jp (d + 1) i = (jp, d, i)"
  by (auto simp: quiet_def exit_container_def)

lemmas quiet_simps = json_op_simps at_index_quiet expect_quiet at_key_quiet exit_quiet

lemma parse_concat:
  assumes "\<And>x. x \<in> set xs \<Longrightarrow> parse_events cb (f x) st = Inr st"
  shows "parse_events cb (concat (map f xs)) st = Inr st"
  using assms by (induction xs) (simp_all add: parse_events_append)

lemma parse_quiet:
  "quiet jp d i \<Longrightarrow> parse_events cb (json_events v) (json_op_at d i jp f, s) = Inr (json_op_at d i jp f, s)"
proof (induction v arbitrary: d)
  case (JArray vs)
  have q: "quiet jp (d + 1) i" by (rule quiet_deeper [OF JArray.prems])
  have "parse_events cb (concat (map json_events vs)) (json_op_at (d + 1) i jp f, s)
      = Inr (json_op_at (d + 1) i jp f, s)"
    using JArray.IH q by (intro parse_concat)
  then show ?case using JArray.prems q by (simp add: quiet_simps parse_events_append)
next
  case (JObject kvs)
  have q: "quiet jp (d + 1) i" by (rule quiet_deeper [OF JObject.prems])
  have "parse_events cb ((\<lambda>(k, v). Ev_map_key k # json_events v) kv) (json_op_at (d + 1) i jp f, s)
      = Inr (json_op_at (d + 1) i jp f, s)" if "kv \<in> set kvs" for kv
    using JObject.IH [OF that _ q] q by (cases kv) (auto simp: quiet_simps snds.simps)
  then have "parse_events cb (concat (map (\<lambda>(k, v). Ev_map_key k # json_events v) kvs))
      (json_op_at (d + 1) i jp f, s) = Inr (json_op_at (d + 1) i jp f, s)"
    by (rule parse_concat)
  then show ?case using JObject.prems q by (simp add: quiet_simps parse_events_append)
qed (simp_all add: quiet_simps)

subsection \<open>In the value that was found\<close>

text \<open>The calls of the callbacks, when each of them lets the parser go on.\<close>

fun feed :: "('n, 's) callbacks \<Rightarrow> (match_state \<times> 'n json_event) list \<Rightarrow> 's \<Rightarrow> 's option" where
  "feed cb [] s = Some s"
| "feed cb ((m, e) # es) s = (let (go_on, s1) = cb e m s in if go_on then feed cb es s1 else None)"

lemma feed_append: "feed cb (xs @ ys) s = (case feed cb xs s of None \<Rightarrow> None | Some s1 \<Rightarrow> feed cb ys s1)"
  by (induction xs arbitrary: s) (auto split: prod.splits)

lemma feed_append_Some:
  "feed cb (xs @ ys) s = Some s' \<longleftrightarrow> (\<exists>s1. feed cb xs s = Some s1 \<and> feed cb ys s1 = Some s')"
  by (auto simp: feed_append split: option.splits)

lemma feed_Cons_Some:
  "feed cb ((m, e) # es) s = Some s' \<longleftrightarrow> (\<exists>s1. cb e m s = (True, s1) \<and> feed cb es s1 = Some s')"
  by (auto split: prod.splits)

definition inside_found :: "json_ptr \<Rightarrow> int \<Rightarrow> bool" where
  "inside_found jp d \<longleftrightarrow> jp_state jp = VALUE \<and> jp_depth jp < d \<and> reached_end jp"

lemma inside_found_deeper: "inside_found jp d \<Longrightarrow> inside_found jp (d + 1)"
  by (simp add: inside_found_def)

lemma inside_found_steps:
  assumes "inside_found jp d"
  shows "at_index jp d (- 1) b = (True, jp, - 1)" and "expect_map jp d (- 1) = (True, jp, d + 1, - 1)"
    and "expect_array jp d (- 1) = (True, jp, d + 1, - 1)" and "at_key jp d k = (True, jp)"
    and "exit_container jp (d + 1) (- 1) = (jp, d, - 1)"
  using assms
  by (auto simp: inside_found_def at_index_def expect_map_def expect_array_def at_key_def exit_container_def)

lemmas inside_simps = json_op_simps inside_found_steps

abbreviation value_calls :: "'n json_event list \<Rightarrow> (match_state \<times> 'n json_event) list" where
  "value_calls es \<equiv> map (Pair VALUE) es"

lemma parse_inside_list:
  assumes "\<And>x s s' f. x \<in> set xs \<Longrightarrow> feed cb (value_calls (g x)) s = Some s'
      \<Longrightarrow> g x \<noteq> [] \<and> parse_events cb (g x) (json_op_at d (- 1) jp f, s) = Inr (json_op_at d (- 1) jp True, s')"
    and "feed cb (value_calls (concat (map g xs))) s = Some s'"
  shows "parse_events cb (concat (map g xs)) (json_op_at d (- 1) jp True, s) = Inr (json_op_at d (- 1) jp True, s')"
  using assms
proof (induction xs arbitrary: s)
  case (Cons x xs)
  obtain s1 where s1: "feed cb (value_calls (g x)) s = Some s1"
      "feed cb (value_calls (concat (map g xs))) s1 = Some s'"
    using Cons.prems(2) by (auto simp: feed_append_Some)
  show ?case
    using Cons.prems(1) [OF _ s1(1)] Cons.IH [OF Cons.prems(1) s1(2)] by (simp add: parse_events_append)
qed simp

lemma json_events_not_empty [simp]: "json_events v \<noteq> []"
  by (cases v) simp_all

lemma parse_inside_member:
  assumes "inside_found jp d" "feed cb (value_calls (Ev_map_key k # json_events v)) s = Some s'"
    and "\<And>s s' f. feed cb (value_calls (json_events v)) s = Some s'
      \<Longrightarrow> parse_events cb (json_events v) (json_op_at d (- 1) jp f, s) = Inr (json_op_at d (- 1) jp True, s')"
  shows "parse_events cb (Ev_map_key k # json_events v) (json_op_at d (- 1) jp f, s)
    = Inr (json_op_at d (- 1) jp True, s')"
proof -
  have m: "jp_state jp = VALUE" using assms(1) by (simp add: inside_found_def)
  obtain s1 where "cb (Ev_map_key k) VALUE s = (True, s1)" "feed cb (value_calls (json_events v)) s1 = Some s'"
    using assms(2) by (auto simp: feed_Cons_Some simp del: feed.simps(2))
  then show ?thesis using assms(1,3) m by (simp add: inside_simps)
qed

lemma parse_inside:
  "inside_found jp d \<Longrightarrow> feed cb (value_calls (json_events v)) s = Some s'
    \<Longrightarrow> parse_events cb (json_events v) (json_op_at d (- 1) jp f, s) = Inr (json_op_at d (- 1) jp True, s')"
proof (induction v arbitrary: d s s' f)
  case (JArray vs)
  have m: "jp_state jp = VALUE" using JArray.prems(1) by (simp add: inside_found_def)
  have q: "inside_found jp (d + 1)" by (rule inside_found_deeper [OF JArray.prems(1)])
  obtain s1 s2 where s: "cb Ev_start_array VALUE s = (True, s1)"
      "feed cb (value_calls (concat (map json_events vs))) s1 = Some s2" "cb Ev_end_array VALUE s2 = (True, s')"
    using JArray.prems(2) by (auto simp: feed_append_Some feed_Cons_Some simp del: feed.simps(2))
  have "parse_events cb (concat (map json_events vs)) (json_op_at (d + 1) (- 1) jp True, s1)
      = Inr (json_op_at (d + 1) (- 1) jp True, s2)"
    using s(2) JArray.IH q by (intro parse_inside_list) auto
  then show ?case
    using JArray.prems(1) q s(1,3) m by (simp add: inside_simps parse_events_append)
next
  case (JObject kvs)
  let ?g = "\<lambda>(k, v). Ev_map_key k # json_events v"
  have m: "jp_state jp = VALUE" using JObject.prems(1) by (simp add: inside_found_def)
  have q: "inside_found jp (d + 1)" by (rule inside_found_deeper [OF JObject.prems(1)])
  obtain s1 s2 where s: "cb Ev_start_map VALUE s = (True, s1)"
      "feed cb (value_calls (concat (map ?g kvs))) s1 = Some s2" "cb Ev_end_map VALUE s2 = (True, s')"
    using JObject.prems(2) by (auto simp: feed_append_Some feed_Cons_Some simp del: feed.simps(2))
  have "parse_events cb (?g kv) (json_op_at (d + 1) (- 1) jp f, t) = Inr (json_op_at (d + 1) (- 1) jp True, t')"
    if kvs: "kv \<in> set kvs" and calls: "feed cb (value_calls (?g kv)) t = Some t'" for kv t t' f
  proof -
    obtain k v where kv: "kv = (k, v)" by fastforce
    have "v \<in> Basic_BNFs.snds kv" by (simp add: kv snds.simps)
    note member = parse_inside_member [OF q _ JObject.IH [OF kvs this q]]
    show ?thesis unfolding kv prod.case by (rule member) (use calls in \<open>simp add: kv\<close>)
  qed
  then have "parse_events cb (concat (map ?g kvs)) (json_op_at (d + 1) (- 1) jp True, s1)
      = Inr (json_op_at (d + 1) (- 1) jp True, s2)"
    using s(2) by (intro parse_inside_list) (auto split: prod.splits)
  then show ?case
    using JObject.prems(1) q s(1,3) m by (simp add: inside_simps parse_events_append)
qed (auto simp: inside_simps inside_found_def split: prod.splits if_splits)

definition json_body :: "'n json \<Rightarrow> 'n json_event list" where
  "json_body v = butlast (tl (json_events v))"

lemma parse_inside_body:
  assumes "is_container v" "inside_found jp d" "feed cb (value_calls (json_body v)) s = Some s'"
  shows "parse_events cb (json_body v) (json_op_at d (- 1) jp True, s) = Inr (json_op_at d (- 1) jp True, s')"
proof (cases v)
  case (JArray vs)
  then have b: "json_body v = concat (map json_events vs)" by (simp add: json_body_def)
  show ?thesis unfolding b
  proof (rule parse_inside_list)
    show "feed cb (value_calls (concat (map json_events vs))) s = Some s'" using assms(3) by (simp add: b)
  qed (simp add: parse_inside [OF assms(2)])
next
  case (JObject kvs)
  let ?g = "\<lambda>(k, v). Ev_map_key k # json_events v"
  from JObject have b: "json_body v = concat (map ?g kvs)" by (simp add: json_body_def)
  show ?thesis unfolding b
  proof (rule parse_inside_list)
    show "feed cb (value_calls (concat (map ?g kvs))) s = Some s'" using assms(3) by (simp add: b)
    show "?g kv \<noteq> [] \<and> parse_events cb (?g kv) (json_op_at d (- 1) jp f, t) = Inr (json_op_at d (- 1) jp True, t')"
      if "feed cb (value_calls (?g kv)) t = Some t'" for kv t t' f
    proof -
      obtain k v where kv: "kv = (k, v)" by fastforce
      show ?thesis
        using parse_inside_member [OF assms(2) _ parse_inside [OF assms(2)], of cb k v t t' f] that
        unfolding kv prod.case by blast
    qed
  qed
qed (use assms(1) in simp_all)

lemma container_events:
  assumes "is_container v"
  shows "\<exists>open_ev close_ev. json_events v = open_ev # json_body v @ [close_ev]
    \<and> (open_ev = Ev_start_map \<and> close_ev = Ev_end_map \<or> open_ev = Ev_start_array \<and> close_ev = Ev_end_array)"
  using assms by (cases v) (simp_all add: json_body_def butlast_append)

subsection \<open>Where the pointer ends\<close>

text \<open>A scalar is handed over after the state has become \<open>DONE\<close>, the events of a container before.\<close>

definition found_calls :: "'n json \<Rightarrow> (match_state \<times> 'n json_event) list" where
  "found_calls v =
    (if is_container v then value_calls (json_events v) else map (Pair DONE) (json_events v))"

definition ends_done ::
  "((json_op \<times> 's) + (json_op \<times> 's)) \<Rightarrow> int \<Rightarrow> 's \<Rightarrow> bool" where
  "ends_done r d s' \<longleftrightarrow>
    (\<exists>jp i. jp_state jp = DONE \<and> r = Inr (json_op_at d i jp True, s'))"

lemma ends_done_append:
  assumes "ends_done (parse_events cb xs st) d s'"
    and "\<And>jp i. jp_state jp = DONE \<Longrightarrow> ends_done (parse_events cb ys (json_op_at d i jp True, s')) d' s'"
  shows "ends_done (parse_events cb (xs @ ys) st) d' s'"
  using assms by (auto simp: ends_done_def parse_events_append)

lemma scalar_calls:
  assumes "\<not> is_container v" "feed cb (found_calls v) s = Some s'"
  shows "\<exists>e. json_events v = [e] \<and> cb e DONE s = (True, s')
    \<and> (\<forall>st. json_op_event cb e st = checked_callback cb True e st)"
  using assms
  by (cases v) (auto simp: found_calls_def json_op_event_def split: prod.splits if_splits)

lemma at_index_here:
  assumes "jp_depth jp = d" "jp_array_index jp = i" "jp_state jp = VALUE"
  shows "at_index jp d i b
    = (reached_end jp, jp\<lparr>jp_array_index := - 1,
         jp_state := (if b \<and> reached_end jp then DONE else VALUE)\<rparr>, - 1)"
  using assms by (cases jp) (auto simp: at_index_def reached_end_def)

lemma parse_found:
  assumes "jp_depth jp = d" "jp_array_index jp = i" "jp_state jp = VALUE" "reached_end jp"
    and "feed cb (found_calls v) s = Some s'"
  shows "ends_done (parse_events cb (json_events v) (json_op_at d i jp f, s)) d s'"
proof -
  let ?jp = "jp\<lparr>jp_array_index := - 1, jp_state := VALUE\<rparr>"
  note here = at_index_here [OF assms(1-3)]
  have q: "inside_found ?jp (d + 1)" using assms by (simp add: inside_found_def reached_end_def)
  have e: "expect_map ?jp d (- 1) = (True, ?jp, d + 1, - 1)" "expect_array ?jp d (- 1) = (True, ?jp, d + 1, - 1)"
    using assms by (simp_all add: expect_map_def expect_array_def reached_end_def)
  have x: "exit_container ?jp (d + 1) (- 1) = (?jp\<lparr>jp_state := DONE\<rparr>, d, - 1)"
    using assms by (simp add: exit_container_def reached_end_def)
  show ?thesis
  proof (cases "is_container v")
    case False
    obtain e where "json_events v = [e]" "cb e DONE s = (True, s')"
        "\<forall>st. json_op_event cb e st = checked_callback cb True e st"
      using scalar_calls [OF False assms(5)] by blast
    then show ?thesis
      by (simp add: ends_done_def checked_callback_def check_index_def here assms(4))
  next
    case True
    then obtain open_ev close_ev where v: "json_events v = open_ev # json_body v @ [close_ev]"
        "open_ev = Ev_start_map \<and> close_ev = Ev_end_map \<or> open_ev = Ev_start_array \<and> close_ev = Ev_end_array"
      using container_events by blast
    obtain s1 s2 where s: "cb open_ev VALUE s = (True, s1)" "feed cb (value_calls (json_body v)) s1 = Some s2"
        "cb close_ev VALUE s2 = (True, s')"
      using assms(5) True by (auto simp: found_calls_def v(1) feed_append_Some feed_Cons_Some simp del: feed.simps(2))
    have "json_op_event cb open_ev (json_op_at d i jp f, s) = (True, json_op_at (d + 1) (- 1) ?jp True, s1)"
      using v(2) s(1) by (auto simp: json_op_simps here assms(4) e)
    moreover have "json_op_event cb close_ev (json_op_at (d + 1) (- 1) ?jp True, s2)
        = (True, json_op_at d (- 1) (?jp\<lparr>jp_state := DONE\<rparr>) True, s')"
      using v(2) s(3) inside_found_steps(1) [OF q] by (auto simp: json_op_simps x)
    ultimately show ?thesis
      using parse_inside_body [OF True q s(2)] by (simp add: v(1) parse_events_append ends_done_def)
  qed
qed

subsection \<open>Beside the path\<close>

lemma parse_quiet_body:
  assumes "is_container v" "quiet jp d i"
  shows "parse_events cb (json_body v) (json_op_at d i jp f, s) = Inr (json_op_at d i jp f, s)"
proof (cases v)
  case (JArray vs)
  then have "json_body v = concat (map json_events vs)" by (simp add: json_body_def)
  then show ?thesis using parse_concat parse_quiet [OF assms(2)] by metis
next
  case (JObject kvs)
  let ?g = "\<lambda>(k, v). Ev_map_key k # json_events v"
  from JObject have b: "json_body v = concat (map ?g kvs)" by (simp add: json_body_def)
  have "parse_events cb (?g kv) (json_op_at d i jp f, s) = Inr (json_op_at d i jp f, s)" for kv
    using assms(2) parse_quiet [OF assms(2)] by (cases kv) (simp add: quiet_simps)
  then show ?thesis unfolding b by (rule parse_concat)
qed (use assms(1) in simp_all)

text \<open>A container of which no event concerns the pointer.\<close>

lemma parse_container_apart:
  assumes "json_events v = open_ev # json_body v @ [close_ev]" "is_container v"
    and "\<And>s. json_op_event cb open_ev (json_op_at d i jp f, s) = (True, json_op_at (d + 1) i' jp' f, s)"
    and "quiet jp' (d + 1) i'" "exit_container jp' (d + 1) i' = (jp', d, i')"
    and "close_ev = Ev_end_map \<or> close_ev = Ev_end_array"
  shows "parse_events cb (json_events v) (json_op_at d i jp f, s) = Inr (json_op_at d i' jp' f, s)"
proof -
  have "json_op_event cb close_ev (json_op_at (d + 1) i' jp' f, s) = (True, json_op_at d i' jp' f, s)" for s
    using assms(6) by (auto simp: json_op_simps at_index_quiet [OF assms(4)] assms(5))
  then show ?thesis
    by (simp add: assms(1,3) parse_events_append [OF parse_quiet_body [OF assms(2,4)]])
qed

lemma parse_other_member:
  assumes "jp_depth jp = d" "jp_array_index jp = - 1" "jp_state jp \<in> {VALUE, ERR_NO_SLASH}"
    and "str_at (jp_pos jp) 0 \<notin> {CHR 0x00, CHR 0x2F}"
  shows "\<exists>m\<in>{VALUE, ERR_NO_SLASH}. parse_events cb (json_events v) (json_op_at d (- 1) jp f, s)
    = Inr (json_op_at d (- 1) (jp\<lparr>jp_state := m\<rparr>) f, s)"
proof -
  have no: "at_index jp d (- 1) b = (False, jp, - 1)" for b
    using assms by (auto simp: at_index_def reached_end_def)
  have same: "jp\<lparr>jp_state := jp_state jp\<rparr> = jp" by simp
  have apart: "quiet (jp\<lparr>jp_state := m\<rparr>) (d + 1) (- 1)"
      "exit_container (jp\<lparr>jp_state := m\<rparr>) (d + 1) (- 1) = (jp\<lparr>jp_state := m\<rparr>, d, - 1)"
    for m using assms by (auto simp: quiet_def reached_end_def exit_container_def)
  consider (arr) vs where "v = JArray vs" | (obj) kvs where "v = JObject kvs" | (scalar) "\<not> is_container v"
    by (cases v) auto
  then show ?thesis
  proof cases
    case arr
    have "expect_array jp d (- 1) = (True, jp\<lparr>jp_state := ERR_NO_SLASH\<rparr>, d + 1, - 1)"
      using assms by (auto simp: expect_array_def reached_end_def)
    then have "parse_events cb (json_events v) (json_op_at d (- 1) jp f, s)
        = Inr (json_op_at d (- 1) (jp\<lparr>jp_state := ERR_NO_SLASH\<rparr>) f, s)"
      by (intro parse_container_apart [of _ Ev_start_array Ev_end_array])
        (auto simp: arr json_body_def json_op_simps no apart butlast_append)
    then show ?thesis by blast
  next
    case obj
    have "expect_map jp d (- 1) = (True, jp, d + 1, - 1)"
      using assms by (auto simp: expect_map_def reached_end_def)
    then have "parse_events cb (json_events v) (json_op_at d (- 1) jp f, s)
        = Inr (json_op_at d (- 1) jp f, s)"
      using apart [of "jp_state jp"]
      by (intro parse_container_apart [of _ Ev_start_map Ev_end_map])
        (auto simp: obj json_body_def json_op_simps no same butlast_append)
    then show ?thesis using assms(3) same by metis
  next
    case scalar
    then have "parse_events cb (json_events v) (json_op_at d (- 1) jp f, s)
        = Inr (json_op_at d (- 1) jp f, s)"
      by (cases v) (simp_all add: json_op_simps no)
    then show ?thesis using assms(3) same by metis
  qed
qed

lemma parse_earlier_element:
  assumes "jp_depth jp = d" "jp_array_index jp = n" "jp_state jp = VALUE" "0 \<le> j" "j < n"
    and "reached_end jp \<or> \<not> is_array v"
  shows "parse_events cb (json_events v) (json_op_at d j jp f, s) = Inr (json_op_at d (j + 1) jp f, s)"
proof -
  have no: "at_index jp d j b = (False, jp, j + 1)" for b
    using assms by (auto simp: at_index_def)
  have apart: "quiet jp (d + 1) (j + 1)" "exit_container jp (d + 1) (j + 1) = (jp, d, j + 1)"
    using assms by (auto simp: quiet_def exit_container_def)
  consider (arr) vs where "v = JArray vs" "reached_end jp" | (obj) kvs where "v = JObject kvs"
    | (scalar) "\<not> is_container v"
    using assms(6) by (cases v) auto
  then show ?thesis
  proof cases
    case arr
    have "expect_array jp d (j + 1) = (True, jp, d + 1, j + 1)"
      using assms arr(2) by (auto simp: expect_array_def)
    then show ?thesis
      by (intro parse_container_apart [of _ Ev_start_array Ev_end_array])
        (auto simp: arr(1) json_body_def json_op_simps no apart butlast_append)
  next
    case obj
    have "expect_map jp d (j + 1) = (True, jp, d + 1, j + 1)"
      using assms by (auto simp: expect_map_def)
    then show ?thesis
      by (intro parse_container_apart [of _ Ev_start_map Ev_end_map])
        (auto simp: obj json_body_def json_op_simps no apart butlast_append)
  next
    case scalar
    then show ?thesis by (cases v) (simp_all add: json_op_simps no)
  qed
qed

subsection \<open>Along the path\<close>

lemma encode_first:
  assumes "plain_key k"
  shows "str_at (encode k @ rest) 0 \<notin> {CHR 0x00, CHR 0x2F}"
  using assms by (cases k) (auto simp: plain_key_def encode_char_def)

lemma at_index_slash:
  assumes "jp_depth jp = d" "jp_array_index jp = i" "jp_state jp = VALUE" "str_at (jp_pos jp) 0 = CHR 0x2F"
  shows "at_index jp d i b = (False, jp\<lparr>jp_array_index := - 1\<rparr>, - 1)"
  using assms at_index_here [OF assms(1-3), of b] by (cases jp) (simp add: reached_end_def)

text \<open>The members before the key.\<close>

lemma parse_earlier_members:
  assumes "plain_key k" "rest_ok rest"
  shows "\<forall>(k', _)\<in>set kvs. \<not> prefix k' k \<and> CHR 0x00 \<notin> set k'
    \<Longrightarrow> jp_depth jp = d \<Longrightarrow> jp_array_index jp = - 1 \<Longrightarrow> jp_state jp \<in> {VALUE, ERR_NO_SLASH}
    \<Longrightarrow> jp_pos jp = encode k @ rest
    \<Longrightarrow> \<exists>m\<in>{VALUE, ERR_NO_SLASH}.
      parse_events cb (concat (map (\<lambda>(k, v). Ev_map_key k # json_events v) kvs)) (json_op_at d (- 1) jp f, s)
      = Inr (json_op_at d (- 1) (jp\<lparr>jp_state := m\<rparr>) f, s)"
proof (induction kvs arbitrary: jp)
  case Nil
  have "jp\<lparr>jp_state := jp_state jp\<rparr> = jp" by simp
  then show ?case using Nil.prems(4) by (metis concat.simps(1) list.map(1) parse_events.simps(1))
next
  case (Cons kv kvs)
  obtain k' v where kv: "kv = (k', v)" by fastforce
  have first: "str_at (jp_pos jp) 0 \<notin> {CHR 0x00, CHR 0x2F}"
    using encode_first [OF assms(1)] Cons.prems(5) by simp
  have "at_key_scan (encode k @ rest) k' = Key_differs"
    using at_key_scan_other [OF assms(2)] assms(1) Cons.prems(1) by (auto simp: plain_key_def kv)
  then have "at_key jp d k' = (True, jp)" by (simp add: at_key_def Cons.prems(5))
  moreover have "at_index jp d (- 1) False = (False, jp, - 1)"
    using Cons.prems(2-4) first by (auto simp: at_index_def reached_end_def)
  ultimately have key: "json_op_event cb (Ev_map_key k') (json_op_at d (- 1) jp f, s)
      = (True, json_op_at d (- 1) jp f, s)"
    by (simp add: json_op_simps)
  obtain m where m: "m \<in> {VALUE, ERR_NO_SLASH}"
      "parse_events cb (json_events v) (json_op_at d (- 1) jp f, s)
        = Inr (json_op_at d (- 1) (jp\<lparr>jp_state := m\<rparr>) f, s)"
    by (rule bexE [OF parse_other_member [OF Cons.prems(2-4) first, of cb v f s]])
  have "\<exists>m'\<in>{VALUE, ERR_NO_SLASH}.
      parse_events cb (concat (map (\<lambda>(k, v). Ev_map_key k # json_events v) kvs))
        (json_op_at d (- 1) (jp\<lparr>jp_state := m\<rparr>) f, s)
      = Inr (json_op_at d (- 1) (jp\<lparr>jp_state := m'\<rparr>) f, s)"
    using Cons.IH [of "jp\<lparr>jp_state := m\<rparr>"] Cons.prems m(1) by auto
  then show ?case
    by (simp add: kv key parse_events_append [OF m(2)])
qed

text \<open>The elements before the index.\<close>

lemma parse_earlier_elements:
  assumes "jp_depth jp = d" "jp_array_index jp = int n" "jp_state jp = VALUE"
  shows "\<forall>v\<in>set vs. reached_end jp \<or> \<not> is_array v \<Longrightarrow> j + length vs \<le> n
    \<Longrightarrow> parse_events cb (concat (map json_events vs)) (json_op_at d (int j) jp f, s)
      = Inr (json_op_at d (int (j + length vs)) jp f, s)"
proof (induction vs arbitrary: j)
  case (Cons v vs)
  have "parse_events cb (json_events v) (json_op_at d (int j) jp f, s) = Inr (json_op_at d (int j + 1) jp f, s)"
    by (rule parse_earlier_element [OF assms]) (use Cons.prems in auto)
  moreover have "parse_events cb (concat (map json_events vs)) (json_op_at d (int (Suc j)) jp f, s)
      = Inr (json_op_at d (int (Suc j + length vs)) jp f, s)"
    using Cons.prems by (intro Cons.IH) auto
  ultimately show ?case by (simp add: parse_events_append add.commute)
qed simp

lemma takeWhile_map_of:
  assumes "map_of kvs k = Some w"
  shows "\<exists>after. kvs = takeWhile (\<lambda>(k', _). k' \<noteq> k) kvs @ (k, w) # after"
  using assms by (induction kvs) (auto split: if_splits)

lemma done_events:
  assumes "jp_state jp = DONE" "close_ev = Ev_end_map \<or> close_ev = Ev_end_array"
    and "\<And>st. parse_events cb after (json_op_at (d + 1) i jp True, st) = Inr (json_op_at (d + 1) i jp True, st)"
  shows "ends_done (parse_events cb (after @ [close_ev]) (json_op_at (d + 1) i jp True, s')) d s'"
proof -
  have "quiet jp (d + 1) i" "quiet jp d i" using assms(1) by (simp_all add: quiet_def)
  then show ?thesis
    using assms by (auto simp: parse_events_append [OF assms(3)] ends_done_def json_op_simps at_index_quiet exit_quiet)
qed

lemma parse_path:
  "clear_path v p \<Longrightarrow> json_lookup v p = Some w \<Longrightarrow> feed cb (found_calls w) s = Some s'
    \<Longrightarrow> jp_depth jp = d \<Longrightarrow> jp_array_index jp = i \<Longrightarrow> jp_state jp = VALUE \<Longrightarrow> jp_pos jp = path_text p
    \<Longrightarrow> ends_done (parse_events cb (json_events v) (json_op_at d i jp f, s)) d s'"
proof (induction v p arbitrary: jp d i f rule: clear_path.induct)
  case (1 v)
  then show ?case by (intro parse_found) (simp_all add: reached_end_def)
next
  case (2 kvs k p)
  let ?g = "\<lambda>(k, v). Ev_map_key k # json_events v"
  obtain u where u: "map_of kvs k = Some u" "clear_path u p" "json_lookup u p = Some w"
    using 2 by (auto split: option.splits)
  define before where "before = takeWhile (\<lambda>(k', _). k' \<noteq> k) kvs"
  obtain after where kvs: "kvs = before @ (k, u) # after"
    using takeWhile_map_of [OF u(1)] unfolding before_def by blast
  have key: "plain_key k" "\<forall>(k', _)\<in>set before. \<not> prefix k' k \<and> CHR 0x00 \<notin> set k'"
    using 2(2) by (simp_all add: before_def)
  define jp1 where "jp1 = jp\<lparr>jp_pos := encode k @ path_text p, jp_depth := d + 1,
    jp_array_index := - 1, jp_state := VALUE\<rparr>"
  have slash: "str_at (jp_pos jp) 0 = CHR 0x2F" by (simp add: 2(8))
  have start: "json_op_event cb Ev_start_map (json_op_at d i jp f, s) = (True, json_op_at (d + 1) (- 1) jp1 f, s)"
    using 2(5-8) by (simp add: json_op_simps at_index_slash [OF 2(5-7) slash])
      (simp add: expect_map_def reached_end_def jp1_def)
  obtain m where m: "m \<in> {VALUE, ERR_NO_SLASH}"
      "parse_events cb (concat (map ?g before)) (json_op_at (d + 1) (- 1) jp1 f, s)
        = Inr (json_op_at (d + 1) (- 1) (jp1\<lparr>jp_state := m\<rparr>) f, s)"
    using parse_earlier_members [OF key(1) path_text_rest_ok [of p] key(2), of jp1 "d + 1" cb f s]
    by (auto simp: jp1_def)
  define jp2 where "jp2 = jp1\<lparr>jp_pos := path_text p, jp_state := VALUE\<rparr>"
  have first: "str_at (encode k @ path_text p) 0 \<notin> {CHR 0x00, CHR 0x2F}" by (rule encode_first [OF key(1)])
  have accepted: "at_key_scan (encode k @ path_text p) k = Key_accepted (path_text p)"
    using key(1) by (intro at_key_scan_same) (simp_all add: plain_key_def)
  have at: "json_op_event cb (Ev_map_key k) (json_op_at (d + 1) (- 1) (jp1\<lparr>jp_state := m\<rparr>) f, s)
      = (True, json_op_at (d + 1) (- 1) jp2 f, s)"
    using m(1) first by (auto simp: json_op_simps at_index_def at_key_def reached_end_def jp1_def jp2_def accepted)
  have "ends_done (parse_events cb (json_events u) (json_op_at (d + 1) (- 1) jp2 f, s)) (d + 1) s'"
    using 2(1) [OF _ u(2,3) 2(4), of jp2 "d + 1" "- 1" f] u(1) by (simp add: jp2_def jp1_def)
  moreover have "ends_done (parse_events cb (concat (map ?g after) @ [Ev_end_map]) (json_op_at (d + 1) i' jp' True, s')) d s'"
    if dn: "jp_state jp' = DONE" for jp' i'
  proof (rule done_events [OF dn])
    have q: "quiet jp' (d + 1) i'" using dn by (simp add: quiet_def)
    have "parse_events cb (?g kv) (json_op_at (d + 1) i' jp' True, st) = Inr (json_op_at (d + 1) i' jp' True, st)"
      for kv st using q parse_quiet [OF q] by (cases kv) (simp add: quiet_simps)
    then show "parse_events cb (concat (map ?g after)) (json_op_at (d + 1) i' jp' True, st)
        = Inr (json_op_at (d + 1) i' jp' True, st)" for st
      by (rule parse_concat)
  qed simp
  ultimately have "ends_done (parse_events cb (json_events u @ concat (map ?g after) @ [Ev_end_map])
      (json_op_at (d + 1) (- 1) jp2 f, s)) d s'"
    by (rule ends_done_append)
  then show ?case
    by (simp add: kvs start parse_events_append [OF m(2)] at)
next
  case (3 vs n p)
  define jp1 where "jp1 = jp\<lparr>jp_pos := path_text p, jp_depth := d + 1, jp_array_index := int n,
    jp_state := VALUE\<rparr>"
  have n: "n < length vs" "clear_path (vs ! n) p" "json_lookup (vs ! n) p = Some w"
    using 3(2,3) by simp_all
  have slash: "str_at (jp_pos jp) 0 = CHR 0x2F" by (simp add: 3(8))
  have "str_at (path_text p) 0 = CHR 0x00 \<or> str_at (path_text p) 0 = CHR 0x2F"
    using path_text_rest_ok [of p] by (cases "path_text p") (auto simp: rest_ok_def)
  then have start: "json_op_event cb Ev_start_array (json_op_at d i jp f, s) = (True, json_op_at (d + 1) 0 jp1 f, s)"
    using 3(5-8) by (simp add: json_op_simps at_index_slash [OF 3(5-7) slash])
      (auto simp: expect_array_def reached_end_def jp1_def scan_int_digits Let_def)
  have vs: "vs = take n vs @ vs ! n # drop (Suc n) vs" using n(1) by (rule id_take_nth_drop)
  have early: "\<forall>v\<in>set (take n vs). reached_end jp1 \<or> \<not> is_array v"
    using 3(2) by (auto simp: jp1_def reached_end_def)
  have before: "parse_events cb (concat (map json_events (take n vs))) (json_op_at (d + 1) 0 jp1 f, s)
      = Inr (json_op_at (d + 1) (int n) jp1 f, s)"
    using parse_earlier_elements [of jp1 "d + 1" n "take n vs" 0 cb f s] early n(1)
    by (simp add: jp1_def)
  have "ends_done (parse_events cb (json_events (vs ! n)) (json_op_at (d + 1) (int n) jp1 f, s)) (d + 1) s'"
    using 3(1) [OF n(2,3) 3(4), of jp1 "d + 1" "int n" f] by (simp add: jp1_def)
  moreover have "ends_done (parse_events cb (concat (map json_events (drop (Suc n) vs)) @ [Ev_end_array])
      (json_op_at (d + 1) i' jp' True, s')) d s'" if dn: "jp_state jp' = DONE" for jp' i'
  proof (rule done_events [OF dn])
    have q: "quiet jp' (d + 1) i'" using dn by (simp add: quiet_def)
    show "parse_events cb (concat (map json_events (drop (Suc n) vs))) (json_op_at (d + 1) i' jp' True, st)
        = Inr (json_op_at (d + 1) i' jp' True, st)" for st
      by (rule parse_concat) (rule parse_quiet [OF q])
  qed simp
  ultimately have "ends_done (parse_events cb (json_events (vs ! n) @ concat (map json_events (drop (Suc n) vs))
      @ [Ev_end_array]) (json_op_at (d + 1) (int n) jp1 f, s)) d s'"
    by (rule ends_done_append)
  then show ?case
    by (subst vs) (simp add: start parse_events_append [OF before])
qed simp_all

section \<open>Properties\<close>

definition gen_accepts :: "('n json_event list \<Rightarrow> 'n json_event \<Rightarrow> nat) \<Rightarrow> 'n json \<Rightarrow> bool" where
  "gen_accepts gen_status w \<longleftrightarrow>
    (\<forall>pre e post. json_events w = pre @ e # post \<longrightarrow> gen_status pre e = 0)"

lemma gen_acceptsD: "gen_accepts gen_status w \<Longrightarrow> pre @ e # post = json_events w \<Longrightarrow> gen_status pre e = 0"
  unfolding gen_accepts_def by metis

lemma feed_gen:
  assumes "gen_accepts gen_status w"
  shows "gen @ map snd calls = json_events w \<Longrightarrow> feed (gen_callbacks gen_status) calls gen = Some (json_events w)"
proof (induction calls arbitrary: gen)
  case (Cons c calls)
  obtain m e where c: "c = (m, e)" by fastforce
  have "gen_status gen e = 0" using gen_acceptsD [OF assms] Cons.prems by (simp add: c)
  then show ?case using Cons by (simp add: c gen_callbacks_def)
qed simp

lemma snd_found_calls: "map snd (found_calls v) = json_events v"
  by (simp add: found_calls_def comp_def)

lemma json_op_of_path: "json_op_of ptr = json_op_at 0 (- 1) (json_ptr_of ptr) False"
  by (simp add: json_op_of_def)

lemma extract_path:
  assumes "clear_path v p" "json_lookup v p = Some w" "gen_accepts gen_status w"
  shows "extract_json_from gen_status (json_events v) (path_text p) = Inr (True, json_events w)"
proof -
  have "feed (gen_callbacks gen_status) (found_calls w) [] = Some (json_events w)"
    by (rule feed_gen [OF assms(3)]) (simp add: snd_found_calls)
  from parse_path [OF assms(1,2) this, of "json_ptr_of (path_text p)" 0 "- 1" False] show ?thesis
    by (auto simp: extract_json_from_def json_op_of_path json_ptr_of_def ends_done_def)
qed

text \<open>
  C26: Following the text of a path that leads to a value finds it and generates exactly the events of that
  value, from the events of the whole document, provided that on the way no earlier key of an object
  is a prefix of the key to follow, no key to follow is empty or holds \<open>#\<close> or a NUL, and no array is
  passed by in an array when the pointer goes on after its index.
\<close>

theorem extract_finds_path:
  assumes "clear_path v p" "json_lookup v p = Some w" "gen_accepts gen_status w"
  shows "extract_json_from gen_status (json_events v) (path_text p) = Inr (True, json_events w)"
  by (rule extract_path [OF assms])

text \<open>What the SQL function is to return for a value.\<close>

fun jget_value ::
  "('n \<Rightarrow> 64 word option) \<Rightarrow> ('n \<Rightarrow> 'f) \<Rightarrow> 'n json \<Rightarrow> ('n, 'f) jget_result" where
  "jget_value scan_int64 scan_double JNull = Jget_null"
| "jget_value scan_int64 scan_double (JBool b) = Jget_int (of_bool b)"
| "jget_value scan_int64 scan_double (JNumber n) =
    (case scan_int64 n of Some i \<Rightarrow> Jget_int (sint (ucast i :: 32 word)) | None \<Rightarrow> Jget_float (scan_double n))"
| "jget_value scan_int64 scan_double (JString s) = Jget_text s"
| "jget_value scan_int64 scan_double v = Jget_json (json_events v)"

lemma feed_sql_value:
  assumes "gen_accepts gen_status w"
  shows "gen @ map snd calls = json_events w \<Longrightarrow> \<forall>(m, _)\<in>set calls. m \<noteq> DONE
    \<Longrightarrow> feed (sql_json_callbacks gen_status scan_int64 scan_double) calls (Sjo_unset, gen)
      = Some (Sjo_unset, json_events w)"
proof (induction calls arbitrary: gen)
  case (Cons c calls)
  obtain m e where c: "c = (m, e)" by fastforce
  have "gen_status gen e = 0" using gen_acceptsD [OF assms] Cons.prems by (simp add: c)
  then show ?case using Cons by (simp add: c gen_callbacks_def sql_json_callbacks_def)
qed simp

text \<open>
  C38: \<open>jget\<close> of a path that leads to a value returns that value as SQL: a scalar in its SQL type and a
  container as the JSON text of its events, under the conditions on the path of the previous claim.
\<close>

theorem jget_returns_value:
  assumes "clear_path v p" "json_lookup v p = Some w" "gen_accepts gen_status w"
    and "jt_events jt = json_events v" "jt_error jt = None"
  shows "sql_jget gen_status scan_int64 scan_double (Some jt) (Some (path_text p))
    = jget_value scan_int64 scan_double w"
proof -
  let ?cb = "sql_json_callbacks gen_status scan_int64 scan_double"
  have r: "\<exists>sjo gen. feed ?cb (found_calls w) (Sjo_unset, []) = Some (sjo, gen)
    \<and> (case sjo of Sjo_text s \<Rightarrow> Jget_text s | Sjo_null \<Rightarrow> Jget_null | Sjo_int i \<Rightarrow> Jget_int (sint (ucast i :: 32 word))
        | Sjo_float f \<Rightarrow> Jget_float f | Sjo_unset \<Rightarrow> if gen = [] then Jget_default else Jget_json gen)
      = jget_value scan_int64 scan_double w"
  proof (cases "is_container w")
    case True
    have "feed ?cb (found_calls w) (Sjo_unset, []) = Some (Sjo_unset, json_events w)"
    proof (rule feed_sql_value [OF assms(3)])
      show "\<forall>(m, _)\<in>set (found_calls w). m \<noteq> DONE" using True by (auto simp: found_calls_def)
    qed (simp add: snd_found_calls)
    moreover have "jget_value scan_int64 scan_double w = Jget_json (json_events w)"
      using True by (cases w) simp_all
    ultimately show ?thesis by simp
  next
    case False
    then show ?thesis
      by (cases w) (auto simp: found_calls_def sql_json_callbacks_def split: option.splits)
  qed
  then obtain sjo gen where f: "feed ?cb (found_calls w) (Sjo_unset, []) = Some (sjo, gen)" by blast
  have "ends_done (parse_events ?cb (json_events v) (json_op_of (path_text p), (Sjo_unset, []))) 0 (sjo, gen)"
    unfolding json_op_of_path
    by (rule parse_path [OF assms(1,2) f]) (simp_all add: json_ptr_of_def)
  then show ?thesis using r f by (auto simp: sql_jget_def ends_done_def assms(4,5))
qed

subsection \<open>Witnesses\<close>

lemma nat_digits_one: "nat_digits (Suc 0) = ''1''"
  by code_simp

definition sample_json :: "nat json" where
  "sample_json = JObject [(''~b'', JArray [JNull, JObject [(''a'', JNumber 5000000000), (''c'', JString ''x'')]]),
     (''d'', JBool True)]"

lemma sample_paths:
  "clear_path sample_json [Key ''~b'', Index 1, Key ''a'']"
  "json_lookup sample_json [Key ''~b'', Index 1, Key ''a''] = Some (JNumber 5000000000)"
  "gen_accepts (\<lambda>_ _. 0) w"
  by (simp_all add: sample_json_def plain_key_def gen_accepts_def)

theorem extract_finds_path_witness:
  "extract_json_from (\<lambda>_ _. 0) (json_events sample_json) ''/~0b/1/a'' = Inr (True, [Ev_number 5000000000])"
  using extract_finds_path [OF sample_paths]
  by (simp add: encode_char_def nat_digits_one)

text \<open>An integer of a JSON document beyond 32 bits comes back truncated.\<close>

theorem jget_returns_value_witness:
  "sql_jget (\<lambda>_ _. 0) (\<lambda>n. Some (of_nat n)) (\<lambda>_. ())
     (Some \<lparr>jt_text = [], jt_events = json_events sample_json, jt_error = None\<rparr>) (Some ''/~0b/1/a'')
   = Jget_int 705032704"
  using jget_returns_value [OF sample_paths,
      of "\<lparr>jt_text = [], jt_events = json_events sample_json, jt_error = None\<rparr>" "\<lambda>n. Some (of_nat n)" "\<lambda>_. ()"]
  by (simp add: encode_char_def nat_digits_one)

text \<open>Three pointers that lead to no value, or to another one, where the conditions do not hold.\<close>

lemma extract_misses_paths:
  "extract_json_from (\<lambda>_ _. 0) (json_events (JObject [(''a'', JNumber (1::nat)), (''abc'', JNumber 2)])) ''/abc''
    = Inr (False, [])"
  "extract_json_from (\<lambda>_ _. 0) (json_events (JArray [JArray [JNumber (5::nat)], JArray [JNumber 7]])) ''/1/0''
    = Inr (True, [Ev_number 5])"
  "extract_json_from (\<lambda>_ _. 0) (json_events (JObject
      [(''a'', JObject [(''x'', JNumber (1::nat))]), (''c'', JObject [(''b'', JNumber 5)])])) ''/a/b''
    = Inr (True, [Ev_number 5])"
  by code_simp+

end
