(* ===== verification/Json_Walk.thy ===== *)
theory Json_Walk
  imports Json_Extract
begin

text \<open>
  The walker that reports every scalar of a JSON document with its pointer
  (\<open>json_ptr_walk\<close> of \<open>src/yajlpp/json_ptr.cc\<close>), against the paths of the document, and
  together with the operation that follows a pointer.
\<close>

section \<open>The walker\<close>

datatype scoped_value =
    Sv_null
  | Sv_bool bool
  | Sv_int "64 word"
  | Sv_float "64 word"
  | Sv_string string

record json_ptr_walk =
  jpw_ptr_str :: string
  jpw_array_indexes :: "int list"
  jpw_components :: "nat list"
  jpw_max_ptr_len :: nat
  jpw_values :: "(string \<times> scoped_value) list"

definition json_ptr_walk_new :: json_ptr_walk where
  "json_ptr_walk_new = \<lparr>jpw_ptr_str = [], jpw_array_indexes = [], jpw_components = [],
     jpw_max_ptr_len = 0, jpw_values = []\<rparr>"

definition resize :: "nat \<Rightarrow> string \<Rightarrow> string" where
  "resize n s = take n s @ replicate (n - length s) (CHR 0x00)"

text \<open>A C string made of a string ends at its first NUL.\<close>

definition c_str :: "string \<Rightarrow> string" where
  "c_str s = takeWhile (\<lambda>c. c \<noteq> CHR 0x00) s"

definition push_component :: "string \<Rightarrow> json_ptr_walk \<Rightarrow> json_ptr_walk" where
  "push_component s jpw =
    (let str = encode_to s (jpw_ptr_str jpw) in
     jpw\<lparr>jpw_ptr_str := str, jpw_components := jpw_components jpw @ [length str]\<rparr>)"

definition push_component_verbatim :: "string \<Rightarrow> json_ptr_walk \<Rightarrow> json_ptr_walk" where
  "push_component_verbatim s jpw =
    (let str = jpw_ptr_str jpw @ s in
     jpw\<lparr>jpw_ptr_str := str, jpw_components := jpw_components jpw @ [length str]\<rparr>)"

definition pop_component :: "json_ptr_walk \<Rightarrow> json_ptr_walk" where
  "pop_component jpw =
    (if jpw_components jpw = [] then jpw
     else let cs = butlast (jpw_components jpw) in
       jpw\<lparr>jpw_ptr_str := (if cs = [] then [] else resize (last cs) (jpw_ptr_str jpw)),
           jpw_components := cs\<rparr>)"

definition inc_array_index :: "json_ptr_walk \<Rightarrow> json_ptr_walk" where
  "inc_array_index jpw =
    (if jpw_array_indexes jpw \<noteq> [] \<and> last (jpw_array_indexes jpw) \<noteq> - 1
     then let i = last (jpw_array_indexes jpw) + 1;
              jpw1 = pop_component (jpw\<lparr>jpw_array_indexes := butlast (jpw_array_indexes jpw) @ [i]\<rparr>);
              str = jpw_ptr_str jpw1 @ dec_str i in
       jpw1\<lparr>jpw_ptr_str := str, jpw_components := jpw_components jpw1 @ [length str]\<rparr>
     else jpw)"

definition current_ptr :: "json_ptr_walk \<Rightarrow> string \<times> json_ptr_walk" where
  "current_ptr jpw =
    (jpw_ptr_str jpw,
     jpw\<lparr>jpw_max_ptr_len := max (jpw_max_ptr_len jpw) (length (jpw_ptr_str jpw))\<rparr>)"

text \<open>The callback of \<open>json_walk_collector\<close>.\<close>

definition jpw_callback :: "string \<Rightarrow> scoped_value \<Rightarrow> json_ptr_walk \<Rightarrow> json_ptr_walk" where
  "jpw_callback ptr sv jpw = jpw\<lparr>jpw_values := jpw_values jpw @ [(ptr, sv)]\<rparr>"

definition walk_scalar :: "scoped_value \<Rightarrow> json_ptr_walk \<Rightarrow> json_ptr_walk" where
  "walk_scalar sv jpw = inc_array_index (jpw_callback (c_str (jpw_ptr_str jpw)) sv jpw)"

definition walk_string :: "(string \<Rightarrow> string) \<Rightarrow> string \<Rightarrow> json_ptr_walk \<Rightarrow> json_ptr_walk" where
  "walk_string gen_string s jpw =
    (let (ptr, jpw1) = current_ptr jpw in inc_array_index (jpw_callback ptr (Sv_string (gen_string s)) jpw1))"

definition walk_start_map :: "json_ptr_walk \<Rightarrow> json_ptr_walk" where
  "walk_start_map jpw =
    (let jpw1 = push_component_verbatim [] (push_component_verbatim ''/'' jpw) in
     jpw1\<lparr>jpw_array_indexes := jpw_array_indexes jpw1 @ [- 1]\<rparr>)"

definition walk_map_key :: "string \<Rightarrow> json_ptr_walk \<Rightarrow> json_ptr_walk" where
  "walk_map_key key jpw = push_component key (pop_component jpw)"

definition walk_end_container :: "json_ptr_walk \<Rightarrow> json_ptr_walk" where
  "walk_end_container jpw =
    (let jpw1 = pop_component (pop_component jpw) in
     inc_array_index (jpw1\<lparr>jpw_array_indexes := butlast (jpw_array_indexes jpw1)\<rparr>))"

definition walk_start_array :: "json_ptr_walk \<Rightarrow> json_ptr_walk" where
  "walk_start_array jpw =
    (let jpw1 = push_component_verbatim ''/'' jpw;
         str = jpw_ptr_str jpw1 @ dec_str 0 in
     jpw1\<lparr>jpw_ptr_str := str, jpw_array_indexes := jpw_array_indexes jpw1 @ [0],
          jpw_components := jpw_components jpw1 @ [length str]\<rparr>)"

text \<open>
  \<open>number\<close> is the parser's choice between an integer and a double, \<open>gen_string\<close> the quoted form of
  a string that the generator writes.
\<close>

definition walk_event ::
  "('n \<Rightarrow> 64 word + 64 word) \<Rightarrow> (string \<Rightarrow> string) \<Rightarrow> json_ptr_walk \<Rightarrow> 'n json_event \<Rightarrow> json_ptr_walk" where
  "walk_event number gen_string jpw e =
    (case e of
       Ev_null \<Rightarrow> walk_scalar Sv_null jpw
     | Ev_bool b \<Rightarrow> walk_scalar (Sv_bool b) jpw
     | Ev_number n \<Rightarrow> (case number n of Inl i \<Rightarrow> walk_scalar (Sv_int i) jpw | Inr f \<Rightarrow> walk_scalar (Sv_float f) jpw)
     | Ev_string s \<Rightarrow> walk_string gen_string s jpw
     | Ev_start_map \<Rightarrow> walk_start_map jpw
     | Ev_map_key key \<Rightarrow> walk_map_key key jpw
     | Ev_end_map \<Rightarrow> walk_end_container jpw
     | Ev_start_array \<Rightarrow> walk_start_array jpw
     | Ev_end_array \<Rightarrow> walk_end_container jpw)"

definition json_walk ::
  "('n \<Rightarrow> 64 word + 64 word) \<Rightarrow> (string \<Rightarrow> string) \<Rightarrow> 'n json_event list \<Rightarrow> json_ptr_walk" where
  "json_walk number gen_string es = foldl (walk_event number gen_string) json_ptr_walk_new es"

section \<open>The scalars of a document and their paths\<close>

fun leaf_paths :: "'n json \<Rightarrow> (path_step list \<times> 'n json) list" where
  "leaf_paths (JArray vs) =
    concat (map (\<lambda>(i, ls). map (\<lambda>(p, w). (Index i # p, w)) ls) (enumerate 0 (map leaf_paths vs)))"
| "leaf_paths (JObject kvs) =
    concat (map (\<lambda>(k, v). map (\<lambda>(p, w). (Key k # p, w)) (leaf_paths v)) kvs)"
| "leaf_paths v = [([], v)]"

fun scalar_value :: "('n \<Rightarrow> 64 word + 64 word) \<Rightarrow> (string \<Rightarrow> string) \<Rightarrow> 'n json \<Rightarrow> scoped_value" where
  "scalar_value number gen_string (JBool b) = Sv_bool b"
| "scalar_value number gen_string (JNumber n) = (case number n of Inl i \<Rightarrow> Sv_int i | Inr f \<Rightarrow> Sv_float f)"
| "scalar_value number gen_string (JString s) = Sv_string (gen_string s)"
| "scalar_value number gen_string _ = Sv_null"

text \<open>The pointer of a string is passed on whole, the others as C strings.\<close>

fun reported_ptr :: "'n json \<Rightarrow> string \<Rightarrow> string" where
  "reported_ptr (JString s) ptr = ptr"
| "reported_ptr _ ptr = c_str ptr"

definition reports ::
  "('n \<Rightarrow> 64 word + 64 word) \<Rightarrow> (string \<Rightarrow> string) \<Rightarrow> string \<Rightarrow> (path_step list \<times> 'n json) list
    \<Rightarrow> (string \<times> scoped_value) list" where
  "reports number gen_string ptr ls =
    map (\<lambda>(p, w). (reported_ptr w (ptr @ path_text p), scalar_value number gen_string w)) ls"

lemma reports_simps [simp]:
  "reports number gen_string ptr [] = []"
  "reports number gen_string ptr (xs @ ys) = reports number gen_string ptr xs @ reports number gen_string ptr ys"
  by (simp_all add: reports_def)

lemma reports_step:
  "reports number gen_string ptr (map (\<lambda>(p, w). (x # p, w)) ls) = reports number gen_string (ptr @ step_text x) ls"
  by (simp add: reports_def comp_def case_prod_beta)

subsection \<open>The walker's state at a value\<close>

text \<open>The components are the lengths of the pointer's prefixes, the last of the whole of it.\<close>

definition components_of :: "nat list \<Rightarrow> string \<Rightarrow> bool" where
  "components_of cs ptr \<longleftrightarrow> (if cs = [] then ptr = [] else last cs = length ptr)"

abbreviation jpw_at :: "string \<Rightarrow> int list \<Rightarrow> nat list \<Rightarrow> nat \<Rightarrow> (string \<times> scoped_value) list \<Rightarrow> json_ptr_walk" where
  "jpw_at ptr idx cs m vals \<equiv> \<lparr>jpw_ptr_str = ptr, jpw_array_indexes = idx, jpw_components = cs,
     jpw_max_ptr_len = m, jpw_values = vals\<rparr>"

text \<open>The state in a container at \<open>ptr\<close>, with the text of the current component.\<close>

abbreviation jpw_in ::
  "string \<Rightarrow> string \<Rightarrow> int \<Rightarrow> int list \<Rightarrow> nat list \<Rightarrow> nat \<Rightarrow> (string \<times> scoped_value) list \<Rightarrow> json_ptr_walk" where
  "jpw_in ptr part i idx cs m vals \<equiv>
    jpw_at (ptr @ CHR 0x2F # part) (idx @ [i]) (cs @ [Suc (length ptr), Suc (length ptr + length part)]) m vals"

lemma resize_prefix [simp]: "resize (length s) (s @ t) = s" "resize (Suc (length s)) (s @ c # t) = s @ [c]"
  by (simp_all add: resize_def)

lemma pop_component_in:
  "pop_component (jpw_in ptr part i idx cs m vals)
    = jpw_at (ptr @ ''/'') (idx @ [i]) (cs @ [Suc (length ptr)]) m vals"
  by (simp add: pop_component_def butlast_append)

lemma walk_map_key_in:
  "walk_map_key k (jpw_in ptr part i idx cs m vals) = jpw_in ptr (encode k) i idx cs m vals"
  by (simp add: walk_map_key_def pop_component_in push_component_def Let_def encode_to_eq)

lemma walk_start_map_at:
  "walk_start_map (jpw_at ptr idx cs m vals) = jpw_in ptr [] (- 1) idx cs m vals"
  by (simp add: walk_start_map_def push_component_verbatim_def Let_def)

lemma walk_start_array_at:
  "walk_start_array (jpw_at ptr idx cs m vals) = jpw_in ptr (nat_digits 0) 0 idx cs m vals"
  by (simp add: walk_start_array_def push_component_verbatim_def Let_def dec_str_def)

lemma inc_array_index_in_array:
  "inc_array_index (jpw_in ptr part (int i) idx cs m vals)
    = jpw_in ptr (nat_digits (Suc i)) (int (Suc i)) idx cs m vals"
proof -
  have "dec_str (int i + 1) = nat_digits (Suc i)" by (simp add: dec_str_def nat_add_distrib)
  moreover have "pop_component (jpw_in ptr part (int i + 1) idx cs m vals)
      = jpw_at (ptr @ ''/'') (idx @ [int i + 1]) (cs @ [Suc (length ptr)]) m vals"
    by (rule pop_component_in)
  ultimately show ?thesis by (simp add: inc_array_index_def Let_def add.commute)
qed

lemma inc_array_index_in_map:
  "inc_array_index (jpw_in ptr part (- 1) idx cs m vals) = jpw_in ptr part (- 1) idx cs m vals"
  by (simp add: inc_array_index_def)

lemma walk_end_container_in:
  assumes "components_of cs ptr"
  shows "walk_end_container (jpw_in ptr part i idx cs m vals) = inc_array_index (jpw_at ptr idx cs m vals)"
proof -
  have "pop_component (jpw_at (ptr @ ''/'') (idx @ [i]) (cs @ [Suc (length ptr)]) m vals)
      = jpw_at ptr (idx @ [i]) cs m vals"
    using assms by (auto simp: pop_component_def Let_def components_of_def)
  then show ?thesis by (simp add: walk_end_container_def pop_component_in Let_def)
qed

text \<open>What a walk over the events of a value does.\<close>

definition walks_to ::
  "('n \<Rightarrow> 64 word + 64 word) \<Rightarrow> (string \<Rightarrow> string) \<Rightarrow> 'n json_event list \<Rightarrow> json_ptr_walk
    \<Rightarrow> (nat \<Rightarrow> (string \<times> scoped_value) list \<Rightarrow> json_ptr_walk) \<Rightarrow> (string \<times> scoped_value) list \<Rightarrow> bool" where
  "walks_to number gen_string es jpw st vals \<longleftrightarrow>
    (\<exists>m. foldl (walk_event number gen_string) jpw es = st m (jpw_values jpw @ vals))"

lemma walks_to_append:
  assumes "walks_to number gen_string xs jpw st1 vals1"
    and "\<And>m vals. walks_to number gen_string ys (st1 m vals) st2 vals2"
    and "\<And>m vals. jpw_values (st1 m vals) = vals"
  shows "walks_to number gen_string (xs @ ys) jpw st2 (vals1 @ vals2)"
proof -
  obtain m where "foldl (walk_event number gen_string) jpw xs = st1 m (jpw_values jpw @ vals1)"
    using assms(1) unfolding walks_to_def by blast
  then show ?thesis using assms(2) [of m "jpw_values jpw @ vals1"] by (simp add: walks_to_def assms(3))
qed

lemma components_of_in: "components_of (cs @ [Suc (length ptr), Suc (length ptr + length part)]) (ptr @ CHR 0x2F # part)"
  by (simp add: components_of_def)

lemma walk_elements:
  assumes "\<And>v ptr idx cs m vals. v \<in> set vs \<Longrightarrow> components_of cs ptr \<Longrightarrow>
      walks_to number gen_string (json_events v) (jpw_at ptr idx cs m vals)
        (\<lambda>m vals. inc_array_index (jpw_at ptr idx cs m vals)) (reports number gen_string ptr (leaf_paths v))"
  shows "walks_to number gen_string (concat (map json_events vs)) (jpw_in ptr (nat_digits i) (int i) idx cs m vals)
      (\<lambda>m vals. jpw_in ptr (nat_digits (i + length vs)) (int (i + length vs)) idx cs m vals)
      (reports number gen_string ptr (concat (map (\<lambda>(i, ls). map (\<lambda>(p, w). (Index i # p, w)) ls)
        (enumerate i (map leaf_paths vs)))))"
  using assms
proof (induction vs arbitrary: i m vals)
  case Nil
  show ?case by (simp add: walks_to_def)
next
  case (Cons v vs)
  have v: "walks_to number gen_string (json_events v) (jpw_in ptr (nat_digits i) (int i) idx cs m vals)
      (\<lambda>m vals. jpw_in ptr (nat_digits (Suc i)) (int (Suc i)) idx cs m vals)
      (reports number gen_string (ptr @ CHR 0x2F # nat_digits i) (leaf_paths v))"
    using Cons.prems [of v "cs @ [Suc (length ptr), Suc (length ptr + length (nat_digits i))]"
        "ptr @ CHR 0x2F # nat_digits i" "idx @ [int i]" m vals]
    by (simp only: inc_array_index_in_array components_of_in list.set_intros simp_thms)
  have "walks_to number gen_string (concat (map json_events vs))
      (jpw_in ptr (nat_digits (Suc i)) (int (Suc i)) idx cs m' vals')
      (\<lambda>m vals. jpw_in ptr (nat_digits (Suc i + length vs)) (int (Suc i + length vs)) idx cs m vals)
      (reports number gen_string ptr (concat (map (\<lambda>(i, ls). map (\<lambda>(p, w). (Index i # p, w)) ls)
        (enumerate (Suc i) (map leaf_paths vs)))))" for m' vals'
    using Cons.prems by (intro Cons.IH) simp
  from walks_to_append [OF v this] show ?case by (simp add: reports_step add.commute)
qed

lemma walk_members:
  assumes "\<And>k v ptr idx cs m vals. (k, v) \<in> set kvs \<Longrightarrow> components_of cs ptr \<Longrightarrow>
      walks_to number gen_string (json_events v) (jpw_at ptr idx cs m vals)
        (\<lambda>m vals. inc_array_index (jpw_at ptr idx cs m vals)) (reports number gen_string ptr (leaf_paths v))"
  shows "walks_to number gen_string (concat (map (\<lambda>(k, v). Ev_map_key k # json_events v) kvs))
      (jpw_in ptr part (- 1) idx cs m vals)
      (\<lambda>m vals. jpw_in ptr (foldl (\<lambda>_ (k, _). encode k) part kvs) (- 1) idx cs m vals)
      (reports number gen_string ptr
        (concat (map (\<lambda>(k, v). map (\<lambda>(p, w). (Key k # p, w)) (leaf_paths v)) kvs)))"
  using assms
proof (induction kvs arbitrary: part m vals)
  case Nil
  show ?case by (auto simp: walks_to_def)
next
  case (Cons kv kvs)
  obtain k v where kv: "kv = (k, v)" by fastforce
  have v: "walks_to number gen_string (json_events v) (jpw_in ptr (encode k) (- 1) idx cs m vals)
      (\<lambda>m vals. jpw_in ptr (encode k) (- 1) idx cs m vals)
      (reports number gen_string (ptr @ CHR 0x2F # encode k) (leaf_paths v))" for m vals
    using Cons.prems [of k v "cs @ [Suc (length ptr), Suc (length ptr + length (encode k))]"
        "ptr @ CHR 0x2F # encode k" "idx @ [- 1]" m vals]
    by (simp only: inc_array_index_in_map components_of_in list.set_intros simp_thms kv)
  have k: "walks_to number gen_string (Ev_map_key k # json_events v) (jpw_in ptr part (- 1) idx cs m vals)
      (\<lambda>m vals. jpw_in ptr (encode k) (- 1) idx cs m vals)
      (reports number gen_string (ptr @ CHR 0x2F # encode k) (leaf_paths v))"
    using v [of m vals] by (simp add: walks_to_def walk_event_def walk_map_key_in)
  have "walks_to number gen_string (concat (map (\<lambda>(k, v). Ev_map_key k # json_events v) kvs))
      (jpw_in ptr (encode k) (- 1) idx cs m' vals')
      (\<lambda>m vals. jpw_in ptr (foldl (\<lambda>_ (k, _). encode k) (encode k) kvs) (- 1) idx cs m vals)
      (reports number gen_string ptr
        (concat (map (\<lambda>(k, v). map (\<lambda>(p, w). (Key k # p, w)) (leaf_paths v)) kvs)))" for m' vals'
    by (rule Cons.IH) (rule Cons.prems, rule list.set_intros(2), assumption+)
  from walks_to_append [OF k this] show ?case by (simp add: reports_step kv)
qed

text \<open>The events of a container around those of its content.\<close>

lemma walks_to_container:
  assumes "walk_event number gen_string (jpw_at ptr idx cs m vals) open_ev = jpw_in ptr part i idx cs m vals"
    and "\<And>m vals. walks_to number gen_string body (jpw_in ptr part i idx cs m vals)
        (\<lambda>m vals. jpw_in ptr part' i' idx cs m vals) rs"
    and "\<And>jpw. walk_event number gen_string jpw close_ev = walk_end_container jpw"
    and "components_of cs ptr"
  shows "walks_to number gen_string (open_ev # body @ [close_ev]) (jpw_at ptr idx cs m vals)
    (\<lambda>m vals. inc_array_index (jpw_at ptr idx cs m vals)) rs"
  using assms(1) assms(2) [of m vals]
  by (auto simp: walks_to_def assms(3) walk_end_container_in [OF assms(4)])

lemma walk_value:
  "components_of cs ptr \<Longrightarrow>
    walks_to number gen_string (json_events v) (jpw_at ptr idx cs m vals)
      (\<lambda>m vals. inc_array_index (jpw_at ptr idx cs m vals)) (reports number gen_string ptr (leaf_paths v))"
proof (induction v arbitrary: ptr idx cs m vals)
  case (JArray vs)
  have "walks_to number gen_string (concat (map json_events vs)) (jpw_in ptr (nat_digits 0) (int 0) idx cs m vals)
      (\<lambda>m vals. jpw_in ptr (nat_digits (0 + length vs)) (int (0 + length vs)) idx cs m vals)
      (reports number gen_string ptr (leaf_paths (JArray vs)))" for m vals
    unfolding leaf_paths.simps by (rule walk_elements) (rule JArray.IH)
  note content = this
  show ?case unfolding json_events.simps
    by (rule walks_to_container [OF _ content _ JArray.prems]) (simp_all add: walk_event_def walk_start_array_at)
next
  case (JObject kvs)
  have "walks_to number gen_string (concat (map (\<lambda>(k, v). Ev_map_key k # json_events v) kvs))
      (jpw_in ptr [] (- 1) idx cs m vals)
      (\<lambda>m vals. jpw_in ptr (foldl (\<lambda>_ (k, _). encode k) [] kvs) (- 1) idx cs m vals)
      (reports number gen_string ptr (leaf_paths (JObject kvs)))" for m vals
    unfolding leaf_paths.simps by (rule walk_members) (auto intro!: JObject.IH simp: snds.simps)
  note content = this
  show ?case unfolding json_events.simps
    by (rule walks_to_container [OF _ content _ JObject.prems]) (simp_all add: walk_event_def walk_start_map_at)
qed (auto simp: walks_to_def walk_event_def walk_scalar_def walk_string_def jpw_callback_def current_ptr_def
    reports_def Let_def split: sum.splits)

lemma json_walk_result:
  "\<exists>m. json_walk number gen_string (json_events v)
    = jpw_at [] [] [] m (reports number gen_string [] (leaf_paths v))"
  using walk_value [of "[]" "[]" number gen_string v "[]" 0 "[]"]
  by (auto simp: components_of_def walks_to_def json_walk_def json_ptr_walk_new_def inc_array_index_def)

lemma json_walk_values:
  "jpw_values (json_walk number gen_string (json_events v)) = reports number gen_string [] (leaf_paths v)"
  using json_walk_result [of number gen_string v] by auto

section \<open>Properties\<close>

text \<open>
  C39: The walker reports every scalar of a document once and in order, under the text of its path (up to a
  NUL for scalars that are not strings), and has popped every component and index at the end.
\<close>

theorem walk_reports_leaves:
  "jpw_values (json_walk number gen_string (json_events v)) = reports number gen_string [] (leaf_paths v)
    \<and> jpw_ptr_str (json_walk number gen_string (json_events v)) = []
    \<and> jpw_components (json_walk number gen_string (json_events v)) = []
    \<and> jpw_array_indexes (json_walk number gen_string (json_events v)) = []"
  using json_walk_result [of number gen_string v] by auto

subsection \<open>The paths of a document lead to its scalars\<close>

text \<open>
  A document whose pointers all can be followed: in each object no key is a prefix of a later one, the
  keys are plain, and no array holds an array.
\<close>

fun followable :: "'n json \<Rightarrow> bool" where
  "followable (JArray vs) \<longleftrightarrow> (\<forall>v\<in>set vs. \<not> is_array v \<and> followable v)"
| "followable (JObject kvs) \<longleftrightarrow>
    sorted_wrt (\<lambda>(k, _) (k', _). \<not> prefix k k') kvs \<and> (\<forall>(k, v)\<in>set kvs. plain_key k \<and> followable v)"
| "followable _ \<longleftrightarrow> True"

lemma takeWhile_distinct:
  "sorted_wrt (\<lambda>(k, _) (k', _). \<not> prefix k k') kvs \<Longrightarrow> (k, v) \<in> set kvs
    \<Longrightarrow> map_of kvs k = Some v \<and> (\<forall>(k', _)\<in>set (takeWhile (\<lambda>(k', _). k' \<noteq> k) kvs). \<not> prefix k' k)"
  by (induction kvs) auto

lemma leaf_paths_lead:
  "followable v \<Longrightarrow> (p, w) \<in> set (leaf_paths v) \<Longrightarrow>
    clear_path v p \<and> json_lookup v p = Some w \<and> CHR 0x00 \<notin> set (path_text p) \<and> \<not> is_container w"
proof (induction v arbitrary: p rule: followable.induct)
  case (1 vs)
  obtain i q where iq: "p = Index i # q" "i < length vs" "(q, w) \<in> set (leaf_paths (vs ! i))"
    using 1(3) by (auto simp: in_set_enumerate_eq)
  have v: "vs ! i \<in> set vs" using iq(2) by simp
  have "\<not> isdigit (CHR 0x00)" by (simp add: isdigit_def schar_def)
  then have "CHR 0x00 \<notin> set (nat_digits i)" using nat_digits_isdigit by blast
  moreover have "\<forall>u\<in>set (take i vs). \<not> is_array u" using 1(2) set_take_subset [of i vs] by auto
  ultimately show ?case using 1(1) [OF v _ iq(3)] 1(2) v iq(1,2) by auto
next
  case (2 kvs)
  obtain k u q where kq: "p = Key k # q" "(k, u) \<in> set kvs" "(q, w) \<in> set (leaf_paths u)"
    using 2(3) by auto
  have k: "plain_key k" "followable u" using 2(2) kq(2) by auto
  have enc: "CHR 0x00 \<notin> set (encode k)"
    using k(1) unfolding plain_key_def encode_def by (auto simp: encode_char_def split: if_splits)
  have plain: "CHR 0x00 \<notin> set k'" if "(k', v') \<in> set (takeWhile (\<lambda>(k', _). k' \<noteq> k) kvs)" for k' v'
    using set_takeWhileD [OF that] 2(2) by (auto simp: plain_key_def)
  show ?case
    using 2(1) [OF kq(2) refl k(2) kq(3)] takeWhile_distinct [of kvs k u] 2(2) kq(1,2) k(1) enc plain
    by fastforce
qed simp_all

lemma c_str_plain: "CHR 0x00 \<notin> set s \<Longrightarrow> c_str s = s"
  by (auto simp: c_str_def takeWhile_eq_all_conv)

lemma reported_ptr_plain: "CHR 0x00 \<notin> set s \<Longrightarrow> reported_ptr w s = s"
  by (cases w) (simp_all add: c_str_plain)

text \<open>
  C25: The two sides agree: in a document whose pointers can be followed, every pointer that the walker
  reports leads \<open>extract_json_from\<close> to the scalar that was reported with it.
\<close>

theorem reported_pointers_lead_back:
  assumes "followable v" "(ptr, sv) \<in> set (jpw_values (json_walk number gen_string (json_events v)))"
    and "\<forall>w. gen_accepts gen_status w"
  shows "\<exists>w. sv = scalar_value number gen_string w \<and> \<not> is_container w
    \<and> extract_json_from gen_status (json_events v) ptr = Inr (True, json_events w)"
proof -
  obtain p w where pw: "(p, w) \<in> set (leaf_paths v)" "ptr = reported_ptr w (path_text p)"
      "sv = scalar_value number gen_string w"
    using assms(2) unfolding json_walk_values by (auto simp: reports_def)
  note lead = leaf_paths_lead [OF assms(1) pw(1)]
  have "extract_json_from gen_status (json_events v) (path_text p) = Inr (True, json_events w)"
    using lead assms(3) by (intro extract_path) auto
  moreover have "ptr = path_text p" using reported_ptr_plain lead pw(2) by auto
  ultimately show ?thesis using lead pw(3) by (intro exI [of _ w]) simp
qed

theorem reported_pointers_lead_back_witness:
  "\<exists>w. Sv_int 5000000000 = scalar_value (\<lambda>n. Inl (of_nat n)) (\<lambda>s. s) w \<and> \<not> is_container w
    \<and> extract_json_from (\<lambda>_ _. 0) (json_events sample_json) ''/~0b/1/a'' = Inr (True, json_events w)"
proof (rule reported_pointers_lead_back)
  show "followable sample_json" by (simp add: sample_json_def plain_key_def)
  show "(''/~0b/1/a'', Sv_int 5000000000)
      \<in> set (jpw_values (json_walk (\<lambda>n. Inl (of_nat n)) (\<lambda>s. s) (json_events sample_json)))"
    unfolding json_walk_values
    by (simp add: reports_def sample_json_def encode_char_def enumerate_eq_zip nat_digits_one c_str_def)
  show "\<forall>w :: nat json. gen_accepts (\<lambda>_ _. 0) w" by (simp add: gen_accepts_def)
qed

end
