(* ===== verification/Hist_Source.thy ===== *)
theory Hist_Source
  imports Log_Source Complex_Main
begin

text \<open>
  The histogram of the messages (\<open>src/hist_source.cc\<close>, \<open>src/hist_source.hh\<close>) and the index delegate
  that feeds it (\<open>src/view_helpers.cc\<close>): one row for each slice of time with a message, and an
  empty row where slices are left out. A count is a double in the code and a rational here. Times
  are microseconds; only the difference to the time of the last row can overflow, and wraps.
\<close>

section \<open>The chart of the values\<close>

datatype hist_type = Hist_normal | Hist_warning | Hist_error | Hist_mark

definition hist_types :: "hist_type list" where
  "hist_types = [Hist_normal, Hist_warning, Hist_error, Hist_mark]"

datatype show_state = Show_none | Show_all | Show_one nat

datatype direction = Forward | Backward

text \<open>The limits of a double: \<open>min()\<close> is the least positive normal number.\<close>

definition DBL_MAX :: rat where
  "DBL_MAX = (2 - 1 / 2 ^ 52) * 2 ^ 1023"

definition DBL_MIN :: rat where
  "DBL_MIN = 1 / 2 ^ 1022"

record bucket_stats =
  bs_min_value :: rat
  bs_max_value :: rat

definition bucket_stats_new :: bucket_stats where
  "bucket_stats_new = \<lparr>bs_min_value = DBL_MAX, bs_max_value = DBL_MIN\<rparr>"

definition stats_update :: "rat \<Rightarrow> bucket_stats \<Rightarrow> bucket_stats" where
  "stats_update v bs = \<lparr>bs_min_value = min (bs_min_value bs) v, bs_max_value = max (bs_max_value bs) v\<rparr>"

record chart_ident =
  ci_ident :: hist_type
  ci_stats :: bucket_stats
  ci_last_seen_row :: int

record stacked_bar_chart =
  sbc_idents :: "chart_ident list"
  sbc_ident_lookup :: "hist_type \<Rightarrow> nat option"
  sbc_show_state :: show_state
  sbc_row_counter :: int
  sbc_row_sum :: rat
  sbc_row_items :: nat
  sbc_max_row_value :: rat
  sbc_max_row_items :: nat

definition chart_new :: stacked_bar_chart where
  "chart_new = \<lparr>sbc_idents = [], sbc_ident_lookup = (\<lambda>_. None), sbc_show_state = Show_none,
     sbc_row_counter = 0, sbc_row_sum = 0, sbc_row_items = 0, sbc_max_row_value = 0, sbc_max_row_items = 0\<rparr>"

text \<open>The row counter is not reset.\<close>

definition chart_clear :: "stacked_bar_chart \<Rightarrow> stacked_bar_chart" where
  "chart_clear c = c\<lparr>sbc_idents := [], sbc_ident_lookup := (\<lambda>_. None), sbc_show_state := Show_none,
     sbc_row_sum := 0, sbc_row_items := 0, sbc_max_row_value := 0, sbc_max_row_items := 0\<rparr>"

definition find_ident :: "hist_type \<Rightarrow> stacked_bar_chart \<Rightarrow> stacked_bar_chart \<times> nat" where
  "find_ident ident c =
    (case sbc_ident_lookup c ident of
       Some i \<Rightarrow> (c, i)
     | None \<Rightarrow> let i = length (sbc_idents c) in
         (c\<lparr>sbc_idents := sbc_idents c
              @ [\<lparr>ci_ident = ident, ci_stats = bucket_stats_new, ci_last_seen_row = - 1\<rparr>],
            sbc_ident_lookup := (sbc_ident_lookup c)(ident := Some i)\<rparr>, i))"

definition chart_add_value :: "hist_type \<Rightarrow> rat \<Rightarrow> stacked_bar_chart \<Rightarrow> stacked_bar_chart" where
  "chart_add_value ident amount c =
    (let (c, i) = find_ident ident c;
         ci = sbc_idents c ! i;
         fresh = (ci_last_seen_row ci \<noteq> sbc_row_counter c);
         ci = ci\<lparr>ci_stats := stats_update amount (ci_stats ci),
                 ci_last_seen_row := (if fresh then sbc_row_counter c else ci_last_seen_row ci)\<rparr>
     in c\<lparr>sbc_idents := (sbc_idents c)[i := ci],
          sbc_row_sum := sbc_row_sum c + amount,
          sbc_row_items := (if fresh then sbc_row_items c + 1 else sbc_row_items c)\<rparr>)"

definition next_row :: "stacked_bar_chart \<Rightarrow> stacked_bar_chart" where
  "next_row c =
    c\<lparr>sbc_row_counter := sbc_row_counter c + 1,
      sbc_row_sum := 0,
      sbc_row_items := 0,
      sbc_max_row_value :=
        (if sbc_row_sum c > sbc_max_row_value c then sbc_row_sum c else sbc_max_row_value c),
      sbc_max_row_items :=
        (if sbc_row_items c > sbc_max_row_items c then sbc_row_items c else sbc_max_row_items c)\<rparr>"

definition show_next_ident :: "direction \<Rightarrow> stacked_bar_chart \<Rightarrow> stacked_bar_chart" where
  "show_next_ident dir c =
    (let n = length (sbc_idents c) in
     if n = 0 then c
     else c\<lparr>sbc_show_state :=
       (case sbc_show_state c of
          Show_none \<Rightarrow>
            (case dir of Forward \<Rightarrow> if n = 1 then Show_all else Show_one 0 | Backward \<Rightarrow> Show_all)
        | Show_one i \<Rightarrow>
            (case dir of Forward \<Rightarrow> if i + 1 = n then Show_all else Show_one (i + 1)
             | Backward \<Rightarrow> if i = 0 then Show_none else Show_one (i - 1))
        | Show_all \<Rightarrow>
            (case dir of Forward \<Rightarrow> Show_none
             | Backward \<Rightarrow> if n = 1 then Show_none else Show_one (n - 1)))\<rparr>)"

section \<open>Buckets\<close>

definition BLOCK_SIZE :: nat where
  "BLOCK_SIZE = 100"

record hist_bucket =
  b_time :: int
  b_values :: "hist_type \<Rightarrow> rat"

record bucket_block =
  bb_used :: nat
  bb_buckets :: "hist_bucket list"

record hist_source =
  hs_time_slice :: int
  hs_line_count :: int
  hs_current_row :: int
  hs_last_ts :: int
  hs_blocks :: "bucket_block list"
  hs_chart :: stacked_bar_chart
  hs_needs_flush :: bool
  hs_bookmarks :: "mark_type \<Rightarrow> bookmark_vector"

definition bucket_new :: hist_bucket where
  "bucket_new = \<lparr>b_time = 0, b_values = (\<lambda>_. 0)\<rparr>"

definition block_new :: bucket_block where
  "block_new = \<lparr>bb_used = 0, bb_buckets = replicate BLOCK_SIZE bucket_new\<rparr>"

definition bucket_empty :: "hist_bucket \<Rightarrow> bool" where
  "bucket_empty b \<longleftrightarrow> \<not> list_ex (\<lambda>h. b_values b h > 0) hist_types"

text \<open>Finding a bucket makes it one of the rows; its reference is read and written below.\<close>

definition find_bucket :: "int \<Rightarrow> hist_source \<Rightarrow> hist_source" where
  "find_bucket index hs =
    (let bi = nat index div BLOCK_SIZE;
         ii = nat index mod BLOCK_SIZE;
         blocks = (if bi \<ge> length (hs_blocks hs)
           then hs_blocks hs @ replicate (bi + 1 - length (hs_blocks hs)) block_new
           else hs_blocks hs);
         bb = blocks ! bi
     in hs\<lparr>hs_line_count := max (hs_line_count hs) (index + 1),
           hs_blocks := blocks[bi := bb\<lparr>bb_used := max ii (bb_used bb)\<rparr>]\<rparr>)"

definition bucket_at :: "int \<Rightarrow> hist_source \<Rightarrow> hist_bucket" where
  "bucket_at index hs = bb_buckets (hs_blocks hs ! (nat index div BLOCK_SIZE)) ! (nat index mod BLOCK_SIZE)"

definition write_bucket :: "int \<Rightarrow> (hist_bucket \<Rightarrow> hist_bucket) \<Rightarrow> hist_source \<Rightarrow> hist_source" where
  "write_bucket index f hs =
    (let bi = nat index div BLOCK_SIZE; ii = nat index mod BLOCK_SIZE; bb = hs_blocks hs ! bi in
     hs\<lparr>hs_blocks := (hs_blocks hs)[bi := bb\<lparr>bb_buckets := (bb_buckets bb)[ii := f (bb_buckets bb ! ii)]\<rparr>]\<rparr>)"

definition update_bucket :: "int \<Rightarrow> (hist_bucket \<Rightarrow> hist_bucket) \<Rightarrow> hist_source \<Rightarrow> hist_source" where
  "update_bucket index f hs = write_bucket index f (find_bucket index hs)"

section \<open>The histogram\<close>

definition rounddown :: "int \<Rightarrow> int \<Rightarrow> int" where
  "rounddown n step = n - n smod step"

definition MIN_TS :: int where
  "MIN_TS = - (2 ^ 63)"

definition wrap64 :: "int \<Rightarrow> int" where
  "wrap64 x = sint (word_of_int x :: 64 word)"

definition hist_init :: "hist_source \<Rightarrow> hist_source" where
  "hist_init hs =
    hs\<lparr>hs_chart := fold (\<lambda>h c. fst (find_ident h c)) [Hist_normal, Hist_warning, Hist_error, Hist_mark]
        ((hs_chart hs)\<lparr>sbc_show_state := Show_all\<rparr>)\<rparr>"

definition hist_clear :: "hist_source \<Rightarrow> hist_source" where
  "hist_clear hs =
    hist_init (hs\<lparr>hs_line_count := 0, hs_current_row := - 1, hs_last_ts := MIN_TS, hs_blocks := [],
      hs_chart := chart_clear (hs_chart hs), hs_bookmarks := (\<lambda>_. bv_empty)\<rparr>)"

definition hist_new :: hist_source where
  "hist_new = hist_clear \<lparr>hs_time_slice = 60000000, hs_line_count = 0, hs_current_row = 0, hs_last_ts = 0,
     hs_blocks = [], hs_chart = chart_new, hs_needs_flush = False, hs_bookmarks = (\<lambda>_. bv_empty)\<rparr>"

definition set_time_slice :: "int \<Rightarrow> hist_source \<Rightarrow> hist_source" where
  "set_time_slice step hs = hs\<lparr>hs_time_slice := step\<rparr>"

definition mark_of :: "hist_type \<Rightarrow> mark_type option" where
  "mark_of h = (case h of Hist_warning \<Rightarrow> Some BM_WARNINGS | Hist_error \<Rightarrow> Some BM_ERRORS
     | Hist_mark \<Rightarrow> Some BM_META | Hist_normal \<Rightarrow> None)"

definition end_of_value :: "hist_type \<Rightarrow> hist_source \<Rightarrow> hist_source" where
  "end_of_value h hs =
    (let v = b_values (bucket_at (hs_current_row hs) hs) h;
         hs = hs\<lparr>hs_chart := chart_add_value h v (hs_chart hs)\<rparr>
     in if v > 0
        then (case mark_of h of
            None \<Rightarrow> hs
          | Some bt \<Rightarrow> hs\<lparr>hs_bookmarks := (hs_bookmarks hs)
                (bt := fst (insert_once (hs_current_row hs) (hs_bookmarks hs bt)))\<rparr>)
        else hs)"

definition end_of_row :: "hist_source \<Rightarrow> hist_source" where
  "end_of_row hs =
    (if hs_current_row hs \<ge> 0
     then let hs = fold end_of_value hist_types (find_bucket (hs_current_row hs) hs) in
       hs\<lparr>hs_chart := next_row (hs_chart hs)\<rparr>
     else hs)"

definition start_row :: "int \<Rightarrow> hist_source \<Rightarrow> hist_source" where
  "start_row ts hs =
    (let hs = end_of_row hs;
         diff = wrap64 (ts - hs_last_ts hs);
         hs = (if diff > hs_time_slice hs
           then let row = hs_current_row hs + 1;
                    hs = update_bucket row (\<lambda>b. b\<lparr>b_time := hs_last_ts hs + hs_time_slice hs\<rparr>)
                      (hs\<lparr>hs_current_row := row\<rparr>)
                in hs\<lparr>hs_line_count := hs_line_count hs + 1\<rparr>
           else hs)
     in hs\<lparr>hs_current_row := hs_current_row hs + 1, hs_last_ts := ts\<rparr>)"

text \<open>\<open>None\<close> is the failed check that the times do not go back.\<close>

definition hist_add_value :: "int \<Rightarrow> hist_type \<Rightarrow> rat \<Rightarrow> hist_source \<Rightarrow> hist_source option" where
  "hist_add_value ts0 htype v hs =
    (if ts0 < hs_last_ts hs then None
     else let ts = rounddown ts0 (hs_time_slice hs);
              hs = (if ts \<noteq> hs_last_ts hs then start_row ts hs else hs);
              hs = update_bucket (hs_current_row hs)
                (\<lambda>b. b\<lparr>b_time := ts, b_values := (b_values b)(htype := b_values b htype + v)\<rparr>) hs
          in Some (hs\<lparr>hs_needs_flush := True\<rparr>))"

definition hist_time_for_row :: "int \<Rightarrow> hist_source \<Rightarrow> (tv \<times> int) option" where
  "hist_time_for_row row hs =
    (if row < 0 \<or> row \<ge> hs_line_count hs then None
     else Some ((b_time (bucket_at row (find_bucket row hs)) sdiv 1000000, 0), row))"

fun row_in_block :: "int \<Rightarrow> nat \<Rightarrow> hist_bucket list \<Rightarrow> nat option" where
  "row_in_block t k [] = None"
| "row_in_block t k (b # bs) = (if t \<le> b_time b then Some k else row_in_block t (k + 1) bs)"

fun row_in_blocks :: "int \<Rightarrow> nat \<Rightarrow> bucket_block list \<Rightarrow> nat option" where
  "row_in_blocks t k [] = None"
| "row_in_blocks t k (bb # bbs) =
    (if t < b_time (bb_buckets bb ! 0) then None
     else if t > b_time (bb_buckets bb ! bb_used bb) then row_in_blocks t (k + bb_used bb + 1) bbs
     else (case row_in_block t k (take (bb_used bb + 1) (bb_buckets bb)) of
         Some row \<Rightarrow> Some row
       | None \<Rightarrow> row_in_blocks t (k + bb_used bb + 1) bbs))"

definition row_for_time :: "tv \<Rightarrow> hist_source \<Rightarrow> nat option" where
  "row_for_time tv_bucket hs =
    row_in_blocks (rounddown (fst tv_bucket * 1000000 + snd tv_bucket) (hs_time_slice hs)) 0 (hs_blocks hs)"

section \<open>The index delegate\<close>

definition hist_type_of :: "log_level \<Rightarrow> hist_type" where
  "hist_type_of lev =
    (if lev \<in> {LEVEL_FATAL, LEVEL_CRITICAL, LEVEL_ERROR} then Hist_error
     else if lev = LEVEL_WARNING then Hist_warning
     else Hist_normal)"

definition hist_index_line :: "logline \<Rightarrow> hist_source \<Rightarrow> hist_source option" where
  "hist_index_line ll hs =
    (if ll_continued ll \<or> ll_time ll = 0 then Some hs
     else case hist_add_value (ll_time ll) (hist_type_of (ll_level ll)) 1 hs of
       None \<Rightarrow> None
     | Some hs1 \<Rightarrow>
         if ll_mark ll \<or> ll_expr_mark ll then hist_add_value (ll_time ll) Hist_mark 1 hs1 else Some hs1)"

end
