(* ===== verification/Hist_Spec.thy ===== *)
theory Hist_Spec
  imports Hist_Source Log_Rows
begin

text \<open>
  The rows of the histogram against the messages that were added: a list of buckets that the blocks
  implement, the counts of every slice of time, and the row that a time is found in.
\<close>

section \<open>Blocks and rows\<close>

definition blocks_hold :: "bucket_block list \<Rightarrow> hist_bucket list \<Rightarrow> bool" where
  "blocks_hold blocks rows \<longleftrightarrow>
    length blocks = (length rows + 99) div 100
    \<and> (\<forall>j<length blocks. length (bb_buckets (blocks ! j)) = 100
         \<and> bb_used (blocks ! j) = min 99 (length rows - 1 - 100 * j))
    \<and> (\<forall>k<100 * length blocks. bb_buckets (blocks ! (k div 100)) ! (k mod 100)
         = (if k < length rows then rows ! k else bucket_new))"

lemma block_size [simp]: "BLOCK_SIZE = 100"
  by (simp add: BLOCK_SIZE_def)

lemma blocks_hold_block:
  assumes "blocks_hold blocks rows" "k < length rows"
  shows "k div 100 < length blocks" and "length (bb_buckets (blocks ! (k div 100))) = 100"
    and "k mod 100 \<le> bb_used (blocks ! (k div 100))"
proof -
  have l: "length blocks = (length rows + 99) div 100" using assms(1) by (simp add: blocks_hold_def)
  show j: "k div 100 < length blocks" using assms(2) by (simp add: l)
  then show "length (bb_buckets (blocks ! (k div 100))) = 100"
    using assms(1) by (simp add: blocks_hold_def)
  have "bb_used (blocks ! (k div 100)) = min 99 (length rows - 1 - 100 * (k div 100))"
    using assms(1) j by (simp add: blocks_hold_def)
  moreover have "k mod 100 < 100" "100 * (k div 100) + k mod 100 = k" by simp_all
  then have "k mod 100 \<le> length rows - 1 - 100 * (k div 100)" using assms(2) by linarith
  ultimately show "k mod 100 \<le> bb_used (blocks ! (k div 100))" by simp
qed

lemma blocks_hold_bucket:
  assumes "blocks_hold (hs_blocks hs) rows" "k < length rows"
  shows "bucket_at (int k) hs = rows ! k"
proof -
  have "k < 100 * length (hs_blocks hs)" using assms by (simp add: blocks_hold_def)
  then show ?thesis using assms by (simp add: blocks_hold_def bucket_at_def)
qed

lemma find_bucket_old:
  assumes "blocks_hold (hs_blocks hs) rows" "hs_line_count hs = int (length rows)" "k < length rows"
  shows "find_bucket (int k) hs = hs"
proof -
  note b = blocks_hold_block [OF assms(1,3)]
  have "(hs_blocks hs) [k div 100 := (hs_blocks hs ! (k div 100))
      \<lparr>bb_used := max (k mod 100) (bb_used (hs_blocks hs ! (k div 100)))\<rparr>] = hs_blocks hs"
    using b(3) by (simp add: max_absorb2 list_update_id)
  then show ?thesis
    using b(1) assms(2,3) by (simp add: find_bucket_def Let_def max_absorb1)
qed

lemma write_bucket_rows:
  assumes "blocks_hold (hs_blocks hs) rows" "k < length rows"
  shows "blocks_hold (hs_blocks (write_bucket (int k) f hs)) (rows[k := f (rows ! k)])"
proof -
  note b = blocks_hold_block [OF assms]
  define bb where "bb = hs_blocks hs ! (k div 100)"
  define blocks where "blocks = (hs_blocks hs)[k div 100 :=
    bb\<lparr>bb_buckets := (bb_buckets bb)[k mod 100 := f (bb_buckets bb ! (k mod 100))]\<rparr>]"
  have at: "bb_buckets bb ! (k mod 100) = rows ! k"
    using blocks_hold_bucket [OF assms] by (simp add: bucket_at_def bb_def)
  have "bb_buckets (blocks ! (i div 100)) ! (i mod 100) = (if i < length rows then rows[k := f (rows ! k)] ! i else bucket_new)"
    if i: "i < 100 * length blocks" for i
  proof (cases "i = k")
    case True
    then show ?thesis using assms(2) b(1,2) at by (simp add: blocks_def bb_def)
  next
    case False
    have old: "bb_buckets (hs_blocks hs ! (i div 100)) ! (i mod 100) = (if i < length rows then rows ! i else bucket_new)"
      using assms(1) i by (simp add: blocks_hold_def blocks_def)
    have "i div 100 \<noteq> k div 100 \<or> i mod 100 \<noteq> k mod 100" using False by (metis div_mult_mod_eq)
    then have "bb_buckets (blocks ! (i div 100)) ! (i mod 100)
        = bb_buckets (hs_blocks hs ! (i div 100)) ! (i mod 100)"
      by (cases "i div 100 = k div 100") (use b(1) in \<open>simp_all add: blocks_def bb_def\<close>)
    then show ?thesis using old False by simp
  qed
  moreover have "length (bb_buckets (blocks ! j)) = 100 \<and> bb_used (blocks ! j) = min 99 (length rows - 1 - 100 * j)"
    if "j < length blocks" for j
    using assms(1) that by (cases "j = k div 100") (simp_all add: blocks_hold_def blocks_def bb_def)
  ultimately have "blocks_hold blocks (rows[k := f (rows ! k)])"
    using assms(1) by (simp add: blocks_hold_def blocks_def)
  then show ?thesis by (simp add: write_bucket_def Let_def blocks_def bb_def)
qed

lemma find_bucket_new:
  assumes "blocks_hold (hs_blocks hs) rows"
  shows "blocks_hold (hs_blocks (find_bucket (int (length rows)) hs)) (rows @ [bucket_new])"
proof -
  define n where "n = length rows"
  define old where "old = hs_blocks hs"
  have l: "length old = (n + 99) div 100" using assms by (simp add: blocks_hold_def old_def n_def)
  have holds: "bb_buckets (old ! (k div 100)) ! (k mod 100) = (if k < n then rows ! k else bucket_new)"
    if "k < 100 * length old" for k using assms that by (simp add: blocks_hold_def old_def n_def)
  have block: "length (bb_buckets (old ! j)) = 100" "bb_used (old ! j) = min 99 (n - 1 - 100 * j)"
    if "j < length old" for j using assms that by (simp_all add: blocks_hold_def old_def n_def)
  define blocks where "blocks = hs_blocks (find_bucket (int n) hs)"
  have "blocks_hold blocks (rows @ [bucket_new])"
  proof (cases "n mod 100 = 0")
    case True
    then obtain q where "n = 100 * q" by (auto simp: mod_eq_0_iff_dvd)
    then have j: "n div 100 = length old" "100 * length old = n" by (simp_all add: l)
    have b: "blocks = old @ [block_new]"
      using True by (simp add: blocks_def find_bucket_def Let_def old_def [symmetric] j nth_append block_new_def
          list_update_append)
    have used: "bb_used (old ! i) = 99" if "i < length old" for i
      using block(2) [OF that] that j(2) by (simp add: min_def)
    have "bb_buckets (blocks ! (k div 100)) ! (k mod 100) = (if k < Suc n then (rows @ [bucket_new]) ! k else bucket_new)"
      if k: "k < 100 * length blocks" for k
    proof (cases "k < n")
      case True
      then have "k div 100 < length old" using j(2) by simp
      then show ?thesis using holds [of k] True j(2) by (simp add: b nth_append n_def)
    next
      case False
      then have "k div 100 = length old" using k j by (simp add: b)
      then show ?thesis using False by (auto simp: b nth_append block_new_def n_def)
    qed
    moreover have "length (bb_buckets (blocks ! i)) = 100 \<and> bb_used (blocks ! i) = min 99 (n - 100 * i)"
      if "i < length blocks" for i
    proof (cases "i < length old")
      case True
      then have "99 \<le> n - 100 * i" using j(2) by simp
      then show ?thesis using True block(1) used by (simp add: b nth_append min_def)
    next
      case False
      then have "i = length old" using that by (simp add: b)
      then show ?thesis using j(2) by (simp add: b nth_append block_new_def)
    qed
    ultimately show ?thesis using j(2) by (simp add: blocks_hold_def n_def [symmetric]) (simp add: b)
  next
    case False
    define bi where "bi = n div 100"
    have n: "n = 100 * bi + n mod 100" by (simp add: bi_def)
    obtain m where m: "n mod 100 = Suc m" using False not0_implies_Suc by blast
    have "n + 99 = m + 100 * Suc bi" by (subst n) (simp add: m)
    moreover have "m < 100" using mod_less_divisor [of 100 n] by (simp add: m)
    ultimately have j: "length old = Suc bi" unfolding l by simp
    have b: "blocks = old[bi := (old ! bi)\<lparr>bb_used := n mod 100\<rparr>]"
      using block(2) [of bi] j n False
      by (simp add: blocks_def find_bucket_def Let_def old_def [symmetric] bi_def [symmetric])
    have "bb_buckets (blocks ! (k div 100)) ! (k mod 100) = (if k < Suc n then (rows @ [bucket_new]) ! k else bucket_new)"
      if k: "k < 100 * length blocks" for k
    proof -
      have "bb_buckets (blocks ! (k div 100)) = bb_buckets (old ! (k div 100))"
        by (cases "k div 100 = bi") (simp_all add: b j)
      then show ?thesis using holds [of k] k by (auto simp: b nth_append n_def less_Suc_eq)
    qed
    moreover have "length (bb_buckets (blocks ! i)) = 100 \<and> bb_used (blocks ! i) = min 99 (n - 100 * i)"
      if "i < length blocks" for i
    proof (cases "i = bi")
      case True
      have "n - 100 * bi = n mod 100" using n by simp
      moreover have "min 99 (n mod 100) = n mod 100"
        by (rule min_absorb2) (use mod_less_divisor [of 100 n] in linarith)
      ultimately show ?thesis using True block(1) [of bi] j by (simp add: b)
    next
      case False
      then have "i < bi" using that j by (simp add: b)
      then have "99 \<le> n - 1 - 100 * i" using n by simp
      then show ?thesis using False block [of i] that by (simp add: b)
    qed
    moreover have "length blocks = (n + 100) div 100" using j l by (simp add: b bi_def)
    ultimately show ?thesis by (simp add: blocks_hold_def n_def [symmetric])
  qed
  then show ?thesis by (simp add: blocks_def n_def)
qed

section \<open>Adding a value\<close>

definition hist_rows_ok :: "int \<Rightarrow> hist_bucket list \<Rightarrow> bool" where
  "hist_rows_ok step rows \<longleftrightarrow> sorted_wrt (<) (map b_time rows)
    \<and> (\<forall>b\<in>set rows. 0 \<le> b_time b \<and> b_time b < 2 ^ 63 \<and> b_time b mod step = 0 \<and> (\<forall>h. 0 \<le> b_values b h))"

definition hist_holds :: "hist_source \<Rightarrow> hist_bucket list \<Rightarrow> bool" where
  "hist_holds hs rows \<longleftrightarrow>
    blocks_hold (hs_blocks hs) rows \<and> hs_line_count hs = int (length rows)
    \<and> hs_current_row hs = int (length rows) - 1 \<and> 0 < hs_time_slice hs \<and> hist_rows_ok (hs_time_slice hs) rows
    \<and> hs_last_ts hs = (if rows = [] then MIN_TS else b_time (last rows))"

definition bucket_for :: "int \<Rightarrow> hist_type \<Rightarrow> rat \<Rightarrow> hist_bucket" where
  "bucket_for ts h v = \<lparr>b_time = ts, b_values = (\<lambda>_. 0)(h := v)\<rparr>"

definition gap_row :: "int \<Rightarrow> hist_bucket" where
  "gap_row ts = \<lparr>b_time = ts, b_values = (\<lambda>_. 0)\<rparr>"

text \<open>What adding a value does to the rows.\<close>

definition rows_add :: "int \<Rightarrow> int \<Rightarrow> hist_type \<Rightarrow> rat \<Rightarrow> hist_bucket list \<Rightarrow> hist_bucket list" where
  "rows_add step t h v rows =
    (let ts = rounddown t step in
     if rows = [] then [bucket_for ts h v]
     else let b = last rows in
       if b_time b = ts then butlast rows @ [b\<lparr>b_values := (b_values b)(h := b_values b h + v)\<rparr>]
       else rows @ (if ts - b_time b > step then [gap_row (b_time b + step)] else []) @ [bucket_for ts h v])"

lemma rounddown_nonneg:
  assumes "0 \<le> t" "0 < step"
  shows "rounddown t step = t div step * step"
  using assms by (simp add: rounddown_def smod_nonneg minus_mod_eq_div_mult)

lemma rounddown_bounds:
  assumes "0 \<le> t" "0 < step"
  shows "0 \<le> rounddown t step" "rounddown t step \<le> t" "rounddown t step mod step = 0"
proof -
  have d: "rounddown t step = t - t mod step" using assms by (simp add: rounddown_def smod_nonneg)
  show "rounddown t step \<le> t" using assms pos_mod_sign [of step t] by (simp add: d)
  show "0 \<le> rounddown t step" "rounddown t step mod step = 0"
    using assms by (simp_all add: rounddown_nonneg pos_imp_zdiv_nonneg_iff)
qed

lemma rounddown_mono:
  assumes "0 \<le> s" "s \<le> t" "0 < step"
  shows "rounddown s step \<le> rounddown t step"
  using assms by (simp add: rounddown_nonneg zdiv_mono1 mult_right_mono)

lemma wrap64_small:
  assumes "- (2 ^ 63) \<le> x" "x < 2 ^ 63"
  shows "wrap64 x = x"
  using assms by (simp add: wrap64_def sint_sbintrunc' signed_take_bit_int_eq_self)

lemma wrap64_from_min:
  assumes "0 \<le> t" "t < 2 ^ 63"
  shows "wrap64 (t - MIN_TS) = t - 2 ^ 63"
proof -
  have len64: "LENGTH(64) = 64" by simp
  have "(t - MIN_TS) mod 2 ^ 64 = (t - 2 ^ 63) mod 2 ^ 64"
    by (rule int_mod_shift [of _ _ 1]) (simp add: MIN_TS_def)
  then have "(word_of_int (t - MIN_TS) :: 64 word) = word_of_int (t - 2 ^ 63)"
    unfolding word_of_int_eq_iff take_bit_eq_mod len64 .
  then have "wrap64 (t - MIN_TS) = wrap64 (t - 2 ^ 63)" by (simp add: wrap64_def)
  then show ?thesis using wrap64_small [of "t - 2 ^ 63"] assms by simp
qed

subsection \<open>The end of a row\<close>

text \<open>Ending a row changes the chart and the bookmarks only.\<close>

definition same_blocks :: "hist_source \<Rightarrow> hist_source \<Rightarrow> bool" where
  "same_blocks hs hs' \<longleftrightarrow> (\<exists>c m. hs' = hs\<lparr>hs_chart := c, hs_bookmarks := m\<rparr>)"

lemma same_blocks_refl: "same_blocks hs hs"
  unfolding same_blocks_def by (rule exI [of _ "hs_chart hs"], rule exI [of _ "hs_bookmarks hs"]) simp

lemma same_blocks_trans: "same_blocks a b \<Longrightarrow> same_blocks b c \<Longrightarrow> same_blocks a c"
  by (force simp: same_blocks_def)

lemma same_blocks_fields:
  assumes "same_blocks hs hs'"
  shows "hs_blocks hs' = hs_blocks hs" "hs_line_count hs' = hs_line_count hs"
    "hs_current_row hs' = hs_current_row hs" "hs_time_slice hs' = hs_time_slice hs"
    "hs_last_ts hs' = hs_last_ts hs" "bucket_at k hs' = bucket_at k hs"
    "hist_holds hs' rows = hist_holds hs rows"
  using assms by (auto simp: same_blocks_def bucket_at_def hist_holds_def)

lemma same_blocks_chart: "same_blocks a b \<Longrightarrow> same_blocks a (b\<lparr>hs_chart := c\<rparr>)"
  by (cases a; cases b) (auto simp: same_blocks_def)

definition row_marks :: "hist_bucket \<Rightarrow> mark_type \<Rightarrow> bool" where
  "row_marks b bt \<longleftrightarrow> (\<exists>h. mark_of h = Some bt \<and> b_values b h > 0)"

lemma end_of_value_blocks: "same_blocks hs (end_of_value h hs)"
proof -
  have "same_blocks hs (hs\<lparr>hs_chart := c\<rparr>)" for c
    unfolding same_blocks_def by (rule exI [of _ c], rule exI [of _ "hs_bookmarks hs"]) simp
  moreover have "same_blocks hs (hs\<lparr>hs_chart := c, hs_bookmarks := m\<rparr>)" for c m
    unfolding same_blocks_def by blast
  ultimately show ?thesis by (simp add: end_of_value_def Let_def split: option.split)
qed

lemma end_of_value_marks:
  "set (bv_tree (hs_bookmarks (end_of_value h hs) bt)) = set (bv_tree (hs_bookmarks hs bt))
    \<union> (if mark_of h = Some bt \<and> b_values (bucket_at (hs_current_row hs) hs) h > 0 then {hs_current_row hs} else {})"
  by (auto simp: end_of_value_def Let_def set_bs_insert split: option.splits)

lemma end_of_values:
  "same_blocks hs (fold end_of_value hts hs)
    \<and> set (bv_tree (hs_bookmarks (fold end_of_value hts hs) bt)) = set (bv_tree (hs_bookmarks hs bt))
      \<union> (if \<exists>h\<in>set hts. mark_of h = Some bt \<and> b_values (bucket_at (hs_current_row hs) hs) h > 0
         then {hs_current_row hs} else {})"
proof (induction hts arbitrary: hs)
  case Nil
  show ?case by (simp add: same_blocks_refl)
next
  case (Cons h hts)
  have s: "same_blocks hs (end_of_value h hs)" by (rule end_of_value_blocks)
  show ?case
    using Cons.IH [of "end_of_value h hs"] same_blocks_trans [OF s] same_blocks_fields(3,6) [OF s]
    by (auto simp: end_of_value_marks)
qed

lemma set_hist_types: "set hist_types = UNIV"
  using hist_type.exhaust by (auto simp: hist_types_def)

lemma end_of_row_holds:
  assumes "hist_holds hs rows"
  shows "same_blocks hs (end_of_row hs)"
    and "set (bv_tree (hs_bookmarks (end_of_row hs) bt)) = set (bv_tree (hs_bookmarks hs bt))
      \<union> (if rows \<noteq> [] \<and> row_marks (last rows) bt then {int (length rows) - 1} else {})"
proof -
  have "same_blocks hs (end_of_row hs) \<and> set (bv_tree (hs_bookmarks (end_of_row hs) bt))
      = set (bv_tree (hs_bookmarks hs bt))
        \<union> (if rows \<noteq> [] \<and> row_marks (last rows) bt then {int (length rows) - 1} else {})"
  proof (cases "rows = []")
    case True
    then show ?thesis using assms by (simp add: end_of_row_def hist_holds_def same_blocks_refl)
  next
    case False
    define k where "k = length rows - 1"
    have ik: "int k = int (length rows) - 1" using False by (cases rows) (simp_all add: k_def)
    then have k: "k < length rows" "hs_current_row hs = int k"
      using assms False by (simp_all add: hist_holds_def k_def)
    have f: "find_bucket (int k) hs = hs"
      using assms k(1) by (intro find_bucket_old) (simp_all add: hist_holds_def)
    have b: "bucket_at (int k) hs = last rows"
      using assms k(1) False blocks_hold_bucket [of hs rows k] by (simp add: hist_holds_def k_def last_conv_nth)
    have e: "end_of_row hs = (fold end_of_value hist_types hs)
        \<lparr>hs_chart := next_row (hs_chart (fold end_of_value hist_types hs))\<rparr>"
      by (simp add: end_of_row_def Let_def k(2) f)
    have m: "(\<exists>h\<in>set hist_types. mark_of h = Some bt \<and> b_values (last rows) h > 0) \<longleftrightarrow> row_marks (last rows) bt"
      by (simp add: set_hist_types row_marks_def)
    show ?thesis
      using end_of_values [of hs hist_types bt] ik unfolding e k(2) b m by (simp add: False same_blocks_chart)
  qed
  then show "same_blocks hs (end_of_row hs)"
    and "set (bv_tree (hs_bookmarks (end_of_row hs) bt)) = set (bv_tree (hs_bookmarks hs bt))
      \<union> (if rows \<noteq> [] \<and> row_marks (last rows) bt then {int (length rows) - 1} else {})"
    by blast+
qed

subsection \<open>The next value\<close>

lemma update_bucket_old:
  assumes "blocks_hold (hs_blocks hs) rows" "hs_line_count hs = int (length rows)" "k < length rows"
  shows "update_bucket (int k) f hs = write_bucket (int k) f hs"
  using find_bucket_old [OF assms] by (simp add: update_bucket_def)

lemma write_bucket_blocks: "\<exists>blocks. write_bucket k f hs = hs\<lparr>hs_blocks := blocks\<rparr>"
  by (auto simp: write_bucket_def Let_def)

lemma update_bucket_new:
  assumes "blocks_hold (hs_blocks hs) rows" "hs_line_count hs \<le> int (length rows) + 1"
  shows "\<exists>blocks. update_bucket (int (length rows)) f hs
      = hs\<lparr>hs_line_count := int (length rows) + 1, hs_blocks := blocks\<rparr>
    \<and> blocks_hold blocks (rows @ [f bucket_new])"
proof -
  define hs1 where "hs1 = find_bucket (int (length rows)) hs"
  have b: "blocks_hold (hs_blocks hs1) (rows @ [bucket_new])"
    unfolding hs1_def by (rule find_bucket_new [OF assms(1)])
  have w: "blocks_hold (hs_blocks (write_bucket (int (length rows)) f hs1)) (rows @ [f bucket_new])"
    using write_bucket_rows [OF b, of "length rows" f] by simp
  have "\<exists>bs. hs1 = hs\<lparr>hs_line_count := int (length rows) + 1, hs_blocks := bs\<rparr>"
    using assms(2) by (auto simp: hs1_def find_bucket_def Let_def max_absorb2)
  then obtain bs where hs1: "hs1 = hs\<lparr>hs_line_count := int (length rows) + 1, hs_blocks := bs\<rparr>" by blast
  obtain blocks where "write_bucket (int (length rows)) f hs1 = hs1\<lparr>hs_blocks := blocks\<rparr>"
    using write_bucket_blocks by blast
  then have "update_bucket (int (length rows)) f hs
      = hs\<lparr>hs_line_count := int (length rows) + 1, hs_blocks := blocks\<rparr> \<and> blocks_hold blocks (rows @ [f bucket_new])"
    using w by (simp add: update_bucket_def hs1_def [symmetric]) (simp add: hs1)
  then show ?thesis by blast
qed

definition marks_hold :: "hist_source \<Rightarrow> hist_bucket list \<Rightarrow> bool" where
  "marks_hold hs rows \<longleftrightarrow> (\<forall>bt. set (bv_tree (hs_bookmarks hs bt))
    = {int k | k. k < length rows - 1 \<and> row_marks (rows ! k) bt})"

definition add_ok :: "int \<Rightarrow> rat \<Rightarrow> hist_bucket list \<Rightarrow> bool" where
  "add_ok t v rows \<longleftrightarrow> 0 \<le> t \<and> t < 2 ^ 63 \<and> 0 \<le> v \<and> (rows = [] \<or> b_time (last rows) \<le> t)"

lemma row_in_range:
  assumes "hist_holds hs rows" "add_ok t v rows"
  shows "0 \<le> rounddown t (hs_time_slice hs)" "rounddown t (hs_time_slice hs) < 2 ^ 63"
    "rounddown t (hs_time_slice hs) mod hs_time_slice hs = 0"
    "rows \<noteq> [] \<Longrightarrow> b_time (last rows) \<le> rounddown t (hs_time_slice hs)"
    "\<not> t < hs_last_ts hs"
proof -
  have s: "0 < hs_time_slice hs" "0 \<le> t" "t < 2 ^ 63" using assms by (simp_all add: hist_holds_def add_ok_def)
  show "0 \<le> rounddown t (hs_time_slice hs)" "rounddown t (hs_time_slice hs) mod hs_time_slice hs = 0"
    "rounddown t (hs_time_slice hs) < 2 ^ 63"
    using rounddown_bounds [OF s(2,1)] s(3) by linarith+
  show "\<not> t < hs_last_ts hs" using assms by (auto simp: hist_holds_def add_ok_def MIN_TS_def)
  assume r: "rows \<noteq> []"
  have l: "0 \<le> b_time (last rows)" "b_time (last rows) mod hs_time_slice hs = 0"
    using assms(1) r by (auto simp: hist_holds_def hist_rows_ok_def)
  have "rounddown (b_time (last rows)) (hs_time_slice hs) = b_time (last rows)"
    using l s(1) by (simp add: rounddown_def smod_nonneg)
  then show "b_time (last rows) \<le> rounddown t (hs_time_slice hs)"
    using rounddown_mono [OF l(1) _ s(1), of t] assms(2) r by (simp add: add_ok_def)
qed

lemma last_row_current:
  assumes "hist_holds hs rows" "rows \<noteq> []"
  shows "hs_current_row hs = int (length rows - 1)"
  using assms by (cases rows) (simp_all add: hist_holds_def)

lemma hist_rows_ok_append:
  assumes "hist_rows_ok step rows" "rows = [] \<or> b_time (last rows) < b_time b"
    and "0 \<le> b_time b" "b_time b < 2 ^ 63" "b_time b mod step = 0" "\<forall>h. 0 \<le> b_values b h"
  shows "hist_rows_ok step (rows @ [b])"
proof -
  have "b_time r < b_time b" if "r \<in> set rows" for r
  proof -
    have "b_time r \<le> b_time (last rows)"
      using assms(1) that by (cases rows rule: rev_cases) (auto simp: hist_rows_ok_def sorted_wrt_append intro: less_imp_le)
    then show ?thesis using assms(2) that by (cases rows) auto
  qed
  then show ?thesis using assms by (auto simp: hist_rows_ok_def sorted_wrt_append)
qed

lemma add_in_row:
  assumes "hist_holds hs rows" "marks_hold hs rows" "add_ok t v rows" "rows \<noteq> []"
    and "b_time (last rows) = rounddown t (hs_time_slice hs)"
  shows "\<exists>hs'. hist_add_value t h v hs = Some hs' \<and> hist_holds hs' (rows_add (hs_time_slice hs) t h v rows)
    \<and> marks_hold hs' (rows_add (hs_time_slice hs) t h v rows) \<and> hs_time_slice hs' = hs_time_slice hs"
proof -
  define k where "k = length rows - 1"
  define f :: "hist_bucket \<Rightarrow> hist_bucket" where
    "f = (\<lambda>b. b\<lparr>b_time := rounddown t (hs_time_slice hs), b_values := (b_values b)(h := b_values b h + v)\<rparr>)"
  have k: "k < length rows" "hs_current_row hs = int k"
    using assms(4) last_row_current [OF assms(1,4)] by (simp_all add: k_def)
  have hh: "blocks_hold (hs_blocks hs) rows" "hs_line_count hs = int (length rows)"
      "hs_last_ts hs = b_time (last rows)" "hist_rows_ok (hs_time_slice hs) rows"
    using assms(1,4) by (simp_all add: hist_holds_def)
  obtain blocks where w: "write_bucket (int k) f hs = hs\<lparr>hs_blocks := blocks\<rparr>"
    using write_bucket_blocks by blast
  have bh: "blocks_hold blocks (rows[k := f (rows ! k)])"
    using write_bucket_rows [OF hh(1) k(1), of f] by (simp add: w)
  have last: "rows ! k = last rows" using assms(4) by (simp add: k_def last_conv_nth)
  have upd: "rows[k := x] = butlast rows @ [x]" for x
    using assms(4) by (cases rows rule: rev_cases) (simp_all add: k_def)
  have fl: "f (last rows) = (last rows)\<lparr>b_values := (b_values (last rows))(h := b_values (last rows) h + v)\<rparr>"
    by (simp add: f_def assms(5) [symmetric])
  have ra: "rows_add (hs_time_slice hs) t h v rows = butlast rows @ [f (last rows)]"
    using assms(4,5) by (simp add: rows_add_def fl Let_def)
  have add: "hist_add_value t h v hs = Some (hs\<lparr>hs_blocks := blocks, hs_needs_flush := True\<rparr>)"
    using row_in_range(5) [OF assms(1,3)] update_bucket_old [OF hh(1,2) k(1), of f]
    by (simp add: hist_add_value_def Let_def hh(3) assms(5) k(2) w f_def [symmetric])
  have ok: "hist_rows_ok (hs_time_slice hs) (butlast rows @ [f (last rows)])"
    using hh(4) assms(3,4) by (cases rows rule: rev_cases) (auto simp: hist_rows_ok_def sorted_wrt_append f_def add_ok_def assms(5) [symmetric])
  have "marks_hold (hs\<lparr>hs_blocks := blocks, hs_needs_flush := True\<rparr>) (butlast rows @ [f (last rows)])"
    using assms(2,4) by (cases rows rule: rev_cases) (auto simp: marks_hold_def nth_append)
  moreover have "hist_holds (hs\<lparr>hs_blocks := blocks, hs_needs_flush := True\<rparr>) (butlast rows @ [f (last rows)])"
    using assms(1,4,5) bh ok unfolding last upd by (auto simp: hist_holds_def f_def)
  ultimately show ?thesis unfolding ra add by simp
qed

text \<open>The rows before the one that a new time starts.\<close>

definition rows_before :: "int \<Rightarrow> int \<Rightarrow> hist_bucket list \<Rightarrow> hist_bucket list" where
  "rows_before step ts rows =
    rows @ (if rows \<noteq> [] \<and> ts - b_time (last rows) > step then [gap_row (b_time (last rows) + step)] else [])"

lemma start_row_holds:
  assumes "hist_holds hs rows" "0 \<le> ts" "ts < 2 ^ 63"
    and "rows \<noteq> [] \<Longrightarrow> b_time (last rows) < ts" "pre = rows_before (hs_time_slice hs) ts rows"
  shows "blocks_hold (hs_blocks (start_row ts hs)) pre"
    and "hs_line_count (start_row ts hs) \<le> int (length pre) + 1"
    and "hs_current_row (start_row ts hs) = int (length pre)"
    and "hs_last_ts (start_row ts hs) = ts" "hs_time_slice (start_row ts hs) = hs_time_slice hs"
    and "hs_bookmarks (start_row ts hs) = hs_bookmarks (end_of_row hs)"
proof -
  define hs1 where "hs1 = end_of_row hs"
  have sb: "same_blocks hs hs1" unfolding hs1_def by (rule end_of_row_holds(1) [OF assms(1)])
  have h1: "hist_holds hs1 rows" using assms(1) same_blocks_fields(7) [OF sb] by simp
  note f = same_blocks_fields(1-5) [OF sb]
  have hh: "blocks_hold (hs_blocks hs1) rows" "hs_line_count hs1 = int (length rows)"
      "hs_current_row hs1 = int (length rows) - 1" "0 < hs_time_slice hs1"
      "hs_last_ts hs1 = (if rows = [] then MIN_TS else b_time (last rows))"
    using h1 by (simp_all add: hist_holds_def)
  define gap where "gap \<longleftrightarrow> rows \<noteq> [] \<and> ts - b_time (last rows) > hs_time_slice hs"
  have diff: "wrap64 (ts - hs_last_ts hs1) > hs_time_slice hs1 \<longleftrightarrow> gap"
  proof (cases "rows = []")
    case True
    then show ?thesis using hh(4,5) wrap64_from_min [OF assms(2,3)] assms(3) by (simp add: gap_def)
  next
    case False
    have "0 \<le> b_time (last rows)"
      using assms(1) False by (auto simp: hist_holds_def hist_rows_ok_def)
    then have "wrap64 (ts - b_time (last rows)) = ts - b_time (last rows)"
      using assms(2,3) assms(4) [OF False] by (intro wrap64_small) linarith+
    then show ?thesis using False hh(5) by (simp add: gap_def f(4))
  qed
  have pre: "pre = rows @ (if gap then [gap_row (b_time (last rows) + hs_time_slice hs)] else [])"
    by (simp add: assms(5) rows_before_def gap_def)
  define fb :: "hist_bucket \<Rightarrow> hist_bucket" where "fb = (\<lambda>b. b\<lparr>b_time := hs_last_ts hs1 + hs_time_slice hs1\<rparr>)"
  define row where "row = hs1\<lparr>hs_current_row := int (length rows)\<rparr>"
  obtain blocks where blocks: "update_bucket (int (length rows)) fb row
      = row\<lparr>hs_line_count := int (length rows) + 1, hs_blocks := blocks\<rparr>" "blocks_hold blocks (rows @ [fb bucket_new])"
    using update_bucket_new [of row rows fb] hh(1,2) by (auto simp: row_def)
  have start: "start_row ts hs = (if gap
      then row\<lparr>hs_line_count := int (length rows) + 2, hs_blocks := blocks, hs_current_row := int (length rows) + 1,
        hs_last_ts := ts\<rparr>
      else hs1\<lparr>hs_current_row := int (length rows), hs_last_ts := ts\<rparr>)"
    using blocks(1) by (cases gap) (simp_all add: start_row_def Let_def hs1_def [symmetric] diff hh(3) fb_def row_def)
  have "fb bucket_new = gap_row (b_time (last rows) + hs_time_slice hs)" if gap
    using that hh(5) by (simp add: fb_def bucket_new_def gap_row_def f(4) gap_def)
  then show "blocks_hold (hs_blocks (start_row ts hs)) pre"
    using hh(1) blocks(2) by (cases gap) (simp_all add: start pre)
  show "hs_line_count (start_row ts hs) \<le> int (length pre) + 1"
    "hs_current_row (start_row ts hs) = int (length pre)"
    "hs_last_ts (start_row ts hs) = ts" "hs_time_slice (start_row ts hs) = hs_time_slice hs"
    "hs_bookmarks (start_row ts hs) = hs_bookmarks (end_of_row hs)"
    using hh(2) f(4) by (simp_all add: start pre row_def hs1_def)
qed

lemma add_new_row:
  assumes "hist_holds hs rows" "marks_hold hs rows" "add_ok t v rows"
    and "rows = [] \<or> b_time (last rows) \<noteq> rounddown t (hs_time_slice hs)"
  shows "\<exists>hs'. hist_add_value t h v hs = Some hs' \<and> hist_holds hs' (rows_add (hs_time_slice hs) t h v rows)
    \<and> marks_hold hs' (rows_add (hs_time_slice hs) t h v rows) \<and> hs_time_slice hs' = hs_time_slice hs"
proof -
  define step ts where "step = hs_time_slice hs" and "ts = rounddown t step"
  note r = row_in_range [OF assms(1,3), folded step_def, folded ts_def]
  have later: "b_time (last rows) < ts" if "rows \<noteq> []"
    using r(4) [OF that] assms(4) that by (simp add: ts_def step_def)
  have rows: "hist_rows_ok step rows" "0 < step" using assms(1) by (simp_all add: hist_holds_def step_def)
  define pre where "pre = rows_before step ts rows"
  note st = start_row_holds [OF assms(1) r(1,2) later, of pre, folded step_def, OF _ pre_def]
  define fb :: "hist_bucket \<Rightarrow> hist_bucket" where "fb = (\<lambda>b. b\<lparr>b_time := ts, b_values := (b_values b)(h := b_values b h + v)\<rparr>)"
  obtain blocks where b: "update_bucket (int (length pre)) fb (start_row ts hs)
      = (start_row ts hs)\<lparr>hs_line_count := int (length pre) + 1, hs_blocks := blocks\<rparr>"
      "blocks_hold blocks (pre @ [fb bucket_new])"
    using update_bucket_new [OF st(1,2), of fb] by auto
  have fb: "fb bucket_new = bucket_for ts h v" by (simp add: fb_def bucket_new_def bucket_for_def)
  have ra: "rows_add step t h v rows = pre @ [bucket_for ts h v]"
    using assms(4) by (auto simp: rows_add_def Let_def ts_def [symmetric] pre_def rows_before_def step_def [symmetric])
  have "ts \<noteq> hs_last_ts hs"
    using assms(1,4) r(1) by (auto simp: hist_holds_def ts_def step_def MIN_TS_def)
  then have add: "hist_add_value t h v hs
      = Some ((start_row ts hs)\<lparr>hs_line_count := int (length pre) + 1, hs_blocks := blocks, hs_needs_flush := True\<rparr>)"
    using r(5) b(1) by (simp add: hist_add_value_def Let_def ts_def [symmetric] step_def [symmetric] st(3) fb_def)
  have pre_ok: "hist_rows_ok step pre \<and> (pre = [] \<or> b_time (last pre) < ts)"
  proof (cases "rows \<noteq> [] \<and> ts - b_time (last rows) > step")
    case True
    then have l: "0 \<le> b_time (last rows)" "b_time (last rows) mod step = 0"
      using rows(1) by (auto simp: hist_rows_ok_def)
    have "hist_rows_ok step (rows @ [gap_row (b_time (last rows) + step)])"
      using True l rows r(2) by (intro hist_rows_ok_append) (simp_all add: gap_row_def)
    then show ?thesis using True by (simp add: pre_def rows_before_def gap_row_def)
  next
    case False
    then show ?thesis using rows(1) later by (cases "rows = []") (simp_all add: pre_def rows_before_def)
  qed
  have ok: "hist_rows_ok step (pre @ [bucket_for ts h v])"
    using pre_ok r(1-3) assms(3) by (intro hist_rows_ok_append) (auto simp: bucket_for_def add_ok_def)
  have marks: "set (bv_tree (hs_bookmarks (start_row ts hs) bt)) = {int k | k. k < length pre \<and> row_marks (pre ! k) bt}"
    for bt
  proof -
    have "set (bv_tree (hs_bookmarks (start_row ts hs) bt))
        = {int k | k. k < length rows - 1 \<and> row_marks (rows ! k) bt}
          \<union> (if rows \<noteq> [] \<and> row_marks (last rows) bt then {int (length rows) - 1} else {})"
      using end_of_row_holds(2) [OF assms(1)] assms(2) by (simp add: st(6) marks_hold_def)
    also have "\<dots> = {int k | k. k < length rows \<and> row_marks (rows ! k) bt}"
    proof (cases rows rule: rev_cases)
      case (snoc rs r)
      have "k < Suc (length rs) \<and> row_marks ((rs @ [r]) ! k) bt
          \<longleftrightarrow> k < length rs \<and> row_marks (rs ! k) bt \<or> k = length rs \<and> row_marks r bt" for k
        by (auto simp: nth_append less_Suc_eq)
      then show ?thesis by (auto simp: snoc nth_append)
    qed simp
    also have "\<dots> = {int k | k. k < length pre \<and> row_marks (pre ! k) bt}"
    proof -
      have "\<not> row_marks (gap_row x) bt" for x by (simp add: row_marks_def gap_row_def)
      then have "k < length rows \<and> row_marks (rows ! k) bt \<longleftrightarrow> k < length pre \<and> row_marks (pre ! k) bt" for k
        by (cases "k = length rows") (auto simp: pre_def rows_before_def nth_append)
      then show ?thesis by simp
    qed
    finally show ?thesis .
  qed
  have "marks_hold ((start_row ts hs)\<lparr>hs_line_count := int (length pre) + 1, hs_blocks := blocks, hs_needs_flush := True\<rparr>)
      (pre @ [bucket_for ts h v])"
    by (auto simp: marks_hold_def marks nth_append)
  moreover have "hist_holds ((start_row ts hs)\<lparr>hs_line_count := int (length pre) + 1, hs_blocks := blocks,
      hs_needs_flush := True\<rparr>) (pre @ [bucket_for ts h v])"
    using b(2) ok rows(2) unfolding fb by (simp add: hist_holds_def st(3-5)) (simp add: bucket_for_def)
  ultimately show ?thesis unfolding ra [unfolded step_def] add by (simp add: st(5) step_def)
qed

lemma hist_add_holds:
  assumes "hist_holds hs rows" "marks_hold hs rows" "add_ok t v rows"
  shows "\<exists>hs'. hist_add_value t h v hs = Some hs' \<and> hist_holds hs' (rows_add (hs_time_slice hs) t h v rows)
    \<and> marks_hold hs' (rows_add (hs_time_slice hs) t h v rows) \<and> hs_time_slice hs' = hs_time_slice hs"
  using add_in_row [OF assms] add_new_row [OF assms] by (cases "rows = []") auto

section \<open>A run of values\<close>

type_synonym hist_adds = "(int \<times> hist_type \<times> rat) list"

fun add_values :: "hist_adds \<Rightarrow> hist_source \<Rightarrow> hist_source option" where
  "add_values [] hs = Some hs"
| "add_values ((t, h, v) # adds) hs =
    (case hist_add_value t h v hs of None \<Rightarrow> None | Some hs1 \<Rightarrow> add_values adds hs1)"

definition hist_rows :: "hist_source \<Rightarrow> hist_bucket list" where
  "hist_rows hs = map (\<lambda>k. bucket_at (int k) hs) [0..<nat (hs_line_count hs)]"

text \<open>The value of a type in the rows of a time, and of the additions to the slice of that time.\<close>

definition row_total :: "int \<Rightarrow> hist_type \<Rightarrow> hist_bucket list \<Rightarrow> rat" where
  "row_total t h rows = (\<Sum>b\<leftarrow>rows. if b_time b = t then b_values b h else 0)"

definition added_total :: "int \<Rightarrow> int \<Rightarrow> hist_type \<Rightarrow> hist_adds \<Rightarrow> rat" where
  "added_total step t h adds = (\<Sum>(t', h', v)\<leftarrow>adds. if rounddown t' step = t \<and> h' = h then v else 0)"

definition adds_ok :: "hist_adds \<Rightarrow> bool" where
  "adds_ok adds \<longleftrightarrow> sorted (map fst adds) \<and> (\<forall>(t, h, v)\<in>set adds. 0 \<le> t \<and> t < 2 ^ 63 \<and> 0 \<le> v)"

lemma hist_holds_rows:
  assumes "hist_holds hs rows"
  shows "hist_rows hs = rows"
proof (rule nth_equalityI)
  have c: "hs_line_count hs = int (length rows)" "blocks_hold (hs_blocks hs) rows"
    using assms by (simp_all add: hist_holds_def)
  then show "length (hist_rows hs) = length rows" by (simp add: hist_rows_def)
  fix i assume "i < length (hist_rows hs)"
  then show "hist_rows hs ! i = rows ! i" using blocks_hold_bucket [OF c(2), of i] c(1) by (simp add: hist_rows_def)
qed

lemma row_total_add:
  "row_total t h (rows_add step t' h' v rows)
    = row_total t h rows + (if rounddown t' step = t \<and> h' = h then v else 0)"
proof (cases rows rule: rev_cases)
  case Nil
  then show ?thesis by (simp add: rows_add_def row_total_def bucket_for_def)
next
  case (snoc rs r)
  then show ?thesis by (auto simp: rows_add_def row_total_def bucket_for_def gap_row_def Let_def)
qed

lemma last_rows_add:
  assumes "0 \<le> t" "0 < step"
  shows "rows_add step t h v rows \<noteq> []" "b_time (last (rows_add step t h v rows)) \<le> t"
  using rounddown_bounds(2) [OF assms] by (auto simp: rows_add_def Let_def bucket_for_def)

lemma add_values_hold:
  "hist_holds hs rows \<Longrightarrow> marks_hold hs rows \<Longrightarrow> adds_ok adds
    \<Longrightarrow> rows = [] \<or> (\<forall>a\<in>set adds. b_time (last rows) \<le> fst a)
    \<Longrightarrow> \<exists>hs' rows'. add_values adds hs = Some hs' \<and> hist_holds hs' rows' \<and> marks_hold hs' rows'
      \<and> hs_time_slice hs' = hs_time_slice hs
      \<and> (\<forall>t h. row_total t h rows' = row_total t h rows + added_total (hs_time_slice hs) t h adds)"
proof (induction adds arbitrary: hs rows)
  case Nil
  then show ?case by (auto simp: added_total_def)
next
  case (Cons a adds)
  obtain t h v where a: "a = (t, h, v)" by (cases a)
  have t: "0 \<le> t" "t < 2 ^ 63" "0 \<le> v" "adds_ok adds" "\<forall>x\<in>set adds. t \<le> fst x"
    using Cons.prems(3) by (auto simp: adds_ok_def a)
  have ok: "add_ok t v rows" using Cons.prems(4) t by (auto simp: add_ok_def a)
  define rows1 where "rows1 = rows_add (hs_time_slice hs) t h v rows"
  obtain hs1 where hs1: "hist_add_value t h v hs = Some hs1" "hist_holds hs1 rows1" "marks_hold hs1 rows1"
      "hs_time_slice hs1 = hs_time_slice hs"
    using hist_add_holds [OF Cons.prems(1,2) ok] unfolding rows1_def by blast
  have "0 < hs_time_slice hs" using Cons.prems(1) by (simp add: hist_holds_def)
  then have "b_time (last rows1) \<le> t" using last_rows_add(2) [OF t(1)] by (simp add: rows1_def)
  then have "\<forall>x\<in>set adds. b_time (last rows1) \<le> fst x" using t(5) by force
  then obtain hs' rows' where "add_values adds hs1 = Some hs'" "hist_holds hs' rows'" "marks_hold hs' rows'"
      "hs_time_slice hs' = hs_time_slice hs1"
      "\<forall>t h. row_total t h rows' = row_total t h rows1 + added_total (hs_time_slice hs1) t h adds"
    using Cons.IH [OF hs1(2,3) t(4)] by blast
  then show ?case
    using hs1(1,4) by (auto simp: a rows1_def row_total_add added_total_def add.assoc)
qed

lemma hist_clear_holds:
  assumes "0 < hs_time_slice hs"
  shows "hist_holds (hist_clear hs) []" "marks_hold (hist_clear hs) []" "hs_time_slice (hist_clear hs) = hs_time_slice hs"
  using assms
  by (simp_all add: hist_holds_def hist_clear_def hist_init_def blocks_hold_def hist_rows_ok_def marks_hold_def bv_empty_def)

lemma add_values_rows:
  assumes "0 < hs_time_slice hs" "adds_ok adds"
  shows "\<exists>hs'. add_values adds (hist_clear hs) = Some hs' \<and> hist_holds hs' (hist_rows hs') \<and> marks_hold hs' (hist_rows hs')
    \<and> hs_time_slice hs' = hs_time_slice hs
    \<and> (\<forall>t h. row_total t h (hist_rows hs') = added_total (hs_time_slice hs) t h adds)"
proof -
  note c = hist_clear_holds [OF assms(1)]
  obtain hs' rows' where r: "add_values adds (hist_clear hs) = Some hs'" "hist_holds hs' rows'" "marks_hold hs' rows'"
      "hs_time_slice hs' = hs_time_slice hs"
      "\<forall>t h. row_total t h rows' = row_total t h [] + added_total (hs_time_slice hs) t h adds"
    using add_values_hold [OF c(1,2) assms(2)] c(3) by auto
  then show ?thesis using hist_holds_rows [OF r(2)] by (auto simp: row_total_def)
qed

section \<open>The row of a time\<close>

lemma row_in_block_first:
  "i < length bs \<Longrightarrow> t \<le> b_time (bs ! i) \<Longrightarrow> \<forall>j<i. b_time (bs ! j) < t \<Longrightarrow> row_in_block t k bs = Some (k + i)"
proof (induction bs arbitrary: i k)
  case (Cons b bs)
  show ?case
  proof (cases i)
    case 0
    then show ?thesis using Cons.prems by simp
  next
    case (Suc j)
    have "\<not> t \<le> b_time b" using Cons.prems(3) Suc by auto
    moreover have "row_in_block t (k + 1) bs = Some (k + 1 + j)"
      using Cons.prems Suc by (intro Cons.IH) auto
    ultimately show ?thesis by (simp add: Suc)
  qed
qed simp

lemma row_in_blocks_rows:
  assumes "blocks_hold blocks rows" "sorted_wrt (<) (map b_time rows)" "i < length rows" "b_time (rows ! i) = t"
  shows "j \<le> i div 100 \<Longrightarrow> row_in_blocks t (100 * j) (drop j blocks) = Some i"
proof (induction "i div 100 - j" arbitrary: j)
  case 0
  then have j: "j = i div 100" by simp
  note b = blocks_hold_block [OF assms(1,3)]
  have d: "drop j blocks = blocks ! j # drop (Suc j) blocks" using b(1) by (simp add: j Cons_nth_drop_Suc)
  have lt: "b_time (rows ! k) < t" if "k < i" for k
    using assms(2-4) that sorted_wrt_nth_less [of "(<)" "map b_time rows" k i] by simp
  have at: "bb_buckets (blocks ! j) ! m = rows ! (100 * j + m)" if "m < 100" "100 * j + m < length rows" for m
  proof -
    have "100 * j + m < 100 * length blocks" "(100 * j + m) div 100 = j" "(100 * j + m) mod 100 = m"
      using that(1) b(1) by (simp_all add: j)
    then show ?thesis using assms(1) that(2) unfolding blocks_hold_def by metis
  qed
  have i: "100 * j + i mod 100 = i" "i mod 100 < 100" by (simp_all add: j)
  have used: "bb_used (blocks ! j) \<le> 99" "100 * j + bb_used (blocks ! j) < length rows"
    using assms(1,3) b(1) i(1) by (auto simp: blocks_hold_def j)
  have "\<not> t < b_time (bb_buckets (blocks ! j) ! 0)"
    using at [of 0] i(1) assms(3,4) lt [of "100 * j"] by (cases "i mod 100 = 0") auto
  moreover have "\<not> b_time (bb_buckets (blocks ! j) ! bb_used (blocks ! j)) < t"
  proof (cases "bb_used (blocks ! j) = i mod 100")
    case True
    then show ?thesis using at [of "i mod 100"] i assms(3,4) by simp
  next
    case False
    then have "i mod 100 < bb_used (blocks ! j)" using b(3) by (simp add: j)
    then have "i < 100 * j + bb_used (blocks ! j)" using i(1) by linarith
    then have "t < b_time (rows ! (100 * j + bb_used (blocks ! j)))"
      using assms(2,4) used(2) sorted_wrt_nth_less [of "(<)" "map b_time rows" i "100 * j + bb_used (blocks ! j)"] by simp
    then show ?thesis using at [of "bb_used (blocks ! j)"] used by simp
  qed
  moreover have "row_in_block t (100 * j) (take (bb_used (blocks ! j) + 1) (bb_buckets (blocks ! j)))
      = Some (100 * j + i mod 100)"
  proof (rule row_in_block_first)
    show "i mod 100 < length (take (bb_used (blocks ! j) + 1) (bb_buckets (blocks ! j)))"
      using b(2,3) i(2) by (simp add: j)
    show "t \<le> b_time (take (bb_used (blocks ! j) + 1) (bb_buckets (blocks ! j)) ! (i mod 100))"
      using b(3) at [OF i(2)] i(1) assms(3,4) by (simp add: j)
    show "\<forall>m<i mod 100. b_time (take (bb_used (blocks ! j) + 1) (bb_buckets (blocks ! j)) ! m) < t"
    proof (intro allI impI)
      fix m assume m: "m < i mod 100"
      have in_rows: "m < 100" "100 * j + m < length rows" using m i assms(3) by linarith+
      have "100 * j + m < i" using m i(1) by linarith
      then have "b_time (rows ! (100 * j + m)) < t" by (rule lt)
      then show "b_time (take (bb_used (blocks ! j) + 1) (bb_buckets (blocks ! j)) ! m) < t"
        using at [of m] in_rows m b(3) by (simp add: j)
    qed
  qed
  ultimately show ?case using i(1) by (simp add: d)
next
  case (Suc n)
  then have j: "j < i div 100" by simp
  note b = blocks_hold_block [OF assms(1,3)]
  have jb: "j < length blocks" using j b(1) by simp
  have j99: "100 * j + 99 < i" using j by simp
  have d: "drop j blocks = blocks ! j # drop (Suc j) blocks" using jb by (simp add: Cons_nth_drop_Suc)
  have lt: "b_time (rows ! k) < t" if "k < i" for k
    using assms(2-4) that sorted_wrt_nth_less [of "(<)" "map b_time rows" k i] by simp
  have at: "bb_buckets (blocks ! j) ! m = rows ! (100 * j + m)" if "m < 100" for m
  proof -
    have "100 * j + m < 100 * length blocks" "(100 * j + m) div 100 = j" "(100 * j + m) mod 100 = m"
        "100 * j + m < length rows"
      using that jb j99 assms(3) by simp_all
    then show ?thesis using assms(1) unfolding blocks_hold_def by metis
  qed
  have used: "bb_used (blocks ! j) = 99"
    using assms(1,3) jb j99 by (simp add: blocks_hold_def min_def)
  have "\<not> t < b_time (bb_buckets (blocks ! j) ! 0)" using at [of 0] lt [of "100 * j"] j99 by simp
  moreover have "b_time (bb_buckets (blocks ! j) ! 99) < t" using at [of 99] lt [of "100 * j + 99"] j99 by simp
  moreover have "row_in_blocks t (100 * Suc j) (drop (Suc j) blocks) = Some i"
    using Suc by (intro Suc.hyps(1)) simp_all
  ultimately show ?case by (simp add: d used add.commute)
qed

lemma row_for_time_row:
  assumes "hist_holds hs rows" "i < length rows" "0 \<le> t"
    and "b_time (rows ! i) = rounddown t (hs_time_slice hs)"
  shows "row_for_time (t div 1000000, t mod 1000000) hs = Some i"
proof -
  have h: "blocks_hold (hs_blocks hs) rows" "sorted_wrt (<) (map b_time rows)"
    using assms(1) by (simp_all add: hist_holds_def hist_rows_ok_def)
  have "t div 1000000 * 1000000 + t mod 1000000 = t" by (rule div_mult_mod_eq)
  then show ?thesis
    using row_in_blocks_rows [OF h assms(2,4), of 0] by (simp add: row_for_time_def)
qed

lemma sum_list_zero:
  assumes "\<And>x. x \<in> set xs \<Longrightarrow> f x = (0 :: rat)"
  shows "(\<Sum>x\<leftarrow>xs. f x) = 0"
  using assms by (induction xs) simp_all

section \<open>Properties\<close>

text \<open>
  C12: The histogram of a run of values whose times do not go back has its rows in the strict order of their
  times, and for every slice of time and type the rows of that time hold the sum of the values that
  were added in the slice: each value is in one row, that of its slice, and in no other.
\<close>

theorem histogram_counts:
  assumes "0 < hs_time_slice hs0" "adds_ok adds"
  shows "\<exists>hs. add_values adds (hist_clear hs0) = Some hs
    \<and> sorted_wrt (<) (map b_time (hist_rows hs))
    \<and> (\<forall>t h. row_total t h (hist_rows hs) = added_total (hs_time_slice hs0) t h adds)"
  using add_values_rows [OF assms] by (auto simp: hist_holds_def hist_rows_ok_def)

definition some_adds :: hist_adds where
  "some_adds = [(3, Hist_normal, 1), (61, Hist_error, 1), (70, Hist_error, 1), (500, Hist_warning, 1)]"

lemma some_adds_ok: "adds_ok some_adds"
  by (simp add: adds_ok_def some_adds_def)

theorem histogram_counts_witness:
  "\<exists>hs. add_values some_adds (hist_clear (set_time_slice 60 hist_new)) = Some hs
    \<and> row_total 60 Hist_error (hist_rows hs) = 2"
proof -
  have s: "hs_time_slice (set_time_slice 60 hist_new) = 60" by (simp add: set_time_slice_def)
  have "added_total 60 60 Hist_error some_adds = 2"
    by (simp add: added_total_def some_adds_def rounddown_nonneg)
  then show ?thesis
    using histogram_counts [of "set_time_slice 60 hist_new", OF _ some_adds_ok] by (auto simp: s)
qed

text \<open>
  Every value that was added can be found again: the row that \<open>row_for_time\<close> gives for its time is a
  row of the histogram, and starts at the slice of that time.
\<close>

theorem added_times_found:
  assumes "0 < hs_time_slice hs0" "adds_ok adds" "(t, h, v) \<in> set adds" "0 < v"
    and "add_values adds (hist_clear hs0) = Some hs"
  shows "\<exists>row. row_for_time (t div 1000000, t mod 1000000) hs = Some row \<and> int row < hs_line_count hs
    \<and> b_time (bucket_at (int row) hs) = rounddown t (hs_time_slice hs0)"
proof -
  have hs: "hist_holds hs (hist_rows hs)" "hs_time_slice hs = hs_time_slice hs0"
      "row_total (rounddown t (hs_time_slice hs0)) h (hist_rows hs)
        = added_total (hs_time_slice hs0) (rounddown t (hs_time_slice hs0)) h adds"
    using add_values_rows [OF assms(1,2)] assms(5) by auto
  let ?f = "\<lambda>(t', h', v). if rounddown t' (hs_time_slice hs0) = rounddown t (hs_time_slice hs0) \<and> h' = h then v else 0"
  have "0 < (\<Sum>a\<leftarrow>adds. ?f a)"
  proof -
    obtain pre post where adds: "adds = pre @ (t, h, v) # post" using assms(3) by (meson split_list)
    have f: "0 \<le> ?f a" if "a \<in> set adds" for a
      using assms(2) that by (cases a) (auto simp: adds_ok_def)
    have "0 \<le> (\<Sum>a\<leftarrow>pre. ?f a)" "0 \<le> (\<Sum>a\<leftarrow>post. ?f a)"
      by (rule sum_list_nonneg, use f in \<open>auto simp: adds\<close>)+
    then show ?thesis using assms(4) by (simp add: adds)
  qed
  then have "row_total (rounddown t (hs_time_slice hs0)) h (hist_rows hs) \<noteq> 0"
    using hs(3) by (simp add: added_total_def)
  moreover have "row_total x h rows = 0" if "\<forall>b\<in>set rows. b_time b \<noteq> x" for x rows
    unfolding row_total_def by (rule sum_list_zero) (use that in auto)
  ultimately obtain b where "b \<in> set (hist_rows hs)" "b_time b = rounddown t (hs_time_slice hs0)"
    by blast
  then obtain i where i: "i < length (hist_rows hs)" "b_time (hist_rows hs ! i) = rounddown t (hs_time_slice hs)"
    using hs(2) by (metis in_set_conv_nth)
  have "0 \<le> t" using assms(2,3) by (auto simp: adds_ok_def)
  then have "row_for_time (t div 1000000, t mod 1000000) hs = Some i"
    using row_for_time_row [OF hs(1) i(1)] i(2) by simp
  moreover have "int i < hs_line_count hs" using hs(1) i(1) by (simp add: hist_holds_def)
  moreover have "bucket_at (int i) hs = hist_rows hs ! i"
    using hs(1) i(1) blocks_hold_bucket [of hs "hist_rows hs" i] by (simp add: hist_holds_def)
  ultimately show ?thesis using i(2) hs(2) by auto
qed

theorem added_times_found_witness:
  "\<exists>hs row. add_values some_adds (hist_clear (set_time_slice 60 hist_new)) = Some hs
    \<and> row_for_time (0, 70) hs = Some row \<and> b_time (bucket_at (int row) hs) = 60"
proof -
  have s: "hs_time_slice (set_time_slice 60 hist_new) = 60" by (simp add: set_time_slice_def)
  obtain hs where hs: "add_values some_adds (hist_clear (set_time_slice 60 hist_new)) = Some hs"
    using add_values_rows [of "set_time_slice 60 hist_new", OF _ some_adds_ok] by (auto simp: s)
  have "(70, Hist_error, 1) \<in> set some_adds" by (simp add: some_adds_def)
  from added_times_found [OF _ some_adds_ok this _ hs] hs show ?thesis
    by (auto simp: s rounddown_nonneg)
qed

subsection \<open>The histogram of the visible rows\<close>

definition adds_of :: "logline \<Rightarrow> hist_adds" where
  "adds_of ll =
    (if ll_continued ll \<or> ll_time ll = 0 then []
     else (ll_time ll, hist_type_of (ll_level ll), 1)
       # (if ll_mark ll \<or> ll_expr_mark ll then [(ll_time ll, Hist_mark, 1)] else []))"

fun index_lines :: "logline list \<Rightarrow> hist_source \<Rightarrow> hist_source option" where
  "index_lines [] hs = Some hs"
| "index_lines (ll # lls) hs =
    (case hist_index_line ll hs of None \<Rightarrow> None | Some hs1 \<Rightarrow> index_lines lls hs1)"

lemma add_values_append:
  "add_values (xs @ ys) hs = (case add_values xs hs of None \<Rightarrow> None | Some hs1 \<Rightarrow> add_values ys hs1)"
  by (induction xs arbitrary: hs) (auto split: option.splits)

lemma index_lines_adds: "index_lines lls hs = add_values (concat (map adds_of lls)) hs"
proof (induction lls arbitrary: hs)
  case (Cons ll lls)
  have "hist_index_line ll hs = add_values (adds_of ll) hs"
    by (auto simp: hist_index_line_def adds_of_def split: option.splits)
  then show ?case using Cons by (simp add: add_values_append split: option.split)
qed simp

lemma adds_of_ok:
  assumes "sorted (map ll_time lls)" "\<forall>ll\<in>set lls. 0 \<le> ll_time ll \<and> ll_time ll < 2 ^ 63"
  shows "adds_ok (concat (map adds_of lls))"
proof -
  have t: "fst a = ll_time ll" if "a \<in> set (adds_of ll)" for a ll
    using that by (auto simp: adds_of_def split: if_splits)
  have "sorted (map fst (concat (map adds_of lls)))"
    using assms(1)
  proof (induction lls)
    case (Cons ll lls)
    have "ll_time ll \<le> fst a" if "a \<in> set (concat (map adds_of lls))" for a
    proof -
      obtain x where "x \<in> set lls" "a \<in> set (adds_of x)" using \<open>a \<in> set (concat (map adds_of lls))\<close> by auto
      then show ?thesis using Cons.prems t [of a x] by auto
    qed
    then have "\<forall>x\<in>set (map fst (adds_of ll)). \<forall>y\<in>set (map fst (concat (map adds_of lls))). x \<le> y"
      using t by fastforce
    moreover have "sorted (map fst (adds_of ll))" by (simp add: adds_of_def)
    moreover have "sorted (map fst (concat (map adds_of lls)))" using Cons by simp
    ultimately show ?case by (simp add: sorted_append)
  qed simp
  moreover have "0 \<le> t' \<and> t' < 2 ^ 63 \<and> 0 \<le> v" if "(t', h, v) \<in> set (adds_of ll)" "ll \<in> set lls" for t' h v ll
    using that assms(2) by (auto simp: adds_of_def split: if_splits)
  ultimately show ?thesis unfolding adds_ok_def by auto
qed

text \<open>Whether a line counts for a type: marked lines count twice, as a mark as well.\<close>

definition counts_as :: "hist_type \<Rightarrow> logline \<Rightarrow> bool" where
  "counts_as h ll \<longleftrightarrow> \<not> ll_continued ll \<and> ll_time ll \<noteq> 0
    \<and> (if h = Hist_mark then ll_mark ll \<or> ll_expr_mark ll else hist_type_of (ll_level ll) = h)"

lemma added_total_lines:
  "added_total step t h (concat (map adds_of lls))
    = of_nat (length (filter (\<lambda>ll. counts_as h ll \<and> rounddown (ll_time ll) step = t) lls))"
proof (induction lls)
  case (Cons ll lls)
  have "hist_type_of l \<noteq> Hist_mark" for l by (simp add: hist_type_of_def)
  then have "added_total step t h (adds_of ll) = (if counts_as h ll \<and> rounddown (ll_time ll) step = t then 1 else 0)"
    by (auto simp: added_total_def adds_of_def counts_as_def)
  then show ?case using Cons by (simp add: added_total_def)
qed (simp add: added_total_def)

lemma told_lines:
  assumes "files_ok (views s)" "index_ok s" "rows_ok s" "lss_delegate s = Some ls"
  shows "map (\<lambda>cl. the (find_line cl s)) ls = map (row_line s) [0..<text_line_count s]"
proof -
  have "ls = map (\<lambda>k. ic_value (lss_index s ! k)) (lss_filtered_index s)"
    using assms(3,4) by (simp add: rows_ok_def)
  also have "\<dots> = map (\<lambda>k. ic_value (lss_index s ! k)) (map ((!) (lss_filtered_index s)) [0..<length (lss_filtered_index s)])"
    by (simp only: map_nth)
  also have "\<dots> = map (\<lambda>vl. at_row vl s) [0..<text_line_count s]"
    by (simp add: at_row_def text_line_count_def)
  finally show ?thesis by (simp add: row_line_def)
qed

text \<open>
  C11: The histogram that the index delegate builds from the lines it was told of agrees with what the log view
  shows: in the rows of each slice of time it counts, for each type, exactly the visible rows of the
  index that are messages of that type in the slice (and the marked ones as marks). Times are not before 1970.
\<close>

theorem histogram_of_visible_rows:
  assumes "files_ok (views s)" "index_ok s" "rows_ok s" "lss_delegate s = Some ls"
    and "0 < hs_time_slice hs0"
    and "\<forall>vl<text_line_count s. 0 \<le> ll_time (row_line s vl) \<and> ll_time (row_line s vl) < 2 ^ 63"
  shows "\<exists>hs. index_lines (map (\<lambda>cl. the (find_line cl s)) ls) (hist_clear hs0) = Some hs
    \<and> (\<forall>t h. row_total t h (hist_rows hs) = of_nat (card {vl. vl < text_line_count s
        \<and> counts_as h (row_line s vl) \<and> rounddown (ll_time (row_line s vl)) (hs_time_slice hs0) = t}))"
proof -
  define lls where "lls = map (row_line s) [0..<text_line_count s]"
  have "sorted (map ll_time lls)"
    using rows_lines(2) [OF assms(1-3)] by (auto simp: lls_def sorted_iff_nth_mono)
  moreover have "\<forall>ll\<in>set lls. 0 \<le> ll_time ll \<and> ll_time ll < 2 ^ 63" using assms(6) by (simp add: lls_def)
  ultimately have ok: "adds_ok (concat (map adds_of lls))" by (rule adds_of_ok)
  have "length (filter P lls) = card {vl. vl < text_line_count s \<and> P (row_line s vl)}" for P
    by (auto simp: lls_def length_filter_conv_card intro!: arg_cong [where f = card])
  then show ?thesis
    using add_values_rows [OF assms(5) ok]
    by (auto simp: told_lines [OF assms(1-4)] lls_def [symmetric] index_lines_adds added_total_lines)
qed

theorem histogram_of_visible_rows_witness:
  "\<exists>hs. index_lines (map (\<lambda>cl. the (find_line cl demo_source)) [0, 1]) (hist_clear hist_new) = Some hs
    \<and> row_total 0 Hist_normal (hist_rows hs)
      = of_nat (card {vl. vl < 2 \<and> counts_as Hist_normal (row_line demo_source vl)
          \<and> rounddown (ll_time (row_line demo_source vl)) 60000000 = 0})"
proof -
  have n: "text_line_count demo_source = 2" "lss_delegate demo_source = Some [0, 1]"
      "hs_time_slice hist_new = 60000000"
    by (simp_all add: text_line_count_def demo_source_def hist_new_def hist_clear_def hist_init_def)
  have "ll_time (row_line demo_source 0) = 1000000" "ll_time (row_line demo_source 1) = 5000000"
    by code_simp+
  then have "\<forall>vl<2. 0 \<le> ll_time (row_line demo_source vl) \<and> ll_time (row_line demo_source vl) < 2 ^ 63"
    by (auto simp: less_2_cases_iff)
  then show ?thesis
    using histogram_of_visible_rows [OF demo_rows_ok n(2), of hist_new] by (auto simp: n)
qed

lemma update_bucket_times [simp]:
  "hs_time_slice (update_bucket k f hs) = hs_time_slice hs" "hs_last_ts (update_bucket k f hs) = hs_last_ts hs"
  by (simp_all add: update_bucket_def write_bucket_def find_bucket_def Let_def)

lemma end_of_row_slice [simp]: "hs_time_slice (end_of_row hs) = hs_time_slice hs"
proof -
  have "same_blocks (find_bucket k hs) (fold end_of_value hist_types (find_bucket k hs))" for k
    using end_of_values by blast
  then have "hs_time_slice (fold end_of_value hist_types (find_bucket k hs)) = hs_time_slice hs" for k
    using same_blocks_fields(4) by (fastforce simp: find_bucket_def Let_def)
  then show ?thesis by (simp add: end_of_row_def Let_def)
qed

text \<open>
  Below the epoch the time is rounded towards zero, so the row starts after its own messages: the
  second of two messages of the same time fails the check that the times do not go back.
\<close>

lemma same_time_before_epoch:
  assumes "hist_add_value t h v hs = Some hs1" "t < 0" "t smod hs_time_slice hs \<noteq> 0" "0 < hs_time_slice hs"
  shows "hist_add_value t h' v' hs1 = None"
proof -
  have "hs_last_ts hs1 = rounddown t (hs_time_slice hs)"
    using assms(1) by (auto simp: hist_add_value_def start_row_def Let_def split: if_splits)
  moreover have "t smod hs_time_slice hs < 0"
    using assms(2-4) pos_mod_sign [of "hs_time_slice hs" "- t"]
    by (auto simp: signed_modulo_int_def less_le)
  ultimately show ?thesis by (simp add: hist_add_value_def rounddown_def)
qed

end
