(* ===== verification/Attr_Line.thy ===== *)
theory Attr_Line
  imports Lnav_Prelude "HOL-Library.Monad_Syntax"
begin

text \<open>
  Lines of text with attributes (\<open>src/base/attr_line.cc\<close>, \<open>.hh\<close>, \<open>src/base/line_range.hh\<close>): the text of
  every view is a string and a vector of attributes, each with the range of bytes it covers. The
  operations on the text have to shift the ranges. A string is a list of bytes; \<open>None\<close> is the
  exception of \<open>std::string\<close> for a place past the end, or a failed \<open>require\<close>. The value of an attribute
  is a variant that these operations only copy, and stays a type parameter. The ends of a range are
  \<open>int\<close> in the code, to which sizes are cast; here they are integers, which is the same for texts of less
  than 2^31 bytes (\<open>ranges_fit_int\<close> in \<open>Attr_Line_Spec\<close>).
\<close>

section \<open>Ranges\<close>

datatype range_unit = Unit_bytes | Unit_codepoint

record line_range =
  lr_start :: int
  lr_end :: int
  lr_unit :: range_unit

definition line_range_of :: "int \<Rightarrow> int \<Rightarrow> line_range" where
  "line_range_of s e = \<lparr>lr_start = s, lr_end = e, lr_unit = Unit_bytes\<rparr>"

definition INT_MAX :: int where
  "INT_MAX = 2 ^ 31 - 1"

text \<open>An \<open>int\<close> that is passed where a \<open>size_t\<close> is expected.\<close>

definition to_size_t :: "int \<Rightarrow> nat" where
  "to_size_t i = nat (i mod 2 ^ 64)"

definition lr_is_valid :: "line_range \<Rightarrow> bool" where
  "lr_is_valid lr \<longleftrightarrow> lr_start lr \<noteq> - 1"

definition lr_length :: "line_range \<Rightarrow> int" where
  "lr_length lr = (if lr_end lr = - 1 then INT_MAX else lr_end lr - lr_start lr)"

definition lr_empty :: "line_range \<Rightarrow> bool" where
  "lr_empty lr \<longleftrightarrow> lr_length lr = 0"

definition end_for_string :: "line_range \<Rightarrow> string \<Rightarrow> int" where
  "end_for_string lr str = (if lr_end lr = - 1 then int (length str) else lr_end lr)"

definition lr_contains :: "line_range \<Rightarrow> int \<Rightarrow> bool" where
  "lr_contains lr pos \<longleftrightarrow> lr_start lr \<le> pos \<and> (lr_end lr = - 1 \<or> pos < lr_end lr)"

definition lr_contains_range :: "line_range \<Rightarrow> line_range \<Rightarrow> bool" where
  "lr_contains_range lr other \<longleftrightarrow>
    lr_contains lr (lr_start other) \<and> (lr_end lr = - 1 \<or> lr_end other \<le> lr_end lr)"

definition lr_intersects :: "line_range \<Rightarrow> line_range \<Rightarrow> bool" where
  "lr_intersects lr other \<longleftrightarrow>
    lr_contains lr (lr_start other)
    \<or> (lr_end other > 0 \<and> lr_contains lr (lr_end other - 1))
    \<or> lr_contains other (lr_start lr)"

definition lr_intersection :: "line_range \<Rightarrow> line_range \<Rightarrow> line_range" where
  "lr_intersection lr other =
    (let actual_end =
      (if lr_end lr = - 1 then lr_end other
       else if lr_end other = - 1 then lr_end lr
       else min (lr_end lr) (lr_end other))
     in line_range_of (max (lr_start lr) (lr_start other)) actual_end)"

definition lr_shift_range :: "line_range \<Rightarrow> int \<Rightarrow> line_range \<Rightarrow> line_range" where
  "lr_shift_range cover amount lr =
    (if lr_end cover \<le> lr_start lr
     then lr\<lparr>lr_start := max 0 (lr_start lr + amount),
             lr_end := (if lr_end lr \<noteq> - 1 then max 0 (lr_end lr + amount) else lr_end lr)\<rparr>
     else let lr1 = (if amount < 0 \<and> lr_contains_range cover lr then lr\<lparr>lr_start := lr_start cover\<rparr> else lr) in
       if lr_end lr1 \<noteq> - 1 \<and> lr_start cover < lr_end lr1
       then lr1\<lparr>lr_end :=
         (if amount < 0 \<and> amount < lr_start cover - lr_end lr1 then lr_start cover
          else max (lr_start lr1) (lr_end lr1 + amount))\<rparr>
       else lr1)"

definition lr_shift :: "int \<Rightarrow> int \<Rightarrow> line_range \<Rightarrow> line_range" where
  "lr_shift start amount lr =
    (if start = lr_start lr
     then let lr1 = (if amount > 0 then lr\<lparr>lr_start := lr_start lr + amount\<rparr> else lr) in
       if lr_end lr1 \<noteq> - 1 then lr1\<lparr>lr_end := max (lr_start lr1) (lr_end lr1 + amount)\<rparr> else lr1
     else if start < lr_start lr
     then lr\<lparr>lr_start := max 0 (lr_start lr + amount),
             lr_end := (if lr_end lr \<noteq> - 1 then max 0 (lr_end lr + amount) else lr_end lr)\<rparr>
     else if lr_end lr \<noteq> - 1 \<and> start < lr_end lr
     then lr\<lparr>lr_end :=
       (if amount < 0 \<and> amount < start - lr_end lr then start + amount
        else max (lr_start lr) (lr_end lr + amount))\<rparr>
     else lr)"

text \<open>The order of ranges: at the same start an empty range comes first, then the longer one.\<close>

definition lr_less :: "line_range \<Rightarrow> line_range \<Rightarrow> bool" where
  "lr_less lr rhs \<longleftrightarrow>
    (if lr_start lr < lr_start rhs then True
     else if lr_start lr > lr_start rhs then False
     else if lr_end lr = lr_end rhs then False
     else if lr_empty lr then True
     else if lr_empty rhs then False
     else if lr_end rhs = - 1 then False
     else lr_end lr = - 1 \<or> lr_end lr > lr_end rhs)"

definition lr_sublen :: "line_range \<Rightarrow> string \<Rightarrow> int" where
  "lr_sublen lr str =
    (if lr_start lr = - 1 then int (length str)
     else if lr_end lr = - 1 then int (length str) - lr_start lr
     else lr_length lr)"

section \<open>Attributes\<close>

datatype attr_type =
    SA_ORIGINAL_LINE | SA_BODY | SA_SRC_FILE | SA_SRC_LINE | SA_SRC_LOC | SA_THREAD_ID | SA_DURATION
  | SA_EXTRA_CONTENT | SA_HIDDEN | SA_REPLACED | SA_FORMAT | SA_REMOVED | SA_PREFORMATTED | SA_INVALID
  | SA_ERROR | SA_LEVEL | SA_ORIGIN_OFFSET | SA_QUOTED_TEXT
  | VC_ANCHOR | VC_ROLE | VC_ROLE_FG | VC_STYLE | VC_GRAPHIC | VC_BLOCK_ELEM | VC_FOREGROUND
  | VC_BACKGROUND | VC_HYPERLINK | VC_ICON | VC_COMMAND

record 'v string_attr =
  sa_range :: line_range
  sa_type :: attr_type
  sa_value :: 'v

definition string_attr_of :: "line_range \<Rightarrow> attr_type \<times> 'v \<Rightarrow> 'v string_attr" where
  "string_attr_of lr value = \<lparr>sa_range = lr, sa_type = fst value, sa_value = snd value\<rparr>"

definition shift_string_attrs :: "int \<Rightarrow> int \<Rightarrow> 'v string_attr list \<Rightarrow> 'v string_attr list" where
  "shift_string_attrs start amount sa = map (\<lambda>a. a\<lparr>sa_range := lr_shift start amount (sa_range a)\<rparr>) sa"

definition shift_string_attrs_range :: "line_range \<Rightarrow> int \<Rightarrow> 'v string_attr list \<Rightarrow> 'v string_attr list" where
  "shift_string_attrs_range cover amount sa =
    map (\<lambda>a. a\<lparr>sa_range := lr_shift_range cover amount (sa_range a)\<rparr>) sa"

text \<open>An iterator is the index of an element; the end of the vector is \<open>None\<close>.\<close>

fun first_index :: "('a \<Rightarrow> bool) \<Rightarrow> 'a list \<Rightarrow> nat option" where
  "first_index P [] = None"
| "first_index P (x # xs) = (if P x then Some 0 else map_option Suc (first_index P xs))"

definition find_string_attr :: "'v string_attr list \<Rightarrow> attr_type \<Rightarrow> int \<Rightarrow> nat option" where
  "find_string_attr sa type start = first_index (\<lambda>a. sa_type a = type \<and> lr_start (sa_range a) \<ge> start) sa"

definition find_string_attr_containing :: "'v string_attr list \<Rightarrow> attr_type \<Rightarrow> int \<Rightarrow> nat option" where
  "find_string_attr_containing sa type x = first_index (\<lambda>a. sa_type a = type \<and> lr_contains (sa_range a) x) sa"

definition find_string_attr_in :: "'v string_attr list \<Rightarrow> line_range \<Rightarrow> nat option" where
  "find_string_attr_in sa lr = first_index (\<lambda>a. lr_contains_range lr (sa_range a)) sa"

definition find_string_attr_range :: "'v string_attr list \<Rightarrow> attr_type \<Rightarrow> line_range" where
  "find_string_attr_range sa type =
    (case find_string_attr sa type 0 of Some i \<Rightarrow> sa_range (sa ! i) | None \<Rightarrow> line_range_of (- 1) (- 1))"

fun nearest_before :: "int \<Rightarrow> nat \<Rightarrow> int \<Rightarrow> nat option \<Rightarrow> 'v string_attr list \<Rightarrow> nat option" where
  "nearest_before near i last_diff nearest [] = nearest"
| "nearest_before near i last_diff nearest (a # sa) =
    (let lr = sa_range a; diff = near - lr_start lr in
     if \<not> lr_is_valid lr \<or> \<not> lr_contains lr near then nearest_before near (Suc i) last_diff nearest sa
     else if diff < last_diff then nearest_before near (Suc i) diff (Some i) sa
     else nearest_before near (Suc i) last_diff nearest sa)"

definition find_string_attr_near :: "'v string_attr list \<Rightarrow> int \<Rightarrow> nat option" where
  "find_string_attr_near sa near = nearest_before near 0 INT_MAX None sa"

definition remove_string_attr :: "attr_type \<Rightarrow> 'v string_attr list \<Rightarrow> 'v string_attr list" where
  "remove_string_attr type sa = filter (\<lambda>a. sa_type a \<noteq> type) sa"

lemma first_index_Some: "first_index P xs = Some i \<Longrightarrow> i < length xs \<and> P (xs ! i) \<and> (\<forall>j < i. \<not> P (xs ! j))"
proof (induction xs arbitrary: i)
  case (Cons x xs)
  then show ?case by (auto simp: less_Suc_eq_0_disj split: if_splits)
qed simp

lemma first_index_None: "first_index P xs = None \<longleftrightarrow> (\<forall>x \<in> set xs. \<not> P x)"
  by (induction xs) auto

text \<open>The attributes in a range are looked up and erased until there is none left.\<close>

function remove_string_attrs_in :: "line_range \<Rightarrow> 'v string_attr list \<Rightarrow> 'v string_attr list" where
  "remove_string_attrs_in lr sa =
    (case find_string_attr_in sa lr of
       None \<Rightarrow> sa
     | Some i \<Rightarrow> remove_string_attrs_in lr (take i sa @ drop (Suc i) sa))"
  by pat_completeness auto

termination
  by (relation "measure (\<lambda>(lr, sa). length sa)") (auto simp: find_string_attr_in_def dest!: first_index_Some)

section \<open>Attributed lines\<close>

record 'v attr_line =
  al_string :: string
  al_attrs :: "'v string_attr list"

definition al_of :: "string \<Rightarrow> 'v attr_line" where
  "al_of str = \<lparr>al_string = str, al_attrs = []\<rparr>"

text \<open>\<open>std::string::insert\<close>, \<open>erase\<close>, \<open>substr\<close> and \<open>replace\<close>.\<close>

definition str_insert :: "nat \<Rightarrow> string \<Rightarrow> string \<Rightarrow> string option" where
  "str_insert index s str = (if index \<le> length str then Some (take index str @ s @ drop index str) else None)"

definition str_erase :: "nat \<Rightarrow> nat \<Rightarrow> string \<Rightarrow> string option" where
  "str_erase pos len str = (if pos \<le> length str then Some (take pos str @ drop (pos + len) str) else None)"

definition str_substr :: "nat \<Rightarrow> nat \<Rightarrow> string \<Rightarrow> string option" where
  "str_substr pos len str = (if pos \<le> length str then Some (take len (drop pos str)) else None)"

definition str_replace :: "nat \<Rightarrow> nat \<Rightarrow> string \<Rightarrow> string \<Rightarrow> string option" where
  "str_replace pos len s str =
    (if pos \<le> length str then Some (take pos str @ s @ drop (pos + len) str) else None)"

text \<open>The maximum is taken of unsigned sizes and returned as a signed one.\<close>

definition unsigned_max :: "int \<Rightarrow> int \<Rightarrow> int" where
  "unsigned_max retval i = max retval (if i < 0 then i + 2 ^ 64 else i)"

definition al_length :: "'v attr_line \<Rightarrow> int" where
  "al_length al =
    (let n = foldl (\<lambda>retval a. let retval = unsigned_max retval (lr_start (sa_range a)) in
          if lr_end (sa_range a) \<noteq> - 1 then unsigned_max retval (lr_end (sa_range a)) else retval)
        (int (length (al_string al))) (al_attrs al)
     in if n < 2 ^ 63 then n else n - 2 ^ 64)"

definition al_empty :: "'v attr_line \<Rightarrow> bool" where
  "al_empty al \<longleftrightarrow> al_length al = 0"

definition with_attr :: "'v string_attr \<Rightarrow> 'v attr_line \<Rightarrow> 'v attr_line" where
  "with_attr sa al = al\<lparr>al_attrs := al_attrs al @ [sa]\<rparr>"

definition with_attr_for_all :: "attr_type \<times> 'v \<Rightarrow> 'v attr_line \<Rightarrow> 'v attr_line" where
  "with_attr_for_all sap = with_attr (string_attr_of (line_range_of 0 (- 1)) sap)"

definition append_str :: "string \<Rightarrow> 'v attr_line \<Rightarrow> 'v attr_line" where
  "append_str s al = al\<lparr>al_string := al_string al @ s\<rparr>"

definition append_with :: "string \<Rightarrow> attr_type \<times> 'v \<Rightarrow> 'v attr_line \<Rightarrow> 'v attr_line" where
  "append_with s value al =
    (let start_len = length (al_string al); al1 = append_str s al in
     with_attr (string_attr_of (line_range_of (int start_len) (int (length (al_string al1)))) value) al1)"

definition ensure_space :: "'v attr_line \<Rightarrow> 'v attr_line" where
  "ensure_space al =
    (if al_string al \<noteq> [] \<and> last (al_string al) \<noteq> CHR '' '' \<and> last (al_string al) \<noteq> CHR ''[''
     then append_str '' '' al else al)"

definition insert_str :: "nat \<Rightarrow> string \<Rightarrow> 'v attr_line \<Rightarrow> 'v attr_line option" where
  "insert_str index s al = do {
     str \<leftarrow> str_insert index s (al_string al);
     Some (al\<lparr>al_string := str,
             al_attrs := shift_string_attrs (int index) (int (length s)) (al_attrs al)\<rparr>)
   }"

definition insert_with :: "nat \<Rightarrow> string \<Rightarrow> attr_type \<times> 'v \<Rightarrow> 'v attr_line \<Rightarrow> 'v attr_line option" where
  "insert_with index s value al = do {
     al1 \<leftarrow> insert_str index s al;
     Some (with_attr (string_attr_of
       (line_range_of (int index) (int index + int (length (al_string al1) - length (al_string al)))) value) al1)
   }"

text \<open>An attribute of the inserted line that has no end gets the end of the inserted text.\<close>

definition inserted_attr :: "nat \<Rightarrow> nat \<Rightarrow> 'v string_attr \<Rightarrow> 'v string_attr" where
  "inserted_attr index len sa =
    (let lr = lr_shift 0 (int index) (sa_range sa) in
     sa\<lparr>sa_range := (if lr_end lr = - 1 then lr\<lparr>lr_end := int (index + len)\<rparr> else lr)\<rparr>)"

definition insert_line :: "nat \<Rightarrow> 'v attr_line \<Rightarrow> 'v attr_line \<Rightarrow> 'v attr_line option" where
  "insert_line index al2 al = do {
     let len = length (al_string al2);
     let attrs = (if index < length (al_string al) then shift_string_attrs (int index) (int len) (al_attrs al)
       else al_attrs al);
     str \<leftarrow> str_insert index (al_string al2) (al_string al);
     Some \<lparr>al_string = str, al_attrs = attrs @ map (inserted_attr index len) (al_attrs al2)\<rparr>
   }"

definition append_line :: "'v attr_line \<Rightarrow> 'v attr_line \<Rightarrow> 'v attr_line option" where
  "append_line al2 al = insert_line (length (al_string al)) al2 al"

text \<open>\<open>None\<close> for the length is \<open>npos\<close>.\<close>

definition al_erase :: "nat \<Rightarrow> nat option \<Rightarrow> 'v attr_line \<Rightarrow> 'v attr_line option" where
  "al_erase pos len0 al =
    (let len = (case len0 of None \<Rightarrow> length (al_string al) - pos | Some l \<Rightarrow> l) in
     if len0 = None \<and> pos > length (al_string al) then None
     else if len = 0 then Some al
     else do {
       str \<leftarrow> str_erase pos len (al_string al);
       Some \<lparr>al_string = str,
         al_attrs = filter (\<lambda>a. \<not> lr_empty (sa_range a))
           (shift_string_attrs_range (line_range_of (int pos) (int pos + int len)) (- int len) (al_attrs al))\<rparr>
     })"

fun rtrim_index :: "(char \<Rightarrow> bool) \<Rightarrow> 'v attr_line \<Rightarrow> nat \<Rightarrow> nat" where
  "rtrim_index trimmed al index =
    (if index = 0 then 0
     else if find_string_attr_containing (al_attrs al) SA_PREFORMATTED (int (index - 1)) \<noteq> None then index
     else if \<not> trimmed (al_string al ! (index - 1)) then index
     else rtrim_index trimmed al (index - 1))"

declare rtrim_index.simps [simp del]

text \<open>\<open>strchr\<close> also finds the terminating NUL of the characters to trim.\<close>

definition al_rtrim :: "string option \<Rightarrow> 'v attr_line \<Rightarrow> 'v attr_line option" where
  "al_rtrim chars al =
    (let trimmed = (case chars of Some cs \<Rightarrow> \<lambda>c. c \<in> set cs \<or> c = CHR 0x00 | None \<Rightarrow> isspace);
         index = rtrim_index trimmed al (length (al_string al))
     in if index > 0 \<and> index < length (al_string al) then al_erase index None al else Some al)"

definition right_justify :: "nat \<Rightarrow> 'v attr_line \<Rightarrow> 'v attr_line" where
  "right_justify width al =
    (let padding = int width - al_length al in
     if padding > 0
     then \<lparr>al_string = replicate (nat padding) (CHR '' '') @ al_string al,
       al_attrs = map (\<lambda>a. let lr = sa_range a in a\<lparr>sa_range := lr\<lparr>
           lr_start := (if lr_start lr > 0 then lr_start lr + padding else lr_start lr),
           lr_end := (if lr_end lr \<noteq> - 1 then lr_end lr + padding else lr_end lr)\<rparr>\<rparr>) (al_attrs al)\<rparr>
     else al)"

text \<open>\<open>column_width\<close> is the sum of the widths of the characters, as the Unicode library has them.\<close>

definition pad_to :: "(string \<Rightarrow> nat) \<Rightarrow> int \<Rightarrow> 'v attr_line \<Rightarrow> 'v attr_line" where
  "pad_to column_width width al =
    (let curr_len = int (column_width (al_string al)) in
     if curr_len < width
     then let al1 = append_str (replicate (nat (width - curr_len)) (CHR '' '')) al in
       al1\<lparr>al_attrs := map (\<lambda>a. if lr_start (sa_range a) = 0 \<and> lr_end (sa_range a) = curr_len
           then a\<lparr>sa_range := (sa_range a)\<lparr>lr_end := int (length (al_string al1))\<rparr>\<rparr> else a) (al_attrs al1)\<rparr>
     else al)"

definition sub_attr :: "line_range \<Rightarrow> 'v string_attr \<Rightarrow> 'v string_attr" where
  "sub_attr lr sa =
    string_attr_of (lr_shift 0 (- lr_start lr) (lr_intersection lr (sa_range sa))) (sa_type sa, sa_value sa)"

definition subline :: "nat \<Rightarrow> nat option \<Rightarrow> 'v attr_line \<Rightarrow> 'v attr_line option" where
  "subline start len0 al = do {
     let len = (case len0 of None \<Rightarrow> length (al_string al) - start | Some l \<Rightarrow> l);
     let lr = line_range_of (int start) (int (start + len));
     str \<leftarrow> str_substr start len (al_string al);
     let attrs = map (sub_attr lr) (filter (\<lambda>sa. lr_intersects lr (sa_range sa)) (al_attrs al));
     if \<forall>a \<in> set attrs. lr_end (sa_range a) \<le> int (length str)
     then Some \<lparr>al_string = str, al_attrs = attrs\<rparr> else None
   }"

text \<open>
  \<open>split_lines\<close> finds the ends of the lines, keeps each line under the interval of its bytes (a blank
  one under its newline), hands each attribute to the intervals that it overlaps, and
  takes the lines in the order of the intervals. The interval tree is a library: it is
  the ordered list of its disjoint intervals.
\<close>

function line_intervals :: "string \<Rightarrow> nat \<Rightarrow> (nat \<times> nat \<times> string) list" where
  "line_intervals str pos =
    (case first_index (\<lambda>c. c = CHR 0x0A) (drop pos str) of
       Some k \<Rightarrow> (pos, if k > 0 then pos + k - 1 else pos + k, take k (drop pos str))
           # line_intervals str (pos + k + 1)
     | None \<Rightarrow> if pos < length str then [(pos, length str - 1, drop pos str)] else [])"
  by pat_completeness auto

termination
  by (relation "measure (\<lambda>(str, pos). length str - pos)") (auto dest!: first_index_Some)

declare line_intervals.simps [simp del]

definition overlapping :: "string \<Rightarrow> nat \<Rightarrow> nat \<Rightarrow> 'v string_attr \<Rightarrow> bool" where
  "overlapping str start stop sa \<longleftrightarrow>
    \<not> lr_empty (sa_range sa) \<and> to_size_t (lr_start (sa_range sa)) \<le> stop
    \<and> start \<le> to_size_t (end_for_string (sa_range sa) str - 1)"

definition split_lines :: "'v attr_line \<Rightarrow> 'v attr_line list" where
  "split_lines al =
    map (\<lambda>(start, stop, line). \<lparr>al_string = line,
        al_attrs = map (sub_attr (line_range_of (int start) (int stop + 1)))
          (filter (overlapping (al_string al) start stop) (al_attrs al))\<rparr>)
      (line_intervals (al_string al) 0)"

fun back_over_space :: "string \<Rightarrow> nat \<Rightarrow> nat" where
  "back_over_space str x = (if x > 0 \<and> isspace (str_at str x) then back_over_space str (x - 1) else x)"

declare back_over_space.simps [simp del]

definition nearest_text :: "nat \<Rightarrow> 'v attr_line \<Rightarrow> nat" where
  "nearest_text x al =
    back_over_space (al_string al)
      (if x > 0 \<and> int x \<ge> al_length al then (if al_empty al then 0 else nat (al_length al - 1)) else x)"

section \<open>Hidden and replaced text\<close>

definition remove_styles :: "line_range \<Rightarrow> 'v string_attr list \<Rightarrow> 'v string_attr list" where
  "remove_styles lr sa =
    map (\<lambda>a. if sa_type a = VC_STYLE \<and> lr_contains_range lr (sa_range a) then a\<lparr>sa_type := SA_REMOVED\<rparr> else a) sa"

definition end_attr :: "nat \<Rightarrow> attr_type \<Rightarrow> int \<Rightarrow> 'v string_attr list \<Rightarrow> 'v string_attr list" where
  "end_attr i type len sa =
    (let a = sa ! i; lr = sa_range a in
     sa[i := a\<lparr>sa_type := type, sa_range := lr\<lparr>lr_end := lr_start lr + len\<rparr>\<rparr>])"

text \<open>The icon of hidden text is the three bytes of a vertical ellipsis.\<close>

definition hide_icon :: string where
  "hide_icon = [CHR 0xE2, CHR 0x8B, CHR 0xAE]"

definition hide_one :: "nat \<Rightarrow> 'v attr_line \<Rightarrow> 'v attr_line option" where
  "hide_one i al =
    (let lr = sa_range (al_attrs al ! i); len = lr_length lr in
     if sa_type (al_attrs al ! i) = SA_HIDDEN
     then do {
       str \<leftarrow> str_replace (to_size_t (lr_start lr)) (to_size_t len) hide_icon (al_string al);
       Some \<lparr>al_string = str, al_attrs = end_attr i VC_ICON 3
         (shift_string_attrs (lr_start lr + 1) (- (len - 3)) (remove_styles lr (al_attrs al)))\<rparr>
     }
     else if sa_type (al_attrs al ! i) = SA_REPLACED
     then do {
       str \<leftarrow> str_erase (to_size_t (lr_start lr)) (to_size_t len) (al_string al);
       Some \<lparr>al_string = str, al_attrs = end_attr i SA_REMOVED 0
         (shift_string_attrs (lr_start lr) (- len) (remove_styles lr (al_attrs al)))\<rparr>
     }
     else Some al)"

fun hide_from :: "nat list \<Rightarrow> 'v attr_line \<Rightarrow> 'v attr_line option" where
  "hide_from [] al = Some al"
| "hide_from (i # is) al = do { al1 \<leftarrow> hide_one i al; hide_from is al1 }"

definition apply_hide :: "'v attr_line \<Rightarrow> 'v attr_line option" where
  "apply_hide al = hide_from [0..<length (al_attrs al)] al"


end
