(* ===== verification/Attr_Line_Spec.thy ===== *)
theory Attr_Line_Spec
  imports Attr_Line
begin

text \<open>
  A line with attributes as a list of styled characters: each byte of the text together with the
  attributes that cover it, in the order of the vector. Inserting, erasing, cutting and splitting
  are the operations on that list, as long as the ranges are inside of the text, which every
  operation preserves.
\<close>

section \<open>The styled characters\<close>

definition sa_style :: "'v string_attr \<Rightarrow> attr_type \<times> 'v" where
  "sa_style a = (sa_type a, sa_value a)"

definition styles_at :: "'v attr_line \<Rightarrow> nat \<Rightarrow> (attr_type \<times> 'v) list" where
  "styles_at al i = map sa_style (filter (\<lambda>a. lr_contains (sa_range a) (int i)) (al_attrs al))"

definition styled :: "'v attr_line \<Rightarrow> (char \<times> (attr_type \<times> 'v) list) list" where
  "styled al = map (\<lambda>i. (al_string al ! i, styles_at al i)) [0..<length (al_string al)]"

lemma length_styled [simp]: "length (styled al) = length (al_string al)"
  by (simp add: styled_def)

lemma nth_styled [simp]: "i < length (al_string al) \<Longrightarrow> styled al ! i = (al_string al ! i, styles_at al i)"
  by (simp add: styled_def)

lemma map_fst_styled: "map fst (styled al) = al_string al"
  by (rule nth_equalityI) simp_all

definition range_in :: "nat \<Rightarrow> line_range \<Rightarrow> bool" where
  "range_in n lr \<longleftrightarrow>
    0 \<le> lr_start lr \<and> lr_start lr \<le> int n
    \<and> (lr_end lr = - 1 \<or> (lr_start lr \<le> lr_end lr \<and> lr_end lr \<le> int n))"

definition al_ok :: "'v attr_line \<Rightarrow> bool" where
  "al_ok al \<longleftrightarrow> (\<forall>a \<in> set (al_attrs al). range_in (length (al_string al)) (sa_range a))"

section \<open>Ranges\<close>

lemma range_in_shift:
  assumes "range_in n lr" "index \<le> n"
  shows "range_in (n + len) (lr_shift (int index) (int len) lr)"
  using assms by (auto simp: range_in_def lr_shift_def Let_def)

lemma contains_shift:
  assumes "range_in n lr"
  shows "i < index \<Longrightarrow> lr_contains (lr_shift (int index) (int len) lr) (int i) = lr_contains lr (int i)"
    and "lr_contains (lr_shift (int index) (int len) lr) (int (index + len + i)) = lr_contains lr (int (index + i))"
    and "i < len \<Longrightarrow> lr_contains (lr_shift (int index) (int len) lr) (int (index + i))
      \<longleftrightarrow> lr_start lr < int index \<and> (lr_end lr = - 1 \<or> int index < lr_end lr)"
  using assms by (auto simp: range_in_def lr_shift_def lr_contains_def Let_def)

lemma range_in_shift_range:
  assumes "range_in n lr" "pos + len \<le> n" "0 < len"
    and "\<not> lr_empty (lr_shift_range (line_range_of (int pos) (int pos + int len)) (- int len) lr)"
  shows "range_in (n - len) (lr_shift_range (line_range_of (int pos) (int pos + int len)) (- int len) lr)"
  using assms
  by (auto simp: range_in_def lr_shift_range_def line_range_of_def lr_contains_range_def lr_contains_def
      lr_empty_def lr_length_def Let_def split: if_splits)

lemma range_in_erase_past:
  assumes "range_in n lr" "pos \<le> n" "n < pos + len"
  shows "range_in pos (lr_shift_range (line_range_of (int pos) (int pos + int len)) (- int len) lr)"
  using assms
  by (auto simp: range_in_def lr_shift_range_def line_range_of_def lr_contains_range_def lr_contains_def
      Let_def split: if_splits)

text \<open>The ranges that \<open>shift_range\<close> gets right: none begins inside the erased text and ends after it.\<close>

definition erase_fits :: "nat \<Rightarrow> nat \<Rightarrow> line_range \<Rightarrow> bool" where
  "erase_fits pos len lr \<longleftrightarrow>
    \<not> (int pos < lr_start lr \<and> lr_start lr < int (pos + len) \<and> int (pos + len) < lr_end lr)"

lemma contains_shift_range:
  assumes "range_in n lr" "pos + len \<le> n" "0 < len" "erase_fits pos len lr"
  shows "i < pos \<Longrightarrow> lr_contains (lr_shift_range (line_range_of (int pos) (int pos + int len)) (- int len) lr) (int i)
      = lr_contains lr (int i)"
    and "lr_contains (lr_shift_range (line_range_of (int pos) (int pos + int len)) (- int len) lr) (int (pos + i))
      = lr_contains lr (int (pos + len + i))"
  using assms
  by (auto simp: range_in_def lr_shift_range_def line_range_of_def lr_contains_range_def lr_contains_def
      erase_fits_def Let_def)

lemma empty_contains: "lr_empty lr \<Longrightarrow> \<not> lr_contains lr i"
  by (auto simp: lr_empty_def lr_length_def lr_contains_def INT_MAX_def split: if_splits)

lemma contains_sub:
  assumes "range_in n lr" "lr_intersects (line_range_of (int s) (int (s + l))) lr \<or> 0 < l"
  shows "lr_contains (lr_shift 0 (- int s) (lr_intersection (line_range_of (int s) (int (s + l))) lr)) (int i)
    \<longleftrightarrow> i < l \<and> lr_contains lr (int (s + i))"
  using assms
  by (auto simp: range_in_def lr_shift_def lr_intersection_def line_range_of_def lr_contains_def
      lr_intersects_def Let_def max_def min_def)

section \<open>Inserting\<close>

definition spanning :: "'v attr_line \<Rightarrow> nat \<Rightarrow> (attr_type \<times> 'v) list" where
  "spanning al index = map sa_style (filter (\<lambda>a. lr_start (sa_range a) < int index
    \<and> (lr_end (sa_range a) = - 1 \<or> int index < lr_end (sa_range a))) (al_attrs al))"

definition unended :: "'v attr_line \<Rightarrow> (attr_type \<times> 'v) list" where
  "unended al = map sa_style (filter (\<lambda>a. lr_end (sa_range a) = - 1) (al_attrs al))"

lemma sa_style_range [simp]: "sa_style (a\<lparr>sa_range := lr\<rparr>) = sa_style a"
  by (simp add: sa_style_def)

lemma styles_of_shifted:
  assumes "\<And>a. a \<in> set sa \<Longrightarrow> P (f (sa_range a)) = Q a"
  shows "map sa_style (filter (\<lambda>a. P (sa_range a)) (map (\<lambda>a. a\<lparr>sa_range := f (sa_range a)\<rparr>) sa))
    = map sa_style (filter Q sa)"
  using assms by (induction sa) auto

lemma styles_shift_attrs:
  assumes "al_ok al"
  shows "i < index \<Longrightarrow> map sa_style (filter (\<lambda>a. lr_contains (sa_range a) (int i))
      (shift_string_attrs (int index) (int len) (al_attrs al))) = styles_at al i"
    and "map sa_style (filter (\<lambda>a. lr_contains (sa_range a) (int (index + len + i)))
      (shift_string_attrs (int index) (int len) (al_attrs al))) = styles_at al (index + i)"
    and "i < len \<Longrightarrow> map sa_style (filter (\<lambda>a. lr_contains (sa_range a) (int (index + i)))
      (shift_string_attrs (int index) (int len) (al_attrs al))) = spanning al index"
  unfolding shift_string_attrs_def styles_at_def spanning_def
  by (rule styles_of_shifted; use assms contains_shift in \<open>auto simp: al_ok_def\<close>)+

lemma shifted_in:
  assumes "al_ok al" "index \<le> length (al_string al)"
    and "a \<in> set (shift_string_attrs (int index) (int len) (al_attrs al))"
  shows "range_in (length (al_string al) + len) (sa_range a)"
  using assms range_in_shift by (fastforce simp: al_ok_def shift_string_attrs_def)

lemma styled_eqI:
  assumes "length (al_string al) = length xs"
    and "\<And>i. i < length xs \<Longrightarrow> (al_string al ! i, styles_at al i) = xs ! i"
  shows "styled al = xs"
  using assms by (intro nth_equalityI) auto

lemma insert_str_styled:
  assumes "al_ok al" "index \<le> length (al_string al)"
  shows "\<exists>al'. insert_str index s al = Some al' \<and> al_ok al'
    \<and> styled al' = take index (styled al) @ map (\<lambda>c. (c, spanning al index)) s @ drop index (styled al)"
proof -
  let ?al = "\<lparr>al_string = take index (al_string al) @ s @ drop index (al_string al),
    al_attrs = shift_string_attrs (int index) (int (length s)) (al_attrs al)\<rparr>"
  have len: "length (al_string ?al) = length (al_string al) + length s" using assms(2) by simp
  have "insert_str index s al = Some ?al" using assms(2)
    by (cases al) (simp add: insert_str_def str_insert_def)
  moreover have "al_ok ?al" using shifted_in [OF assms] len
    unfolding al_ok_def by (simp only: attr_line.simps ball_simps) simp
  moreover have "styled ?al
      = take index (styled al) @ map (\<lambda>c. (c, spanning al index)) s @ drop index (styled al)"
  proof (rule styled_eqI)
    fix i assume "i < length (take index (styled al) @ map (\<lambda>c. (c, spanning al index)) s @ drop index (styled al))"
    then have i: "i < length (al_string al) + length s" using assms(2) by simp
    consider "i < index" | j where "i = index + j" "j < length s"
      | j where "i = index + length s + j"
      by (metis add.assoc add_less_cancel_left le_add_diff_inverse not_less)
    then show "(al_string ?al ! i, styles_at ?al i)
        = (take index (styled al) @ map (\<lambda>c. (c, spanning al index)) s @ drop index (styled al)) ! i"
    proof cases
      case 1
      then show ?thesis using assms styles_shift_attrs(1) [OF assms(1) 1]
        by (simp add: styles_at_def nth_append)
    next
      case 2
      then show ?thesis using assms styles_shift_attrs(3) [OF assms(1) 2(2)]
        by (simp add: styles_at_def nth_append)
    next
      case 3
      then show ?thesis using assms i styles_shift_attrs(2) [OF assms(1), of index "length s" j]
        by (simp add: styles_at_def nth_append)
    qed
  qed (use assms in simp)
  ultimately show ?thesis by blast
qed


section \<open>Erasing\<close>

lemma filter_drop_empty:
  "filter (\<lambda>a. lr_contains (sa_range a) i) (filter (\<lambda>a. \<not> lr_empty (sa_range a)) sa)
    = filter (\<lambda>a. lr_contains (sa_range a) i) sa"
  using empty_contains by (auto simp: filter_filter intro!: filter_cong)

lemma styles_shift_range:
  assumes "al_ok al" "pos + len \<le> length (al_string al)" "0 < len"
    and "\<forall>a \<in> set (al_attrs al). erase_fits pos len (sa_range a)"
  defines "sa \<equiv> shift_string_attrs_range (line_range_of (int pos) (int pos + int len)) (- int len) (al_attrs al)"
  shows "i < pos \<Longrightarrow> map sa_style (filter (\<lambda>a. lr_contains (sa_range a) (int i)) sa) = styles_at al i"
    and "map sa_style (filter (\<lambda>a. lr_contains (sa_range a) (int (pos + i))) sa) = styles_at al (pos + len + i)"
  unfolding sa_def shift_string_attrs_range_def styles_at_def
  by (rule styles_of_shifted; use assms contains_shift_range [OF _ assms(2,3)] in \<open>auto simp: al_ok_def\<close>)+

lemma erase_ok:
  assumes "al_ok al" "pos + len \<le> length (al_string al)" "al_erase pos (Some len) al = Some al'"
  shows "al_ok al'"
proof (cases "len = 0")
  case False
  have "range_in (length (al_string al) - len) (sa_range a)"
    if "a \<in> set (filter (\<lambda>a. \<not> lr_empty (sa_range a)) (shift_string_attrs_range
      (line_range_of (int pos) (int pos + int len)) (- int len) (al_attrs al)))" for a
    using that False assms(1,2) range_in_shift_range
    by (auto simp: shift_string_attrs_range_def al_ok_def)
  moreover have "length (al_string al') = length (al_string al) - len"
    using False assms(2,3) by (auto simp: al_erase_def str_erase_def Let_def)
  ultimately show ?thesis using False assms(2,3)
    by (auto simp: al_erase_def str_erase_def Let_def al_ok_def)
qed (use assms in \<open>simp add: al_erase_def\<close>)

lemma erase_past_ok:
  assumes "al_ok al" "length (al_string al) < pos + len" "al_erase pos (Some len) al = Some al'"
  shows "al_ok al'"
proof (cases "len = 0")
  case False
  with assms(3) have pos: "pos \<le> length (al_string al)" "length (al_string al') = pos"
    using assms(2) by (auto simp: al_erase_def str_erase_def Let_def split: if_splits)
  have "range_in pos (sa_range a)"
    if "a \<in> set (filter (\<lambda>a. \<not> lr_empty (sa_range a)) (shift_string_attrs_range
      (line_range_of (int pos) (int pos + int len)) (- int len) (al_attrs al)))" for a
    using that pos(1) assms(1,2) range_in_erase_past
    by (auto simp: shift_string_attrs_range_def al_ok_def)
  with False assms(3) pos show ?thesis
    by (auto simp: al_erase_def str_erase_def Let_def al_ok_def)
qed (use assms in \<open>simp add: al_erase_def\<close>)

lemma erase_styled:
  assumes "al_ok al" "pos + len \<le> length (al_string al)"
    and "\<forall>a \<in> set (al_attrs al). erase_fits pos len (sa_range a)"
  shows "\<exists>al'. al_erase pos (Some len) al = Some al'
    \<and> styled al' = take pos (styled al) @ drop (pos + len) (styled al)"
proof (cases "len = 0")
  case False
  let ?sa = "shift_string_attrs_range (line_range_of (int pos) (int pos + int len)) (- int len) (al_attrs al)"
  let ?al = "\<lparr>al_string = take pos (al_string al) @ drop (pos + len) (al_string al),
    al_attrs = filter (\<lambda>a. \<not> lr_empty (sa_range a)) ?sa\<rparr>"
  have "al_erase pos (Some len) al = Some ?al" using False assms(2)
    by (simp add: al_erase_def str_erase_def)
  moreover have "styled ?al = take pos (styled al) @ drop (pos + len) (styled al)"
  proof (rule styled_eqI)
    fix i assume i: "i < length (take pos (styled al) @ drop (pos + len) (styled al))"
    have st: "styles_at ?al i = map sa_style (filter (\<lambda>a. lr_contains (sa_range a) (int i)) ?sa)"
      by (simp only: styles_at_def filter_drop_empty attr_line.simps)
    show "(al_string ?al ! i, styles_at ?al i) = (take pos (styled al) @ drop (pos + len) (styled al)) ! i"
    proof (cases "i < pos")
      case True
      then show ?thesis
        using assms st False styles_shift_range(1) [OF assms(1,2) _ assms(3)] by (simp add: nth_append)
    next
      case ge: False
      then obtain j where "i = pos + j" by (metis le_add_diff_inverse not_less)
      then show ?thesis
        using assms st False i styles_shift_range(2) [OF assms(1,2) _ assms(3), of j]
        by (simp add: nth_append)
    qed
  qed (use assms in simp)
  ultimately show ?thesis by blast
qed (simp add: al_erase_def)

section \<open>Inserting lines\<close>

lemma contains_inserted:
  assumes "range_in n (sa_range a)"
  shows "i < n \<Longrightarrow> lr_contains (sa_range (inserted_attr index n a)) (int (index + i)) = lr_contains (sa_range a) (int i)"
    and "i < index \<or> index + n \<le> i \<Longrightarrow> \<not> lr_contains (sa_range (inserted_attr index n a)) (int i)"
  using assms by (auto simp: range_in_def inserted_attr_def lr_shift_def lr_contains_def Let_def)

lemma inserted_in:
  "range_in n (sa_range a) \<Longrightarrow> index \<le> m \<Longrightarrow> range_in (m + n) (sa_range (inserted_attr index n a))"
  by (auto simp: range_in_def inserted_attr_def lr_shift_def Let_def)

lemma sa_style_inserted [simp]: "sa_style (inserted_attr index n a) = sa_style a"
  by (simp add: sa_style_def inserted_attr_def Let_def)

lemma styles_inserted:
  fixes index :: nat
  assumes "al_ok al2"
  defines "sa \<equiv> map (inserted_attr index (length (al_string al2))) (al_attrs al2)"
  shows "i < length (al_string al2)
      \<Longrightarrow> map sa_style (filter (\<lambda>a. lr_contains (sa_range a) (int (index + i))) sa) = styles_at al2 i"
    and "i < index \<or> index + length (al_string al2) \<le> i \<Longrightarrow> filter (\<lambda>a. lr_contains (sa_range a) (int i)) sa = []"
proof -
  assume i: "i < length (al_string al2)"
  have "filter (\<lambda>a. lr_contains (sa_range a) (int (index + i))) sa
      = map (inserted_attr index (length (al_string al2))) (filter (\<lambda>a. lr_contains (sa_range a) (int i)) (al_attrs al2))"
    unfolding sa_def filter_map comp_def using assms(1) i
    by (intro arg_cong [where f = "map _"] filter_cong) (simp_all only: al_ok_def contains_inserted(1))
  then show "map sa_style (filter (\<lambda>a. lr_contains (sa_range a) (int (index + i))) sa) = styles_at al2 i"
    by (simp add: styles_at_def comp_def)
next
  assume "i < index \<or> index + length (al_string al2) \<le> i"
  then show "filter (\<lambda>a. lr_contains (sa_range a) (int i)) sa = []"
    using assms(1) by (auto simp: sa_def filter_empty_conv al_ok_def contains_inserted(2) simp del: of_nat_add)
qed


lemma insert_line_styled:
  assumes "al_ok al" "al_ok al2" "index < length (al_string al)"
  shows "\<exists>al'. insert_line index al2 al = Some al' \<and> al_ok al'
    \<and> styled al' = take index (styled al) @ map (\<lambda>(c, st). (c, spanning al index @ st)) (styled al2)
        @ drop index (styled al)"
proof -
  let ?n = "length (al_string al2)"
  let ?sa = "shift_string_attrs (int index) (int ?n) (al_attrs al)"
  let ?sa2 = "map (inserted_attr index ?n) (al_attrs al2)"
  let ?al = "\<lparr>al_string = take index (al_string al) @ al_string al2 @ drop index (al_string al), al_attrs = ?sa @ ?sa2\<rparr>"
  let ?st = "take index (styled al) @ map (\<lambda>(c, st). (c, spanning al index @ st)) (styled al2) @ drop index (styled al)"
  have le: "index \<le> length (al_string al)" using assms(3) by simp
  have "insert_line index al2 al = Some ?al" using assms(3) by (simp add: insert_line_def str_insert_def Let_def)
  moreover have "al_ok ?al"
    using shifted_in [OF assms(1) le, of _ ?n] assms(2) inserted_in [OF _ le, of ?n] le
    by (auto simp: al_ok_def add.commute)
  moreover have "styled ?al = ?st"
  proof (rule styled_eqI)
    fix i assume "i < length ?st"
    then have i: "i < length (al_string al) + ?n" using le by simp
    consider "i < index" | j where "i = index + j" "j < ?n" | j where "i = index + ?n + j"
      by (metis add.assoc add_less_cancel_left le_add_diff_inverse not_less)
    then show "(al_string ?al ! i, styles_at ?al i) = ?st ! i"
    proof cases
      case 1
      then show ?thesis
        using le styles_shift_attrs(1) [OF assms(1) 1] styles_inserted(2) [OF assms(2), of i index]
        by (simp add: styles_at_def nth_append)
    next
      case 2
      then show ?thesis
        using le styles_shift_attrs(3) [OF assms(1) 2(2)] styles_inserted(1) [OF assms(2) 2(2), of index]
        by (simp add: styles_at_def nth_append)
    next
      case 3
      then show ?thesis
        using le i styles_shift_attrs(2) [OF assms(1), of index ?n j] styles_inserted(2) [OF assms(2), of i index]
        by (simp add: styles_at_def nth_append)
    qed
  qed (use le in simp)
  ultimately show ?thesis by blast
qed

lemma styles_past_end:
  assumes "al_ok al" "length (al_string al) \<le> i"
  shows "styles_at al i = unended al"
  unfolding styles_at_def unended_def
  by (intro arg_cong [where f = "map _"] filter_cong)
    (use assms in \<open>auto simp: al_ok_def range_in_def lr_contains_def\<close>)

lemma append_line_styled:
  assumes "al_ok al" "al_ok al2"
  shows "\<exists>al'. append_line al2 al = Some al' \<and> al_ok al'
    \<and> styled al' = styled al @ map (\<lambda>(c, st). (c, unended al @ st)) (styled al2)"
proof -
  let ?m = "length (al_string al)" and ?n = "length (al_string al2)"
  let ?sa2 = "map (inserted_attr ?m ?n) (al_attrs al2)"
  let ?al = "\<lparr>al_string = al_string al @ al_string al2, al_attrs = al_attrs al @ ?sa2\<rparr>"
  let ?st = "styled al @ map (\<lambda>(c, st). (c, unended al @ st)) (styled al2)"
  have "append_line al2 al = Some ?al" by (simp add: append_line_def insert_line_def str_insert_def)
  moreover have "al_ok ?al"
    using assms inserted_in [of ?n _ ?m ?m] by (fastforce simp: al_ok_def range_in_def)
  moreover have "styled ?al = ?st"
  proof (rule styled_eqI)
    fix i assume "i < length ?st"
    then have i: "i < ?m + ?n" by simp
    consider "i < ?m" | j where "i = ?m + j" "j < ?n"
      using i by (metis add_less_cancel_left le_add_diff_inverse not_less)
    then show "(al_string ?al ! i, styles_at ?al i) = ?st ! i"
    proof cases
      case 1
      then show ?thesis using styles_inserted(2) [OF assms(2), of i ?m] by (simp add: styles_at_def nth_append)
    next
      case 2
      then show ?thesis
        using styles_inserted(1) [OF assms(2) 2(2), of ?m] styles_past_end [OF assms(1), of i]
        by (simp add: styles_at_def nth_append)
    qed
  qed simp
  ultimately show ?thesis by blast
qed

section \<open>Cutting and splitting\<close>

lemma sa_style_sub [simp]: "sa_style (sub_attr lr a) = sa_style a"
  by (simp add: sa_style_def sub_attr_def string_attr_of_def)

lemma styles_sub:
  assumes "\<forall>a \<in> set sa. range_in n (sa_range a)" "i < l"
    and "\<And>a. a \<in> set sa \<Longrightarrow> lr_contains (sa_range a) (int (s + i)) \<Longrightarrow> P a"
  shows "map sa_style (filter (\<lambda>a. lr_contains (sa_range a) (int i))
      (map (sub_attr (line_range_of (int s) (int (s + l)))) (filter P sa)))
    = map sa_style (filter (\<lambda>a. lr_contains (sa_range a) (int (s + i))) sa)"
  using assms
proof (induction sa)
  case (Cons a sa)
  have "lr_contains (sa_range (sub_attr (line_range_of (int s) (int (s + l))) a)) (int i)
      = lr_contains (sa_range a) (int (s + i))"
    using contains_sub [of n "sa_range a" s l i] Cons.prems
    by (simp add: sub_attr_def string_attr_of_def line_range_of_def)
  then show ?case using Cons by (auto simp: comp_def)
qed simp

lemma contains_intersects:
  "range_in n lr \<Longrightarrow> i < l \<Longrightarrow> lr_contains lr (int (s + i))
    \<Longrightarrow> lr_intersects (line_range_of (int s) (int (s + l))) lr"
  by (auto simp: range_in_def lr_contains_def lr_intersects_def line_range_of_def)

lemma sub_in:
  assumes "range_in n lr" "s + l \<le> n" "lr_intersects (line_range_of (int s) (int (s + l))) lr"
  shows "range_in l (lr_shift 0 (- int s) (lr_intersection (line_range_of (int s) (int (s + l))) lr))"
  using assms
  by (auto simp: range_in_def lr_shift_def lr_intersection_def line_range_of_def lr_contains_def
      lr_intersects_def Let_def max_def min_def)

lemma sub_end:
  assumes "range_in n lr" "lr_intersects (line_range_of (int s) (int (s + l))) lr"
  shows "lr_end (lr_shift 0 (- int s) (lr_intersection (line_range_of (int s) (int (s + l))) lr)) \<le> int l"
  using assms
  by (auto simp: range_in_def lr_shift_def lr_intersection_def line_range_of_def lr_contains_def
      lr_intersects_def Let_def max_def min_def)

lemma subline_styled:
  assumes "al_ok al" "start + len \<le> length (al_string al)"
  shows "\<exists>al'. subline start (Some len) al = Some al' \<and> al_ok al'
    \<and> styled al' = take len (drop start (styled al))"
proof -
  let ?lr = "line_range_of (int start) (int (start + len))"
  let ?al = "\<lparr>al_string = take len (drop start (al_string al)),
    al_attrs = map (sub_attr ?lr) (filter (\<lambda>sa. lr_intersects ?lr (sa_range sa)) (al_attrs al))\<rparr>"
  have n: "length (al_string ?al) = len" using assms(2) by simp
  have "subline start (Some len) al = Some ?al"
    using assms n sub_end [of "length (al_string al)" _ start len]
    by (auto simp: subline_def str_substr_def al_ok_def sub_attr_def string_attr_of_def line_range_of_def Let_def)
  moreover have "al_ok ?al"
    using assms n sub_in [of "length (al_string al)" _ start len]
    by (auto simp: al_ok_def sub_attr_def string_attr_of_def line_range_of_def)
  moreover have "styled ?al = take len (drop start (styled al))"
  proof (rule styled_eqI)
    fix i assume "i < length (take len (drop start (styled al)))"
    then have i: "i < len" using assms(2) by simp
    have "styles_at ?al i = styles_at al (start + i)"
      unfolding styles_at_def attr_line.simps
      by (rule styles_sub) (use assms(1) i contains_intersects in \<open>auto simp: al_ok_def\<close>)
    then show "(al_string ?al ! i, styles_at ?al i) = take len (drop start (styled al)) ! i"
      using i assms(2) by simp
  qed (use assms in simp)
  ultimately show ?thesis by blast
qed


text \<open>A part that goes past the end of the text is shorter, and its check bounds the ends of the attributes.\<close>

lemma sub_in_past:
  assumes "range_in n lr" "s \<le> n" "lr_intersects (line_range_of (int s) (int (s + l))) lr"
    and "lr_end (lr_shift 0 (- int s) (lr_intersection (line_range_of (int s) (int (s + l))) lr)) \<le> int (n - s)"
  shows "range_in (n - s) (lr_shift 0 (- int s) (lr_intersection (line_range_of (int s) (int (s + l))) lr))"
  using assms
  by (auto simp: range_in_def lr_shift_def lr_intersection_def line_range_of_def lr_contains_def
      lr_intersects_def Let_def max_def min_def split: if_splits)

lemma subline_ok:
  assumes "al_ok al" "subline start len0 al = Some al'"
  shows "al_ok al'"
proof -
  define len where "len = (case len0 of None \<Rightarrow> length (al_string al) - start | Some l \<Rightarrow> l)"
  have s: "subline start (Some len) al = Some al'"
    using assms(2) by (cases len0) (simp_all add: subline_def len_def)
  show ?thesis
  proof (cases "start + len \<le> length (al_string al)")
    case True
    then show ?thesis using subline_styled [OF assms(1) True] s by auto
  next
    case False
    let ?lr = "line_range_of (int start) (int (start + len))"
    from s have start: "start \<le> length (al_string al)"
      by (auto simp: subline_def str_substr_def split: if_splits)
    with False s have al': "al_string al' = drop start (al_string al)"
      "al_attrs al' = map (sub_attr ?lr) (filter (\<lambda>sa. lr_intersects ?lr (sa_range sa)) (al_attrs al))"
      "\<forall>a\<in>set (al_attrs al'). lr_end (sa_range a) \<le> int (length (al_string al) - start)"
      by (auto simp: subline_def str_substr_def Let_def split: if_splits)
    then show ?thesis
      using assms(1) sub_in_past [OF _ start]
      by (auto simp: al_ok_def sub_attr_def string_attr_of_def line_range_of_def)
  qed
qed

text \<open>The lines of a list of styled characters, each without its newline.\<close>

function styled_lines :: "(char \<times> 's) list \<Rightarrow> (char \<times> 's) list list" where
  "styled_lines xs =
    (case first_index (\<lambda>x. fst x = CHR 0x0A) xs of
       Some k \<Rightarrow> take k xs # styled_lines (drop (Suc k) xs)
     | None \<Rightarrow> if xs = [] then [] else [xs])"
  by pat_completeness auto

termination
  by (relation "measure length") (auto dest!: first_index_Some)

declare styled_lines.simps [simp del]

lemma first_index_map: "first_index P (map f xs) = first_index (P \<circ> f) xs"
  by (induction xs) auto

lemma find_newline_styled:
  "first_index (\<lambda>x. fst x = CHR 0x0A) (drop pos (styled al)) = first_index (\<lambda>c. c = CHR 0x0A) (drop pos (al_string al))"
proof -
  have "drop pos (al_string al) = map fst (drop pos (styled al))"
    by (simp add: drop_map [symmetric] map_fst_styled)
  then show ?thesis by (simp add: first_index_map comp_def)
qed

lemma contains_overlapping:
  assumes "range_in (length str) (sa_range a)" "length str < 2 ^ 31" "pos + k \<le> length str" "i < k"
    and "lr_contains (sa_range a) (int (pos + i))"
  shows "overlapping str pos (pos + k - 1) a"
proof -
  have small: "to_size_t x = nat x" if "0 \<le> x" "x < 2 ^ 31" for x
    using that by (simp add: to_size_t_def)
  have "\<not> lr_empty (sa_range a)" using assms(5) empty_contains by blast
  moreover have "to_size_t (lr_start (sa_range a)) \<le> pos + k - 1"
    using assms small [of "lr_start (sa_range a)"] by (auto simp: range_in_def lr_contains_def)
  moreover have "0 \<le> end_for_string (sa_range a) str - 1 \<and> int pos \<le> end_for_string (sa_range a) str - 1
      \<and> end_for_string (sa_range a) str - 1 < 2 ^ 31"
    using assms by (auto simp: range_in_def lr_contains_def end_for_string_def)
  then have "pos \<le> to_size_t (end_for_string (sa_range a) str - 1)"
    using small by (auto simp: le_nat_iff)
  ultimately show ?thesis by (simp add: overlapping_def)
qed

definition cut_line :: "'v attr_line \<Rightarrow> nat \<times> nat \<times> string \<Rightarrow> 'v attr_line" where
  "cut_line al = (\<lambda>(start, stop, line). \<lparr>al_string = line,
    al_attrs = map (sub_attr (line_range_of (int start) (int stop + 1)))
      (filter (overlapping (al_string al) start stop) (al_attrs al))\<rparr>)"

lemma cut_line_styled:
  assumes "al_ok al" "length (al_string al) < 2 ^ 31" "pos + k \<le> length (al_string al)" "0 < k"
  shows "styled (cut_line al (pos, pos + k - 1, take k (drop pos (al_string al)))) = take k (drop pos (styled al))"
proof (rule styled_eqI)
  fix i assume "i < length (take k (drop pos (styled al)))"
  then have i: "i < k" using assms(3) by simp
  have stop: "int (pos + k - 1) + 1 = int (pos + k)" using assms(4) by simp
  have "styles_at (cut_line al (pos, pos + k - 1, take k (drop pos (al_string al)))) i = styles_at al (pos + i)"
    unfolding styles_at_def cut_line_def prod.case attr_line.simps stop
    by (rule styles_sub)
      (use assms i in \<open>auto simp: al_ok_def intro: contains_overlapping simp del: of_nat_add One_nat_def\<close>)
  then show "(al_string (cut_line al (pos, pos + k - 1, take k (drop pos (al_string al)))) ! i,
      styles_at (cut_line al (pos, pos + k - 1, take k (drop pos (al_string al)))) i)
    = take k (drop pos (styled al)) ! i"
    using i assms(3) by (simp add: cut_line_def)
qed (use assms in \<open>simp add: cut_line_def\<close>)

lemma split_from_styled:
  assumes "al_ok al" "length (al_string al) < 2 ^ 31"
  shows "pos \<le> length (al_string al) \<Longrightarrow>
    map styled (map (cut_line al) (line_intervals (al_string al) pos)) = styled_lines (drop pos (styled al))"
proof (induction "length (al_string al) - pos" arbitrary: pos rule: less_induct)
  case less
  show ?case
  proof (cases "first_index (\<lambda>c. c = CHR 0x0A) (drop pos (al_string al))")
    case None
    have "styled (cut_line al (pos, length (al_string al) - 1, drop pos (al_string al))) = drop pos (styled al)"
      if "pos < length (al_string al)"
      using cut_line_styled [OF assms, of pos "length (al_string al) - pos"] that by simp
    then show ?thesis using None less.prems
      by (subst line_intervals.simps, subst styled_lines.simps) (simp add: find_newline_styled)
  next
    case (Some k)
    then have k: "pos + k < length (al_string al)" using first_index_Some [OF Some] by auto
    have line: "styled (cut_line al (pos, if k > 0 then pos + k - 1 else pos + k, take k (drop pos (al_string al))))
        = take k (drop pos (styled al))"
      using cut_line_styled [OF assms, of pos k] k
      by (cases "k = 0") (auto simp: cut_line_def styled_def)
    have rest: "map styled (map (cut_line al) (line_intervals (al_string al) (pos + k + 1)))
        = styled_lines (drop (pos + k + 1) (styled al))"
      using less.hyps [of "pos + k + 1"] k by simp
    show ?thesis using Some line rest
      by (subst line_intervals.simps, subst styled_lines.simps) (simp add: find_newline_styled add.commute)
  qed
qed

lemma split_lines_eq: "split_lines al = map (cut_line al) (line_intervals (al_string al) 0)"
  by (simp add: split_lines_def cut_line_def)


text \<open>The ranges of a line that is not blank stay inside of it.\<close>

lemma overlapping_intersects:
  assumes "range_in (length str) (sa_range a)" "length str < 2 ^ 31" "pos + k \<le> length str" "0 < k"
    and "overlapping str pos (pos + k - 1) a"
  shows "lr_intersects (line_range_of (int pos) (int (pos + k))) (sa_range a)"
proof -
  have small: "to_size_t x = nat x" if "0 \<le> x" "x < 2 ^ 31" for x
    using that by (simp add: to_size_t_def)
  let ?s = "lr_start (sa_range a)" and ?e = "end_for_string (sa_range a) str - 1"
  have s: "0 \<le> ?s" "?s < 2 ^ 31" "\<not> lr_empty (sa_range a)"
    using assms(1,2,5) by (auto simp: range_in_def overlapping_def)
  then have e: "0 \<le> ?e" "?e < 2 ^ 31"
    using assms(1-4) by (auto simp: range_in_def lr_empty_def lr_length_def end_for_string_def split: if_splits)
  have "?s \<le> int (pos + k - 1)" "int pos \<le> ?e"
    using assms(5) small [OF s(1,2)] small [OF e] s(1) e(1) by (auto simp: overlapping_def)
  then show ?thesis using assms(4) s(1)
    by (auto simp: lr_intersects_def lr_contains_def line_range_of_def end_for_string_def split: if_splits)
qed

lemma cut_line_ok:
  assumes "al_ok al" "length (al_string al) < 2 ^ 31" "pos + k \<le> length (al_string al)" "0 < k"
  shows "al_ok (cut_line al (pos, pos + k - 1, take k (drop pos (al_string al))))"
proof -
  have stop: "int (pos + k - 1) + 1 = int (pos + k)" using assms(4) by simp
  have "range_in k (sa_range (sub_attr (line_range_of (int pos) (int (pos + k))) a))"
    if "a \<in> set (al_attrs al)" "overlapping (al_string al) pos (pos + k - 1) a" for a
  proof -
    have r: "range_in (length (al_string al)) (sa_range a)" using assms(1) that(1) by (simp add: al_ok_def)
    from sub_in [OF r assms(3) overlapping_intersects [OF r assms(2-4) that(2)]]
    show ?thesis by (simp add: sub_attr_def string_attr_of_def line_range_of_def)
  qed
  with assms(3) show ?thesis unfolding cut_line_def prod.case al_ok_def attr_line.simps stop by auto
qed

lemma line_intervals_text:
  "(p, e, t) \<in> set (line_intervals str pos) \<Longrightarrow> t \<noteq> []
    \<Longrightarrow> \<exists>k>0. p + k \<le> length str \<and> e = p + k - 1 \<and> t = take k (drop p str)"
proof (induction str pos rule: line_intervals.induct)
  case (1 str pos)
  show ?case
  proof (cases "first_index (\<lambda>c. c = CHR 0x0A) (drop pos str)")
    case None
    with "1.prems" show ?thesis
      by (subst (asm) line_intervals.simps) (auto split: if_splits intro!: exI [of _ "length str - pos"])
  next
    case (Some k)
    have k: "pos + k < length str" using first_index_Some [OF Some] by auto
    have "(p, e, t) = (pos, if k > 0 then pos + k - 1 else pos + k, take k (drop pos str))
        \<or> (p, e, t) \<in> set (line_intervals str (pos + k + 1))"
      using "1.prems"(1) Some by (subst (asm) line_intervals.simps) simp
    then show ?thesis
    proof
      assume "(p, e, t) \<in> set (line_intervals str (pos + k + 1))"
      with "1.IH" [OF Some] "1.prems"(2) show ?thesis by blast
    qed (use k "1.prems"(2) in \<open>auto intro!: exI [of _ k] split: if_splits\<close>)
  qed
qed

lemma split_line_ok:
  assumes "al_ok al" "length (al_string al) < 2 ^ 31" "l \<in> set (split_lines al)" "al_string l \<noteq> []"
  shows "al_ok l"
proof -
  from assms(3) obtain p e t where l: "l = cut_line al (p, e, t)" "(p, e, t) \<in> set (line_intervals (al_string al) 0)"
    unfolding split_lines_def cut_line_def by fastforce
  with assms(4) have "t \<noteq> []" by (simp add: cut_line_def)
  with l(2) obtain k where "0 < k" "p + k \<le> length (al_string al)" "e = p + k - 1"
    "t = take k (drop p (al_string al))"
    using line_intervals_text by blast
  with cut_line_ok [OF assms(1,2)] l(1) show ?thesis by simp
qed


section \<open>Lines that are built\<close>

text \<open>
  The operations are those that keep the ranges inside: hiding, wrapping and the blank lines of
  \<open>split_lines\<close> are not among them (for the last, see \<open>split_blank_line\<close>). A range has ends of type
  \<open>int\<close>, to which sizes are cast; the casts are exact for texts of less than 2^31 bytes, and these the
  model is about.
\<close>

inductive al_built :: "'v attr_line \<Rightarrow> bool" where
  built_of: "al_built (al_of str)"
| built_for_all: "al_built al \<Longrightarrow> al_built (with_attr_for_all sap al)"
| built_append_str: "al_built al \<Longrightarrow> al_built (append_str s al)"
| built_append_with: "al_built al \<Longrightarrow> al_built (append_with s sap al)"
| built_insert_str: "al_built al \<Longrightarrow> insert_str index s al = Some al' \<Longrightarrow> al_built al'"
| built_insert_with: "al_built al \<Longrightarrow> insert_with index s sap al = Some al' \<Longrightarrow> al_built al'"
| built_insert_line: "al_built al \<Longrightarrow> al_built al2 \<Longrightarrow> insert_line index al2 al = Some al' \<Longrightarrow> al_built al'"
| built_erase: "al_built al \<Longrightarrow> al_erase pos len0 al = Some al' \<Longrightarrow> al_built al'"
| built_rtrim: "al_built al \<Longrightarrow> al_rtrim chars al = Some al' \<Longrightarrow> al_built al'"
| built_subline: "al_built al \<Longrightarrow> subline start len0 al = Some al' \<Longrightarrow> al_built al'"
| built_split: "al_built al \<Longrightarrow> length (al_string al) < 2 ^ 31 \<Longrightarrow> l \<in> set (split_lines al) \<Longrightarrow> al_string l \<noteq> []
    \<Longrightarrow> al_built l"
| built_pad_to: "al_built al \<Longrightarrow> al_built (pad_to column_width w al)"
| built_right_justify: "al_built al \<Longrightarrow> length (al_string al) < 2 ^ 63 \<Longrightarrow> al_built (right_justify w al)"

lemma with_attr_ok:
  "al_ok al \<Longrightarrow> range_in (length (al_string al)) (sa_range a) \<Longrightarrow> al_ok (with_attr a al)"
  by (auto simp: al_ok_def with_attr_def)

lemma range_in_mono: "range_in n lr \<Longrightarrow> n \<le> m \<Longrightarrow> range_in m lr"
  by (auto simp: range_in_def)

lemma append_str_ok: "al_ok al \<Longrightarrow> al_ok (append_str s al)"
  using range_in_mono by (fastforce simp: al_ok_def append_str_def)

lemma append_with_ok: "al_ok al \<Longrightarrow> al_ok (append_with s sap al)"
  using append_str_ok [of al s] with_attr_ok [OF append_str_ok [of al s]]
  by (simp add: append_with_def Let_def string_attr_of_def line_range_of_def range_in_def append_str_def)

lemma insert_str_Some: "insert_str index s al = Some al' \<Longrightarrow>
    index \<le> length (al_string al) \<and> length (al_string al') = length (al_string al) + length s"
  by (auto simp: insert_str_def str_insert_def split: if_splits)

lemma insert_str_ok: "al_ok al \<Longrightarrow> insert_str index s al = Some al' \<Longrightarrow> al_ok al'"
  using insert_str_styled [of al index s] insert_str_Some [of index s al al'] by auto

lemma insert_with_ok:
  assumes "al_ok al" "insert_with index s sap al = Some al'"
  shows "al_ok al'"
proof -
  from assms(2) obtain al1 where "insert_str index s al = Some al1"
    and "al' = with_attr (string_attr_of (line_range_of (int index)
      (int index + int (length (al_string al1) - length (al_string al)))) sap) al1"
    by (auto simp: insert_with_def split: bind_splits)
  then show ?thesis using insert_str_ok [OF assms(1)] insert_str_Some
    by (fastforce intro!: with_attr_ok simp: string_attr_of_def line_range_of_def range_in_def)
qed

lemma insert_line_ok:
  assumes "al_ok al" "al_ok al2" "insert_line index al2 al = Some al'"
  shows "al_ok al'"
proof (cases "index < length (al_string al)")
  case True
  then show ?thesis using insert_line_styled [OF assms(1,2) True] assms(3) by auto
next
  case False
  then have "index = length (al_string al)"
    using assms(3) by (auto simp: insert_line_def str_insert_def split: if_splits)
  then show ?thesis using append_line_styled [OF assms(1,2)] assms(3) by (auto simp: append_line_def)
qed

lemma erase_rest: "al_erase pos None al = Some al' \<Longrightarrow> pos \<le> length (al_string al)
    \<and> al_erase pos (Some (length (al_string al) - pos)) al = Some al'"
  by (auto simp: al_erase_def Let_def split: if_splits)

lemma erase_rest_ok:
  assumes "al_ok al" "al_erase pos None al = Some al'"
  shows "al_ok al'"
  using erase_rest [OF assms(2)] erase_ok [OF assms(1), of pos "length (al_string al) - pos"] by simp

lemma erase_any_ok: "al_ok al \<Longrightarrow> al_erase pos len0 al = Some al' \<Longrightarrow> al_ok al'"
  by (cases len0; metis erase_rest_ok erase_ok erase_past_ok not_le)

lemma rtrim_ok: "al_ok al \<Longrightarrow> al_rtrim chars al = Some al' \<Longrightarrow> al_ok al'"
  by (auto simp: al_rtrim_def Let_def split: if_splits intro: erase_rest_ok)

lemma pad_to_ok: "al_ok al \<Longrightarrow> al_ok (pad_to column_width w al)"
  by (auto simp: pad_to_def Let_def al_ok_def append_str_def range_in_def)

lemma al_length_ok:
  assumes "al_ok al" "length (al_string al) < 2 ^ 63"
  shows "al_length al = int (length (al_string al))"
proof -
  have "foldl (\<lambda>retval a. let retval = unsigned_max retval (lr_start (sa_range a)) in
        if lr_end (sa_range a) \<noteq> - 1 then unsigned_max retval (lr_end (sa_range a)) else retval) (int n) sa = int n"
    if "\<forall>a \<in> set sa. range_in n (sa_range a)" for n and sa :: "'a string_attr list"
    using that by (induction sa) (auto simp: range_in_def Let_def unsigned_max_def max_def)
  then show ?thesis using assms by (simp add: al_length_def al_ok_def)
qed

lemma right_justify_ok: "al_ok al \<Longrightarrow> length (al_string al) < 2 ^ 63 \<Longrightarrow> al_ok (right_justify w al)"
  by (auto simp: right_justify_def Let_def al_ok_def range_in_def al_length_ok)

lemma al_of_ok: "al_ok (al_of str)"
  by (simp add: al_ok_def al_of_def)

lemma built_ok: "al_built al \<Longrightarrow> al_ok al"
proof (induction rule: al_built.induct)
  case (built_for_all al sap)
  then show ?case
    by (simp add: with_attr_for_all_def with_attr_ok string_attr_of_def line_range_of_def range_in_def)
qed (auto simp: al_of_ok append_str_ok append_with_ok right_justify_ok pad_to_ok
    intro: insert_str_ok insert_with_ok insert_line_ok erase_any_ok subline_ok split_line_ok rtrim_ok)

lemma built_append_line: "al_built al \<Longrightarrow> al_built al2 \<Longrightarrow> append_line al2 al = Some al' \<Longrightarrow> al_built al'"
  unfolding append_line_def by (rule built_insert_line)

lemma built_ensure_space: "al_built al \<Longrightarrow> al_built (ensure_space al)"
  by (simp add: ensure_space_def built_append_str)


text \<open>No range of such a line is cut off by the type \<open>int\<close> of its ends.\<close>

lemma ranges_fit_int:
  assumes "al_built al" "length (al_string al) < 2 ^ 31" "a \<in> set (al_attrs al)"
  shows "lr_start (sa_range a) \<le> INT_MAX \<and> - 1 \<le> lr_end (sa_range a) \<and> lr_end (sa_range a) \<le> INT_MAX"
  using built_ok [OF assms(1)] assms(2,3) by (auto simp: al_ok_def range_in_def INT_MAX_def)

text \<open>
  C23: In every line built by appending, inserting, erasing (also past the end), trimming, cutting out,
  padding, justifying and splitting (of the lines of a split, those with text), while texts have less than
  2^31 bytes, the ranges of the attributes stay inside of the text and do not end before they start.
\<close>

theorem ranges_stay_inside:
  assumes "al_built al" "a \<in> set (al_attrs al)"
  shows "0 \<le> lr_start (sa_range a) \<and> lr_start (sa_range a) \<le> int (length (al_string al))
    \<and> (lr_end (sa_range a) = - 1
       \<or> (lr_start (sa_range a) \<le> lr_end (sa_range a) \<and> lr_end (sa_range a) \<le> int (length (al_string al))))"
  using built_ok [OF assms(1)] assms(2) by (auto simp: al_ok_def range_in_def)

definition sample_line :: "nat attr_line" where
  "sample_line = append_with ''cd'' (VC_STYLE, 7) (al_of ''ab'')"

lemma sample_built: "al_built sample_line"
  by (simp add: sample_line_def built_of built_append_with)

lemma sample_eq:
  "sample_line = \<lparr>al_string = ''abcd'',
    al_attrs = [\<lparr>sa_range = line_range_of 2 4, sa_type = VC_STYLE, sa_value = 7\<rparr>]\<rparr>"
  by (simp add: sample_line_def append_with_def append_str_def with_attr_def string_attr_of_def al_of_def Let_def)

lemma ranges_stay_inside_witness:
  "hd (al_attrs sample_line) = \<lparr>sa_range = line_range_of 2 4, sa_type = VC_STYLE, sa_value = 7\<rparr>
    \<and> lr_end (sa_range (hd (al_attrs sample_line))) \<le> int (length (al_string sample_line))"
  using ranges_stay_inside [OF sample_built, of "hd (al_attrs sample_line)"]
  by (simp add: sample_eq line_range_of_def)

text \<open>
  C18: On the list of styled characters, inserting a string puts it in with the styles that span the place,
  inserting or appending a line puts in its characters with their styles after the spanning
  ones, erasing removes characters and cutting out a part takes them, with all styles kept; erasing
  needs that no attribute begins inside of the erased text and ends after it.
\<close>

theorem edits_on_styled_text:
  assumes "al_built al" "al_built al2" "index < length (al_string al)" "pos + len \<le> length (al_string al)"
    and "\<forall>a \<in> set (al_attrs al). erase_fits pos len (sa_range a)"
  shows "map_option styled (insert_str index s al)
      = Some (take index (styled al) @ map (\<lambda>c. (c, spanning al index)) s @ drop index (styled al))
    \<and> map_option styled (insert_line index al2 al)
      = Some (take index (styled al) @ map (\<lambda>(c, st). (c, spanning al index @ st)) (styled al2)
          @ drop index (styled al))
    \<and> map_option styled (append_line al2 al)
      = Some (styled al @ map (\<lambda>(c, st). (c, unended al @ st)) (styled al2))
    \<and> map_option styled (al_erase pos (Some len) al) = Some (take pos (styled al) @ drop (pos + len) (styled al))
    \<and> map_option styled (subline pos (Some len) al) = Some (take len (drop pos (styled al)))"
proof (intro conjI)
  note ok = built_ok [OF assms(1)] and ok2 = built_ok [OF assms(2)]
  show "map_option styled (insert_str index s al)
      = Some (take index (styled al) @ map (\<lambda>c. (c, spanning al index)) s @ drop index (styled al))"
    using insert_str_styled [OF ok, of index s] assms(3) by auto
  show "map_option styled (insert_line index al2 al)
      = Some (take index (styled al) @ map (\<lambda>(c, st). (c, spanning al index @ st)) (styled al2)
          @ drop index (styled al))"
    using insert_line_styled [OF ok ok2 assms(3)] by auto
  show "map_option styled (append_line al2 al)
      = Some (styled al @ map (\<lambda>(c, st). (c, unended al @ st)) (styled al2))"
    using append_line_styled [OF ok ok2] by auto
  show "map_option styled (al_erase pos (Some len) al) = Some (take pos (styled al) @ drop (pos + len) (styled al))"
    using erase_styled [OF ok assms(4,5)] by auto
  show "map_option styled (subline pos (Some len) al) = Some (take len (drop pos (styled al)))"
    using subline_styled [OF ok assms(4)] by auto
qed

lemma sample_styled:
  "styled sample_line = [(CHR ''a'', []), (CHR ''b'', []), (CHR ''c'', [(VC_STYLE, 7)]), (CHR ''d'', [(VC_STYLE, 7)])]"
  by (simp add: sample_eq styled_def styles_at_def sa_style_def lr_contains_def line_range_of_def upt_rec)

lemma edits_on_styled_text_witness:
  "map_option styled (insert_str 3 ''x'' sample_line)
      = Some (take 3 (styled sample_line) @ [(CHR ''x'', [(VC_STYLE, 7)])] @ drop 3 (styled sample_line))
    \<and> map_option styled (al_erase 1 (Some 1) sample_line)
      = Some [(CHR ''a'', []), (CHR ''c'', [(VC_STYLE, 7)]), (CHR ''d'', [(VC_STYLE, 7)])]"
proof -
  have at3: "spanning sample_line 3 = [(VC_STYLE, 7)]"
    by (simp add: spanning_def sample_eq sa_style_def line_range_of_def)
  have fits: "\<forall>a \<in> set (al_attrs sample_line). erase_fits 1 1 (sa_range a)"
    by (simp add: sample_eq erase_fits_def line_range_of_def)
  have len: "length (al_string sample_line) = 4" by (simp add: sample_eq)
  show ?thesis
    using edits_on_styled_text [OF sample_built sample_built _ _ fits, of 3 "''x''"] len
    by (simp add: at3 sample_styled)
qed

text \<open>
  The condition on erasing is needed: an attribute that begins inside of the erased text and goes on
  after it keeps its start, and is lost on the characters that move there.
\<close>

lemma erase_loses_style:
  "map_option styled (al_erase 1 (Some 2) sample_line) = Some [(CHR ''a'', []), (CHR ''d'', [])]"
  by (simp add: sample_eq al_erase_def str_erase_def shift_string_attrs_range_def lr_shift_range_def
      lr_contains_range_def lr_contains_def lr_empty_def lr_length_def styled_def styles_at_def
      line_range_of_def upt_rec numeral_2_eq_2)

text \<open>
  An attribute on the newline of a blank line ends up past the text of that line.
\<close>

lemma split_blank_line:
  "split_lines \<lparr>al_string = [CHR 0x0A], al_attrs = [\<lparr>sa_range = line_range_of 0 1, sa_type = VC_ROLE, sa_value = v\<rparr>]\<rparr>
    = [\<lparr>al_string = [], al_attrs = [\<lparr>sa_range = line_range_of 0 1, sa_type = VC_ROLE, sa_value = v\<rparr>]\<rparr>]"
  by (simp add: split_lines_def line_intervals.simps overlapping_def lr_empty_def lr_length_def to_size_t_def
      end_for_string_def sub_attr_def string_attr_of_def lr_shift_def lr_intersection_def line_range_of_def)

text \<open>
  C20: The lines that a line is split into are the lines of its styled characters.
\<close>

theorem split_lines_styled:
  assumes "al_built al" "length (al_string al) < 2 ^ 31"
  shows "map styled (split_lines al) = styled_lines (styled al)"
  using split_from_styled [OF built_ok [OF assms(1)] assms(2), of 0] by (simp add: split_lines_eq)

lemma split_lines_styled_witness:
  "map styled (split_lines sample_line) = styled_lines (styled sample_line)"
  by (rule split_lines_styled [OF sample_built]) (simp add: sample_eq)

section \<open>Hidden text\<close>

lemma end_attr_types:
  "i < length sa \<Longrightarrow> map sa_type (end_attr i type len sa) = (map sa_type sa)[i := type]"
  by (simp add: end_attr_def map_update Let_def)

definition hides :: "attr_type \<Rightarrow> bool" where
  "hides t \<longleftrightarrow> t = SA_HIDDEN \<or> t = SA_REPLACED"

lemma hide_one_types:
  assumes "i < length (al_attrs al)" "hide_one i al = Some al'"
  shows "length (al_attrs al') = length (al_attrs al) \<and> \<not> hides (sa_type (al_attrs al' ! i))
    \<and> (\<forall>j < length (al_attrs al). \<not> hides (sa_type (al_attrs al ! j)) \<longrightarrow> \<not> hides (sa_type (al_attrs al' ! j)))"
  using assms
  by (auto simp: hide_one_def hides_def Let_def end_attr_def remove_styles_def shift_string_attrs_def
      nth_list_update str_replace_def str_erase_def split: if_splits)

text \<open>After \<open>apply_hide\<close> nothing is left to hide or replace.\<close>

lemma hide_from_types:
  "hide_from is al = Some al' \<Longrightarrow> \<forall>i \<in> set is. i < length (al_attrs al) \<Longrightarrow>
    length (al_attrs al') = length (al_attrs al)
    \<and> (\<forall>j < length (al_attrs al). j \<in> set is \<or> \<not> hides (sa_type (al_attrs al ! j))
        \<longrightarrow> \<not> hides (sa_type (al_attrs al' ! j)))"
proof (induction "is" arbitrary: al)
  case (Cons i "is")
  then obtain al1 where one: "hide_one i al = Some al1" and rest: "hide_from is al1 = Some al'"
    by (auto split: bind_splits)
  show ?case using hide_one_types [OF _ one] Cons.IH [OF rest] Cons.prems(2) by auto
qed simp

lemma apply_hide_done:
  "apply_hide al = Some al' \<Longrightarrow> a \<in> set (al_attrs al') \<Longrightarrow> \<not> hides (sa_type a)"
  using hide_from_types [of "[0..<length (al_attrs al)]" al al'] by (auto simp: apply_hide_def in_set_conv_nth)

text \<open>
  Only styles inside of hidden text are removed: another attribute there, here on bytes 6 and 7 of
  ten hidden ones, is moved by the full length and covers text before the hidden text.
\<close>

lemma hidden_role_moves:
  "map_option (\<lambda>al. map (\<lambda>a. (lr_start (sa_range a), lr_end (sa_range a))) (al_attrs al))
    (apply_hide \<lparr>al_string = replicate 14 (CHR ''x''),
      al_attrs = [\<lparr>sa_range = line_range_of 4 14, sa_type = SA_HIDDEN, sa_value = v\<rparr>,
                  \<lparr>sa_range = line_range_of 6 8, sa_type = VC_ROLE, sa_value = v\<rparr>]\<rparr>)
    = Some [(4, 7), (0, 1)]"
  by (simp add: apply_hide_def hide_one_def lr_length_def line_range_of_def str_replace_def to_size_t_def
      end_attr_def shift_string_attrs_def remove_styles_def lr_shift_def lr_contains_range_def lr_contains_def
      Let_def)

end
