(* ===== verification/Attr_Wrap.thy ===== *)
theory Attr_Wrap
  imports Attr_Line_Spec
begin

text \<open>
  Wrapping of text (\<open>attr_line_t::insert\<close> with \<open>text_wrap_settings\<close>, and \<open>wrap_with\<close>, in
  \<open>src/base/attr_line.cc\<close>): words are kept together on lines of a width, later lines are indented, and the
  indentation is marked as preformatted. The regular expressions for words and for space, the bytes
  of the next column and the width of text are Unicode data of libraries: \<open>word_re\<close> and \<open>space_re\<close> give
  the length of a match at the front, \<open>next_char\<close> a number of bytes, \<open>column_width\<close> columns.
  A \<open>string_fragment\<close> is the pair of its bounds.
\<close>

section \<open>Parameters and state\<close>

record text_wrap_settings =
  tws_indent :: nat
  tws_width :: nat
  tws_padding_indent :: nat

record 'v text_lib =
  word_re :: "string \<Rightarrow> nat option"
  space_re :: "string \<Rightarrow> nat option"
  next_char :: "string \<Rightarrow> nat"
  column_width :: "string \<Rightarrow> nat"
  pre_value :: 'v

record 'v wrap_state =
  ws_al :: "'v attr_line"
  ws_begin :: int
  ws_end :: int
  ws_word_begin :: int
  ws_word_end :: int
  ws_ch_count :: int
  ws_indent_count :: int
  ws_needs_indent :: bool
  ws_was_pre :: bool

datatype chunk_kind = Word_chunk | Space_chunk

definition frag_empty :: "int \<Rightarrow> int \<Rightarrow> bool" where
  "frag_empty b e \<longleftrightarrow> \<not> (b \<noteq> - 1 \<and> b \<le> e) \<or> e - b = 0"

definition frag_string :: "string \<Rightarrow> int \<Rightarrow> int \<Rightarrow> string" where
  "frag_string str b e = take (nat (e - b)) (drop (nat b) str)"

section \<open>Chunks of text\<close>

definition consume :: "'v text_lib \<Rightarrow> string \<Rightarrow> chunk_kind \<times> int" where
  "consume lib text =
    (case word_re lib text of
       Some n \<Rightarrow> (Word_chunk, int n)
     | None \<Rightarrow>
        if isspace (str_at text 0) then (Space_chunk, 1)
        else case space_re lib text of
          Some n \<Rightarrow> (Space_chunk, int n)
        | None \<Rightarrow> (Word_chunk, int (next_char lib text)))"

definition split_attrs :: "line_range \<Rightarrow> 'v attr_line \<Rightarrow> 'v attr_line" where
  "split_attrs lr al =
    (if lr_empty lr then al
     else let hit = (\<lambda>a. lr_intersects lr (sa_range a)) in
       al\<lparr>al_attrs :=
         map (\<lambda>a. if hit a then a\<lparr>sa_range := (sa_range a)\<lparr>lr_end := lr_start lr\<rparr>\<rparr> else a) (al_attrs al)
         @ map (\<lambda>a. string_attr_of (line_range_of (lr_end lr) (lr_end (sa_range a))) (sa_type a, sa_value a))
             (filter hit (al_attrs al))\<rparr>)"

definition put_indent :: "'v text_lib \<Rightarrow> text_wrap_settings \<Rightarrow> int \<Rightarrow> 'v attr_line \<Rightarrow> 'v attr_line option" where
  "put_indent lib tws pos al = do {
     al1 \<leftarrow> insert_str (nat pos) (replicate (tws_indent tws + tws_padding_indent tws) (CHR '' '')) al;
     let al2 = split_attrs (line_range_of pos (pos + int (tws_indent tws))) al1;
     let lr = line_range_of pos (pos + int (tws_indent tws) + int (tws_padding_indent tws));
     Some (if \<not> lr_empty lr then with_attr (string_attr_of lr (SA_PREFORMATTED, pre_value lib)) al2 else al2)
   }"

text \<open>
  \<open>erase\<close> with the difference of two places as its length: \<open>- 1\<close> is \<open>npos\<close>, and another negative
  number is a huge length for the string, but a negative one for the ranges.
\<close>

definition erase_count :: "int \<Rightarrow> int \<Rightarrow> 'v attr_line \<Rightarrow> 'v attr_line option" where
  "erase_count pos k al =
    (if k \<ge> 0 then al_erase (nat pos) (Some (nat k)) al
     else if k = - 1 then al_erase (nat pos) None al
     else do {
       str \<leftarrow> str_erase (nat pos) (length (al_string al)) (al_string al);
       Some \<lparr>al_string = str, al_attrs = filter (\<lambda>a. \<not> lr_empty (sa_range a))
         (shift_string_attrs_range (line_range_of pos (pos + k)) (- k) (al_attrs al))\<rparr>
     })"

section \<open>The loop\<close>

definition indent_step :: "'v text_lib \<Rightarrow> text_wrap_settings \<Rightarrow> 'v wrap_state \<Rightarrow> 'v wrap_state option" where
  "indent_step lib tws st =
    (if ws_needs_indent st
     then do {
       al \<leftarrow> put_indent lib tws (ws_begin st) (ws_al st);
       let k = int (tws_indent tws + tws_padding_indent tws);
       Some (st\<lparr>ws_al := al, ws_begin := ws_begin st + k, ws_end := ws_end st + k,
         ws_ch_count := ws_ch_count st + int (tws_padding_indent tws),
         ws_indent_count := ws_indent_count st + int (tws_padding_indent tws),
         ws_needs_indent := False\<rparr>)
     }
     else Some st)"

text \<open>Preformatted text up to its end, or its next newline, is taken as one word.\<close>

definition pre_chunk :: "'v text_lib \<Rightarrow> nat \<Rightarrow> 'v wrap_state \<Rightarrow> ('v attr_line \<times> int) option" where
  "pre_chunk lib i st =
    (let al = ws_al st; a = al_attrs al ! i; lr = sa_range a; b = ws_begin st;
         pre_len = lr_end lr - b;
         pre_lf = first_index (\<lambda>c. c = CHR 0x0A) (frag_string (al_string al) b (ws_end st));
         (al1, pre_len1) =
           (case pre_lf of
              Some lf \<Rightarrow>
                if int lf + 1 < pre_len
                then (al\<lparr>al_attrs := (al_attrs al)[i := a\<lparr>sa_range := lr\<lparr>lr_end := lr_start lr + (int lf + 1)\<rparr>\<rparr>]
                        @ [\<lparr>sa_range = lr\<lparr>lr_start := lr_start lr + (int lf + 1)\<rparr>, sa_type = SA_PREFORMATTED,
                           sa_value = pre_value lib\<rparr>]\<rparr>, int lf + 1)
                else (al, pre_len)
            | None \<Rightarrow> (al, pre_len))
     in if lr_start lr < b \<or> ws_end st - b < pre_len1 then None else Some (al1, pre_len1))"

definition word_step ::
  "'v text_lib \<Rightarrow> text_wrap_settings \<Rightarrow> int \<Rightarrow> 'v wrap_state \<Rightarrow> 'v wrap_state option" where
  "word_step lib tws n st =
    (let al = ws_al st; b = ws_begin st;
         word = frag_string (al_string al) b (b + n);
         ch_count = int (column_width lib word);
         st1 = st\<lparr>ws_begin := b + n, ws_word_begin := b, ws_word_end := b + n\<rparr>
     in if ws_ch_count st > ws_indent_count st \<and> \<not> ws_was_pre st
           \<and> ws_ch_count st + ch_count > int (tws_width tws) - int (tws_indent tws)
        then do {
          al1 \<leftarrow> insert_str (nat b) [CHR 0x0A] al;
          al2 \<leftarrow> put_indent lib tws (b + 1) al1;
          let last_empty = frag_empty (ws_word_begin st) (ws_word_end st);
          let trailing = (if last_empty then 0 else b - ws_word_end st);
          al3 \<leftarrow> (if last_empty then Some al2 else erase_count (ws_word_end st) trailing al2);
          let k = 1 + int (tws_indent tws + tws_padding_indent tws) - trailing;
          Some (st1\<lparr>ws_al := al3, ws_begin := b + n + k, ws_end := ws_end st + k,
            ws_ch_count := int (tws_padding_indent tws) + ch_count,
            ws_indent_count := int (tws_padding_indent tws)\<rparr>)
        }
        else if word \<noteq> [] \<and> last word = CHR 0x0A
        then Some (st1\<lparr>ws_ch_count := 0, ws_indent_count := 0, ws_needs_indent := True\<rparr>)
        else Some (st1\<lparr>ws_ch_count := ws_ch_count st + ch_count\<rparr>))"

definition space_step ::
  "'v text_lib \<Rightarrow> text_wrap_settings \<Rightarrow> int \<Rightarrow> 'v wrap_state \<Rightarrow> 'v wrap_state option" where
  "space_step lib tws n st =
    (let al = ws_al st; b = ws_begin st;
         space = frag_string (al_string al) b (b + n);
         ch_count = int (column_width lib space);
         pre = (find_string_attr_containing (al_attrs al) SA_PREFORMATTED b \<noteq> None);
         st1 = st\<lparr>ws_begin := b + n\<rparr>
     in if space = [CHR 0x0A]
        then Some (st1\<lparr>ws_ch_count := 0, ws_indent_count := 0, ws_needs_indent := True\<rparr>)
        else if ws_ch_count st > 0
        then (if ws_ch_count st + ch_count > int (tws_width tws) - int (tws_indent tws) \<and> \<not> pre
          then do {
            al1 \<leftarrow> erase_count b n al;
            al2 \<leftarrow> insert_str (nat b) [CHR 0x0A] al1;
            let last_empty = frag_empty (ws_word_begin st) (ws_word_end st);
            let trailing = (if last_empty then 0 else b - ws_word_end st);
            al3 \<leftarrow> (if last_empty then Some al2 else erase_count (ws_word_end st) trailing al2);
            let k = 1 - (n + trailing);
            Some (st1\<lparr>ws_al := al3, ws_begin := b + n + k, ws_end := ws_end st + k,
              ws_word_begin := 0, ws_word_end := 0,
              ws_ch_count := 0, ws_indent_count := 0, ws_needs_indent := True\<rparr>)
          }
          else Some (st1\<lparr>ws_ch_count := ws_ch_count st + ch_count\<rparr>))
        else if \<not> pre
        then do {
          al1 \<leftarrow> erase_count b n al;
          Some (st1\<lparr>ws_al := al1, ws_begin := b, ws_end := ws_end st - n\<rparr>)
        }
        else Some st1)"

text \<open>
  One pass of the loop; \<open>None\<close> is an exception or a failed check. Whether the chunk was preformatted is
  seen from the iterator of the search, which is compared with the end of the vector as it is
  after the pass, so that it also differs when attributes were added or erased.
\<close>

definition wrap_step :: "'v text_lib \<Rightarrow> text_wrap_settings \<Rightarrow> 'v wrap_state \<Rightarrow> 'v wrap_state option" where
  "wrap_step lib tws st0 = do {
     st \<leftarrow> indent_step lib tws st0;
     let b = ws_begin st;
     let pre_iter = find_string_attr_containing (al_attrs (ws_al st)) SA_PREFORMATTED b;
     (al, kind, n0) \<leftarrow> (case pre_iter of
         Some i \<Rightarrow> do { (al, n) \<leftarrow> pre_chunk lib i st; Some (al, Word_chunk, n) }
       | None \<Rightarrow> let (kind, n) = consume lib (frag_string (al_string (ws_al st)) b (ws_end st))
           in Some (ws_al st, kind, n));
     let n = min n0 (ws_end st - b);
     let end_iter = (case pre_iter of Some i \<Rightarrow> i | None \<Rightarrow> length (al_attrs al));
     st1 \<leftarrow> (case kind of Word_chunk \<Rightarrow> word_step lib tws n (st\<lparr>ws_al := al\<rparr>)
       | Space_chunk \<Rightarrow> space_step lib tws n (st\<lparr>ws_al := al\<rparr>));
     if ws_begin st1 \<le> ws_end st1
     then Some (st1\<lparr>ws_was_pre := (end_iter \<noteq> length (al_attrs (ws_al st1)))\<rparr>)
     else None
   }"

text \<open>Nothing comes back if the loop does not end; a failed pass ends the program.\<close>

partial_function (option) wrap_loop ::
  "'v text_lib \<Rightarrow> text_wrap_settings \<Rightarrow> 'v wrap_state \<Rightarrow> 'v attr_line option option" where
  "wrap_loop lib tws st =
    (if frag_empty (ws_begin st) (ws_end st) then Some (Some (ws_al st))
     else case wrap_step lib tws st of None \<Rightarrow> Some None | Some st1 \<Rightarrow> wrap_loop lib tws st1)"

declare wrap_loop.simps [code]

definition starting_line :: "string \<Rightarrow> nat \<Rightarrow> nat" where
  "starting_line str index =
    (case first_index (\<lambda>c. c = CHR 0x0A) (rev (take index str)) of Some k \<Rightarrow> index - k | None \<Rightarrow> 0)"

definition insert_wrapped ::
  "'v text_lib \<Rightarrow> nat \<Rightarrow> 'v attr_line \<Rightarrow> text_wrap_settings \<Rightarrow> 'v attr_line \<Rightarrow> 'v attr_line option option" where
  "insert_wrapped lib index al2 tws al =
    (if tws_width tws = 0 then Some None
     else case insert_line index al2 al of
       None \<Rightarrow> Some None
     | Some al1 \<Rightarrow> wrap_loop lib tws
         \<lparr>ws_al = al1, ws_begin = int (starting_line (al_string al1) index), ws_end = int (length (al_string al1)),
          ws_word_begin = 0, ws_word_end = 0, ws_ch_count = 0, ws_indent_count = 0,
          ws_needs_indent = False, ws_was_pre = False\<rparr>)"

definition wrap_with :: "'v text_lib \<Rightarrow> text_wrap_settings \<Rightarrow> 'v attr_line \<Rightarrow> 'v attr_line option option" where
  "wrap_with lib tws al = insert_wrapped lib 0 al tws (al_of [])"

section \<open>Words that are lost\<close>

text \<open>
  ASCII text: words are what is between blanks. Wrapping counts the blanks after the last word to take
  them off the end of the line, with the place that the last word had before it was itself moved to
  a new line. So of a word that is alone on its line the end is erased.
\<close>

definition ascii_lib :: "unit text_lib" where
  "ascii_lib =
    \<lparr>word_re = (\<lambda>s. let n = length (takeWhile (\<lambda>c. \<not> isspace c) s) in if n = 0 then None else Some n),
     space_re = (\<lambda>s. None), next_char = (\<lambda>s. 1), column_width = length, pre_value = ()\<rparr>"

lemma wrapping_loses_characters:
  "map_option (map_option al_string) (wrap_with ascii_lib
      \<lparr>tws_indent = 2, tws_width = 14, tws_padding_indent = 0\<rparr> (al_of ''aaaaaaaa bbbbbbbb cccccccc''))
    = Some (Some (''aaaaaaaa'' @ [CHR 0x0A] @ ''  bbbbbb'' @ [CHR 0x0A] @ ''  cccccccc''))"
  by code_simp


text \<open>The case \<open>basic-wrapping\<close> of \<open>src/base/attr_line.tests.cc\<close>.\<close>

lemma basic_wrapping:
  "map_option (map_option al_string) (wrap_with ascii_lib
      \<lparr>tws_indent = 3, tws_width = 21, tws_padding_indent = 0\<rparr>
      (al_of ''This line, right here, needs to be wrapped.''))
    = Some (Some (''This line, right'' @ [CHR 0x0A] @ ''   here, needs to be'' @ [CHR 0x0A] @ ''   wrapped.''))"
  by code_simp

section \<open>Wrapping ends\<close>

text \<open>What is asked of the library: no match is empty, and the next column of a text has a byte.\<close>

definition lib_ok :: "'v text_lib \<Rightarrow> bool" where
  "lib_ok lib \<longleftrightarrow> (\<forall>s n. word_re lib s = Some n \<longrightarrow> 0 < n) \<and> (\<forall>s n. space_re lib s = Some n \<longrightarrow> 0 < n)
    \<and> (\<forall>s. 0 < next_char lib s)"

definition range_ended :: "line_range \<Rightarrow> bool" where
  "range_ended lr \<longleftrightarrow> 0 \<le> lr_start lr \<and> 0 \<le> lr_end lr"

text \<open>Preformatted text has an end.\<close>

definition pre_ended :: "'v attr_line \<Rightarrow> bool" where
  "pre_ended al \<longleftrightarrow> (\<forall>a \<in> set (al_attrs al). sa_type a = SA_PREFORMATTED \<longrightarrow> range_ended (sa_range a))"

lemma ended_shift: "range_ended lr \<Longrightarrow> 0 \<le> amount \<Longrightarrow> range_ended (lr_shift start amount lr)"
  by (auto simp: range_ended_def lr_shift_def Let_def)

lemma ended_shift_range: "range_ended lr \<Longrightarrow> 0 \<le> lr_start cover \<Longrightarrow> range_ended (lr_shift_range cover amount lr)"
  by (auto simp: range_ended_def lr_shift_range_def Let_def)

lemma pre_ended_insert: "pre_ended al \<Longrightarrow> insert_str index s al = Some al' \<Longrightarrow> pre_ended al'"
  by (auto simp: pre_ended_def insert_str_def shift_string_attrs_def ended_shift split: bind_splits)

lemma pre_ended_shifted:
  "pre_ended al \<Longrightarrow> 0 \<le> lr_start cover \<Longrightarrow>
    pre_ended \<lparr>al_string = str, al_attrs = filter P (shift_string_attrs_range cover amount (al_attrs al))\<rparr>"
  by (auto simp: pre_ended_def shift_string_attrs_range_def ended_shift_range)

lemma pre_ended_erase: "pre_ended al \<Longrightarrow> al_erase pos len al = Some al' \<Longrightarrow> pre_ended al'"
  by (auto simp: al_erase_def Let_def line_range_of_def pre_ended_shifted split: if_splits bind_splits)

lemma pre_ended_erase_count:
  "pre_ended al \<Longrightarrow> 0 \<le> pos \<Longrightarrow> erase_count pos k al = Some al' \<Longrightarrow> pre_ended al'"
  by (auto simp: erase_count_def line_range_of_def pre_ended_shifted intro: pre_ended_erase
      split: if_splits bind_splits)

lemma pre_ended_split:
  "pre_ended al \<Longrightarrow> 0 \<le> lr_start lr \<Longrightarrow> 0 \<le> lr_end lr \<Longrightarrow> pre_ended (split_attrs lr al)"
  by (auto simp: pre_ended_def split_attrs_def Let_def range_ended_def string_attr_of_def line_range_of_def)

lemma pre_ended_with: "pre_ended al \<Longrightarrow> range_ended lr \<Longrightarrow> pre_ended (with_attr (string_attr_of lr v) al)"
  by (auto simp: pre_ended_def with_attr_def string_attr_of_def)

lemma pre_ended_put_indent:
  assumes "pre_ended al" "0 \<le> pos" "put_indent lib tws pos al = Some al'"
  shows "pre_ended al'"
proof -
  from assms(3) obtain al1 where ins:
      "insert_str (nat pos) (replicate (tws_indent tws + tws_padding_indent tws) (CHR '' '')) al = Some al1"
    by (auto simp: put_indent_def split: bind_splits)
  let ?al2 = "split_attrs (line_range_of pos (pos + int (tws_indent tws))) al1"
  have "pre_ended ?al2"
    using pre_ended_split [OF pre_ended_insert [OF assms(1) ins]] assms(2) by (simp add: line_range_of_def)
  moreover have "al' = ?al2 \<or> al' = with_attr (string_attr_of
      (line_range_of pos (pos + int (tws_indent tws) + int (tws_padding_indent tws))) (SA_PREFORMATTED, pre_value lib)) ?al2"
    using assms(3) ins by (auto simp: put_indent_def Let_def split: if_splits)
  moreover have "range_ended (line_range_of pos (pos + int (tws_indent tws) + int (tws_padding_indent tws)))"
    using assms(2) by (simp add: range_ended_def line_range_of_def)
  ultimately show ?thesis using pre_ended_with by auto
qed

definition wrap_ok :: "'v wrap_state \<Rightarrow> bool" where
  "wrap_ok st \<longleftrightarrow> pre_ended (ws_al st) \<and> 0 \<le> ws_begin st \<and> 0 \<le> ws_word_end st"

abbreviation left :: "'v wrap_state \<Rightarrow> int" where
  "left st \<equiv> ws_end st - ws_begin st"

lemma indent_step_ok:
  assumes "wrap_ok st" "indent_step lib tws st = Some st1"
  shows "wrap_ok st1 \<and> left st1 = left st"
  using assms pre_ended_put_indent
  by (auto simp: indent_step_def wrap_ok_def Let_def split: if_splits bind_splits)

lemma word_step_ok:
  assumes "wrap_ok st" "0 < n" "word_step lib tws n st = Some st1"
  shows "wrap_ok st1 \<and> left st1 = left st - n"
proof (cases "ws_ch_count st > ws_indent_count st \<and> \<not> ws_was_pre st
    \<and> ws_ch_count st + int (column_width lib (frag_string (al_string (ws_al st)) (ws_begin st) (ws_begin st + n)))
      > int (tws_width tws) - int (tws_indent tws)")
  case True
  let ?b = "ws_begin st" and ?e = "frag_empty (ws_word_begin st) (ws_word_end st)"
  let ?t = "if ?e then 0 else ?b - ws_word_end st"
  obtain al1 al2 al3 where ins: "insert_str (nat ?b) [CHR 0x0A] (ws_al st) = Some al1"
    and ind: "put_indent lib tws (?b + 1) al1 = Some al2"
    and era: "(if ?e then Some al2 else erase_count (ws_word_end st) ?t al2) = Some al3"
    and st1: "ws_al st1 = al3" "ws_begin st1 = ?b + n + (1 + int (tws_indent tws + tws_padding_indent tws) - ?t)"
      "ws_end st1 = ws_end st + (1 + int (tws_indent tws + tws_padding_indent tws) - ?t)" "ws_word_end st1 = ?b + n"
    using assms(3) True unfolding word_step_def Let_def by (auto split: bind_splits)
  have "pre_ended al2"
    using assms(1) pre_ended_put_indent [OF pre_ended_insert [OF _ ins] _ ind] by (simp add: wrap_ok_def)
  then have "pre_ended al3"
    using era assms(1) pre_ended_erase_count by (auto simp: wrap_ok_def split: if_splits)
  then show ?thesis using st1 assms(1,2) by (auto simp: wrap_ok_def split: if_splits)
next
  case False
  then show ?thesis using assms unfolding word_step_def Let_def by (auto simp: wrap_ok_def split: if_splits)
qed

lemma pre_ended_break:
  assumes "pre_ended al" "0 \<le> b" "erase_count b n al = Some al1" "insert_str (nat b) s al1 = Some al2"
    and "0 \<le> w" "(if e then Some al2 else erase_count w t al2) = Some al3"
  shows "pre_ended al3"
  using assms(5,6) pre_ended_insert [OF pre_ended_erase_count [OF assms(1-3)] assms(4)]
    pre_ended_erase_count by (auto split: if_splits)

lemma space_step_ok:
  assumes "wrap_ok st" "0 < n" "space_step lib tws n st = Some st1"
  shows "wrap_ok st1 \<and> left st1 = left st - n"
proof -
  let ?b = "ws_begin st" and ?e = "frag_empty (ws_word_begin st) (ws_word_end st)"
  let ?t = "if ?e then 0 else ?b - ws_word_end st"
  have ok: "pre_ended (ws_al st)" "0 \<le> ?b" "0 \<le> ws_word_end st" using assms(1) by (simp_all add: wrap_ok_def)
  consider (keep) "ws_al st1 = ws_al st" "ws_begin st1 = ?b + n" "ws_end st1 = ws_end st"
      "ws_word_end st1 = ws_word_end st"
    | (blank) "erase_count ?b n (ws_al st) = Some (ws_al st1)" "ws_begin st1 = ?b" "ws_end st1 = ws_end st - n"
      "ws_word_end st1 = ws_word_end st"
    | (break) al1 al2 where "erase_count ?b n (ws_al st) = Some al1" "insert_str (nat ?b) [CHR 0x0A] al1 = Some al2"
      "(if ?e then Some al2 else erase_count (ws_word_end st) ?t al2) = Some (ws_al st1)"
      "ws_begin st1 = ?b + n + (1 - (n + ?t))" "ws_end st1 = ws_end st + (1 - (n + ?t))" "ws_word_end st1 = 0"
    using assms(3) unfolding space_step_def Let_def by (auto split: if_splits bind_splits)
  then show ?thesis
  proof cases
    case break
    then show ?thesis using ok assms(2) pre_ended_break [OF ok(1,2) break(1,2) ok(3) break(3)]
      by (auto simp: wrap_ok_def split: if_splits)
  qed (use ok assms(2) pre_ended_erase_count in \<open>auto simp: wrap_ok_def\<close>)
qed

lemma pre_chunk_ok:
  assumes "wrap_ok st" "find_string_attr_containing (al_attrs (ws_al st)) SA_PREFORMATTED (ws_begin st) = Some i"
    and "pre_chunk lib i st = Some (al, n)"
  shows "pre_ended al \<and> 0 < n \<and> n \<le> left st"
proof -
  let ?a = "al_attrs (ws_al st) ! i"
  have i: "i < length (al_attrs (ws_al st))" "sa_type ?a = SA_PREFORMATTED" "lr_contains (sa_range ?a) (ws_begin st)"
    using first_index_Some [OF assms(2) [unfolded find_string_attr_containing_def]] by auto
  then have a: "range_ended (sa_range ?a)" using assms(1) by (auto simp: wrap_ok_def pre_ended_def)
  have pos: "0 < lr_end (sa_range ?a) - ws_begin st"
    using a i(3) by (auto simp: range_ended_def lr_contains_def)
  have upd: "pre_ended (ws_al st\<lparr>al_attrs := (al_attrs (ws_al st))[i := ?a\<lparr>sa_range := (sa_range ?a)\<lparr>lr_end := e\<rparr>\<rparr>]
      @ [\<lparr>sa_range = (sa_range ?a)\<lparr>lr_start := e\<rparr>, sa_type = SA_PREFORMATTED, sa_value = v\<rparr>]\<rparr>)"
    if "0 \<le> e" for e v
    using assms(1) i a that
    by (auto simp: wrap_ok_def pre_ended_def range_ended_def dest!: set_update_subset_insert [THEN subsetD])
  show ?thesis
    using assms(1,3) pos a i upd
    by (auto simp: pre_chunk_def Let_def wrap_ok_def range_ended_def split: option.splits if_splits)
qed

lemma consume_pos: "lib_ok lib \<Longrightarrow> consume lib s = (kind, n) \<Longrightarrow> 0 < n"
  by (auto simp: consume_def lib_ok_def split: option.splits if_splits)

lemma wrap_step_ok:
  assumes "lib_ok lib" "wrap_ok st0" "0 < left st0" "wrap_step lib tws st0 = Some st2"
  shows "wrap_ok st2 \<and> left st2 < left st0"
proof -
  obtain st where st: "indent_step lib tws st0 = Some st" using assms(4) by (auto simp: wrap_step_def split: bind_splits)
  have ok: "wrap_ok st" "0 < left st" "left st = left st0" using indent_step_ok [OF assms(2) st] assms(3) by auto
  obtain al kind n st1 where al: "pre_ended al" and n: "0 < n"
    and step: "(case kind of Word_chunk \<Rightarrow> word_step lib tws (min n (left st)) (st\<lparr>ws_al := al\<rparr>)
      | Space_chunk \<Rightarrow> space_step lib tws (min n (left st)) (st\<lparr>ws_al := al\<rparr>)) = Some st1"
    and st2: "ws_al st2 = ws_al st1" "ws_begin st2 = ws_begin st1" "ws_end st2 = ws_end st1"
      "ws_word_end st2 = ws_word_end st1"
  proof (cases "find_string_attr_containing (al_attrs (ws_al st)) SA_PREFORMATTED (ws_begin st)")
    case None
    obtain kind n where c: "consume lib (frag_string (al_string (ws_al st)) (ws_begin st) (ws_end st)) = (kind, n)"
      by (cases "consume lib (frag_string (al_string (ws_al st)) (ws_begin st) (ws_end st))") auto
    obtain x where x: "(case kind of Word_chunk \<Rightarrow> word_step lib tws (min n (left st)) (st\<lparr>ws_al := ws_al st\<rparr>)
        | Space_chunk \<Rightarrow> space_step lib tws (min n (left st)) (st\<lparr>ws_al := ws_al st\<rparr>)) = Some x"
      and st2: "\<exists>p. st2 = x\<lparr>ws_was_pre := p\<rparr>"
      using assms(4) st None c by (auto simp: wrap_step_def Let_def split: bind_splits if_splits)
    have "pre_ended (ws_al st)" using ok(1) by (simp add: wrap_ok_def)
    then show ?thesis using that [OF _ consume_pos [OF assms(1) c] x] st2 by auto
  next
    case (Some i)
    then obtain al n where c: "pre_chunk lib i st = Some (al, n)"
      using assms(4) st by (auto simp: wrap_step_def Let_def split: bind_splits)
    obtain x where x: "(case Word_chunk of Word_chunk \<Rightarrow> word_step lib tws (min n (left st)) (st\<lparr>ws_al := al\<rparr>)
        | Space_chunk \<Rightarrow> space_step lib tws (min n (left st)) (st\<lparr>ws_al := al\<rparr>)) = Some x"
      and st2: "\<exists>p. st2 = x\<lparr>ws_was_pre := p\<rparr>"
      using assms(4) st Some c by (auto simp: wrap_step_def Let_def split: bind_splits if_splits)
    show ?thesis using that [OF _ _ x] pre_chunk_ok [OF ok(1) Some c] st2 by auto
  qed
  have "wrap_ok (st\<lparr>ws_al := al\<rparr>)" using ok(1) al by (simp add: wrap_ok_def)
  moreover have "0 < min n (left st)" using n ok(2) by simp
  ultimately have "wrap_ok st1 \<and> left st1 = left (st\<lparr>ws_al := al\<rparr>) - min n (left st)"
    using step word_step_ok space_step_ok by (cases kind) (simp_all only: chunk_kind.case)
  then show ?thesis using st2 n ok(2,3) by (simp add: wrap_ok_def)
qed

lemma wrap_loop_ends:
  assumes "lib_ok lib"
  shows "wrap_ok st \<Longrightarrow> \<exists>r. wrap_loop lib tws st = Some r"
proof (induction "nat (left st)" arbitrary: st rule: less_induct)
  case less
  show ?case
  proof (cases "frag_empty (ws_begin st) (ws_end st)")
    case False
    then have pos: "0 < left st" by (auto simp: frag_empty_def)
    show ?thesis
    proof (cases "wrap_step lib tws st")
      case (Some st1)
      then have "wrap_ok st1 \<and> left st1 < left st" using wrap_step_ok assms less.prems pos by blast
      then show ?thesis using less.hyps [of st1] pos False Some by (subst wrap_loop.simps) auto
    qed (use False in \<open>subst wrap_loop.simps, simp\<close>)
  qed (subst wrap_loop.simps, simp)
qed

lemma inserted_pre_ended:
  assumes "al_ok al" "al_ok al2" "insert_line index al2 al = Some al'"
    and "\<forall>a \<in> set (al_attrs al). sa_type a = SA_PREFORMATTED \<longrightarrow> lr_end (sa_range a) \<noteq> - 1"
  shows "pre_ended al'"
proof -
  have old: "sa_type a = SA_PREFORMATTED \<longrightarrow> range_ended (sa_range a)" if "a \<in> set (al_attrs al)" for a
    using that assms(1,4) by (auto simp: al_ok_def range_in_def range_ended_def)
  have new: "range_ended (sa_range (inserted_attr index n a))" if "a \<in> set (al_attrs al2)" for a n
    using that assms(2)
    by (auto simp: al_ok_def range_in_def range_ended_def inserted_attr_def lr_shift_def Let_def)
  show ?thesis using assms(3) old new
    by (auto simp: insert_line_def Let_def pre_ended_def shift_string_attrs_def ended_shift inserted_attr_def
        split: bind_splits if_splits)
qed

text \<open>
  C21: Wrapping ends, with a result or a failed check, for text from the operations whose preformatted parts
  have an end.
\<close>

theorem wrapping_ends:
  assumes "lib_ok lib" "al_built al" "al_built al2"
    and "\<forall>a \<in> set (al_attrs al). sa_type a = SA_PREFORMATTED \<longrightarrow> lr_end (sa_range a) \<noteq> - 1"
  shows "\<exists>r. insert_wrapped lib index al2 tws al = Some r"
proof (cases "tws_width tws = 0 \<or> insert_line index al2 al = None")
  case False
  then obtain al' where ins: "insert_line index al2 al = Some al'" by auto
  show ?thesis
    using False ins inserted_pre_ended [OF built_ok [OF assms(2)] built_ok [OF assms(3)] ins assms(4)]
      wrap_loop_ends [OF assms(1)]
    by (simp add: insert_wrapped_def wrap_ok_def)
qed (auto simp: insert_wrapped_def)

lemma ascii_lib_ok: "lib_ok ascii_lib"
  by (simp add: lib_ok_def ascii_lib_def Let_def)

lemma wrapping_ends_witness:
  "\<exists>r. insert_wrapped ascii_lib 0 (al_of ''two words'')
    \<lparr>tws_indent = 2, tws_width = 4, tws_padding_indent = 0\<rparr> (al_of []) = Some r"
  by (rule wrapping_ends [OF ascii_lib_ok built_of built_of]) (simp add: al_of_def)

end
