(* ===== verification/String_Util.thy ===== *)
theory String_Util
  imports Lnav_Prelude Utf8 "HOL-Library.Monad_Syntax"
begin

text \<open>
  The helpers for strings (\<open>src/base/string_util.cc\<close>, \<open>.hh\<close>) and the sizes of UTF-8 characters
  (\<open>src/ww898/cp_utf8.hpp\<close>): counting and cutting by characters, quoting, abbreviating, splitting. A string
  is a list of bytes. A buffer that is changed in place is a list too, with its terminating NUL; a write past
  it is \<open>None\<close>.
\<close>

section \<open>Characters of UTF-8\<close>

abbreviation ub :: "char \<Rightarrow> nat" where
  "ub c \<equiv> of_char c"

text \<open>\<open>remaining\<close> is what the caller says is left; \<open>None\<close> is an error.\<close>

definition char_size :: "char \<Rightarrow> nat \<Rightarrow> nat option" where
  "char_size ch remaining =
    (let ch0 = ub ch;
         n = (if ch0 < 0x80 then 1 else if ch0 < 0xC0 then 0 else if ch0 < 0xE0 then 2 else if ch0 < 0xF0 then 3
              else if ch0 < 0xF8 then 4 else if ch0 < 0xFC then 5 else if ch0 < 0xFE then 6 else 0)
     in if n = 0 then None else if n - 1 > remaining then None else Some n)"

lemma char_size_pos: "char_size ch r = Some n \<Longrightarrow> 0 < n"
  by (auto simp: char_size_def Let_def split: if_splits)

function utf8_length_from :: "string \<Rightarrow> nat \<Rightarrow> nat option" where
  "utf8_length_from str byte_index =
    (if byte_index < length str
     then (case char_size (str ! byte_index) (length str - byte_index) of
         None \<Rightarrow> None
       | Some n \<Rightarrow> map_option Suc (utf8_length_from str (byte_index + n)))
     else Some 0)"
  by pat_completeness auto

termination
  by (relation "measure (\<lambda>(str, i). length str - i)") (auto dest: char_size_pos)

declare utf8_length_from.simps [simp del]

definition utf8_string_length :: "string \<Rightarrow> nat option" where
  "utf8_string_length str = utf8_length_from str 0"

text \<open>The bytes left are a \<open>size_t\<close> that wraps at the end of the string.\<close>

fun byte_index_from :: "string \<Rightarrow> nat \<Rightarrow> nat \<Rightarrow> nat" where
  "byte_index_from str retval 0 = retval"
| "byte_index_from str retval (Suc ch_index) =
    (let remaining = nat ((int (length str) - int retval - 1) mod 2 ^ 64);
         n = (case char_size (str_at str retval) remaining of Some n \<Rightarrow> n | None \<Rightarrow> 1)
     in byte_index_from str (retval + n) ch_index)"

definition utf8_char_to_byte_index :: "string \<Rightarrow> nat \<Rightarrow> nat" where
  "utf8_char_to_byte_index str ch_index = byte_index_from str 0 ch_index"

definition ellipsis :: string where
  "ellipsis = [CHR 0xE2, CHR 0x8B, CHR 0xAF]"

text \<open>\<open>erase\<close> and \<open>insert\<close> of a string throw when the place is past the end.\<close>

definition truncate_to :: "string \<Rightarrow> nat \<Rightarrow> string option" where
  "truncate_to str max_char_len =
    (if length str < max_char_len then Some str
     else case utf8_string_length str of
       None \<Rightarrow> Some str
     | Some n \<Rightarrow>
         if n \<le> max_char_len then Some str
         else if max_char_len < 3 then Some ellipsis
         else let chars_to_remove = n - max_char_len + 1;
                  midpoint = n div 2;
                  chars_to_keep_at_front = midpoint - chars_to_remove div 2;
                  bytes_to_keep_at_front = utf8_char_to_byte_index str chars_to_keep_at_front;
                  remove_up_to_bytes = utf8_char_to_byte_index str (chars_to_keep_at_front + chars_to_remove)
              in if bytes_to_keep_at_front \<le> length str
                 then Some (take bytes_to_keep_at_front str @ ellipsis @ drop remove_up_to_bytes str)
                 else None)"

definition center_str :: "string \<Rightarrow> nat \<Rightarrow> string option" where
  "center_str subject width = do {
     retval \<leftarrow> truncate_to subject width;
     let retval_length = (case utf8_string_length retval of Some n \<Rightarrow> n | None \<Rightarrow> length retval);
     if width < retval_length then None
     else let total_fill = width - retval_length; before = total_fill div 2; after = total_fill - before in
       Some (replicate before (CHR '' '') @ retval @ replicate after (CHR '' ''))
   }"

section \<open>Quoting\<close>

definition quote_char_content :: "char \<Rightarrow> char \<Rightarrow> string" where
  "quote_char_content q ch =
    (if ch = q then [CHR 0x5C, ch]
     else if ch = CHR 0x5C then [CHR 0x5C, CHR 0x5C]
     else if ch = CHR 0x0A then [CHR 0x5C, CHR ''n'']
     else if ch = CHR 0x09 then [CHR 0x5C, CHR ''t'']
     else if ch = CHR 0x0D then [CHR 0x5C, CHR ''r'']
     else if ch = CHR 0x07 then [CHR 0x5C, CHR ''a'']
     else if ch = CHR 0x08 then [CHR 0x5C, CHR ''b'']
     else [ch])"

definition quote_content :: "string \<Rightarrow> char \<Rightarrow> string" where
  "quote_content sf q = concat (map (quote_char_content q) sf)"

fun unquote_content :: "string \<Rightarrow> char \<Rightarrow> string" where
  "unquote_content [] q = []"
| "unquote_content (c # cs) q =
    (if c = q then c # unquote_content (drop 1 cs) q
     else case cs of
       [] \<Rightarrow> [c]
     | d # ds \<Rightarrow>
         if c = CHR 0x5C
         then (if d = CHR ''n'' then CHR 0x0A else if d = CHR ''r'' then CHR 0x0D
               else if d = CHR ''t'' then CHR 0x09 else d) # unquote_content ds q
         else c # unquote_content cs q)"

text \<open>\<open>None\<close> is the failed \<open>require\<close>, or text that is only one quote, of which the length wraps.\<close>

definition is_quote :: "char \<Rightarrow> bool" where
  "is_quote c \<longleftrightarrow> c = CHR 0x27 \<or> c = CHR 0x22"

definition unquote :: "string \<Rightarrow> string option" where
  "unquote str =
    (let str1 = (if str_at str 0 \<in> {CHR ''f'', CHR ''r'', CHR ''u'', CHR ''R'', CHR ''x'', CHR ''X''}
                 then drop 1 str else str);
         q = str_at str1 0
     in if is_quote q \<and> 2 \<le> length str1 then Some (unquote_content (take (length str1 - 2) (drop 1 str1)) q) else None)"

fun unquote_w3c_from :: "string \<Rightarrow> string" where
  "unquote_w3c_from [] = []"
| "unquote_w3c_from (c # cs) = c # unquote_w3c_from (if c = CHR 0x22 then drop 1 cs else cs)"

definition unquote_w3c :: "string \<Rightarrow> string option" where
  "unquote_w3c str =
    (if is_quote (str_at str 0) then Some (unquote_w3c_from (take (length str - 2) (drop 1 str))) else None)"

section \<open>Words and abbreviations\<close>

definition is_separator :: "char \<Rightarrow> bool" where
  "is_separator c \<longleftrightarrow> c \<in> {CHR ''.'', CHR ''-'', CHR ''/'', CHR '':''}"

definition last_word_str :: "string \<Rightarrow> nat \<Rightarrow> string" where
  "last_word_str str max_len =
    (let last_start = foldl (\<lambda>n i. if is_separator (str ! i) then i + 1 else n) 0 [0..<length str] in
     if length str < max_len then str
     else if last_start = 0 then str
     else drop last_start str)"

text \<open>\<open>memmove\<close> inside of a buffer.\<close>

definition memmove :: "nat \<Rightarrow> nat \<Rightarrow> nat \<Rightarrow> string \<Rightarrow> string option" where
  "memmove dst src n buf =
    (if dst + n \<le> length buf \<and> src + n \<le> length buf
     then Some (take dst buf @ take n (drop src buf) @ drop (dst + n) buf) else None)"

text \<open>
  The loop of \<open>abbreviate_str\<close>. The length can grow only for the first byte, where \<open>index - last_start\<close>
  is \<open>- 1\<close>.
\<close>

function abbreviate_from :: "nat \<Rightarrow> string \<Rightarrow> nat \<Rightarrow> nat \<Rightarrow> nat \<Rightarrow> (string \<times> nat) option" where
  "abbreviate_from max_len buf len index last_start =
    (if index < len
     then if is_separator (str_at buf index)
       then (case memmove last_start index (len - index) buf of
           None \<Rightarrow> None
         | Some buf1 \<Rightarrow>
             let len1 = len + last_start - index in
             if len1 < max_len then Some (buf1, len1)
             else abbreviate_from max_len buf1 len1 (last_start + 2) (last_start + 2))
       else abbreviate_from max_len buf len (index + 1) last_start
     else Some (buf, len))"
  by pat_completeness auto

termination
  by (relation "measure (\<lambda>(max_len, buf, len, index, last_start). len - index)") auto

declare abbreviate_from.simps [simp del]

definition abbreviate_str :: "string \<Rightarrow> nat \<Rightarrow> nat \<Rightarrow> (string \<times> nat) option" where
  "abbreviate_str buf len max_len = (if len < max_len then Some (buf, len) else abbreviate_from max_len buf len 0 1)"

definition split_when :: "(char \<Rightarrow> bool) \<Rightarrow> string \<Rightarrow> string \<times> string" where
  "split_when p s = (takeWhile (\<lambda>c. \<not> p c) s, drop 1 (dropWhile (\<lambda>c. \<not> p c) s))"

lemma split_when_second: "s \<noteq> [] \<Longrightarrow> length (snd (split_when p s)) < length s"
  by (induction s) (auto simp: split_when_def less_Suc_eq_le intro: order_trans [OF diff_le_self length_dropWhile_le])

function split_ws :: "string \<Rightarrow> string list" where
  "split_ws str =
    (let (first, second) = split_when isspace str in
     if first = [] then (if second = [] then [] else split_ws second)
     else first # split_ws second)"
  by pat_completeness auto

termination
proof (relation "measure length")
  fix str x and first second :: string
  assume a: "x = split_when isspace str" "(first, second) = x"
  show "first = [] \<Longrightarrow> second \<noteq> [] \<Longrightarrow> (second, str) \<in> measure length"
    using a split_when_second [of str isspace] by (cases str) (auto simp: split_when_def)
  show "first \<noteq> [] \<Longrightarrow> (second, str) \<in> measure length"
    using a split_when_second [of str isspace] by (cases str) (auto simp: split_when_def)
qed simp

definition repeat_str :: "string \<Rightarrow> nat \<Rightarrow> string" where
  "repeat_str input num = concat (replicate num input)"

definition is_blank :: "string \<Rightarrow> bool" where
  "is_blank str \<longleftrightarrow> list_all isspace str"

definition scrub_ws :: "string \<Rightarrow> string" where
  "scrub_ws s = concat (map (\<lambda>ch.
     if ch = CHR 0x09 then [CHR 0xE2, CHR 0x87, CHR 0xA5]
     else if ch = CHR 0x0A then [CHR 0xE2, CHR 0x90, CHR 0x8A]
     else if ch = CHR 0x0D then [CHR 0xE2, CHR 0x90, CHR 0x8D]
     else [ch]) s)"

definition trim_start :: "string \<Rightarrow> nat" where
  "trim_start str = length (takeWhile isspace str)"

definition trim_end :: "string \<Rightarrow> nat" where
  "trim_end str = length str - length (takeWhile isspace (rev str))"

text \<open>For blank text the end is before the start, and the length wraps: the rest of the text, which is empty.\<close>

definition trim :: "string \<Rightarrow> string" where
  "trim str =
    (if trim_end str < trim_start str then drop (trim_start str) str
     else take (trim_end str - trim_start str) (drop (trim_start str) str))"

section \<open>Text of characters\<close>

definition uchar :: "nat \<Rightarrow> string" where
  "uchar cp = map char_of (code_units cp)"

definition utext :: "nat list \<Rightarrow> string" where
  "utext cps = concat (map uchar cps)"

lemma utext_simps [simp]: "utext [] = []" "utext (cp # cps) = uchar cp @ utext cps" "utext (xs @ ys) = utext xs @ utext ys"
  by (simp_all add: utext_def)

lemma length_uchar [simp]: "length (uchar cp) = length (code_units cp)"
  by (simp add: uchar_def)

lemma uchar_nonempty [simp]: "uchar cp \<noteq> []"
  by (simp add: uchar_def)

lemma ub_hd_uchar:
  assumes "scalar cp"
  shows "ub (hd (uchar cp)) = hd (code_units cp)"
proof -
  have "hd (code_units cp) < 256" using code_units_byte [OF assms] code_units_nonempty hd_in_set by blast
  then show ?thesis by (simp add: uchar_def hd_map)
qed

lemma char_size_uchar:
  assumes "scalar cp" "length (code_units cp) - 1 \<le> r"
  shows "char_size (hd (uchar cp)) r = Some (length (code_units cp))"
proof -
  have lt: "cp < 0x110000" using assms(1) by (simp add: scalar_def)
  consider "cp < 0x80" | "0x80 \<le> cp" "cp < 0x800" | "0x800 \<le> cp" "cp < 0x10000" | "0x10000 \<le> cp" by linarith
  then show ?thesis
  proof cases
    case 2
    then have "cp div 64 < 32" by linarith
    then show ?thesis using 2 assms(2) unfolding char_size_def ub_hd_uchar [OF assms(1)] by (simp add: code_units_def)
  next
    case 3
    then have "cp div 4096 < 16" by linarith
    then show ?thesis using 3 assms(2) unfolding char_size_def ub_hd_uchar [OF assms(1)] by (simp add: code_units_def)
  next
    case 4
    then have "cp div 262144 < 5" using lt by linarith
    then show ?thesis using 4 assms(2) unfolding char_size_def ub_hd_uchar [OF assms(1)] by (simp add: code_units_def)
  qed (use assms(2) in \<open>simp add: char_size_def ub_hd_uchar [OF assms(1)] code_units_def\<close>)
qed

lemma nth_utext: "length (utext xs) < length (utext (xs @ cp # ys)) \<and>
    utext (xs @ cp # ys) ! length (utext xs) = hd (uchar cp)"
  by (cases "uchar cp") (auto simp: nth_append)

lemma utf8_length_from_utext:
  assumes "\<forall>cp \<in> set (xs @ ys). scalar cp"
  shows "utf8_length_from (utext (xs @ ys)) (length (utext xs)) = Some (length ys)"
  using assms
proof (induction ys arbitrary: xs)
  case Nil
  then show ?case by (subst utf8_length_from.simps) simp
next
  case (Cons cp ys)
  have "char_size (utext (xs @ cp # ys) ! length (utext xs)) (length (utext (xs @ cp # ys)) - length (utext xs))
      = Some (length (code_units cp))"
    using nth_utext [of xs cp ys] char_size_uchar [of cp] Cons.prems by simp
  moreover have "utf8_length_from (utext (xs @ cp # ys)) (length (utext xs) + length (code_units cp)) = Some (length ys)"
    using Cons.IH [of "xs @ [cp]"] Cons.prems by simp
  ultimately show ?case using nth_utext [of xs cp ys] by (subst utf8_length_from.simps) simp
qed

lemma utf8_string_length_utext:
  "\<forall>cp \<in> set cps. scalar cp \<Longrightarrow> utf8_string_length (utext cps) = Some (length cps)"
  using utf8_length_from_utext [of "[]" cps] by (simp add: utf8_string_length_def)

lemma byte_index_from_utext:
  assumes "\<forall>cp \<in> set (xs @ ys @ zs). scalar cp" "length (utext (xs @ ys @ zs)) < 2 ^ 63"
  shows "byte_index_from (utext (xs @ ys @ zs)) (length (utext xs)) (length ys) = length (utext (xs @ ys))"
  using assms
proof (induction ys arbitrary: xs)
  case (Cons cp ys)
  let ?s = "utext (xs @ (cp # ys) @ zs)"
  have at: "str_at ?s (length (utext xs)) = hd (uchar cp)"
    using nth_utext [of xs cp "ys @ zs"] by (simp add: str_at_def)
  have "(int (length ?s) - int (length (utext xs)) - 1) mod 2 ^ 64
      = int (length (uchar cp) + length (utext (ys @ zs)) - 1)"
    using Cons.prems(2) uchar_nonempty [of cp]
    by (cases "uchar cp") (simp_all add: mod_pos_pos_trivial)
  then have "length (code_units cp) - 1 \<le> nat ((int (length ?s) - int (length (utext xs)) - 1) mod 2 ^ 64)"
    by simp
  then have size: "char_size (str_at ?s (length (utext xs)))
      (nat ((int (length ?s) - int (length (utext xs)) - 1) mod 2 ^ 64)) = Some (length (code_units cp))"
    using at char_size_uchar [of cp] Cons.prems(1) by simp
  show ?case using Cons.IH [of "xs @ [cp]"] Cons.prems
    by (simp only: length_Cons byte_index_from.simps size Let_def option.case) simp
qed simp

lemma char_to_byte_index_utext:
  assumes "\<forall>cp \<in> set cps. scalar cp" "length (utext cps) < 2 ^ 63" "k \<le> length cps"
  shows "utf8_char_to_byte_index (utext cps) k = length (utext (take k cps))"
  using byte_index_from_utext [of "[]" "take k cps" "drop k cps"] assms
  by (simp add: utf8_char_to_byte_index_def min_absorb2 flip: utext_simps(3))

lemma take_utext: "k \<le> length cps \<Longrightarrow> take (length (utext (take k cps))) (utext cps) = utext (take k cps)"
  by (metis append_eq_conv_conj append_take_drop_id utext_simps(3))

lemma drop_utext: "k \<le> length cps \<Longrightarrow> drop (length (utext (take k cps))) (utext cps) = utext (drop k cps)"
  by (metis append_eq_conv_conj append_take_drop_id utext_simps(3))

lemma ellipsis_utext: "ellipsis = utext [0x22EF]"
  by (simp add: ellipsis_def uchar_def code_units_def char_of_def bit_0)

section \<open>Cutting and centering\<close>

lemma length_utext: "length cps \<le> length (utext cps)"
proof (induction cps)
  case (Cons cp cps)
  then show ?case by (cases "code_units cp") auto
qed simp

lemma truncate_to_middle:
  assumes "\<forall>cp \<in> set cps. scalar cp" "length (utext cps) < 2 ^ 63" "m < length cps" "3 \<le> m"
  defines "r \<equiv> length cps - m + 1"
  defines "f \<equiv> length cps div 2 - r div 2"
  shows "truncate_to (utext cps) m = Some (utext (take f cps @ 0x22EF # drop (f + r) cps))"
proof -
  have fr: "f + r \<le> length cps" unfolding f_def r_def using assms(3,4) by linarith
  have "utf8_char_to_byte_index (utext cps) f = length (utext (take f cps))"
    and "utf8_char_to_byte_index (utext cps) (f + r) = length (utext (take (f + r) cps))"
    using char_to_byte_index_utext [OF assms(1,2)] fr by simp_all
  moreover have "take (length (utext (take f cps))) (utext cps) = utext (take f cps)"
    and "drop (length (utext (take (f + r) cps))) (utext cps) = utext (drop (f + r) cps)"
    using take_utext [of f cps] drop_utext [of "f + r" cps] fr by simp_all
  moreover have "length (utext (take f cps)) \<le> length (utext cps)"
    by (metis append_take_drop_id length_append le_add1 utext_simps(3))
  moreover have "truncate_to (utext cps) m =
      (if utf8_char_to_byte_index (utext cps) f \<le> length (utext cps)
       then Some (take (utf8_char_to_byte_index (utext cps) f) (utext cps) @ ellipsis
         @ drop (utf8_char_to_byte_index (utext cps) (f + r)) (utext cps)) else None)"
    using length_utext [of cps] assms(3,4) utf8_string_length_utext [OF assms(1)]
    by (simp add: truncate_to_def Let_def r_def f_def)
  ultimately show ?thesis by (simp add: ellipsis_utext)
qed

text \<open>
  C22: Valid UTF-8 text of at most as many characters as asked for is kept; longer text is cut in the middle, to
  exactly that many characters with the ellipsis, the same number of characters (but for one)
  kept at the front and at the back; and to the ellipsis alone when fewer than three are asked for.
\<close>

theorem truncate_to_correct:
  assumes "\<forall>cp \<in> set cps. scalar cp" "length (utext cps) < 2 ^ 63"
  shows "if length cps \<le> m then truncate_to (utext cps) m = Some (utext cps)
    else if m < 3 then truncate_to (utext cps) m = Some (utext [0x22EF])
    else \<exists>f b. f + 1 + b = m \<and> f \<le> b + 1 \<and> b \<le> f + 1
      \<and> truncate_to (utext cps) m = Some (utext (take f cps @ 0x22EF # drop (length cps - b) cps))"
proof -
  consider "length cps \<le> m" | "m < length cps" "m < 3" | "m < length cps" "3 \<le> m" by linarith
  then show ?thesis
  proof cases
    case 1
    then show ?thesis using utf8_string_length_utext [OF assms(1)] by (simp add: truncate_to_def)
  next
    case 2
    then show ?thesis using utf8_string_length_utext [OF assms(1)] length_utext [of cps]
      by (simp add: truncate_to_def ellipsis_utext)
  next
    case 3
    define r f where "r = length cps - m + 1" and "f = length cps div 2 - r div 2"
    define b where "b = m - 1 - f"
    have "f + 1 + b = m" "f \<le> b + 1" "b \<le> f + 1" and fr: "f + r = length cps - b"
      unfolding b_def f_def r_def using 3 by linarith+
    moreover have "truncate_to (utext cps) m = Some (utext (take f cps @ 0x22EF # drop (length cps - b) cps))"
      using truncate_to_middle [OF assms 3] unfolding fr [symmetric] f_def r_def .
    ultimately show ?thesis using 3 by auto
  qed
qed

definition sample_text :: "nat list" where
  "sample_text = [0x61, 0x20AC, 0x63, 0x64, 0x65]"

lemma truncate_to_correct_witness:
  "length sample_text = 5 \<and> (\<exists>f b. f + 1 + b = 4 \<and> f \<le> b + 1 \<and> b \<le> f + 1
    \<and> truncate_to (utext sample_text) 4
      = Some (utext (take f sample_text @ 0x22EF # drop (length sample_text - b) sample_text)))"
proof -
  have "length sample_text = 5" "\<forall>cp \<in> set sample_text. scalar cp" "length (utext sample_text) < 2 ^ 63"
    by (simp_all add: sample_text_def scalar_def code_units_def)
  then show ?thesis using truncate_to_correct [of sample_text 4] by simp
qed

text \<open>The characters of centered text are as many as its width.\<close>

lemma utext_blanks: "utext (replicate k 0x20) = replicate k (CHR '' '')"
  by (induction k) (simp_all add: uchar_def code_units_def char_of_def bit_0)

lemma truncate_to_chars:
  assumes "\<forall>cp \<in> set cps. scalar cp" "length (utext cps) < 2 ^ 63" "1 \<le> m"
  shows "\<exists>zs. truncate_to (utext cps) m = Some (utext zs) \<and> (\<forall>cp \<in> set zs. scalar cp) \<and> length zs \<le> m"
proof -
  consider "length cps \<le> m" | "m < length cps" "m < 3" | "m < length cps" "3 \<le> m" by linarith
  then show ?thesis
  proof cases
    case 1
    then show ?thesis using assms(1) utf8_string_length_utext [OF assms(1)] by (auto simp: truncate_to_def)
  next
    case 2
    then have "truncate_to (utext cps) m = Some (utext [0x22EF])"
      using utf8_string_length_utext [OF assms(1)] length_utext [of cps] by (simp add: truncate_to_def ellipsis_utext)
    then show ?thesis using assms(3) by (intro exI [of _ "[0x22EF]"]) (simp add: scalar_def)
  next
    case 3
    let ?r = "length cps - m + 1"
    let ?f = "length cps div 2 - ?r div 2"
    let ?zs = "take ?f cps @ 0x22EF # drop (?f + ?r) cps"
    have "length ?zs \<le> m" using 3 by simp
    moreover have "\<forall>cp \<in> set ?zs. scalar cp"
      using assms(1) by (auto simp: scalar_def dest: in_set_takeD in_set_dropD)
    ultimately show ?thesis using truncate_to_middle [OF assms(1,2) 3] by blast
  qed
qed

lemma center_str_width:
  assumes "\<forall>cp \<in> set cps. scalar cp" "length (utext cps) < 2 ^ 63" "1 \<le> width"
  shows "\<exists>zs. center_str (utext cps) width = Some (utext zs) \<and> length zs = width"
proof -
  from truncate_to_chars [OF assms] obtain zs where zs: "truncate_to (utext cps) width = Some (utext zs)"
    "\<forall>cp \<in> set zs. scalar cp" "length zs \<le> width" by blast
  let ?k = "width - length zs"
  have "center_str (utext cps) width
      = Some (utext (replicate (?k div 2) 0x20 @ zs @ replicate (?k - ?k div 2) 0x20))"
    using zs utf8_string_length_utext [OF zs(2)] by (simp add: center_str_def utext_blanks Let_def)
  then show ?thesis using zs(3)
    by (intro exI [of _ "replicate (?k div 2) 0x20 @ zs @ replicate (?k - ?k div 2) 0x20"]) simp
qed

text \<open>
  \<open>utf8_string_length\<close> lets a character reach one byte past the end: the first two bytes of a
  three-byte character count as one.
\<close>

lemma truncated_character_counts:
  "utf8_string_length [CHR 0xE2, CHR 0x8B] = Some 1 \<and> utf8_string_length [CHR 0xE2] = None"
  by (simp add: utf8_string_length_def utf8_length_from.simps char_size_def)

section \<open>Quoting and words\<close>

lemma unquote_quoted_char:
  assumes "c \<noteq> CHR 0x07" "c \<noteq> CHR 0x08" "q \<notin> {CHR 0x5C, CHR ''n'', CHR ''r'', CHR ''t''}"
  shows "unquote_content (quote_char_content q c @ rest) q = c # unquote_content rest q"
  using assms by (cases rest) (auto simp: quote_char_content_def)

lemma unquote_quote_content:
  assumes "CHR 0x07 \<notin> set s" "CHR 0x08 \<notin> set s" "q \<notin> {CHR 0x5C, CHR ''n'', CHR ''r'', CHR ''t''}"
  shows "unquote_content (quote_content s q) q = s"
  using assms(1,2)
proof (induction s)
  case (Cons c s)
  then have "c \<noteq> CHR 0x07" "c \<noteq> CHR 0x08" by auto
  then show ?case using Cons unquote_quoted_char [OF _ _ assms(3), of c "quote_content s q"]
    by (simp add: quote_content_def)
qed (simp add: quote_content_def)

text \<open>A bell is written as an escape that is read as a letter.\<close>

lemma bell_is_lost: "unquote_content (quote_content [CHR 0x07] (CHR 0x22)) (CHR 0x22) = ''a''"
  by (simp add: quote_content_def quote_char_content_def)

text \<open>Abbreviating a text that begins with a separator makes it longer, over its terminating NUL.\<close>

lemma abbreviate_leading_separator:
  "abbreviate_str (''/abc'' @ [CHR 0x00]) 4 3 = Some (''//abc'', 5)"
  by (simp add: abbreviate_str_def abbreviate_from.simps memmove_def is_separator_def str_at_def)

lemma split_when_eq: "split_when p (xs @ c # ys) = (xs, ys)" if "\<forall>x \<in> set xs. \<not> p x" "p c"
  using that by (induction xs) (simp_all add: split_when_def)

lemma split_when_all: "split_when p xs = (xs, [])" if "\<forall>x \<in> set xs. \<not> p x"
  using that by (induction xs) (simp_all add: split_when_def)

declare split_ws.simps [simp del]

lemma split_ws_eq:
  "split_when isspace s = (first, second) \<Longrightarrow> split_ws s =
    (if first = [] then (if second = [] then [] else split_ws second) else first # split_ws second)"
  by (subst split_ws.simps) simp

definition is_token :: "string \<Rightarrow> bool" where
  "is_token t \<longleftrightarrow> t \<noteq> [] \<and> list_all (\<lambda>c. \<not> isspace c) t"

lemma split_ws_tokens: "list_all is_token (split_ws s)"
proof (induction s rule: split_ws.induct)
  case (1 s)
  obtain first second where sw: "split_when isspace s = (first, second)" by (cases "split_when isspace s")
  then have "first \<noteq> [] \<Longrightarrow> is_token first"
    by (auto simp: split_when_def is_token_def list_all_iff dest: set_takeWhileD)
  then show ?case using 1 [OF sw [symmetric] refl] unfolding split_ws_eq [OF sw]
    by (cases "first = []"; cases "second = []") simp_all
qed

lemma filter_split_when: "filter (\<lambda>c. \<not> p c) s = fst (split_when p s) @ filter (\<lambda>c. \<not> p c) (snd (split_when p s))"
  by (induction s) (auto simp: split_when_def)

lemma split_ws_concat: "concat (split_ws s) = filter (\<lambda>c. \<not> isspace c) s"
proof (induction s rule: split_ws.induct)
  case (1 s)
  obtain first second where sw: "split_when isspace s = (first, second)" by (cases "split_when isspace s")
  show ?case using 1 [OF sw [symmetric] refl] filter_split_when [of isspace s] unfolding split_ws_eq [OF sw] sw
    by (cases "first = []"; cases "second = []") simp_all
qed

end
