(* ===== verification/Table_Cell.thy ===== *)
theory Table_Cell
  imports Attr_Line_Spec String_Util
begin

text \<open>
  The text of a cell of a table (\<open>attr_line_t::from_table_cell_content\<close> of \<open>src/base/attr_line.cc\<close>): white
  space that breaks lines and bytes that are not UTF-8 are replaced by symbols, and text that is too wide
  is cut in the middle. Removing ANSI escapes is a parameter (regular expressions).
\<close>

section \<open>The loop over the bytes\<close>

definition next_in :: "nat \<Rightarrow> nat \<Rightarrow> string \<Rightarrow> nat \<Rightarrow> bool" where
  "next_in lo hi s k \<longleftrightarrow> k < length s \<and> lo \<le> ub (s ! k) \<and> ub (s ! k) \<le> hi"

definition tab_symbol :: string where "tab_symbol = [CHR 0xE2, CHR 0x87, CHR 0xA5]"
definition lf_symbol :: string where "lf_symbol = [CHR 0xE2, CHR 0x90, CHR 0x8A]"
definition cr_symbol :: string where "cr_symbol = [CHR 0xE2, CHR 0x90, CHR 0x8D]"
definition rep_symbol :: string where "rep_symbol = [CHR 0xEF, CHR 0xBF, CHR 0xBD]"

text \<open>
  What one pass does with the bytes from \<open>index\<close> on: by how much the index moves ahead, the
  replacement, the width, and whether it is taken for ANSI.
\<close>

definition table_char :: "string \<Rightarrow> nat \<times> string \<times> nat \<times> bool" where
  "table_char s =
    (let ch = ub (s ! 0);
         check = (\<lambda>ok n. if ok then (n, [], 1, False) else (0, rep_symbol, 1, False)) in
     if ch = 0x09 then (0, tab_symbol, 1, False)
     else if ch = 0x0A then (0, lf_symbol, 1, False)
     else if ch = 0x0D then (0, cr_symbol, 1, False)
     else if ch = 0x08 \<or> ch = 0x1B then (0, [], 0, True)
     else if ch < 0x80 then (0, [], 1, False)
     else if ch < 0xC2 then (0, rep_symbol, 1, False)
     else if ch \<le> 0xDF then check (next_in 0x80 0xBF s 1) 1
     else if ch = 0xE0 then check (next_in 0xA0 0xBF s 1 \<and> next_in 0x80 0xBF s 2) 2
     else if ch \<le> 0xEC then check (next_in 0x80 0xBF s 1 \<and> next_in 0x80 0xBF s 2) 2
     else if ch = 0xED then check (next_in 0x80 0x9F s 1 \<and> next_in 0x80 0xBF s 2) 2
     else if ch \<le> 0xEF then check (next_in 0x80 0xBF s 1 \<and> next_in 0x80 0xBF s 2) 2
     else if ch = 0xF0 then check (next_in 0x90 0xBF s 1 \<and> next_in 0x80 0xBF s 2 \<and> next_in 0x80 0xBF s 3) 3
     else if ch \<le> 0xF3 then check (next_in 0x80 0xBF s 1 \<and> next_in 0x80 0xBF s 2 \<and> next_in 0x80 0xBF s 3) 3
     else if ch = 0xF4 then check (next_in 0x80 0x8F s 1 \<and> next_in 0x80 0xBF s 2 \<and> next_in 0x80 0xBF s 3) 3
     else (0, rep_symbol, 1, False))"

record 'v cell_state =
  cs_copy_start :: nat
  cs_line :: "'v attr_line"
  cs_width :: nat
  cs_has_ansi :: bool

function cell_loop :: "'v \<Rightarrow> string \<Rightarrow> nat \<Rightarrow> 'v cell_state \<Rightarrow> 'v cell_state" where
  "cell_loop hidden content index st =
    (if index < length content
     then let (ahead, replacement, w, is_ansi) = table_char (drop index content);
              i = index + ahead;
              st1 = st\<lparr>cs_width := cs_width st + w, cs_has_ansi := cs_has_ansi st \<or> is_ansi\<rparr> in
       if replacement = [] then cell_loop hidden content (i + 1) st1
       else let al = append_str (take (i - cs_copy_start st) (drop (cs_copy_start st) content)) (cs_line st) in
         cell_loop hidden content (i + 1)
           (st1\<lparr>cs_copy_start := i + 1, cs_line := append_with replacement (VC_ROLE, hidden) al\<rparr>)
     else st)"
  by pat_completeness auto

termination
  by (relation "measure (\<lambda>(hidden, content, index, st). length content - index)") auto

declare cell_loop.simps [simp del]

definition cut_middle :: "'v \<Rightarrow> nat \<Rightarrow> nat \<Rightarrow> 'v attr_line \<Rightarrow> 'v attr_line option" where
  "cut_middle hidden char_width max_char_width al =
    (let chars_to_remove = int char_width - int max_char_width + 1;
         chars_to_keep_at_front = int (char_width div 2) - chars_to_remove div 2;
         bytes_to_keep_at_front = utf8_char_to_byte_index (al_string al) (nat chars_to_keep_at_front);
         remove_up_to_bytes =
           utf8_char_to_byte_index (al_string al) (nat (chars_to_keep_at_front + chars_to_remove))
     in do {
       al1 \<leftarrow> al_erase bytes_to_keep_at_front (Some (remove_up_to_bytes - bytes_to_keep_at_front)) al;
       al2 \<leftarrow> insert_str bytes_to_keep_at_front ellipsis al1;
       Some (with_attr (string_attr_of (line_range_of (int bytes_to_keep_at_front)
         (int bytes_to_keep_at_front + int (length ellipsis))) (VC_ROLE, hidden)) al2)
     })"

definition from_table_cell_content ::
  "('v attr_line \<Rightarrow> 'v attr_line) \<Rightarrow> 'v \<Rightarrow> string \<Rightarrow> nat \<Rightarrow> 'v attr_line option" where
  "from_table_cell_content scrub_ansi_string hidden content max_char_width =
    (let st = cell_loop hidden content 0
           \<lparr>cs_copy_start = 0, cs_line = al_of [], cs_width = 0, cs_has_ansi = False\<rparr>;
         al1 = (if cs_copy_start st < length content
           then append_str (drop (cs_copy_start st) content) (cs_line st) else cs_line st);
         al2 = (if cs_has_ansi st then scrub_ansi_string al1 else al1)
     in if cs_width st > max_char_width then cut_middle hidden (cs_width st) max_char_width al2 else Some al2)"

section \<open>The characters of a cell\<close>

definition cell_char :: "nat \<Rightarrow> bool" where
  "cell_char cp \<longleftrightarrow> scalar cp \<and> cp \<notin> {0x09, 0x0A, 0x0D}"

lemma symbols:
  "tab_symbol = uchar 0x21E5" "lf_symbol = uchar 0x240A" "cr_symbol = uchar 0x240D" "rep_symbol = uchar 0xFFFD"
  by (simp_all add: tab_symbol_def lf_symbol_def cr_symbol_def rep_symbol_def uchar_def code_units_def
      char_of_def bit_0)

lemma table_char_accepted:
  assumes "table_char (c # cs) = (n, [], w, a)" "ub c \<noteq> 0" "\<not> a"
  shows "w = 1 \<and> accepted (ub c # map ub cs) (Suc n) \<and> ub c \<notin> {0x09, 0x0A, 0x0D}"
  using assms
  by (cases cs; cases "tl cs"; cases "tl (tl cs)")
    (auto simp: table_char_def Let_def next_in_def cont_def symbols split: if_splits)

lemma char_of_ub: "map char_of (map ub s) = s"
  by (simp add: comp_def map_idI)

lemma table_char_keeps:
  assumes "table_char s = (n, [], w, a)" "s \<noteq> []" "ub (hd s) \<noteq> 0" "\<not> a"
  shows "w = 1 \<and> (\<exists>cp. cell_char cp \<and> s = uchar cp @ drop (Suc n) s \<and> Suc n = length (uchar cp))"
proof -
  obtain c cs where s: "s = c # cs" using assms(2) by (cases s) auto
  have acc: "accepted (map ub s) (Suc n)" "w = 1" "ub c \<notin> {0x09, 0x0A, 0x0D}"
    using table_char_accepted [of c cs n w a] assms s by auto
  obtain cp where cp: "scalar cp" "take (Suc n) (map ub s) = code_units cp" "Suc n = length (code_units cp)"
    using accepted_decodes [OF acc(1)] by blast
  have take: "take (Suc n) s = uchar cp"
    using cp(2) char_of_ub [of "take (Suc n) s"] by (simp add: uchar_def take_map)
  have "hd (code_units cp) = ub c" using cp(2) s by (metis hd_conv_nth list.sel(1) list.simps(9) take_Suc_Cons)
  then have "cp \<notin> {0x09, 0x0A, 0x0D}" using acc(3) by (auto simp: code_units_def)
  then have "cell_char cp" using cp(1) by (simp add: cell_char_def)
  moreover have "s = uchar cp @ drop (Suc n) s" using take append_take_drop_id [of "Suc n" s] by simp
  ultimately show ?thesis using acc(2) cp(3) by (metis length_uchar)
qed

lemma table_char_replaces:
  assumes "table_char s = (n, r, w, a)" "r \<noteq> []"
  shows "w = 1 \<and> n = 0 \<and> \<not> a \<and> (\<exists>cp. cell_char cp \<and> r = uchar cp)"
proof -
  have "w = 1 \<and> n = 0 \<and> \<not> a \<and> r \<in> {tab_symbol, lf_symbol, cr_symbol, rep_symbol}"
    using assms by (auto simp: table_char_def Let_def split: if_splits)
  moreover have "cell_char 0x21E5" "cell_char 0x240A" "cell_char 0x240D" "cell_char 0xFFFD"
    by (simp_all add: cell_char_def scalar_def)
  ultimately show ?thesis using symbols by blast
qed

lemma table_char_ansi: "table_char s = (n, r, w, a) \<Longrightarrow> a \<Longrightarrow> ub (s ! 0) = 0x08 \<or> ub (s ! 0) = 0x1B"
  by (auto simp: table_char_def Let_def split: if_splits)

text \<open>What has been copied together with what waits to be copied is the text so far, a character for each column.\<close>

definition cell_ok :: "string \<Rightarrow> nat \<Rightarrow> 'v cell_state \<Rightarrow> bool" where
  "cell_ok content index st \<longleftrightarrow>
    cs_copy_start st \<le> index \<and> al_ok (cs_line st) \<and> \<not> cs_has_ansi st \<and> cs_width st \<le> index
    \<and> (\<exists>cps. (\<forall>cp \<in> set cps. cell_char cp) \<and> length cps = cs_width st
        \<and> al_string (cs_line st) @ take (index - cs_copy_start st) (drop (cs_copy_start st) content) = utext cps)"

definition plain :: "string \<Rightarrow> bool" where
  "plain s \<longleftrightarrow> (\<forall>c \<in> set s. ub c \<notin> {0, 0x08, 0x1B})"

lemma utext_snoc: "utext cps @ uchar cp = utext (cps @ [cp])"
  by simp

lemma cell_loop_ok:
  assumes "plain content"
  shows "cell_ok content index st \<Longrightarrow> index \<le> length content \<Longrightarrow>
    cell_ok content (length content) (cell_loop hidden content index st)"
proof (induction "length content - index" arbitrary: index st rule: less_induct)
  case less
  show ?case
  proof (cases "index < length content")
    case False
    then show ?thesis using less.prems by (subst cell_loop.simps) simp
  next
    case True
    let ?s = "drop index content"
    have ne: "?s \<noteq> []" "hd ?s = content ! index" using True by (simp_all add: hd_drop_conv_nth)
    then have ub: "ub (content ! index) \<notin> {0, 0x08, 0x1B}" using assms True by (simp add: plain_def)
    obtain n r w a where tc: "table_char ?s = (n, r, w, a)" by (cases "table_char ?s") auto
    have na: "\<not> a" using table_char_ansi [OF tc] ub True by auto
    obtain cps where cps: "\<forall>cp \<in> set cps. cell_char cp" "length cps = cs_width st"
      "al_string (cs_line st) @ take (index - cs_copy_start st) (drop (cs_copy_start st) content) = utext cps"
      and st: "cs_copy_start st \<le> index" "al_ok (cs_line st)" "\<not> cs_has_ansi st" "cs_width st \<le> index"
      using less.prems(1) by (auto simp: cell_ok_def)
    show ?thesis
    proof (cases "r = []")
      case True
      have "ub (hd ?s) \<noteq> 0" using ub ne(2) by simp
      then obtain cp where cp: "w = 1" "cell_char cp" "?s = uchar cp @ drop (Suc n) ?s" "Suc n = length (uchar cp)"
        using table_char_keeps [OF tc [unfolded True] ne(1) _ na] by blast
      have len: "index + n + 1 \<le> length content"
        using cp(3,4) by (metis add.assoc add.commute append_eq_conv_conj drop_append le_add_diff_inverse
            length_append length_drop less.prems(2) plus_1_eq_Suc add_le_cancel_left le_add1)
      have split: "take (index + n + 1 - cs_copy_start st) (drop (cs_copy_start st) content)
          = take (index - cs_copy_start st) (drop (cs_copy_start st) content) @ uchar cp"
      proof -
        have eq: "index + n + 1 - cs_copy_start st = (index - cs_copy_start st) + Suc n" using st(1) by simp
        have "take (Suc n) (drop (index - cs_copy_start st) (drop (cs_copy_start st) content)) = uchar cp"
          using st(1) cp(3,4) by (metis append_eq_conv_conj drop_drop le_add_diff_inverse2)
        then show ?thesis unfolding eq take_add by simp
      qed
      let ?st = "st\<lparr>cs_width := cs_width st + w, cs_has_ansi := cs_has_ansi st \<or> a\<rparr>"
      have "al_string (cs_line ?st) @ take (index + n + 1 - cs_copy_start ?st) (drop (cs_copy_start ?st) content)
          = utext (cps @ [cp])"
        using cps(3) split by (simp flip: append_assoc)
      then have "cell_ok content (index + n + 1) ?st"
        unfolding cell_ok_def using cps(1,2) st cp(1,2) na
        by (intro conjI exI [of _ "cps @ [cp]"]) auto
      then show ?thesis using less.hyps [of "index + n + 1" ?st] len tc True \<open>index < length content\<close>
        by (subst cell_loop.simps) simp
    next
      case False
      obtain cp where cp: "w = 1" "n = 0" "cell_char cp" "r = uchar cp"
        using table_char_replaces [OF tc False] by blast
      let ?al = "append_with r (VC_ROLE, hidden)
        (append_str (take (index - cs_copy_start st) (drop (cs_copy_start st) content)) (cs_line st))"
      let ?st = "st\<lparr>cs_width := cs_width st + w, cs_has_ansi := cs_has_ansi st \<or> a,
        cs_copy_start := index + 1, cs_line := ?al\<rparr>"
      have "al_string ?al = utext (cps @ [cp])"
        using cps(3) cp(4) by (simp add: append_with_def append_str_def with_attr_def Let_def flip: append_assoc)
      then have "cell_ok content (index + 1) ?st"
        unfolding cell_ok_def using cps(1,2) st cp(1,3) na append_with_ok [OF append_str_ok [OF st(2)]]
        by (intro conjI exI [of _ "cps @ [cp]"]) auto
      then show ?thesis using less.hyps [of "index + 1" ?st] tc False cp(2) \<open>index < length content\<close>
        by (subst cell_loop.simps) (simp add: Let_def)
    qed
  qed
qed

section \<open>The cell\<close>

lemma length_utext_le: "length (utext cps) \<le> 4 * length cps"
proof (induction cps)
  case (Cons cp cps)
  then show ?case by (simp add: code_units_def)
qed simp

lemma erase_string:
  "pos \<le> length (al_string al) \<Longrightarrow>
    \<exists>al'. al_erase pos (Some len) al = Some al' \<and> al_string al' = take pos (al_string al) @ drop (pos + len) (al_string al)"
  by (simp add: al_erase_def str_erase_def)

lemma insert_string:
  "index \<le> length (al_string al) \<Longrightarrow>
    \<exists>al'. insert_str index s al = Some al' \<and> al_string al' = take index (al_string al) @ s @ drop index (al_string al)"
  by (simp add: insert_str_def str_insert_def)

lemma al_string_with_attr: "al_string (with_attr a al) = al_string al"
  by (simp add: with_attr_def)

lemma cut_middle_text:
  assumes "al_string al = utext cps" "\<forall>cp \<in> set cps. cell_char cp" "length (utext cps) < 2 ^ 63"
    and "1 \<le> m" "m < length cps"
  shows "\<exists>al' zs. cut_middle hidden (length cps) m al = Some al' \<and> al_string al' = utext zs
    \<and> (\<forall>cp \<in> set zs. cell_char cp) \<and> length zs = m"
proof -
  let ?n = "length cps"
  define r f where "r = ?n - m + 1" and "f = ?n div 2 - r div 2"
  have fr: "f + r \<le> ?n" and count: "f + 1 + (?n - (f + r)) = m" unfolding f_def r_def using assms(4,5) by linarith+
  have r: "int ?n - int m + 1 = int r" and f: "int (?n div 2) - int r div 2 = int f"
    unfolding f_def r_def using assms(4,5) by linarith+
  have fr': "nat (int f + int r) = f + r" by simp
  have cps: "\<forall>cp \<in> set cps. scalar cp" using assms(2) by (simp add: cell_char_def)
  let ?keep = "length (utext (take f cps))" and ?upto = "length (utext (take (f + r) cps))"
  have idx: "utf8_char_to_byte_index (al_string al) f = ?keep" "utf8_char_to_byte_index (al_string al) (f + r) = ?upto"
    using char_to_byte_index_utext [OF cps assms(3)] fr assms(1) by simp_all
  have tk: "take ?keep (utext cps) = utext (take f cps)" and dr: "drop ?upto (utext cps) = utext (drop (f + r) cps)"
    using take_utext [of f cps] drop_utext [of "f + r" cps] fr by simp_all
  have "take (f + r) cps = take f cps @ take r (drop f cps)" by (rule take_add)
  then have le: "?keep \<le> ?upto" by simp
  have kl: "?keep \<le> length (al_string al)" using tk assms(1) by (metis append_take_drop_id length_append le_add1)
  obtain al1 where al1: "al_erase ?keep (Some (?upto - ?keep)) al = Some al1"
    "al_string al1 = utext (take f cps) @ utext (drop (f + r) cps)"
    using erase_string [OF kl, of "?upto - ?keep"] le tk dr assms(1) by auto
  obtain al2 where al2: "insert_str ?keep ellipsis al1 = Some al2"
    "al_string al2 = utext (take f cps) @ ellipsis @ utext (drop (f + r) cps)"
    using insert_string [of ?keep al1 ellipsis] al1(2) by auto
  have "cut_middle hidden ?n m al = Some (with_attr (string_attr_of (line_range_of (int ?keep)
      (int ?keep + int (length ellipsis))) (VC_ROLE, hidden)) al2)"
    using al1(1) al2(1) unfolding cut_middle_def Let_def r f fr' nat_int idx by simp
  moreover have "al_string al2 = utext (take f cps @ 0x22EF # drop (f + r) cps)"
    using al2(2) by (simp add: ellipsis_utext)
  moreover have "\<forall>cp \<in> set (take f cps @ 0x22EF # drop (f + r) cps). cell_char cp"
    using assms(2) by (auto simp: cell_char_def scalar_def dest: in_set_takeD in_set_dropD)
  moreover have "length (take f cps @ 0x22EF # drop (f + r) cps) = m" using count fr by simp
  ultimately show ?thesis
    by (intro exI [of _ "with_attr (string_attr_of (line_range_of (int ?keep)
        (int ?keep + int (length ellipsis))) (VC_ROLE, hidden)) al2"]
      exI [of _ "take f cps @ 0x22EF # drop (f + r) cps"] conjI) (simp_all only: al_string_with_attr)
qed

text \<open>
  C19: The text of a cell made of bytes without NUL, backspaces and ANSI escapes is valid UTF-8 without tabs and line
  breaks, and has at most as many characters as the table has room for, at least one.
\<close>

theorem table_cell_text:
  assumes "plain content" "length content < 2 ^ 60" "1 \<le> max_char_width"
  shows "\<exists>al zs. from_table_cell_content scrub_ansi_string hidden content max_char_width = Some al
    \<and> al_string al = utext zs \<and> (\<forall>cp \<in> set zs. scalar cp \<and> cp \<notin> {0x09, 0x0A, 0x0D})
    \<and> length zs \<le> max_char_width"
proof -
  let ?init = "\<lparr>cs_copy_start = 0, cs_line = al_of [], cs_width = 0, cs_has_ansi = False\<rparr>"
  let ?st = "cell_loop hidden content 0 ?init"
  let ?al = "if cs_copy_start ?st < length content
    then append_str (drop (cs_copy_start ?st) content) (cs_line ?st) else cs_line ?st"
  have "cell_ok content 0 ?init" by (simp add: cell_ok_def al_of_ok) (simp add: al_of_def)
  from cell_loop_ok [OF assms(1) this, of hidden] obtain cps where cps: "\<forall>cp \<in> set cps. cell_char cp" "length cps = cs_width ?st"
    "al_string (cs_line ?st) @ take (length content - cs_copy_start ?st) (drop (cs_copy_start ?st) content) = utext cps"
    and st: "cs_copy_start ?st \<le> length content" "\<not> cs_has_ansi ?st" "cs_width ?st \<le> length content"
    unfolding cell_ok_def by auto
  have str: "al_string ?al = utext cps"
    using cps(3) st(1) by (cases "cs_copy_start ?st < length content") (simp_all add: append_str_def)
  have cell: "from_table_cell_content scrub_ansi_string hidden content max_char_width
      = (if cs_width ?st > max_char_width then cut_middle hidden (cs_width ?st) max_char_width ?al else Some ?al)"
    using st(2) by (simp add: from_table_cell_content_def Let_def)
  show ?thesis
  proof (cases "cs_width ?st > max_char_width")
    case False
    then show ?thesis using cell str cps(1,2) by (auto simp: cell_char_def)
  next
    case True
    have "length (utext cps) < 2 ^ 63" using length_utext_le [of cps] cps(2) st(3) assms(2) by simp
    then show ?thesis
      using cut_middle_text [OF str cps(1) _ assms(3), of hidden] True cell cps(2) by (fastforce simp: cell_char_def)
  qed
qed

lemma table_cell_text_witness:
  "\<exists>al zs. from_table_cell_content id () (''a'' @ [CHR 0x09, CHR 0xFF] @ ''bcd'') 4 = Some al
    \<and> al_string al = utext zs \<and> (\<forall>cp \<in> set zs. scalar cp \<and> cp \<notin> {0x09, 0x0A, 0x0D}) \<and> length zs \<le> 4"
  by (rule table_cell_text) (simp_all add: plain_def)

text \<open>
  The width counts the bytes of ANSI escapes, which are then removed: the place to cut is past the end
  of the text that is left, and \<open>erase\<close> throws.
\<close>

lemma byte_index_past: "length str \<le> i \<Longrightarrow> byte_index_from str i k = i + k"
  by (induction k arbitrary: i) (simp_all add: str_at_end char_size_def Let_def)

lemma ansi_cell_throws:
  "from_table_cell_content (\<lambda>_. al_of []) v (CHR 0x1B # ''[31m'' @ CHR 0x1B # ''[31m'') 4 = None"
proof -
  let ?content = "CHR 0x1B # ''[31m'' @ CHR 0x1B # ''[31m''"
  let ?st = "cell_loop v ?content 0 \<lparr>cs_copy_start = 0, cs_line = al_of [], cs_width = 0, cs_has_ansi = False\<rparr>"
  have "cs_width ?st = 8 \<and> cs_has_ansi ?st"
    by (simp add: cell_loop.simps table_char_def)
  moreover have "cut_middle v 8 4 (al_of [] :: 'a attr_line) = None"
    by (simp add: cut_middle_def al_of_def utf8_char_to_byte_index_def byte_index_past al_erase_def str_erase_def)
  ultimately show ?thesis by (simp add: from_table_cell_content_def)
qed

end
