(* ===== verification/Spec2Isabelle.thy ===== *)
theory Spec2Isabelle
  imports Logfile_Detect Log_Reading Date_Time_Scanner Ptimec_Times Filter_Stack Bookmarks Log_Rows Location_History Utf8 Shlex
    Cell_Walk Json_Walk Hist_Spec Attr_Wrap Table_Cell
begin

text \<open>
  A verification development for lnav, the log file navigator. It models the core of the program: from
  the bytes of a line, over its timestamp, to the index that interleaves the lines of all files in the
  order of time and shows the rows that the filters let through.

  \<^bold>\<open>The parts and how they interact.\<close> A line of a file is scanned for valid UTF-8 (\<open>is_utf8\<close>). Its
  timestamp is found and parsed by a \<open>date_time_scanner\<close>, which tries a table of formats, each with a
  parser that \<open>ptimec\<close> generates at build time and that calls one hand-written parser per directive;
  formats of the user go through the interpreter \<open>ptime_fmt\<close>. The lines of a file, with times and levels,
  make a \<open>logfile\<close>; an observer feeds new lines to the text filters, which keep a bit mask per line.
  \<open>logfile_sub_source::rebuild_index\<close> asks the files for new lines and merges them into one index with a
  tournament tree; the rows of the view are the lines of the index that the filters let through. Bookmarks
  and the history of locations refer to rows and to lines of the index. For each row that is shown, the index
  delegate adds a value to the histogram. Commands of the user are split by \<open>shlex\<close>. The results of
  SQL queries are kept in a container of packed cells, and values inside of JSON fields are named by
  JSON pointers, which a walker makes and the SQL function \<open>jget\<close> follows. What is shown is attributed
  text: bytes with ranges that carry styles, which is edited, split into lines, wrapped and cut to the
  width of a table.

  \<^bold>\<open>The theories.\<close> All names below are of files under \<open>src/src\<close>; a definition has the name of the
  function or member it models, a suffix where that name is taken, and the manifest gives its lines.

  \<^item> \<open>Lnav_Prelude\<close>: bytes as signed characters, digits, reads of a buffer around an offset, and the
    collections \<open>buf_simps\<close> and \<open>digit_simps\<close> that carry the parser proofs.
  \<^item> \<open>Time_Util\<close> (\<open>base/time_util.cc\<close>): \<open>struct tm\<close> as a record, \<open>secs2tm\<close>, \<open>tm2sec\<close>, RFC 3339 text and
    \<open>time_range\<close>. Calendar theorems against a definition of Gregorian dates; the round trip names
    the one year for which \<open>tm2sec\<close> is a day off.
  \<^item> \<open>Ptimec\<close> (\<open>ptimec.hh\<close>, \<open>ptimec_rt.cc\<close>): every directive parser and printer and both interpreters, with
    C's out-of-bounds checks as written. \<open>Ptimec_Codec\<close> states with the locale \<open>time_directive\<close> what it
    means that a printer and a parser are inverse, and interprets it for each directive that is;
    \<open>Ptimec_Format\<close> composes them along a format and shows bounds of parsing and printing.
    \<open>Ptimec_Compile\<close> (\<open>ptimec.cc\<close>, \<open>ptimec_spec.hh\<close>) models the generated functions as lists of statements
    and shows them equal to the interpreter, except for \<open>%Z\<close>, which only they convert. \<open>Ptimec_Times\<close> joins the formats with the calendar.
  \<^item> \<open>Date_Time_Scanner\<close> (\<open>base/date_time_scanner.cc\<close>): the search for a format, the lock on it, the caches
    of minutes and zone offsets; discovery, rescanning and the validity of the caches.
  \<^item> \<open>Utf8\<close> (\<open>base/is_utf8.cc\<close>): the scanner with its error table, against the encoding of scalar values.
  \<^item> \<open>Logfile\<close> (\<open>logfile.cc\<close>): the state of a file, \<open>process_prefix\<close> with the search for the best format
    and the repair of lines that are out of order, the loop of \<open>rebuild_index\<close> with the last line dropped
    and read again, and the adjustment of times. \<open>Logfile_Spec\<close> shows that lines stay in order, that
    polls in pieces are one poll and that adjustments are taken back, for a file that has a format, be the
    search for a better one still going on or not; \<open>Logfile_Detect\<close> which format
    is found; \<open>Log_Reading\<close> that polling a file keeps the promise the index relies on.
  \<^item> \<open>Filters\<close> (\<open>textview_curses.cc\<close>, \<open>filter_observer.cc\<close>): the filter stack, a file's filter state and the
    observer. \<open>Filter_Spec\<close> abstracts the arrays of one filter to a slot (locale \<open>slot_step\<close>) and shows
    which lines are marked and hidden; \<open>Filter_Stack\<close> treats free indexes, reverting, deleting.
  \<^item> \<open>Bookmarks\<close> (\<open>bookmarks.hh\<close>, \<open>bookmarks.cc\<close>): ordered vectors as a step relation with its invariant
    and the locale \<open>line_set\<close>, and the metadata of a line.
  \<^item> \<open>Kmerge\<close> (\<open>k_merge_tree.h\<close>): the tree and its operations; the locale \<open>merge_order\<close> holds the laws of a
    comparison and the correctness of the merge, interpreted for log lines in \<open>Logline\<close>
    (\<open>log_format_fwd.hh\<close>, \<open>base/log_level_enum.hh\<close>) and for the index in \<open>Log_Index_Spec\<close>.
  \<^item> \<open>Log_Source\<close> and \<open>Log_Index\<close> (\<open>logfile_sub_source.cc\<close>, \<open>logfile_sub_source.hh\<close>): the state of the log
    view, lookups, files and marks; \<open>rebuild_index\<close> in the phases the code has, the filters' rows.
    \<open>Log_Index_Spec\<close> says what an index has to hold and what a scan may do; \<open>Log_Rebuild\<close> composes the
    phases; \<open>Log_Rows\<close> shows which rows are visible and that the searches find them.
  \<^item> \<open>Location_History\<close> (\<open>textview_curses.cc\<close>, \<open>logfile_sub_source.cc\<close>, \<open>ring_span.hh\<close>): the ring buffer as
    a list, and both histories under the contract of the locale \<open>loc_history\<close>.
  \<^item> \<open>Shlex\<close> (\<open>shlex.cc\<close>): tokens, expansion and elements of command lines; termination, rejection and
    the round trip through quoting.
  \<^item> \<open>Hist_Source\<close> (\<open>hist_source.cc\<close>, \<open>hist_source.hh\<close>, the index delegate of \<open>view_helpers.cc\<close>): the chart,
    the blocks of buckets and the values added to them. \<open>Hist_Spec\<close> abstracts the blocks to the
    list of rows, shows what the rows count, that they are found by time, and joins the
    histogram with the visible rows of \<open>Log_Rows\<close>.
  \<^item> \<open>Cell_Container\<close> (\<open>base/cell_container.cc\<close>): the chunks with their cache, every kind of cell and the
    cursors. \<open>Cell_Walk\<close> has the invariant of the chain (\<open>container_holds\<close>: the chunks hold the cells
    that were pushed, at most three compressed ones are unpacked) and what a walk reads.
  \<^item> \<open>Json_Ptr\<close> (\<open>yajlpp/json_ptr.cc\<close>, \<open>yajlpp/json_op.cc\<close>, \<open>json-extension-functions.cc\<close>): escapes, the pointer
    that follows the events of a parser, the operation on what it finds and \<open>jget\<close>.
    \<open>Json_Extract\<close> shows that the value at a path is found, under the conditions on the keys and
    arrays passed on the way that the code needs, and evaluates documents where it goes wrong;
    \<open>Json_Walk\<close> models \<open>json_ptr_walk\<close>, shows what it reports and that its pointers lead back.
  \<^item> \<open>Attr_Line\<close> (\<open>base/line_range.hh\<close>, \<open>base/attr_line.cc\<close>, \<open>base/attr_line.hh\<close>): ranges, attributes and the operations
    on attributed lines. \<open>Attr_Line_Spec\<close> abstracts a line to the list of its styled characters, shows that
    the operations are those on the list and that ranges stay inside of the text, and evaluates where
    they go wrong. \<open>Attr_Wrap\<close> is the loop that wraps text, and that it ends.
  \<^item> \<open>String_Util\<close> (\<open>base/string_util.cc\<close>, \<open>ww898/cp_utf8.hpp\<close>): counting and cutting by UTF-8 characters, quoting,
    abbreviating, splitting. \<open>Table_Cell\<close> (\<open>base/attr_line.cc\<close>) is the text of a table cell, with the characters
    of \<open>Utf8\<close>: it is valid, on one line, and fits.

  \<^bold>\<open>Conventions.\<close> \<open>None\<close> stands for a failed assertion, undefined behaviour that the code rules out, or a loop
  that does not end; sums have the error on the left. C's \<open>int\<close>, \<open>long\<close> and \<open>size_t\<close> are integers or
  naturals where no value comes near their bounds (ranges of text: below 2^31 bytes; the year of \<open>secs2tm\<close>:
  up to 67 * 10^15 seconds), and words or explicit remainders where the code relies
  on the width (characters, masks, ring buffer indexes, the UTF-8 bytes, the packed fields of the index).
  The loops that end are functions with a termination proof; the loops of \<open>shlex\<close> and of reading a
  file are partial functions, and that they end is proved (for a file: if its format is known and no
  other format matches its lines better, \<open>settled\<close>). No definition runs on fuel. A chunk of cells
  is known by its place in the chain; a double of a cell is its 64 bits, one of the histogram a rational number.
  The difference of two times of the histogram wraps at 64 bits, because the code relies on it for
  the first value. The indexes of JSON arrays are unbounded integers (\<open>sscanf\<close> of a larger number is not modelled).

  \<^bold>\<open>Parameters.\<close> What is not in the source is an argument: \<open>strptime\<close>, the time zone database, the regular
  expression of a filter, the environment and the password file, \<open>stable_sort\<close>'s result as a stable
  insertion sort. The reading of the files is an argument of the index's \<open>rebuild_index\<close>: \<open>scans\<close> says what a file looks
  like after \<open>logfile::rebuild_index\<close>, and \<open>scan_ok\<close> is the promise the index relies on (new lines come at
  the end in the order of time unless the result is \<open>NEW_ORDER\<close>); \<open>Log_Reading\<close> proves it of the model of
  \<open>logfile.cc\<close> for files that grow by whole lines. In that model the scanners of the formats, the line
  buffer and the observer are arguments (\<open>log_format\<close>, \<open>env\<close>). For the cells, \<open>compress2\<close> and \<open>uncompress\<close> are
  arguments with the law that unpacking gives back what was packed (\<open>zlib_ok\<close>), and so are the formats of numbers.
  \<open>localtime_r\<close> gives the calendar time shifted by the zone's offset (\<open>local_zone\<close>), which the cache takes to be
  steady up to the next quarter of an hour (\<open>steady_offset\<close>).
  For JSON, the parser is the list of events it calls back with, and the status of the generator
  and the reading of the text of a number are arguments. For attributed text, the regular expressions for
  words and space, the widths of characters and the removal of ANSI escapes are arguments; wrapping
  asks that no match is empty (\<open>lib_ok\<close>).

  \<^bold>\<open>Not modelled.\<close> The log formats (regular expressions and JSON) that find the fields of a line, the
  buffered reads of \<open>line_buffer\<close>, and of \<open>logfile\<close> the parts that the manifest names; drawing, input and the
  views (of the histogram, the text and colours of its rows); the SQL virtual tables and the functions other than \<open>jget\<close>; sessions, configuration and the loaders of JSON (the parser and generator are libraries); background
  work (piper, curl, archives, remote tailers); generated tables and vendored libraries. The manifest
  lists each with its reason.
\<close>

end
